(* ===== verification/Prelude.thy ===== *)
theory Prelude
  imports Complex_Main "HOL-Library.Word" "HOL-Library.Multiset"
begin

text \<open>
  Shared vocabulary of the development: names for the machine types of the sources
  (\<^verbatim>\<open>POLY\<close> of \<^verbatim>\<open>tools/poly.h\<close> is a 32-bit unsigned integer, a \<^verbatim>\<open>char\<close> is a byte,
  \<^verbatim>\<open>chordID\<close> is a GMP integer), the collections of rewrite rules the component theories
  extend, and generic lemmas on lists that several components use.
\<close>

unbundle bit_operations_syntax

type_synonym poly = "32 word"
type_synonym byte = "8 word"
type_synonym bytes = "byte list"
type_synonym chordID = int

named_theorems codec_simps \<open>reads of freshly written wire fields\<close>
named_theorems map_simps \<open>lookups in ordered maps after an update\<close>

subsection \<open>Lists\<close>

lemma sum_list_map_halve:
  "(\<Sum>x\<leftarrow>xs. f x / (2 :: 'd :: field)) = (\<Sum>x\<leftarrow>xs. f x) / 2"
  by (induction xs) (simp_all add: add_divide_distrib)

lemma nth_append_drop_hd:
  "i < length xs \<Longrightarrow> drop i xs = xs ! i # drop (Suc i) xs"
  by (rule Cons_nth_drop_Suc [symmetric])

lemma sorted_wrt_less_distinct: "sorted_wrt (<) (xs :: 'a :: linorder list) \<Longrightarrow> distinct xs"
  by (simp add: strict_sorted_iff)

lemma sum_list_update_add:
  fixes g :: "'a \<Rightarrow> 'b :: ab_group_add"
  assumes "i < length xs"
  shows "sum_list (map g (xs[i := y])) = sum_list (map g xs) + (g y - g (xs ! i))"
  using assms
proof (induction xs arbitrary: i)
  case Nil
  then show ?case by simp
next
  case (Cons x xs)
  then show ?case by (cases i) (simp_all add: algebra_simps)
qed

subsection \<open>Numbers put together from digits\<close>

lemma concat_less: "a < 2 ^ m \<Longrightarrow> b < 2 ^ k \<Longrightarrow> a * 2 ^ k + b < (2 ^ (m + k) :: nat)"
proof -
  assume "a < 2 ^ m" "b < 2 ^ k"
  then have "a * 2 ^ k + b < (a + 1) * 2 ^ k" "(a + 1) * 2 ^ k \<le> 2 ^ m * (2 ^ k :: nat)"
    by simp (rule mult_right_mono, simp_all add: \<open>a < 2 ^ m\<close> Suc_leI)
  then show ?thesis by (simp add: power_add)
qed

lemma bit_concat:
  "b < 2 ^ k \<Longrightarrow> bit (a * 2 ^ k + b) j \<longleftrightarrow> (if j < k then bit b j else bit (a :: nat) (j - k))"
proof -
  assume b: "b < 2 ^ k"
  have "bit (a * 2 ^ k + b) j \<longleftrightarrow> odd ((a * 2 ^ k + b) div 2 ^ j)" by (simp add: bit_iff_odd)
  show ?thesis
  proof (cases "j < k")
    case True
    then have "2 ^ k = 2 ^ j * (2 :: nat) ^ (k - j)" "(2 :: nat) ^ (k - j) = 2 * 2 ^ (k - j - 1)"
      by (simp_all flip: power_add power_Suc)
    then have "(a * 2 ^ k + b) div 2 ^ j = 2 * (a * 2 ^ (k - j - 1)) + b div 2 ^ j"
      by (simp add: mult.assoc mult.left_commute [of a])
    then show ?thesis using True by (simp add: bit_iff_odd)
  next
    case False
    then have "(2 :: nat) ^ j = 2 ^ k * 2 ^ (j - k)" by (simp flip: power_add)
    then have "(a * 2 ^ k + b) div 2 ^ j = a div 2 ^ (j - k)"
      using b by (simp add: div_mult2_eq)
    then show ?thesis using False by (simp add: bit_iff_odd)
  qed
qed

lemma concat_inj:
  fixes a b c d k :: nat
  assumes "a * k + b = c * k + d" "b < k" "d < k"
  shows "a = c \<and> b = d"
proof -
  have "(a * k + b) div k = a" "(c * k + d) div k = c" "(a * k + b) mod k = b" "(c * k + d) mod k = d"
    using assms(2,3) by simp_all
  then show ?thesis using assms(1) by simp
qed

end
