(* ===== verification/Std_Map.thy ===== *)
theory Std_Map
  imports Prelude
begin

text \<open>
  The ordered map of the C++ standard library (\<^verbatim>\<open>std::map\<close>) as the sources use it: an
  association list whose keys increase strictly, so that iteration from \<^verbatim>\<open>begin()\<close> to
  \<^verbatim>\<open>end()\<close> is iteration over the list. The interface the clients rely on is the locale
  \<open>ordered_map\<close>; the association list is its interpretation.
\<close>

type_synonym ('k, 'v) omap = "('k \<times> 'v) list"

text \<open>\<^verbatim>\<open>m[k] = v\<close>: overwrite the value of a present key, insert an absent key in order.\<close>

fun omap_put :: "'k :: linorder \<Rightarrow> 'v \<Rightarrow> ('k, 'v) omap \<Rightarrow> ('k, 'v) omap" where
  "omap_put k v [] = [(k, v)]"
| "omap_put k v ((a, b) # m) =
     (if k < a then (k, v) # (a, b) # m
      else if k = a then (k, v) # m
      else (a, b) # omap_put k v m)"

text \<open>\<^verbatim>\<open>m.find(k)\<close>.\<close>

definition omap_find :: "('k, 'v) omap \<Rightarrow> 'k \<Rightarrow> 'v option" where
  "omap_find m k = map_of m k"

definition omap_keys :: "('k, 'v) omap \<Rightarrow> 'k set" where
  "omap_keys m = fst ` set m"

text \<open>
  \<^verbatim>\<open>m[k].push_back(v0); m[k].push_back(v1)\<close> on a map whose values are read at positions 0
  and 1 only: the first pair stored under a key is the one that is read.
\<close>

definition omap_push :: "'k :: linorder \<Rightarrow> 'v \<Rightarrow> ('k, 'v) omap \<Rightarrow> ('k, 'v) omap" where
  "omap_push k v m = (case omap_find m k of None \<Rightarrow> omap_put k v m | Some _ \<Rightarrow> m)"

definition omap_wf :: "('k :: linorder, 'v) omap \<Rightarrow> bool" where
  "omap_wf m \<longleftrightarrow> sorted_wrt (<) (map fst m)"

subsection \<open>Sorted association lists are determined by their lookups\<close>

lemma sorted_alist_unique:
  fixes xs ys :: "('k :: linorder \<times> 'v) list"
  assumes "map_of xs = map_of ys"
    and "sorted_wrt (<) (map fst xs)" "sorted_wrt (<) (map fst ys)"
  shows "xs = ys"
proof -
  have d: "distinct (map fst xs)" "distinct (map fst ys)"
    using assms(2,3) by (simp_all add: strict_sorted_iff)
  have "set xs = set ys"
  proof (intro set_eqI)
    fix kv show "kv \<in> set xs \<longleftrightarrow> kv \<in> set ys"
      using d assms(1) by (cases kv) (metis map_of_eq_Some_iff)
  qed
  moreover have "fst ` set xs = fst ` set ys" "map fst xs = map fst ys"
    using calculation assms(2,3) by (simp_all add: strict_sorted_equal)
  ultimately show ?thesis
    using d by (metis distinct_map map_inj_on Un_absorb)
qed

subsection \<open>The interface\<close>

locale ordered_map =
  fixes empty :: 'm
    and find :: "'m \<Rightarrow> 'k :: linorder \<Rightarrow> 'v option"
    and put :: "'k \<Rightarrow> 'v \<Rightarrow> 'm \<Rightarrow> 'm"
    and push :: "'k \<Rightarrow> 'v \<Rightarrow> 'm \<Rightarrow> 'm"
    and wf :: "'m \<Rightarrow> bool"
    and entries :: "'m \<Rightarrow> ('k \<times> 'v) list"
  assumes find_empty: "find empty k = None"
    and find_put: "wf m \<Longrightarrow> find (put k v m) k' = (if k' = k then Some v else find m k')"
    and find_push: "wf m \<Longrightarrow>
          find (push k v m) k' = (if k' = k \<and> find m k = None then Some v else find m k')"
    and wf_empty: "wf empty"
    and wf_put: "wf m \<Longrightarrow> wf (put k v m)"
    and wf_push: "wf m \<Longrightarrow> wf (push k v m)"
    and entries_sorted: "wf m \<Longrightarrow> sorted_wrt (<) (map fst (entries m))"
    and entries_find: "wf m \<Longrightarrow> map_of (entries m) k = find m k"
begin

lemma wf_push_all: "wf m \<Longrightarrow> wf (fold (\<lambda>(k, v). push k v) kvs m)"
  by (induction kvs arbitrary: m) (auto simp: wf_push)

lemma find_push_all:
  "wf m \<Longrightarrow> find (fold (\<lambda>(k, v). push k v) kvs m) x
     = (case find m x of Some v \<Rightarrow> Some v | None \<Rightarrow> map_of kvs x)"
proof (induction kvs arbitrary: m)
  case Nil
  then show ?case by (simp split: option.splits)
next
  case (Cons kv kvs)
  obtain k v where "kv = (k, v)" by (cases kv)
  with Cons show ?case
    by (auto simp: wf_push find_push split: option.splits)
qed

lemma entries_unique:
  assumes "wf m" "sorted_wrt (<) (map fst kvs)" "\<And>k. find m k = map_of kvs k"
  shows "entries m = kvs"
proof -
  have "map_of (entries m) = map_of kvs"
    using assms(1,3) by (intro ext) (simp add: entries_find)
  then show ?thesis
    using entries_sorted [OF assms(1)] assms(2) by (rule sorted_alist_unique)
qed

end

subsection \<open>The association list provides it\<close>

lemma omap_find_put: "omap_wf m \<Longrightarrow>
    omap_find (omap_put k v m) k' = (if k' = k then Some v else omap_find m k')"
  by (induction k v m rule: omap_put.induct) (auto simp: omap_find_def omap_wf_def)

lemma omap_keys_put: "omap_keys (omap_put k v m) = insert k (omap_keys m)"
  by (induction k v m rule: omap_put.induct) (auto simp: omap_keys_def)

lemma omap_wf_put: "omap_wf m \<Longrightarrow> omap_wf (omap_put k v m)"
proof (induction k v m rule: omap_put.induct)
  case (2 k v a b m)
  then have "\<forall>x \<in> omap_keys (omap_put k v m). a < x" if "a < k"
    using that by (auto simp: omap_keys_put) (auto simp: omap_keys_def omap_wf_def)
  with 2 show ?case
    by (auto simp: omap_wf_def omap_keys_def)
qed (simp add: omap_wf_def)

lemma omap_find_None: "omap_find m k = None \<longleftrightarrow> k \<notin> omap_keys m"
  by (simp add: omap_find_def omap_keys_def map_of_eq_None_iff)

lemma omap_keys_iff: "k \<in> omap_keys m \<longleftrightarrow> omap_find m k \<noteq> None"
  by (simp add: omap_find_None)

interpretation sm: ordered_map "[]" omap_find omap_put omap_push omap_wf "\<lambda>m. m"
proof unfold_locales
  fix m :: "('a :: linorder, 'b) omap" and k k' v
  assume wf: "omap_wf m"
  show "omap_find (omap_push k v m) k'
      = (if k' = k \<and> omap_find m k = None then Some v else omap_find m k')"
    using wf by (auto simp: omap_push_def omap_find_put split: option.splits)
  show "omap_wf (omap_push k v m)"
    using wf by (simp add: omap_push_def omap_wf_put split: option.splits)
qed (simp_all add: omap_find_put omap_wf_put, simp_all add: omap_find_def omap_wf_def)

lemmas omap_simps [map_simps] = sm.find_put sm.find_push sm.wf_put sm.wf_push omap_keys_put

end
