(* ===== verification/Signatures.thy ===== *)
theory Signatures
  imports Std_Map
begin

text \<open>
  Document and query signatures (\<^verbatim>\<open>std::vector<POLY>\<close>) and the operations
  \<^verbatim>\<open>tools/gpsi.C\<close> and \<^verbatim>\<open>utils/utils.h\<close> define on them: the order that keys the gossip
  lists, the comparisons, and the intersection and union counts behind the query test and
  the similarity of two signatures. An access through an iterator equal to \<^verbatim>\<open>end()\<close> or
  at an index out of range is \<open>None\<close>.
\<close>

subsection \<open>The order of signatures\<close>

text \<open>The element loop of the comparison, run on vectors of equal size.\<close>

fun cmp_elems :: "poly list \<Rightarrow> poly list \<Rightarrow> bool" where
  "cmp_elems (a # s1) (b # s2) =
     (if a < b then True else if a > b then False else cmp_elems s1 s2)"
| "cmp_elems _ _ = False"

definition CompareSig :: "poly list \<Rightarrow> poly list \<Rightarrow> bool" where
  "CompareSig s1 s2 =
     (if length s1 < length s2 then True
      else if length s1 = length s2 then cmp_elems s1 s2
      else False)"

definition sigcmp :: "poly list \<Rightarrow> poly list \<Rightarrow> bool" where
  "sigcmp s1 s2 =
     (if length s1 < length s2 then True
      else if length s1 = length s2 then cmp_elems s1 s2
      else False)"

text \<open>A signature used as a key of a map ordered by \<^verbatim>\<open>CompareSig\<close>.\<close>

datatype sig = Sig (polys: "poly list")

definition dummysig :: sig where
  "dummysig = Sig [1]"

definition hldsig :: sig where
  "hldsig = Sig [0]"

subsection \<open>Comparisons of signatures\<close>

fun samesig_loop :: "poly list \<Rightarrow> poly list \<Rightarrow> bool" where
  "samesig_loop (a # s1) (b # s2) = (if a \<noteq> b then False else samesig_loop s1 s2)"
| "samesig_loop _ _ = True"

definition samesig :: "poly list \<Rightarrow> poly list \<Rightarrow> bool" where
  "samesig s1 s2 = (if length s1 \<noteq> length s2 then False else samesig_loop s1 s2)"

definition validsig :: "poly list \<Rightarrow> bool" where
  "validsig s = (if length s \<le> 0 then False else list_all (\<lambda>p. p \<noteq> 0) s)"

text \<open>Obsolete in the sources: toggles the leading 0 of a special multiset.\<close>

definition inverse_sig :: "poly list \<Rightarrow> poly list option" where
  "inverse_sig s = (case s of [] \<Rightarrow> None | p # ps \<Rightarrow> Some (if p = 0 then ps else 0 # p # ps))"

subsection \<open>Intersection and union counts\<close>

text \<open>
  The loop state of the merges: the unread suffixes, the last element taken from each
  vector (initially 0), the count and the two skip counters.
\<close>

fun set_inter_noskip_loop ::
  "poly list \<Rightarrow> poly list \<Rightarrow> poly \<Rightarrow> poly \<Rightarrow> nat \<Rightarrow> nat \<Rightarrow> nat \<Rightarrow> nat \<times> nat \<times> nat" where
  "set_inter_noskip_loop (x # xs) (y # ys) p1 p2 n k1 k2 =
     (let k1' = (if p1 = x then k1 + 1 else k1);
          k2' = (if p1 \<noteq> x \<and> p2 = y then k2 + 1 else k2)
      in if x < y then set_inter_noskip_loop xs (y # ys) x p2 n k1' k2'
         else if y < x then set_inter_noskip_loop (x # xs) ys p1 y n k1' k2'
         else set_inter_noskip_loop xs ys x y (n + 1) k1' k2')"
| "set_inter_noskip_loop _ _ p1 p2 n k1 k2 = (n, k1, k2)"

definition set_inter_noskip :: "poly list \<Rightarrow> poly list \<Rightarrow> nat \<times> bool" where
  "set_inter_noskip s1 s2 =
     (let (n, k1, k2) = set_inter_noskip_loop s1 s2 0 0 0 0 0 in (n, k2 \<noteq> 0))"

fun set_inter_loop :: "'a :: linorder list \<Rightarrow> 'a list \<Rightarrow> 'a \<Rightarrow> 'a \<Rightarrow> nat \<Rightarrow> nat \<Rightarrow> nat
    \<Rightarrow> nat \<times> nat \<times> nat" where
  "set_inter_loop (x # xs) (y # ys) p1 p2 n k1 k2 =
     (if p1 = x then set_inter_loop xs (y # ys) x p2 n (k1 + 1) k2
      else if p2 = y then set_inter_loop (x # xs) ys p1 y n k1 (k2 + 1)
      else if x < y then set_inter_loop xs (y # ys) x p2 n k1 k2
      else if y < x then set_inter_loop (x # xs) ys p1 y n k1 k2
      else set_inter_loop xs ys x y (n + 1) k1 k2)"
| "set_inter_loop _ _ p1 p2 n k1 k2 = (n, k1, k2)"

definition set_inter :: "poly list \<Rightarrow> poly list \<Rightarrow> nat \<times> bool" where
  "set_inter s1 s2 = (let (n, k1, k2) = set_inter_loop s1 s2 0 0 0 0 0 in (n, k2 \<noteq> 0))"

definition set_inter_ids :: "chordID list \<Rightarrow> chordID list \<Rightarrow> nat \<times> bool" where
  "set_inter_ids s1 s2 = (let (n, k1, k2) = set_inter_loop s1 s2 0 0 0 0 0 in (n, k2 \<noteq> 0))"

text \<open>The tail loops of \<^verbatim>\<open>set_uni\<close> once one vector is exhausted.\<close>

fun uni_drain :: "poly list \<Rightarrow> poly \<Rightarrow> nat \<Rightarrow> nat \<Rightarrow> nat \<times> nat" where
  "uni_drain [] p n k = (n, k)"
| "uni_drain (x # xs) p n k =
     (if p = x then uni_drain xs p n (k + 1) else uni_drain xs x (n + 1) k)"

function set_uni_loop :: "poly list \<Rightarrow> poly list \<Rightarrow> poly \<Rightarrow> poly \<Rightarrow> nat \<Rightarrow> nat \<Rightarrow> nat
    \<Rightarrow> (nat \<times> nat \<times> nat) option" where
  "set_uni_loop s1 s2 p1 p2 n k1 k2 =
     (case (s1, s2) of
        (x # xs, y # ys) \<Rightarrow>
          (let (s1', s2', p1', p2', n', k1', k2') =
                 (if p1 = x then (xs, y # ys, p1, p2, n, k1 + 1, k2)
                  else if p2 = y then (x # xs, ys, p1, p2, n, k1, k2 + 1)
                  else if x < y then (xs, y # ys, x, p2, n + 1, k1, k2)
                  else if y < x then (x # xs, ys, p1, y, n + 1, k1, k2)
                  else (xs, ys, x, y, n + 1, k1, k2))
           in if s1' = [] then (let (m, k) = uni_drain s2' p2' n' k2' in Some (m, k1', k))
              else if s2' = [] then (let (m, k) = uni_drain s1' p1' n' k1' in Some (m, k, k2'))
              else set_uni_loop s1' s2' p1' p2' n' k1' k2')
      | _ \<Rightarrow> None)"
  by pat_completeness auto
termination
  by (relation "measure (\<lambda>(s1, s2, _). length s1 + length s2)") (auto split: if_splits)

declare set_uni_loop.simps [simp del]

definition set_uni :: "poly list \<Rightarrow> poly list \<Rightarrow> (nat \<times> bool) option" where
  "set_uni s1 s2 =
     map_option (\<lambda>(n, k1, k2). (n, k2 \<noteq> 0)) (set_uni_loop s1 s2 0 0 0 0 0)"

subsection \<open>Similarity of signatures\<close>

text \<open>The conversion of a non-negative \<^verbatim>\<open>int\<close> to \<^verbatim>\<open>double\<close>.\<close>

primrec dbl_of :: "nat \<Rightarrow> 'd :: {zero, one, plus}" where
  "dbl_of 0 = 0"
| "dbl_of (Suc n) = dbl_of n + 1"

text \<open>\<^verbatim>\<open>multi\<close> is set by both calls, so the second one decides it.\<close>

definition signcmp :: "poly list \<Rightarrow> poly list \<Rightarrow> ('d :: {zero, one, plus, inverse} \<times> bool) option" where
  "signcmp s1 s2 =
     (let (ninter, _) = set_inter s1 s2
      in case set_uni s1 s2 of
           None \<Rightarrow> None
         | Some (nunion, multi) \<Rightarrow> Some (dbl_of ninter / dbl_of nunion, multi))"

text \<open>The library algorithms \<^verbatim>\<open>set_intersection\<close> and \<^verbatim>\<open>set_union\<close> on sorted ranges.\<close>

fun std_set_intersection :: "poly list \<Rightarrow> poly list \<Rightarrow> poly list" where
  "std_set_intersection (x # xs) (y # ys) =
     (if x < y then std_set_intersection xs (y # ys)
      else if y < x then std_set_intersection (x # xs) ys
      else x # std_set_intersection xs ys)"
| "std_set_intersection _ _ = []"

fun std_set_union :: "poly list \<Rightarrow> poly list \<Rightarrow> poly list" where
  "std_set_union (x # xs) (y # ys) =
     (if x < y then x # std_set_union xs (y # ys)
      else if y < x then y # std_set_union (x # xs) ys
      else x # std_set_union xs ys)"
| "std_set_union xs [] = xs"
| "std_set_union [] ys = ys"

text \<open>The second range passed to both algorithms is \<^verbatim>\<open>s2.end(), s2.end()\<close>, and the
  quotient is an integer division, which traps on 0.\<close>

definition signcmp_lib :: "poly list \<Rightarrow> poly list \<Rightarrow> nat option" where
  "signcmp_lib s1 s2 =
     (let ninter = length (std_set_intersection s1 []);
          nunion = length (std_set_union s1 [])
      in if nunion = 0 then None else Some (ninter div nunion))"

definition signcmp_bad :: "poly list \<Rightarrow> poly list \<Rightarrow> 'd :: {zero, one, plus, inverse}" where
  "signcmp_bad s1 s2 =
     (let same = length (filter (\<lambda>(a, b). a = b) (List.product s1 s2));
          total = (if length s1 > length s2 then length s1 else length s2)
      in dbl_of same / dbl_of total)"

subsection \<open>The order is linear\<close>

lemma cmp_elems_irrefl: "\<not> cmp_elems s s"
  by (induction s) auto

lemma cmp_elems_trans:
  "cmp_elems a b \<Longrightarrow> cmp_elems b c \<Longrightarrow> cmp_elems a c"
proof (induction a b arbitrary: c rule: cmp_elems.induct)
  case (1 x s1 y s2)
  then show ?case by (cases c) (auto split: if_splits)
qed auto

lemma cmp_elems_total:
  "length a = length b \<Longrightarrow> cmp_elems a b \<or> a = b \<or> cmp_elems b a"
  by (induction a b rule: cmp_elems.induct) auto

lemma sigcmp_CompareSig: "sigcmp = CompareSig"
  by (intro ext) (simp add: sigcmp_def CompareSig_def)

instantiation sig :: linorder
begin

definition less_sig :: "sig \<Rightarrow> sig \<Rightarrow> bool" where
  "less_sig a b \<longleftrightarrow> CompareSig (polys a) (polys b)"

definition less_eq_sig :: "sig \<Rightarrow> sig \<Rightarrow> bool" where
  "less_eq_sig a b \<longleftrightarrow> a < b \<or> a = b"

instance
proof
  fix x y z :: sig
  have irrefl: "\<not> CompareSig s s" for s
    by (simp add: CompareSig_def cmp_elems_irrefl)
  have trans: "CompareSig a b \<Longrightarrow> CompareSig b c \<Longrightarrow> CompareSig a c" for a b c
    by (auto simp: CompareSig_def split: if_splits dest: cmp_elems_trans)
  show "x < y \<longleftrightarrow> x \<le> y \<and> \<not> y \<le> x"
    unfolding less_eq_sig_def less_sig_def using irrefl trans by blast
  show "x \<le> x" by (simp add: less_eq_sig_def)
  show "x \<le> y \<Longrightarrow> y \<le> z \<Longrightarrow> x \<le> z"
    unfolding less_eq_sig_def less_sig_def using trans by blast
  show "x \<le> y \<Longrightarrow> y \<le> x \<Longrightarrow> x = y"
    unfolding less_eq_sig_def less_sig_def using irrefl trans by blast
  show "x \<le> y \<or> y \<le> x"
    using cmp_elems_total [of "polys x" "polys y"]
    by (cases x; cases y) (auto simp: less_eq_sig_def less_sig_def CompareSig_def)
qed

end

subsection \<open>Lookups in signature maps\<close>

lemma dummysig_hldsig_order: "hldsig < dummysig"
  by (simp add: less_sig_def hldsig_def dummysig_def CompareSig_def)

lemma dummysig_neq_hldsig [simp]: "dummysig \<noteq> hldsig" "hldsig \<noteq> dummysig"
  by (simp_all add: dummysig_def hldsig_def)

lemma samesig_loop_eq: "length s1 = length s2 \<Longrightarrow> samesig_loop s1 s2 \<longleftrightarrow> s1 = s2"
  by (induction s1 s2 rule: samesig_loop.induct) auto

lemma samesig_iff: "samesig s1 s2 \<longleftrightarrow> s1 = s2"
  by (auto simp: samesig_def samesig_loop_eq)

lemma inverse_sig_involutive:
  "s \<noteq> [] \<Longrightarrow> hd s \<noteq> 0 \<Longrightarrow> Option.bind (inverse_sig s) inverse_sig = Some s"
  by (cases s) (auto simp: inverse_sig_def)

subsection \<open>What the loops count\<close>

lemma inter_noskip_loop_count:
  "sorted s1 \<Longrightarrow> sorted s2 \<Longrightarrow>
   fst (set_inter_noskip_loop s1 s2 p1 p2 n k1 k2) = n + size (mset s1 \<inter># mset s2)"
proof (induction s1 s2 p1 p2 n k1 k2 rule: set_inter_noskip_loop.induct)
  case (1 x xs y ys p1 p2 n k1 k2)
  have "x < y \<Longrightarrow> x \<notin># mset (y # ys)" "y < x \<Longrightarrow> y \<notin># mset (x # xs)"
    using "1.prems" by auto
  then have "x < y \<Longrightarrow> mset (x # xs) \<inter># mset (y # ys) = mset xs \<inter># mset (y # ys)"
    and "y < x \<Longrightarrow> mset (x # xs) \<inter># mset (y # ys) = mset (x # xs) \<inter># mset ys"
    by (simp_all add: add_mset_remove_trivial_If inter_add_left1 inter_add_right1)
  with 1 show ?case
    by (cases x y rule: linorder_cases) (simp_all add: Let_def)
qed simp_all

lemma inter_loop_count:
  assumes "sorted s1" "sorted s2" "\<forall>x \<in> set s1. p1 \<le> x" "\<forall>y \<in> set s2. p2 \<le> y"
  shows "fst (set_inter_loop s1 s2 p1 p2 n k1 k2)
           = n + card ((set s1 - {p1}) \<inter> (set s2 - {p2}))"
  using assms
proof (induction s1 s2 p1 p2 n k1 k2 rule: set_inter_loop.induct)
  case (1 x xs y ys p1 p2 n k1 k2)
  let ?X = "set (x # xs) - {p1}" and ?Y = "set (y # ys) - {p2}"
  have sorted: "sorted xs" "sorted ys" "\<forall>z \<in> set xs. x \<le> z" "\<forall>z \<in> set ys. y \<le> z"
    using "1.prems" by auto
  consider (a) "p1 = x" | (b) "p1 \<noteq> x" "p2 = y" | (c) "p1 \<noteq> x" "p2 \<noteq> y" "x < y"
    | (d) "p1 \<noteq> x" "p2 \<noteq> y" "y < x" | (e) "p1 \<noteq> x" "p2 \<noteq> y" "x = y"
    by (cases x y rule: linorder_cases) auto
  then show ?case
  proof cases
    case a
    then show ?thesis using "1.IH"(1) "1.prems" sorted by simp
  next
    case b
    then show ?thesis using "1.IH"(2) "1.prems" sorted by simp
  next
    case c
    then have "?X \<inter> ?Y = (set xs - {x}) \<inter> ?Y"
      using "1.prems" sorted by force
    with c show ?thesis using "1.IH"(3) "1.prems" sorted by simp
  next
    case d
    then have "\<not> x < y" by simp
    from d have "?X \<inter> ?Y = ?X \<inter> (set ys - {y})"
      using "1.prems" sorted by force
    with d \<open>\<not> x < y\<close> show ?thesis using "1.IH"(4) "1.prems" sorted by simp
  next
    case e
    then have "?X \<inter> ?Y = insert x ((set xs - {x}) \<inter> (set ys - {x}))"
      using "1.prems" sorted by force
    with e show ?thesis using "1.IH"(5) "1.prems" sorted by simp
  qed
qed simp_all

lemma uni_drain_count:
  "sorted s \<Longrightarrow> \<forall>x \<in> set s. p \<le> x \<Longrightarrow> fst (uni_drain s p n k) = n + card (set s - {p})"
proof (induction s p n k rule: uni_drain.induct)
  case (2 x xs p n k)
  show ?case
  proof (cases "p = x")
    case True
    with 2 show ?thesis by simp
  next
    case False
    with "2.prems" have "set (x # xs) - {p} = insert x (set xs - {x})" by force
    with False 2 show ?thesis by (simp add: card.insert_remove)
  qed
qed simp

lemma uni_step_count:
  assumes "sorted (x # xs)" "sorted (y # ys)"
    and "\<forall>z \<in> set (x # xs). p1 \<le> z" "\<forall>z \<in> set (y # ys). p2 \<le> z"
    and "x # xs \<noteq> []" "y # ys \<noteq> []"
    and st: "(if p1 = x then (xs, y # ys, p1, p2, n, k1 + 1, k2)
              else if p2 = y then (x # xs, ys, p1, p2, n, k1, k2 + 1)
              else if x < y then (xs, y # ys, x, p2, n + 1, k1, k2)
              else if y < x then (x # xs, ys, p1, y, n + 1, k1, k2)
              else (xs, ys, x, y, n + 1, k1, k2 :: nat))
            = (t1, t2, q1, q2, m, j1 :: nat, j2)"
  shows "(n :: nat) + card ((set (x # xs) - {p1}) \<union> (set (y # ys) - {p2}))
       = m + card ((set t1 - {q1}) \<union> (set t2 - {q2}))"
proof -
  let ?X = "set (x # xs) - {p1}" and ?Y = "set (y # ys) - {p2}"
  consider (a) "p1 = x" | (b) "p1 \<noteq> x" "p2 = y" | (c) "p1 \<noteq> x" "p2 \<noteq> y" "x < y"
    | (d) "p1 \<noteq> x" "p2 \<noteq> y" "y < x" | (e) "p1 \<noteq> x" "p2 \<noteq> y" "x = y"
    by (cases x y rule: linorder_cases) auto
  then show ?thesis
  proof cases
    case a
    with st show ?thesis by auto
  next
    case b
    with st show ?thesis by auto
  next
    case c
    then have "?X \<union> ?Y = insert x ((set xs - {x}) \<union> ?Y)" and "x \<notin> ?Y"
      using assms(1-4) by force+
    moreover from c st have "t1 = xs" "t2 = y # ys" "q1 = x" "q2 = p2" "m = n + 1"
      by simp_all
    ultimately show ?thesis by (simp add: card_insert_if)
  next
    case d
    then have "?X \<union> ?Y = insert y (?X \<union> (set ys - {y}))" and "y \<notin> ?X"
      using assms(1-4) by force+
    moreover have "(x < y) = False" using d by auto
    with d st have "t1 = x # xs" "t2 = ys" "q1 = p1" "q2 = y" "m = n + 1"
      by simp_all
    ultimately show ?thesis by (simp add: card_insert_if)
  next
    case e
    then have "?X \<union> ?Y = insert x ((set xs - {x}) \<union> (set ys - {x}))"
      using assms(1-4) by force
    moreover from e st have "t1 = xs" "t2 = ys" "q1 = x" "q2 = x" "m = n + 1"
      by auto
    ultimately show ?thesis by (simp add: card_insert_if)
  qed
qed

lemma uni_loop_count:
  assumes "sorted s1" "sorted s2" "\<forall>x \<in> set s1. p1 \<le> x" "\<forall>y \<in> set s2. p2 \<le> y"
    and "s1 \<noteq> []" "s2 \<noteq> []"
  shows "map_option fst (set_uni_loop s1 s2 p1 p2 n k1 k2)
           = Some (n + card ((set s1 - {p1}) \<union> (set s2 - {p2})))"
  using assms
proof (induction s1 s2 p1 p2 n k1 k2 rule: set_uni_loop.induct)
  case (1 s1 s2 p1 p2 n k1 k2)
  obtain x xs y ys where s: "s1 = x # xs" "s2 = y # ys"
    using "1.prems" by (cases s1; cases s2) auto
  let ?st = "if p1 = x then (xs, y # ys, p1, p2, n, k1 + 1, k2)
             else if p2 = y then (x # xs, ys, p1, p2, n, k1, k2 + 1)
             else if x < y then (xs, y # ys, x, p2, n + 1, k1, k2)
             else if y < x then (x # xs, ys, p1, y, n + 1, k1, k2)
             else (xs, ys, x, y, n + 1, k1, k2)"
  obtain t1 t2 q1 q2 m j1 j2 where st: "?st = (t1, t2, q1, q2, m, j1, j2)"
    by (metis surj_pair)
  have inv: "sorted t1" "sorted t2" "\<forall>x \<in> set t1. q1 \<le> x" "\<forall>y \<in> set t2. q2 \<le> y"
    using "1.prems" st s by (auto split: if_splits)
  have count: "n + card ((set s1 - {p1}) \<union> (set s2 - {p2}))
             = m + card ((set t1 - {q1}) \<union> (set t2 - {q2}))"
    using "1.prems" st unfolding s by (rule uni_step_count)
  note unf = set_uni_loop.simps [of s1 s2 p1 p2 n k1 k2, unfolded s prod.case list.case st Let_def]
  show ?case
  proof (cases "t1 = [] \<or> t2 = []")
    case True
    then show ?thesis
      using uni_drain_count [OF inv(1,3), of m j1] uni_drain_count [OF inv(2,4), of m j2] count
      unfolding s unf by (auto split: prod.splits)
  next
    case False
    then have "map_option fst (set_uni_loop t1 t2 q1 q2 m j1 j2)
             = Some (m + card ((set t1 - {q1}) \<union> (set t2 - {q2})))"
      using "1.IH" [OF _ s(1) s(2)] st s inv by simp
    with False show ?thesis
      using count unfolding s unf by simp
  qed
qed

lemma dbl_of_eq: "(dbl_of n :: 'd :: field) = of_nat n"
  by (induction n) simp_all

subsection \<open>Properties\<close>

lemma noskip_submultiset:
  assumes "sorted q" "sorted s"
  shows "fst (set_inter_noskip q s) = size (mset q \<inter># mset s)
       \<and> (fst (set_inter_noskip q s) = length q \<longleftrightarrow> mset q \<subseteq># mset s)"
proof -
  have n: "fst (set_inter_noskip q s) = size (mset q \<inter># mset s)"
    using inter_noskip_loop_count [OF assms, of 0 0 0 0 0]
    by (auto simp: set_inter_noskip_def split: prod.splits)
  have "size (mset q \<inter># mset s) = size (mset q) \<longleftrightarrow> mset q \<inter># mset s = mset q"
    using mset_subset_size [of "mset q \<inter># mset s" "mset q"] by (fastforce simp: subset_mset.less_le)
  then show ?thesis
    by (simp add: n subset_mset.inf.absorb_iff1)
qed

text \<open>
  C37: the query test counts multiset intersections. On sorted signatures
  \<^verbatim>\<open>set_inter_noskip\<close> returns the size of the multiset intersection, so the guard
  \<^verbatim>\<open>ninter == querysig.size()\<close> of \<^verbatim>\<open>run_query\<close> holds exactly when the query signature is a
  sub-multiset of the list signature.
\<close>

theorem query_test_is_submultiset:
  assumes "sorted q" "sorted s"
  shows "fst (set_inter_noskip q s) = size (mset q \<inter># mset s)
       \<and> (fst (set_inter_noskip q s) = length q \<longleftrightarrow> mset q \<subseteq># mset s)"
  using assms by (rule noskip_submultiset)

theorem query_test_is_submultiset_witness:
  "fst (set_inter_noskip [3, 3, 7] [2, 3, 3, 7]) = 3 \<and> mset [3, 3, 7 :: poly] \<subseteq># mset [2, 3, 3, 7]"
  using query_test_is_submultiset [of "[3, 3, 7]" "[2, 3, 3, 7]"]
  by (simp add: set_inter_noskip_def)

lemma signcmp_jaccard:
  assumes "sorted s1" "sorted s2" "s1 \<noteq> []" "s2 \<noteq> []"
  shows "map_option fst (signcmp s1 s2 :: ('d :: field \<times> bool) option)
       = Some (of_nat (card (set s1 \<inter> set s2 - {0})) / of_nat (card (set s1 \<union> set s2 - {0})))"
proof -
  have "fst (set_inter s1 s2) = card ((set s1 - {0}) \<inter> (set s2 - {0}))"
    using inter_loop_count [OF assms(1,2), of 0 0 0 0 0]
    by (auto simp: set_inter_def split: prod.splits)
  moreover have "map_option fst (set_uni s1 s2) = Some (card ((set s1 - {0}) \<union> (set s2 - {0})))"
    using uni_loop_count [OF assms(1,2) _ _ assms(3,4), of 0 0 0 0 0]
    by (auto simp: set_uni_def)
  then obtain multi where
    "set_uni s1 s2 = Some (card ((set s1 - {0}) \<union> (set s2 - {0})), multi)"
    by auto
  moreover have "(set s1 - {0}) \<inter> (set s2 - {0}) = set s1 \<inter> set s2 - {0}"
    "(set s1 - {0}) \<union> (set s2 - {0}) = set s1 \<union> set s2 - {0}"
    by auto
  ultimately show ?thesis
    by (simp add: signcmp_def dbl_of_eq case_prod_beta)
qed

text \<open>
  C38: the similarity is the Jaccard coefficient. On sorted non-empty signatures with a
  non-zero element among them (else the source computes 0/0) \<^verbatim>\<open>set_inter\<close> and \<^verbatim>\<open>set_uni\<close> count the distinct non-zero elements of the intersection
  and of the union (0 is the initial \<^verbatim>\<open>prev\<close>, so a zero element is skipped as a duplicate),
  and \<^verbatim>\<open>signcmp\<close> returns their quotient without reading past either end.
\<close>

theorem signcmp_is_jaccard:
  assumes "sorted s1" "sorted s2" "s1 \<noteq> []" "s2 \<noteq> []" "\<exists>x \<in> set s1 \<union> set s2. x \<noteq> 0"
  shows "map_option fst (signcmp s1 s2 :: ('d :: field_char_0 \<times> bool) option)
       = Some (of_nat (card (set s1 \<inter> set s2 - {0})) / of_nat (card (set s1 \<union> set s2 - {0})))
    \<and> (of_nat (card (set s1 \<union> set s2 - {0})) :: 'd) \<noteq> 0"
proof -
  have "set s1 \<union> set s2 - {0} \<noteq> {}" using assms(5) by blast
  then show ?thesis using signcmp_jaccard [OF assms(1-4), where 'd = 'd] by (simp add: card_gt_0_iff)
qed

theorem signcmp_is_jaccard_witness:
  "map_option fst (signcmp [2, 5, 5] [2, 7] :: (rat \<times> bool) option) = Some (1 / 3)"
proof -
  have "set [2, 5, 5] \<inter> set [2, 7] - {0} = {2 :: poly}"
    "set [2, 5, 5] \<union> set [2, 7] - {0} = {2, 5, 7 :: poly}" by auto
  then show ?thesis
    using signcmp_is_jaccard [of "[2, 5, 5]" "[2, 7]", where 'd = rat] by simp
qed

text \<open>
  The library variant of the similarity ignores its second signature and divides
  integers, so it returns 0 for every pair (and traps on an empty first signature).
\<close>

theorem signcmp_lib_is_zero:
  "signcmp_lib s1 s2 = (if s1 = [] then None else Some 0)"
proof -
  have "std_set_intersection s1 [] = []" "std_set_union s1 [] = s1"
    by (cases s1; simp)+
  then show ?thesis by (simp add: signcmp_lib_def)
qed

text \<open>
  \<^verbatim>\<open>CompareSig\<close> is a strict linear order on signatures, as \<^verbatim>\<open>std::map\<close> requires of
  its comparator: two signatures are equivalent under it only when they are equal.
\<close>

theorem CompareSig_strict_linear:
  "\<not> CompareSig a a \<and> (CompareSig a b \<longrightarrow> CompareSig b c \<longrightarrow> CompareSig a c)
   \<and> (\<not> CompareSig a b \<longrightarrow> \<not> CompareSig b a \<longrightarrow> a = b)"
  using less_irrefl [of "Sig a"] less_trans [of "Sig a" "Sig b" "Sig c"]
    less_linear [of "Sig a" "Sig b"]
  unfolding less_sig_def sig.sel sig.inject by blast

theorem CompareSig_strict_linear_witness:
  "CompareSig [9] [1, 2] \<and> CompareSig [1, 2] [1, 3] \<and> CompareSig [9] [1, 3]"
  using CompareSig_strict_linear [of "[9]" "[1, 2]" "[1, 3]"]
  by (simp add: CompareSig_def)

end
