(* ===== verification/Gossip_Lists.thy ===== *)
theory Gossip_Lists
  imports Signatures
begin

text \<open>
  The gossip lists of \<^verbatim>\<open>tools/gpsi.C\<close>: a list (\<^verbatim>\<open>mapType\<close>) maps a signature to its frequency
  and weight, a \<^verbatim>\<open>vecomap\<close> holds the own list of a team at position 0 and the received
  lists behind it, and \<^verbatim>\<open>totalT\<close> holds one \<^verbatim>\<open>vecomap\<close> per team. The numbers are of an
  arbitrary type with the operations of \<^verbatim>\<open>double\<close>; theorems that need exact arithmetic say
  so by the class of that type. An iterator is the list of entries from it up to
  \<^verbatim>\<open>end()\<close>. \<open>None\<close> is undefined behaviour of the source: an access out of range or an
  increment of \<^verbatim>\<open>end()\<close>.
\<close>

type_synonym 'd sigmap = "(sig, 'd \<times> 'd) omap"
type_synonym 'd vecomap = "'d sigmap list"

subsection \<open>Scaling\<close>

text \<open>The parameter \<^verbatim>\<open>num\<close> is passed by value, so the caller only sees the result flag,
  which no caller uses.\<close>

definition fixnan :: "('d \<Rightarrow> bool) \<Rightarrow> ('d \<Rightarrow> bool) \<Rightarrow> 'd \<Rightarrow> 'd \<Rightarrow> bool" where
  "fixnan isnan isinf num op1 = (if isnan num then True else if isinf num then True else False)"

definition scale_entry :: "('d \<Rightarrow> 'd) \<Rightarrow> ('d \<Rightarrow> 'd) \<Rightarrow> sig \<times> 'd \<times> 'd \<Rightarrow> sig \<times> 'd \<times> 'd" where
  "scale_entry ff fw e = (case e of (s, f, w) \<Rightarrow> (s, ff f, fw w))"

definition dividefreq :: "'d :: {zero, one, plus, times, inverse} vecomap \<Rightarrow> nat \<Rightarrow> nat \<Rightarrow> nat
    \<Rightarrow> 'd vecomap option" where
  "dividefreq ts listnum fby wby =
     (if listnum < length ts
      then Some (ts[listnum :=
        map (scale_entry (\<lambda>f. f / dbl_of fby) (\<lambda>w. w / dbl_of wby)) (ts ! listnum)])
      else None)"

definition multiplyfreq :: "'d :: {zero, one, plus, times, inverse} vecomap \<Rightarrow> nat \<Rightarrow> nat \<Rightarrow> nat
    \<Rightarrow> 'd vecomap option" where
  "multiplyfreq ts listnum fby wby =
     (if listnum < length ts
      then (case ts ! listnum of
              [] \<Rightarrow> None
            | e # m \<Rightarrow>
                let scale = map (scale_entry (\<lambda>f. f * dbl_of fby) (\<lambda>w. w * dbl_of wby))
                in Some (ts[listnum := (if fst e = dummysig \<and> fby \<noteq> wby
                                        then e # scale m else scale (e # m))]))
      else None)"

subsection \<open>Building lists\<close>

definition count_sig :: "sig \<Rightarrow> 'd :: {zero, one, plus} sigmap \<Rightarrow> 'd sigmap" where
  "count_sig s m =
     (case omap_find m s of
        Some (f, w) \<Rightarrow> omap_put s (f + 1, w) m
      | None \<Rightarrow> omap_put s (1, 1) m)"

definition uniqueSigList :: "sig list \<Rightarrow> bool \<Rightarrow> 'd :: {zero, one, plus} sigmap option" where
  "uniqueSigList sigList usedummy =
     (if usedummy
      then (case sigList of [] \<Rightarrow> None | d # ss \<Rightarrow> Some (fold count_sig ss [(d, 0, 1)]))
      else Some (fold count_sig sigList []))"

definition calcfreq :: "sig list \<Rightarrow> bool \<Rightarrow> bool \<Rightarrow> 'd :: {zero, one, plus} vecomap
    \<Rightarrow> 'd vecomap option" where
  "calcfreq sigList usedummy proxysigs allT =
     map_option (\<lambda>u. if \<not> proxysigs then allT @ [u]
                     else (if allT = [] then [[]] else allT) @ [u])
       (uniqueSigList sigList usedummy)"

text \<open>The list built from a received message: equal signatures keep the first pair.\<close>

definition list_of_msg :: "sig list \<Rightarrow> 'd list \<Rightarrow> 'd list \<Rightarrow> 'd sigmap" where
  "list_of_msg sigList freqList weightList =
     fold (\<lambda>(s, fw). omap_push s fw) (zip sigList (zip freqList weightList)) []"

definition vecomap2vec :: "'d vecomap \<Rightarrow> nat \<Rightarrow> (sig list \<times> 'd list \<times> 'd list) option" where
  "vecomap2vec ts listnum =
     (if listnum < length ts
      then (let m = ts ! listnum in Some (map fst m, map (fst \<circ> snd) m, map (snd \<circ> snd) m))
      else None)"

subsection \<open>Merging\<close>

text \<open>The smallest signature at the iterators that are not at \<^verbatim>\<open>end()\<close>; \<open>None\<close> when all
  are (\<^verbatim>\<open>j == 0\<close>).\<close>

definition pick_min :: "'d sigmap \<Rightarrow> sig option \<Rightarrow> sig option" where
  "pick_min it minsig =
     (case it of
        [] \<Rightarrow> minsig
      | (s, _) # _ \<Rightarrow>
          (case minsig of None \<Rightarrow> Some s
           | Some m \<Rightarrow> if sigcmp (polys s) (polys m) then Some s else Some m))"

definition find_minsig :: "'d sigmap list \<Rightarrow> sig option" where
  "find_minsig citr = fold pick_min citr None"

text \<open>The contribution of list \<open>t\<close> with iterator \<open>it\<close> to the sums for \<open>m\<close>: the entry
  at the iterator if it is \<open>m\<close>, the dummy entry otherwise.\<close>

definition contribution :: "sig \<Rightarrow> 'd sigmap \<Rightarrow> 'd sigmap \<Rightarrow> ('d \<times> 'd) option" where
  "contribution m t it =
     (case it of
        (s, fw) # _ \<Rightarrow> if s = m then Some fw else omap_find t dummysig
      | [] \<Rightarrow> omap_find t dummysig)"

fun sum_entries :: "sig \<Rightarrow> 'd :: plus sigmap list \<Rightarrow> 'd sigmap list \<Rightarrow> 'd \<Rightarrow> 'd
    \<Rightarrow> ('d \<times> 'd) option" where
  "sum_entries m (t # ts) (it # citr) sumf sumw =
     (case contribution m t it of
        None \<Rightarrow> None
      | Some (f, w) \<Rightarrow> sum_entries m ts citr (sumf + f) (sumw + w))"
| "sum_entries m _ _ sumf sumw = Some (sumf, sumw)"

definition at_sig :: "sig \<Rightarrow> 'd sigmap \<Rightarrow> bool" where
  "at_sig m it = (case it of [] \<Rightarrow> False | (s, _) # _ \<Rightarrow> s = m)"

text \<open>The halved sums are written over the entry at list 0's iterator, or stored under a
  key new to list 0.\<close>

definition write_min :: "sig \<Rightarrow> 'd \<times> 'd \<Rightarrow> 'd sigmap \<Rightarrow> 'd sigmap \<Rightarrow> 'd sigmap" where
  "write_min m fw it t = (if at_sig m it then omap_put m fw t else omap_push m fw t)"

definition advance :: "sig \<Rightarrow> 'd sigmap \<Rightarrow> 'd sigmap" where
  "advance m it = (if at_sig m it then tl it else it)"

fun dummy_weights :: "'d :: plus sigmap list \<Rightarrow> 'd \<Rightarrow> 'd option" where
  "dummy_weights [] sumw = Some sumw"
| "dummy_weights (t # ts) sumw =
     (case omap_find t dummysig of
        None \<Rightarrow> None
      | Some (_, w) \<Rightarrow> dummy_weights ts (sumw + w))"

definition merge_done :: "'d :: {zero, one, plus, times, inverse} vecomap \<Rightarrow> 'd vecomap option" where
  "merge_done ts =
     (case ts of
        [] \<Rightarrow> None
      | t # rest \<Rightarrow>
          (case (dummy_weights ts 0, omap_find t dummysig) of
             (Some sumw, Some (f, _)) \<Rightarrow>
               Some (omap_put dummysig (f, sumw / dbl_of 2) t # rest)
           | _ \<Rightarrow> None))"

lemma advance_length: "length (advance m it) \<le> length it"
  by (simp add: advance_def)

lemma advance_length_less: "at_sig m it \<Longrightarrow> length (advance m it) < length it"
  by (auto simp: advance_def at_sig_def split: list.splits)

lemma pick_min_cases: "pick_min it acc = acc \<or> (\<exists>s. pick_min it acc = Some s \<and> at_sig s it)"
  by (simp add: pick_min_def at_sig_def split: list.splits option.splits)

lemma pick_min_fold:
  "fold pick_min citr acc = Some m \<Longrightarrow> acc = Some m \<or> (\<exists>it \<in> set citr. at_sig m it)"
proof (induction citr arbitrary: acc)
  case (Cons it citr)
  then have "pick_min it acc = Some m \<or> (\<exists>it \<in> set citr. at_sig m it)" by simp
  then show ?case using pick_min_cases [of it acc] by auto
qed simp

lemma find_minsig_at: "find_minsig citr = Some m \<Longrightarrow> \<exists>it \<in> set citr. at_sig m it"
  using pick_min_fold by (fastforce simp: find_minsig_def)

lemma advance_total_less:
  "\<exists>it \<in> set citr. at_sig m it \<Longrightarrow>
   sum_list (map length (map (advance m) citr)) < sum_list (map length citr)"
proof (induction citr)
  case (Cons it citr)
  have "sum_list (map length (map (advance m) citr)) \<le> sum_list (map length citr)"
    by (induction citr) (simp_all add: add_mono advance_length)
  moreover note advance_length [of m it] advance_length_less [of m it] Cons
  ultimately show ?case by (cases "at_sig m it") (auto intro: add_le_less_mono add_less_le_mono)
qed simp

function merge_loop :: "'d :: {zero, one, plus, times, inverse} vecomap \<Rightarrow> 'd sigmap list
    \<Rightarrow> 'd vecomap option" where
  "merge_loop ts citr =
     (case find_minsig citr of
        None \<Rightarrow> merge_done ts
      | Some m \<Rightarrow>
          (case (sum_entries m ts citr 0 0, ts, citr) of
             (Some (sumf, sumw), t # rest, it # _) \<Rightarrow>
               merge_loop (write_min m (sumf / dbl_of 2, sumw / dbl_of 2) it t # rest)
                 (map (advance m) citr)
           | _ \<Rightarrow> None))"
  by pat_completeness auto
termination
  by (relation "measure (\<lambda>(ts, citr). sum_list (map length citr))")
    (use advance_total_less find_minsig_at in \<open>fastforce+\<close>)

declare merge_loop.simps [simp del]

definition mergelists :: "bool \<Rightarrow> 'd :: {zero, one, plus, times, inverse} vecomap
    \<Rightarrow> 'd vecomap option" where
  "mergelists vanilla ts =
     (let skip = (if vanilla then 1 else 2)
      in if length ts = 1 then dividefreq ts 0 2 2
         else if list_all (\<lambda>t. skip \<le> length t) ts
         then map_option (take 1) (merge_loop ts (map (drop skip) ts))
         else None)"

end
