(* ===== verification/Merge_Correct.thy ===== *)
theory Merge_Correct
  imports Gossip_Lists
begin

text \<open>
  Correctness of the k-way merge of gossip lists (\<^verbatim>\<open>mergelists\<close> of \<^verbatim>\<open>tools/gpsi.C\<close>)
  against a pointwise specification. The value a list holds for a signature is the stored
  pair, or the pair of the dummy signature when the list lacks the signature (\<open>eff\<close>).
\<close>

definition eff :: "'d :: zero sigmap \<Rightarrow> sig \<Rightarrow> 'd \<times> 'd" where
  "eff t s =
     (case omap_find t s of Some fw \<Rightarrow> fw
      | None \<Rightarrow> (case omap_find t dummysig of Some fw \<Rightarrow> fw | None \<Rightarrow> (0, 0)))"

text \<open>
  The shape of a gossip list: the dummy signature is stored with frequency 0, and the
  skipped entries (one for VanillaXGossip, two for XGossip) are the first keys.
\<close>

definition gossip_wf :: "bool \<Rightarrow> 'd :: zero sigmap \<Rightarrow> bool" where
  "gossip_wf vanilla t \<longleftrightarrow>
     omap_wf t \<and> (\<exists>w. omap_find t dummysig = Some (0, w))
     \<and> (if vanilla then list_all (\<lambda>k. dummysig \<le> k) (map fst t)
        else omap_find t hldsig \<noteq> None \<and> list_all (\<lambda>k. hldsig \<le> k) (map fst t))"

subsection \<open>The minimum over the iterators\<close>

lemma sigcmp_less: "sigcmp (polys a) (polys b) \<longleftrightarrow> a < b"
  by (simp add: sigcmp_CompareSig less_sig_def)

lemma pick_min_le:
  "pick_min it acc = Some m \<Longrightarrow> (\<forall>s. at_sig s it \<longrightarrow> m \<le> s) \<and> (\<forall>a. acc = Some a \<longrightarrow> m \<le> a)"
  by (auto simp: pick_min_def at_sig_def sigcmp_less split: list.splits option.splits if_splits)

lemma pick_min_None: "pick_min it acc = None \<longleftrightarrow> it = [] \<and> acc = None"
  by (auto simp: pick_min_def split: list.splits option.splits)

lemma fold_pick_min_None: "fold pick_min citr acc = None \<longleftrightarrow> (\<forall>it \<in> set citr. it = []) \<and> acc = None"
  by (induction citr arbitrary: acc) (auto simp: pick_min_None)

lemma fold_pick_min_le:
  "fold pick_min citr acc = Some m \<Longrightarrow>
   (\<forall>it \<in> set citr. \<forall>s. at_sig s it \<longrightarrow> m \<le> s) \<and> (\<forall>a. acc = Some a \<longrightarrow> m \<le> a)"
proof (induction citr arbitrary: acc)
  case (Cons it citr)
  then have IH: "\<forall>it \<in> set citr. \<forall>s. at_sig s it \<longrightarrow> m \<le> s"
    "\<forall>a. pick_min it acc = Some a \<longrightarrow> m \<le> a" by auto
  show ?case
  proof (cases "pick_min it acc")
    case None
    with IH show ?thesis by (auto simp: pick_min_None at_sig_def)
  next
    case (Some a)
    with IH pick_min_le [of it acc a] show ?thesis by (auto intro: order_trans)
  qed
qed simp

lemma find_minsig_le:
  "find_minsig citr = Some m \<Longrightarrow> it \<in> set citr \<Longrightarrow> at_sig s it \<Longrightarrow> m \<le> s"
  using fold_pick_min_le [of citr None m] by (auto simp: find_minsig_def)

lemma find_minsig_None: "find_minsig citr = None \<longleftrightarrow> (\<forall>it \<in> set citr. it = [])"
  by (simp add: find_minsig_def fold_pick_min_None)

subsection \<open>Sorted iterators\<close>

lemma at_sig_iff_key:
  assumes "omap_wf it" "\<forall>s. at_sig s it \<longrightarrow> m \<le> s"
  shows "at_sig m it \<longleftrightarrow> m \<in> omap_keys it"
  using assms by (cases it) (auto simp: at_sig_def omap_keys_def omap_wf_def)

lemma omap_wf_advance: "omap_wf it \<Longrightarrow> omap_wf (advance m it)"
  by (cases it) (auto simp: advance_def omap_wf_def)

lemma find_advance:
  assumes "omap_wf it" "\<forall>s. at_sig s it \<longrightarrow> m \<le> s"
  shows "omap_find (advance m it) k = (if k = m then None else omap_find it k)"
proof (cases it)
  case Nil
  then show ?thesis by (simp add: advance_def omap_find_def)
next
  case (Cons e r)
  obtain s fw where e: "e = (s, fw)" by (cases e)
  have "m \<notin> fst ` set r \<and> (s \<noteq> m \<longrightarrow> m \<notin> fst ` set it)"
    using assms Cons e by (force simp: omap_wf_def at_sig_def)
  then have "map_of r m = None" and "s \<noteq> m \<longrightarrow> map_of it m = None"
    by (simp_all add: map_of_eq_None_iff)
  with Cons e show ?thesis
    by (auto simp: advance_def at_sig_def omap_find_def)
qed

lemma keys_advance:
  assumes "omap_wf it" "\<forall>s. at_sig s it \<longrightarrow> m \<le> s"
  shows "omap_keys (advance m it) = omap_keys it - {m}"
  by (intro set_eqI) (simp add: omap_keys_iff find_advance [OF assms])

subsection \<open>The sums\<close>

definition cpair :: "sig \<Rightarrow> 'd :: zero sigmap \<times> 'd sigmap \<Rightarrow> 'd \<times> 'd" where
  "cpair k = (\<lambda>(t, it). case omap_find it k of Some fw \<Rightarrow> fw | None \<Rightarrow> eff t dummysig)"

lemma eff_dummy: "omap_find t dummysig = Some fw \<Longrightarrow> eff t dummysig = fw"
  by (simp add: eff_def)

lemma contribution_cpair:
  assumes "omap_wf it" "\<forall>s. at_sig s it \<longrightarrow> m \<le> s" "dummysig \<in> omap_keys t"
  shows "contribution m t it = Some (cpair m (t, it))"
proof -
  obtain d where d: "omap_find t dummysig = Some d"
    using assms(3) omap_find_None by fastforce
  show ?thesis
  proof (cases "at_sig m it")
    case True
    then show ?thesis
      by (auto simp: at_sig_def contribution_def cpair_def omap_find_def split: list.splits)
  next
    case False
    then have "omap_find it m = None"
      using at_sig_iff_key [OF assms(1,2)] by (simp add: omap_find_None)
    with False d show ?thesis
      by (auto simp: at_sig_def contribution_def cpair_def eff_dummy split: list.splits)
  qed
qed

lemma sum_entries_cpair:
  fixes ts :: "'d :: field vecomap"
  assumes "length ts = length citr"
    and "\<forall>it \<in> set citr. omap_wf it \<and> (\<forall>s. at_sig s it \<longrightarrow> m \<le> s)"
    and "\<forall>t \<in> set ts. dummysig \<in> omap_keys t"
  shows "sum_entries m ts citr a b =
    Some (a + (\<Sum>p \<leftarrow> zip ts citr. fst (cpair m p)), b + (\<Sum>p \<leftarrow> zip ts citr. snd (cpair m p)))"
  using assms
proof (induction ts citr arbitrary: a b rule: list_induct2)
  case (Cons t ts it citr)
  then have "contribution m t it = Some (cpair m (t, it))"
    by (intro contribution_cpair) auto
  with Cons show ?case by (auto simp: add.assoc split: prod.splits)
qed simp

lemma dummy_weights_eff:
  fixes ts :: "'d :: field vecomap"
  shows "\<forall>t \<in> set ts. dummysig \<in> omap_keys t \<Longrightarrow>
    dummy_weights ts a = Some (a + (\<Sum>t \<leftarrow> ts. snd (eff t dummysig)))"
proof (induction ts arbitrary: a)
  case (Cons t ts)
  then obtain f w where "omap_find t dummysig = Some (f, w)"
    using omap_find_None by fastforce
  with Cons show ?case by (simp add: eff_dummy add.assoc)
qed simp

subsection \<open>The loop\<close>

text \<open>
  The invariant of the loop: the iterators run over sorted entries above the dummy
  signature, every list has the dummy signature, and a signature still to come that is
  already in list 0 is still to come at list 0's own iterator.
\<close>

definition merge_inv :: "'d vecomap \<Rightarrow> 'd sigmap list \<Rightarrow> bool" where
  "merge_inv ts citr \<longleftrightarrow>
     ts \<noteq> [] \<and> length ts = length citr \<and> omap_wf (hd ts)
     \<and> (\<forall>it \<in> set citr. omap_wf it \<and> (\<forall>k \<in> omap_keys it. dummysig < k))
     \<and> (\<forall>t \<in> set ts. dummysig \<in> omap_keys t)
     \<and> (\<forall>it \<in> set citr. omap_keys it \<inter> omap_keys (hd ts) \<subseteq> omap_keys (hd citr))"

definition merged_entry :: "'d :: field vecomap \<Rightarrow> 'd sigmap list \<Rightarrow> sig \<Rightarrow> 'd \<times> 'd" where
  "merged_entry ts citr k =
     ((\<Sum>p \<leftarrow> zip ts citr. fst (cpair k p)) / 2, (\<Sum>p \<leftarrow> zip ts citr. snd (cpair k p)) / 2)"

definition merged_find :: "'d :: field vecomap \<Rightarrow> 'd sigmap list \<Rightarrow> sig \<Rightarrow> ('d \<times> 'd) option" where
  "merged_find ts citr k =
     (if k = dummysig
      then Some (fst (eff (hd ts) dummysig), (\<Sum>t \<leftarrow> ts. snd (eff t dummysig)) / 2)
      else if \<exists>it \<in> set citr. k \<in> omap_keys it then Some (merged_entry ts citr k)
      else omap_find (hd ts) k)"

lemma dbl_of_2: "(dbl_of 2 :: 'd :: field) = 2"
  by (simp add: dbl_of_eq)

lemma merge_done_spec:
  fixes ts :: "'d :: field vecomap"
  assumes inv: "merge_inv ts citr" and "\<forall>it \<in> set citr. it = []"
  shows "\<exists>T. merge_done ts = Some (T # tl ts) \<and> omap_wf T
    \<and> (\<forall>k. omap_find T k = merged_find ts citr k)"
proof -
  obtain t rest where ts: "ts = t # rest"
    using inv by (cases ts) (auto simp: merge_inv_def)
  obtain f w where d: "omap_find t dummysig = Some (f, w)"
    using inv ts omap_find_None [of t dummysig] by (auto simp: merge_inv_def)
  have wf: "omap_wf t" using inv ts by (simp add: merge_inv_def)
  have "dummy_weights ts 0 = Some (\<Sum>t \<leftarrow> ts. snd (eff t dummysig))"
    using inv dummy_weights_eff [of ts 0] by (simp add: merge_inv_def)
  then have "merge_done ts = Some (omap_put dummysig (f, (\<Sum>t \<leftarrow> ts. snd (eff t dummysig)) / 2) t # rest)"
    by (simp add: merge_done_def ts d dbl_of_2)
  moreover have "\<not> (\<exists>it \<in> set citr. k \<in> omap_keys it)" for k
    using assms(2) by (auto simp: omap_keys_def)
  ultimately show ?thesis
    using wf by (auto simp: ts merged_find_def eff_dummy [OF d] map_simps)
qed

lemma minsig_above_dummy:
  assumes inv: "merge_inv ts citr" and m: "find_minsig citr = Some m"
  shows "dummysig < m"
proof -
  obtain it where it: "it \<in> set citr" "at_sig m it"
    using find_minsig_at [OF m] by blast
  then have "m \<in> omap_keys it"
    by (auto simp: at_sig_def omap_keys_def split: list.splits)
  with it inv show ?thesis by (auto simp: merge_inv_def)
qed

lemma merge_inv_step:
  fixes fw :: "'d \<times> 'd"
  assumes inv: "merge_inv (t # rest) (it0 # its)" and m: "find_minsig (it0 # its) = Some m"
  defines "t' \<equiv> write_min m fw it0 t"
  shows "merge_inv (t' # rest) (map (advance m) (it0 # its))"
    and "omap_find t' k = (if k = m then Some fw else omap_find t k)"
proof -
  let ?citr = "it0 # its"
  have le: "\<forall>s. at_sig s it \<longrightarrow> m \<le> s" if "it \<in> set ?citr" for it
    using find_minsig_le [OF m that] by blast
  have wf: "omap_wf it" if "it \<in> set ?citr" for it
    using inv that by (auto simp: merge_inv_def)
  have key: "at_sig m it \<longleftrightarrow> m \<in> omap_keys it" if "it \<in> set ?citr" for it
    by (rule at_sig_iff_key [OF wf [OF that] le [OF that]])
  obtain it where it: "it \<in> set ?citr" "m \<in> omap_keys it"
    using find_minsig_at [OF m] key by blast
  have new: "\<not> at_sig m it0 \<Longrightarrow> omap_find t m = None"
    using inv it key [of it0] by (fastforce simp: merge_inv_def omap_find_None)
  have wft: "omap_wf t" using inv by (simp add: merge_inv_def)
  have find': "omap_find t' k = (if k = m then Some fw else omap_find t k)" for k
    using new wft by (auto simp: t'_def write_min_def map_simps)
  then show "omap_find t' k = (if k = m then Some fw else omap_find t k)" .
  have keys': "omap_keys t' = insert m (omap_keys t)"
    by (intro set_eqI) (simp add: omap_keys_iff find')
  have "omap_wf t'" using wft by (simp add: t'_def write_min_def map_simps)
  moreover have "\<forall>it \<in> set ?citr. omap_wf (advance m it) \<and> omap_keys (advance m it) = omap_keys it - {m}"
    using wf le omap_wf_advance keys_advance by blast
  ultimately show "merge_inv (t' # rest) (map (advance m) ?citr)"
    using inv unfolding merge_inv_def by (auto simp: keys')
qed

lemma merged_find_step:
  fixes t :: "'d :: field sigmap"
  assumes inv: "merge_inv (t # rest) (it0 # its)" and m: "find_minsig (it0 # its) = Some m"
    and fw: "fw = merged_entry (t # rest) (it0 # its) m"
  shows "merged_find (write_min m fw it0 t # rest) (map (advance m) (it0 # its)) k = merged_find (t # rest) (it0 # its) k"
proof -
  let ?t' = "write_min m fw it0 t"
  let ?citr = "it0 # its"
  note step = merge_inv_step [OF inv m, where fw = fw] and dm = minsig_above_dummy [OF inv m]
  have le: "\<forall>it \<in> set ?citr. omap_wf it \<and> (\<forall>s. at_sig s it \<longrightarrow> m \<le> s)"
    using find_minsig_le [OF m] inv by (auto simp: merge_inv_def)
  have "omap_find ?t' dummysig = omap_find t dummysig"
    using dm by (auto simp: step(2))
  then have d: "eff ?t' dummysig = eff t dummysig"
    by (simp only: eff_def)
  have cp: "cpair j (u, advance m it) = cpair j (u, it)" if "j \<noteq> m" "it \<in> set ?citr" for j u it
    using le that by (auto simp: cpair_def find_advance)
  have zip: "map (cpair j) (zip (?t' # rest) (map (advance m) ?citr)) = map (cpair j) (zip (t # rest) ?citr)"
    if "j \<noteq> m" for j
  proof -
    have "map (cpair j) (zip rest (map (advance m) its)) = map (cpair j) (zip rest its)"
      using cp [OF that] by (auto simp: zip_map2 in_set_zip dest: set_zip_rightD)
    moreover have "cpair j (?t', advance m it0) = cpair j (t, it0)"
      using cp [OF that, of it0 ?t'] by (simp only: cpair_def prod.case d) simp
    ultimately show ?thesis by simp
  qed
  have entry: "merged_entry (?t' # rest) (map (advance m) ?citr) j = merged_entry (t # rest) ?citr j"
    if "j \<noteq> m" for j
    using arg_cong [OF zip [OF that], of "map fst"] arg_cong [OF zip [OF that], of "map snd"]
    by (simp only: merged_entry_def map_map o_def)
  have keys: "omap_keys (advance m it) = omap_keys it - {m}" if "it \<in> set ?citr" for it
    using le that by (auto simp: keys_advance)
  have mk: "\<exists>it \<in> set ?citr. m \<in> omap_keys it"
    using find_minsig_at [OF m] at_sig_iff_key le by blast
  show ?thesis
  proof (cases "k = m")
    case True
    then show ?thesis using mk step(2) dm keys fw by (auto simp: merged_find_def)
  next
    case False
    then have "(\<exists>it \<in> set (map (advance m) ?citr). k \<in> omap_keys it) \<longleftrightarrow> (\<exists>it \<in> set ?citr. k \<in> omap_keys it)"
      using keys by auto
    with False d entry [OF False] step(2) show ?thesis by (simp only: merged_find_def list.sel if_False list.map sum_list.Cons)
  qed
qed

lemma merge_loop_step:
  fixes t :: "'d :: field sigmap"
  assumes "find_minsig (it0 # its) = Some m"
    and "sum_entries m (t # rest) (it0 # its) 0 0 = Some (sumf, sumw)"
  shows "merge_loop (t # rest) (it0 # its)
       = merge_loop (write_min m (sumf / 2, sumw / 2) it0 t # rest) (map (advance m) (it0 # its))"
  by (simp only: merge_loop.simps [of "t # rest" "it0 # its"] assms option.case prod.case list.case
        dbl_of_2)

lemma merge_loop_spec:
  fixes ts :: "'d :: field vecomap"
  assumes "merge_inv ts citr"
  shows "\<exists>T. merge_loop ts citr = Some (T # tl ts) \<and> omap_wf T
    \<and> (\<forall>k. omap_find T k = merged_find ts citr k)"
  using assms
proof (induction ts citr rule: merge_loop.induct)
  case (1 ts citr)
  note inv = "1.prems"
  show ?case
  proof (cases "find_minsig citr")
    case None
    then show ?thesis
      using merge_done_spec [OF inv] find_minsig_None [of citr]
      by (simp add: merge_loop.simps [of ts citr])
  next
    case (Some m)
    obtain t rest it0 its where ts: "ts = t # rest" and citr: "citr = it0 # its"
      using inv by (cases ts; cases citr) (auto simp: merge_inv_def)
    define fw where "fw = merged_entry ts citr m"
    let ?t' = "write_min m fw it0 t"
    note step = merge_inv_step [OF inv [unfolded ts citr] Some [unfolded citr], where fw = fw]
    have le: "\<forall>it \<in> set citr. omap_wf it \<and> (\<forall>s. at_sig s it \<longrightarrow> m \<le> s)"
      using find_minsig_le [OF Some] inv by (auto simp: merge_inv_def)
    have sums: "sum_entries m ts citr 0 0
        = Some (\<Sum>p \<leftarrow> zip ts citr. fst (cpair m p), \<Sum>p \<leftarrow> zip ts citr. snd (cpair m p))"
      using sum_entries_cpair [of ts citr m 0 0] le inv by (simp add: merge_inv_def)
    then have unf: "merge_loop ts citr = merge_loop (?t' # rest) (map (advance m) citr)"
      using merge_loop_step [OF Some [unfolded citr], of t rest]
      by (simp only: fw_def merged_entry_def ts citr)
    obtain T where T: "merge_loop (?t' # rest) (map (advance m) citr) = Some (T # rest)" "omap_wf T"
      "\<forall>k. omap_find T k = merged_find (?t' # rest) (map (advance m) citr) k"
      using "1.IH" [OF Some refl sums refl refl ts citr] step(1)
      unfolding fw_def merged_entry_def ts citr by (auto simp: dbl_of_2)
    have "merged_find (?t' # rest) (map (advance m) citr) k = merged_find ts citr k" for k
      by (rule merged_find_step [OF inv [unfolded ts citr] Some [unfolded citr], folded ts citr])
        (simp add: fw_def)
    with T unf show ?thesis by (auto simp: ts)
  qed
qed

subsection \<open>The shape of gossip lists\<close>

lemma dummysig_least_above_hldsig: "hldsig < k \<Longrightarrow> dummysig \<le> k"
proof (cases k)
  case (Sig ps)
  assume "hldsig < k"
  with Sig consider "length ps > 1" | p where "ps = [p]" "0 < p"
    by (cases ps) (auto simp: hldsig_def less_sig_def CompareSig_def split: if_splits)
  then show ?thesis
  proof cases
    case 1
    with Sig show ?thesis by (auto simp: dummysig_def less_eq_sig_def less_sig_def CompareSig_def)
  next
    case 2
    then have "p = 1 \<or> 1 < p" by (metis order_neq_le_trans word_less_1 not_le_imp_less less_irrefl)
    with 2 Sig show ?thesis
      by (auto simp: dummysig_def less_eq_sig_def less_sig_def CompareSig_def)
  qed
qed

lemma gossip_wf_Cons: "omap_wf ((k, v) # t) \<longleftrightarrow> omap_wf t \<and> (\<forall>j \<in> omap_keys t. k < j)"
  by (auto simp: omap_wf_def omap_keys_def)

lemma sorted_hd_least:
  assumes "omap_wf t" "omap_find t k = Some v" "\<forall>j \<in> omap_keys t. k \<le> j"
  shows "\<exists>r. t = (k, v) # r"
proof (cases t)
  case Nil
  with assms show ?thesis by (simp add: omap_find_def)
next
  case (Cons e r)
  obtain j u where e: "e = (j, u)" by (cases e)
  have "j = k"
    using assms(1,3) Cons e omap_keys_iff [of k t] assms(2)
    by (fastforce simp: gossip_wf_Cons omap_keys_def)
  with assms(2) Cons e show ?thesis by (simp add: omap_find_def)
qed

lemma gossip_wf_vanilla:
  assumes "gossip_wf True t"
  obtains w r where "t = (dummysig, 0, w) # r" "omap_wf r" "\<forall>k \<in> omap_keys r. dummysig < k"
proof -
  obtain w where w: "omap_find t dummysig = Some (0, w)" and wf: "omap_wf t"
    using assms by (auto simp: gossip_wf_def)
  then obtain r where "t = (dummysig, 0, w) # r"
    using sorted_hd_least [OF wf w] assms by (auto simp: gossip_wf_def list_all_iff omap_keys_def)
  with wf show ?thesis using that by (auto simp: gossip_wf_Cons)
qed

lemma gossip_wf_xgossip:
  assumes "gossip_wf False t"
  obtains h w r where "t = (hldsig, h) # (dummysig, 0, w) # r" "omap_wf r"
    "\<forall>k \<in> omap_keys r. dummysig < k"
proof -
  obtain w h where w: "omap_find t dummysig = Some (0, w)" and h: "omap_find t hldsig = Some h"
    and wf: "omap_wf t" using assms by (auto simp: gossip_wf_def)
  then obtain r where r: "t = (hldsig, h) # r"
    using sorted_hd_least [OF wf h] assms by (auto simp: gossip_wf_def list_all_iff omap_keys_def)
  with wf have wfr: "omap_wf r" and above: "\<forall>k \<in> omap_keys r. hldsig < k"
    by (auto simp: gossip_wf_Cons)
  have "omap_find r dummysig = Some (0, w)"
    using w r dummysig_hldsig_order by (auto simp: omap_find_def)
  then obtain r' where "r = (dummysig, 0, w) # r'"
    using sorted_hd_least [OF wfr] above dummysig_least_above_hldsig by blast
  with r wfr show ?thesis using that by (auto simp: gossip_wf_Cons)
qed

text \<open>The part of a list behind the skipped entries.\<close>

lemma gossip_wf_drop:
  assumes "gossip_wf vanilla t" and skip: "skip = (if vanilla then 1 else 2)"
  shows "skip \<le> length t" "omap_wf (drop skip t)" "\<forall>k \<in> omap_keys (drop skip t). dummysig < k"
    and "dummysig < k \<Longrightarrow> omap_find (drop skip t) k = omap_find t k"
proof -
  have "skip \<le> length t \<and> omap_wf (drop skip t) \<and> (\<forall>k \<in> omap_keys (drop skip t). dummysig < k)
      \<and> (dummysig < k \<longrightarrow> omap_find (drop skip t) k = omap_find t k)"
  proof (cases vanilla)
    case True
    with assms(1) obtain w r where "t = (dummysig, 0, w) # r" "omap_wf r"
      "\<forall>k \<in> omap_keys r. dummysig < k" by (auto elim: gossip_wf_vanilla)
    with True skip show ?thesis by (auto simp: omap_find_def)
  next
    case False
    with assms(1) obtain h w r where "t = (hldsig, h) # (dummysig, 0, w) # r" "omap_wf r"
      "\<forall>k \<in> omap_keys r. dummysig < k" by (auto elim: gossip_wf_xgossip)
    with False skip dummysig_hldsig_order show ?thesis
      by (auto simp: omap_find_def dest: less_trans)
  qed
  then show "skip \<le> length t" "omap_wf (drop skip t)" "\<forall>k \<in> omap_keys (drop skip t). dummysig < k"
    "dummysig < k \<Longrightarrow> omap_find (drop skip t) k = omap_find t k" by blast+
qed

lemma gossip_wf_keys:
  assumes "gossip_wf vanilla t" "k \<in> omap_keys t"
  shows "dummysig < k \<or> k = dummysig \<or> k = hldsig \<and> \<not> vanilla"
proof -
  have "if vanilla then dummysig \<le> k else hldsig \<le> k"
    using assms by (auto simp: gossip_wf_def list_all_iff omap_keys_def split: if_splits)
  then show ?thesis
    using dummysig_least_above_hldsig by (auto split: if_splits dest: le_imp_less_or_eq)
qed

subsection \<open>The merge, pointwise\<close>

lemma merge_inv_init:
  assumes "ts \<noteq> []" "\<forall>t \<in> set ts. gossip_wf vanilla t" "skip = (if vanilla then 1 else 2)"
  shows "merge_inv ts (map (drop skip) ts)"
proof -
  have "\<forall>t \<in> set ts. omap_wf t \<and> dummysig \<in> omap_keys t"
    using assms(2) by (auto simp: gossip_wf_def omap_keys_iff)
  moreover have "omap_keys (drop skip t) \<inter> omap_keys (hd ts) \<subseteq> omap_keys (drop skip (hd ts))"
    if "t \<in> set ts" for t
  proof
    fix k assume k: "k \<in> omap_keys (drop skip t) \<inter> omap_keys (hd ts)"
    then have "dummysig < k" using gossip_wf_drop(3) assms(2,3) that by blast
    with k show "k \<in> omap_keys (drop skip (hd ts))"
      using gossip_wf_drop(4) [of vanilla "hd ts" skip k] assms by (simp add: omap_keys_iff)
  qed
  moreover have "\<forall>t \<in> set ts. omap_wf (drop skip t) \<and> (\<forall>k \<in> omap_keys (drop skip t). dummysig < k)"
    using gossip_wf_drop(2,3) [OF _ assms(3)] assms(2) by blast
  ultimately show ?thesis
    using assms(1) by (auto simp: merge_inv_def hd_map)
qed

lemma merged_find_eff:
  fixes ts :: "'d :: field vecomap"
  assumes ts: "ts \<noteq> []" "\<forall>t \<in> set ts. gossip_wf vanilla t" and skip: "skip = (if vanilla then 1 else 2)"
  shows "merged_find ts (map (drop skip) ts) k =
    (if k = hldsig then omap_find (hd ts) k
     else if \<exists>t \<in> set ts. k \<in> omap_keys t
     then Some ((\<Sum>t \<leftarrow> ts. fst (eff t k)) / 2, (\<Sum>t \<leftarrow> ts. snd (eff t k)) / 2)
     else None)"
proof -
  have d: "\<forall>t \<in> set ts. fst (eff t dummysig) = 0 \<and> dummysig \<in> omap_keys t"
    using ts(2) by (fastforce simp: gossip_wf_def eff_def omap_keys_iff)
  then have sum0: "(\<Sum>t \<leftarrow> ts. fst (eff t dummysig)) = 0"
    by (induction ts) auto
  have above: "k \<in> omap_keys (drop skip t) \<longleftrightarrow> k \<in> omap_keys t \<and> dummysig < k" if "t \<in> set ts" for t
    using gossip_wf_drop(3,4) ts(2) skip that by (metis omap_keys_iff)
  show ?thesis
  proof (cases "dummysig < k")
    case True
    then have "k \<noteq> hldsig" "k \<noteq> dummysig" using dummysig_hldsig_order by auto
    moreover have "\<forall>t \<in> set ts. omap_find (drop skip t) k = omap_find t k"
      using gossip_wf_drop(4) [OF _ skip True] ts(2) by blast
    then have "cpair k (t, drop skip t) = eff t k" if "t \<in> set ts" for t
      using that by (auto simp: cpair_def eff_def split: option.splits)
    then have "merged_entry ts (map (drop skip) ts) k
        = ((\<Sum>t \<leftarrow> ts. fst (eff t k)) / 2, (\<Sum>t \<leftarrow> ts. snd (eff t k)) / 2)"
      by (simp add: merged_entry_def zip_map2 zip_same_conv_map o_def cong: map_cong)
    moreover have "\<forall>t \<in> set ts. k \<notin> omap_keys t \<Longrightarrow> omap_find (hd ts) k = None"
      using ts(1) by (simp add: omap_find_None)
    ultimately show ?thesis
      using True above by (auto simp: merged_find_def)
  next
    case False
    then have "\<not> (\<exists>it \<in> set (map (drop skip) ts). k \<in> omap_keys it)"
      using above by auto
    moreover have "k = dummysig \<or> k = hldsig \<or> (\<forall>t \<in> set ts. k \<notin> omap_keys t)"
      using False gossip_wf_keys ts(2) by blast
    ultimately show ?thesis
      using d sum0 hd_in_set [OF ts(1)] by (auto simp: merged_find_def omap_find_None)
  qed
qed

lemma mergelists_many:
  fixes ts :: "'d :: field vecomap"
  assumes len: "length ts \<ge> 2" and wf: "\<forall>t \<in> set ts. gossip_wf vanilla t"
  shows "\<exists>T. mergelists vanilla ts = Some [T] \<and> omap_wf T
    \<and> (\<forall>k. omap_find T k =
        (if k = hldsig then omap_find (hd ts) k
         else if \<exists>t \<in> set ts. k \<in> omap_keys t
         then Some ((\<Sum>t \<leftarrow> ts. fst (eff t k)) / 2, (\<Sum>t \<leftarrow> ts. snd (eff t k)) / 2)
         else None))"
proof -
  define skip :: nat where "skip = (if vanilla then 1 else 2)"
  have ne: "ts \<noteq> []" using len by auto
  have "list_all (\<lambda>t. skip \<le> length t) ts"
    unfolding list_all_iff using gossip_wf_drop(1) [OF _ skip_def] wf by blast
  then have "mergelists vanilla ts = map_option (take 1) (merge_loop ts (map (drop skip) ts))"
    using len by (simp add: mergelists_def skip_def Let_def)
  moreover obtain T where "merge_loop ts (map (drop skip) ts) = Some (T # tl ts)" "omap_wf T"
    "\<forall>k. omap_find T k = merged_find ts (map (drop skip) ts) k"
    using merge_loop_spec [OF merge_inv_init [OF ne wf skip_def]] by blast
  ultimately show ?thesis
    using merged_find_eff [OF ne wf skip_def] by simp
qed

subsection \<open>Scaling, pointwise\<close>

lemma map_fst_scale [simp]: "map fst (map (scale_entry ff fw) t) = map fst t"
  by (auto simp: scale_entry_def split: prod.splits)

lemma omap_wf_scale [simp]: "omap_wf (map (scale_entry ff fw) t) = omap_wf t"
  by (simp only: omap_wf_def map_fst_scale)

lemma find_scale [simp]:
  "omap_find (map (scale_entry ff fw) t) k = map_option (map_prod ff fw) (omap_find t k)"
  by (induction t) (auto simp: omap_find_def scale_entry_def split: prod.splits)

lemma keys_scale [simp]: "omap_keys (map (scale_entry ff fw) t) = omap_keys t"
  by (intro set_eqI) (simp add: omap_keys_iff)

lemma eff_scale:
  assumes "ff 0 = 0" "fw 0 = 0"
  shows "eff (map (scale_entry ff fw) t) s = map_prod ff fw (eff t s)"
  using assms by (auto simp: eff_def split: option.splits)

lemma gossip_wf_scale:
  assumes "ff 0 = 0" "gossip_wf vanilla t"
  shows "gossip_wf vanilla (map (scale_entry ff fw) t)"
  using assms unfolding gossip_wf_def map_fst_scale by (auto split: if_splits)

subsection \<open>The contract of the merge\<close>

lemma gossip_wf_hld_vanilla: "gossip_wf True t \<Longrightarrow> omap_find t hldsig = None"
  using gossip_wf_keys [of True t hldsig] dummysig_hldsig_order by (auto simp: omap_find_None)

lemma gossip_wf_iff_keys:
  "gossip_wf vanilla t \<longleftrightarrow> omap_wf t \<and> (\<exists>w. omap_find t dummysig = Some (0, w))
     \<and> (if vanilla then \<forall>k \<in> omap_keys t. dummysig \<le> k
        else hldsig \<in> omap_keys t \<and> (\<forall>k \<in> omap_keys t. hldsig \<le> k))"
  by (auto simp: gossip_wf_def list_all_iff omap_keys_def omap_find_None
      map_of_eq_None_iff omap_find_def)

lemma mergelists_spec:
  fixes ts :: "'d :: field vecomap"
  assumes ne: "ts \<noteq> []" and wf: "\<forall>t \<in> set ts. gossip_wf vanilla t"
  shows "\<exists>T. mergelists vanilla ts = Some [T] \<and> gossip_wf vanilla T
    \<and> omap_keys T = (\<Union>t \<in> set ts. omap_keys t)
    \<and> (\<forall>s. s \<noteq> hldsig \<longrightarrow>
         eff T s = ((\<Sum>t \<leftarrow> ts. fst (eff t s)) / 2, (\<Sum>t \<leftarrow> ts. snd (eff t s)) / 2))"
proof (cases "length ts = 1")
  case True
  then obtain t where ts: "ts = [t]" by (auto simp: length_Suc_conv)
  then show ?thesis
    using wf gossip_wf_scale [of "\<lambda>f. f / 2" vanilla t "\<lambda>w. w / 2"]
    by (simp add: mergelists_def dividefreq_def eff_scale dbl_of_2 map_prod_def split: prod.splits)
next
  case False
  with ne have len: "length ts \<ge> 2" by (cases ts) (auto simp: Suc_le_eq)
  obtain T where T: "mergelists vanilla ts = Some [T]" "omap_wf T"
    and find: "\<And>k. omap_find T k =
        (if k = hldsig then omap_find (hd ts) k
         else if \<exists>t \<in> set ts. k \<in> omap_keys t
         then Some ((\<Sum>t \<leftarrow> ts. fst (eff t k)) / 2, (\<Sum>t \<leftarrow> ts. snd (eff t k)) / 2)
         else None)"
    using mergelists_many [OF len wf] by blast
  have dk: "\<forall>t \<in> set ts. dummysig \<in> omap_keys t" and f0: "\<forall>t \<in> set ts. fst (eff t dummysig) = 0"
    using wf by (auto simp: gossip_wf_def omap_keys_iff eff_def)
  have dT: "omap_find T dummysig
      = Some ((\<Sum>t \<leftarrow> ts. fst (eff t dummysig)) / 2, (\<Sum>t \<leftarrow> ts. snd (eff t dummysig)) / 2)"
    using dk ne by (auto simp: find)
  have sum0: "(\<Sum>t \<leftarrow> ts. fst (eff t dummysig)) = 0"
    using f0 by (induction ts) auto
  have hld: "hldsig \<in> omap_keys t \<longleftrightarrow> \<not> vanilla" if "t \<in> set ts" for t
    using wf that gossip_wf_hld_vanilla [of t]
    by (cases vanilla) (auto simp: omap_find_None, auto simp: gossip_wf_iff_keys)
  have keys: "omap_keys T = (\<Union>t \<in> set ts. omap_keys t)"
  proof (intro set_eqI)
    fix k
    have "omap_find T k = None \<longleftrightarrow> k \<notin> (\<Union>t \<in> set ts. omap_keys t)"
      using hld hd_in_set [OF ne] by (cases "k = hldsig") (auto simp: omap_find_None find)
    then show "k \<in> omap_keys T \<longleftrightarrow> k \<in> (\<Union>t \<in> set ts. omap_keys t)"
      unfolding omap_find_None by blast
  qed
  have dw: "\<exists>w. omap_find T dummysig = Some (0, w)"
    unfolding dT sum0 div_0 by blast
  have "gossip_wf vanilla T"
    using T(2) dw wf hd_in_set [OF ne] unfolding gossip_wf_iff_keys keys
    by (cases vanilla) auto
  moreover have "eff T s = ((\<Sum>t \<leftarrow> ts. fst (eff t s)) / 2, (\<Sum>t \<leftarrow> ts. snd (eff t s)) / 2)"
    if "s \<noteq> hldsig" for s
  proof (cases "\<exists>t \<in> set ts. s \<in> omap_keys t")
    case True
    with that show ?thesis by (simp add: eff_def find)
  next
    case False
    then have "eff t s = eff t dummysig" if "t \<in> set ts" for t
      using that by (simp add: eff_def omap_keys_iff split: option.splits)
    with False that dT show ?thesis
      by (simp add: eff_def [of T] find cong: map_cong)
  qed
  ultimately show ?thesis using T(1) keys by blast
qed

subsection \<open>Properties\<close>

text \<open>
  C2: a gossip merge halves the pointwise sums. On well-formed lists \<^verbatim>\<open>mergelists\<close> runs
  to completion without undefined behaviour and leaves one well-formed list over the
  union of the signatures; for every signature other than the placeholder \<^verbatim>\<open>hldsig\<close> its
  frequency and weight are half of the sums of the effective frequencies and weights of
  the merged lists, where a list without the signature counts with its dummy entry.
\<close>

theorem mergelists_halves_sums:
  fixes ts :: "'d :: field vecomap"
  assumes "ts \<noteq> []" "\<forall>t \<in> set ts. gossip_wf vanilla t"
  shows "\<exists>T. mergelists vanilla ts = Some [T] \<and> gossip_wf vanilla T
    \<and> omap_keys T = (\<Union>t \<in> set ts. omap_keys t)
    \<and> (\<forall>s. s \<noteq> hldsig \<longrightarrow>
         eff T s = ((\<Sum>t \<leftarrow> ts. fst (eff t s)) / 2, (\<Sum>t \<leftarrow> ts. snd (eff t s)) / 2))"
  using assms by (rule mergelists_spec)

theorem mergelists_halves_sums_witness:
  "\<exists>T. mergelists True [[(Sig [1], 0, 1), (Sig [5, 7], 4, 1)], [(Sig [1], 0, 1), (Sig [3], 2, 1)]]
        = Some [T :: rat sigmap]
     \<and> eff T (Sig [5, 7]) = (2, 1) \<and> eff T (Sig [3]) = (1, 1)"
proof -
  let ?a = "[(Sig [1], 0, 1), (Sig [5, 7], 4, 1)] :: rat sigmap"
  let ?b = "[(Sig [1], 0, 1), (Sig [3], 2, 1)] :: rat sigmap"
  have "gossip_wf True ?a" "gossip_wf True ?b"
    by (auto simp: gossip_wf_def omap_wf_def omap_find_def dummysig_def less_eq_sig_def
        less_sig_def CompareSig_def)
  then obtain T where "mergelists True [?a, ?b] = Some [T]"
    "\<forall>s. s \<noteq> hldsig \<longrightarrow>
       eff T s = ((\<Sum>t \<leftarrow> [?a, ?b]. fst (eff t s)) / 2, (\<Sum>t \<leftarrow> [?a, ?b]. snd (eff t s)) / 2)"
    using mergelists_halves_sums [of "[?a, ?b]" True] by auto
  then show ?thesis
    by (auto simp: eff_def omap_find_def dummysig_def hldsig_def)
qed

text \<open>
  C29: \<^verbatim>\<open>multiplyfreq\<close> by 2 and 2, the code's reaction to a failed send, undoes the halving
  of a single list by \<^verbatim>\<open>dividefreq\<close>: every entry, dummies included, is back.
\<close>

theorem multiplyfreq_undoes_dividefreq:
  fixes t :: "'d :: field_char_0 sigmap"
  assumes "t \<noteq> []"
  shows "Option.bind (dividefreq [t] 0 2 2) (\<lambda>ts. multiplyfreq ts 0 2 2) = Some [t]"
proof -
  obtain e m where "t = e # m" using assms by (cases t) auto
  then show ?thesis
    by (simp add: dividefreq_def multiplyfreq_def scale_entry_def dbl_of_2 o_def Let_def
        case_prod_beta)
qed

theorem multiplyfreq_undoes_dividefreq_witness:
  "Option.bind (dividefreq [[(Sig [1], 0, 1), (Sig [6], 3, 1 / 2 :: rat)]] 0 2 2)
     (\<lambda>ts. multiplyfreq ts 0 2 2) = Some [[(Sig [1], 0, 1), (Sig [6], 3, 1 / 2)]]"
  by (rule multiplyfreq_undoes_dividefreq) simp

end
