(* ===== verification/Wire.thy ===== *)
theory Wire
  imports Prelude "HOL-Library.Monad_Syntax"
begin

text \<open>
  The memory view under the message formats of \<^verbatim>\<open>utils/utils.C\<close>. A buffer is its list of
  bytes and a pointer into it an \<open>int\<close> offset, so that it may be moved back by a negative
  size field. \<^verbatim>\<open>memcpy\<close> of an object of \<open>w\<close> bits reads or writes \<open>w div 8\<close> bytes, least
  significant first. A read outside the buffer is \<open>None\<close>; a writer yields \<open>None\<close> unless it
  fills the \<^verbatim>\<open>len\<close> bytes it has allocated exactly (a write past them is an overrun, a byte
  never written is uninitialised).
\<close>

subsection \<open>Objects as bytes\<close>

primrec le_bytes :: "nat \<Rightarrow> nat \<Rightarrow> bytes" where
  "le_bytes 0 v = []"
| "le_bytes (Suc n) v = of_nat (v mod 256) # le_bytes n (v div 256)"

primrec le_nat :: "bytes \<Rightarrow> nat" where
  "le_nat [] = 0"
| "le_nat (b # bs) = unat b + 256 * le_nat bs"

definition sizeof :: "'a :: len itself \<Rightarrow> nat" where
  "sizeof T = LENGTH('a) div 8"

definition wr :: "'a :: len word \<Rightarrow> bytes" where
  "wr w = le_bytes (sizeof TYPE('a)) (unat w)"

definition wr_int :: "int \<Rightarrow> bytes" where
  "wr_int i = wr (word_of_int i :: 32 word)"

definition wr_list :: "'a :: len word list \<Rightarrow> bytes" where
  "wr_list ws = concat (map wr ws)"

subsection \<open>Reading\<close>

definition rd_str :: "bytes \<Rightarrow> int \<Rightarrow> int \<Rightarrow> bytes option" where
  "rd_str buf p n =
     (if 0 \<le> p \<and> 0 \<le> n \<and> p + n \<le> int (length buf) then Some (take (nat n) (drop (nat p) buf))
      else None)"

definition rd :: "bytes \<Rightarrow> int \<Rightarrow> 'a :: len word option" where
  "rd buf p = map_option (\<lambda>bs. of_nat (le_nat bs)) (rd_str buf p (int (sizeof TYPE('a))))"

definition rd_int :: "bytes \<Rightarrow> int \<Rightarrow> int option" where
  "rd_int buf p = map_option sint (rd buf p :: 32 word option)"

primrec rd_list :: "bytes \<Rightarrow> int \<Rightarrow> nat \<Rightarrow> 'a :: len word list option" where
  "rd_list buf p 0 = Some []"
| "rd_list buf p (Suc n) =
     do { w \<leftarrow> rd buf p; ws \<leftarrow> rd_list buf (p + int (sizeof TYPE('a))) n; Some (w # ws) }"

subsection \<open>Allocation\<close>

definition emit :: "nat \<Rightarrow> bytes \<Rightarrow> bytes option" where
  "emit len out = (if int (length out) = sint (of_nat len :: 32 word) then Some out else None)"

subsection \<open>Codec lemmas\<close>

lemma length_le_bytes [simp]: "length (le_bytes n v) = n"
  by (induction n arbitrary: v) auto

lemma le_nat_le_bytes: "v < 256 ^ n \<Longrightarrow> le_nat (le_bytes n v) = v"
proof (induction n arbitrary: v)
  case (Suc n)
  then have "le_nat (le_bytes n (v div 256)) = v div 256"
    by (simp add: Suc.IH less_mult_imp_div_less mult.commute)
  moreover have "unat (of_nat (v mod 256) :: byte) = v mod 256"
    by (simp add: unat_of_nat)
  ultimately show ?case by simp
qed simp

lemma le_bytes_le_nat: "le_bytes (length bs) (le_nat bs) = bs"
proof (induction bs)
  case (Cons b bs)
  have "unat b < 256" using unsigned_less [of b] by simp
  with Cons show ?case by simp
qed simp

lemma le_nat_bound: "le_nat bs < 256 ^ length bs"
proof (induction bs)
  case (Cons b bs)
  have "unat b < 256" using unsigned_less [of b] by simp
  with Cons show ?case by simp
qed simp

lemma sizeof_pow:
  assumes "8 dvd LENGTH('a :: len)"
  shows "(256 :: nat) ^ sizeof TYPE('a) = 2 ^ LENGTH('a)"
proof -
  have "(256 :: nat) ^ sizeof TYPE('a) = 2 ^ (8 * sizeof TYPE('a))"
    by (simp add: power_mult)
  with assms show ?thesis by (simp add: sizeof_def)
qed

lemma length_wr [simp]: "length (wr (w :: 'a :: len word)) = sizeof TYPE('a)"
  by (simp add: wr_def)

lemma sizeof_32 [simp]: "sizeof TYPE(32) = 4" and sizeof_64 [simp]: "sizeof TYPE(64) = 8"
  and sizeof_128 [simp]: "sizeof TYPE(128) = 16" and sizeof_8 [simp]: "sizeof TYPE(8) = 1"
  by (simp_all add: sizeof_def)

lemma length_wr_int [simp]: "length (wr_int i) = 4"
  by (simp add: wr_int_def)

lemma length_wr_list [simp]:
  "length (wr_list (ws :: 'a :: len word list)) = sizeof TYPE('a) * length ws"
  by (induction ws) (simp_all add: wr_list_def)

lemma wr_list_simps [simp]: "wr_list [] = []" "wr_list (w # ws) = wr w @ wr_list ws"
  by (simp_all add: wr_list_def)

subsection \<open>What a buffer holds at an offset\<close>

definition sees :: "bytes \<Rightarrow> int \<Rightarrow> bytes \<Rightarrow> bool" where
  "sees buf p xs \<longleftrightarrow> rd_str buf p (int (length xs)) = Some xs"

lemma sees_iff:
  "sees buf p xs \<longleftrightarrow> (\<exists>pre post. buf = pre @ xs @ post \<and> p = int (length pre))"
proof
  assume "sees buf p xs"
  then have p: "0 \<le> p" "p + int (length xs) \<le> int (length buf)"
    and xs: "take (length xs) (drop (nat p) buf) = xs"
    by (auto simp: sees_def rd_str_def split: if_splits)
  have "buf = take (nat p) buf @ xs @ drop (length xs) (drop (nat p) buf)"
    by (metis append_take_drop_id xs)
  moreover have "p = int (length (take (nat p) buf))" using p by simp
  ultimately show "\<exists>pre post. buf = pre @ xs @ post \<and> p = int (length pre)" by blast
qed (auto simp: sees_def rd_str_def)

lemma sees_refl: "sees buf 0 buf"
  by (simp add: sees_def rd_str_def)

lemma sees_append:
  "sees buf p (xs @ ys) \<longleftrightarrow> sees buf p xs \<and> sees buf (p + int (length xs)) ys"
proof
  assume "sees buf p (xs @ ys)"
  then obtain pre post where "buf = pre @ xs @ ys @ post" "p = int (length pre)"
    by (auto simp: sees_iff)
  then have "buf = pre @ xs @ (ys @ post)" "buf = (pre @ xs) @ ys @ post"
    "p + int (length xs) = int (length (pre @ xs))" by auto
  with \<open>p = _\<close> show "sees buf p xs \<and> sees buf (p + int (length xs)) ys"
    unfolding sees_iff by blast
next
  assume "sees buf p xs \<and> sees buf (p + int (length xs)) ys"
  then obtain pre post pre' post' where *: "buf = pre @ xs @ post" "p = int (length pre)"
    "buf = pre' @ ys @ post'" "p + int (length xs) = int (length pre')"
    unfolding sees_iff by blast
  then have "length (pre @ xs) = length pre'" by simp
  moreover have "(pre @ xs) @ post = pre' @ (ys @ post')" using * by simp
  ultimately have "pre' = pre @ xs" by (metis append_eq_append_conv)
  then have "buf = pre @ (xs @ ys) @ post'" using * by simp
  with * show "sees buf p (xs @ ys)" unfolding sees_iff by blast
qed

lemma rd_str_sees: "sees buf p xs \<Longrightarrow> n = int (length xs) \<Longrightarrow> rd_str buf p n = Some xs"
  by (simp add: sees_def)

lemma sees_appendE:
  assumes "sees buf p (xs @ ys)"
  obtains "sees buf p xs" "sees buf (p + int (length xs)) ys"
  using assms by (simp add: sees_append)

lemma sees_wr:
  assumes "8 dvd LENGTH('a :: len)"
  shows "sees buf p (wr (w :: 'a word)) \<longleftrightarrow> rd buf p = Some w"
proof
  assume "sees buf p (wr w)"
  moreover have "le_nat (wr w) = unat w"
    using unsigned_less [of w] by (simp add: wr_def le_nat_le_bytes sizeof_pow [OF assms])
  ultimately show "rd buf p = Some w" by (simp add: rd_def sees_def)
next
  assume "rd buf p = Some w"
  then obtain bs where bs: "rd_str buf p (int (sizeof TYPE('a))) = Some bs"
    and w: "w = of_nat (le_nat bs)" by (auto simp: rd_def)
  have len: "length bs = sizeof TYPE('a)"
    using bs by (auto simp: rd_str_def split: if_splits)
  have "unat w = le_nat bs"
    using le_nat_bound [of bs] by (simp add: w unat_of_nat len sizeof_pow [OF assms])
  then have "wr w = bs" using le_bytes_le_nat [of bs] by (simp add: wr_def len)
  with bs len show "sees buf p (wr w)" by (simp add: sees_def)
qed

lemma sees_wr_32: "sees buf p (wr (w :: 32 word)) \<longleftrightarrow> rd buf p = Some w"
  by (rule sees_wr) simp

lemma sees_wr_int: "sees buf p (wr_int i) \<longleftrightarrow> rd buf p = Some (word_of_int i :: 32 word)"
  by (simp add: wr_int_def sees_wr_32)

lemma rd_list_sees:
  assumes "8 dvd LENGTH('a :: len)" "sees buf p (wr_list (ws :: 'a word list))"
  shows "rd_list buf p (length ws) = Some ws"
  using assms(2)
proof (induction ws arbitrary: p)
  case (Cons w ws)
  then have "rd buf p = Some w" "sees buf (p + int (sizeof TYPE('a))) (wr_list ws)"
    by (simp_all add: sees_append sees_wr [OF assms(1)])
  with Cons.IH show ?case by simp
qed simp

text \<open>An \<^verbatim>\<open>int\<close> field reads back as it was written when it is in range.\<close>

definition int32 :: "int \<Rightarrow> bool" where
  "int32 i \<longleftrightarrow> - (2 ^ 31) \<le> i \<and> i < 2 ^ 31"

lemma sint_int32: "int32 i \<Longrightarrow> sint (word_of_int i :: 32 word) = i"
  by (simp add: int32_def sint_word_ariths signed_take_bit_int_eq_self sint_sbintrunc')

lemma rd_int_sees: "sees buf p (wr_int i) \<Longrightarrow> int32 i \<Longrightarrow> rd_int buf p = Some i"
  by (simp add: rd_int_def sees_wr_int sint_int32)

lemma int32_nat: "n < 2 ^ 31 \<Longrightarrow> int32 (int n)"
  by (simp add: int32_def)

lemma int32_mono: "0 \<le> i \<Longrightarrow> i \<le> j \<Longrightarrow> int32 j \<Longrightarrow> int32 i"
  by (simp add: int32_def)

lemma emit_length: "length out = len \<Longrightarrow> int32 (int len) \<Longrightarrow> emit len out = Some out"
  using sint_int32 [of "int len"] by (simp add: emit_def)

lemma emit_SomeD:
  "emit len out = Some buf \<Longrightarrow> buf = out \<and> int (length out) = sint (of_nat len :: 32 word)"
  by (simp add: emit_def split: if_splits)


end
