(* ===== verification/Messages.thy ===== *)
theory Messages
  imports Wire Signatures
begin

text \<open>
  The message formats of \<^verbatim>\<open>utils/utils.C\<close>: the overloads of \<^verbatim>\<open>makeKeyValue\<close>, which lay a
  message out in a buffer whose length they compute first, and of \<^verbatim>\<open>getKeyValue\<close>, which
  walk a pointer over a received buffer. An overload is named by the message it carries. A
  \<^verbatim>\<open>double\<close> is its 64 bits and a \<^verbatim>\<open>long double\<close> its 128. A reader returns \<open>Inl (-1)\<close> where
  the source returns -1 (the length field does not match), and \<open>None\<close> where the source
  reads outside the buffer or an assertion fails.
\<close>

subsection \<open>Message types\<close>

datatype InsertType =
    UPDATE | SPLIT | UPDATEHDRLOCK | UPDATEHDR | NONE | REPLACE | SPLITSPECIAL | REPLACESIG
  | UPDATEIFPRESENT | JUSTAPPEND | UPDATEVAL | UPDATEVALIFPRESENT | QUERYX | QUERYS
  | VXGOSSIP | INITGOSSIP | INFORMTEAM | XGOSSIP | INVALID | XGOSSIPC | QUERYXP
  | VXGOSSIPC | BCAST | BCASTC

fun InsertType_code :: "InsertType \<Rightarrow> int" where
  "InsertType_code UPDATE = -1"
| "InsertType_code SPLIT = -2"
| "InsertType_code UPDATEHDRLOCK = -3"
| "InsertType_code UPDATEHDR = -4"
| "InsertType_code NONE = -5"
| "InsertType_code REPLACE = -6"
| "InsertType_code SPLITSPECIAL = -7"
| "InsertType_code REPLACESIG = -8"
| "InsertType_code UPDATEIFPRESENT = -9"
| "InsertType_code JUSTAPPEND = -10"
| "InsertType_code UPDATEVAL = -11"
| "InsertType_code UPDATEVALIFPRESENT = -12"
| "InsertType_code QUERYX = -13"
| "InsertType_code QUERYS = -14"
| "InsertType_code VXGOSSIP = -15"
| "InsertType_code INITGOSSIP = -16"
| "InsertType_code INFORMTEAM = -17"
| "InsertType_code XGOSSIP = -18"
| "InsertType_code INVALID = -19"
| "InsertType_code XGOSSIPC = -20"
| "InsertType_code QUERYXP = -21"
| "InsertType_code VXGOSSIPC = -22"
| "InsertType_code BCAST = -23"
| "InsertType_code BCASTC = -24"

definition wr_type :: "InsertType \<Rightarrow> bytes" where
  "wr_type t = wr_int (InsertType_code t)"

subsection \<open>Fields\<close>

definition put_sized :: "bytes \<Rightarrow> bytes" where
  "put_sized s = wr_int (int (length s)) @ s"

definition get_sized :: "bytes \<Rightarrow> int \<Rightarrow> (bytes \<times> int) option" where
  "get_sized buf p = do { n \<leftarrow> rd_int buf p; s \<leftarrow> rd_str buf (p + 4) n; Some (s, p + 4 + n) }"

definition get_int :: "bytes \<Rightarrow> int \<Rightarrow> (int \<times> int) option" where
  "get_int buf p = do { i \<leftarrow> rd_int buf p; Some (i, p + 4) }"

definition put_sig :: "poly list \<Rightarrow> bytes" where
  "put_sig s = wr_int (int (4 * length s)) @ wr_list s"

definition get_sig :: "bytes \<Rightarrow> int \<Rightarrow> (poly list \<times> int) option" where
  "get_sig buf p =
     do { n \<leftarrow> rd_int buf p; s \<leftarrow> rd_list buf (p + 4) (nat (n div 4)); Some (s, p + 4 + n) }"

definition put_pair :: "'w :: len word \<times> 'w word \<Rightarrow> bytes" where
  "put_pair fw = wr (fst fw) @ wr (snd fw)"

definition get_pair :: "bytes \<Rightarrow> int \<Rightarrow> (('w :: len word \<times> 'w word) \<times> int) option" where
  "get_pair buf p =
     (let n = int (sizeof TYPE('w))
      in do { f \<leftarrow> rd buf p; w \<leftarrow> rd buf (p + n); Some ((f, w), p + n + n) })"

definition put_entry :: "poly list \<times> 64 word \<times> 64 word \<Rightarrow> bytes" where
  "put_entry e = put_sig (fst e) @ put_pair (snd e)"

definition get_entry :: "bytes \<Rightarrow> int \<Rightarrow> ((poly list \<times> 64 word \<times> 64 word) \<times> int) option" where
  "get_entry buf p =
     do { (s, p) \<leftarrow> get_sig buf p; (fw, p) \<leftarrow> get_pair buf p; Some ((s, fw), p) }"

text \<open>\<^verbatim>\<open>(int) ceil(numSigs/8.0)\<close>\<close>

definition bitmap_len :: "int \<Rightarrow> int" where
  "bitmap_len numSigs = (numSigs + 7) div 8"

definition put_row :: "poly \<times> bytes \<Rightarrow> bytes" where
  "put_row r = wr (fst r) @ snd r"

definition get_row :: "int \<Rightarrow> bytes \<Rightarrow> int \<Rightarrow> ((poly \<times> bytes) \<times> int) option" where
  "get_row numSigs buf p =
     (let n = max 0 (bitmap_len numSigs)
      in do { c \<leftarrow> rd buf p; e \<leftarrow> rd_str buf (p + 4) n; Some ((c, e), p + 4 + n) })"

primrec rd_many :: "(bytes \<Rightarrow> int \<Rightarrow> ('a \<times> int) option) \<Rightarrow> nat \<Rightarrow> bytes \<Rightarrow> int
    \<Rightarrow> ('a list \<times> int) option" where
  "rd_many get 0 buf p = Some ([], p)"
| "rd_many get (Suc n) buf p =
     do { (x, p) \<leftarrow> get buf p; (xs, p) \<leftarrow> rd_many get n buf p; Some (x # xs, p) }"

subsection \<open>The contract of a field\<close>

text \<open>What a field's reader owes its writer: at an offset where the written bytes stand it
  returns the value and the offset behind them. A repeated field inherits the contract.\<close>

locale field_codec =
  fixes put :: "'a \<Rightarrow> bytes" and get :: "bytes \<Rightarrow> int \<Rightarrow> ('a \<times> int) option"
    and ok :: "'a \<Rightarrow> bool"
  assumes get_put: "sees buf p (put x) \<Longrightarrow> ok x \<Longrightarrow> get buf p = Some (x, p + int (length (put x)))"
begin

lemma get_many:
  assumes "list_all ok xs" "sees buf p (concat (map put xs))"
  shows "rd_many get (length xs) buf p = Some (xs, p + int (length (concat (map put xs))))"
  using assms
proof (induction xs arbitrary: p)
  case (Cons x xs)
  then show ?case by (auto simp: sees_append add.assoc dest: get_put)
qed simp

lemma put_inj: "ok x \<Longrightarrow> ok y \<Longrightarrow> put x = put y \<Longrightarrow> x = y"
  using get_put [of "put x" 0 x] get_put [of "put x" 0 y] by (simp add: sees_refl)

end

interpretation int_field: field_codec wr_int get_int int32
  by unfold_locales (simp add: get_int_def rd_int_sees)

interpretation sized_field: field_codec put_sized get_sized "\<lambda>s. int32 (int (length s))"
proof unfold_locales
  fix buf p and s :: bytes
  assume "sees buf p (put_sized s)" "int32 (int (length s))"
  then have "rd_int buf p = Some (int (length s))"
    "rd_str buf (p + 4) (int (length s)) = Some s"
    by (auto simp: put_sized_def sees_append rd_int_sees rd_str_sees)
  then show "get_sized buf p = Some (s, p + int (length (put_sized s)))"
    by (simp add: get_sized_def put_sized_def)
qed

interpretation sig_field: field_codec put_sig get_sig "\<lambda>s. int32 (int (4 * length s))"
proof unfold_locales
  fix buf p and s :: "poly list"
  assume "sees buf p (put_sig s)" "int32 (int (4 * length s))"
  then have "rd_int buf p = Some (int (4 * length s))"
    "rd_list buf (p + 4) (length s) = Some s"
    by (auto simp: put_sig_def sees_append intro: rd_int_sees rd_list_sees)
  then show "get_sig buf p = Some (s, p + int (length (put_sig s)))"
    by (simp add: get_sig_def put_sig_def)
qed

lemma get_pair_sees:
  assumes "8 dvd LENGTH('w)" "sees buf p (put_pair (fw :: 'w :: len word \<times> 'w word))"
  shows "get_pair buf p = Some (fw, p + int (length (put_pair fw)))"
  using assms(2)
  by (auto simp: put_pair_def get_pair_def sees_append sees_wr [OF assms(1)])

lemma pair_field:
  "8 dvd LENGTH('w) \<Longrightarrow> field_codec (put_pair :: 'w :: len word \<times> 'w word \<Rightarrow> bytes) get_pair (\<lambda>_. True)"
  by unfold_locales (rule get_pair_sees)

interpretation double_field: field_codec put_pair
    "get_pair :: _ \<Rightarrow> _ \<Rightarrow> ((64 word \<times> 64 word) \<times> int) option" "\<lambda>_. True"
  by (rule pair_field) simp

interpretation entry_field: field_codec put_entry get_entry
    "\<lambda>e. int32 (int (4 * length (fst e)))"
proof unfold_locales
  fix buf p and e :: "poly list \<times> 64 word \<times> 64 word"
  assume s: "sees buf p (put_entry e)" and ok: "int32 (int (4 * length (fst e)))"
  then have "get_sig buf p = Some (fst e, p + int (length (put_sig (fst e))))"
    by (simp add: put_entry_def sees_append sig_field.get_put)
  moreover have "get_pair buf (p + int (length (put_sig (fst e)))) =
      Some (snd e, p + int (length (put_sig (fst e))) + int (length (put_pair (snd e))))"
    using s by (simp add: put_entry_def sees_append double_field.get_put)
  ultimately show "get_entry buf p = Some (e, p + int (length (put_entry e)))"
    by (simp add: get_entry_def put_entry_def)
qed

interpretation row_field: field_codec put_row "get_row n" "\<lambda>r. int (length (snd r)) = bitmap_len n"
proof unfold_locales
  fix buf p and r :: "poly \<times> bytes"
  assume "sees buf p (put_row r)" "int (length (snd r)) = bitmap_len n"
  then have "rd buf p = Some (fst r)" "rd_str buf (p + 4) (bitmap_len n) = Some (snd r)"
    "0 \<le> bitmap_len n" "int (length (snd r)) = bitmap_len n"
    by (auto simp: put_row_def sees_append sees_wr_32 rd_str_sees intro: order_trans)
  then show "get_row n buf p = Some (r, p + int (length (put_row r)))"
    by (simp add: get_row_def put_row_def Let_def)
qed

subsection \<open>Gossip messages\<close>

definition getKeyValueType :: "bytes \<Rightarrow> int option" where
  "getKeyValueType buf = rd_int buf 0"

definition getKeyValueLen :: "bytes \<Rightarrow> int option" where
  "getKeyValueLen buf = rd_int buf 4"

text \<open>The prefix shared by the readers that are given \<^verbatim>\<open>recvlen\<close>: type, length, key.\<close>

definition get_msg_key :: "bytes \<Rightarrow> int \<Rightarrow> (int + bytes \<times> int) option" where
  "get_msg_key buf recvlen =
     do { _ \<leftarrow> rd_int buf 0;
          len \<leftarrow> rd_int buf 4;
          if recvlen \<noteq> len then Some (Inl (-1)) else map_option Inr (get_sized buf 8) }"

text \<open>A message with a body behind the key.\<close>

definition with_key :: "(bytes \<Rightarrow> int \<Rightarrow> ('a \<times> int) option) \<Rightarrow> bytes \<Rightarrow> int
    \<Rightarrow> (int + bytes \<times> 'a) option" where
  "with_key get_body buf recvlen =
     do { r \<leftarrow> get_msg_key buf recvlen;
          case r of
            Inl e \<Rightarrow> Some (Inl e)
          | Inr (key, p) \<Rightarrow> do { (x, p) \<leftarrow> get_body buf p; Some (Inr (key, x)) } }"

definition frame :: "nat \<Rightarrow> InsertType \<Rightarrow> bytes \<Rightarrow> bytes \<Rightarrow> bytes option" where
  "frame len type key body = emit len (wr_type type @ wr_int (int len) @ put_sized key @ body)"

definition getKeyValue_inform :: "bytes \<Rightarrow> int \<Rightarrow> (int + bytes) option" where
  "getKeyValue_inform buf recvlen =
     do { r \<leftarrow> get_msg_key buf recvlen;
          case r of Inl e \<Rightarrow> Some (Inl e) | Inr (key, p) \<Rightarrow> Some (Inr key) }"

paragraph \<open>Gossip rounds\<close>

definition exec_len :: "bytes \<Rightarrow> bytes \<Rightarrow> (poly list \<times> 64 word \<times> 64 word) list \<Rightarrow> nat" where
  "exec_len key teamid sigList =
     4 + 4 + 4 + length key + 4 + length teamid + 4 + 4
       + (\<Sum>e \<leftarrow> sigList. 4 + 4 * length (fst e) + 8 + 8)"

definition put_exec :: "bytes \<times> int \<times> (poly list \<times> 64 word \<times> 64 word) list \<Rightarrow> bytes" where
  "put_exec b =
     (case b of (teamid, seq, sigList) \<Rightarrow>
        put_sized teamid @ wr_int seq @ wr_int (int (length sigList))
          @ concat (map put_entry sigList))"

definition get_exec :: "bytes \<Rightarrow> int
    \<Rightarrow> ((bytes \<times> int \<times> (poly list \<times> 64 word \<times> 64 word) list) \<times> int) option" where
  "get_exec buf p =
     do { (teamid, p) \<leftarrow> get_sized buf p;
          (seq, p) \<leftarrow> get_int buf p;
          (sigListLen, p) \<leftarrow> get_int buf p;
          (es, p) \<leftarrow> rd_many get_entry (nat sigListLen) buf p;
          Some ((teamid, seq, es), p) }"

definition makeKeyValue_exec :: "bytes \<Rightarrow> bytes \<Rightarrow> (poly list \<times> 64 word \<times> 64 word) list \<Rightarrow> int
    \<Rightarrow> InsertType \<Rightarrow> bytes option" where
  "makeKeyValue_exec key teamid sigList seq type =
     frame (exec_len key teamid sigList) type key (put_exec (teamid, seq, sigList))"

definition getKeyValue_exec :: "bytes \<Rightarrow> int
    \<Rightarrow> (int + bytes \<times> bytes \<times> poly list list \<times> 64 word list \<times> 64 word list \<times> int) option" where
  "getKeyValue_exec buf recvlen =
     map_option (map_sum id (\<lambda>(key, teamid, seq, es).
         (key, teamid, map fst es, map (fst \<circ> snd) es, map (snd \<circ> snd) es, seq)))
       (with_key get_exec buf recvlen)"

paragraph \<open>Init phase\<close>

definition init_len :: "bytes \<Rightarrow> bytes \<Rightarrow> poly list \<Rightarrow> nat" where
  "init_len key teamid sig =
     4 + 4 + 4 + length key + 4 + length teamid + 4 + 4 * length sig + 8 + 8"

definition put_init :: "bytes \<times> poly list \<times> 64 word \<times> 64 word \<Rightarrow> bytes" where
  "put_init b =
     (case b of (teamid, sig, freq, weight) \<Rightarrow>
        put_sized teamid @ put_sig sig @ wr freq @ wr weight)"

definition get_init :: "bytes \<Rightarrow> int \<Rightarrow> ((bytes \<times> poly list \<times> 64 word \<times> 64 word) \<times> int) option" where
  "get_init buf p =
     do { (teamid, p) \<leftarrow> get_sized buf p;
          (sig, p) \<leftarrow> get_sig buf p;
          (fw, p) \<leftarrow> get_pair buf p;
          Some ((teamid, sig, fw), p) }"

definition makeKeyValue_init :: "bytes \<Rightarrow> bytes \<Rightarrow> poly list \<Rightarrow> 64 word \<Rightarrow> 64 word \<Rightarrow> InsertType
    \<Rightarrow> bytes option" where
  "makeKeyValue_init key teamid sig freq weight type =
     frame (init_len key teamid sig) type key (put_init (teamid, sig, freq, weight))"

definition getKeyValue_init :: "bytes \<Rightarrow> int
    \<Rightarrow> (int + bytes \<times> bytes \<times> poly list \<times> 64 word \<times> 64 word) option" where
  "getKeyValue_init buf recvlen = with_key get_init buf recvlen"

paragraph \<open>Queries\<close>

definition query_len :: "bytes \<Rightarrow> bytes \<Rightarrow> bytes \<Rightarrow> poly list \<Rightarrow> nat" where
  "query_len key teamid dtd sig =
     4 + 4 + 4 + length key + 4 + length teamid + 4 + length dtd + 4 + 4 * length sig + 4"

definition put_query :: "bytes \<times> bytes \<times> poly list \<times> int \<Rightarrow> bytes" where
  "put_query b =
     (case b of (teamid, dtd, sig, qid) \<Rightarrow>
        put_sized teamid @ put_sized dtd @ put_sig sig @ wr_int qid)"

definition get_query :: "bytes \<Rightarrow> int \<Rightarrow> ((bytes \<times> bytes \<times> poly list \<times> int) \<times> int) option" where
  "get_query buf p =
     do { (teamid, p) \<leftarrow> get_sized buf p;
          (dtd, p) \<leftarrow> get_sized buf p;
          (sig, p) \<leftarrow> get_sig buf p;
          (qid, p) \<leftarrow> get_int buf p;
          Some ((teamid, dtd, sig, qid), p) }"

definition makeKeyValue_query :: "bytes \<Rightarrow> bytes \<Rightarrow> bytes \<Rightarrow> poly list \<Rightarrow> int \<Rightarrow> InsertType
    \<Rightarrow> bytes option" where
  "makeKeyValue_query key teamid dtd sig qid type =
     frame (query_len key teamid dtd sig) type key (put_query (teamid, dtd, sig, qid))"

definition getKeyValue_query :: "bytes \<Rightarrow> int
    \<Rightarrow> (int + bytes \<times> bytes \<times> bytes \<times> poly list \<times> int) option" where
  "getKeyValue_query buf recvlen = with_key get_query buf recvlen"

paragraph \<open>Compressed gossip rounds, for both widths of the frequencies\<close>

definition comp_len :: "nat \<Rightarrow> bytes \<Rightarrow> bytes \<Rightarrow> nat \<Rightarrow> nat \<Rightarrow> nat" where
  "comp_len fsize key teamid compressedListLen sigListLen =
     4 + 4 + 4 + length key + 4 + length teamid + 4
       + (4 + 4 + compressedListLen * (4 + nat (bitmap_len (int sigListLen))))
       + 2 * sigListLen * fsize"

definition put_comp :: "bytes \<times> int \<times> int \<times> (poly \<times> bytes) list \<times> ('w :: len word \<times> 'w word) list
    \<Rightarrow> bytes" where
  "put_comp b =
     (case b of (teamid, seq, sigListLen, rows, fws) \<Rightarrow>
        put_sized teamid @ wr_int seq @ wr_int sigListLen @ wr_int (int (length rows))
          @ concat (map put_row rows) @ concat (map put_pair fws))"

definition get_comp :: "bytes \<Rightarrow> int
    \<Rightarrow> ((bytes \<times> int \<times> int \<times> (poly \<times> bytes) list \<times> ('w :: len word \<times> 'w word) list) \<times> int) option" where
  "get_comp buf p =
     do { (teamid, p) \<leftarrow> get_sized buf p;
          (seq, p) \<leftarrow> get_int buf p;
          (numSigs, p) \<leftarrow> get_int buf p;
          (compressedListLen, p) \<leftarrow> get_int buf p;
          (rows, p) \<leftarrow> rd_many (get_row numSigs) (nat compressedListLen) buf p;
          (fws, p) \<leftarrow> rd_many get_pair (nat numSigs) buf p;
          Some ((teamid, seq, numSigs, rows, fws), p) }"

definition make_comp :: "bytes \<Rightarrow> bytes \<Rightarrow> poly list \<Rightarrow> bytes list
    \<Rightarrow> 'w :: len word list \<Rightarrow> 'w word list \<Rightarrow> int \<Rightarrow> InsertType \<Rightarrow> bytes option" where
  "make_comp key teamid compressedList outBitmap freqList weightList seq type =
     (if length freqList = length weightList \<and> length compressedList \<le> length outBitmap
      then frame
             (comp_len (sizeof TYPE('w)) key teamid (length compressedList) (length freqList))
             type key
             (put_comp (teamid, seq, int (length freqList), zip compressedList outBitmap,
               zip freqList weightList))
      else None)"

definition read_comp :: "bytes \<Rightarrow> int
    \<Rightarrow> (int + bytes \<times> bytes \<times> poly list \<times> bytes list \<times> int
         \<times> 'w :: len word list \<times> 'w word list \<times> int) option" where
  "read_comp buf recvlen =
     map_option (map_sum id (\<lambda>(key, teamid, seq, numSigs, rows, fws).
         (key, teamid, map fst rows, map snd rows, numSigs, map fst fws, map snd fws, seq)))
       (with_key get_comp buf recvlen)"

definition makeKeyValue_comp :: "bytes \<Rightarrow> bytes \<Rightarrow> poly list \<Rightarrow> bytes list
    \<Rightarrow> 64 word list \<Rightarrow> 64 word list \<Rightarrow> int \<Rightarrow> InsertType \<Rightarrow> bytes option" where
  "makeKeyValue_comp = make_comp"

definition makeKeyValue_lcomp :: "bytes \<Rightarrow> bytes \<Rightarrow> poly list \<Rightarrow> bytes list
    \<Rightarrow> 128 word list \<Rightarrow> 128 word list \<Rightarrow> int \<Rightarrow> InsertType \<Rightarrow> bytes option" where
  "makeKeyValue_lcomp = make_comp"

definition getKeyValue_comp :: "bytes \<Rightarrow> int
    \<Rightarrow> (int + bytes \<times> bytes \<times> poly list \<times> bytes list \<times> int
         \<times> 64 word list \<times> 64 word list \<times> int) option" where
  "getKeyValue_comp = read_comp"

definition getKeyValue_lcomp :: "bytes \<Rightarrow> int
    \<Rightarrow> (int + bytes \<times> bytes \<times> poly list \<times> bytes list \<times> int
         \<times> 128 word list \<times> 128 word list \<times> int) option" where
  "getKeyValue_lcomp = read_comp"

subsection \<open>The contract of a message\<close>

lemma length_put [simp]:
  "length (put_sized s) = 4 + length s" "length (put_sig ps) = 4 + 4 * length ps"
  "length (put_pair (fw :: 'w :: len word \<times> 'w word)) = 2 * sizeof TYPE('w)"
  "length (put_row r) = 4 + length (snd r)" "length (wr_type t) = 4"
  by (simp_all add: put_sized_def put_sig_def put_pair_def put_row_def wr_type_def)

lemma length_put_entry [simp]: "length (put_entry e) = 4 + 4 * length (fst e) + 8 + 8"
  by (simp add: put_entry_def)

lemma InsertType_code_int32: "int32 (InsertType_code t)"
  by (cases t) (simp_all add: int32_def)

lemma rd_type_sees: "sees buf p (wr_type t) \<Longrightarrow> rd_int buf p = Some (InsertType_code t)"
  by (simp add: wr_type_def rd_int_sees InsertType_code_int32)

text \<open>The common prefix reads back, and a wrong \<^verbatim>\<open>recvlen\<close> is answered with -1.\<close>

lemma get_msg_key_frame:
  assumes "m = wr_type t @ wr_int (int len) @ put_sized key @ body"
    and "int32 (int len)" "int32 (int (length key))"
  shows "getKeyValueType m = Some (InsertType_code t)"
    and "getKeyValueLen m = Some (int len)"
    and "get_msg_key m (int len) = Some (Inr (key, 12 + int (length key)))"
    and "r \<noteq> int len \<Longrightarrow> get_msg_key m r = Some (Inl (-1))"
    and "sees m (12 + int (length key)) body"
proof -
  have "sees m 0 (wr_type t @ wr_int (int len) @ put_sized key @ body)"
    using assms(1) sees_refl [of m] by simp
  then have "rd_int m 0 = Some (InsertType_code t)" "rd_int m 4 = Some (int len)"
    "get_sized m 8 = Some (key, 12 + int (length key))"
    and rest: "sees m (12 + int (length key)) body"
    using assms(2,3) sized_field.get_put [of m 8 key]
    by (auto simp: sees_append intro: rd_type_sees rd_int_sees)
  then show "getKeyValueType m = Some (InsertType_code t)"
    "getKeyValueLen m = Some (int len)"
    "get_msg_key m (int len) = Some (Inr (key, 12 + int (length key)))"
    "r \<noteq> int len \<Longrightarrow> get_msg_key m r = Some (Inl (-1))"
    "sees m (12 + int (length key)) body"
    by (simp_all add: getKeyValueType_def getKeyValueLen_def get_msg_key_def)
qed

text \<open>The observations a receiver of message \<open>m\<close> makes, for the value \<open>v\<close> it should read.\<close>

definition received :: "(bytes \<Rightarrow> int \<Rightarrow> (int + 'v) option) \<Rightarrow> InsertType \<Rightarrow> bytes \<Rightarrow> 'v \<Rightarrow> bool" where
  "received getKeyValue type m v \<longleftrightarrow>
     getKeyValueType m = Some (InsertType_code type)
   \<and> getKeyValueLen m = Some (int (length m))
   \<and> getKeyValue m (int (length m)) = Some (Inr v)
   \<and> (\<forall>r. r \<noteq> int (length m) \<longrightarrow> getKeyValue m r = Some (Inl (-1)))"

text \<open>A body that meets its field contract gives a message that meets the message contract,
  whenever the length the source computes is the length of what it writes.\<close>

context field_codec
begin

lemma message:
  assumes "ok x" "len = 4 + 4 + 4 + length key + length (put x)" "int32 (int len)"
  shows "\<exists>m. frame len type key (put x) = Some m \<and> length m = len
      \<and> received (with_key get) type m (key, x)"
proof -
  define m where "m = wr_type type @ wr_int (int len) @ put_sized key @ put x"
  have lm: "length m = len" using assms(2) by (simp add: m_def)
  have ok: "int32 (int (length key))"
    by (rule int32_mono [OF _ _ assms(3)]) (simp_all add: assms(2))
  note hd = get_msg_key_frame [OF m_def assms(3) ok]
  show ?thesis
    using emit_length [OF lm assms(3)] get_put [OF hd(5) assms(1)] hd(1-4) lm
    by (intro exI [of _ m]) (simp add: frame_def m_def [symmetric] received_def with_key_def)
qed

end

lemma received_map:
  "received get t m v \<Longrightarrow> (\<And>buf r. g buf r = map_option (map_sum id f) (get buf r)) \<Longrightarrow> f v = v'
   \<Longrightarrow> received g t m v'"
  by (auto simp: received_def)

subsection \<open>Bodies meet the contract\<close>

lemma entry_length_le: "e \<in> set es \<Longrightarrow> 4 * length (fst e) \<le> length (concat (map put_entry es))"
  by (induction es) auto

lemma length_put_entries:
  "length (concat (map put_entry es)) = (\<Sum>e \<leftarrow> es. 4 + 4 * length (fst e) + 8 + 8)"
  by (induction es) simp_all

lemma entries_ok:
  assumes ok: "int32 (int (length (concat (map put_entry es))))"
  shows "list_all (\<lambda>e. int32 (int (4 * length (fst e)))) es" and "int32 (int (length es))"
proof -
  have "length es \<le> length (concat (map put_entry es))" by (induction es) auto
  then show "int32 (int (length es))" by (intro int32_mono [OF _ _ ok]) simp_all
  have "int32 (int (4 * length (fst e)))" if "e \<in> set es" for e
    using entry_length_le [OF that] by (intro int32_mono [OF _ _ ok]) linarith+
  then show "list_all (\<lambda>e. int32 (int (4 * length (fst e)))) es" by (simp add: list_all_iff)
qed

interpretation exec_body: field_codec put_exec get_exec
    "\<lambda>b. int32 (fst (snd b)) \<and> int32 (int (length (put_exec b)))"
proof unfold_locales
  fix buf p and b :: "bytes \<times> int \<times> (poly list \<times> 64 word \<times> 64 word) list"
  obtain teamid seq es where b: "b = (teamid, seq, es)" by (cases b) auto
  let ?q = "p + (4 + int (length teamid))"
  assume s: "sees buf p (put_exec b)"
    and ok: "int32 (fst (snd b)) \<and> int32 (int (length (put_exec b)))"
  then have oks: "int32 seq" "int32 (int (length teamid))"
    "int32 (int (length (concat (map put_entry es))))"
    by (simp_all add: b put_exec_def int32_def)
  note es = entries_ok [OF oks(3)]
  have "sees buf p (put_sized teamid)" "sees buf ?q (wr_int seq)"
    "sees buf (?q + 4) (wr_int (int (length es)))"
    "sees buf (?q + 4 + 4) (concat (map put_entry es))"
    using s by (simp_all add: b put_exec_def sees_append)
  note f = sized_field.get_put [OF this(1) oks(2)] int_field.get_put [OF this(2) oks(1)]
    int_field.get_put [OF this(3) es(2)] entry_field.get_many [OF es(1) this(4)]
  show "get_exec buf p = Some (b, p + int (length (put_exec b)))"
    using f by (simp add: b get_exec_def put_exec_def)
qed

interpretation init_body: field_codec put_init get_init "\<lambda>b. int32 (int (length (put_init b)))"
proof unfold_locales
  fix buf p and b :: "bytes \<times> poly list \<times> 64 word \<times> 64 word"
  obtain teamid sig freq weight where b: "b = (teamid, sig, freq, weight)" by (cases b) auto
  let ?q = "p + (4 + int (length teamid))"
  assume s: "sees buf p (put_init b)" and ok: "int32 (int (length (put_init b)))"
  then have oks: "int32 (int (length teamid))" "int32 (int (4 * length sig))"
    by (simp_all add: b put_init_def int32_def)
  have "sees buf p (put_sized teamid)" "sees buf ?q (put_sig sig)"
    "sees buf (?q + (4 + 4 * int (length sig))) (put_pair (freq, weight))"
    using s by (simp_all add: b put_init_def put_pair_def sees_append)
  note f = sized_field.get_put [OF this(1) oks(1)] sig_field.get_put [OF this(2) oks(2)]
    double_field.get_put [OF this(3) TrueI]
  show "get_init buf p = Some (b, p + int (length (put_init b)))"
    using f by (simp add: b get_init_def put_init_def)
qed

interpretation query_body: field_codec put_query get_query
    "\<lambda>b. int32 (snd (snd (snd b))) \<and> int32 (int (length (put_query b)))"
proof unfold_locales
  fix buf p and b :: "bytes \<times> bytes \<times> poly list \<times> int"
  obtain teamid dtd sig qid where b: "b = (teamid, dtd, sig, qid)" by (cases b) auto
  let ?q = "p + (4 + int (length teamid))"
  let ?r = "?q + (4 + int (length dtd))"
  assume s: "sees buf p (put_query b)"
    and ok: "int32 (snd (snd (snd b))) \<and> int32 (int (length (put_query b)))"
  then have oks: "int32 (int (length teamid))" "int32 (int (length dtd))"
    "int32 (int (4 * length sig))" "int32 qid"
    by (simp_all add: b put_query_def int32_def)
  have "sees buf p (put_sized teamid)" "sees buf ?q (put_sized dtd)"
    "sees buf ?r (put_sig sig)" "sees buf (?r + (4 + 4 * int (length sig))) (wr_int qid)"
    using s by (simp_all add: b put_query_def sees_append)
  note f = sized_field.get_put [OF this(1) oks(1)] sized_field.get_put [OF this(2) oks(2)]
    sig_field.get_put [OF this(3) oks(3)] int_field.get_put [OF this(4) oks(4)]
  show "get_query buf p = Some (b, p + int (length (put_query b)))"
    using f by (simp add: b get_query_def put_query_def)
qed

definition comp_ok :: "bytes \<times> int \<times> int \<times> (poly \<times> bytes) list \<times> ('w :: len word \<times> 'w word) list
    \<Rightarrow> bool" where
  "comp_ok b \<longleftrightarrow>
     (case b of (teamid, seq, numSigs, rows, fws) \<Rightarrow>
        int32 seq \<and> numSigs = int (length fws)
      \<and> list_all (\<lambda>r. int (length (snd r)) = bitmap_len numSigs) rows
      \<and> int32 (int (length (put_comp b))))"

lemma length_put_pairs:
  "length (concat (map put_pair (fws :: ('w :: len word \<times> 'w word) list))) = 2 * length fws * sizeof TYPE('w)"
  by (induction fws) (simp_all add: algebra_simps)

lemma length_put_rows: "length rows \<le> length (concat (map put_row rows))"
  by (induction rows) simp_all

lemma comp_field:
  assumes "8 dvd LENGTH('w)"
  shows "field_codec (put_comp :: _ \<times> _ \<times> _ \<times> _ \<times> ('w :: len word \<times> 'w word) list \<Rightarrow> bytes) get_comp comp_ok"
proof unfold_locales
  fix buf p and b :: "bytes \<times> int \<times> int \<times> (poly \<times> bytes) list \<times> ('w word \<times> 'w word) list"
  obtain teamid seq numSigs rows fws where b: "b = (teamid, seq, numSigs, rows, fws)"
    by (cases b) auto
  let ?q = "p + (4 + int (length teamid))"
  let ?r = "?q + 4 + 4 + 4 + int (length (concat (map put_row rows)))"
  assume s: "sees buf p (put_comp b)" and ok: "comp_ok b"
  have "0 < sizeof TYPE('w)"
    using dvd_imp_le [OF assms] by (simp add: sizeof_def div_greater_zero_iff)
  then have "length fws \<le> length (concat (map put_pair fws))" by (simp add: length_put_pairs)
  then have oks: "int32 (int (length teamid))" "int32 seq" "int32 numSigs"
    "int32 (int (length rows))" "list_all (\<lambda>r. int (length (snd r)) = bitmap_len numSigs) rows"
    and num: "nat numSigs = length fws"
    using ok length_put_rows [of rows] by (auto simp: comp_ok_def b put_comp_def int32_def)
  have "sees buf p (put_sized teamid)" "sees buf ?q (wr_int seq)"
    "sees buf (?q + 4) (wr_int numSigs)" "sees buf (?q + 4 + 4) (wr_int (int (length rows)))"
    "sees buf (?q + 4 + 4 + 4) (concat (map put_row rows))"
    "sees buf ?r (concat (map put_pair fws))"
    using s by (simp_all add: b put_comp_def sees_append)
  note f = sized_field.get_put [OF this(1) oks(1)] int_field.get_put [OF this(2) oks(2)]
    int_field.get_put [OF this(3) oks(3)] int_field.get_put [OF this(4) oks(4)]
    row_field.get_many [OF oks(5) this(5)]
    field_codec.get_many [OF pair_field [OF assms] _ this(6)]
  show "get_comp buf p = Some (b, p + int (length (put_comp b)))"
    using f num by (simp add: b get_comp_def put_comp_def list_all_iff)
qed

interpretation comp_body: field_codec
    "put_comp :: _ \<times> _ \<times> _ \<times> _ \<times> (64 word \<times> 64 word) list \<Rightarrow> bytes" get_comp comp_ok
  by (rule comp_field) simp

interpretation lcomp_body: field_codec
    "put_comp :: _ \<times> _ \<times> _ \<times> _ \<times> (128 word \<times> 128 word) list \<Rightarrow> bytes" get_comp comp_ok
  by (rule comp_field) simp

subsection \<open>Properties of the gossip messages\<close>

lemma exec_message_received:
  assumes "exec_len key teamid es < 2 ^ 31" "int32 seq"
  shows "\<exists>m. makeKeyValue_exec key teamid es seq type = Some m
    \<and> received getKeyValue_exec type m
        (key, teamid, map fst es, map (fst \<circ> snd) es, map (snd \<circ> snd) es, seq)"
proof -
  have len: "exec_len key teamid es = 4 + 4 + 4 + length key + length (put_exec (teamid, seq, es))"
    by (simp add: exec_len_def put_exec_def length_put_entries)
  have "int32 (int (exec_len key teamid es))" using assms(1) by (simp add: int32_def)
  moreover from this have "int32 (int (length (put_exec (teamid, seq, es))))"
    by (rule int32_mono [rotated 2]) (simp_all add: len)
  ultimately obtain m where "makeKeyValue_exec key teamid es seq type = Some m"
    "received (with_key get_exec) type m (key, teamid, seq, es)"
    using exec_body.message [of "(teamid, seq, es)", OF _ len] assms(2)
    by (auto simp: makeKeyValue_exec_def)
  then show ?thesis
    by (auto intro!: exI [of _ m] received_map [OF _ getKeyValue_exec_def])
qed

text \<open>
  An uncompressed gossip message survives the wire. When its computed length fits an
  \<^verbatim>\<open>int\<close>, \<^verbatim>\<open>makeKeyValue\<close> fills its buffer exactly, the length and type fields are the
  message's own, \<^verbatim>\<open>getKeyValue\<close> returns the key, team, round, signatures, frequencies
  and weights that were written without reading outside the message, and it returns -1
  whenever the number of received bytes is not the length field.
\<close>

theorem gossip_message_roundtrip:
  assumes "exec_len key teamid es < 2 ^ 31" "int32 seq"
  shows "\<exists>m. makeKeyValue_exec key teamid es seq type = Some m
    \<and> received getKeyValue_exec type m
        (key, teamid, map fst es, map (fst \<circ> snd) es, map (snd \<circ> snd) es, seq)"
  using assms by (rule exec_message_received)

theorem gossip_message_roundtrip_witness:
  "\<exists>m. makeKeyValue_exec [7] [8, 9] [([5, 6], 1, 2)] 3 XGOSSIP = Some m
    \<and> received getKeyValue_exec XGOSSIP m ([7], [8, 9], [[5, 6]], [1], [2], 3)"
  using gossip_message_roundtrip [of "[7]" "[8, 9]" "[([5, 6], 1, 2)]" 3 XGOSSIP]
  by (auto simp: exec_len_def int32_def)

lemma init_message_received:
  assumes "init_len key teamid sig < 2 ^ 31"
  shows "\<exists>m. makeKeyValue_init key teamid sig freq weight type = Some m
    \<and> received getKeyValue_init type m (key, teamid, sig, freq, weight)"
proof -
  have len: "init_len key teamid sig
      = 4 + 4 + 4 + length key + length (put_init (teamid, sig, freq, weight))"
    by (simp add: init_len_def put_init_def)
  have ok: "int32 (int (init_len key teamid sig))" using assms by (simp add: int32_def)
  then have "int32 (int (length (put_init (teamid, sig, freq, weight))))"
    by (rule int32_mono [rotated 2]) (simp_all add: len)
  with ok show ?thesis
    using init_body.message [of "(teamid, sig, freq, weight)", OF _ len]
    by (auto simp: makeKeyValue_init_def getKeyValue_init_def [abs_def])
qed

text \<open>
  an init or team-inform message, one signature with its frequency and weight, survives
  the wire in the same sense.
\<close>

theorem init_message_roundtrip:
  assumes "init_len key teamid sig < 2 ^ 31"
  shows "\<exists>m. makeKeyValue_init key teamid sig freq weight type = Some m
    \<and> received getKeyValue_init type m (key, teamid, sig, freq, weight)"
  using assms by (rule init_message_received)

theorem init_message_roundtrip_witness:
  "\<exists>m. makeKeyValue_init [7] [8] [5, 6] 1 2 INITGOSSIP = Some m
    \<and> received getKeyValue_init INITGOSSIP m ([7], [8], [5, 6], 1, 2)"
  by (rule init_message_roundtrip) (simp add: init_len_def)

text \<open>
  a query message, with its document type and query id, survives the wire in the same
  sense.
\<close>

theorem query_message_roundtrip:
  assumes "query_len key teamid dtd sig < 2 ^ 31" "int32 qid"
  shows "\<exists>m. makeKeyValue_query key teamid dtd sig qid type = Some m
    \<and> received getKeyValue_query type m (key, teamid, dtd, sig, qid)"
proof -
  have len: "query_len key teamid dtd sig
      = 4 + 4 + 4 + length key + length (put_query (teamid, dtd, sig, qid))"
    by (simp add: query_len_def put_query_def)
  have ok: "int32 (int (query_len key teamid dtd sig))" using assms by (simp add: int32_def)
  then have "int32 (int (length (put_query (teamid, dtd, sig, qid))))"
    by (rule int32_mono [rotated 2]) (simp_all add: len)
  with ok assms(2) show ?thesis
    using query_body.message [of "(teamid, dtd, sig, qid)", OF _ len]
    by (auto simp: makeKeyValue_query_def getKeyValue_query_def [abs_def])
qed

theorem query_message_roundtrip_witness:
  "\<exists>m. makeKeyValue_query [7] [8] [65, 66] [5, 6] 4 QUERYX = Some m
    \<and> received getKeyValue_query QUERYX m ([7], [8], [65, 66], [5, 6], 4)"
  by (rule query_message_roundtrip) (simp_all add: query_len_def int32_def)

lemma make_comp_received:
  fixes freqList :: "'w :: len word list"
  assumes w: "8 dvd LENGTH('w)"
    and "length freqList = length weightList" "length compressedList = length outBitmap"
    and bm: "\<forall>b \<in> set outBitmap. int (length b) = bitmap_len (int (length freqList))"
    and len: "comp_len (sizeof TYPE('w)) key teamid (length compressedList) (length freqList) < 2 ^ 31"
    and "int32 seq"
  shows "\<exists>m. make_comp key teamid compressedList outBitmap freqList weightList seq type = Some m
    \<and> received read_comp type m
        (key, teamid, compressedList, outBitmap, int (length freqList), freqList, weightList, seq)"
proof -
  let ?len = "comp_len (sizeof TYPE('w)) key teamid (length compressedList) (length freqList)"
  let ?b = "(teamid, seq, int (length freqList), zip compressedList outBitmap,
    zip freqList weightList)"
  have "length (concat (map put_row (zip compressedList outBitmap)))
      = length compressedList * (4 + nat (bitmap_len (int (length freqList))))"
    using assms(3) bm by (induction rule: list_induct2) auto
  then have l: "?len = 4 + 4 + 4 + length key + length (put_comp ?b)"
    using assms(2) by (simp add: comp_len_def put_comp_def length_put_pairs)
  have ok: "int32 (int ?len)" using len by (simp add: int32_def)
  then have "int32 (int (length (put_comp ?b)))"
    by (rule int32_mono [rotated 2]) (simp_all add: l)
  then have "comp_ok ?b"
    using assms(2,6) bm by (auto simp: comp_ok_def list_all_iff dest: set_zip_rightD)
  from field_codec.message [OF comp_field [OF w] this l ok, of type]
  obtain m where "make_comp key teamid compressedList outBitmap freqList weightList seq type = Some m"
    "received (with_key get_comp) type m (key, ?b)"
    using assms(2,3) by (auto simp: make_comp_def)
  then show ?thesis
    using assms(2,3) by (auto intro!: exI [of _ m] received_map [OF _ read_comp_def])
qed

lemma comp_message_received:
  assumes "length freqList = length weightList" "length compressedList = length outBitmap"
    and "\<forall>b \<in> set outBitmap. int (length b) = bitmap_len (int (length freqList))"
    and "comp_len 8 key teamid (length compressedList) (length freqList) < 2 ^ 31"
    and "int32 seq"
  shows "\<exists>m. makeKeyValue_comp key teamid compressedList outBitmap freqList weightList seq type
        = Some m
    \<and> received getKeyValue_comp type m
        (key, teamid, compressedList, outBitmap, int (length freqList), freqList, weightList, seq)"
  unfolding makeKeyValue_comp_def getKeyValue_comp_def
  by (rule make_comp_received) (use assms in simp_all)

text \<open>
  C32: a compressed gossip message survives the wire in the same sense: the aligned
  multiset, its bitmaps, the number of signatures and the frequency lists are read back,
  provided each bitmap has one bit per signature, rounded up to bytes.
\<close>

theorem compressed_message_roundtrip:
  assumes "length freqList = length weightList" "length compressedList = length outBitmap"
    and "\<forall>b \<in> set outBitmap. int (length b) = bitmap_len (int (length freqList))"
    and "comp_len 8 key teamid (length compressedList) (length freqList) < 2 ^ 31"
    and "int32 seq"
  shows "\<exists>m. makeKeyValue_comp key teamid compressedList outBitmap freqList weightList seq type
        = Some m
    \<and> received getKeyValue_comp type m
        (key, teamid, compressedList, outBitmap, int (length freqList), freqList, weightList, seq)"
  using assms by (rule comp_message_received)

theorem compressed_message_roundtrip_witness:
  "\<exists>m. makeKeyValue_comp [7] [8] [5, 6] [[128], [192]] [1, 2] [3, 4] 9 XGOSSIPC = Some m
    \<and> received getKeyValue_comp XGOSSIPC m ([7], [8], [5, 6], [[128], [192]], 2, [1, 2], [3, 4], 9)"
  using compressed_message_roundtrip
    [of "[1, 2]" "[3, 4]" "[5, 6]" "[[128], [192]]" "[7]" "[8]" 9 XGOSSIPC]
  by (simp add: bitmap_len_def comp_len_def int32_def)

end
