(* ===== verification/Payloads.thy ===== *)
theory Payloads
  imports Messages
begin

text \<open>
  The index-node formats of \<^verbatim>\<open>utils/utils.C\<close>, without a length field: key/value pairs,
  intervals, push-sum pairs, document ids, entry lists, the payload of a DHT block and the
  signature data of a retrieve request. Conventions as in \<^verbatim>\<open>Messages\<close>.
\<close>

subsection \<open>Intervals\<close>

record Interval =
  ln :: int
  ld :: int
  rn :: int
  rd' :: int
  level :: int
  random :: int

definition put_interval :: "Interval \<Rightarrow> bytes" where
  "put_interval i =
     wr_int (ln i) @ wr_int (ld i) @ wr_int (rn i) @ wr_int (rd' i) @ wr_int (level i)
       @ wr_int (random i)"

definition getInterval :: "bytes \<Rightarrow> Interval option" where
  "getInterval s =
     do { a \<leftarrow> rd_int s 0; b \<leftarrow> rd_int s 4; c \<leftarrow> rd_int s 8; d \<leftarrow> rd_int s 12;
          l \<leftarrow> rd_int s 16; r \<leftarrow> rd_int s 20;
          Some \<lparr> ln = a, ld = b, rn = c, rd' = d, level = l, random = r \<rparr> }"

text \<open>A \<^verbatim>\<open>std::string\<close> made from a buffer ends at its first zero byte.\<close>

definition getString :: "bytes \<Rightarrow> bytes" where
  "getString s = takeWhile (\<lambda>b. b \<noteq> 0) s"

subsection \<open>Keys and values\<close>

definition getKeyValueSpecial :: "bytes \<Rightarrow> bytes option" where
  "getKeyValueSpecial buf = do { (a, p) \<leftarrow> get_sized buf 0; Some a }"

definition getKeyValue_key :: "bytes \<Rightarrow> bytes option" where
  "getKeyValue_key buf = do { (a, p) \<leftarrow> get_sized buf 0; Some a }"

definition getKeyValue_strs :: "bytes \<Rightarrow> (bytes \<times> bytes) option" where
  "getKeyValue_strs s =
     do { (a, p) \<leftarrow> get_sized s 0; (b, p) \<leftarrow> get_sized s p; Some (a, b) }"

definition getKeyValue_ptrs :: "bytes \<Rightarrow> (bytes \<times> bytes) option" where
  "getKeyValue_ptrs buf =
     do { (a, p) \<leftarrow> get_sized buf 0; (b, p) \<leftarrow> get_sized buf p; Some (a, b) }"

definition getKeyValue_sig :: "bytes \<Rightarrow> (bytes \<times> poly list) option" where
  "getKeyValue_sig buf =
     do { (key, p) \<leftarrow> get_sized buf 0; (sig, p) \<leftarrow> get_sig buf p; Some (key, sig) }"

text \<open>The size fields of the two numbers are read and ignored.\<close>

definition get_push :: "bytes \<Rightarrow> (bytes \<times> 64 word \<times> 64 word) option" where
  "get_push buf =
     do { (a, p) \<leftarrow> get_sized buf 0;
          _ \<leftarrow> rd_int buf p; b \<leftarrow> rd buf (p + 4);
          _ \<leftarrow> rd_int buf (p + 4 + 8); c \<leftarrow> rd buf (p + 4 + 8 + 4);
          Some (a, b, c) }"

definition getKeyValue_push_str :: "bytes \<Rightarrow> (bytes \<times> 64 word \<times> 64 word) option" where
  "getKeyValue_push_str s = get_push s"

definition getKeyValue_push :: "bytes \<Rightarrow> (bytes \<times> 64 word \<times> 64 word) option" where
  "getKeyValue_push buf = get_push buf"

definition put_type :: "InsertType \<Rightarrow> bytes" where
  "put_type type = (if type \<noteq> NONE then wr_type type else [])"

definition makeKeyValue_sig :: "bytes \<Rightarrow> poly list \<Rightarrow> InsertType \<Rightarrow> bytes option" where
  "makeKeyValue_sig key sig type =
     (let valLen = 4 * length sig;
          len = (if type = NONE then 4 + length key + 4 + valLen
                 else 4 + 4 + length key + 4 + valLen)
      in emit len (put_type type @ put_sized key @ put_sig sig))"

definition makeKeyValue_sig_interval :: "bytes \<Rightarrow> poly list \<Rightarrow> Interval \<Rightarrow> InsertType \<Rightarrow> bytes option" where
  "makeKeyValue_sig_interval key sig myInt type =
     (let valLen = 4 * length sig;
          len = (if type = NONE then 4 + 24 + length key + 4 + valLen
                 else 4 + 4 + 24 + length key + 4 + valLen)
      in emit len (put_type type @ put_interval myInt @ put_sized key @ put_sig sig))"

text \<open>The length counts the type field also when it is \<^verbatim>\<open>NONE\<close> and not written.\<close>

definition makeKeyValue_texthash :: "poly list \<Rightarrow> poly list \<Rightarrow> int \<Rightarrow> InsertType \<Rightarrow> bytes option" where
  "makeKeyValue_texthash textHash sig docId type =
     (let len = 4 + 4 + length textHash * 4 + 4 + length sig * 4 + 4
      in emit len (put_type type @ wr_int (int (length textHash)) @ wr_list textHash
           @ wr_int (int (length sig)) @ wr_list sig @ wr_int docId))"

definition makeKeyValue_interval :: "bytes \<Rightarrow> Interval \<Rightarrow> InsertType \<Rightarrow> bytes option" where
  "makeKeyValue_interval key val type =
     (let len = 4 + 4 + length key + 4 + 24
      in emit len (wr_type type @ put_sized key @ wr_int 24 @ put_interval val))"

definition makeKeyValue_interval_notype :: "bytes \<Rightarrow> Interval \<Rightarrow> bytes option" where
  "makeKeyValue_interval_notype key val =
     (let len = 4 + length key + 4 + 24
      in emit len (put_sized key @ wr_int 24 @ put_interval val))"

definition makeKeyValue_push :: "bytes \<Rightarrow> 64 word \<Rightarrow> 64 word \<Rightarrow> InsertType \<Rightarrow> bytes option" where
  "makeKeyValue_push key val1 val2 type =
     (let len = 4 + 4 + length key + 4 + 8 + 4 + 8
      in emit len (wr_type type @ put_sized key @ wr_int 8 @ wr val1 @ wr_int 8 @ wr val2))"

subsection \<open>Lists of entries\<close>

text \<open>The entries selected by non-negative ids; \<open>None\<close> when an id is out of range.\<close>

fun select_entries :: "bytes list \<Rightarrow> int list \<Rightarrow> bytes list option" where
  "select_entries entries [] = Some []"
| "select_entries entries (i # ids) =
     (if i < 0 then select_entries entries ids
      else if nat i < length entries
      then map_option ((#) (entries ! nat i)) (select_entries entries ids)
      else None)"

definition makeKeyValue_entries :: "bytes list \<Rightarrow> int list \<Rightarrow> InsertType \<Rightarrow> bytes option" where
  "makeKeyValue_entries entries ids type =
     do { es \<leftarrow> select_entries entries ids;
          emit (4 + (\<Sum>e \<leftarrow> es. length e + 4)) (wr_type type @ concat (map put_sized es)) }"

primrec entry_keys :: "bytes list \<Rightarrow> bytes list option" where
  "entry_keys [] = Some []"
| "entry_keys (e # es) =
     do { (k, v) \<leftarrow> getKeyValue_ptrs e; ks \<leftarrow> entry_keys es; Some (k # ks) }"

definition makeKeyValueSpecial :: "bytes list \<Rightarrow> int list \<Rightarrow> InsertType \<Rightarrow> bytes option" where
  "makeKeyValueSpecial entries ids type =
     do { es \<leftarrow> select_entries entries ids;
          ks \<leftarrow> entry_keys es;
          emit (4 + (\<Sum>k \<leftarrow> ks. 4 + length k + 4))
            (wr_type type @ concat (map (\<lambda>k. put_sized (put_sized k)) ks)) }"

definition marshal_block :: "bytes list \<Rightarrow> bytes option" where
  "marshal_block elems = emit (\<Sum>e \<leftarrow> elems. length e + 4) (concat (map put_sized elems))"

lemma get_sized_advance: "get_sized buf p = Some (s, q) \<Longrightarrow> p < q"
  by (auto simp: get_sized_def rd_str_def split: bind_splits if_splits)

function payload_loop :: "bytes \<Rightarrow> int \<Rightarrow> bytes list option" where
  "payload_loop input p =
     (if p < int (length input)
      then (case get_sized input p of
              None \<Rightarrow> None
            | Some (e, q) \<Rightarrow> map_option ((#) e) (payload_loop input q))
      else Some [])"
  by pat_completeness auto
termination
  by (relation "measure (\<lambda>(input, p). nat (int (length input) - p))")
    (auto dest: get_sized_advance)

declare payload_loop.simps [simp del]

definition get_payload :: "bytes \<Rightarrow> bytes list option" where
  "get_payload input = payload_loop input 0"

subsection \<open>Document ids\<close>

definition makeDocid :: "poly list \<Rightarrow> bytes \<Rightarrow> bytes option" where
  "makeDocid sig docid =
     (let len = 4 + 4 * length sig + 4 + length docid
      in emit len (wr_int (int (length sig)) @ wr_list sig @ put_sized docid))"

text \<open>\<^verbatim>\<open>sig\<close> is appended to the caller's vector, whose whole size moves the pointer.\<close>

definition getDocid :: "bytes \<Rightarrow> poly list \<Rightarrow> (poly list \<times> bytes) option" where
  "getDocid buf sig0 =
     do { size \<leftarrow> rd_int buf 0;
          ps \<leftarrow> rd_list buf 4 (nat size);
          let sig = sig0 @ ps;
          (docid, p) \<leftarrow> get_sized buf (4 + 4 * int (length sig));
          Some (sig, docid) }"

subsection \<open>Aligned multisets\<close>

definition makeKeyValue_bitmap :: "poly list \<Rightarrow> bytes list \<Rightarrow> int \<Rightarrow> bytes option" where
  "makeKeyValue_bitmap inputSig inputBitmap numSigs =
     (if length inputSig \<le> length inputBitmap
      then emit (4 + 4 + length inputSig * (4 + nat (bitmap_len numSigs)))
             (wr_int numSigs @ wr_int (int (length inputSig))
               @ concat (map put_row (zip inputSig inputBitmap)))
      else None)"

definition getKeyValue_bitmap :: "bytes \<Rightarrow> (poly list \<times> bytes list \<times> int) option" where
  "getKeyValue_bitmap buf =
     do { numSigs \<leftarrow> rd_int buf 0;
          alen \<leftarrow> rd_int buf 4;
          (rows, p) \<leftarrow> rd_many (get_row numSigs) (nat alen) buf 8;
          Some (map fst rows, map snd rows, numSigs) }"

subsection \<open>Signature data of a retrieve request\<close>

datatype RetrieveType = DIVISIBLE | DIVISIBLEV | PICKCHILD | PICKCHILDV

datatype OPTYPE = EQUAL | GREATER | LESS | GREATEREQUAL | LESSEQUAL

fun RetrieveType_code :: "RetrieveType \<Rightarrow> poly" where
  "RetrieveType_code DIVISIBLE = 1"
| "RetrieveType_code DIVISIBLEV = 2"
| "RetrieveType_code PICKCHILD = 3"
| "RetrieveType_code PICKCHILDV = 4"

fun OPTYPE_code :: "OPTYPE \<Rightarrow> poly" where
  "OPTYPE_code EQUAL = 0"
| "OPTYPE_code GREATER = 1"
| "OPTYPE_code LESS = 2"
| "OPTYPE_code GREATEREQUAL = 3"
| "OPTYPE_code LESSEQUAL = 4"

text \<open>The array has 2048 words (\<open>buf_words\<close>); the guards compare a word index with
  \<^verbatim>\<open>sizeof(buf)\<close>, its 8192 bytes (\<open>buf_bytes\<close>). \<open>buf\<close> is the part written so far, so the
  index is its length; a write at \<open>buf_words\<close> or above is \<open>None\<close>.\<close>

definition buf_words :: nat where
  "buf_words = 2048"

definition buf_bytes :: nat where
  "buf_bytes = 4 * buf_words"

definition put_words :: "poly list \<Rightarrow> poly list \<Rightarrow> poly list option" where
  "put_words ws buf = (if length buf + length ws \<le> buf_words then Some (buf @ ws) else None)"

definition sized_sig :: "poly list \<Rightarrow> poly list" where
  "sized_sig s = of_nat (length s) # s"

fun sigdata_loop :: "poly list list \<Rightarrow> poly list \<Rightarrow> nat \<Rightarrow> (poly list \<times> nat) option" where
  "sigdata_loop [] buf i = Some (buf, i)"
| "sigdata_loop (s # ss) buf i =
     (if length buf + 1 + length s > buf_bytes then Some (buf, i)
      else do { buf \<leftarrow> put_words (sized_sig s) buf; sigdata_loop ss buf (i + 1) })"

definition makeSigData_sigs :: "poly list list \<Rightarrow> RetrieveType \<Rightarrow> bytes option" where
  "makeSigData_sigs listOfSigs type =
     do { (buf, i) \<leftarrow> sigdata_loop listOfSigs [RetrieveType_code type, 0] 0;
          Some (wr_list (buf[1 := of_nat i])) }"

definition makeSigData_op :: "poly list list \<Rightarrow> poly list \<Rightarrow> OPTYPE \<Rightarrow> RetrieveType \<Rightarrow> bytes option" where
  "makeSigData_op listOfSigs valSig OP type =
     do { (buf, i) \<leftarrow> sigdata_loop listOfSigs [RetrieveType_code type, 0] 0;
          buf \<leftarrow> put_words (sized_sig valSig) (buf[1 := of_nat i]);
          let index = length buf;
          buf \<leftarrow> put_words [OPTYPE_code OP] buf;
          Some (wr_list (take index buf)) }"

text \<open>A signature that the guard rejects leaves the caller's string as it was.\<close>

definition makeSigData_one :: "bytes \<Rightarrow> poly list \<Rightarrow> RetrieveType \<Rightarrow> bytes option" where
  "makeSigData_one sigdata mySig type =
     (if 2 + 1 + length mySig > buf_bytes then Some sigdata
      else do { buf \<leftarrow> put_words (sized_sig mySig) [RetrieveType_code type, 0];
                Some (wr_list (buf[1 := 1])) })"

subsection \<open>Properties\<close>

lemma payload_loop_sees:
  assumes "sees input p (concat (map put_sized es))"
    and "p + int (length (concat (map put_sized es))) = int (length input)"
    and "list_all (\<lambda>e. int32 (int (length e))) es"
  shows "payload_loop input p = Some es"
  using assms
proof (induction es arbitrary: p)
  case Nil
  then show ?case by (simp add: payload_loop.simps)
next
  case (Cons e es)
  then have "get_sized input p = Some (e, p + int (length (put_sized e)))"
    by (intro sized_field.get_put) (simp_all add: sees_append)
  moreover have "payload_loop input (p + int (length (put_sized e))) = Some es"
    using Cons.prems by (intro Cons.IH) (simp_all add: sees_append)
  ultimately show ?case
    using Cons.prems(2) by (simp add: payload_loop.simps [of input p])
qed

lemma length_put_sizeds:
  "length (concat (map put_sized es)) = (\<Sum>e \<leftarrow> es. length e + 4)"
  by (induction es) simp_all

lemma member_length_le: "e \<in> set es \<Longrightarrow> length e \<le> (\<Sum>e \<leftarrow> es. length e + 4)"
  by (induction es) auto

text \<open>
  \<^verbatim>\<open>get_payload\<close> inverts \<^verbatim>\<open>marshal_block\<close>. A vector of strings whose block length fits
  an \<^verbatim>\<open>int\<close> is marshalled without an overrun, and the loop over the block ends with the same
  vector.
\<close>

theorem payload_roundtrip:
  assumes "(\<Sum>e \<leftarrow> elems. length e + 4) < 2 ^ 31"
  shows "\<exists>block. marshal_block elems = Some block \<and> get_payload block = Some elems"
proof -
  let ?block = "concat (map put_sized elems)"
  have ok: "int32 (int (\<Sum>e \<leftarrow> elems. length e + 4))" using assms by (simp add: int32_def)
  have "list_all (\<lambda>e. int32 (int (length e))) elems"
    unfolding list_all_iff
    by (intro ballI int32_mono [OF _ _ ok]) (simp, metis member_length_le of_nat_le_iff)
  then have "get_payload ?block = Some elems"
    using sees_refl by (simp add: get_payload_def payload_loop_sees)
  moreover have "marshal_block elems = Some ?block"
    unfolding marshal_block_def by (rule emit_length [OF length_put_sizeds ok])
  ultimately show ?thesis by blast
qed

theorem payload_roundtrip_witness:
  "\<exists>block. marshal_block [[1, 2], [], [3]] = Some block \<and> get_payload block = Some [[1, 2], [], [3]]"
  by (rule payload_roundtrip) simp

text \<open>
  The aligned multiset of compressed signatures with its bitmaps is written into a
  buffer of exactly the computed length and read back with the number of signatures.
\<close>

theorem bitmap_roundtrip:
  assumes "length sigs = length bitmaps" "\<forall>b \<in> set bitmaps. int (length b) = bitmap_len numSigs"
    and "int32 numSigs" "4 + 4 + length sigs * (4 + nat (bitmap_len numSigs)) < 2 ^ 31"
  shows "\<exists>m. makeKeyValue_bitmap sigs bitmaps numSigs = Some m
    \<and> getKeyValue_bitmap m = Some (sigs, bitmaps, numSigs)"
proof -
  let ?rows = "zip sigs bitmaps"
  define m where "m = wr_int numSigs @ wr_int (int (length sigs)) @ concat (map put_row ?rows)"
  have "length (concat (map put_row ?rows)) = length sigs * (4 + nat (bitmap_len numSigs))"
    using assms(1,2) by (induction rule: list_induct2) auto
  then have lm: "length m = 4 + 4 + length sigs * (4 + nat (bitmap_len numSigs))"
    by (simp add: m_def)
  have ok: "int32 (int (length sigs))"
  proof (rule int32_mono)
    show "int (length sigs) \<le> int (length sigs * (4 + nat (bitmap_len numSigs)))"
      unfolding of_nat_le_iff by (rule le_trans [OF _ mult_le_mono2 [of 1]]) simp_all
    show "int32 (int (length sigs * (4 + nat (bitmap_len numSigs))))"
      using assms(4) by (intro int32_nat) linarith
  qed simp
  have "sees m 0 (wr_int numSigs @ wr_int (int (length sigs)) @ concat (map put_row ?rows))"
    using sees_refl [of m] by (simp add: m_def)
  then have "rd_int m 0 = Some numSigs" "rd_int m 4 = Some (int (length sigs))"
    and rows: "sees m 8 (concat (map put_row ?rows))"
    using assms(3) ok by (simp_all add: sees_append rd_int_sees)
  moreover have "rd_many (get_row numSigs) (length ?rows) m 8
      = Some (?rows, 8 + int (length (concat (map put_row ?rows))))"
    using assms(2) by (intro row_field.get_many rows) (auto simp: list_all_iff dest: set_zip_rightD)
  moreover have "makeKeyValue_bitmap sigs bitmaps numSigs = Some m"
    unfolding makeKeyValue_bitmap_def m_def [symmetric]
    using emit_length [OF lm int32_nat [OF assms(4)]] assms(1) by simp
  ultimately show ?thesis using assms(1) by (simp add: getKeyValue_bitmap_def)
qed

theorem bitmap_roundtrip_witness:
  "\<exists>m. makeKeyValue_bitmap [5, 6] [[128], [64]] 2 = Some m
    \<and> getKeyValue_bitmap m = Some ([5, 6], [[128], [64]], 2)"
  by (rule bitmap_roundtrip) (simp_all add: bitmap_len_def int32_def)

text \<open>
  C28: \<^verbatim>\<open>getDocid\<close>, started on an empty vector, inverts \<^verbatim>\<open>makeDocid\<close>: the signature and the
  document id come back.
\<close>

theorem docid_roundtrip:
  assumes "4 + 4 * length sig + 4 + length docid < 2 ^ 31"
  shows "\<exists>m. makeDocid sig docid = Some m \<and> getDocid m [] = Some (sig, docid)"
proof -
  define m where "m = wr_int (int (length sig)) @ wr_list sig @ put_sized docid"
  have lm: "length m = 4 + 4 * length sig + 4 + length docid" by (simp add: m_def)
  have ok: "int32 (int (length sig))" "int32 (int (length docid))"
    using assms by (simp_all add: int32_def)
  have "sees m 0 (wr_int (int (length sig)) @ wr_list sig @ put_sized docid)"
    using sees_refl [of m] by (simp add: m_def)
  then have s: "sees m 0 (wr_int (int (length sig)))" "sees m 4 (wr_list sig)"
    "sees m (4 + 4 * int (length sig)) (put_sized docid)"
    by (simp_all add: sees_append)
  have "getDocid m [] = Some (sig, docid)"
    using rd_int_sees [OF s(1) ok(1)] rd_list_sees [OF _ s(2)] sized_field.get_put [OF s(3) ok(2)]
    by (simp add: getDocid_def)
  moreover have "makeDocid sig docid = Some m"
    using emit_length [OF lm] assms by (simp add: makeDocid_def m_def [symmetric] int32_def)
  ultimately show ?thesis by blast
qed

theorem docid_roundtrip_witness:
  "\<exists>m. makeDocid [5, 6] [65, 66] = Some m \<and> getDocid m [] = Some ([5, 6], [65, 66])"
  by (rule docid_roundtrip) simp

text \<open>
  The size guard of \<^verbatim>\<open>makeSigData\<close> does not protect its array. A signature of 2046 to
  8189 elements passes the guard and overruns the 2048 words on the stack; every other
  signature is handled inside the array.
\<close>

theorem makeSigData_overrun:
  "makeSigData_one sigdata mySig type = None \<longleftrightarrow> 2046 \<le> length mySig \<and> length mySig \<le> 8189"
  by (auto simp: makeSigData_one_def put_words_def sized_sig_def buf_words_def buf_bytes_def)

text \<open>
  The comparison operator of a value query never reaches the request: the data that
  \<^verbatim>\<open>makeSigData\<close> builds is the same for every operator.
\<close>

theorem makeSigData_ignores_op:
  "makeSigData_op listOfSigs valSig OP type = makeSigData_op listOfSigs valSig OP' type"
  by (auto simp: makeSigData_op_def put_words_def Let_def split: bind_splits
      intro!: Option.bind_cong [OF refl])

end
