(* ===== verification/Compression.thy ===== *)
theory Compression
  imports Payloads
begin

text \<open>
  Signature compression of \<^verbatim>\<open>utils/utils.C\<close>: the signatures of a list are aligned into one
  multiset of elements, each with a bitmap of the signatures that contain it. An index into
  a signature is represented by the elements from that index on. \<open>None\<close> of
  \<^verbatim>\<open>compressSignatures\<close> is its result \<^verbatim>\<open>false\<close>, \<open>None\<close> of \<^verbatim>\<open>uncompressSignatures\<close> an access
  outside a bitmap.
\<close>

subsection \<open>Compression\<close>

definition bit_mask :: "nat \<Rightarrow> byte" where
  "bit_mask i = drop_bit (i mod 8) 0x80"

definition bit_at :: "bytes \<Rightarrow> nat \<Rightarrow> bool" where
  "bit_at bm j \<longleftrightarrow> bm ! (j div 8) AND bit_mask j \<noteq> 0"

definition set_bit_at :: "nat \<Rightarrow> bytes \<Rightarrow> bytes" where
  "set_bit_at i bm = bm[i div 8 := bm ! (i div 8) OR bit_mask i]"

definition min_step :: "poly list \<Rightarrow> poly \<Rightarrow> poly" where
  "min_step r minPoly =
     (case r of [] \<Rightarrow> minPoly | x # _ \<Rightarrow> if x < minPoly then x else minPoly)"

definition min_head :: "poly list list \<Rightarrow> poly" where
  "min_head rs = fold min_step rs 0xffffffff"

definition at_min :: "poly \<Rightarrow> poly list \<Rightarrow> bool" where
  "at_min minPoly r \<longleftrightarrow> r \<noteq> [] \<and> hd r = minPoly"

text \<open>The inner loop over the signatures from number \<open>i\<close> on.\<close>

fun mark_min :: "poly \<Rightarrow> nat \<Rightarrow> poly list list \<Rightarrow> bytes \<Rightarrow> bytes \<times> poly list list" where
  "mark_min minPoly i [] bm = (bm, [])"
| "mark_min minPoly i (r # rs) bm =
     (if at_min minPoly r
      then (case mark_min minPoly (i + 1) rs (set_bit_at i bm) of (bm', rs') \<Rightarrow> (bm', tl r # rs'))
      else (case mark_min minPoly (i + 1) rs bm of (bm', rs') \<Rightarrow> (bm', r # rs')))"

lemma snd_mark_min:
  "snd (mark_min m i rs bm) = map (\<lambda>r. if at_min m r then tl r else r) rs"
  by (induction m i rs bm rule: mark_min.induct) (auto split: prod.splits)

lemma min_step_le: "min_step r a \<le> a" "r \<noteq> [] \<Longrightarrow> min_step r a \<le> hd r"
  "min_step r a = a \<or> at_min (min_step r a) r"
  by (auto simp: min_step_def at_min_def split: list.splits)

lemma min_head_fold:
  "fold min_step rs a \<le> a \<and> (\<forall>r \<in> set rs. r \<noteq> [] \<longrightarrow> fold min_step rs a \<le> hd r)
   \<and> (fold min_step rs a = a \<or> (\<exists>r \<in> set rs. at_min (fold min_step rs a) r))"
proof (induction rs arbitrary: a)
  case (Cons r rs)
  let ?m = "fold min_step rs (min_step r a)"
  have "?m \<le> a" using Cons.IH [of "min_step r a"] min_step_le(1) order_trans by blast
  moreover have "r \<noteq> [] \<longrightarrow> ?m \<le> hd r"
    using Cons.IH [of "min_step r a"] min_step_le(2) order_trans by blast
  moreover have "?m = a \<or> at_min ?m r \<or> (\<exists>r \<in> set rs. at_min ?m r)"
    using Cons.IH [of "min_step r a"] min_step_le(3) [of r a] by auto
  ultimately show ?case using Cons.IH [of "min_step r a"] by simp
qed simp

lemma min_head_at:
  assumes "\<exists>r \<in> set rs. r \<noteq> []"
  shows "\<exists>r \<in> set rs. at_min (min_head rs) r"
proof (cases "min_head rs = 0xffffffff")
  case True
  obtain r where r: "r \<in> set rs" "r \<noteq> []" using assms by blast
  then have "0xffffffff \<le> hd r"
    using min_head_fold [of rs "0xffffffff"] True by (simp add: min_head_def)
  moreover have "unat (hd r) < 2 ^ LENGTH(32)" by (rule unsigned_less)
  ultimately have "hd r = 0xffffffff" by (simp add: word_le_nat_alt word_unat_eq_iff)
  then show ?thesis using r True by (auto simp: at_min_def)
next
  case False
  then show ?thesis using min_head_fold [of rs "0xffffffff"] by (simp add: min_head_def)
qed

lemma mark_min_decreases:
  assumes "\<exists>r \<in> set rs. at_min m r"
  shows "sum_list (map length (map (\<lambda>r. if at_min m r then tl r else r) rs)) < sum_list (map length rs)"
  using assms
proof (induction rs)
  case (Cons r rs)
  have "sum_list (map length (map (\<lambda>r. if at_min m r then tl r else r) rs)) \<le> sum_list (map length rs)"
    by (induction rs) auto
  moreover have "at_min m r \<Longrightarrow> length (tl r) < length r" by (cases r) (auto simp: at_min_def)
  ultimately show ?case using Cons by (cases "at_min m r") auto
qed simp

lemma mark_min_total:
  assumes "(bm, rs') = mark_min (min_head rs) 0 rs zero" "r \<in> set rs" "r \<noteq> []"
  shows "sum_list (map length rs') < sum_list (map length rs)"
proof -
  have "rs' = map (\<lambda>r. if at_min (min_head rs) r then tl r else r) rs"
    using snd_mark_min [of "min_head rs" 0 rs zero] assms(1) [symmetric] by simp
  with mark_min_decreases [OF min_head_at] assms(2,3) show ?thesis by auto
qed

text \<open>The outer loop: one element and one bitmap per turn, until all signatures are scanned.\<close>

function compress_loop :: "bytes \<Rightarrow> poly list list \<Rightarrow> (poly \<times> bytes) list" where
  "compress_loop zero rs =
     (if \<forall>r \<in> set rs. r = [] then []
      else (let m = min_head rs
            in case mark_min m 0 rs zero of (bm, rs') \<Rightarrow> (m, bm) # compress_loop zero rs'))"
  by pat_completeness auto
termination
  by (relation "measure (\<lambda>(zero, rs). sum_list (map length rs))")
    (auto dest: mark_min_total)

declare compress_loop.simps [simp del]

definition compressSignatures :: "poly list list \<Rightarrow> (poly list \<times> bytes list) option" where
  "compressSignatures inputSig =
     (let numSigs = length inputSig
      in if numSigs = 0 \<or> [] \<in> set inputSig then None
         else (let rows = compress_loop (replicate (nat (bitmap_len (int numSigs))) 0) inputSig
               in Some (map fst rows, map snd rows)))"

subsection \<open>Decompression\<close>

fun push_bits :: "poly \<Rightarrow> bytes \<Rightarrow> nat \<Rightarrow> nat \<Rightarrow> poly list list \<Rightarrow> poly list list" where
  "push_bits c bm j numSigs [] = []"
| "push_bits c bm j numSigs (out # outs) =
     (if j < numSigs \<and> bit_at bm j then out @ [c] else out) # push_bits c bm (j + 1) numSigs outs"

definition uncompressSignatures :: "poly list list \<Rightarrow> poly list \<Rightarrow> bytes list \<Rightarrow> int
    \<Rightarrow> poly list list option" where
  "uncompressSignatures outputSig inputSig inputBitmap numSigs =
     (if length inputSig \<le> length inputBitmap
       \<and> list_all (\<lambda>b. bitmap_len numSigs \<le> int (length b)) (take (length inputSig) inputBitmap)
      then Some (fold (\<lambda>(c, bm). push_bits c bm 0 (nat numSigs)) (zip inputSig inputBitmap)
                   (outputSig @ replicate (nat numSigs) []))
      else None)"

subsection \<open>Bits\<close>

lemma bit_mask_push: "bit_mask i = push_bit (7 - i mod 8) 1"
proof -
  have "i mod 8 < 8" by simp
  then consider "i mod 8 = 0" | "i mod 8 = 1" | "i mod 8 = 2" | "i mod 8 = 3" | "i mod 8 = 4"
    | "i mod 8 = 5" | "i mod 8 = 6" | "i mod 8 = 7" by linarith
  then show ?thesis by cases (simp_all add: bit_mask_def)
qed

lemma bit_at_iff: "bit_at bm j \<longleftrightarrow> bit (bm ! (j div 8)) (7 - j mod 8)"
  by (simp add: bit_at_def bit_mask_push bit_iff_and_push_bit_not_eq_0)

lemma bit_at_set:
  assumes "i div 8 < length bm"
  shows "bit_at (set_bit_at i bm) j \<longleftrightarrow> bit_at bm j \<or> j = i"
proof (cases "j div 8 = i div 8")
  case True
  have "bit (push_bit (7 - a) 1 :: byte) (7 - b) \<longleftrightarrow> a = b" if "a < 8" "b < 8" for a b
    using that unfolding bit_push_bit_iff bit_1_iff by auto
  then have "bit (bit_mask i) (7 - j mod 8) \<longleftrightarrow> i mod 8 = j mod 8"
    unfolding bit_mask_push by simp
  moreover have "i mod 8 = j mod 8 \<longleftrightarrow> j = i" using True by (metis div_mult_mod_eq)
  ultimately show ?thesis
    using True assms by (auto simp: bit_at_iff set_bit_at_def bit_or_iff)
next
  case False
  then show ?thesis by (auto simp: bit_at_iff set_bit_at_def)
qed

lemma length_set_bit_at [simp]: "length (set_bit_at i bm) = length bm"
  by (simp add: set_bit_at_def)

lemma bit_at_zero: "j div 8 < n \<Longrightarrow> \<not> bit_at (replicate n 0) j"
  by (simp add: bit_at_iff)

subsection \<open>Round trip\<close>

lemma fst_mark_min:
  assumes "i + length rs \<le> 8 * length bm"
  shows "length (fst (mark_min m i rs bm)) = length bm"
    and "bit_at (fst (mark_min m i rs bm)) j \<longleftrightarrow>
      bit_at bm j \<or> i \<le> j \<and> j < i + length rs \<and> at_min m (rs ! (j - i))"
proof -
  have "length (fst (mark_min m i rs bm)) = length bm \<and>
    (bit_at (fst (mark_min m i rs bm)) j \<longleftrightarrow>
      bit_at bm j \<or> i \<le> j \<and> j < i + length rs \<and> at_min m (rs ! (j - i)))"
    using assms
  proof (induction m i rs bm rule: mark_min.induct)
    case (2 m i r rs bm)
    let ?bm = "if at_min m r then set_bit_at i bm else bm"
    have "i div 8 < length bm" using 2(3) by simp
    then have bm: "bit_at ?bm j \<longleftrightarrow> bit_at bm j \<or> j = i \<and> at_min m r" "length ?bm = length bm"
      by (simp_all add: bit_at_set)
    have *: "fst (mark_min m i (r # rs) bm) = fst (mark_min m (i + 1) rs ?bm)"
      by (simp split: prod.splits)
    have "length (fst (mark_min m (i + 1) rs ?bm)) = length bm \<and>
      (bit_at (fst (mark_min m (i + 1) rs ?bm)) j \<longleftrightarrow>
        bit_at ?bm j \<or> i + 1 \<le> j \<and> j < i + 1 + length rs \<and> at_min m (rs ! (j - (i + 1))))"
      using 2 bm(2) by (cases "at_min m r") simp_all
    moreover have "j = i \<and> at_min m r
        \<or> i + 1 \<le> j \<and> j < i + 1 + length rs \<and> at_min m (rs ! (j - (i + 1)))
      \<longleftrightarrow> i \<le> j \<and> j < i + length (r # rs) \<and> at_min m ((r # rs) ! (j - i))"
      by (cases "j \<le> i") (auto simp: nth_Cons')
    ultimately show ?case unfolding * bm by blast
  qed auto
  then show "length (fst (mark_min m i rs bm)) = length bm"
    "bit_at (fst (mark_min m i rs bm)) j \<longleftrightarrow>
      bit_at bm j \<or> i \<le> j \<and> j < i + length rs \<and> at_min m (rs ! (j - i))" by auto
qed

lemma push_bits_nth:
  "length (push_bits c bm j n outs) = length outs"
  "k < length outs \<Longrightarrow> push_bits c bm j n outs ! k =
     (if j + k < n \<and> bit_at bm (j + k) then outs ! k @ [c] else outs ! k)"
  by (induction c bm j n outs arbitrary: k rule: push_bits.induct)
    (auto simp: nth_Cons' less_Suc_eq_0_disj)

text \<open>Replaying the rows of the loop appends what the signatures still hold.\<close>

lemma uncompress_replay:
  assumes "length outs = length rs" "length rs \<le> 8 * length zero"
    and "zero = replicate (length zero) 0"
  shows "fold (\<lambda>(c, bm). push_bits c bm 0 (length rs)) (compress_loop zero rs) outs
      = map2 (@) outs rs"
    and "\<forall>(c, bm) \<in> set (compress_loop zero rs). length bm = length zero"
proof -
  have "fold (\<lambda>(c, bm). push_bits c bm 0 (length rs)) (compress_loop zero rs) outs
      = map2 (@) outs rs \<and> (\<forall>(c, bm) \<in> set (compress_loop zero rs). length bm = length zero)"
    using assms
  proof (induction zero rs arbitrary: outs rule: compress_loop.induct)
    case (1 zero rs)
    show ?case
    proof (cases "\<forall>r \<in> set rs. r = []")
      case True
      then show ?thesis using 1(2)
        by (simp add: compress_loop.simps list_eq_iff_nth_eq [of outs])
    next
      case False
      define m where "m = min_head rs"
      obtain bm rs' where mm: "mark_min m 0 rs zero = (bm, rs')" by fastforce
      have rs': "rs' = map (\<lambda>r. if at_min m r then tl r else r) rs"
        using snd_mark_min [of m 0 rs zero] mm by simp
      have bm: "length bm = length zero"
        "j < length rs \<Longrightarrow> bit_at bm j \<longleftrightarrow> at_min m (rs ! j)" for j
        using fst_mark_min(1) [of 0 rs zero m] fst_mark_min(2) [of 0 rs zero m j] 1(3) mm
          bit_at_zero [of j "length zero"] by (simp_all flip: 1(4))
      let ?outs = "push_bits m bm 0 (length rs) outs"
      have "fold (\<lambda>(c, bm). push_bits c bm 0 (length rs)) (compress_loop zero rs') ?outs
          = map2 (@) ?outs rs' \<and> (\<forall>(c, bm) \<in> set (compress_loop zero rs'). length bm = length zero)"
        using 1(1) [OF False m_def mm [symmetric], of ?outs] 1(2-4)
        by (simp add: rs' push_bits_nth)
      moreover have "map2 (@) ?outs rs' = map2 (@) outs rs"
        using 1(2) bm(2)
        by (intro nth_equalityI) (auto simp: rs' push_bits_nth at_min_def)
      moreover have "compress_loop zero rs = (m, bm) # compress_loop zero rs'"
        using False by (subst compress_loop.simps) (simp add: m_def [symmetric] mm)
      ultimately show ?thesis using bm(1) by simp
    qed
  qed
  then show "fold (\<lambda>(c, bm). push_bits c bm 0 (length rs)) (compress_loop zero rs) outs
      = map2 (@) outs rs"
    "\<forall>(c, bm) \<in> set (compress_loop zero rs). length bm = length zero" by auto
qed

lemma bitmap_covers: "n \<le> 8 * nat (bitmap_len (int n))"
  unfolding bitmap_len_def by linarith

lemma compress_uncompress:
  assumes "sigs \<noteq> []" "[] \<notin> set sigs"
  shows "\<exists>cs bms. compressSignatures sigs = Some (cs, bms)
    \<and> length cs = length bms
    \<and> (\<forall>b \<in> set bms. int (length b) = bitmap_len (int (length sigs)))
    \<and> uncompressSignatures [] cs bms (int (length sigs)) = Some sigs"
proof -
  let ?n = "nat (bitmap_len (int (length sigs)))"
  define rows where "rows = compress_loop (replicate ?n 0) sigs"
  have fold: "fold (\<lambda>(c, bm). push_bits c bm 0 (length sigs)) rows (replicate (length sigs) [])
      = map2 (@) (replicate (length sigs) []) sigs"
    and len: "\<forall>(c, bm) \<in> set rows. length bm = ?n"
    using uncompress_replay [of "replicate (length sigs) []" sigs "replicate ?n 0"] bitmap_covers
    by (simp_all add: rows_def)
  have "map2 (@) (replicate (length sigs) []) sigs = sigs"
    by (intro nth_equalityI) auto
  moreover have pos: "0 \<le> bitmap_len (int (length sigs))" by (simp add: bitmap_len_def)
  ultimately have "uncompressSignatures [] (map fst rows) (map snd rows) (int (length sigs)) = Some sigs"
    using fold len by (auto simp: uncompressSignatures_def zip_map_fst_snd list_all_iff)
  then show ?thesis
    using assms len pos
    by (intro exI [of _ "map fst rows"] exI [of _ "map snd rows"])
      (auto simp: compressSignatures_def rows_def Let_def)
qed

text \<open>
  C31: signature compression is lossless. Every non-empty list of non-empty signatures, sorted
  or not, is compressed (the scan ends), each bitmap has one bit per signature rounded up to
  bytes, and \<^verbatim>\<open>uncompressSignatures\<close> on an empty output rebuilds the list exactly.
\<close>

theorem compression_roundtrip:
  assumes "sigs \<noteq> []" "[] \<notin> set sigs"
  shows "\<exists>cs bms. compressSignatures sigs = Some (cs, bms)
    \<and> length cs = length bms
    \<and> (\<forall>b \<in> set bms. int (length b) = bitmap_len (int (length sigs)))
    \<and> uncompressSignatures [] cs bms (int (length sigs)) = Some sigs"
  using assms by (rule compress_uncompress)

theorem compression_roundtrip_witness:
  "\<exists>cs bms. compressSignatures [[3, 5, 5], [5, 2], [9]] = Some (cs, bms)
    \<and> uncompressSignatures [] cs bms 3 = Some [[3, 5, 5], [5, 2], [9]]"
  using compression_roundtrip [of "[[3, 5, 5], [5, 2], [9]]"] by auto

end
