(* ===== verification/Chord_ID.thy ===== *)
theory Chord_ID
  imports Prelude
begin

text \<open>
  Identifiers on the Chord circle: \<^verbatim>\<open>utils/id_utils.C\<close> and \<^verbatim>\<open>make_team\<close> of \<^verbatim>\<open>tools/gpsi.C\<close>.
  A \<^verbatim>\<open>chordID\<close> is an arbitrary-precision integer of the library, here an \<open>int\<close>; the
  functions keep it below \<open>2 ^ NBIT\<close> by hand. The specification side is the ring of
  identifiers with the clockwise distance \<open>ring_dist\<close>.
\<close>

definition NBIT :: nat where
  "NBIT = 160"

definition ring :: int where
  "ring = 2 ^ NBIT"

subsection \<open>Arithmetic on the circle\<close>

definition incIDby :: "chordID \<Rightarrow> int \<Rightarrow> chordID" where
  "incIDby n b' = (let s = n + b'; b = push_bit NBIT 1 in if s \<ge> b then s - b else s)"

definition incID :: "chordID \<Rightarrow> chordID" where
  "incID n = (let s = n + 1; b = push_bit NBIT 1 in if s \<ge> b then s - b else s)"

definition decID :: "chordID \<Rightarrow> chordID" where
  "decID n = (let p = n - 1; b = push_bit NBIT 1 - 1 in p AND b)"

definition successorID :: "chordID \<Rightarrow> nat \<Rightarrow> chordID" where
  "successorID n p = (let b = push_bit NBIT 1 - 1; t = push_bit p 1 in (n + t) AND b)"

definition predecessorID :: "chordID \<Rightarrow> nat \<Rightarrow> chordID" where
  "predecessorID n p = (let b = push_bit NBIT 1 - 1; t = push_bit p 1 in (n - t) AND b)"

definition doubleID :: "chordID \<Rightarrow> nat \<Rightarrow> chordID" where
  "doubleID n logbase = (let b = push_bit NBIT 1 - 1 in push_bit logbase n AND b)"

definition distance :: "chordID \<Rightarrow> chordID \<Rightarrow> chordID" where
  "distance a b = (if a < b then b - a else (let t = push_bit NBIT 1 in (t - a) + b))"

definition diff :: "chordID \<Rightarrow> chordID \<Rightarrow> chordID" where
  "diff a b = (let d = b - a in if d > 0 then d else (let t = push_bit NBIT 1 in t - d))"

definition shifttopbitout :: "nat \<Rightarrow> chordID \<Rightarrow> chordID" where
  "shifttopbitout n a =
     (if a = 0 then a
      else (let mask = push_bit (NBIT - n) 1 - 1 in push_bit n (a AND mask)))"

subsection \<open>Intervals\<close>

definition between :: "chordID \<Rightarrow> chordID \<Rightarrow> chordID \<Rightarrow> bool" where
  "between a b n =
     (if a = b then n \<noteq> a else if a < b then n > a \<and> n < b else n > a \<or> n < b)"

definition betweenleftincl :: "chordID \<Rightarrow> chordID \<Rightarrow> chordID \<Rightarrow> bool" where
  "betweenleftincl a b n =
     (if a = b \<and> n = a then True else if a < b then n \<ge> a \<and> n < b else n \<ge> a \<or> n < b)"

definition betweenrightincl :: "chordID \<Rightarrow> chordID \<Rightarrow> chordID \<Rightarrow> bool" where
  "betweenrightincl a b n =
     (if a = b \<and> n = a then True else if a < b then n > a \<and> n \<le> b else n > a \<or> n \<le> b)"

definition betweenbothincl :: "chordID \<Rightarrow> chordID \<Rightarrow> chordID \<Rightarrow> bool" where
  "betweenbothincl a b n =
     (if a = b \<and> n = a then True else if a < b then n \<ge> a \<and> n \<le> b else n \<ge> a \<or> n \<le> b)"

subsection \<open>Bit counts\<close>

text \<open>The loops run over the 32 low bits.\<close>

primrec n1bits_loop :: "nat \<Rightarrow> nat \<Rightarrow> nat \<Rightarrow> nat" where
  "n1bits_loop 0 n t = t"
| "n1bits_loop (Suc k) n t = n1bits_loop k (n div 2) (if odd n then t + 1 else t)"

definition n1bits :: "nat \<Rightarrow> nat" where
  "n1bits n = n1bits_loop 32 n 0"

primrec log2_loop :: "nat \<Rightarrow> nat \<Rightarrow> nat \<Rightarrow> nat \<Rightarrow> nat" where
  "log2_loop 0 i n l = l"
| "log2_loop (Suc k) i n l = log2_loop k (i + 1) (n div 2) (if odd n then i else l)"

definition log2' :: "nat \<Rightarrow> nat" where
  "log2' n = log2_loop 32 0 n 0"

subsection \<open>Text\<close>

text \<open>The value of a hexadecimal digit; characters are their byte codes.\<close>

definition hex_digit :: "byte \<Rightarrow> int option" where
  "hex_digit c =
     (if c \<ge> 48 \<and> c \<le> 57 then Some (uint c - 48)
      else if c \<ge> 97 \<and> c \<le> 102 then Some (uint c - 97 + 10)
      else if c \<ge> 65 \<and> c \<le> 70 then Some (uint c - 65 + 10)
      else None)"

fun hex_loop :: "bytes \<Rightarrow> chordID \<Rightarrow> bool \<times> chordID" where
  "hex_loop [] newID = (True, newID)"
| "hex_loop (c # cs) newID =
     (let newID = push_bit 4 newID
      in case hex_digit c of
           Some x \<Rightarrow> hex_loop cs (newID OR x)
         | None \<Rightarrow> (False, newID))"

text \<open>The flag and the identifier that the reference parameter holds afterwards.\<close>

definition str2chordID :: "bytes \<Rightarrow> chordID \<Rightarrow> bool \<times> chordID" where
  "str2chordID c newID = (if length c > NBIT div 4 then (False, newID) else hex_loop c 0)"

subsection \<open>Teams\<close>

text \<open>The members from number \<open>j\<close> on; \<open>curID\<close> is member \<open>j - 1\<close> and \<open>idindex\<close> the last index at
  which \<open>myID\<close> was met.\<close>

fun team_loop :: "nat \<Rightarrow> int \<Rightarrow> chordID \<Rightarrow> nat \<Rightarrow> chordID \<Rightarrow> int \<Rightarrow> int \<times> chordID list" where
  "team_loop 0 arclen myID j curID idindex = (idindex, [])"
| "team_loop (Suc k) arclen myID j curID idindex =
     (let curID = curID + arclen;
          curID = (if curID \<ge> push_bit NBIT 1 then curID - push_bit NBIT 1 else curID);
          idindex = (if myID = curID then int j else idindex)
      in case team_loop k arclen myID (j + 1) curID idindex of (ix, team) \<Rightarrow> (ix, curID # team))"

text \<open>\<open>None\<close>: division by a \<^verbatim>\<open>teamsize\<close> of 0.\<close>

definition make_team :: "nat \<Rightarrow> chordID \<Rightarrow> chordID \<Rightarrow> (int \<times> chordID list) option" where
  "make_team teamsize myID teamID =
     (if teamsize = 0 then None
      else (let idindex = (if myID = teamID then 0 else -1);
                rngmax = push_bit 160 1 - 1;
                arclen = rngmax div int teamsize
            in case team_loop (teamsize - 1) arclen myID 1 teamID idindex of
                 (ix, team) \<Rightarrow> Some (ix, teamID # team)))"

subsection \<open>The ring\<close>

definition is_id :: "chordID \<Rightarrow> bool" where
  "is_id a \<longleftrightarrow> 0 \<le> a \<and> a < ring"

definition ring_dist :: "chordID \<Rightarrow> chordID \<Rightarrow> int" where
  "ring_dist a b = (b - a) mod ring"

lemma two_NBIT [simp]: "(2 :: int) ^ NBIT = ring"
  by (simp add: ring_def)

lemma push_NBIT: "push_bit NBIT 1 = ring"
  by (simp add: push_bit_eq_mult)

lemma ring_pos [simp]: "0 < ring"
  by (simp add: ring_def del: two_NBIT)

lemma and_ring: "(x :: int) AND (ring - 1) = x mod ring"
  unfolding ring_def by (simp flip: take_bit_eq_mod take_bit_eq_mask mask_eq_exp_minus_1 del: two_NBIT)

lemma ring_dist_eq:
  assumes "is_id a" "is_id b"
  shows "ring_dist a b = (if a \<le> b then b - a else b - a + ring)"
proof (cases "a \<le> b")
  case True
  then show ?thesis using assms by (simp add: ring_dist_def is_id_def)
next
  case False
  have "(b - a) mod ring = (b - a + ring) mod ring" by simp
  also have "\<dots> = b - a + ring" using False assms by (intro mod_pos_pos_trivial) (auto simp: is_id_def)
  finally show ?thesis using False by (simp add: ring_dist_def)
qed

lemma interval_tests:
  assumes "is_id a" "is_id b" "is_id n"
  shows "(between a b n \<longleftrightarrow> n \<noteq> a \<and> (a = b \<or> ring_dist a n < ring_dist a b))
    \<and> (betweenleftincl a b n \<longleftrightarrow> a = b \<or> ring_dist a n < ring_dist a b)
    \<and> (betweenrightincl a b n \<longleftrightarrow> a = b \<or> n \<noteq> a \<and> ring_dist a n \<le> ring_dist a b)
    \<and> (betweenbothincl a b n \<longleftrightarrow> a = b \<or> ring_dist a n \<le> ring_dist a b)"
  using assms
  by (auto simp: ring_dist_eq between_def betweenleftincl_def betweenrightincl_def
      betweenbothincl_def is_id_def)

text \<open>
  The interval tests agree with clockwise distance. For identifiers on the ring,
  \<^verbatim>\<open>between\<close> holds iff \<open>n\<close> lies strictly between \<open>a\<close> and \<open>b\<close> when walking clockwise from
  \<open>a\<close>, and the three inclusive variants add the endpoints; when \<open>a = b\<close> the interval is the
  whole circle, without \<open>a\<close> for \<^verbatim>\<open>between\<close> only.
\<close>

theorem interval_tests_are_clockwise:
  assumes "is_id a" "is_id b" "is_id n"
  shows "(between a b n \<longleftrightarrow> n \<noteq> a \<and> (a = b \<or> ring_dist a n < ring_dist a b))
    \<and> (betweenleftincl a b n \<longleftrightarrow> a = b \<or> ring_dist a n < ring_dist a b)
    \<and> (betweenrightincl a b n \<longleftrightarrow> a = b \<or> n \<noteq> a \<and> ring_dist a n \<le> ring_dist a b)
    \<and> (betweenbothincl a b n \<longleftrightarrow> a = b \<or> ring_dist a n \<le> ring_dist a b)"
  using assms by (rule interval_tests)

theorem interval_tests_are_clockwise_witness:
  "between 100 5 200 \<and> \<not> between 100 5 50"
proof -
  have "is_id 100" "is_id 5" "is_id 200" "is_id 50" by (simp_all add: is_id_def ring_def NBIT_def del: two_NBIT)
  then show ?thesis
    using interval_tests_are_clockwise [of 100 5 200] interval_tests_are_clockwise [of 100 5 50]
    by (simp add: ring_dist_eq) (simp add: ring_def NBIT_def del: two_NBIT)
qed

lemma successorID_mod: "successorID n p = (n + 2 ^ p) mod ring"
  and predecessorID_mod: "predecessorID n p = (n - 2 ^ p) mod ring"
  by (simp_all add: successorID_def predecessorID_def and_ring push_bit_eq_mult Let_def)

text \<open>
  On the ring, \<^verbatim>\<open>successorID\<close> and \<^verbatim>\<open>predecessorID\<close> stay on the ring, move by \<open>2 ^ p\<close>
  clockwise and counter-clockwise, and undo each other; \<^verbatim>\<open>incID\<close> and \<^verbatim>\<open>decID\<close> are the case
  \<open>p = 0\<close>.
\<close>

theorem successor_predecessor_inverse:
  assumes "is_id n"
  shows "is_id (successorID n p) \<and> ring_dist n (successorID n p) = 2 ^ p mod ring
    \<and> predecessorID (successorID n p) p = n \<and> successorID (predecessorID n p) p = n
    \<and> incID n = successorID n 0 \<and> decID n = predecessorID n 0"
proof -
  have n: "n mod ring = n" using assms by (simp add: is_id_def)
  have "incID n = successorID n 0"
  proof (cases "n + 1 = ring")
    case False
    then have "n + 1 < ring" using assms by (simp add: is_id_def)
    then show ?thesis
      using assms by (simp add: incID_def push_NBIT Let_def successorID_mod is_id_def)
  qed (simp add: incID_def push_NBIT Let_def successorID_mod)
  moreover have "decID n = predecessorID n 0"
    by (simp add: decID_def predecessorID_mod and_ring Let_def)
  moreover have "predecessorID (successorID n p) p = n" "successorID (predecessorID n p) p = n"
    by (simp_all add: successorID_mod predecessorID_mod mod_diff_left_eq mod_add_left_eq n)
  moreover have "ring_dist n (successorID n p) = 2 ^ p mod ring"
    by (simp add: ring_dist_def successorID_mod mod_diff_left_eq)
  ultimately show ?thesis by (simp add: is_id_def successorID_mod)
qed

theorem successor_predecessor_inverse_witness:
  "predecessorID (successorID (2 ^ 160 - 1) 3) 3 = 2 ^ 160 - 1"
  using successor_predecessor_inverse [of "2 ^ 160 - 1" 3] by (simp add: is_id_def ring_def NBIT_def del: two_NBIT)

text \<open>
  \<^verbatim>\<open>distance\<close> is the clockwise distance except that the distance of an identifier to
  itself is the whole circle, whereas \<^verbatim>\<open>diff\<close> leaves the ring whenever it wraps: for \<open>b\<close> before
  \<open>a\<close> it is \<open>ring + (a - b)\<close>, too large by twice the counter-clockwise distance.
\<close>

theorem distance_right_diff_wrong:
  assumes "is_id a" "is_id b"
  shows "distance a b = (if a = b then ring else ring_dist a b)
    \<and> diff a b = (if a < b then ring_dist a b else ring_dist a b + 2 * (a - b)
        + (if a = b then ring else 0))"
  using assms by (auto simp: distance_def diff_def ring_dist_eq push_NBIT Let_def)

theorem distance_right_diff_wrong_witness:
  "distance 7 5 = 2 ^ 160 - 2 \<and> diff 7 5 = 2 ^ 160 + 2"
  using distance_right_diff_wrong [of 7 5]
  by (simp add: is_id_def ring_dist_eq ring_def NBIT_def del: two_NBIT)

subsection \<open>Teams on the ring\<close>

definition team_member :: "nat \<Rightarrow> chordID \<Rightarrow> nat \<Rightarrow> chordID" where
  "team_member teamsize teamID i = (teamID + int i * ((ring - 1) div int teamsize)) mod ring"

lemma team_step:
  assumes "is_id c" "0 \<le> arclen" "arclen < ring"
  shows "(if c + arclen \<ge> ring then c + arclen - ring else c + arclen) = (c + arclen) mod ring"
proof (cases "c + arclen \<ge> ring")
  case True
  then have "(c + arclen) mod ring = (c + arclen - ring) mod ring" by simp
  also have "\<dots> = c + arclen - ring" using True assms by (intro mod_pos_pos_trivial) (auto simp: is_id_def)
  finally show ?thesis using True by simp
next
  case False
  then show ?thesis using assms by (simp add: is_id_def)
qed

lemma team_loop_members:
  assumes "is_id c" "0 \<le> arclen" "arclen < ring"
  shows "snd (team_loop k arclen myID j c ix) = map (\<lambda>i. (c + int (i + 1) * arclen) mod ring) [0..<k]"
  using assms
proof (induction k arbitrary: j c ix)
  case (Suc k)
  let ?c = "(c + arclen) mod ring"
  have c: "is_id ?c" by (simp add: is_id_def)
  have "snd (team_loop (Suc k) arclen myID j c ix)
      = ?c # map (\<lambda>i. (?c + int (i + 1) * arclen) mod ring) [0..<k]"
    using Suc.IH [OF c Suc.prems(2,3)] team_step [OF Suc.prems]
    by (simp add: Let_def push_NBIT split: prod.splits) (metis snd_conv)
  moreover have "(?c + int (i + 1) * arclen) mod ring = (c + int (Suc i + 1) * arclen) mod ring" for i
    unfolding mod_add_left_eq by (simp add: algebra_simps)
  then have "?c # map (\<lambda>i. (?c + int (i + 1) * arclen) mod ring) [0..<k]
      = map (\<lambda>i. (c + int (i + 1) * arclen) mod ring) [0..<Suc k]"
    by (simp add: upt_conv_Cons flip: map_Suc_upt del: upt_Suc)
  ultimately show ?case by simp
qed simp

lemma team_loop_index:
  "case team_loop k arclen myID j c ix of (ix', team) \<Rightarrow>
     (if myID \<in> set team then \<exists>i < length team. ix' = int (j + i) \<and> team ! i = myID else ix' = ix)"
proof (induction k arbitrary: j c ix)
  case (Suc k)
  define c' where "c' = (if c + arclen \<ge> push_bit NBIT 1 then c + arclen - push_bit NBIT 1 else c + arclen)"
  define ix' where "ix' = (if myID = c' then int j else ix)"
  obtain ix'' team where r: "team_loop k arclen myID (j + 1) c' ix' = (ix'', team)" by fastforce
  then have step: "team_loop (Suc k) arclen myID j c ix = (ix'', c' # team)"
    by (simp add: c'_def ix'_def Let_def)
  have ih: "if myID \<in> set team then \<exists>i < length team. ix'' = int (j + 1 + i) \<and> team ! i = myID
      else ix'' = ix'"
    using Suc.IH [of "j + 1" ix' c'] unfolding r prod.case .
  show ?case
  proof (cases "myID \<in> set team")
    case True
    then obtain i where "i < length team" "ix'' = int (j + 1 + i)" "team ! i = myID" using ih by auto
    then have "Suc i < length (c' # team) \<and> ix'' = int (j + Suc i) \<and> (c' # team) ! Suc i = myID"
      by simp
    with True show ?thesis unfolding step by (auto intro: exI [of _ "Suc i"])
  next
    case False
    with ih show ?thesis unfolding step by (auto simp: ix'_def intro: exI [of _ 0])
  qed
qed simp

lemma team_member_inj:
  assumes "int teamsize < ring" "i < k" "k < teamsize"
  shows "team_member teamsize teamID i \<noteq> team_member teamsize teamID k"
proof
  let ?arc = "(ring - 1) div int teamsize"
  assume "team_member teamsize teamID i = team_member teamsize teamID k"
  then have dvd: "ring dvd (int k - int i) * ?arc"
    by (simp add: team_member_def mod_eq_dvd_iff algebra_simps dvd_diff_commute)
  have arc: "0 < ?arc" using assms by (simp add: pos_imp_zdiv_pos_iff)
  have "(int k - int i) * ?arc \<le> int teamsize * ?arc" using arc assms by (intro mult_right_mono) auto
  also have "\<dots> \<le> ring - 1"
    using pos_mod_sign [of "int teamsize" "ring - 1"] mult_div_mod_eq [of "int teamsize" "ring - 1"] assms
    by linarith
  finally have "(int k - int i) * ?arc < ring" by simp
  moreover have "0 < (int k - int i) * ?arc" using arc assms by simp
  ultimately show False using dvd by (meson zdvd_not_zless)
qed

lemma arclen_bounds:
  assumes "0 < (t :: int)"
  shows "0 \<le> (ring - 1) div t" and "(ring - 1) div t < ring"
  using assms by (simp add: pos_imp_zdiv_nonneg_iff)
    (metis assms int_div_le_self leI order.strict_trans1 ring_pos zdiv_eq_0_iff zle_diff1_eq)

lemma push_160: "push_bit 160 1 = ring"
  using push_NBIT by (simp add: NBIT_def)

lemma make_team_members:
  assumes "0 < teamsize" "is_id teamID"
  shows "\<exists>ix. make_team teamsize myID teamID = Some (ix, map (team_member teamsize teamID) [0..<teamsize])
    \<and> (if myID \<in> team_member teamsize teamID ` {0..<teamsize}
       then \<exists>i < teamsize. ix = int i \<and> team_member teamsize teamID i = myID else ix = -1)"
proof -
  define arc where "arc = (ring - 1) div int teamsize"
  define ix0 :: int where "ix0 = (if myID = teamID then 0 else -1)"
  obtain k where k: "teamsize = Suc k" using assms(1) by (cases teamsize) auto
  obtain ix team where r: "team_loop k arc myID 1 teamID ix0 = (ix, team)" by fastforce
  have team: "team = map (\<lambda>i. team_member teamsize teamID (i + 1)) [0..<k]"
    using team_loop_members [of teamID arc k myID 1 ix0] arclen_bounds [of "int teamsize"] assms r
    by (simp add: arc_def team_member_def)
  have t0: "team_member teamsize teamID 0 = teamID"
    using assms(2) by (simp add: team_member_def is_id_def)
  have all: "map (team_member teamsize teamID) [0..<teamsize] = teamID # team"
    unfolding k team by (simp add: upt_conv_Cons t0 [unfolded k] flip: map_Suc_upt del: upt_Suc)
  have made: "make_team teamsize myID teamID = Some (ix, teamID # team)"
    unfolding make_team_def push_160 Let_def ix0_def [symmetric] arc_def [symmetric]
    using r by (simp add: k)
  have mem: "team_member teamsize teamID ` {0..<teamsize} = set (teamID # team)"
    unfolding all [symmetric] by simp
  have idx: "if myID \<in> set team then \<exists>i < length team. ix = int (1 + i) \<and> team ! i = myID else ix = ix0"
    using team_loop_index [where k = k and arclen = arc and myID = myID and j = 1 and c = teamID
        and ix = ix0] unfolding r prod.case .
  have "if myID \<in> set (teamID # team)
    then \<exists>i < teamsize. ix = int i \<and> (teamID # team) ! i = myID else ix = -1"
  proof (cases "myID \<in> set team")
    case True
    then obtain i where "i < length team" "ix = int (Suc i)" "team ! i = myID" using idx by auto
    with True show ?thesis by (auto simp: team k intro!: exI [of _ "Suc i"])
  next
    case False
    with idx show ?thesis by (auto simp: ix0_def k)
  qed
  moreover have "(teamID # team) ! i = team_member teamsize teamID i" if "i < teamsize" for i
    using that unfolding all [symmetric] by simp
  ultimately show ?thesis unfolding made mem all by (auto split: if_splits)
qed

text \<open>
  \<^verbatim>\<open>make_team\<close> builds a team of \<^verbatim>\<open>teamsize\<close> distinct identifiers on the ring, spaced
  \<open>(2 ^ 160 - 1) / teamsize\<close> apart starting at \<^verbatim>\<open>teamID\<close>, and returns the position of
  \<^verbatim>\<open>myID\<close> in it, or -1 when it is not a member.
\<close>

theorem make_team_correct:
  assumes "0 < teamsize" "int teamsize < 2 ^ 160" "is_id teamID"
  shows "\<exists>ix team. make_team teamsize myID teamID = Some (ix, team)
    \<and> length team = teamsize \<and> distinct team \<and> hd team = teamID \<and> (\<forall>x \<in> set team. is_id x)
    \<and> (\<forall>i < teamsize. team ! i = (teamID + int i * ((2 ^ 160 - 1) div int teamsize)) mod 2 ^ 160)
    \<and> (if myID \<in> set team then 0 \<le> ix \<and> nat ix < teamsize \<and> team ! nat ix = myID else ix = -1)"
proof -
  let ?team = "map (team_member teamsize teamID) [0..<teamsize]"
  have r: "ring = 2 ^ 160" by (simp add: ring_def NBIT_def del: two_NBIT)
  obtain ix where ix: "make_team teamsize myID teamID = Some (ix, ?team)"
    "if myID \<in> team_member teamsize teamID ` {0..<teamsize}
     then \<exists>i < teamsize. ix = int i \<and> team_member teamsize teamID i = myID else ix = -1"
    using make_team_members [OF assms(1,3), of myID] by blast
  have "inj_on (team_member teamsize teamID) {0..<teamsize}"
    using team_member_inj [of teamsize _ _ teamID] assms(2)
    by (intro inj_onI) (metis atLeastLessThan_iff linorder_neqE_nat r)
  then have "distinct ?team" by (simp add: distinct_map)
  moreover have "hd ?team = teamID"
    using assms by (simp add: hd_map upt_conv_Cons team_member_def is_id_def)
  moreover have "\<forall>i < teamsize. ?team ! i = (teamID + int i * ((2 ^ 160 - 1) div int teamsize)) mod 2 ^ 160"
    by (simp add: team_member_def r)
  moreover have "\<forall>x \<in> set ?team. is_id x" by (auto simp: team_member_def is_id_def)
  moreover have "if myID \<in> set ?team then 0 \<le> ix \<and> nat ix < teamsize \<and> ?team ! nat ix = myID else ix = -1"
    using ix(2) by (auto split: if_splits)
  ultimately show ?thesis using ix(1) by (intro exI [of _ ix] exI [of _ ?team]) simp
qed

theorem make_team_correct_witness:
  "\<exists>ix team. make_team 4 9 9 = Some (ix, team) \<and> length team = 4 \<and> hd team = 9"
  using make_team_correct [of 4 9 9] by (auto simp: is_id_def ring_def NBIT_def simp del: two_NBIT)

subsection \<open>Text of identifiers\<close>

text \<open>The hexadecimal text of a number, as a string buffer prints it.\<close>

definition hex_char :: "nat \<Rightarrow> byte" where
  "hex_char d = (if d < 10 then of_nat (48 + d) else of_nat (97 + (d - 10)))"

fun hex_text :: "nat \<Rightarrow> bytes" where
  "hex_text n = (if n < 16 then [hex_char n] else hex_text (n div 16) @ [hex_char (n mod 16)])"

declare hex_text.simps [simp del]

text \<open>The decimal text.\<close>

fun dec_text :: "nat \<Rightarrow> bytes" where
  "dec_text n = (if n < 10 then [of_nat (48 + n)] else dec_text (n div 10) @ [of_nat (48 + n mod 10)])"

declare dec_text.simps [simp del]

lemma hex_digit_char:
  assumes "d < 16"
  shows "hex_digit (hex_char d) = Some (int d)"
proof (cases "d < 10")
  case True
  then have "unat (hex_char d) = 48 + d" by (simp add: hex_char_def unat_of_nat del: of_nat_add)
  with True show ?thesis by (simp add: hex_digit_def word_le_nat_alt uint_nat)
next
  case False
  then have "unat (hex_char d) = 97 + (d - 10)"
    using assms by (simp add: hex_char_def unat_of_nat del: of_nat_add)
  with False assms show ?thesis by (simp add: hex_digit_def word_le_nat_alt uint_nat)
qed

lemma hex_or: "0 \<le> a \<Longrightarrow> d < 16 \<Longrightarrow> push_bit 4 a OR int d = a * 16 + int d"
proof -
  assume "0 \<le> a" "d < 16"
  have "take_bit 4 (int d) = int d" using \<open>d < 16\<close> by (simp add: take_bit_eq_mod)
  then have "push_bit 4 a AND int d = 0"
    by (intro bit_eqI) (metis and_zero_eq bit_and_iff bit_push_bit_iff_int bit_take_bit_iff leD)
  then have "push_bit 4 a + int d = push_bit 4 a OR int d"
    by (simp add: disjunctive_add_eq_or)
  then show ?thesis by (simp add: push_bit_eq_mult)
qed

lemma hex_loop_append:
  "hex_loop (cs @ ds) a = (case hex_loop cs a of (True, b) \<Rightarrow> hex_loop ds b | r \<Rightarrow> r)"
  by (induction cs arbitrary: a) (auto simp: Let_def split: option.splits)

lemma hex_loop_text: "hex_loop (hex_text n) 0 = (True, int n)"
proof (induction n rule: hex_text.induct)
  case (1 n)
  show ?case
  proof (cases "n < 16")
    case True
    then show ?thesis by (simp add: hex_text.simps hex_digit_char)
  next
    case False
    then have "hex_loop (hex_text n) 0 = (True, push_bit 4 (int (n div 16)) OR int (n mod 16))"
      using 1 by (simp add: hex_text.simps [of n] hex_loop_append hex_digit_char)
    also have "push_bit 4 (int (n div 16)) OR int (n mod 16) = int n"
      using hex_or [of "int (n div 16)" "n mod 16"] by (simp add: zdiv_int zmod_int)
    finally show ?thesis .
  qed
qed

lemma length_hex_text: "n < 16 ^ Suc k \<Longrightarrow> length (hex_text n) \<le> Suc k"
proof (induction k arbitrary: n)
  case (Suc k)
  then have "n div 16 < 16 ^ Suc k" by (simp add: less_mult_imp_div_less mult.commute)
  with Suc.IH [of "n div 16"] show ?case by (simp add: hex_text.simps [of n])
qed (simp add: hex_text.simps)

lemma hex_text_id:
  assumes "is_id a"
  shows "length (hex_text (nat a)) \<le> 40"
proof -
  have "int (nat a) < int (16 ^ Suc 39)"
    using assms by (simp add: is_id_def ring_def NBIT_def del: two_NBIT)
  then show ?thesis using length_hex_text [of "nat a" 39] unfolding of_nat_less_iff by simp
qed

lemma str2chordID_text:
  assumes "is_id a"
  shows "str2chordID (hex_text (nat a)) old = (True, a)"
  using assms hex_text_id [OF assms] by (simp add: str2chordID_def NBIT_def hex_loop_text is_id_def)

text \<open>
  the hexadecimal text of an identifier, which keys and team ids travel as, is read back
  by \<^verbatim>\<open>str2chordID\<close>: every identifier on the ring fits the 40 digits that it accepts.
\<close>

theorem str2chordID_hex_text:
  assumes "is_id a"
  shows "str2chordID (hex_text (nat a)) old = (True, a)"
  using assms by (rule str2chordID_text)

theorem str2chordID_hex_text_witness: "str2chordID (hex_text 48879) 0 = (True, 48879)"
  using str2chordID_hex_text [of 48879 0] by (simp add: is_id_def ring_def NBIT_def del: two_NBIT)

end
