(* ===== verification/Gossip_Node.thy ===== *)
theory Gossip_Node
  imports Merge_Correct Compression Chord_ID
begin

text \<open>
  One gossip peer of \<^verbatim>\<open>tools/gpsi.C\<close>: the globals that the gossip code reads and writes are a
  record, each function is a state transformer. \<open>None\<close> is undefined behaviour or a failed
  assertion. Messages handed to the DHT are returned as pairs of the destination identifier
  and the value. Outside the repository and therefore parameters: \<open>show_id\<close>, the text of a
  \<^verbatim>\<open>bigint\<close> as a string buffer prints it, and \<open>to_bits\<close> / \<open>of_bits\<close>, the memory
  representation of a \<^verbatim>\<open>double\<close>. Sequence numbers are unbounded integers.
\<close>

record 'd node =
  totalT :: "'d vecomap list"
  allT :: "'d vecomap"
  teamindex :: "(chordID, nat list) omap"
  txseq :: "int list"
  rxseq :: "int list"
  rxqseq :: "int list"
  closefd :: nat
  initphase :: bool
  vanilla :: bool
  bcast :: bool
  accept_anyround :: bool
  consume_failed_msgs :: bool
  gossipdone :: bool
  compress :: bool
  rounds :: int
  teamsize :: nat

type_synonym dht_msg = "chordID \<times> bytes"

subsection \<open>Teams of a peer\<close>

text \<open>\<^verbatim>\<open>NULL\<close>, the identifier 0, when no team has the index.\<close>

definition findteamid :: "(chordID, nat list) omap \<Rightarrow> nat \<Rightarrow> chordID" where
  "findteamid index tix =
     (case find (\<lambda>(k, ixs). tix \<in> set ixs) index of None \<Rightarrow> 0 | Some (k, _) \<Rightarrow> k)"

definition calcteamids :: "chordID list \<Rightarrow> (chordID, int) omap \<Rightarrow> (chordID, int) omap" where
  "calcteamids minhash teamidminhash =
     fold (\<lambda>h m. case omap_find m h of Some n \<Rightarrow> omap_put h (n + 1) m | None \<Rightarrow> omap_put h 1 m)
       minhash teamidminhash"

subsection \<open>Received lists\<close>

text \<open>The list made of a message; \<open>None\<close> when a frequency or weight is missing.\<close>

definition msg_list :: "sig list \<Rightarrow> 'd list \<Rightarrow> 'd list \<Rightarrow> 'd sigmap option" where
  "msg_list sigList freqList weightList =
     (if length sigList \<le> length freqList \<and> length sigList \<le> length weightList
      then Some (list_of_msg sigList freqList weightList) else None)"

definition add2vecomapv :: "sig list \<Rightarrow> 'd list \<Rightarrow> 'd list \<Rightarrow> ('d, 'z) node_scheme
    \<Rightarrow> ('d, 'z) node_scheme option" where
  "add2vecomapv sigList freqList weightList st =
     do { u \<leftarrow> msg_list sigList freqList weightList;
          case totalT st of
            [] \<Rightarrow> None
          | ts # rest \<Rightarrow> Some (st\<lparr>totalT := (ts @ [u]) # rest\<rparr>) }"

definition add2vecomapx :: "sig list \<Rightarrow> 'd list \<Rightarrow> 'd list \<Rightarrow> chordID \<Rightarrow> ('d, 'z) node_scheme
    \<Rightarrow> ('d, 'z) node_scheme option" where
  "add2vecomapx sigList freqList weightList teamID st =
     do { u \<leftarrow> msg_list sigList freqList weightList;
          case omap_find (teamindex st) teamID of
            Some (tind # _) \<Rightarrow>
              if tind < length (totalT st)
              then Some (st\<lparr>totalT := (totalT st)[tind := totalT st ! tind @ [u]]\<rparr>)
              else None
          | Some [] \<Rightarrow> None
          | None \<Rightarrow>
              if bcast st
              then Some (st\<lparr>totalT := totalT st @ [[u]],
                            teamindex := omap_put teamID [length (totalT st)] (teamindex st)\<rparr>)
              else Some st }"

subsection \<open>Init phase\<close>

text \<open>The next member of the team, wrapping from the last to the first, is told of \<open>s\<close> with
  frequency 0 and weight 1.\<close>

definition informteam :: "(chordID \<Rightarrow> bytes) \<Rightarrow> ('d :: {zero, one} \<Rightarrow> 64 word) \<Rightarrow> nat \<Rightarrow> chordID
    \<Rightarrow> chordID \<Rightarrow> sig \<Rightarrow> dht_msg list option" where
  "informteam show_id to_bits tsize myID teamID s =
     do { (idindex, team) \<leftarrow> make_team tsize myID teamID;
          if idindex = -1 then Some []
          else (let nextID = (if idindex = int (length team) - 1 then team ! 0
                              else team ! nat (idindex + 1))
                in do { value \<leftarrow> makeKeyValue_init (show_id nextID) (show_id teamID) (polys s)
                           (to_bits 0) (to_bits 1) INFORMTEAM;
                        Some [(nextID, value)] }) }"

text \<open>The team's vecomap, created with a list that holds only \<^verbatim>\<open>hldsig\<close> when it is new or
  empty.\<close>

definition team_vecomap :: "chordID \<Rightarrow> ('d :: {zero, one}, 'z) node_scheme
    \<Rightarrow> (nat \<times> ('d, 'z) node_scheme) option" where
  "team_vecomap teamID st =
     do { (tind, st) \<leftarrow>
            (case omap_find (teamindex st) teamID of
               Some (tind # _) \<Rightarrow> Some (tind, st)
             | Some [] \<Rightarrow> None
             | None \<Rightarrow>
                 Some (length (totalT st),
                       st\<lparr>teamindex := omap_put teamID [length (totalT st)] (teamindex st),
                          totalT := totalT st @ [[]]\<rparr>));
          if tind < length (totalT st)
          then Some (tind,
                 if totalT st ! tind = []
                 then st\<lparr>totalT := (totalT st)[tind := [[(hldsig, 0, 1)]]]\<rparr> else st)
          else None }"

definition initgossiprecv :: "(chordID \<Rightarrow> bytes) \<Rightarrow> ('d :: {zero, one, plus} \<Rightarrow> 64 word) \<Rightarrow> chordID
    \<Rightarrow> chordID \<Rightarrow> sig \<Rightarrow> 'd \<Rightarrow> 'd \<Rightarrow> ('d, 'z) node_scheme
    \<Rightarrow> (('d, 'z) node_scheme \<times> dht_msg list) option" where
  "initgossiprecv show_id to_bits ID teamID s freq weight st =
     do { (tind, st) \<leftarrow> team_vecomap teamID st;
          let ts = totalT st ! tind;
          let t = hd ts;
          let put = (\<lambda>t'. st\<lparr>totalT := (totalT st)[tind := t' # tl ts]\<rparr>);
          case omap_find t s of
            Some (f, w) \<Rightarrow>
              if s \<noteq> dummysig then Some (put (omap_put s (f + freq, w) t), [])
              else Some (st, [])
          | None \<Rightarrow>
              if s \<noteq> dummysig
              then (let t' = omap_put s (freq, weight) t
                    in if omap_find t dummysig = None
                       then do { sent \<leftarrow> informteam show_id to_bits (teamsize st) ID teamID dummysig;
                                 Some (put (omap_put dummysig (0, 1) t'), sent) }
                       else Some (put t', []))
              else do { sent \<leftarrow> informteam show_id to_bits (teamsize st) ID teamID s;
                        Some (put (omap_put s (freq, weight) t), sent) } }"

text \<open>Merging without gossip: frequencies add up, weights stay.\<close>

definition add_freq :: "sig \<times> 'd :: {one, plus} \<times> 'd \<Rightarrow> 'd sigmap \<Rightarrow> 'd sigmap" where
  "add_freq e m =
     (case e of (s, f, _) \<Rightarrow>
        case omap_find m s of
          Some (f', w') \<Rightarrow> omap_put s (f' + f, w') m
        | None \<Rightarrow> omap_put s (f, 1) m)"

definition mergeinit :: "('d :: {one, plus}, 'z) node_scheme \<Rightarrow> ('d, 'z) node_scheme option" where
  "mergeinit st =
     (if [] \<in> set (totalT st) then None
      else Some (st\<lparr>allT := [fold add_freq (concat (map hd (totalT st))) []]\<rparr>))"

text \<open>The indices of one team: the first is kept (unless it is 0, the initial value of
  \<^verbatim>\<open>mergeix\<close>), the lists of the others are added to it.\<close>

fun merge_team :: "nat list \<Rightarrow> nat \<Rightarrow> 'd :: {one, plus} vecomap list \<Rightarrow> (nat \<times> 'd vecomap list) option" where
  "merge_team [] mergeix tT = Some (mergeix, tT)"
| "merge_team (tix # tixs) mergeix tT =
     (if mergeix = 0 then merge_team tixs tix tT
      else if tix < length tT \<and> mergeix < length tT \<and> tT ! tix \<noteq> [] \<and> tT ! mergeix \<noteq> []
      then merge_team tixs mergeix
             (tT[mergeix := fold add_freq (hd (tT ! tix)) (hd (tT ! mergeix)) # tl (tT ! mergeix)])
      else None)"

fun mergebyteamid_loop :: "(chordID, nat list) omap \<Rightarrow> 'd :: {one, plus} vecomap list
    \<Rightarrow> ((chordID, nat list) omap \<times> 'd vecomap list) option" where
  "mergebyteamid_loop [] tT = Some ([], tT)"
| "mergebyteamid_loop ((k, tixs) # rest) tT =
     do { (mergeix, tT) \<leftarrow> merge_team tixs 0 tT;
          (rest, tT) \<leftarrow> mergebyteamid_loop rest tT;
          Some ((k, [mergeix]) # rest, tT) }"

definition mergebyteamid :: "('d :: {one, plus}, 'z) node_scheme \<Rightarrow> ('d, 'z) node_scheme option" where
  "mergebyteamid st =
     do { (index, tT) \<leftarrow> mergebyteamid_loop (teamindex st) (totalT st);
          Some (st\<lparr>teamindex := index, totalT := tT\<rparr>) }"

subsection \<open>After gossip is done\<close>

text \<open>The scan reads the dummies and advances the iterators as \<^verbatim>\<open>mergelists\<close> does, but writes
  nothing.\<close>

function nogossip_loop :: "'d :: {zero, plus} vecomap \<Rightarrow> 'd sigmap list \<Rightarrow> unit option" where
  "nogossip_loop ts citr =
     (case find_minsig citr of
        None \<Rightarrow> map_option (\<lambda>_. ()) (dummy_weights ts 0)
      | Some m \<Rightarrow>
          (case sum_entries m ts citr 0 0 of
             Some _ \<Rightarrow> nogossip_loop ts (map (advance m) citr)
           | None \<Rightarrow> None))"
  by pat_completeness auto
termination
  by (relation "measure (\<lambda>(ts, citr). sum_list (map length citr))")
    (use advance_total_less find_minsig_at in \<open>fastforce+\<close>)

declare nogossip_loop.simps [simp del]

definition mergelists_nogossip :: "bool \<Rightarrow> 'd :: {zero, plus} vecomap \<Rightarrow> 'd vecomap option" where
  "mergelists_nogossip is_vanilla ts =
     (let skip = (if is_vanilla then 1 else 2)
      in if length ts = 1 then Some ts
         else if list_all (\<lambda>t. skip \<le> length t) ts
         then map_option (\<lambda>_. take 1 ts) (nogossip_loop ts (map (drop skip) ts))
         else None)"

subsection \<open>Queries\<close>

record 'd query_result =
  sigmatches :: nat
  totalavg :: 'd
  minsim :: 'd
  avgsim :: 'd
  proxyminsim :: 'd
  proxyavgsim :: 'd

text \<open>\<open>proxy\<close> is \<^verbatim>\<open>gproxysig\<close> when \<^verbatim>\<open>useproxy\<close> is set.\<close>

definition superset_step :: "poly list \<Rightarrow> poly list option \<Rightarrow> sig \<times> 'd \<times> 'd
    \<Rightarrow> 'd :: {zero, one, plus, times, inverse, ord} query_result \<Rightarrow> 'd query_result option" where
  "superset_step querysig proxy e q =
     (case e of (s, f, w) \<Rightarrow>
        if fst (set_inter_noskip querysig (polys s)) = length querysig
        then do { (cursim, _) \<leftarrow> signcmp querysig (polys s);
                  let q = q\<lparr>sigmatches := sigmatches q + 1,
                            totalavg := totalavg q + f / w,
                            avgsim := avgsim q + cursim,
                            minsim := (if minsim q > cursim then cursim else minsim q)\<rparr>;
                  case proxy of
                    None \<Rightarrow> Some q
                  | Some gproxysig \<Rightarrow>
                      do { (psim, _) \<leftarrow> signcmp gproxysig (polys s);
                           Some (q\<lparr>proxyavgsim := proxyavgsim q + psim,
                                   proxyminsim := (if proxyminsim q > psim then psim
                                                   else proxyminsim q)\<rparr>) } }
        else Some q)"

fun superset_loop :: "poly list \<Rightarrow> poly list option \<Rightarrow> 'd sigmap
    \<Rightarrow> 'd :: {zero, one, plus, times, inverse, ord} query_result \<Rightarrow> 'd query_result option" where
  "superset_loop querysig proxy [] q = Some q"
| "superset_loop querysig proxy (e # m) q =
     do { q \<leftarrow> superset_step querysig proxy e q; superset_loop querysig proxy m q }"

text \<open>Returns -1 for another message type, then the averages are not divided.\<close>

definition run_query :: "nat \<Rightarrow> poly list \<Rightarrow> nat \<Rightarrow> 'd \<Rightarrow> InsertType \<Rightarrow> poly list option
    \<Rightarrow> ('d :: {zero, one, plus, times, inverse, ord}, 'z) node_scheme
    \<Rightarrow> (int \<times> 'd query_result) option" where
  "run_query tind querysig matches avg msgtype proxy st =
     (let q = \<lparr>sigmatches = matches, totalavg = avg, minsim = 1, avgsim = 0, proxyminsim = 1,
               proxyavgsim = 0\<rparr>;
          finish = (\<lambda>q. (0, q\<lparr>avgsim := avgsim q / dbl_of (sigmatches q),
                              proxyavgsim := proxyavgsim q / dbl_of (sigmatches q)\<rparr>))
      in if tind < length (totalT st) \<and> totalT st ! tind \<noteq> []
         then (let m = hd (totalT st ! tind)
               in if msgtype = QUERYS
                  then Some (case omap_find m (Sig querysig) of
                               Some (f, w) \<Rightarrow>
                                 finish (q\<lparr>sigmatches := sigmatches q + 1,
                                          totalavg := totalavg q + f / w\<rparr>)
                             | None \<Rightarrow> finish q)
                  else if msgtype = QUERYX \<or> msgtype = QUERYXP
                  then map_option finish (superset_loop querysig proxy m q)
                  else Some (-1, q))
         else None)"

text \<open>Over all lists, when the peer is not in the team: matches and averages accumulate.\<close>

fun run_query_all :: "nat list \<Rightarrow> poly list \<Rightarrow> nat \<Rightarrow> 'd \<Rightarrow> InsertType
    \<Rightarrow> ('d :: {zero, one, plus, times, inverse, ord}, 'z) node_scheme \<Rightarrow> (nat \<times> 'd) option" where
  "run_query_all [] querysig matches avg msgtype st = Some (matches, avg)"
| "run_query_all (i # is) querysig matches avg msgtype st =
     do { (_, q) \<leftarrow> run_query i querysig matches avg msgtype None st;
          run_query_all is querysig (sigmatches q) (totalavg q) msgtype st }"

subsection \<open>Reading a message\<close>

text \<open>The read loop: a chunk is \<open>None\<close> for a failed read and empty at the end of the
  stream. The length is taken from the first chunk.\<close>

datatype read_result = ReadFailed | NothingReceived | Received bytes | Blocked

fun read_loop :: "bytes option list \<Rightarrow> bytes \<Rightarrow> int \<Rightarrow> read_result option" where
  "read_loop [] totalbuf msglen = Some Blocked"
| "read_loop (None # chunks) totalbuf msglen = Some ReadFailed"
| "read_loop (Some buf # chunks) totalbuf msglen =
     (if buf = [] then Some NothingReceived
      else do { msglen \<leftarrow> (if msglen = 0 then getKeyValueLen buf else Some msglen);
                let totalbuf = totalbuf @ buf;
                if int (length totalbuf) < msglen then read_loop chunks totalbuf msglen
                else Some (Received totalbuf) })"

text \<open>What one call of \<^verbatim>\<open>readgossip\<close> does besides logging: the new state, the messages it
  sends, and the result of a query (matches and total average).\<close>

type_synonym ('d, 'z) handled =
  "('d, 'z) node_scheme \<times> dht_msg list \<times> (nat \<times> 'd) option"

definition close_fd :: "('d, 'z) node_scheme \<Rightarrow> ('d, 'z) node_scheme" where
  "close_fd st = st\<lparr>closefd := closefd st + 1\<rparr>"

text \<open>The lists of a gossip message: key, team, signatures, frequencies, weights, round. A
  compressed message is uncompressed before the result of \<^verbatim>\<open>getKeyValue\<close> is looked at, so
  that -1 leads to a use of the uninitialised \<^verbatim>\<open>numSigs\<close>.\<close>

definition read_lists :: "int \<Rightarrow> bytes \<Rightarrow> (int + bytes \<times> bytes \<times> poly list list \<times> 64 word list
    \<times> 64 word list \<times> int) option" where
  "read_lists msgtype gmsg =
     (if msgtype \<in> InsertType_code ` {BCAST, VXGOSSIP, XGOSSIP}
      then getKeyValue_exec gmsg (int (length gmsg))
      else do { r \<leftarrow> getKeyValue_comp gmsg (int (length gmsg));
                case r of
                  Inl e \<Rightarrow> None
                | Inr (key, teamid, compressedList, outBitmap, numSigs, fs, ws, seq) \<Rightarrow>
                    do { sigList \<leftarrow> uncompressSignatures [] compressedList outBitmap numSigs;
                         Some (Inr (key, teamid, sigList, fs, ws, seq)) } })"

text \<open>The round test: with \<^verbatim>\<open>accept_anyround\<close> off, only rounds at most one away.\<close>

definition round_ok :: "bool \<Rightarrow> int \<Rightarrow> int \<Rightarrow> bool" where
  "round_ok anyround seq cur =
     (let n = seq - cur
      in if n < 0 then anyround \<or> \<bar>n\<bar> = 1 else if n > 0 then anyround \<or> n = 1 else True)"

definition recv_gossip :: "(64 word \<Rightarrow> 'd) \<Rightarrow> int \<Rightarrow> bytes \<Rightarrow> ('d, 'z) node_scheme
    \<Rightarrow> ('d, 'z) handled option" where
  "recv_gossip of_bits msgtype gmsg st =
     (if initphase st then Some (st, [], None)
      else do { r \<leftarrow> read_lists msgtype gmsg;
                case r of
                  Inl e \<Rightarrow> Some (close_fd st, [], None)
                | Inr (key, keyteamid, sigList, freqList, weightList, seq) \<Rightarrow>
                    if txseq st = [] then None
                    else if \<not> round_ok (accept_anyround st) seq (last (txseq st))
                    then Some (st, [], None)
                    else (let st = st\<lparr>rxseq := rxseq st @ [seq]\<rparr>;
                              teamID = snd (str2chordID keyteamid 0);
                              sigs = map Sig sigList;
                              fs = map of_bits freqList;
                              ws = map of_bits weightList
                          in do { st \<leftarrow> (if msgtype \<in> InsertType_code ` {VXGOSSIP, VXGOSSIPC}
                                        then add2vecomapv sigs fs ws st
                                        else if msgtype \<in> InsertType_code ` {BCAST, BCASTC}
                                        then Some st
                                        else add2vecomapx sigs fs ws teamID st);
                                  Some (close_fd st, [], None) }) })"

definition recv_init :: "(chordID \<Rightarrow> bytes) \<Rightarrow> ('d :: {zero, one, plus} \<Rightarrow> 64 word)
    \<Rightarrow> (64 word \<Rightarrow> 'd) \<Rightarrow> bytes \<Rightarrow> ('d, 'z) node_scheme \<Rightarrow> ('d, 'z) handled option" where
  "recv_init show_id to_bits of_bits gmsg st =
     (if \<not> initphase st then Some (st, [], None)
      else do { r \<leftarrow> getKeyValue_init gmsg (int (length gmsg));
                case r of
                  Inl e \<Rightarrow> Some (close_fd st, [], None)
                | Inr (key, keyteamid, s, freq, weight) \<Rightarrow>
                    do { (st, sent) \<leftarrow> initgossiprecv show_id to_bits (snd (str2chordID key 0))
                           (snd (str2chordID keyteamid 0)) (Sig s) (of_bits freq) (of_bits weight) st;
                         Some (close_fd st, sent, None) } })"

definition recv_query :: "InsertType \<Rightarrow> bytes
    \<Rightarrow> ('d :: {zero, one, plus, times, inverse, ord}, 'z) node_scheme \<Rightarrow> ('d, 'z) handled option" where
  "recv_query msgtype gmsg st =
     do { r \<leftarrow> (if msgtype = QUERYS
               then map_option (map_sum id (\<lambda>(key, teamid, s, _, _). (teamid, s)))
                      (getKeyValue_init gmsg (int (length gmsg)))
               else map_option (map_sum id (\<lambda>(key, teamid, dtd, s, qid). (teamid, s)))
                      (getKeyValue_query gmsg (int (length gmsg))));
          case r of
            Inl e \<Rightarrow> Some (close_fd st, [], None)
          | Inr (keyteamid, querysig) \<Rightarrow>
              do { res \<leftarrow>
                     (if vanilla st
                      then map_option (\<lambda>(_, q). (sigmatches q, totalavg q))
                             (run_query 0 querysig 0 0 msgtype None st)
                      else (case omap_find (teamindex st) (snd (str2chordID keyteamid 0)) of
                              Some (tind # _) \<Rightarrow>
                                map_option (\<lambda>(_, q). (sigmatches q, totalavg q))
                                  (run_query tind querysig 0 0 msgtype None st)
                            | Some [] \<Rightarrow> None
                            | None \<Rightarrow>
                                run_query_all [0..<length (totalT st)] querysig 0 0 msgtype st));
                   if rxqseq st = [] then None
                   else Some (close_fd (st\<lparr>rxqseq := rxqseq st @ [last (rxqseq st) + 1]\<rparr>), [],
                              Some res) } }"

definition readgossip :: "(chordID \<Rightarrow> bytes) \<Rightarrow> ('d :: {zero, one, plus, times, inverse, ord} \<Rightarrow> 64 word)
    \<Rightarrow> (64 word \<Rightarrow> 'd) \<Rightarrow> bytes option list \<Rightarrow> ('d, 'z) node_scheme \<Rightarrow> ('d, 'z) handled option" where
  "readgossip show_id to_bits of_bits chunks st =
     do { r \<leftarrow> read_loop chunks [] 0;
          case r of
            ReadFailed \<Rightarrow> Some (close_fd st, [], None)
          | NothingReceived \<Rightarrow> Some (st, [], None)
          | Blocked \<Rightarrow> Some (st, [], None)
          | Received gmsg \<Rightarrow>
              do { msgtype \<leftarrow> getKeyValueType gmsg;
                   if msgtype \<in> InsertType_code ` {VXGOSSIP, VXGOSSIPC, XGOSSIP, XGOSSIPC, BCAST, BCASTC}
                   then recv_gossip of_bits msgtype gmsg st
                   else if msgtype \<in> InsertType_code ` {INITGOSSIP, INFORMTEAM}
                   then recv_init show_id to_bits of_bits gmsg st
                   else if msgtype = InsertType_code QUERYS then recv_query QUERYS gmsg st
                   else if msgtype = InsertType_code QUERYX then recv_query QUERYX gmsg st
                   else if msgtype = InsertType_code QUERYXP then recv_query QUERYXP gmsg st
                   else Some (close_fd st, [], None) } }"

end
