(* ===== verification/Dht_Client.thy ===== *)
theory Dht_Client
  imports Prelude
begin

text \<open>
  How \<^verbatim>\<open>tools/gpsi.C\<close> talks to the DHT: the callbacks \<^verbatim>\<open>store_cb\<close> and \<^verbatim>\<open>fetch_cb\<close> and the retry
  loop of \<^verbatim>\<open>insertDHT\<close>. The DHT itself answers asynchronously; an answer is the status the
  callback is called with, and a run is given by the sequence of answers. \<open>None\<close>: still
  waiting.
\<close>

datatype dhash_stat =
    DHASH_OK | DHASH_NOENT | DHASH_RETRY | RPC_NOHANDLER | DHASH_ERR | DHASH_CHORDERR
  | DHASH_RPCERR | DHASH_DBERR | DHASH_STORE_PARTIAL | DHASH_COMPLETE | DHASH_CONTINUE
  | DHASH_INVALIDVNODE | DHASH_RFETCHDONE | DHASH_RFETCHFORWARDED | DHASH_STORE_NOVERIFY
  | DHASH_STALE | DHASH_CACHED | DHASH_TIMEDOUT | DHASH_RETRIEVE_NOVERIFY | DHC_ERR
  | DHASH_INPROGRESS | DHASH_FIRST | DHASH_NOTFIRST | DHASH_FULL | DHASH_CORRUPTHDR
  | DHASH_RETRYINSERT

datatype DHTStatus =
  SUCC | FULL | FAIL | NODESPLIT | REINSERT | FIRST | NOTFIRST | CORRUPTHDR | RETRY

record insert_globals =
  insertStatus :: DHTStatus
  insertError :: bool
  out :: nat
  numWrites :: nat

definition store_cb :: "dhash_stat \<Rightarrow> insert_globals \<Rightarrow> insert_globals" where
  "store_cb status g =
     (let g = (if status = DHASH_NOTFIRST then g\<lparr>insertStatus := NOTFIRST\<rparr>
               else if status = DHASH_FULL then g\<lparr>insertStatus := FULL\<rparr>
               else if status = DHASH_RETRYINSERT then g\<lparr>insertStatus := RETRY\<rparr>
               else if status = DHASH_CORRUPTHDR then g\<lparr>insertStatus := CORRUPTHDR\<rparr>
               else if status \<noteq> DHASH_OK then g\<lparr>insertError := True\<rparr>
               else g\<lparr>numWrites := numWrites g + 1\<rparr>)
      in g\<lparr>out := out g + 1\<rparr>)"

text \<open>The guessed location is dropped (0) unless it passes this test. \<^verbatim>\<open>maxID\<close> is a global
  that the program never assigns, so it keeps its initial value 0.\<close>

definition maxID :: chordID where
  "maxID = 0"

definition insert_guess :: "chordID \<Rightarrow> chordID \<Rightarrow> chordID" where
  "insert_guess ID guess =
     (if guess < ID then (if maxID - ID + guess < ID - guess then guess else 0)
      else (if maxID - guess + ID < guess - ID then 0 else guess))"

fun insert_loop :: "dhash_stat list \<Rightarrow> int \<Rightarrow> int \<Rightarrow> insert_globals
    \<Rightarrow> (DHTStatus \<times> insert_globals) option" where
  "insert_loop [] numTries STOPCOUNT g = None"
| "insert_loop (answer # answers) numTries STOPCOUNT g =
     (let g = store_cb answer (g\<lparr>out := 0, insertError := False, insertStatus := SUCC\<rparr>)
      in if \<not> insertError g then Some (insertStatus g, g)
         else if numTries + 1 = STOPCOUNT then Some (FAIL, g)
         else insert_loop answers (numTries + 1) STOPCOUNT g)"

definition insertDHT :: "dhash_stat list \<Rightarrow> int \<Rightarrow> insert_globals \<Rightarrow> (DHTStatus \<times> insert_globals) option" where
  "insertDHT answers STOPCOUNT g = insert_loop answers 0 STOPCOUNT g"

subsection \<open>Retrieval\<close>

record retrieve_globals =
  retrieveStatus :: dhash_stat
  retrieveError :: bool
  myGuess :: chordID
  nodeEntries :: "bytes list"
  dataFetched :: nat
  numReads :: nat
  rout :: nat

record dhash_block =
  vData :: "bytes list"
  blk_data :: bytes

text \<open>The amount fetched is added up by indexing the accumulated entries from 0, as the code
  does, so entries of an earlier callback are counted in place of the new ones.\<close>

fun push_entries :: "nat \<Rightarrow> bytes list \<Rightarrow> retrieve_globals \<Rightarrow> retrieve_globals" where
  "push_entries i [] g = g"
| "push_entries i (e # es) g =
     (let entries = nodeEntries g @ [e]
      in push_entries (i + 1) es
           (g\<lparr>nodeEntries := entries, dataFetched := dataFetched g + length (entries ! i)\<rparr>))"

definition fetch_cb :: "dhash_stat \<Rightarrow> dhash_block option \<Rightarrow> chordID list \<Rightarrow> retrieve_globals
    \<Rightarrow> retrieve_globals" where
  "fetch_cb stat blk path g =
     (let g = g\<lparr>retrieveStatus := DHASH_OK, myGuess := 0\<rparr>
      in if stat \<noteq> DHASH_OK
         then g\<lparr>retrieveStatus := stat, retrieveError := True, rout := rout g + 1\<rparr>
         else (let g = (case blk of
                          None \<Rightarrow> g
                        | Some b \<Rightarrow>
                            (let g = g\<lparr>myGuess := (if path \<noteq> [] then last path else 0)\<rparr>;
                                 g = (if vData b \<noteq> [] then push_entries 0 (vData b) g
                                      else g\<lparr>nodeEntries := nodeEntries g @ [blk_data b]\<rparr>)
                             in g\<lparr>numReads := numReads g + 1\<rparr>))
               in g\<lparr>rout := rout g + 1\<rparr>))"

definition retrieve_guess :: "chordID \<Rightarrow> chordID \<Rightarrow> chordID" where
  "retrieve_guess keyID guess = (if guess < keyID then 0 else guess)"

text \<open>The wait loop polls at most 20 more times; \<open>answer\<close> is the callback's arguments and the
  poll in which it arrives.\<close>

definition retrieveDHT :: "chordID \<Rightarrow> (nat \<times> dhash_stat \<times> dhash_block option \<times> chordID list) option
    \<Rightarrow> retrieve_globals \<Rightarrow> retrieve_globals" where
  "retrieveDHT keyID answer g =
     (if push_bit 32 (drop_bit 32 keyID) = 0 then g\<lparr>retrieveError := True\<rparr>
      else (let g = g\<lparr>nodeEntries := [], rout := 0, retrieveError := False\<rparr>;
                g = (case answer of
                       Some (poll, stat, blk, path) \<Rightarrow>
                         if poll \<le> 20 then
                           (let g = fetch_cb stat blk path g
                            in if poll = 20 then g\<lparr>retrieveError := True\<rparr> else g)
                         else g\<lparr>retrieveError := True\<rparr>
                     | None \<Rightarrow> g\<lparr>retrieveError := True\<rparr>)
            in if \<not> retrieveError g \<and> nodeEntries g = [] then g\<lparr>retrieveError := True\<rparr> else g))"

subsection \<open>Properties\<close>

definition is_error :: "dhash_stat \<Rightarrow> bool" where
  "is_error s \<longleftrightarrow>
     s \<notin> {DHASH_OK, DHASH_NOTFIRST, DHASH_FULL, DHASH_RETRYINSERT, DHASH_CORRUPTHDR}"

lemma store_cb_error:
  "insertError (store_cb s (g\<lparr>out := 0, insertError := False, insertStatus := SUCC\<rparr>)) \<longleftrightarrow> is_error s"
  by (auto simp: store_cb_def is_error_def Let_def)

lemma insert_loop_spec:
  assumes "0 \<le> n" "length answers = k" "STOPCOUNT = n + int k" "0 < k"
  shows "\<exists>st g'. insert_loop (answers @ later) n STOPCOUNT g = Some (st, g')
    \<and> (st = FAIL \<longleftrightarrow> list_all is_error answers)"
  using assms
proof (induction answers arbitrary: n k g)
  case (Cons a answers)
  let ?g = "store_cb a (g\<lparr>out := 0, insertError := False, insertStatus := SUCC\<rparr>)"
  show ?case
  proof (cases "is_error a")
    case False
    then have "insertStatus ?g \<noteq> FAIL" by (auto simp: store_cb_def is_error_def Let_def)
    with False show ?thesis by (simp add: store_cb_error Let_def)
  next
    case True
    show ?thesis
    proof (cases "answers = []")
      case True
      with \<open>is_error a\<close> Cons.prems show ?thesis by (simp add: store_cb_error Let_def)
    next
      case False
      then have "\<exists>st g'. insert_loop (answers @ later) (n + 1) STOPCOUNT ?g = Some (st, g')
          \<and> (st = FAIL \<longleftrightarrow> list_all is_error answers)"
        using Cons.prems by (intro Cons.IH [of "n + 1" "k - 1"]) auto
      moreover have "n + 1 \<noteq> STOPCOUNT" using Cons.prems False by auto
      ultimately show ?thesis using True by (simp add: store_cb_error Let_def)
    qed
  qed
qed simp

text \<open>
  C39: \<^verbatim>\<open>insertDHT\<close> always returns. With a positive \<^verbatim>\<open>STOPCOUNT\<close> it needs at most that many
  answers of the DHT, and it reports \<^verbatim>\<open>FAIL\<close> exactly when all of them are errors (any status
  but OK, not-first, full, retry and corrupt header).
\<close>

theorem insertDHT_returns:
  assumes "0 < STOPCOUNT" "length answers = nat STOPCOUNT"
  shows "\<exists>status g'. insertDHT (answers @ later) STOPCOUNT g = Some (status, g')
    \<and> (status = FAIL \<longleftrightarrow> list_all is_error answers)"
  unfolding insertDHT_def using assms by (intro insert_loop_spec) auto

theorem insertDHT_returns_witness:
  "\<exists>status g'. insertDHT [DHASH_TIMEDOUT, DHASH_OK] 2
      \<lparr>insertStatus = SUCC, insertError = False, out = 0, numWrites = 0\<rparr> = Some (status, g')
    \<and> status \<noteq> FAIL"
  using insertDHT_returns [of 2 "[DHASH_TIMEDOUT, DHASH_OK]" "[]"
      "\<lparr>insertStatus = SUCC, insertError = False, out = 0, numWrites = 0\<rparr>"]
  by (simp add: is_error_def)

text \<open>
  The location guess of an insert is kept only when it does not lie behind the key:
  every guess above the identifier is dropped and every guess up to it is kept, the opposite
  of the successor test that the comment announces, because \<^verbatim>\<open>maxID\<close> is never set.
\<close>

theorem insert_guess_keeps_predecessors:
  "insert_guess ID guess = (if guess \<le> ID then guess else 0)"
  by (auto simp: insert_guess_def maxID_def)

end
