(* ===== verification/Gossip_Rounds.thy ===== *)
theory Gossip_Rounds
  imports Gossip_Node Dht_Client
begin

text \<open>
  The rounds of the execution phase in \<^verbatim>\<open>main\<close> of \<^verbatim>\<open>tools/gpsi.C\<close>, VanillaXGossip and XGossip.
  While a round waits for the DHT or sleeps, \<^verbatim>\<open>readgossip\<close> may run, so a round is cut there:
  the merge, the message that is handed to \<^verbatim>\<open>insertDHT\<close>, and what follows its result. Random
  choices (the identifier, the column of the team) are arguments.
\<close>

subsection \<open>The list as a message\<close>

definition list_message :: "('d \<Rightarrow> 64 word) \<Rightarrow> bool \<Rightarrow> bytes \<Rightarrow> bytes \<Rightarrow> 'd sigmap \<Rightarrow> int
    \<Rightarrow> InsertType \<Rightarrow> InsertType \<Rightarrow> bytes option" where
  "list_message to_bits cflag key teamid t seq type ctype =
     (if cflag
      then do { (sigList, freqList, weightList) \<leftarrow> vecomap2vec [t] 0;
                let (compressedList, outBitmap) =
                  (case compressSignatures (map polys sigList) of
                     Some r \<Rightarrow> r | None \<Rightarrow> ([], []));
                makeKeyValue_comp key teamid compressedList outBitmap (map to_bits freqList)
                  (map to_bits weightList) seq ctype }
      else makeKeyValue_exec key teamid (map (\<lambda>(s, f, w). (polys s, to_bits f, to_bits w)) t)
             seq type)"

subsection \<open>VanillaXGossip\<close>

definition check_done :: "('d, 'z) node_scheme \<Rightarrow> ('d, 'z) node_scheme" where
  "check_done st =
     (if last (txseq st) = rounds st \<and> \<not> gossipdone st then st\<lparr>gossipdone := True\<rparr> else st)"

definition merge_slot :: "('d :: {zero, one, plus, times, inverse}, 'z) node_scheme \<Rightarrow> 'd vecomap
    \<Rightarrow> 'd vecomap option" where
  "merge_slot st ts =
     (if \<not> gossipdone st then mergelists (vanilla st) ts else mergelists_nogossip (vanilla st) ts)"

definition vx_merge :: "('d :: {zero, one, plus, times, inverse}, 'z) node_scheme
    \<Rightarrow> ('d, 'z) node_scheme option" where
  "vx_merge st =
     (if txseq st = [] then None
      else (let st = check_done st
            in case totalT st of
                 [] \<Rightarrow> None
               | ts # rest \<Rightarrow>
                   do { ts' \<leftarrow> merge_slot st ts; Some (st\<lparr>totalT := ts' # rest\<rparr>) }))"

definition vx_message :: "(chordID \<Rightarrow> bytes) \<Rightarrow> ('d \<Rightarrow> 64 word) \<Rightarrow> chordID \<Rightarrow> ('d, 'z) node_scheme
    \<Rightarrow> dht_msg option option" where
  "vx_message show_id to_bits ID st =
     (if gossipdone st then Some None
      else if txseq st = [] \<or> totalT st = [] \<or> hd (totalT st) = [] then None
      else do { value \<leftarrow> list_message to_bits (compress st) (show_id ID) (show_id ID)
                  (hd (hd (totalT st))) (last (txseq st)) VXGOSSIP VXGOSSIPC;
                Some (Some (ID, value)) })"

text \<open>A failed insert is taken back: the own list is doubled.\<close>

definition slot_result :: "DHTStatus \<Rightarrow> nat \<Rightarrow> ('d :: {zero, one, plus, times, inverse}, 'z) node_scheme
    \<Rightarrow> ('d, 'z) node_scheme option" where
  "slot_result status i st =
     (if \<not> gossipdone st \<and> status \<noteq> SUCC \<and> consume_failed_msgs st
      then (if i < length (totalT st)
            then do { ts \<leftarrow> multiplyfreq (totalT st ! i) 0 2 2;
                      Some (st\<lparr>totalT := (totalT st)[i := ts]\<rparr>) }
            else None)
      else Some st)"

definition end_round :: "('d, 'z) node_scheme \<Rightarrow> ('d, 'z) node_scheme option" where
  "end_round st =
     (if txseq st = [] then None else Some (st\<lparr>txseq := txseq st @ [last (txseq st) + 1]\<rparr>))"

definition vx_result :: "DHTStatus \<Rightarrow> ('d :: {zero, one, plus, times, inverse}, 'z) node_scheme
    \<Rightarrow> ('d, 'z) node_scheme option" where
  "vx_result status st = Option.bind (slot_result status 0 st) end_round"

subsection \<open>XGossip\<close>

primrec merge_all :: "('d :: {zero, one, plus, times, inverse}, 'z) node_scheme \<Rightarrow> 'd vecomap list
    \<Rightarrow> 'd vecomap list option" where
  "merge_all st [] = Some []"
| "merge_all st (ts # rest) =
     do { ts' \<leftarrow> merge_slot st ts; rest' \<leftarrow> merge_all st rest; Some (ts' # rest') }"

definition xg_merge :: "('d :: {zero, one, plus, times, inverse}, 'z) node_scheme
    \<Rightarrow> ('d, 'z) node_scheme option" where
  "xg_merge st =
     (if txseq st = [] then None
      else (let st = check_done st
            in do { tT \<leftarrow> merge_all st (totalT st); Some (st\<lparr>totalT := tT\<rparr>) }))"

text \<open>The message for list \<open>i\<close>, to the member of its team in column \<^verbatim>\<open>randcol\<close>. A list whose
  team identifier is not found, or is 0, is skipped.\<close>

definition xg_message :: "(chordID \<Rightarrow> bytes) \<Rightarrow> ('d \<Rightarrow> 64 word) \<Rightarrow> nat \<Rightarrow> nat \<Rightarrow> ('d, 'z) node_scheme
    \<Rightarrow> dht_msg option option" where
  "xg_message show_id to_bits i randcol st =
     (if gossipdone st then Some None
      else (let teamID = findteamid (teamindex st) i
            in if teamID = 0 then Some None
               else do { (_, team) \<leftarrow> make_team (teamsize st) 0 teamID;
                         if randcol < length team \<and> i < length (totalT st) \<and> totalT st ! i \<noteq> []
                           \<and> txseq st \<noteq> []
                         then do { value \<leftarrow> list_message to_bits (compress st) (show_id (team ! randcol))
                                     (show_id (team ! 0)) (hd (totalT st ! i)) (last (txseq st))
                                     XGOSSIP XGOSSIPC;
                                   Some (Some (team ! randcol, value)) }
                         else None }))"

definition xg_result :: "nat \<Rightarrow> DHTStatus \<Rightarrow> ('d :: {zero, one, plus, times, inverse}, 'z) node_scheme
    \<Rightarrow> ('d, 'z) node_scheme option" where
  "xg_result i status st = slot_result status i st"

subsection \<open>Reading in chunks\<close>

lemma rd_str_prefix: "p + n \<le> int (length a) \<Longrightarrow> rd_str (a @ b) p n = rd_str a p n"
  by (auto simp: rd_str_def nat_add_distrib)

lemma getKeyValueLen_prefix: "8 \<le> length a \<Longrightarrow> getKeyValueLen (a @ b) = getKeyValueLen a"
  by (simp add: getKeyValueLen_def rd_int_def rd_def rd_str_prefix)

lemma read_loop_rest:
  assumes "\<forall>b \<in> set bufs. b \<noteq> []" "bufs \<noteq> []" "len \<noteq> 0"
    and "len = int (length tot + length (concat bufs))"
  shows "read_loop (map Some bufs) tot len = Some (Received (tot @ concat bufs))"
  using assms
proof (induction bufs arbitrary: tot)
  case (Cons b bufs)
  show ?case
  proof (cases "bufs = []")
    case True
    with Cons.prems show ?thesis by (simp add: Let_def)
  next
    case False
    then have "length (concat bufs) > 0" using Cons.prems(1) by (cases bufs) auto
    then have lt: "int (length (tot @ b)) < len" using Cons.prems(4) by simp
    have "read_loop (map Some bufs) (tot @ b) len = Some (Received ((tot @ b) @ concat bufs))"
      using False Cons.prems by (intro Cons.IH) simp_all
    with lt Cons.prems(1,3) show ?thesis by (simp add: Let_def)
  qed
qed simp

lemma read_loop_chunks:
  assumes "getKeyValueLen m = Some (int (length m))" "m = concat bufs"
    and "bufs \<noteq> []" "\<forall>b \<in> set bufs. b \<noteq> []" "8 \<le> length (hd bufs)"
  shows "read_loop (map Some bufs) [] 0 = Some (Received m)"
proof -
  obtain b rest where bufs: "bufs = b # rest" using assms(3) by (cases bufs) auto
  have len: "getKeyValueLen b = Some (int (length m))"
    using assms getKeyValueLen_prefix [of b "concat rest"] by (simp add: bufs)
  show ?thesis
  proof (cases "rest = []")
    case True
    with len assms show ?thesis by (simp add: bufs Let_def)
  next
    case False
    then have "length (concat rest) > 0" using assms(4) by (cases rest) (auto simp: bufs)
    with False len assms show ?thesis
      by (simp add: bufs Let_def read_loop_rest)
  qed
qed

subsection \<open>A list arrives as it was sent\<close>

lemma list_of_msg_entries:
  assumes "omap_wf t"
  shows "list_of_msg (map fst t) (map (fst \<circ> snd) t) (map (snd \<circ> snd) t) = t"
proof -
  have zip: "zip (map fst t) (zip (map (fst \<circ> snd) t) (map (snd \<circ> snd) t)) = t"
    by (induction t) auto
  show ?thesis
    unfolding list_of_msg_def zip
    using sm.entries_unique [OF sm.wf_push_all [OF sm.wf_empty], of t t] assms
    by (simp add: sm.find_push_all sm.wf_empty sm.find_empty omap_wf_def)
qed

lemma msg_list_entries:
  "omap_wf t \<Longrightarrow> msg_list (map fst t) (map (fst \<circ> snd) t) (map (snd \<circ> snd) t) = Some t"
  by (simp add: msg_list_def list_of_msg_entries)

text \<open>The length a list's message needs.\<close>

definition message_len :: "bool \<Rightarrow> bytes \<Rightarrow> bytes \<Rightarrow> 'd sigmap \<Rightarrow> nat" where
  "message_len cflag key teamid t =
     (if cflag
      then comp_len 8 key teamid (length (case compressSignatures (map (polys \<circ> fst) t) of
             Some r \<Rightarrow> fst r | None \<Rightarrow> [])) (length t)
      else exec_len key teamid (map (\<lambda>(s, _). (polys s, 0, 0)) t))"

definition list_wire_ok :: "'d sigmap \<Rightarrow> bool" where
  "list_wire_ok t \<longleftrightarrow> omap_wf t \<and> t \<noteq> [] \<and> (\<forall>e \<in> set t. polys (fst e) \<noteq> [])"

lemma read_message:
  fixes t :: "'d sigmap"
  assumes wire: "list_wire_ok t" and len: "message_len cflag key teamid t < 2 ^ 31"
    and seq: "int32 seq" and types: "type \<in> {VXGOSSIP, XGOSSIP}" "ctype \<in> {VXGOSSIPC, XGOSSIPC}"
  shows "\<exists>m. list_message to_bits cflag key teamid t seq type ctype = Some m
    \<and> getKeyValueType m = Some (InsertType_code (if cflag then ctype else type))
    \<and> getKeyValueLen m = Some (int (length m))
    \<and> read_lists (InsertType_code (if cflag then ctype else type)) m
        = Some (Inr (key, teamid, map (polys \<circ> fst) t, map (to_bits \<circ> fst \<circ> snd) t,
            map (to_bits \<circ> snd \<circ> snd) t, seq))"
proof (cases cflag)
  case True
  let ?sigs = "map (polys \<circ> fst) t"
  have "?sigs \<noteq> []" "[] \<notin> set ?sigs" using wire by (auto simp: list_wire_ok_def)
  then obtain cs bms where c: "compressSignatures ?sigs = Some (cs, bms)" "length cs = length bms"
    "\<forall>b \<in> set bms. int (length b) = bitmap_len (int (length ?sigs))"
    "uncompressSignatures [] cs bms (int (length ?sigs)) = Some ?sigs"
    using compress_uncompress by blast
  obtain m where "makeKeyValue_comp key teamid cs bms (map (to_bits \<circ> fst \<circ> snd) t)
      (map (to_bits \<circ> snd \<circ> snd) t) seq ctype = Some m"
    "received getKeyValue_comp ctype m (key, teamid, cs, bms, int (length t),
      map (to_bits \<circ> fst \<circ> snd) t, map (to_bits \<circ> snd \<circ> snd) t, seq)"
    using comp_message_received [of "map (to_bits \<circ> fst \<circ> snd) t" "map (to_bits \<circ> snd \<circ> snd) t"
        cs bms key teamid seq ctype] c len seq True
    by (auto simp: message_len_def)
  then show ?thesis
    using True c types
    by (intro exI [of _ m])
      (auto simp: list_message_def vecomap2vec_def Let_def received_def read_lists_def comp_def)
next
  case False
  let ?es = "map (\<lambda>(s, f, w). (polys s, to_bits f, to_bits w)) t"
  have "exec_len key teamid ?es = exec_len key teamid (map (\<lambda>(s, _). (polys s, 0, 0)) t)"
    by (simp add: exec_len_def o_def case_prod_beta)
  then have "exec_len key teamid ?es < 2 ^ 31" using len False by (simp add: message_len_def)
  then obtain m where "makeKeyValue_exec key teamid ?es seq type = Some m"
    "received getKeyValue_exec type m
      (key, teamid, map fst ?es, map (fst \<circ> snd) ?es, map (snd \<circ> snd) ?es, seq)"
    using exec_message_received [OF _ seq] by blast
  then show ?thesis
    using False types
    by (intro exI [of _ m])
      (auto simp: list_message_def received_def read_lists_def comp_def case_prod_beta)
qed

text \<open>A message cut into non-empty chunks, the first of which holds the length field.\<close>

definition chunked :: "bytes \<Rightarrow> bytes list \<Rightarrow> bool" where
  "chunked m bufs \<longleftrightarrow>
     m = concat bufs \<and> bufs \<noteq> [] \<and> (\<forall>b \<in> set bufs. b \<noteq> []) \<and> 8 \<le> length (hd bufs)"

definition bits_ok :: "('d \<Rightarrow> 64 word) \<Rightarrow> (64 word \<Rightarrow> 'd) \<Rightarrow> 'd sigmap \<Rightarrow> bool" where
  "bits_ok to_bits of_bits t \<longleftrightarrow>
     (\<forall>(s, f, w) \<in> set t. of_bits (to_bits f) = f \<and> of_bits (to_bits w) = w)"

lemma bits_ok_maps:
  assumes "bits_ok to_bits of_bits t"
  shows "map of_bits (map (to_bits \<circ> fst \<circ> snd) t) = map (fst \<circ> snd) t"
    and "map of_bits (map (to_bits \<circ> snd \<circ> snd) t) = map (snd \<circ> snd) t"
  using assms by (auto simp: bits_ok_def)

lemma map_Sig_polys: "map Sig (map (polys \<circ> fst) t) = map fst t"
  by simp

lemma readgossip_exec:
  assumes "chunked m bufs" "getKeyValueLen m = Some (int (length m))"
    and "getKeyValueType m = Some (InsertType_code type)"
    and "type \<in> {VXGOSSIP, VXGOSSIPC, XGOSSIP, XGOSSIPC}"
  shows "readgossip show_id to_bits of_bits (map Some bufs) st
      = recv_gossip of_bits (InsertType_code type) m st"
proof -
  have "read_loop (map Some bufs) [] 0 = Some (Received m)"
    using read_loop_chunks [OF assms(2)] assms(1) unfolding chunked_def by blast
  with assms(3,4) show ?thesis by (auto simp: readgossip_def)
qed

lemma recv_gossip_lists:
  assumes "\<not> initphase st" "txseq st \<noteq> []"
    and "read_lists msgtype m = Some (Inr (key, teamid, sigs, fs, ws, seq))"
    and "round_ok (accept_anyround st) seq (last (txseq st))"
  shows "recv_gossip of_bits msgtype m st =
      map_option (\<lambda>st. (close_fd st, [], None))
        (let st = st\<lparr>rxseq := rxseq st @ [seq]\<rparr>
         in if msgtype \<in> InsertType_code ` {VXGOSSIP, VXGOSSIPC}
            then add2vecomapv (map Sig sigs) (map of_bits fs) (map of_bits ws) st
            else if msgtype \<in> InsertType_code ` {BCAST, BCASTC} then Some st
            else add2vecomapx (map Sig sigs) (map of_bits fs) (map of_bits ws)
                   (snd (str2chordID teamid 0)) st)"
  using assms by (simp add: recv_gossip_def Let_def map_conv_bind_option comp_def)

text \<open>A peer in round 2 of the execution phase, for concrete runs.\<close>

definition sample_node :: "'d vecomap list \<Rightarrow> 'd node" where
  "sample_node tT =
     \<lparr>totalT = tT, allT = [], teamindex = [], txseq = [0, 1, 2], rxseq = [], rxqseq = [0],
      closefd = 0, initphase = False, vanilla = True, bcast = False, accept_anyround = True,
      consume_failed_msgs = True, gossipdone = False, compress = False, rounds = -1,
      teamsize = 4\<rparr>"

text \<open>
  C3: a VanillaXGossip list arrives as it was sent. The own list of a peer, laid out as a
  message, compressed or not, and read by another peer in the execution phase in any chunks
  (the first of at least 8 bytes), is appended to the receiver's lists unchanged, and its
  round recorded; the exchange involves no undefined behaviour.
\<close>

theorem vanilla_list_delivered:
  fixes t :: "'d :: {zero, one, plus, times, inverse, ord} sigmap"
  assumes "list_wire_ok t" "message_len cflag key key t < 2 ^ 31" "int32 seq"
    and bits: "bits_ok to_bits of_bits t"
    and recv: "\<not> initphase st" "txseq st \<noteq> []" "totalT st = ts # rest"
      "round_ok (accept_anyround st) seq (last (txseq st))"
  shows "\<exists>m. list_message to_bits cflag key key t seq VXGOSSIP VXGOSSIPC = Some m
    \<and> (\<forall>bufs. chunked m bufs \<longrightarrow>
         readgossip show_id to_bits of_bits (map Some bufs) st
       = Some (close_fd (st\<lparr>rxseq := rxseq st @ [seq], totalT := (ts @ [t]) # rest\<rparr>), [], None))"
proof -
  let ?type = "if cflag then VXGOSSIPC else VXGOSSIP"
  obtain m where m: "list_message to_bits cflag key key t seq VXGOSSIP VXGOSSIPC = Some m"
    "getKeyValueType m = Some (InsertType_code ?type)" "getKeyValueLen m = Some (int (length m))"
    "read_lists (InsertType_code ?type) m = Some (Inr (key, key, map (polys \<circ> fst) t,
      map (to_bits \<circ> fst \<circ> snd) t, map (to_bits \<circ> snd \<circ> snd) t, seq))"
    using read_message [OF assms(1-3), of VXGOSSIP VXGOSSIPC to_bits] by auto
  have "omap_wf t" using assms(1) by (simp add: list_wire_ok_def)
  then have "recv_gossip of_bits (InsertType_code ?type) m st
      = Some (close_fd (st\<lparr>rxseq := rxseq st @ [seq], totalT := (ts @ [t]) # rest\<rparr>), [], None)"
    unfolding recv_gossip_lists [OF recv(1,2) m(4) recv(4)] bits_ok_maps [OF bits] map_Sig_polys
    by (simp add: add2vecomapv_def msg_list_entries recv Let_def)
  then show ?thesis using m(1-3) readgossip_exec [of m _ ?type show_id to_bits of_bits st] by (cases cflag) auto
qed

theorem vanilla_list_delivered_witness:
  "\<exists>m. list_message (\<lambda>x :: rat. if x = 0 then 0 else 1) False [65] [65] [(Sig [1], 0, 1), (Sig [5], 1, 1)] 2
        VXGOSSIP VXGOSSIPC = Some m
    \<and> (\<forall>bufs. chunked m bufs \<longrightarrow>
         readgossip (\<lambda>_. []) (\<lambda>x. if x = 0 then 0 else 1) (\<lambda>b. if b = 0 then 0 else (1 :: rat))
           (map Some bufs) (sample_node [[]])
       = Some (close_fd ((sample_node [[]])\<lparr>rxseq := [2], totalT := [[[(Sig [1], 0, 1), (Sig [5], 1, 1)]]]\<rparr>),
           [], None))"
proof -
  let ?t = "[(Sig [1], 0, 1), (Sig [5], 1, 1)] :: rat sigmap"
  let ?st = "sample_node [[]] :: rat node"
  have "list_wire_ok ?t" by (simp add: list_wire_ok_def omap_wf_def less_sig_def CompareSig_def)
  moreover have "message_len False [65] [65] ?t < 2 ^ 31" by (simp add: message_len_def exec_len_def)
  moreover have "bits_ok (\<lambda>x. if x = 0 then 0 else 1) (\<lambda>b. if b = 0 then 0 else 1) ?t"
    by (simp add: bits_ok_def)
  ultimately show ?thesis
    using vanilla_list_delivered [of ?t False "[65]" 2 "\<lambda>x. if x = 0 then 0 else 1"
        "\<lambda>b. if b = 0 then 0 else 1" ?st "[]" "[]" "\<lambda>_. []"]
    by (simp add: sample_node_def int32_def round_ok_def)
qed

text \<open>
  C4: an XGossip list arrives as it was sent, at a peer that knows the team: it is appended
  to the lists at the team's index, which \<^verbatim>\<open>str2chordID\<close> recovers from the team's text. A peer
  that does not know the team, outside broadcast mode, drops the list.
\<close>

theorem xgossip_list_delivered:
  fixes t :: "'d :: {zero, one, plus, times, inverse, ord} sigmap"
  assumes "list_wire_ok t" "is_id teamID" "message_len cflag key (hex_text (nat teamID)) t < 2 ^ 31"
    and "int32 seq" "bits_ok to_bits of_bits t" "\<not> initphase st" "txseq st \<noteq> []"
      "round_ok (accept_anyround st) seq (last (txseq st))"
  shows "\<exists>m. list_message to_bits cflag key (hex_text (nat teamID)) t seq XGOSSIP XGOSSIPC = Some m
    \<and> (\<forall>bufs tind ixs. chunked m bufs \<and> omap_find (teamindex st) teamID = Some (tind # ixs)
         \<and> tind < length (totalT st) \<longrightarrow>
         readgossip show_id to_bits of_bits (map Some bufs) st
       = Some (close_fd (st\<lparr>rxseq := rxseq st @ [seq],
            totalT := (totalT st)[tind := totalT st ! tind @ [t]]\<rparr>), [], None))
    \<and> (\<forall>bufs. chunked m bufs \<and> omap_find (teamindex st) teamID = None \<and> \<not> bcast st \<longrightarrow>
         readgossip show_id to_bits of_bits (map Some bufs) st
       = Some (close_fd (st\<lparr>rxseq := rxseq st @ [seq]\<rparr>), [], None))"
proof -
  let ?type = "if cflag then XGOSSIPC else XGOSSIP"
  obtain m where m: "list_message to_bits cflag key (hex_text (nat teamID)) t seq XGOSSIP XGOSSIPC
      = Some m"
    "getKeyValueType m = Some (InsertType_code ?type)" "getKeyValueLen m = Some (int (length m))"
    "read_lists (InsertType_code ?type) m = Some (Inr (key, hex_text (nat teamID),
      map (polys \<circ> fst) t, map (to_bits \<circ> fst \<circ> snd) t, map (to_bits \<circ> snd \<circ> snd) t, seq))"
    using read_message [OF assms(1,3,4), of XGOSSIP XGOSSIPC to_bits] by auto
  have "omap_wf t" using assms(1) by (simp add: list_wire_ok_def)
  moreover have "snd (str2chordID (hex_text (nat teamID)) 0) = teamID"
    using str2chordID_text [OF assms(2)] by simp
  ultimately have "recv_gossip of_bits (InsertType_code ?type) m st
      = map_option (\<lambda>st. (close_fd st, [], None))
          (add2vecomapx (map fst t) (map (fst \<circ> snd) t) (map (snd \<circ> snd) t) teamID
            (st\<lparr>rxseq := rxseq st @ [seq]\<rparr>))"
    unfolding recv_gossip_lists [OF assms(6,7) m(4) assms(8)] bits_ok_maps [OF assms(5)] map_Sig_polys
    by (simp add: Let_def)
  then show ?thesis
    using m(1-3) readgossip_exec [of m _ ?type show_id to_bits of_bits st] msg_list_entries [OF \<open>omap_wf t\<close>]
    by (cases cflag) (auto simp: add2vecomapx_def)
qed

theorem xgossip_list_delivered_witness:
  "\<exists>m. list_message (\<lambda>x :: rat. if x = 0 then 0 else 1) False [65] (hex_text 9) [(Sig [0], 0, 1), (Sig [1], 0, 1)] 2
        XGOSSIP XGOSSIPC = Some m
    \<and> (\<forall>bufs. chunked m bufs \<longrightarrow>
         readgossip (\<lambda>_. []) (\<lambda>x. if x = 0 then 0 else 1) (\<lambda>b. if b = 0 then 0 else (1 :: rat))
           (map Some bufs) ((sample_node [[]])\<lparr>teamindex := [(9, [0])]\<rparr>)
       = Some (close_fd ((sample_node [[]])\<lparr>teamindex := [(9, [0])], rxseq := [2],
           totalT := [[[(Sig [0], 0, 1), (Sig [1], 0, 1)]]]\<rparr>), [], None))"
proof -
  let ?t = "[(Sig [0], 0, 1), (Sig [1], 0, 1)] :: rat sigmap"
  let ?st = "(sample_node [[]] :: rat node)\<lparr>teamindex := [(9, [0])]\<rparr>"
  have "list_wire_ok ?t" by (simp add: list_wire_ok_def omap_wf_def less_sig_def CompareSig_def)
  moreover have "is_id 9" by (simp add: is_id_def ring_def NBIT_def del: two_NBIT)
  moreover have "message_len False [65] (hex_text (nat 9)) ?t < 2 ^ 31"
    by (simp add: message_len_def exec_len_def hex_text.simps)
  moreover have "bits_ok (\<lambda>x. if x = 0 then 0 else 1) (\<lambda>b. if b = 0 then 0 else 1) ?t"
    by (simp add: bits_ok_def)
  ultimately show ?thesis
    using xgossip_list_delivered [of ?t 9 False "[65]" 2 "\<lambda>x. if x = 0 then 0 else 1"
        "\<lambda>b. if b = 0 then 0 else 1" ?st "\<lambda>_. []"]
    by (simp add: sample_node_def int32_def round_ok_def omap_find_def)
qed

end
