(* ===== verification/Node_Correct.thy ===== *)
theory Node_Correct
  imports Gossip_Rounds
begin

text \<open>
  What the handlers of a peer guarantee: the init phase builds well-formed team lists and
  counts every announced frequency, queries sum up exactly the matching signatures, and
  discarded messages.
\<close>

subsection \<open>Init phase\<close>

text \<open>The teams of a peer: each has its own index, and the list there is well formed.\<close>

definition teams_ok :: "(chordID, nat list) omap \<Rightarrow> nat \<Rightarrow> bool" where
  "teams_ok index n \<longleftrightarrow>
     omap_wf index \<and> (\<forall>k ixs. omap_find index k = Some ixs \<longrightarrow> (\<exists>i < n. ixs = [i]))
   \<and> (\<forall>k k' ixs. omap_find index k = Some ixs \<and> omap_find index k' = Some ixs \<longrightarrow> k = k')"

definition init_ok :: "('d :: zero, 'z) node_scheme \<Rightarrow> bool" where
  "init_ok st \<longleftrightarrow>
     teams_ok (teamindex st) (length (totalT st))
   \<and> (\<forall>ts \<in> set (totalT st). \<exists>t. ts = [t] \<and> gossip_wf False t)"

text \<open>The list a peer keeps for a team.\<close>

definition team_list :: "('d, 'z) node_scheme \<Rightarrow> chordID \<Rightarrow> 'd sigmap option" where
  "team_list st teamID =
     (case omap_find (teamindex st) teamID of
        Some (i # _) \<Rightarrow> if i < length (totalT st) \<and> totalT st ! i \<noteq> [] then Some (hd (totalT st ! i)) else None
      | _ \<Rightarrow> None)"

definition freq_of :: "'d :: zero sigmap option \<Rightarrow> sig \<Rightarrow> 'd" where
  "freq_of m s = (case m of None \<Rightarrow> 0 | Some t \<Rightarrow> (case omap_find t s of None \<Rightarrow> 0 | Some (f, _) \<Rightarrow> f))"

lemma omap_put_same:
  assumes "omap_wf m" "omap_find m k = Some v"
  shows "omap_put k v m = m"
proof (rule sm.entries_unique)
  show "omap_wf (omap_put k v m)" "sorted_wrt (<) (map fst m)"
    using assms by (simp_all add: omap_wf_put) (simp add: omap_wf_def)
  show "omap_find (omap_put k v m) x = map_of m x" for x
    using assms by (simp add: omap_find_put) (simp add: omap_find_def)
qed

lemma gossip_wf_put:
  assumes "gossip_wf False t \<or> t = [(hldsig, 0, 1)]" "hldsig < s" "s = dummysig \<longrightarrow> fst fw = 0"
    and "gossip_wf False t \<or> s = dummysig \<or> d" "t' = omap_put s fw t"
  shows "gossip_wf False (if d then omap_put dummysig (0, 1) t' else t')"
proof -
  have wf: "omap_wf t" and h: "hldsig \<in> omap_keys t" "\<forall>k \<in> omap_keys t. hldsig \<le> k"
    using assms(1) by (auto simp: gossip_wf_iff_keys omap_wf_def omap_keys_def)
  note ds = dummysig_hldsig_order
  show ?thesis
    using assms wf h ds
    by (cases fw; cases "s = dummysig")
      (auto simp: gossip_wf_iff_keys omap_keys_put omap_find_put omap_wf_put)
qed

text \<open>What \<^verbatim>\<open>informteam\<close> sends: a member of the team tells the next member, wrapping from the
  last to the first, of the dummy with frequency 0 and weight 1; others tell nobody.\<close>

definition tells_next :: "(chordID \<Rightarrow> bytes) \<Rightarrow> ('d :: {zero, one} \<Rightarrow> 64 word) \<Rightarrow> nat \<Rightarrow> chordID
    \<Rightarrow> chordID \<Rightarrow> dht_msg list \<Rightarrow> bool" where
  "tells_next show_id to_bits n ID teamID sent \<longleftrightarrow>
     (if ID \<in> team_member n teamID ` {0..<n}
      then \<exists>i < n. team_member n teamID i = ID
        \<and> (let nextID = team_member n teamID ((i + 1) mod n)
            in \<exists>m. sent = [(nextID, m)] \<and> received getKeyValue_init INFORMTEAM m
                 (show_id nextID, show_id teamID, polys dummysig, to_bits 0, to_bits 1))
      else sent = [])"

lemma informteam_tells_next:
  assumes "0 < n" "is_id teamID" and lens: "\<And>x. is_id x \<Longrightarrow> length (show_id x) \<le> 40"
  shows "\<exists>sent. informteam show_id to_bits n ID teamID dummysig = Some sent
    \<and> tells_next show_id to_bits n ID teamID sent"
proof -
  let ?team = "map (team_member n teamID) [0..<n]"
  obtain ix where t: "make_team n ID teamID = Some (ix, ?team)"
    and ix: "if ID \<in> team_member n teamID ` {0..<n}
       then \<exists>i < n. ix = int i \<and> team_member n teamID i = ID else ix = -1"
    using make_team_members [OF assms(1,2), of ID] by blast
  show ?thesis
  proof (cases "ID \<in> team_member n teamID ` {0..<n}")
    case False
    with ix t show ?thesis by (simp add: informteam_def tells_next_def)
  next
    case True
    with ix obtain i where i: "i < n" "ix = int i" "team_member n teamID i = ID" by auto
    define nextID where "nextID = team_member n teamID ((i + 1) mod n)"
    have "is_id nextID" by (simp add: nextID_def team_member_def is_id_def)
    then have "init_len (show_id nextID) (show_id teamID) (polys dummysig) < 2 ^ 31"
      using lens [of nextID] lens [OF assms(2)] by (simp add: init_len_def dummysig_def)
    then obtain m where m: "makeKeyValue_init (show_id nextID) (show_id teamID) (polys dummysig)
        (to_bits 0) (to_bits 1) INFORMTEAM = Some m"
      "received getKeyValue_init INFORMTEAM m (show_id nextID, show_id teamID, polys dummysig, to_bits 0, to_bits 1)"
      using init_message_received by blast
    have "nextID = (if ix = int (length ?team) - 1 then ?team ! 0 else ?team ! nat (ix + 1))"
    proof (cases "i = n - 1")
      case True
      then show ?thesis using i assms(1) by (simp add: nextID_def)
    next
      case False
      then show ?thesis using i assms(1) by (auto simp: nextID_def nat_add_distrib)
    qed
    then have "informteam show_id to_bits n ID teamID dummysig = Some [(nextID, m)]"
      unfolding informteam_def t using i(2) m(1) by (simp only: bind.simps option.case prod.case Let_def) simp
    moreover have "tells_next show_id to_bits n ID teamID [(nextID, m)]"
      using True i(1,3) m(2) unfolding tells_next_def Let_def nextID_def by auto
    ultimately show ?thesis by blast
  qed
qed

text \<open>The list that the init phase starts from: the team's own, or for a new team the one with
  only the placeholder.\<close>

definition start_list :: "'d :: {zero, one} sigmap option \<Rightarrow> 'd sigmap" where
  "start_list m = (case m of Some t \<Rightarrow> t | None \<Rightarrow> [(hldsig, 0, 1)])"

lemma team_vecomap_ok:
  assumes "init_ok st"
  obtains tind st1 where "team_vecomap teamID st = Some (tind, st1)"
    "totalT st1 ! tind = [start_list (team_list st teamID)]" "tind < length (totalT st1)"
    "teamsize st1 = teamsize st" "omap_find (teamindex st1) teamID = Some [tind]"
    "teams_ok (teamindex st1) (length (totalT st1))"
    "\<forall>i < length (totalT st1). i \<noteq> tind \<longrightarrow> (\<exists>t. totalT st1 ! i = [t] \<and> gossip_wf False t)"
    "\<forall>k. k \<noteq> teamID \<longrightarrow> team_list st1 k = team_list st k"
    "\<forall>t. team_list st teamID = Some t \<longrightarrow> gossip_wf False t"
proof (cases "omap_find (teamindex st) teamID")
  case (Some ixs)
  then obtain i where i: "ixs = [i]" "i < length (totalT st)"
    using assms by (auto simp: init_ok_def teams_ok_def)
  then obtain t where t: "totalT st ! i = [t]" "gossip_wf False t"
    using assms nth_mem unfolding init_ok_def by blast
  have "team_vecomap teamID st = Some (i, st)"
    using Some i t by (simp add: team_vecomap_def)
  moreover have "\<forall>j < length (totalT st). \<exists>t. totalT st ! j = [t] \<and> gossip_wf False t"
    using assms nth_mem unfolding init_ok_def by blast
  moreover have "team_list st teamID = Some t" using Some i t by (simp add: team_list_def)
  ultimately show ?thesis using that [of i st] Some i t assms by (simp add: init_ok_def start_list_def)
next
  case None
  let ?n = "length (totalT st)"
  let ?st = "st\<lparr>teamindex := omap_put teamID [?n] (teamindex st), totalT := totalT st @ [[[(hldsig, 0, 1)]]]\<rparr>"
  have wf: "teams_ok (teamindex st) ?n" "omap_wf (teamindex st)"
    using assms by (simp_all add: init_ok_def teams_ok_def)
  have find: "omap_find (teamindex ?st) k = (if k = teamID then Some [?n] else omap_find (teamindex st) k)" for k
    using wf by (simp add: omap_find_put)
  have made: "team_vecomap teamID st = Some (?n, ?st)" using None by (simp add: team_vecomap_def)
  have teams: "teams_ok (teamindex ?st) (length (totalT ?st))"
    using wf unfolding teams_ok_def find
    by (auto simp: omap_wf_put less_Suc_eq split: if_splits)
  have "\<forall>j < length (totalT ?st). j \<noteq> ?n \<longrightarrow> (\<exists>t. totalT ?st ! j = [t] \<and> gossip_wf False t)"
    using assms nth_mem by (fastforce simp: init_ok_def nth_append)
  moreover have "team_list ?st k = team_list st k" if "k \<noteq> teamID" for k
    using that wf(1) unfolding team_list_def find teams_ok_def
    by (auto simp: nth_append split: option.splits list.splits)
  moreover have "team_list st teamID = None" using None by (simp add: team_list_def)
  ultimately show ?thesis using that [OF made] teams find by (simp add: nth_append start_list_def)
qed

lemma slot_update:
  assumes "tind < length (totalT st)" "omap_find (teamindex st) teamID = Some [tind]"
    and "teams_ok (teamindex st) (length (totalT st))" "gossip_wf False t'"
    and "\<forall>i < length (totalT st). i \<noteq> tind \<longrightarrow> (\<exists>t. totalT st ! i = [t] \<and> gossip_wf False t)"
  defines "st' \<equiv> st\<lparr>totalT := (totalT st)[tind := [t']]\<rparr>"
  shows "init_ok st'" "team_list st' teamID = Some t'"
    and "k \<noteq> teamID \<Longrightarrow> team_list st' k = team_list st k"
proof -
  show "init_ok st'"
    using assms(1-5) unfolding init_ok_def st'_def
    by (fastforce simp: in_set_conv_nth nth_list_update split: if_splits)
  show "team_list st' teamID = Some t'" using assms(1,2) by (simp add: team_list_def st'_def)
  assume k: "k \<noteq> teamID"
  have "ixs = [i] \<and> i \<noteq> tind" if "omap_find (teamindex st) k = Some ixs" "ixs = i # js" for ixs i js
    using assms(2,3) k that unfolding teams_ok_def by (metis list.inject)
  then show "team_list st' k = team_list st k"
    unfolding team_list_def st'_def by (auto split: option.splits list.splits)
qed

text \<open>
  C9: the init phase keeps its promise. A signature is announced to a team with an identifier
  of the circle (the signature is not the placeholder and not below it in the order of lists, and
  a dummy is announced only with frequency 0), the team size is positive and identifiers print
  as at most 40 characters. Then \<^verbatim>\<open>initgossiprecv\<close> runs without undefined behaviour and every
  team's list stays well formed with its own index. In the list of that team the announced
  frequency is added to the signature's and the weight it has is kept, or a new signature gets
  the announced frequency and weight; every other entry is unchanged, frequency and weight, but
  that the lists of a new team get the dummy and the placeholder with frequency 0 and weight 1.
  No other team's list changes. Only a new team causes a message: when the peer is a member of
  the team, the next member is sent the dummy with frequency 0 and weight 1 under that team's
  identifier, in a message that decodes to these values; otherwise nothing is sent.
\<close>

theorem initgossiprecv_counts:
  fixes st :: "('d :: comm_ring_1, 'z) node_scheme"
  assumes ok: "init_ok st" and s: "hldsig < s" "s = dummysig \<longrightarrow> freq = 0"
    and team: "0 < teamsize st" "is_id teamID" and lens: "\<And>x. is_id x \<Longrightarrow> length (show_id x) \<le> 40"
  shows "\<exists>st' t' sent. initgossiprecv show_id to_bits ID teamID s freq weight st = Some (st', sent)
    \<and> init_ok st' \<and> team_list st' teamID = Some t'
    \<and> omap_find t' s = Some (case Option.bind (team_list st teamID) (\<lambda>t. omap_find t s) of
          Some (f, w) \<Rightarrow> (f + freq, w) | None \<Rightarrow> (freq, weight))
    \<and> (\<forall>s'. s' \<noteq> s \<longrightarrow> omap_find t' s' = (case team_list st teamID of Some t \<Rightarrow> omap_find t s'
          | None \<Rightarrow> if s' = dummysig \<or> s' = hldsig then Some (0, 1) else None))
    \<and> (\<forall>k. k \<noteq> teamID \<longrightarrow> team_list st' k = team_list st k)
    \<and> (if team_list st teamID = None then tells_next show_id to_bits (teamsize st) ID teamID sent else sent = [])"
proof -
  from ok obtain tind st1 where st1: "team_vecomap teamID st = Some (tind, st1)"
    "totalT st1 ! tind = [start_list (team_list st teamID)]" "tind < length (totalT st1)"
    "teamsize st1 = teamsize st" "omap_find (teamindex st1) teamID = Some [tind]"
    "teams_ok (teamindex st1) (length (totalT st1))"
    "\<forall>i < length (totalT st1). i \<noteq> tind \<longrightarrow> (\<exists>t. totalT st1 ! i = [t] \<and> gossip_wf False t)"
    "\<forall>k. k \<noteq> teamID \<longrightarrow> team_list st1 k = team_list st k"
    "\<forall>t. team_list st teamID = Some t \<longrightarrow> gossip_wf False t"
    by (rule team_vecomap_ok)
  obtain sent where inform: "informteam show_id to_bits (teamsize st) ID teamID dummysig = Some sent"
    "tells_next show_id to_bits (teamsize st) ID teamID sent"
    using informteam_tells_next [of _ _ show_id, OF team lens] by blast
  define t where "t = start_list (team_list st teamID)"
  have t: "gossip_wf False t \<or> t = [(hldsig, 0, 1)]" using st1(9) by (auto simp: t_def start_list_def split: option.splits)
  then have wft: "omap_wf t" by (auto simp: gossip_wf_def omap_wf_def)
  have new: "team_list st teamID = None \<longleftrightarrow> omap_find t dummysig = None"
    using st1(9) dummysig_hldsig_order by (auto simp: t_def start_list_def gossip_wf_def omap_find_def split: option.splits)
  have find: "omap_find t k = (case team_list st teamID of Some u \<Rightarrow> omap_find u k
      | None \<Rightarrow> if k = hldsig then Some (0, 1) else None)" for k
    by (simp add: t_def start_list_def omap_find_def split: option.splits)
  define d where "d = (omap_find t s = None \<and> s \<noteq> dummysig \<and> omap_find t dummysig = None)"
  define fw where "fw = (case omap_find t s of Some (f, w) \<Rightarrow> (f + freq, w) | None \<Rightarrow> (freq, weight))"
  define t' where "t' = (let u = omap_put s fw t in if d then omap_put dummysig (0, 1) u else u)"
  have wf': "gossip_wf False t'"
  proof -
    have "gossip_wf False t \<or> s = dummysig \<or> d"
      using t s(1) by (auto simp: d_def omap_find_def)
    moreover have "s = dummysig \<longrightarrow> fst fw = 0"
      using t s(2) by (auto simp: fw_def gossip_wf_def omap_find_def split: option.splits)
    ultimately show ?thesis unfolding t'_def Let_def using t s(1) by (intro gossip_wf_put) auto
  qed
  let ?st' = "st1\<lparr>totalT := (totalT st1)[tind := [t']]\<rparr>"
  let ?sent = "if team_list st teamID = None then sent else []"
  note upd = slot_update [OF st1(3,5,6) wf' st1(7)]
  have init: "initgossiprecv show_id to_bits ID teamID s freq weight st = Some (?st', ?sent)"
  proof (cases "omap_find t s")
    case None
    then show ?thesis
      using st1(1-4) inform new [unfolded t_def]
      by (cases "s = dummysig") (auto simp: initgossiprecv_def t'_def fw_def d_def Let_def t_def)
  next
    case (Some v)
    then obtain f w where v: "omap_find t s = Some (f, w)" by (cases v) auto
    then have known: "team_list st teamID \<noteq> None" using find [of s] s(1) by (auto split: option.splits if_splits)
    have "s = dummysig \<Longrightarrow> t' = t"
      using v s(2) omap_put_same [OF wft] by (simp add: t'_def fw_def d_def)
    moreover have "(totalT st1)[tind := [t]] = totalT st1"
      using st1(2) by (metis list_update_id t_def)
    ultimately show ?thesis
      using st1(1-3) v known by (cases "s = dummysig") (auto simp: initgossiprecv_def t'_def fw_def d_def Let_def t_def)
  qed
  have find': "omap_find t' k = (if k = s then Some fw else if d \<and> k = dummysig then Some (0, 1) else omap_find t k)" for k
    using wft by (auto simp: t'_def Let_def omap_find_put omap_wf_put d_def)
  then have s': "omap_find t' s = Some (case Option.bind (team_list st teamID) (\<lambda>t. omap_find t s) of
          Some (f, w) \<Rightarrow> (f + freq, w) | None \<Rightarrow> (freq, weight))"
    using less_imp_neq [OF s(1)] by (auto simp: fw_def find split: option.splits)
  have others: "omap_find t' k = (case team_list st teamID of Some u \<Rightarrow> omap_find u k
          | None \<Rightarrow> if k = dummysig \<or> k = hldsig then Some (0, 1) else None)" if "k \<noteq> s" for k
  proof (cases "team_list st teamID")
    case None
    then have "d \<longleftrightarrow> s \<noteq> dummysig"
      using less_imp_neq [OF s(1)] new by (auto simp: d_def find [of s])
    with None that show ?thesis by (auto simp: find' find)
  next
    case (Some u)
    then have "\<not> d" using new by (simp add: d_def)
    with Some that show ?thesis by (simp add: find' find [of k])
  qed
  show ?thesis
    using init upd st1(8) s' others inform(2) by (intro exI conjI) (assumption | simp)+
qed

theorem initgossiprecv_counts_witness:
  "\<exists>st' t' sent. initgossiprecv (\<lambda>a. hex_text (nat a)) (\<lambda>_. 0) 9 9 (Sig [5]) (3 :: rat) 1 (sample_node [])
      = Some (st', sent) \<and> team_list st' 9 = Some t' \<and> omap_find t' (Sig [5]) = Some (3, 1)
      \<and> omap_find t' (Sig [6]) = None"
proof -
  have "init_ok (sample_node [] :: rat node)"
    by (simp add: init_ok_def teams_ok_def sample_node_def omap_wf_def omap_find_def)
  moreover have "hldsig < Sig [5]" by (simp add: hldsig_def less_sig_def CompareSig_def)
  moreover have "is_id 9" by (simp add: is_id_def ring_def NBIT_def del: two_NBIT)
  moreover have "0 < teamsize (sample_node [] :: rat node)" by (simp add: sample_node_def)
  moreover have "team_list (sample_node [] :: rat node) 9 = None"
    by (simp add: team_list_def sample_node_def omap_find_def)
  ultimately show ?thesis
    using initgossiprecv_counts [of "sample_node [] :: rat node" "Sig [5]" 3 9 "\<lambda>a. hex_text (nat a)" "\<lambda>_. 0" 9 1]
      hex_text_id by (auto simp: dummysig_def hldsig_def)
qed

subsection \<open>Queries\<close>

definition similarity :: "poly list \<Rightarrow> poly list \<Rightarrow> 'd :: field" where
  "similarity a b = of_nat (card (set a \<inter> set b - {0})) / of_nat (card (set a \<union> set b - {0}))"

definition matches :: "poly list \<Rightarrow> 'd sigmap \<Rightarrow> 'd sigmap" where
  "matches q m = filter (\<lambda>e. mset q \<subseteq># mset (polys (fst e))) m"

lemma superset_step_spec:
  fixes e :: "sig \<times> 'd :: linordered_field \<times> 'd"
  assumes "sorted q" "q \<noteq> []" "sorted (polys (fst e))" "polys (fst e) \<noteq> []"
  shows "superset_step q None e r = Some
    (if mset q \<subseteq># mset (polys (fst e))
     then r\<lparr>sigmatches := sigmatches r + 1, totalavg := totalavg r + fst (snd e) / snd (snd e),
            minsim := min (minsim r) (similarity q (polys (fst e))),
            avgsim := avgsim r + similarity q (polys (fst e))\<rparr>
     else r)"
proof -
  obtain multi where "signcmp q (polys (fst e)) = Some (similarity q (polys (fst e)) :: 'd, multi)"
    using signcmp_jaccard [OF assms(1,3,2,4), where 'd = 'd] by (auto simp: similarity_def)
  then show ?thesis
    using noskip_submultiset [OF assms(1,3), THEN conjunct2]
    by (simp add: superset_step_def case_prod_beta Let_def min_def not_le)
qed

lemma superset_loop_spec:
  fixes m :: "'d :: linordered_field sigmap"
  assumes "sorted q" "q \<noteq> []" "\<forall>e \<in> set m. sorted (polys (fst e)) \<and> polys (fst e) \<noteq> []"
  shows "\<exists>r'. superset_loop q None m r = Some r'
    \<and> sigmatches r' = sigmatches r + length (matches q m)
    \<and> totalavg r' = totalavg r + (\<Sum>e \<leftarrow> matches q m. fst (snd e) / snd (snd e))
    \<and> avgsim r' = avgsim r + (\<Sum>e \<leftarrow> matches q m. similarity q (polys (fst e)))
    \<and> minsim r' = fold (\<lambda>e a. min a (similarity q (polys (fst e)))) (matches q m) (minsim r)"
  using assms(3)
proof (induction m arbitrary: r)
  case (Cons e m)
  then have e: "sorted (polys (fst e))" "polys (fst e) \<noteq> []" by auto
  obtain r1 where r1: "superset_step q None e r = Some r1"
    and upd: "r1 = (if mset q \<subseteq># mset (polys (fst e))
      then r\<lparr>sigmatches := sigmatches r + 1, totalavg := totalavg r + fst (snd e) / snd (snd e),
            minsim := min (minsim r) (similarity q (polys (fst e))),
            avgsim := avgsim r + similarity q (polys (fst e))\<rparr> else r)"
    using superset_step_spec [OF assms(1,2) e] by blast
  have "\<forall>e \<in> set m. sorted (polys (fst e)) \<and> polys (fst e) \<noteq> []" using Cons.prems by simp
  from Cons.IH [OF this, of r1] r1 show ?case by (auto simp: upd matches_def add.assoc)
qed (simp add: matches_def)

text \<open>
  C30: a superset query answers with exactly the matching signatures. On sorted, non-empty
  signatures, a query without 0 and non-zero weights, \<^verbatim>\<open>run_query\<close> finds the list entries of
  which the query is a sub-multiset, adds their number and their averages (frequency over
  weight) to the running totals, and returns the smallest Jaccard similarity of query and
  matches (1 at most) and, when anything matched so far, their mean.
\<close>

theorem superset_query_result:
  fixes st :: "('d :: linordered_field, 'z) node_scheme"
  assumes "sorted q" "q \<noteq> []" "0 \<notin> set q"
    and "\<forall>e \<in> set m. sorted (polys (fst e)) \<and> polys (fst e) \<noteq> [] \<and> snd (snd e) \<noteq> 0"
    and "tind < length (totalT st)" "totalT st ! tind = m # rest" "type \<in> {QUERYX, QUERYXP}"
  shows "\<exists>r. run_query tind q n a type None st = Some (0, r)
    \<and> sigmatches r = n + length (matches q m)
    \<and> totalavg r = a + (\<Sum>e \<leftarrow> matches q m. fst (snd e) / snd (snd e))
    \<and> minsim r = fold (\<lambda>e a. min a (similarity q (polys (fst e)))) (matches q m) 1
    \<and> (0 < sigmatches r \<longrightarrow>
         avgsim r = (\<Sum>e \<leftarrow> matches q m. similarity q (polys (fst e))) / of_nat (n + length (matches q m)))"
proof -
  let ?r = "\<lparr>sigmatches = n, totalavg = a, minsim = 1, avgsim = 0, proxyminsim = 1, proxyavgsim = 0\<rparr>"
  obtain r where "superset_loop q None m ?r = Some r" "sigmatches r = n + length (matches q m)"
    "totalavg r = a + (\<Sum>e \<leftarrow> matches q m. fst (snd e) / snd (snd e))"
    "avgsim r = (\<Sum>e \<leftarrow> matches q m. similarity q (polys (fst e)))"
    "minsim r = fold (\<lambda>e a. min a (similarity q (polys (fst e)))) (matches q m) 1"
    using superset_loop_spec [OF assms(1,2), of m ?r] assms(4) by auto
  then show ?thesis using assms(5-7) by (auto simp: run_query_def Let_def dbl_of_eq)
qed

theorem superset_query_result_witness:
  "\<exists>r. run_query 0 [5] 0 0 QUERYX None
        (sample_node [[[(Sig [1], 0, 1), (Sig [5, 7], 4, 1 / 2), (Sig [6, 7], 1, 1 :: rat)]]])
      = Some (0, r) \<and> sigmatches r = 1 \<and> totalavg r = 8"
  using superset_query_result [of "[5]" "[(Sig [1], 0, 1), (Sig [5, 7], 4, 1 / 2), (Sig [6, 7], 1, 1 :: rat)]" 0
      "sample_node [[[(Sig [1], 0, 1), (Sig [5, 7], 4, 1 / 2), (Sig [6, 7], 1, 1 :: rat)]]]" "[]" QUERYX 0 0]
  by (auto simp: sample_node_def matches_def)

end
