(* ===== verification/Init_Merge.thy ===== *)
theory Init_Merge
  imports Node_Correct
begin

text \<open>
  Lists before any gossip: counting the signatures of the local documents, and merging lists
  by adding frequencies (over all lists, and over the lists of each team).
\<close>

subsection \<open>Counting\<close>

lemma count_sig_all:
  fixes m :: "'d :: semiring_1 sigmap"
  assumes "omap_wf m"
  shows "omap_wf (fold count_sig ss m)
    \<and> omap_find (fold count_sig ss m) s =
        (case omap_find m s of
           Some (f, w) \<Rightarrow> Some (f + of_nat (count (mset ss) s), w)
         | None \<Rightarrow> if s \<in> set ss then Some (of_nat (count (mset ss) s), 1) else None)"
  using assms
proof (induction ss arbitrary: m)
  case Nil
  then show ?case by (auto split: option.splits)
next
  case (Cons x ss)
  have "omap_wf (count_sig x m)" using Cons.prems by (simp add: count_sig_def omap_wf_put split: option.splits)
  moreover have "omap_find (count_sig x m) s =
      (if s = x then Some (case omap_find m x of Some (f, w) \<Rightarrow> (f + 1, w) | None \<Rightarrow> (1, 1)) else omap_find m s)"
    using Cons.prems by (auto simp: count_sig_def omap_find_put split: option.splits)
  ultimately show ?case using Cons.IH [of "count_sig x m"]
    by (auto simp: add.assoc add.commute [of 1] split: option.splits)
qed

text \<open>
  The first list of a peer counts its signatures. \<^verbatim>\<open>calcfreq\<close> appends a list in which
  every signature occurring in the input has its number of occurrences (not counting the
  leading dummy) as frequency and weight 1; when the input is led by the dummy and no
  further entry is below it or equal to it, the list is a well-formed VanillaXGossip list.
\<close>

theorem calcfreq_counts:
  fixes allT :: "'d :: semiring_1 vecomap"
  assumes "usedummy \<longrightarrow> sigList \<noteq> []"
  shows "\<exists>u. calcfreq sigList usedummy proxysigs allT
        = Some ((if proxysigs \<and> allT = [] then [[]] else allT) @ [u])
    \<and> omap_wf u
    \<and> (\<forall>s. omap_find u s = (if s \<in> set sigList
          then Some (of_nat (count (mset (if usedummy then tl sigList else sigList)) s), 1) else None))
    \<and> (usedummy \<and> hd sigList = dummysig \<and> (\<forall>s \<in> set (tl sigList). dummysig < s) \<longrightarrow> gossip_wf True u)"
proof -
  let ?m = "if usedummy then [(hd sigList, 0, 1)] else [] :: 'd sigmap"
  let ?ss = "if usedummy then tl sigList else sigList"
  define u where "u = fold count_sig ?ss ?m"
  have wf: "omap_wf ?m" by (simp add: omap_wf_def)
  have made: "uniqueSigList sigList usedummy = Some u"
    using assms by (cases sigList) (auto simp: uniqueSigList_def u_def)
  have find: "omap_find u s = (if s \<in> set sigList then Some (of_nat (count (mset ?ss) s), 1) else None)" for s
    using count_sig_all [OF wf, of ?ss s] assms unfolding u_def
    by (cases sigList) (auto simp: omap_find_def)
  have "gossip_wf True u"
    if "usedummy" "hd sigList = dummysig" "\<forall>s \<in> set (tl sigList). dummysig < s"
  proof -
    have "sigList = dummysig # tl sigList" using that assms by (cases sigList) auto
    then have "\<forall>s \<in> set sigList. dummysig \<le> s" using that(3) by (metis less_imp_le order_refl set_ConsD)
    moreover have "omap_keys u \<subseteq> set sigList" using find by (auto simp: omap_keys_iff split: if_splits)
    ultimately have "\<forall>s \<in> omap_keys u. dummysig \<le> s" by blast
    moreover have "dummysig \<notin> set (tl sigList)" "dummysig \<in> set sigList"
      using that assms hd_in_set [of sigList] by auto
    then have "omap_find u dummysig = Some (0, 1)"
      using find [of dummysig] that(1) by (simp add: count_eq_zero_iff [THEN iffD2])
    ultimately show ?thesis
      using count_sig_all [OF wf, of ?ss] by (auto simp: gossip_wf_def list_all_iff omap_keys_def u_def)
  qed
  then show ?thesis
    using made find count_sig_all [OF wf, of ?ss] by (auto simp: calcfreq_def u_def)
qed

theorem calcfreq_counts_witness:
  "\<exists>u. calcfreq [Sig [1], Sig [5], Sig [3], Sig [5]] True False [] = Some [u :: rat sigmap]
     \<and> omap_find u (Sig [5]) = Some (2, 1) \<and> gossip_wf True u"
  using calcfreq_counts [of True "[Sig [1], Sig [5], Sig [3], Sig [5]]" False "[] :: rat vecomap"]
  by (force simp: dummysig_def less_sig_def CompareSig_def)

subsection \<open>Adding frequencies\<close>

definition freq_sum :: "'d :: monoid_add sigmap \<Rightarrow> sig \<Rightarrow> 'd" where
  "freq_sum es s = (\<Sum>e \<leftarrow> filter (\<lambda>e. fst e = s) es. fst (snd e))"

lemma add_freq_all:
  fixes m :: "'d :: semiring_1 sigmap"
  assumes "omap_wf m"
  shows "omap_wf (fold add_freq es m)
    \<and> omap_find (fold add_freq es m) s =
        (case omap_find m s of
           Some (f, w) \<Rightarrow> Some (f + freq_sum es s, w)
         | None \<Rightarrow> if s \<in> omap_keys es then Some (freq_sum es s, 1) else None)"
  using assms
proof (induction es arbitrary: m)
  case Nil
  then show ?case by (auto simp: freq_sum_def omap_keys_def split: option.splits)
next
  case (Cons e es)
  obtain x f w where e: "e = (x, f, w)" by (cases e) auto
  have "omap_wf (add_freq e m)" using Cons.prems by (simp add: add_freq_def e omap_wf_put split: option.splits)
  moreover have "omap_find (add_freq e m) s =
      (if s = x then Some (case omap_find m x of Some (f', w') \<Rightarrow> (f' + f, w') | None \<Rightarrow> (f, 1)) else omap_find m s)"
    using Cons.prems by (auto simp: add_freq_def e omap_find_put split: option.splits)
  ultimately show ?case using Cons.IH [of "add_freq e m"]
    by (auto simp: freq_sum_def omap_keys_def e add.assoc split: option.splits)
qed

lemma freq_sum_wf:
  fixes t :: "'d :: semiring_1 sigmap"
  assumes "omap_wf t"
  shows "freq_sum t s = freq_of (Some t) s"
proof -
  have "distinct (map fst t)" using assms by (simp add: omap_wf_def sorted_wrt_less_distinct)
  then show ?thesis
  proof (induction t)
    case (Cons e t)
    have "filter (\<lambda>e'. fst e' = fst e) t = []" using Cons.prems by (intro filter_False ballI notI) (metis distinct.simps(2) image_eqI list.simps(9) list.set_map)
    with Cons show ?case by (auto simp: freq_sum_def freq_of_def omap_find_def split: option.splits prod.splits)
  qed (simp add: freq_sum_def freq_of_def omap_find_def)
qed

lemma freq_sum_concat:
  fixes ts :: "'d :: semiring_1 sigmap list"
  assumes "\<forall>t \<in> set ts. omap_wf t"
  shows "freq_sum (concat ts) s = (\<Sum>t \<leftarrow> ts. freq_of (Some t) s)"
  using assms
proof (induction ts)
  case (Cons t ts)
  have "freq_sum (concat (t # ts)) s = freq_sum t s + freq_sum (concat ts) s" by (simp add: freq_sum_def)
  with Cons show ?case by (simp add: freq_sum_wf)
qed (simp add: freq_sum_def)

text \<open>
  \<^verbatim>\<open>mergeinit\<close> collects all lists in one. When every team has a list, \<^verbatim>\<open>allT\<close> becomes a
  single list of exactly the signatures of the teams' lists, with the sum of their
  frequencies and weight 1; nothing else changes.
\<close>

theorem mergeinit_sums:
  fixes st :: "('d :: semiring_1, 'z) node_scheme"
  assumes "\<forall>ts \<in> set (totalT st). ts \<noteq> [] \<and> omap_wf (hd ts)"
  shows "\<exists>u. mergeinit st = Some (st\<lparr>allT := [u]\<rparr>) \<and> omap_wf u
    \<and> (\<forall>s. omap_find u s = (if \<exists>ts \<in> set (totalT st). s \<in> omap_keys (hd ts)
          then Some (\<Sum>ts \<leftarrow> totalT st. freq_of (Some (hd ts)) s, 1) else None))"
proof -
  let ?es = "concat (map hd (totalT st))"
  have wf: "omap_wf ([] :: 'd sigmap)" by (simp add: omap_wf_def)
  have "freq_sum ?es s = (\<Sum>ts \<leftarrow> totalT st. freq_of (Some (hd ts)) s)" for s
    using freq_sum_concat [of "map hd (totalT st)" s] assms by (simp add: comp_def)
  moreover have "s \<in> omap_keys ?es \<longleftrightarrow> (\<exists>ts \<in> set (totalT st). s \<in> omap_keys (hd ts))" for s
    by (auto simp: omap_keys_def)
  moreover have "mergeinit st = Some (st\<lparr>allT := [fold add_freq ?es []]\<rparr>)"
    using assms by (auto simp: mergeinit_def)
  ultimately show ?thesis using add_freq_all [OF wf, of ?es]
    by (intro exI [of _ "fold add_freq ?es []"]) (simp add: omap_find_def)
qed

theorem mergeinit_sums_witness:
  "\<exists>u. mergeinit (sample_node [[[(Sig [5], 4, 1)]], [[(Sig [3], 1, 1), (Sig [5], 2, 1 :: rat)]]])
      = Some ((sample_node [[[(Sig [5], 4, 1)]], [[(Sig [3], 1, 1), (Sig [5], 2, 1)]]])\<lparr>allT := [u]\<rparr>)
    \<and> omap_find u (Sig [5]) = Some (6, 1)"
  using mergeinit_sums [of "sample_node [[[(Sig [5], 4, 1)]], [[(Sig [3], 1, 1), (Sig [5], 2, 1 :: rat)]]]"]
  by (auto simp: sample_node_def omap_wf_def less_sig_def CompareSig_def omap_keys_def freq_of_def omap_find_def)

subsection \<open>Merging by team\<close>

definition heads_ok :: "'d vecomap list \<Rightarrow> bool" where
  "heads_ok tT \<longleftrightarrow> (\<forall>ts \<in> set tT. ts \<noteq> [] \<and> omap_wf (hd ts))"

abbreviation head_freq :: "'d :: zero vecomap list \<Rightarrow> nat \<Rightarrow> sig \<Rightarrow> 'd" where
  "head_freq tT i s \<equiv> freq_of (Some (hd (tT ! i))) s"

lemma freq_of_add_freq:
  fixes t m :: "'d :: semiring_1 sigmap"
  assumes "omap_wf t" "omap_wf m"
  shows "freq_of (Some (fold add_freq t m)) s = freq_of (Some m) s + freq_of (Some t) s"
proof -
  have "filter (\<lambda>e. fst e = s) t = []" if "s \<notin> omap_keys t"
    using that by (intro filter_False ballI notI) (auto simp: omap_keys_def)
  then have "s \<notin> omap_keys t \<Longrightarrow> freq_sum t s = 0" by (simp add: freq_sum_def)
  then show ?thesis
    using add_freq_all [OF assms(2), of t s] freq_sum_wf [OF assms(1), of s]
    by (auto simp: freq_of_def omap_keys_iff split: option.splits if_splits)
qed

lemma merge_team_onto:
  fixes tT :: "'d :: semiring_1 vecomap list"
  assumes "mergeix \<noteq> 0" "mergeix < length tT" "heads_ok tT" "mergeix \<notin> set tixs" "\<forall>i \<in> set tixs. i < length tT"
  shows "\<exists>tT'. merge_team tixs mergeix tT = Some (mergeix, tT') \<and> heads_ok tT' \<and> length tT' = length tT
    \<and> (\<forall>i. i \<noteq> mergeix \<longrightarrow> tT' ! i = tT ! i)
    \<and> (\<forall>s. head_freq tT' mergeix s = head_freq tT mergeix s + (\<Sum>i \<leftarrow> tixs. head_freq tT i s))"
  using assms
proof (induction tixs arbitrary: tT)
  case (Cons tix tixs)
  let ?u = "fold add_freq (hd (tT ! tix)) (hd (tT ! mergeix))"
  let ?tT = "tT[mergeix := ?u # tl (tT ! mergeix)]"
  have wf: "omap_wf (hd (tT ! tix))" "omap_wf (hd (tT ! mergeix))" "tT ! tix \<noteq> []" "tT ! mergeix \<noteq> []"
    using Cons.prems by (auto simp: heads_ok_def)
  have "heads_ok ?tT"
    using Cons.prems(3) add_freq_all [OF wf(2), of "hd (tT ! tix)"] set_update_subset_insert [of tT mergeix]
    by (fastforce simp: heads_ok_def)
  then obtain tT' where IH: "merge_team tixs mergeix ?tT = Some (mergeix, tT')" "heads_ok tT'"
    "length tT' = length tT" "\<forall>i. i \<noteq> mergeix \<longrightarrow> tT' ! i = ?tT ! i"
    "\<forall>s. head_freq tT' mergeix s = head_freq ?tT mergeix s + (\<Sum>i \<leftarrow> tixs. head_freq ?tT i s)"
    using Cons.IH [of ?tT] Cons.prems by auto
  have "?tT ! i = tT ! i" if "i \<in> set tixs" for i using that Cons.prems(4) by (cases "i = mergeix") auto
  then have "(\<Sum>i \<leftarrow> tixs. head_freq ?tT i s) = (\<Sum>i \<leftarrow> tixs. head_freq tT i s)" for s
    by (intro arg_cong [of _ _ sum_list] map_cong) simp_all
  with IH show ?case
    using Cons.prems wf by (auto simp: freq_of_add_freq add.assoc)
qed simp

text \<open>The lists of a team that are merged: those after leading indices 0.\<close>

definition merged_ixs :: "nat list \<Rightarrow> nat list" where
  "merged_ixs tixs = (case dropWhile (\<lambda>i. i = 0) tixs of [] \<Rightarrow> [0] | ixs \<Rightarrow> ixs)"

lemma merged_ixs_subset:
  assumes "tixs \<noteq> []"
  shows "set (merged_ixs tixs) \<subseteq> set tixs" "hd (merged_ixs tixs) \<in> set tixs"
proof -
  have "set (merged_ixs tixs) \<subseteq> set tixs \<and> hd (merged_ixs tixs) \<in> set tixs"
  proof (cases "dropWhile (\<lambda>i. i = 0) tixs")
    case Nil
    then have "\<forall>i \<in> set tixs. i = 0" by (simp only: dropWhile_eq_Nil_conv)
    then have "0 \<in> set tixs" using assms by (cases tixs) auto
    then show ?thesis unfolding merged_ixs_def Nil by simp
  next
    case (Cons ix ixs)
    then have "set (ix # ixs) \<subseteq> set tixs" by (metis set_dropWhileD subsetI)
    then show ?thesis unfolding merged_ixs_def Cons by simp
  qed
  then show "set (merged_ixs tixs) \<subseteq> set tixs" "hd (merged_ixs tixs) \<in> set tixs" by auto
qed

lemma merge_team_skip: "merge_team tixs 0 tT = merge_team (dropWhile (\<lambda>i. i = 0) tixs) 0 tT"
  by (induction tixs) auto

lemma merge_team_spec:
  fixes tT :: "'d :: semiring_1 vecomap list"
  assumes "heads_ok tT" "distinct tixs" "tixs \<noteq> []" "\<forall>i \<in> set tixs. i < length tT"
  shows "\<exists>tT'. merge_team tixs 0 tT = Some (hd (merged_ixs tixs), tT') \<and> heads_ok tT' \<and> length tT' = length tT
    \<and> (\<forall>i. i \<notin> set tixs \<longrightarrow> tT' ! i = tT ! i)
    \<and> (\<forall>s. head_freq tT' (hd (merged_ixs tixs)) s = (\<Sum>i \<leftarrow> merged_ixs tixs. head_freq tT i s))"
proof (cases "dropWhile (\<lambda>i. i = 0) tixs")
  case Nil
  have "merge_team tixs 0 tT = Some (0, tT)" unfolding merge_team_skip [of tixs] Nil by simp
  moreover have "merged_ixs tixs = [0]" unfolding merged_ixs_def Nil by simp
  ultimately show ?thesis using assms(1) by simp
next
  case (Cons ix ixs)
  have d: "ix \<noteq> 0" "ix \<notin> set ixs" "set (ix # ixs) \<subseteq> set tixs"
    using hd_dropWhile [of "\<lambda>i. i = 0" tixs] distinct_dropWhile [OF assms(2), of "\<lambda>i. i = 0"] Cons
      set_dropWhileD [of _ "\<lambda>i. i = 0" tixs] by auto
  obtain tT' where "merge_team ixs ix tT = Some (ix, tT')" "heads_ok tT'" "length tT' = length tT"
    "\<forall>i. i \<noteq> ix \<longrightarrow> tT' ! i = tT ! i"
    "\<forall>s. head_freq tT' ix s = head_freq tT ix s + (\<Sum>i \<leftarrow> ixs. head_freq tT i s)"
    using merge_team_onto [of ix tT ixs] d assms by auto
  then show ?thesis using Cons d by (subst merge_team_skip) (auto simp: merged_ixs_def)
qed

lemma mergebyteamid_loop_spec:
  fixes tT :: "'d :: semiring_1 vecomap list"
  assumes "heads_ok tT" "distinct (concat (map snd index))" "\<forall>(k, tixs) \<in> set index. tixs \<noteq> []"
    and "\<forall>i \<in> set (concat (map snd index)). i < length tT"
  shows "\<exists>tT'. mergebyteamid_loop index tT = Some (map (\<lambda>(k, tixs). (k, [hd (merged_ixs tixs)])) index, tT')
    \<and> (\<forall>i. i \<notin> set (concat (map snd index)) \<longrightarrow> tT' ! i = tT ! i)
    \<and> (\<forall>(k, tixs) \<in> set index. \<forall>s. head_freq tT' (hd (merged_ixs tixs)) s
          = (\<Sum>i \<leftarrow> merged_ixs tixs. head_freq tT i s))"
  using assms
proof (induction index arbitrary: tT)
  case (Cons e index)
  obtain k tixs where e: "e = (k, tixs)" by (cases e)
  obtain tT1 where t1: "merge_team tixs 0 tT = Some (hd (merged_ixs tixs), tT1)" "heads_ok tT1" "length tT1 = length tT"
    "\<forall>i. i \<notin> set tixs \<longrightarrow> tT1 ! i = tT ! i"
    "\<forall>s. head_freq tT1 (hd (merged_ixs tixs)) s = (\<Sum>i \<leftarrow> merged_ixs tixs. head_freq tT i s)"
    using merge_team_spec [of tT tixs] Cons.prems by (auto simp: e)
  obtain tT2 where t2: "mergebyteamid_loop index tT1 = Some (map (\<lambda>(k, tixs). (k, [hd (merged_ixs tixs)])) index, tT2)"
    "\<forall>i. i \<notin> set (concat (map snd index)) \<longrightarrow> tT2 ! i = tT1 ! i"
    "\<forall>(k, tixs) \<in> set index. \<forall>s. head_freq tT2 (hd (merged_ixs tixs)) s
          = (\<Sum>i \<leftarrow> merged_ixs tixs. head_freq tT1 i s)"
    using Cons.IH [of tT1] Cons.prems t1(2,3) by (auto simp: e)
  have "(\<Sum>i \<leftarrow> merged_ixs ixs. head_freq tT1 i s) = (\<Sum>i \<leftarrow> merged_ixs ixs. head_freq tT i s)"
    if "(k', ixs) \<in> set index" for k' ixs s
  proof -
    have "set (merged_ixs ixs) \<subseteq> set ixs" using that Cons.prems(3) merged_ixs_subset(1) by auto
    then have "i \<notin> set tixs" if "i \<in> set (merged_ixs ixs)" for i
      using that \<open>(k', ixs) \<in> set index\<close> Cons.prems(2) by (force simp: e)
    then show ?thesis using t1(4) by (intro arg_cong [of _ _ sum_list] map_cong) auto
  qed
  moreover have "hd (merged_ixs tixs) \<in> set tixs" using merged_ixs_subset(2) Cons.prems(3) by (auto simp: e)
  then have "hd (merged_ixs tixs) \<notin> set (concat (map snd index))"
    using Cons.prems(2) by (auto simp: e)
  ultimately show ?case using t1 t2 by (auto simp: e)
qed simp

text \<open>
  \<^verbatim>\<open>mergebyteamid\<close> adds up the lists of each team, except that index 0 is taken for \<^emph>\<open>no
  index\<close>. When the teams have disjoint non-empty indices of non-empty slots, it returns; the
  team's only index becomes the first non-zero one, and the list there holds, for every
  signature, the sum of the frequencies of the team's lists from that one on. A team whose
  first list is at index 0 and that has others thus loses the list at index 0.
\<close>

theorem mergebyteamid_sums:
  fixes st :: "('d :: semiring_1, 'z) node_scheme"
  assumes "heads_ok (totalT st)" "distinct (concat (map snd (teamindex st)))"
    and "\<forall>(k, tixs) \<in> set (teamindex st). tixs \<noteq> []"
    and "\<forall>i \<in> set (concat (map snd (teamindex st))). i < length (totalT st)"
  shows "\<exists>st'. mergebyteamid st = Some st'
    \<and> teamindex st' = map (\<lambda>(k, tixs). (k, [hd (merged_ixs tixs)])) (teamindex st)
    \<and> (\<forall>(k, tixs) \<in> set (teamindex st). \<forall>s. head_freq (totalT st') (hd (merged_ixs tixs)) s
          = (\<Sum>i \<leftarrow> merged_ixs tixs. head_freq (totalT st) i s))"
  using mergebyteamid_loop_spec [OF assms] by (auto simp: mergebyteamid_def)

theorem mergebyteamid_sums_witness:
  "\<exists>st'. mergebyteamid ((sample_node [[[(Sig [5], 4, 1)]], [[(Sig [5], 2, 1)]], [[(Sig [5], 1, 1 :: rat)]]])
        \<lparr>teamindex := [(9, [0, 1, 2])]\<rparr>) = Some st'
     \<and> teamindex st' = [(9, [1])] \<and> head_freq (totalT st') 1 (Sig [5]) = 3"
  using mergebyteamid_sums [of "(sample_node [[[(Sig [5], 4, 1)]], [[(Sig [5], 2, 1)]], [[(Sig [5], 1, 1 :: rat)]]])
        \<lparr>teamindex := [(9, [0, 1, 2])]\<rparr>"]
  by (auto simp: sample_node_def heads_ok_def omap_wf_def merged_ixs_def freq_of_def omap_find_def)

end
