(* ===== verification/Gossip_Network.thy ===== *)
theory Gossip_Network
  imports Gossip_Rounds
begin

text \<open>
  Many peers gossiping. The interface \<open>push_sum\<close> states what a participant owes the protocol:
  merging leaves a list whose copy is sent, receiving adds a list, the result of the send
  either changes nothing or takes the copy back. Over any such participant the step relation
  \<open>net_step\<close> interleaves merges, sends, failed sends and deliveries in any order, and the
  mass of every signature, frequency and weight alike, is conserved. The interface is
  interpreted by the peers of VanillaXGossip and by the team lists of XGossip.
\<close>

subsection \<open>The network\<close>

record ('p, 'n, 'm) net =
  peers :: "'p \<Rightarrow> 'n"
  waiting :: "'p set"
  flight :: "'m multiset"

text \<open>\<open>waiting\<close> are the peers whose insert has not returned; \<open>flight\<close> the lists that the DHT
  has accepted and not yet delivered. A failed insert leaves nothing in the DHT.\<close>

inductive net_step :: "('n \<Rightarrow> 'n option) \<Rightarrow> ('n \<Rightarrow> 'm) \<Rightarrow> ('m \<Rightarrow> 'n \<Rightarrow> 'n option)
    \<Rightarrow> (bool \<Rightarrow> 'n \<Rightarrow> 'n option) \<Rightarrow> 'p set \<Rightarrow> ('p, 'n, 'm) net \<Rightarrow> ('p, 'n, 'm) net \<Rightarrow> bool"
  for merge own receive settle P where
  merge: "p \<in> P \<Longrightarrow> p \<notin> waiting s \<Longrightarrow> merge (peers s p) = Some n \<Longrightarrow>
    net_step merge own receive settle P s
      (s\<lparr>peers := (peers s)(p := n), waiting := insert p (waiting s)\<rparr>)"
| sent: "p \<in> waiting s \<Longrightarrow> settle True (peers s p) = Some n \<Longrightarrow>
    net_step merge own receive settle P s
      (s\<lparr>peers := (peers s)(p := n), waiting := waiting s - {p},
         flight := add_mset (own (peers s p)) (flight s)\<rparr>)"
| failed: "p \<in> waiting s \<Longrightarrow> settle False (peers s p) = Some n \<Longrightarrow>
    net_step merge own receive settle P s
      (s\<lparr>peers := (peers s)(p := n), waiting := waiting s - {p}\<rparr>)"
| deliver: "p \<in> P \<Longrightarrow> m \<in># flight s \<Longrightarrow> receive m (peers s p) = Some n \<Longrightarrow>
    net_step merge own receive settle P s
      (s\<lparr>peers := (peers s)(p := n), flight := flight s - {#m#}\<rparr>)"

inductive_cases net_stepE: "net_step merge own receive settle P s s'"

text \<open>The mass of the network: what the peers hold, what waits for a result and what is in
  flight.\<close>

definition net_mass :: "('n \<Rightarrow> 'm) \<Rightarrow> ('n \<Rightarrow> 'v :: comm_monoid_add) \<Rightarrow> ('m \<Rightarrow> 'v) \<Rightarrow> 'p set
    \<Rightarrow> ('p, 'n, 'm) net \<Rightarrow> 'v" where
  "net_mass own mass mmass P s =
     (\<Sum>p \<in> P. mass (peers s p)) + (\<Sum>p \<in> waiting s. mmass (own (peers s p)))
       + (\<Sum>m \<in># flight s. mmass m)"

lemma sum_upd:
  fixes f :: "'n \<Rightarrow> 'v :: comm_monoid_add"
  assumes "finite A" "p \<in> A"
  shows "(\<Sum>q \<in> A. f ((g(p := n)) q)) = f n + (\<Sum>q \<in> A - {p}. f (g q))"
    and "(\<Sum>q \<in> A. f (g q)) = f (g p) + (\<Sum>q \<in> A - {p}. f (g q))"
proof -
  have "(\<Sum>q \<in> A - {p}. f ((g(p := n)) q)) = (\<Sum>q \<in> A - {p}. f (g q))"
    by (rule sum.cong) auto
  then show "(\<Sum>q \<in> A. f ((g(p := n)) q)) = f n + (\<Sum>q \<in> A - {p}. f (g q))"
    using assms by (simp add: sum.remove del: fun_upd_apply) simp
qed (use assms in \<open>simp add: sum.remove\<close>)

lemma sum_upd_same:
  assumes "\<And>q. q = p \<Longrightarrow> f n = f (g p)"
  shows "(\<Sum>q \<in> A. f ((g(p := n)) q)) = (\<Sum>q \<in> A. f (g q))"
  by (rule sum.cong) (auto simp: assms)

subsection \<open>The interface of a participant\<close>

locale push_sum =
  fixes merge :: "'n \<Rightarrow> 'n option" and own :: "'n \<Rightarrow> 'm"
    and receive :: "'m \<Rightarrow> 'n \<Rightarrow> 'n option" and settle :: "bool \<Rightarrow> 'n \<Rightarrow> 'n option"
    and ok :: "'n \<Rightarrow> bool" and mok :: "'m \<Rightarrow> bool" and K :: "'k set"
    and mass :: "'k \<Rightarrow> 'n \<Rightarrow> 'v :: comm_monoid_add" and mmass :: "'k \<Rightarrow> 'm \<Rightarrow> 'v"
  assumes own_ok: "ok n \<Longrightarrow> mok (own n)"
    and merge_ok: "ok n \<Longrightarrow> \<exists>n'. merge n = Some n' \<and> ok n'
          \<and> (\<forall>k \<in> K. mass k n' + mmass k (own n') = mass k n)"
    and receive_ok: "ok n \<Longrightarrow> mok m \<Longrightarrow> \<exists>n'. receive m n = Some n' \<and> ok n' \<and> own n' = own n
          \<and> (\<forall>k \<in> K. mass k n' = mass k n + mmass k m)"
    and settle_ok: "ok n \<Longrightarrow> \<exists>n'. settle b n = Some n' \<and> ok n'
          \<and> (\<forall>k \<in> K. mass k n' = (if b then mass k n else mass k n + mmass k (own n)))"
begin

definition net_ok :: "'p set \<Rightarrow> ('p, 'n, 'm) net \<Rightarrow> bool" where
  "net_ok P s \<longleftrightarrow> finite P \<and> waiting s \<subseteq> P \<and> (\<forall>p \<in> P. ok (peers s p)) \<and> (\<forall>m \<in># flight s. mok m)"

lemma step_conserves:
  assumes "net_step merge own receive settle P s s'" "net_ok P s" "k \<in> K"
  shows "net_ok P s' \<and> net_mass own (mass k) (mmass k) P s' = net_mass own (mass k) (mmass k) P s"
  using assms(1)
proof cases
  case (merge p n)
  have p: "ok (peers s p)" "finite P" "finite (waiting s)"
    using assms(2) merge by (auto simp: net_ok_def intro: finite_subset)
  from merge_ok [OF p(1)] merge assms(3) have n: "ok n" "mass k n + mmass k (own n) = mass k (peers s p)"
    by auto
  have w: "(\<Sum>q \<in> waiting s. mmass k (own (((peers s)(p := n)) q))) = (\<Sum>q \<in> waiting s. mmass k (own (peers s q)))"
    using merge by (intro sum.cong) auto
  show ?thesis
    using assms(2) p merge n(1) n(2) [symmetric] sum_upd(1) [OF p(2) merge(2), of "mass k" "peers s" n] sum_upd(2) [OF p(2) merge(2), of "mass k" "peers s"] w
    by (auto simp: net_ok_def net_mass_def ac_simps)
next
  case (sent p n)
  have p: "ok (peers s p)" "finite P" "finite (waiting s)" "p \<in> P"
    using assms(2) sent by (auto simp: net_ok_def intro: finite_subset)
  from settle_ok [OF p(1), of True] sent assms(3) have n: "ok n" "mass k n = mass k (peers s p)" by auto
  have w: "(\<Sum>q \<in> waiting s - {p}. mmass k (own (((peers s)(p := n)) q)))
      = (\<Sum>q \<in> waiting s - {p}. mmass k (own (peers s q)))"
    by (intro sum.cong) auto
  show ?thesis
    using assms(2) p sent n w own_ok [OF p(1)] sum_upd(1) [OF p(2,4), of "mass k" "peers s" n] sum_upd(2) [OF p(2,4), of "mass k" "peers s"]
      sum_upd(2) [OF p(3) sent(2), of "\<lambda>n. mmass k (own n)" "peers s"]
    by (auto simp: net_ok_def net_mass_def ac_simps)
next
  case (failed p n)
  have p: "ok (peers s p)" "finite P" "finite (waiting s)" "p \<in> P"
    using assms(2) failed by (auto simp: net_ok_def intro: finite_subset)
  from settle_ok [OF p(1), of False] failed assms(3)
  have n: "ok n" "mass k n = mass k (peers s p) + mmass k (own (peers s p))" by auto
  have w: "(\<Sum>q \<in> waiting s - {p}. mmass k (own (((peers s)(p := n)) q)))
      = (\<Sum>q \<in> waiting s - {p}. mmass k (own (peers s q)))"
    by (intro sum.cong) auto
  show ?thesis
    using assms(2) p failed n w sum_upd(1) [OF p(2,4), of "mass k" "peers s" n] sum_upd(2) [OF p(2,4), of "mass k" "peers s"]
      sum_upd(2) [OF p(3) failed(2), of "\<lambda>n. mmass k (own n)" "peers s"]
    by (auto simp: net_ok_def net_mass_def ac_simps)
next
  case (deliver p m n)
  have p: "ok (peers s p)" "finite P" "finite (waiting s)" "mok m"
    using assms(2) deliver by (auto simp: net_ok_def intro: finite_subset)
  from receive_ok [OF p(1,4)] deliver assms(3)
  have n: "ok n" "own n = own (peers s p)" "mass k n = mass k (peers s p) + mmass k m" by auto
  have w: "(\<Sum>q \<in> waiting s. mmass k (own (((peers s)(p := n)) q))) = (\<Sum>q \<in> waiting s. mmass k (own (peers s q)))"
    using n by (intro sum.cong) auto
  obtain F where F: "flight s = add_mset m F" using deliver(3) by (metis insert_DiffM)
  show ?thesis
    using assms(2) p deliver n w F sum_upd(1) [OF p(2) deliver(2), of "mass k" "peers s" n] sum_upd(2) [OF p(2) deliver(2), of "mass k" "peers s"]
    by (auto simp: net_ok_def net_mass_def ac_simps)
qed

lemma steps_conserve:
  assumes "(net_step merge own receive settle P)\<^sup>*\<^sup>* s s'" "net_ok P s" "k \<in> K"
  shows "net_ok P s' \<and> net_mass own (mass k) (mmass k) P s' = net_mass own (mass k) (mmass k) P s"
  using assms(1)
proof (induction rule: rtranclp_induct)
  case (step s1 s2)
  with step_conserves [OF step(2) _ assms(3)] show ?case by simp
qed (use assms in simp)

lemma never_stuck:
  assumes "net_ok P s"
  shows "p \<in> P \<Longrightarrow> p \<notin> waiting s \<Longrightarrow> \<exists>n. merge (peers s p) = Some n"
    and "p \<in> waiting s \<Longrightarrow> \<exists>n. settle b (peers s p) = Some n"
    and "p \<in> P \<Longrightarrow> m \<in># flight s \<Longrightarrow> \<exists>n. receive m (peers s p) = Some n"
proof -
  have ok: "ok (peers s p)" if "p \<in> P \<or> p \<in> waiting s" using assms that by (auto simp: net_ok_def)
  show "p \<in> P \<Longrightarrow> p \<notin> waiting s \<Longrightarrow> \<exists>n. merge (peers s p) = Some n"
    using merge_ok [OF ok] by blast
  show "p \<in> waiting s \<Longrightarrow> \<exists>n. settle b (peers s p) = Some n"
    using settle_ok [OF ok, of b] by blast
  show "p \<in> P \<Longrightarrow> m \<in># flight s \<Longrightarrow> \<exists>n. receive m (peers s p) = Some n"
    using receive_ok [OF ok] assms by (fastforce simp: net_ok_def)
qed

end

subsection \<open>The lists of a team as a participant\<close>

text \<open>The mass of a list at a signature: its effective frequency or weight.\<close>

definition list_mass :: "sig \<times> bool \<Rightarrow> 'd :: zero sigmap \<Rightarrow> 'd" where
  "list_mass k t = (if snd k then fst (eff t (fst k)) else snd (eff t (fst k)))"

definition slot_mass :: "sig \<times> bool \<Rightarrow> 'd :: monoid_add vecomap \<Rightarrow> 'd" where
  "slot_mass k ts = (\<Sum>t \<leftarrow> ts. list_mass k t)"

definition slot_ok :: "bool \<Rightarrow> 'd :: zero vecomap \<Rightarrow> bool" where
  "slot_ok van ts \<longleftrightarrow> ts \<noteq> [] \<and> (\<forall>t \<in> set ts. gossip_wf van t)"

definition slot_receive :: "'d sigmap \<Rightarrow> 'd vecomap \<Rightarrow> 'd vecomap option" where
  "slot_receive t ts = Some (ts @ [t])"

definition slot_settle :: "bool \<Rightarrow> 'd :: {zero, one, plus, times, inverse} vecomap \<Rightarrow> 'd vecomap option" where
  "slot_settle succ ts = (if succ then Some ts else multiplyfreq ts 0 2 2)"

definition real_sigs :: "(sig \<times> bool) set" where
  "real_sigs = {k. fst k \<noteq> hldsig}"

lemma multiplyfreq_2_2:
  fixes t :: "'d :: field_char_0 sigmap"
  assumes "t \<noteq> []"
  shows "multiplyfreq (t # ts) 0 2 2 = Some (map (scale_entry (\<lambda>f. f * 2) (\<lambda>w. w * 2)) t # ts)"
  using assms by (cases t) (simp_all add: multiplyfreq_def dbl_of_2)

lemma gossip_wf_nonempty: "gossip_wf van t \<Longrightarrow> t \<noteq> []"
  by (auto simp: gossip_wf_def omap_find_def)

interpretation slot: push_sum "mergelists van" hd slot_receive slot_settle "slot_ok van"
    "gossip_wf van" real_sigs slot_mass
    "list_mass :: sig \<times> bool \<Rightarrow> 'd :: field_char_0 sigmap \<Rightarrow> 'd" for van
proof unfold_locales
  fix ts :: "'d vecomap"
  assume ok: "slot_ok van ts"
  then show "gossip_wf van (hd ts)" by (cases ts) (auto simp: slot_ok_def)
  obtain T where T: "mergelists van ts = Some [T]" "gossip_wf van T"
    and eff: "\<And>s. s \<noteq> hldsig \<Longrightarrow>
       eff T s = ((\<Sum>t \<leftarrow> ts. fst (eff t s)) / 2, (\<Sum>t \<leftarrow> ts. snd (eff t s)) / 2)"
    using mergelists_spec [of ts van] ok unfolding slot_ok_def by blast
  have "slot_mass k [T] + list_mass k T = slot_mass k ts" if "k \<in> real_sigs" for k
    using that eff [of "fst k"] by (simp add: slot_mass_def list_mass_def real_sigs_def)
  with T show "\<exists>ts'. mergelists van ts = Some ts' \<and> slot_ok van ts'
      \<and> (\<forall>k \<in> real_sigs. slot_mass k ts' + list_mass k (hd ts') = slot_mass k ts)"
    by (intro exI [of _ "[T]"]) (simp add: slot_ok_def)
  show "\<exists>ts'. slot_receive m ts = Some ts' \<and> slot_ok van ts' \<and> hd ts' = hd ts
      \<and> (\<forall>k \<in> real_sigs. slot_mass k ts' = slot_mass k ts + list_mass k m)"
    if "gossip_wf van m" for m
    using ok that by (auto simp: slot_receive_def slot_ok_def slot_mass_def)
  obtain t rest where ts: "ts = t # rest" using ok by (cases ts) (auto simp: slot_ok_def)
  then have t: "gossip_wf van t" "t \<noteq> []" using ok gossip_wf_nonempty by (auto simp: slot_ok_def)
  have "list_mass k (map (scale_entry (\<lambda>f. f * 2) (\<lambda>w. w * 2)) t) = list_mass k t + list_mass k t" for k
    by (simp add: list_mass_def eff_scale map_prod_def split: prod.splits)
  then show "\<exists>ts'. slot_settle b ts = Some ts' \<and> slot_ok van ts'
      \<and> (\<forall>k \<in> real_sigs. slot_mass k ts' = (if b then slot_mass k ts else slot_mass k ts + list_mass k (hd ts)))"
    for b
    using ok t gossip_wf_scale [of "\<lambda>f. f * 2" van t "\<lambda>w. w * 2"]
    by (auto simp: slot_settle_def ts multiplyfreq_2_2 slot_mass_def slot_ok_def)
qed

subsection \<open>A VanillaXGossip peer as a participant\<close>

text \<open>A peer that gossips without a round limit and takes failed messages back; its lists are
  well formed.\<close>

definition vx_ok :: "('d :: zero, 'z) node_scheme \<Rightarrow> bool" where
  "vx_ok st \<longleftrightarrow>
     vanilla st \<and> \<not> gossipdone st \<and> consume_failed_msgs st \<and> rounds st < 0
   \<and> txseq st \<noteq> [] \<and> 0 \<le> last (txseq st) \<and> (\<exists>ts. totalT st = [ts] \<and> slot_ok True ts)"

definition vx_own :: "('d, 'z) node_scheme \<Rightarrow> 'd sigmap" where
  "vx_own st = hd (hd (totalT st))"

text \<open>The tests of \<^verbatim>\<open>readgossip\<close> on the phase and the round do not appear: with \<^verbatim>\<open>accept_anyround\<close>, which the program never clears, they refuse
  no list.\<close>

definition vx_receive :: "'d sigmap \<Rightarrow> ('d, 'z) node_scheme \<Rightarrow> ('d, 'z) node_scheme option" where
  "vx_receive t st = add2vecomapv (map fst t) (map (fst \<circ> snd) t) (map (snd \<circ> snd) t) st"

definition vx_settle :: "bool \<Rightarrow> ('d :: {zero, one, plus, times, inverse}, 'z) node_scheme
    \<Rightarrow> ('d, 'z) node_scheme option" where
  "vx_settle succ st = vx_result (if succ then SUCC else FAIL) st"

definition vx_mass :: "sig \<times> bool \<Rightarrow> ('d :: monoid_add, 'z) node_scheme \<Rightarrow> 'd" where
  "vx_mass k st = slot_mass k (hd (totalT st))"

lemma vx_okE:
  assumes "vx_ok st"
  obtains ts where "totalT st = [ts]" "slot_ok True ts" "vanilla st" "\<not> gossipdone st"
    "consume_failed_msgs st" "rounds st < 0" "txseq st \<noteq> []" "0 \<le> last (txseq st)"
  using assms by (auto simp: vx_ok_def)

lemma vx_settle_slot:
  assumes "vx_ok st" "totalT st = [ts]" "slot_settle b ts = Some ts'"
  shows "vx_settle b st = Some (st\<lparr>totalT := [ts'], txseq := txseq st @ [last (txseq st) + 1]\<rparr>)"
  using assms
  by (cases b) (auto simp: vx_settle_def vx_result_def slot_result_def end_round_def slot_settle_def
      vx_ok_def)

interpretation vx: push_sum vx_merge vx_own vx_receive vx_settle vx_ok "gossip_wf True" real_sigs
    "vx_mass :: sig \<times> bool \<Rightarrow> ('d :: field_char_0, 'z) node_scheme \<Rightarrow> 'd" list_mass
proof unfold_locales
  fix st :: "('d, 'z) node_scheme"
  assume ok: "vx_ok st"
  then obtain ts where ts: "totalT st = [ts]" "slot_ok True ts" "vanilla st" "\<not> gossipdone st"
    "consume_failed_msgs st" "rounds st < 0" "txseq st \<noteq> []" "0 \<le> last (txseq st)"
    by (rule vx_okE)
  note slot = slot.own_ok [OF ts(2)] slot.merge_ok [OF ts(2)] slot.receive_ok [OF ts(2)]
    slot.settle_ok [OF ts(2)]
  show "gossip_wf True (vx_own st)" using slot(1) by (simp add: vx_own_def ts)
  obtain ts' where m: "mergelists True ts = Some ts'" "slot_ok True ts'"
    "\<forall>k \<in> real_sigs. slot_mass k ts' + list_mass k (hd ts') = slot_mass k ts" using slot(2) by blast
  have "vx_merge st = Some (st\<lparr>totalT := [ts']\<rparr>)"
    using ts m(1) by (auto simp: vx_merge_def check_done_def merge_slot_def Let_def)
  with m ts show "\<exists>st'. vx_merge st = Some st' \<and> vx_ok st'
      \<and> (\<forall>k \<in> real_sigs. vx_mass k st' + list_mass k (vx_own st') = vx_mass k st)"
    by (auto simp: vx_ok_def vx_mass_def vx_own_def)
  show "\<exists>st'. vx_receive m st = Some st' \<and> vx_ok st' \<and> vx_own st' = vx_own st
      \<and> (\<forall>k \<in> real_sigs. vx_mass k st' = vx_mass k st + list_mass k m)"
    if "gossip_wf True m" for m
    using ts that msg_list_entries [of m] slot(3) [OF that]
    by (auto simp: vx_receive_def add2vecomapv_def gossip_wf_def vx_ok_def vx_mass_def vx_own_def
        slot_receive_def)
  show "\<exists>st'. vx_settle b st = Some st' \<and> vx_ok st'
      \<and> (\<forall>k \<in> real_sigs. vx_mass k st' = (if b then vx_mass k st else vx_mass k st + list_mass k (vx_own st)))"
    for b
    using slot(4) [of b] vx_settle_slot [OF ok ts(1), of b] ts
    by (auto simp: vx_ok_def vx_mass_def vx_own_def)
qed

subsection \<open>Properties\<close>

text \<open>
  C1: VanillaXGossip conserves mass. From any well-formed peers, after any interleaving of
  merges, successful sends, failed sends and deliveries to arbitrary peers, the frequency and
  the weight of every signature, summed over all lists held, waiting and in flight (a list
  without the signature counts with its dummy), are those of the start. The peers stay well
  formed, and no operation that is due runs into undefined behaviour.
\<close>

theorem vanilla_mass_conserved:
  fixes s :: "('p, ('d :: field_char_0, 'z) node_scheme, 'd sigmap) net"
  assumes "finite P" "\<forall>p \<in> P. vx_ok (peers s p)" "waiting s = {}" "flight s = {#}"
    and "(net_step vx_merge vx_own vx_receive vx_settle P)\<^sup>*\<^sup>* s s'" "sg \<noteq> hldsig"
  shows "net_mass vx_own (vx_mass (sg, b)) (list_mass (sg, b)) P s'
      = (\<Sum>p \<in> P. vx_mass (sg, b) (peers s p))
    \<and> (\<forall>p \<in> P. vx_ok (peers s' p) \<and> (p \<notin> waiting s' \<longrightarrow> vx_merge (peers s' p) \<noteq> None)
        \<and> (p \<in> waiting s' \<longrightarrow> (\<forall>r. vx_settle r (peers s' p) \<noteq> None))
        \<and> (\<forall>m \<in># flight s'. vx_receive m (peers s' p) \<noteq> None))"
proof -
  have ok: "vx.net_ok P s" using assms(1-4) by (simp add: vx.net_ok_def)
  have "(sg, b) \<in> real_sigs" using assms(6) by (simp add: real_sigs_def)
  from vx.steps_conserve [OF assms(5) ok this]
  have ok': "vx.net_ok P s'" and mass: "net_mass vx_own (vx_mass (sg, b)) (list_mass (sg, b)) P s'
      = net_mass vx_own (vx_mass (sg, b)) (list_mass (sg, b)) P s" by auto
  have "vx_ok (peers s' p)" if "p \<in> P" for p using ok' that by (simp add: vx.net_ok_def)
  then show ?thesis
    using mass vx.never_stuck [OF ok'] assms(3,4) by (fastforce simp: net_mass_def)
qed

text \<open>Two peers of VanillaXGossip at the start of the execution phase, for concrete runs.\<close>

definition sample_net :: "(nat, rat node, rat sigmap) net" where
  "sample_net =
     \<lparr>peers = (\<lambda>p. sample_node [[if p = 0 then [(Sig [1], 0, 1), (Sig [5], 4, 1)] else [(Sig [1], 0, 1)]]]),
      waiting = {}, flight = {#}\<rparr>"

lemma sample_list_wf:
  "gossip_wf True [(Sig [1], 0, 1), (Sig [5], 4, 1 :: rat)]" "gossip_wf True [(Sig [1], 0, 1 :: rat)]"
  by (simp_all add: gossip_wf_def omap_wf_def omap_find_def dummysig_def less_eq_sig_def less_sig_def
      CompareSig_def)

lemma sample_net_ok: "vx_ok (peers sample_net p)"
  using sample_list_wf by (simp add: vx_ok_def sample_net_def sample_node_def slot_ok_def)

theorem vanilla_mass_conserved_witness:
  "\<exists>s'. net_step vx_merge vx_own vx_receive vx_settle {0, 1} sample_net s'
     \<and> net_mass vx_own (vx_mass (Sig [5], True)) (list_mass (Sig [5], True)) {0, 1} s' = 4"
proof -
  obtain n where "vx_merge (peers sample_net 0) = Some n" using vx.merge_ok [OF sample_net_ok] by blast
  then have step: "net_step vx_merge vx_own vx_receive vx_settle {0, 1} sample_net
      (sample_net\<lparr>peers := (peers sample_net)(0 := n), waiting := insert 0 (waiting sample_net)\<rparr>)"
    (is "net_step _ _ _ _ _ _ ?s'")
    by (intro net_step.merge) (simp_all add: sample_net_def)
  have init: "waiting sample_net = {}" "flight sample_net = {#}" by (simp_all add: sample_net_def)
  have "net_mass vx_own (vx_mass (Sig [5], True)) (list_mass (Sig [5], True)) {0, 1} ?s'
      = (\<Sum>p \<in> {0, 1}. vx_mass (Sig [5], True) (peers sample_net p))"
    using vanilla_mass_conserved
      [OF _ _ init r_into_rtranclp [of "net_step _ _ _ _ _", OF step], where sg = "Sig [5]" and b = True] sample_net_ok
    by (simp add: hldsig_def)
  also have "\<dots> = 4"
    by (simp add: sample_net_def sample_node_def vx_mass_def slot_mass_def list_mass_def eff_def
        omap_find_def dummysig_def)
  finally show ?thesis using step by blast
qed

subsection \<open>After gossip is done\<close>

lemma sum_entries_Some:
  assumes "\<forall>t \<in> set ts. omap_find t dummysig \<noteq> None"
  shows "sum_entries m ts citr a b \<noteq> None"
  using assms
proof (induction m ts citr a b rule: sum_entries.induct)
  case (1 m t ts it citr a b)
  then have "contribution m t it \<noteq> None" by (auto simp: contribution_def split: list.splits)
  with 1 show ?case by auto
qed auto

lemma dummy_weights_Some:
  "\<forall>t \<in> set ts. omap_find t dummysig \<noteq> None \<Longrightarrow> dummy_weights ts a \<noteq> None"
  by (induction ts arbitrary: a) auto

lemma nogossip_loop_Some:
  assumes "\<forall>t \<in> set ts. omap_find t dummysig \<noteq> None"
  shows "nogossip_loop ts citr = Some ()"
  using assms
proof (induction ts citr rule: nogossip_loop.induct)
  case (1 ts citr)
  show ?case
  proof (cases "find_minsig citr")
    case None
    with 1(2) dummy_weights_Some [of ts 0] show ?thesis by (subst nogossip_loop.simps) auto
  next
    case (Some m)
    with 1 sum_entries_Some [of ts m citr 0 0] show ?thesis by (subst nogossip_loop.simps) auto
  qed
qed

text \<open>
  C40: once gossip is done, merging throws received lists away. On well-formed lists
  \<^verbatim>\<open>mergelists_nogossip\<close> returns normally but keeps only the own list, unchanged: the mass of
  every list received after the last round is lost, although the caller goes on merging in
  order to account for it.
\<close>

theorem nogossip_discards_received:
  fixes t :: "'d :: field_char_0 sigmap"
  assumes "slot_ok van (t # recvd)"
  shows "mergelists_nogossip van (t # recvd) = Some [t]"
proof -
  have wf: "\<forall>u \<in> set (t # recvd). gossip_wf van u" using assms by (simp add: slot_ok_def)
  then have "\<forall>u \<in> set (t # recvd). omap_find u dummysig \<noteq> None" by (auto simp: gossip_wf_def)
  moreover have "list_all (\<lambda>u. (if van then 1 else 2) \<le> length u) (t # recvd)"
    using wf gossip_wf_drop(1) [OF _ refl] unfolding list_all_iff by blast
  ultimately show ?thesis by (simp add: mergelists_nogossip_def Let_def nogossip_loop_Some)
qed

theorem nogossip_discards_received_witness:
  "mergelists_nogossip True [[(Sig [1], 0, 1 :: rat)], [(Sig [1], 0, 1), (Sig [5], 4, 1)]]
     = Some [[(Sig [1], 0, 1)]]"
  using nogossip_discards_received [of True "[(Sig [1], 0, 1)]" "[[(Sig [1], 0, 1), (Sig [5], 4, 1 :: rat)]]"]
    sample_list_wf by (simp add: slot_ok_def)

end
