(* ===== verification/Xgossip_Network.thy ===== *)
theory Xgossip_Network
  imports Gossip_Network Node_Correct
begin

text \<open>
  A network of whole XGossip peers. A round of a peer merges the lists of all its teams, then
  sends them one after the other; an identifier that is not found is skipped. A list that
  reaches a peer without its team is dropped there, as \<^verbatim>\<open>add2vecomapx\<close> does. The network
  refines, team by team, the network of team lists of \<open>Gossip_Network\<close>, from which the mass
  balance follows: what is not held, waiting or in flight has been dropped.
\<close>

subsection \<open>Peers\<close>

text \<open>A peer that gossips without a round limit and outside broadcast mode, and takes failed
  messages back. Every list belongs to a team with an identifier other than 0.\<close>

definition xg_ok :: "('d :: zero, 'z) node_scheme \<Rightarrow> bool" where
  "xg_ok st \<longleftrightarrow>
     \<not> vanilla st \<and> \<not> bcast st \<and> \<not> gossipdone st \<and> consume_failed_msgs st \<and> rounds st < 0
   \<and> txseq st \<noteq> [] \<and> 0 \<le> last (txseq st)
   \<and> teams_ok (teamindex st) (length (totalT st))
   \<and> (\<forall>i < length (totalT st). \<exists>k. k \<noteq> 0 \<and> omap_find (teamindex st) k = Some [i])
   \<and> (\<forall>ts \<in> set (totalT st). slot_ok False ts)"

text \<open>The lists a peer holds for a team.\<close>

definition slot_of :: "('d, 'z) node_scheme \<Rightarrow> chordID \<Rightarrow> 'd vecomap" where
  "slot_of st k =
     (case omap_find (teamindex st) k of Some (i # _) \<Rightarrow> totalT st ! i | _ \<Rightarrow> [])"

lemma xg_ok_team:
  assumes "xg_ok st" "omap_find (teamindex st) k = Some ixs"
  obtains i where "ixs = [i]" "i < length (totalT st)" "slot_of st k = totalT st ! i"
    "slot_ok False (totalT st ! i)"
  using assms by (auto simp: xg_ok_def teams_ok_def slot_of_def)

lemma team_inj:
  "xg_ok st \<Longrightarrow> omap_find (teamindex st) k = Some [i] \<Longrightarrow> omap_find (teamindex st) k' = Some [i] \<Longrightarrow> k = k'"
  unfolding xg_ok_def teams_ok_def by blast

lemma slot_of_update:
  assumes "xg_ok st" "i < length (totalT st)"
  shows "slot_of (st\<lparr>totalT := (totalT st)[i := ts]\<rparr>) k
    = (if omap_find (teamindex st) k = Some [i] then ts else slot_of st k)"
  using assms by (auto simp: slot_of_def xg_ok_def teams_ok_def split: option.splits list.splits)

lemma xg_ok_update:
  assumes "xg_ok st" "i < length (totalT st)" "slot_ok False ts"
  shows "xg_ok (st\<lparr>totalT := (totalT st)[i := ts]\<rparr>)"
  using assms set_update_subset_insert [of "totalT st" i ts] by (auto simp: xg_ok_def)

lemma slot_changed:
  assumes "xg_ok st" "omap_find (teamindex st) k = Some [i]" "slot_ok False ts"
  defines "st' \<equiv> st\<lparr>totalT := (totalT st)[i := ts]\<rparr>"
  shows "xg_ok st' \<and> teamindex st' = teamindex st \<and> slot_of st' k = ts
    \<and> (\<forall>k'. k' \<noteq> k \<longrightarrow> slot_of st' k' = slot_of st k')"
proof -
  have i: "i < length (totalT st)" using xg_ok_team [OF assms(1,2)] by auto
  have "omap_find (teamindex st) k' \<noteq> Some [i]" if "k' \<noteq> k" for k'
    using team_inj [OF assms(1,2)] that by blast
  then show ?thesis
    unfolding st'_def using slot_of_update [OF assms(1) i] xg_ok_update [OF assms(1) i assms(3)] assms(2)
    by simp
qed

lemma findteamid_team:
  assumes "xg_ok st" "omap_find (teamindex st) k = Some [i]"
  shows "findteamid (teamindex st) i = k"
proof -
  have d: "distinct (map fst (teamindex st))"
    using assms(1) by (simp add: xg_ok_def teams_ok_def omap_wf_def sorted_wrt_less_distinct)
  have "(k, [i]) \<in> set (teamindex st)" using assms(2) by (auto simp: omap_find_def dest: map_of_SomeD)
  then have "find (\<lambda>(k, ixs). i \<in> set ixs) (teamindex st) \<noteq> None"
    unfolding find_None_iff by force
  then obtain k' ixs where f: "find (\<lambda>(k, ixs). i \<in> set ixs) (teamindex st) = Some (k', ixs)" by auto
  then have ixs: "(k', ixs) \<in> set (teamindex st)" "i \<in> set ixs"
    by (auto simp: find_Some_iff in_set_conv_nth)
  then have "omap_find (teamindex st) k' = Some ixs" using d by (simp add: omap_find_def)
  moreover obtain j where "ixs = [j]" using xg_ok_team [OF assms(1) calculation] by metis
  then have "ixs = [i]" using ixs(2) by simp
  ultimately show ?thesis using f team_inj [OF assms] by (simp add: findteamid_def)
qed

text \<open>Every operation acts on the lists of a team as the team list operations do.\<close>

lemma merge_all_slots:
  fixes tT :: "'d :: field_char_0 vecomap list"
  assumes "\<not> vanilla st" "\<not> gossipdone st" "\<forall>ts \<in> set tT. slot_ok False ts"
  shows "\<exists>tT'. merge_all st tT = Some tT'
    \<and> list_all2 (\<lambda>ts ts'. mergelists False ts = Some ts' \<and> slot_ok False ts') tT tT'"
  using assms(3)
proof (induction tT)
  case (Cons ts tT)
  then obtain ts' where "mergelists False ts = Some ts'" "slot_ok False ts'"
    using slot.merge_ok [of False ts] by auto
  with Cons assms show ?case by (auto simp: merge_slot_def)
qed simp

lemma xg_merge_slots:
  fixes st :: "('d :: field_char_0, 'z) node_scheme"
  assumes "xg_ok st"
  shows "\<exists>st'. xg_merge st = Some st' \<and> xg_ok st' \<and> teamindex st' = teamindex st
    \<and> (\<forall>k. omap_find (teamindex st) k \<noteq> None \<longrightarrow> mergelists False (slot_of st k) = Some (slot_of st' k))"
proof -
  obtain tT where tT: "merge_all st (totalT st) = Some tT"
    "list_all2 (\<lambda>ts ts'. mergelists False ts = Some ts' \<and> slot_ok False ts') (totalT st) tT"
    using merge_all_slots [of st "totalT st"] assms by (auto simp: xg_ok_def)
  let ?st = "st\<lparr>totalT := tT\<rparr>"
  have "last (txseq st) \<noteq> rounds st" using assms by (simp add: xg_ok_def)
  then have "xg_merge st = Some ?st"
    using tT(1) assms by (simp add: xg_merge_def check_done_def Let_def xg_ok_def)
  moreover have "xg_ok ?st"
    using assms tT(2) by (auto simp: xg_ok_def list_all2_conv_all_nth in_set_conv_nth)
  moreover have "mergelists False (slot_of st k) = Some (slot_of ?st k)"
    if k: "omap_find (teamindex st) k = Some ixs" for k ixs
  proof -
    obtain i where i: "ixs = [i]" "i < length (totalT st)" using xg_ok_team [OF assms k] by metis
    then have "mergelists False (totalT st ! i) = Some (tT ! i)"
      using tT(2) by (simp add: list_all2_conv_all_nth)
    then show ?thesis using i k by (simp add: slot_of_def)
  qed
  ultimately show ?thesis by (intro exI [of _ ?st]) (simp, blast)
qed

lemma xg_result_slots:
  fixes st :: "('d :: field_char_0, 'z) node_scheme"
  assumes "xg_ok st" "omap_find (teamindex st) k = Some [i]"
  shows "\<exists>st'. xg_result i status st = Some st' \<and> xg_ok st' \<and> teamindex st' = teamindex st
    \<and> slot_settle (status = SUCC) (slot_of st k) = Some (slot_of st' k)
    \<and> (\<forall>k'. k' \<noteq> k \<longrightarrow> slot_of st' k' = slot_of st k')"
proof -
  from xg_ok_team [OF assms] have i: "i < length (totalT st)" "slot_of st k = totalT st ! i"
    "slot_ok False (totalT st ! i)" by auto
  obtain ts where ts: "slot_settle (status = SUCC) (totalT st ! i) = Some ts" "slot_ok False ts"
    using slot.settle_ok [OF i(3), of "status = SUCC"] by blast
  have "xg_result i status st = Some (st\<lparr>totalT := (totalT st)[i := ts]\<rparr>)"
    using ts(1) i assms(1) by (auto simp: xg_result_def slot_result_def slot_settle_def xg_ok_def)
  then show ?thesis using ts(1) i(2) slot_changed [OF assms ts(2)] by simp
qed

lemma add2vecomapx_slots:
  fixes st :: "('d :: field_char_0, 'z) node_scheme"
  assumes "xg_ok st" "omap_find (teamindex st) k = Some [i]" "gossip_wf False t"
  shows "\<exists>st'. add2vecomapx (map fst t) (map (fst \<circ> snd) t) (map (snd \<circ> snd) t) k st = Some st'
    \<and> xg_ok st' \<and> teamindex st' = teamindex st
    \<and> slot_receive t (slot_of st k) = Some (slot_of st' k)
    \<and> (\<forall>k'. k' \<noteq> k \<longrightarrow> slot_of st' k' = slot_of st k')"
proof -
  from xg_ok_team [OF assms(1,2)] have i: "i < length (totalT st)" "slot_of st k = totalT st ! i"
    "slot_ok False (totalT st ! i)" by auto
  let ?ts = "totalT st ! i @ [t]"
  have ts: "slot_ok False ?ts" using i(3) assms(3) by (auto simp: slot_ok_def)
  have "omap_wf t" using assms(3) by (simp add: gossip_wf_def)
  then have "add2vecomapx (map fst t) (map (fst \<circ> snd) t) (map (snd \<circ> snd) t) k st
      = Some (st\<lparr>totalT := (totalT st)[i := ?ts]\<rparr>)"
    using i assms(2) by (simp add: add2vecomapx_def msg_list_entries)
  then show ?thesis using i(2) slot_changed [OF assms(1,2) ts] by (simp add: slot_receive_def)
qed

lemma add2vecomapx_dropped:
  assumes "xg_ok st" "omap_find (teamindex st) k = None" "gossip_wf False t"
  shows "add2vecomapx (map fst t) (map (fst \<circ> snd) t) (map (snd \<circ> snd) t) k st = Some st"
  using assms by (simp add: add2vecomapx_def msg_list_entries xg_ok_def gossip_wf_def)

subsection \<open>The network\<close>

text \<open>\<open>pending\<close> are the lists that a peer still has to send in its round; \<open>xflight\<close> the
  messages, each a team with a list, that the DHT has accepted and not yet delivered.
  \<open>xlost\<close> records the messages that were delivered to a peer without the team; no peer
  reads it.\<close>

record ('p, 'n, 'd) xnet =
  xpeers :: "'p \<Rightarrow> 'n"
  pending :: "('p \<times> nat) set"
  xflight :: "(chordID \<times> 'd sigmap) multiset"
  xlost :: "(chordID \<times> 'd sigmap) multiset"

text \<open>The steps of a peer's round, and a delivery to any peer: what the peer makes of the list
  is up to \<^verbatim>\<open>add2vecomapx\<close>.\<close>

inductive xnet_step :: "'p set \<Rightarrow> ('p, ('d :: {zero, one, plus, times, inverse}, 'z) node_scheme, 'd) xnet
    \<Rightarrow> ('p, ('d, 'z) node_scheme, 'd) xnet \<Rightarrow> bool" for P where
  xmerge: "p \<in> P \<Longrightarrow> (\<forall>i. (p, i) \<notin> pending s) \<Longrightarrow> xg_merge (xpeers s p) = Some n \<Longrightarrow>
    xnet_step P s (s\<lparr>xpeers := (xpeers s)(p := n),
      pending := pending s \<union> {p} \<times> {..<length (totalT n)}\<rparr>)"
| xsent: "(p, i) \<in> pending s \<Longrightarrow> teamID = findteamid (teamindex (xpeers s p)) i \<Longrightarrow> teamID \<noteq> 0 \<Longrightarrow>
    xg_result i SUCC (xpeers s p) = Some n \<Longrightarrow>
    xnet_step P s (s\<lparr>xpeers := (xpeers s)(p := n), pending := pending s - {(p, i)},
      xflight := add_mset (teamID, hd (totalT (xpeers s p) ! i)) (xflight s)\<rparr>)"
| xfailed: "(p, i) \<in> pending s \<Longrightarrow> findteamid (teamindex (xpeers s p)) i \<noteq> 0 \<Longrightarrow> status \<noteq> SUCC \<Longrightarrow>
    xg_result i status (xpeers s p) = Some n \<Longrightarrow>
    xnet_step P s (s\<lparr>xpeers := (xpeers s)(p := n), pending := pending s - {(p, i)}\<rparr>)"
| xskipped: "(p, i) \<in> pending s \<Longrightarrow> findteamid (teamindex (xpeers s p)) i = 0 \<Longrightarrow>
    xnet_step P s (s\<lparr>pending := pending s - {(p, i)}\<rparr>)"
| xround: "p \<in> P \<Longrightarrow> (\<forall>i. (p, i) \<notin> pending s) \<Longrightarrow> end_round (xpeers s p) = Some n \<Longrightarrow>
    xnet_step P s (s\<lparr>xpeers := (xpeers s)(p := n)\<rparr>)"
| xdeliver: "p \<in> P \<Longrightarrow> (k, t) \<in># xflight s \<Longrightarrow>
    add2vecomapx (map fst t) (map (fst \<circ> snd) t) (map (snd \<circ> snd) t) k (xpeers s p) = Some n \<Longrightarrow>
    xnet_step P s (s\<lparr>xpeers := (xpeers s)(p := n), xflight := xflight s - {#(k, t)#},
      xlost := (if omap_find (teamindex (xpeers s p)) k = None then add_mset (k, t) (xlost s)
        else xlost s)\<rparr>)"

definition xnet_ok :: "'p set \<Rightarrow> ('p, ('d :: zero, 'z) node_scheme, 'd) xnet \<Rightarrow> bool" where
  "xnet_ok P s \<longleftrightarrow>
     finite P \<and> (\<forall>p \<in> P. xg_ok (xpeers s p))
   \<and> (\<forall>(p, i) \<in> pending s. p \<in> P \<and> i < length (totalT (xpeers s p)))
   \<and> (\<forall>(k, t) \<in># xflight s + xlost s. gossip_wf False t)"

text \<open>The part of a team in the network: the peers that know it, their lists for it, and the
  messages for it. To the team a dropped message is one that is never delivered.\<close>

definition team_peers :: "'p set \<Rightarrow> chordID \<Rightarrow> ('p, ('d, 'z) node_scheme, 'd) xnet \<Rightarrow> 'p set" where
  "team_peers P k s = {p \<in> P. omap_find (teamindex (xpeers s p)) k \<noteq> None}"

definition team_msgs :: "chordID \<Rightarrow> (chordID \<times> 'd sigmap) multiset \<Rightarrow> 'd sigmap multiset" where
  "team_msgs k F = image_mset snd (filter_mset (\<lambda>m. fst m = k) F)"

definition team_net :: "'p set \<Rightarrow> chordID \<Rightarrow> ('p, ('d, 'z) node_scheme, 'd) xnet
    \<Rightarrow> ('p, 'd vecomap, 'd sigmap) net" where
  "team_net P k s =
     \<lparr>peers = (\<lambda>p. slot_of (xpeers s p) k),
      waiting = {p \<in> P. \<exists>i. omap_find (teamindex (xpeers s p)) k = Some [i] \<and> (p, i) \<in> pending s},
      flight = team_msgs k (xflight s + xlost s)\<rparr>"

lemma team_msgs_simps [simp]:
  "team_msgs k {#} = {#}"
  "team_msgs k (F + G) = team_msgs k F + team_msgs k G"
  "team_msgs k (add_mset m F) = (if fst m = k then add_mset (snd m) (team_msgs k F) else team_msgs k F)"
  by (simp_all add: team_msgs_def)

lemma team_msgs_in: "t \<in># team_msgs k F \<longleftrightarrow> (k, t) \<in># F"
  by (force simp: team_msgs_def)

lemma team_msgs_remove:
  "m \<in># F \<Longrightarrow> team_msgs k (F - {#m#}) = (if fst m = k then team_msgs k F - {#snd m#} else team_msgs k F)"
  by (auto simp: team_msgs_def image_mset_Diff)

text \<open>The mass of the lists of a team that were dropped.\<close>

definition lost_mass :: "sig \<times> bool \<Rightarrow> chordID \<Rightarrow> ('p, 'n, 'd :: comm_monoid_add) xnet \<Rightarrow> 'd" where
  "lost_mass sb k s = (\<Sum>t \<in># team_msgs k (xlost s). list_mass sb t)"

subsection \<open>Refinement\<close>

abbreviation team_step :: "'p set \<Rightarrow> ('p, 'd :: {zero, one, plus, times, inverse} vecomap, 'd sigmap) net
    \<Rightarrow> ('p, 'd vecomap, 'd sigmap) net \<Rightarrow> bool" where
  "team_step \<equiv> net_step (mergelists False) hd slot_receive slot_settle"

lemma team_net_peers:
  "(\<lambda>q. slot_of (((xpeers s)(p := n)) q) k) = (\<lambda>q. slot_of (xpeers s q) k)(p := slot_of n k)"
  by auto

text \<open>The effect on a team of an update at one peer that keeps its teams.\<close>

lemma team_net_upd:
  assumes "teamindex n = teamindex (xpeers s p)"
  shows "team_net P k (s\<lparr>xpeers := (xpeers s)(p := n), pending := w, xflight := f, xlost := l\<rparr>) =
    \<lparr>peers = (peers (team_net P k s))(p := slot_of n k),
     waiting = waiting (team_net P k (s\<lparr>pending := w\<rparr>)),
     flight = team_msgs k (f + l)\<rparr>"
    and "team_peers P k (s\<lparr>xpeers := (xpeers s)(p := n), pending := w, xflight := f, xlost := l\<rparr>) = team_peers P k s"
  using assms by (auto simp: team_net_def team_peers_def fun_eq_iff)

lemma waiting_team_net:
  "q \<in> waiting (team_net P k s) \<longleftrightarrow>
     q \<in> P \<and> (\<exists>i. omap_find (teamindex (xpeers s q)) k = Some [i] \<and> (q, i) \<in> pending s)"
  by (simp add: team_net_def)

lemma waiting_removed:
  assumes "p \<in> P" "omap_find (teamindex (xpeers s p)) k0 = Some [i]" "xg_ok (xpeers s p)"
  shows "waiting (team_net P k (s\<lparr>pending := pending s - {(p, i)}\<rparr>))
    = waiting (team_net P k s) - (if k = k0 then {p} else {})"
proof -
  have "omap_find (teamindex (xpeers s p)) k = Some [i] \<longleftrightarrow> k = k0"
    using assms(2) team_inj [OF assms(3,2)] by blast
  then show ?thesis using assms(2) by (intro set_eqI) (auto simp: waiting_team_net)
qed

lemma waiting_none:
  assumes "\<forall>i. (p, i) \<notin> pending s"
  shows "p \<notin> waiting (team_net P k s)"
  using assms by (simp add: team_net_def)

lemma waiting_added:
  assumes "p \<in> P" "xg_ok n" "teamindex n = teamindex (xpeers s p)"
  shows "waiting (team_net P k (s\<lparr>pending := pending s \<union> {p} \<times> {..<length (totalT n)}\<rparr>))
    = waiting (team_net P k s) \<union> (if omap_find (teamindex (xpeers s p)) k \<noteq> None then {p} else {})"
proof (cases "omap_find (teamindex (xpeers s p)) k")
  case None
  then show ?thesis by (intro set_eqI) (auto simp: waiting_team_net)
next
  case (Some ixs)
  then obtain i where "ixs = [i]" "i < length (totalT n)" using xg_ok_team [OF assms(2)] assms(3) by metis
  then show ?thesis using assms(1) Some by (intro set_eqI) (auto simp: waiting_team_net)
qed

lemma pending_team:
  assumes "xnet_ok P s" "(p, i) \<in> pending s"
  obtains k where "p \<in> P" "xg_ok (xpeers s p)" "k \<noteq> 0" "omap_find (teamindex (xpeers s p)) k = Some [i]"
    "findteamid (teamindex (xpeers s p)) i = k" "slot_of (xpeers s p) k = totalT (xpeers s p) ! i"
proof -
  have p: "p \<in> P" "i < length (totalT (xpeers s p))" "xg_ok (xpeers s p)"
    using assms by (auto simp: xnet_ok_def)
  then obtain k where k: "k \<noteq> 0" "omap_find (teamindex (xpeers s p)) k = Some [i]"
    by (auto simp: xg_ok_def)
  then show ?thesis using that p findteamid_team [OF p(3) k(2)] by (simp add: slot_of_def)
qed

lemma lists_bound:
  assumes "xg_ok st" "xg_ok n" "teamindex n = teamindex st" "i < length (totalT st)"
  shows "i < length (totalT n)"
proof -
  obtain k where "omap_find (teamindex n) k = Some [i]" using assms by (auto simp: xg_ok_def)
  from xg_ok_team [OF assms(2) this] show ?thesis by auto
qed

lemma xnet_ok_upd:
  assumes "xnet_ok P s" "p \<in> P" "xg_ok n" "teamindex n = teamindex (xpeers s p)"
    and "w \<subseteq> pending s \<union> {p} \<times> {..<length (totalT n)}" "\<forall>(k, t) \<in># f + l. gossip_wf False t"
  shows "xnet_ok P (s\<lparr>xpeers := (xpeers s)(p := n), pending := w, xflight := f, xlost := l\<rparr>)"
proof -
  have "q \<in> P \<and> i < length (totalT (((xpeers s)(p := n)) q))" if "(q, i) \<in> w" for q i
  proof (cases "(q, i) \<in> pending s")
    case True
    then have "q \<in> P" "i < length (totalT (xpeers s q))" using assms(1) by (auto simp: xnet_ok_def)
    then show ?thesis using lists_bound [of "xpeers s p" n i] assms(1-4) by (auto simp: xnet_ok_def)
  next
    case False
    then show ?thesis using assms(2,5) that by auto
  qed
  then show ?thesis using assms by (auto simp: xnet_ok_def)
qed

text \<open>An update at one peer is nothing to a team whose lists it keeps.\<close>

lemma team_net_same:
  assumes "teamindex n = teamindex (xpeers s p)" "slot_of n k = slot_of (xpeers s p) k"
    and "waiting (team_net P k (s\<lparr>pending := w\<rparr>)) = waiting (team_net P k s)"
    and "team_msgs k (f + l) = team_msgs k (xflight s + xlost s)"
  shows "team_net P k (s\<lparr>xpeers := (xpeers s)(p := n), pending := w, xflight := f, xlost := l\<rparr>)
    = team_net P k s"
  unfolding team_net_upd [OF assms(1)] assms(3,4)
  by (simp add: team_net_def fun_eq_iff assms(2))

lemma xmerge_refines:
  fixes s :: "('p, ('d :: field_char_0, 'z) node_scheme, 'd) xnet"
  assumes "xnet_ok P s" "p \<in> P" "\<forall>i. (p, i) \<notin> pending s" "xg_merge (xpeers s p) = Some n"
  defines "s' \<equiv> s\<lparr>xpeers := (xpeers s)(p := n), pending := pending s \<union> {p} \<times> {..<length (totalT n)},
      xflight := xflight s, xlost := xlost s\<rparr>"
  shows "xnet_ok P s' \<and> team_peers P k s' = team_peers P k s
    \<and> (team_step (team_peers P k s))\<^sup>=\<^sup>= (team_net P k s) (team_net P k s')"
proof -
  have "xg_ok (xpeers s p)" using assms(1,2) by (simp add: xnet_ok_def)
  from xg_merge_slots [OF this] assms(4) have n: "xg_ok n" "teamindex n = teamindex (xpeers s p)"
    "omap_find (teamindex (xpeers s p)) k \<noteq> None \<Longrightarrow>
       mergelists False (slot_of (xpeers s p) k) = Some (slot_of n k)" by auto
  note w = waiting_added [OF assms(2) n(1,2), of k]
  have ok: "xnet_ok P s'" unfolding s'_def using assms(1)
    by (intro xnet_ok_upd [OF assms(1,2) n(1,2)]) (auto simp: xnet_ok_def)
  have "(team_step (team_peers P k s))\<^sup>=\<^sup>= (team_net P k s) (team_net P k s')"
  proof (cases "omap_find (teamindex (xpeers s p)) k = None")
    case True
    then have "slot_of n k = slot_of (xpeers s p) k" by (simp add: slot_of_def n(2))
    then have "team_net P k s' = team_net P k s"
      unfolding s'_def using True w by (intro team_net_same [OF n(2)]) simp_all
    then show ?thesis by simp
  next
    case False
    have "team_net P k s' = (team_net P k s)\<lparr>peers := (peers (team_net P k s))(p := slot_of n k),
        waiting := insert p (waiting (team_net P k s))\<rparr>"
      unfolding s'_def team_net_upd [OF n(2)] w using False by (simp add: team_net_def)
    moreover have "mergelists False (peers (team_net P k s) p) = Some (slot_of n k)"
      using n(3) False by (simp add: team_net_def)
    moreover have "p \<in> team_peers P k s" using assms(2) False by (simp add: team_peers_def)
    ultimately show ?thesis using waiting_none [OF assms(3)] by (auto intro: net_step.merge)
  qed
  moreover have "team_peers P k s' = team_peers P k s" unfolding s'_def by (rule team_net_upd(2) [OF n(2)])
  ultimately show ?thesis using ok by blast
qed

lemma xresult_refines:
  fixes s :: "('p, ('d :: field_char_0, 'z) node_scheme, 'd) xnet"
  assumes "xnet_ok P s" "(p, i) \<in> pending s" "xg_result i status (xpeers s p) = Some n"
    and "teamID = findteamid (teamindex (xpeers s p)) i"
  defines "s' \<equiv> s\<lparr>xpeers := (xpeers s)(p := n), pending := pending s - {(p, i)},
      xflight := (if status = SUCC then add_mset (teamID, hd (totalT (xpeers s p) ! i)) (xflight s)
        else xflight s), xlost := xlost s\<rparr>"
  shows "xnet_ok P s' \<and> team_peers P k s' = team_peers P k s
    \<and> (team_step (team_peers P k s))\<^sup>=\<^sup>= (team_net P k s) (team_net P k s')"
proof -
  obtain k0 where p: "p \<in> P" "xg_ok (xpeers s p)" "k0 \<noteq> 0" "omap_find (teamindex (xpeers s p)) k0 = Some [i]"
    "findteamid (teamindex (xpeers s p)) i = k0" "slot_of (xpeers s p) k0 = totalT (xpeers s p) ! i"
    using pending_team [OF assms(1,2)] .
  from xg_result_slots [OF p(2,4), of status] assms(3) have n: "xg_ok n" "teamindex n = teamindex (xpeers s p)"
    "slot_settle (status = SUCC) (slot_of (xpeers s p) k0) = Some (slot_of n k0)"
    "k \<noteq> k0 \<Longrightarrow> slot_of n k = slot_of (xpeers s p) k" by auto
  note w = waiting_removed [OF p(1,4,2), of k]
  have "slot_ok False (slot_of (xpeers s p) k0)" using xg_ok_team [OF p(2,4)] by metis
  then have "gossip_wf False (hd (totalT (xpeers s p) ! i))" using p(6) slot.own_ok by simp
  then have ok: "xnet_ok P s'" unfolding s'_def using assms(1)
    by (intro xnet_ok_upd [OF assms(1) p(1) n(1,2)]) (auto simp: xnet_ok_def)
  have "(team_step (team_peers P k s))\<^sup>=\<^sup>= (team_net P k s) (team_net P k s')"
  proof (cases "k = k0")
    case False
    then have "team_net P k s' = team_net P k s"
      unfolding s'_def using n(4) w p(5) assms(4) by (intro team_net_same [OF n(2)]) simp_all
    then show ?thesis by simp
  next
    case True
    let ?S = "team_net P k s"
    have "team_net P k s' = ?S\<lparr>peers := (peers ?S)(p := slot_of n k), waiting := waiting ?S - {p},
        flight := (if status = SUCC then add_mset (hd (peers ?S p)) (flight ?S) else flight ?S)\<rparr>"
      unfolding s'_def team_net_upd [OF n(2)] w using True p(5,6) assms(4) by (simp add: team_net_def)
    moreover have "slot_settle (status = SUCC) (peers ?S p) = Some (slot_of n k)"
      using n(3) True by (simp add: team_net_def)
    moreover have "p \<in> waiting ?S" using p(1,4) True assms(2) by (auto simp: waiting_team_net)
    ultimately show ?thesis
      by (cases "status = SUCC") (auto intro: net_step.sent net_step.failed)
  qed
  moreover have "team_peers P k s' = team_peers P k s" unfolding s'_def by (rule team_net_upd(2) [OF n(2)])
  ultimately show ?thesis using ok by blast
qed

lemma xdeliver_refines:
  fixes s :: "('p, ('d :: field_char_0, 'z) node_scheme, 'd) xnet"
  assumes "xnet_ok P s" "p \<in> P" "(k0, t) \<in># xflight s" "omap_find (teamindex (xpeers s p)) k0 \<noteq> None"
    and "add2vecomapx (map fst t) (map (fst \<circ> snd) t) (map (snd \<circ> snd) t) k0 (xpeers s p) = Some n"
  defines "s' \<equiv> s\<lparr>xpeers := (xpeers s)(p := n), pending := pending s, xflight := xflight s - {#(k0, t)#},
      xlost := xlost s\<rparr>"
  shows "xnet_ok P s' \<and> team_peers P k s' = team_peers P k s
    \<and> (team_step (team_peers P k s))\<^sup>=\<^sup>= (team_net P k s) (team_net P k s')"
proof -
  have p: "xg_ok (xpeers s p)" "gossip_wf False t" using assms(1-3) by (auto simp: xnet_ok_def)
  obtain i where i: "omap_find (teamindex (xpeers s p)) k0 = Some [i]"
    using assms(4) xg_ok_team [OF p(1)] by (metis option.exhaust)
  from add2vecomapx_slots [OF p(1) i p(2)] assms(5)
  have n: "xg_ok n" "teamindex n = teamindex (xpeers s p)"
    "slot_receive t (slot_of (xpeers s p) k0) = Some (slot_of n k0)"
    "k \<noteq> k0 \<Longrightarrow> slot_of n k = slot_of (xpeers s p) k" by auto
  have ok: "xnet_ok P s'" unfolding s'_def using assms(1)
    by (intro xnet_ok_upd [OF assms(1,2) n(1,2)]) (auto simp: xnet_ok_def dest: in_diffD)
  have "(team_step (team_peers P k s))\<^sup>=\<^sup>= (team_net P k s) (team_net P k s')"
  proof (cases "k = k0")
    case False
    then have "team_net P k s' = team_net P k s"
      unfolding s'_def using n(4) assms(3) by (intro team_net_same [OF n(2)]) (simp_all add: team_msgs_remove)
    then show ?thesis by simp
  next
    case True
    let ?S = "team_net P k s"
    have t: "t \<in># team_msgs k (xflight s)" using assms(3) True by (simp add: team_msgs_in)
    then have "team_net P k s' = ?S\<lparr>peers := (peers ?S)(p := slot_of n k), flight := flight ?S - {#t#}\<rparr>"
      unfolding s'_def team_net_upd [OF n(2)] using True assms(3)
      by (simp add: team_net_def team_msgs_remove)
    moreover have "slot_receive t (peers ?S p) = Some (slot_of n k)"
      using n(3) True by (simp add: team_net_def)
    moreover have "t \<in># flight ?S" using t by (simp add: team_net_def)
    moreover have "p \<in> team_peers P k s" using assms(2,4) True by (simp add: team_peers_def)
    ultimately show ?thesis by (auto intro: net_step.deliver)
  qed
  moreover have "team_peers P k s' = team_peers P k s" unfolding s'_def by (rule team_net_upd(2) [OF n(2)])
  ultimately show ?thesis using ok by blast
qed

text \<open>A peer without the team keeps its lists; no team notices the delivery.\<close>

lemma xdrop_refines:
  fixes s :: "('p, ('d :: field_char_0, 'z) node_scheme, 'd) xnet"
  assumes "xnet_ok P s" "p \<in> P" "(k0, t) \<in># xflight s" "omap_find (teamindex (xpeers s p)) k0 = None"
    and "add2vecomapx (map fst t) (map (fst \<circ> snd) t) (map (snd \<circ> snd) t) k0 (xpeers s p) = Some n"
  defines "s' \<equiv> s\<lparr>xpeers := (xpeers s)(p := n), pending := pending s, xflight := xflight s - {#(k0, t)#},
      xlost := add_mset (k0, t) (xlost s)\<rparr>"
  shows "xnet_ok P s' \<and> team_peers P k s' = team_peers P k s \<and> team_net P k s' = team_net P k s"
proof -
  have p: "xg_ok (xpeers s p)" "gossip_wf False t" using assms(1-3) by (auto simp: xnet_ok_def)
  have n: "n = xpeers s p" using add2vecomapx_dropped [OF p(1) assms(4) p(2)] assms(5) by simp
  obtain F where F: "xflight s = add_mset (k0, t) F" using assms(3) by (metis insert_DiffM)
  have "xnet_ok P s'" unfolding s'_def using assms(1) p(1)
    by (intro xnet_ok_upd [OF assms(1,2)]) (auto simp: xnet_ok_def n F)
  moreover have "team_net P k s' = team_net P k s"
    unfolding s'_def by (intro team_net_same) (simp_all add: n F)
  moreover have "team_peers P k s' = team_peers P k s" unfolding s'_def by (rule team_net_upd(2)) (simp add: n)
  ultimately show ?thesis by blast
qed

lemma xround_refines:
  fixes s :: "('p, ('d :: field_char_0, 'z) node_scheme, 'd) xnet"
  assumes "xnet_ok P s" "p \<in> P" "end_round (xpeers s p) = Some n"
  defines "s' \<equiv> s\<lparr>xpeers := (xpeers s)(p := n), pending := pending s, xflight := xflight s, xlost := xlost s\<rparr>"
  shows "xnet_ok P s' \<and> team_peers P k s' = team_peers P k s \<and> team_net P k s' = team_net P k s"
proof -
  have n: "xg_ok n" "teamindex n = teamindex (xpeers s p)" "slot_of n k = slot_of (xpeers s p) k"
    using assms(1-3) by (auto simp: xnet_ok_def end_round_def xg_ok_def slot_of_def split: if_splits option.splits list.splits)
  have "xnet_ok P s'" unfolding s'_def using assms(1)
    by (intro xnet_ok_upd [OF assms(1,2) n(1,2)]) (auto simp: xnet_ok_def)
  moreover have "team_net P k s' = team_net P k s"
    unfolding s'_def using n(3) by (intro team_net_same [OF n(2)]) simp_all
  moreover have "team_peers P k s' = team_peers P k s" unfolding s'_def by (rule team_net_upd(2) [OF n(2)])
  ultimately show ?thesis by blast
qed

lemma xnet_step_refines:
  fixes s :: "('p, ('d :: field_char_0, 'z) node_scheme, 'd) xnet"
  assumes "xnet_step P s s'" "xnet_ok P s"
  shows "xnet_ok P s' \<and> team_peers P k s' = team_peers P k s
    \<and> (team_step (team_peers P k s))\<^sup>=\<^sup>= (team_net P k s) (team_net P k s')"
  using assms(1)
proof cases
  case (xmerge p n)
  then show ?thesis using xmerge_refines [OF assms(2) xmerge(2-4)] by simp
next
  case (xsent p i teamID n)
  then show ?thesis using xresult_refines [OF assms(2) xsent(2,5,3), of k] by simp
next
  case (xfailed p i status n)
  then show ?thesis using xresult_refines [OF assms(2) xfailed(2,5) refl, of k] by simp
next
  case (xskipped p i)
  then show ?thesis using pending_team [OF assms(2) xskipped(2)] by metis
next
  case (xround p n)
  then show ?thesis using xround_refines [OF assms(2) xround(2,4), of k] by simp
next
  case (xdeliver p k0 t n)
  show ?thesis
  proof (cases "omap_find (teamindex (xpeers s p)) k0 = None")
    case True
    with xdrop_refines [OF assms(2) xdeliver(2,3) True xdeliver(4), of k] show ?thesis by (simp add: xdeliver(1))
  next
    case False
    from xdeliver_refines [OF assms(2) xdeliver(2,3) False xdeliver(4), of k] show ?thesis
      unfolding xdeliver(1) if_not_P [OF False] by simp
  qed
qed

text \<open>A list of a team that every peer knows is never dropped.\<close>

lemma xnet_step_lost:
  assumes "xnet_step P s s'" "team_peers P k s = P"
  shows "team_msgs k (xlost s') = team_msgs k (xlost s)"
  using assms(1)
proof cases
  case (xdeliver p k0 t n)
  have "omap_find (teamindex (xpeers s p)) k \<noteq> None" using assms(2) xdeliver(2) by (auto simp: team_peers_def)
  then have "k0 \<noteq> k" if "omap_find (teamindex (xpeers s p)) k0 = None" using that by auto
  then show ?thesis by (simp add: xdeliver(1))
qed simp_all

lemma xnet_steps_refine:
  fixes s :: "('p, ('d :: field_char_0, 'z) node_scheme, 'd) xnet"
  assumes "(xnet_step P)\<^sup>*\<^sup>* s s'" "xnet_ok P s"
  shows "xnet_ok P s' \<and> team_peers P k s' = team_peers P k s
    \<and> (team_step (team_peers P k s))\<^sup>*\<^sup>* (team_net P k s) (team_net P k s')"
  using assms(1)
proof (induction rule: rtranclp_induct)
  case (step s1 s2)
  then have "(team_step (team_peers P k s))\<^sup>=\<^sup>= (team_net P k s1) (team_net P k s2)"
    "xnet_ok P s2" "team_peers P k s2 = team_peers P k s"
    using xnet_step_refines [OF step(2), of k] by auto
  with step.IH show ?case by (auto elim: rtranclp.rtrancl_into_rtrancl)
qed (use assms in simp)

lemma xnet_steps_lost:
  fixes s :: "('p, ('d :: field_char_0, 'z) node_scheme, 'd) xnet"
  assumes "(xnet_step P)\<^sup>*\<^sup>* s s'" "xnet_ok P s" "team_peers P k s = P"
  shows "team_msgs k (xlost s') = team_msgs k (xlost s)"
  using assms(1)
proof (induction rule: rtranclp_induct)
  case (step s1 s2)
  then have "team_peers P k s1 = P" using xnet_steps_refine [OF step(1) assms(2), of k] assms(3) by simp
  with step show ?case using xnet_step_lost by metis
qed simp

lemma team_net_ok:
  fixes s :: "('p, ('d :: field_char_0, 'z) node_scheme, 'd) xnet"
  assumes "finite P" "\<forall>p \<in> P. xg_ok (xpeers s p)" "pending s = {}"
    and "xflight s = {#}" "xlost s = {#}"
  shows "slot.net_ok False (team_peers P k s) (team_net P k s)"
proof -
  have "slot_ok False (slot_of (xpeers s p) k)" if p: "p \<in> team_peers P k s" for p
  proof -
    obtain ixs where ixs: "omap_find (teamindex (xpeers s p)) k = Some ixs" "xg_ok (xpeers s p)"
      using p assms(2) by (auto simp: team_peers_def)
    from xg_ok_team [OF ixs(2,1)] show ?thesis by metis
  qed
  then show ?thesis
    using assms by (simp add: slot.net_ok_def team_peers_def) (simp add: team_net_def)
qed

subsection \<open>Properties\<close>

text \<open>
  C5: a network of XGossip peers refines, for every team, the network of that team's lists.
  The peers are well formed and outside broadcast mode. Whatever they do (whole rounds over all
  their teams, failed sends, deliveries in any order to any peer, also to peers without the
  team, which drop the list), the team sees merges of its own lists, sends of its own lists and
  deliveries to members; a list that a peer without the team drops is one that the team's
  network never delivers. The peers stay well formed and keep their teams.
\<close>

theorem xgossip_refines_teams:
  fixes s :: "('p, ('d :: field_char_0, 'z) node_scheme, 'd) xnet"
  assumes "xnet_ok P s" "(xnet_step P)\<^sup>*\<^sup>* s s'"
  shows "xnet_ok P s' \<and> team_peers P k s' = team_peers P k s
    \<and> (net_step (mergelists False) hd slot_receive slot_settle (team_peers P k s))\<^sup>*\<^sup>*
        (team_net P k s) (team_net P k s')"
  using assms(2,1) by (rule xnet_steps_refine)

text \<open>
  C6: the mass balance of XGossip, team by team. In a network of finitely many well-formed
  XGossip peers outside broadcast mode that starts with nothing pending, in flight or dropped,
  after any run, for every team and every signature but the placeholder \<^verbatim>\<open>hldsig\<close>: the
  frequency and the weight summed over the team's lists that are held, wait for the result of
  their send or are in flight, plus those of the team's lists that were delivered to a peer
  without the team and dropped there, are those of the start. When every peer knows the team,
  nothing is dropped and the mass is conserved.
\<close>

theorem xgossip_mass_conserved:
  fixes s :: "('p, ('d :: field_char_0, 'z) node_scheme, 'd) xnet"
  assumes "finite P" "\<forall>p \<in> P. xg_ok (xpeers s p)" "pending s = {}" "xflight s = {#}" "xlost s = {#}"
    and "(xnet_step P)\<^sup>*\<^sup>* s s'" "sg \<noteq> hldsig"
  shows "net_mass hd (slot_mass (sg, b)) (list_mass (sg, b)) (team_peers P k s)
          (team_net P k (s'\<lparr>xlost := {#}\<rparr>)) + lost_mass (sg, b) k s'
      = (\<Sum>p \<in> team_peers P k s. slot_mass (sg, b) (slot_of (xpeers s p) k))
    \<and> (team_peers P k s = P \<longrightarrow> lost_mass (sg, b) k s' = 0)"
proof -
  let ?mass = "net_mass hd (slot_mass (sg, b)) (list_mass (sg, b)) (team_peers P k s)"
  have ok: "xnet_ok P s" using assms(1-5) by (simp add: xnet_ok_def)
  have empty: "waiting (team_net P k s) = {}" "flight (team_net P k s) = {#}"
    using assms(3-5) by (simp_all add: team_net_def)
  have "slot.net_ok False (team_peers P k s) (team_net P k s)" using team_net_ok [OF assms(1-5)] .
  moreover have "(sg, b) \<in> real_sigs" using assms(7) by (simp add: real_sigs_def)
  ultimately have "?mass (team_net P k s') = ?mass (team_net P k s)"
    using slot.steps_conserve xnet_steps_refine [OF assms(6) ok, of k] by blast
  moreover have "?mass (team_net P k (s'\<lparr>xlost := {#}\<rparr>)) + lost_mass (sg, b) k s' = ?mass (team_net P k s')"
    by (simp add: net_mass_def team_net_def lost_mass_def)
  moreover have "?mass (team_net P k s)
      = (\<Sum>p \<in> team_peers P k s. slot_mass (sg, b) (slot_of (xpeers s p) k))"
    using empty by (simp add: net_mass_def) (simp add: team_net_def)
  moreover have "lost_mass (sg, b) k s' = 0" if "team_peers P k s = P"
    using xnet_steps_lost [OF assms(6) ok that] assms(5) by (simp add: lost_mass_def)
  ultimately show ?thesis by simp
qed

text \<open>The peers 0 and 1 share the team 9, the peer 2 does not know it; for concrete runs.\<close>

definition sample_xnet :: "(nat, rat node, rat) xnet" where
  "sample_xnet =
     \<lparr>xpeers = (\<lambda>p. (sample_node [[(Sig [0], 0, 1) # (Sig [1], 0, 1) # (if p = 0 then [(Sig [5], 4, 1)] else [])]])
        \<lparr>vanilla := False, teamindex := [(if p = 2 then 7 else 9, [0])]\<rparr>),
      pending = {}, xflight = {#}, xlost = {#}\<rparr>"

lemma sample_xnet_ok: "xg_ok (xpeers sample_xnet p)"
  by (auto simp: sample_xnet_def sample_node_def xg_ok_def teams_ok_def omap_find_def slot_ok_def
      gossip_wf_def omap_wf_def dummysig_def hldsig_def less_eq_sig_def less_sig_def CompareSig_def
      split: if_splits)

lemma sample_xnet_step:
  "\<exists>n. xnet_step {0, 1} sample_xnet (sample_xnet\<lparr>xpeers := (xpeers sample_xnet)(0 := n),
      pending := pending sample_xnet \<union> {0} \<times> {..<length (totalT n)}\<rparr>)"
proof -
  obtain n where "xg_merge (xpeers sample_xnet 0) = Some n" using xg_merge_slots [OF sample_xnet_ok] by blast
  then have "xnet_step {0, 1} sample_xnet (sample_xnet\<lparr>xpeers := (xpeers sample_xnet)(0 := n),
      pending := pending sample_xnet \<union> {0} \<times> {..<length (totalT n)}\<rparr>)"
    by (intro xnet_step.xmerge) (simp_all add: sample_xnet_def)
  then show ?thesis by blast
qed

theorem xgossip_refines_teams_witness:
  "\<exists>s'. xnet_step {0, 1} sample_xnet s' \<and> xnet_ok {0, 1} s'
     \<and> (net_step (mergelists False) hd slot_receive slot_settle (team_peers {0, 1} 9 sample_xnet))\<^sup>*\<^sup>*
        (team_net {0, 1} 9 sample_xnet) (team_net {0, 1} 9 s')"
proof -
  have "xnet_ok {0, 1} sample_xnet"
    using sample_xnet_ok by (simp add: xnet_ok_def) (simp add: sample_xnet_def)
  moreover obtain s' where "xnet_step {0, 1} sample_xnet s'" using sample_xnet_step by blast
  ultimately show ?thesis
    using xgossip_refines_teams [of "{0, 1}" sample_xnet s' 9] by blast
qed

text \<open>A run in which the list that peer 0 sends to the team 9 reaches the peer 2.\<close>

definition sample_merged :: "rat node" where
  "sample_merged = (xpeers sample_xnet 0)
     \<lparr>totalT := [[[(Sig [0], 0, 1 / 2), (Sig [1], 0, 1 / 2), (Sig [5], 2, 1 / 2)]]]\<rparr>"

definition sample_dropped :: "(nat, rat node, rat) xnet" where
  "sample_dropped = sample_xnet\<lparr>xpeers := (xpeers sample_xnet)(0 := sample_merged),
     xlost := {#(9, hd (hd (totalT sample_merged)))#}\<rparr>"

lemma sample_merge: "xg_merge (xpeers sample_xnet 0) = Some sample_merged"
  by (simp add: sample_merged_def sample_xnet_def sample_node_def xg_merge_def check_done_def merge_slot_def
      mergelists_def dividefreq_def scale_entry_def Let_def dbl_of_eq)

lemma sample_drop_run: "(xnet_step {0, 1, 2})\<^sup>*\<^sup>* sample_xnet sample_dropped"
proof -
  let ?l = "hd (hd (totalT sample_merged))"
  let ?s1 = "sample_xnet\<lparr>xpeers := (xpeers sample_xnet)(0 := sample_merged),
    pending := pending sample_xnet \<union> {0} \<times> {..<length (totalT sample_merged)}\<rparr>"
  let ?s2 = "?s1\<lparr>xpeers := (xpeers ?s1)(0 := sample_merged), pending := pending ?s1 - {(0, 0)},
    xflight := add_mset (9, hd (totalT (xpeers ?s1 0) ! 0)) (xflight ?s1)\<rparr>"
  let ?s3 = "?s2\<lparr>xpeers := (xpeers ?s2)(2 := xpeers ?s2 2), xflight := xflight ?s2 - {#(9, ?l)#},
    xlost := (if omap_find (teamindex (xpeers ?s2 2)) 9 = None then add_mset (9, ?l) (xlost ?s2) else xlost ?s2)\<rparr>"
  have "xnet_step {0, 1, 2} sample_xnet ?s1"
    by (intro xnet_step.xmerge, simp_all add: sample_merge) (simp add: sample_xnet_def)
  moreover have "xnet_step {0, 1, 2} ?s1 ?s2"
    by (intro xnet_step.xsent)
      (simp_all add: sample_merged_def sample_xnet_def sample_node_def findteamid_def xg_result_def slot_result_def)
  moreover have "xnet_step {0, 1, 2} ?s2 ?s3"
  proof (intro xnet_step.xdeliver)
    show "(9, ?l) \<in># xflight ?s2" by (simp add: sample_merged_def)
    show "add2vecomapx (map fst ?l) (map (fst \<circ> snd) ?l) (map (snd \<circ> snd) ?l) 9 (xpeers ?s2 2) = Some (xpeers ?s2 2)"
      by (simp add: sample_merged_def sample_xnet_def sample_node_def add2vecomapx_def msg_list_def omap_find_def)
  qed simp
  moreover have "?s3 = sample_dropped"
    by (simp add: sample_dropped_def sample_merged_def sample_xnet_def sample_node_def omap_find_def lessThan_Suc fun_eq_iff)
  ultimately show ?thesis by (metis (no_types, lifting) converse_rtranclp_into_rtranclp rtranclp.rtrancl_refl)
qed

theorem xgossip_mass_conserved_witness:
  "(xnet_step {0, 1, 2})\<^sup>*\<^sup>* sample_xnet sample_dropped
     \<and> lost_mass (Sig [5], True) 9 sample_dropped = 2
     \<and> net_mass hd (slot_mass (Sig [5], True)) (list_mass (Sig [5], True))
         (team_peers {0, 1, 2} 9 sample_xnet) (team_net {0, 1, 2} 9 (sample_dropped\<lparr>xlost := {#}\<rparr>)) + 2 = 4"
proof -
  let ?P = "{0, 1, 2 :: nat}"
  have init: "finite ?P" "\<forall>p \<in> ?P. xg_ok (xpeers sample_xnet p)" "pending sample_xnet = {}"
    "xflight sample_xnet = {#}" "xlost sample_xnet = {#}"
    using sample_xnet_ok by (auto simp: sample_xnet_def)
  have lost: "lost_mass (Sig [5], True) 9 sample_dropped = 2"
    by (simp add: lost_mass_def sample_dropped_def sample_merged_def list_mass_def eff_def omap_find_def)
  have "team_peers ?P 9 sample_xnet = {0, 1}"
    by (auto simp: team_peers_def sample_xnet_def sample_node_def omap_find_def)
  then have "(\<Sum>p \<in> team_peers ?P 9 sample_xnet. slot_mass (Sig [5], True) (slot_of (xpeers sample_xnet p) 9)) = 4"
    by (simp add: sample_xnet_def sample_node_def slot_of_def slot_mass_def list_mass_def eff_def omap_find_def dummysig_def)
  then show ?thesis
    using xgossip_mass_conserved [OF init sample_drop_run, of "Sig [5]" True 9] lost sample_drop_run
    by (simp add: hldsig_def)
qed

text \<open>
  A list without a team identifier loses mass. A list whose team is not found, or has the
  identifier 0, is halved by the merge of every round, but the round sends nothing for it:
  half of its frequency and weight is gone, whatever the result of other sends.
\<close>

theorem xgossip_null_team_halves:
  fixes st :: "('d :: field_char_0, 'z) node_scheme"
  assumes "\<not> vanilla st" "\<not> gossipdone st" "txseq st \<noteq> []" "last (txseq st) \<noteq> rounds st"
    and "\<forall>ts \<in> set (totalT st). slot_ok False ts" "i < length (totalT st)"
    and "findteamid (teamindex st) i = 0" "k \<in> real_sigs"
  shows "\<exists>st'. xg_merge st = Some st' \<and> xg_message show_id to_bits i randcol st' = Some None
    \<and> slot_mass k (totalT st' ! i) = slot_mass k (totalT st ! i) / 2"
proof -
  obtain tT where tT: "merge_all st (totalT st) = Some tT"
    "list_all2 (\<lambda>ts ts'. mergelists False ts = Some ts' \<and> slot_ok False ts') (totalT st) tT"
    using merge_all_slots [OF assms(1,2,5)] by blast
  then have merged: "xg_merge st = Some (st\<lparr>totalT := tT\<rparr>)" "mergelists False (totalT st ! i) = Some (tT ! i)"
    using assms by (simp_all add: xg_merge_def check_done_def Let_def list_all2_conv_all_nth)
  moreover have "slot_mass k (tT ! i) = slot_mass k (totalT st ! i) / 2"
  proof -
    obtain T where "mergelists False (totalT st ! i) = Some [T]"
      "\<And>s. s \<noteq> hldsig \<Longrightarrow> eff T s = ((\<Sum>t \<leftarrow> totalT st ! i. fst (eff t s)) / 2, (\<Sum>t \<leftarrow> totalT st ! i. snd (eff t s)) / 2)"
      using mergelists_spec [of "totalT st ! i" False] assms(5,6) unfolding slot_ok_def by (metis nth_mem)
    then show ?thesis using merged(2) assms(8)
      by (simp add: slot_mass_def list_mass_def real_sigs_def)
  qed
  ultimately show ?thesis using assms(2,7) by (simp add: xg_message_def)
qed

theorem xgossip_null_team_halves_witness:
  "\<exists>st'. xg_merge ((xpeers sample_xnet 0)\<lparr>teamindex := [(0, [0])]\<rparr>) = Some st'
    \<and> slot_mass (Sig [5], True) (totalT st' ! 0) = 2"
proof -
  let ?st = "(xpeers sample_xnet 0)\<lparr>teamindex := [(0, [0])]\<rparr>"
  have "\<forall>ts \<in> set (totalT ?st). slot_ok False ts" using sample_xnet_ok [of 0] by (simp add: xg_ok_def)
  moreover have "\<not> vanilla ?st" "\<not> gossipdone ?st" "txseq ?st \<noteq> []" "last (txseq ?st) \<noteq> rounds ?st"
    "0 < length (totalT ?st)" "findteamid (teamindex ?st) 0 = 0" "(Sig [5], True) \<in> real_sigs"
    by (simp_all add: sample_xnet_def sample_node_def findteamid_def real_sigs_def hldsig_def)
  moreover have "slot_mass (Sig [5], True) (totalT ?st ! 0) = 4"
    by (simp add: sample_xnet_def sample_node_def slot_mass_def list_mass_def eff_def omap_find_def dummysig_def)
  ultimately show ?thesis using xgossip_null_team_halves [of ?st 0 "(Sig [5], True)"] by fastforce
qed

end
