(* ===== verification/Estimates.thy ===== *)
theory Estimates
  imports Xgossip_Network
begin

text \<open>
  Estimates stay in range. A peer reads the average of a signature as its frequency over its
  weight; merging, sending and receiving never move an estimate outside the range of the
  estimates that the lists start with. Invariants of single participants are lifted to
  networks by the interface \<open>participant_invariant\<close>, which extends \<open>push_sum\<close>.
\<close>

subsection \<open>Invariants of participants\<close>

locale participant_invariant =
  push_sum merge own receive settle ok mok K mass mmass
  for merge :: "'n \<Rightarrow> 'n option" and own :: "'n \<Rightarrow> 'm" and receive settle ok mok
    and K :: "'k set" and mass :: "'k \<Rightarrow> 'n \<Rightarrow> 'v :: comm_monoid_add" and mmass +
  fixes good :: "'n \<Rightarrow> bool" and mgood :: "'m \<Rightarrow> bool"
  assumes good_own: "ok n \<Longrightarrow> good n \<Longrightarrow> mgood (own n)"
    and good_merge: "ok n \<Longrightarrow> good n \<Longrightarrow> merge n = Some n' \<Longrightarrow> good n'"
    and good_receive: "ok n \<Longrightarrow> good n \<Longrightarrow> mok m \<Longrightarrow> mgood m \<Longrightarrow> receive m n = Some n' \<Longrightarrow> good n'"
    and good_settle: "ok n \<Longrightarrow> good n \<Longrightarrow> settle b n = Some n' \<Longrightarrow> good n'"
begin

definition net_good :: "'p set \<Rightarrow> ('p, 'n, 'm) net \<Rightarrow> bool" where
  "net_good P s \<longleftrightarrow> net_ok P s \<and> (\<forall>p \<in> P. good (peers s p)) \<and> (\<forall>m \<in># flight s. mgood m)"

lemma step_good:
  assumes "net_step merge own receive settle P s s'" "net_good P s" "K \<noteq> {}"
  shows "net_good P s'"
proof -
  have ok: "net_ok P s" "net_ok P s'"
    using assms step_conserves [OF assms(1)] by (auto simp: net_good_def)
  have peer: "ok (peers s p)" "good (peers s p)" if "p \<in> P" for p
    using that assms(2) by (auto simp: net_good_def net_ok_def)
  have wait: "p \<in> P" if "p \<in> waiting s" for p using that ok(1) by (auto simp: net_ok_def)
  have msg: "mok m" "mgood m" if "m \<in># flight s" for m
    using that assms(2) by (auto simp: net_good_def net_ok_def)
  have "(\<forall>p \<in> P. good (peers s' p)) \<and> (\<forall>m \<in># flight s'. mgood m)"
    using assms(1)
  proof cases
    case (merge p n)
    then have "good n" using peer good_merge by blast
    then show ?thesis using peer msg merge by auto
  next
    case (sent p n)
    then have "good n" "mgood (own (peers s p))" using peer wait good_settle good_own by blast+
    then show ?thesis using peer msg sent by auto
  next
    case (failed p n)
    then have "good n" using peer wait good_settle by blast
    then show ?thesis using peer msg failed by auto
  next
    case (deliver p m n)
    then have "good n" using peer msg good_receive by blast
    then show ?thesis using peer msg deliver by (auto dest: in_diffD)
  qed
  then show ?thesis using ok(2) by (simp add: net_good_def)
qed

lemma steps_good:
  assumes "(net_step merge own receive settle P)\<^sup>*\<^sup>* s s'" "net_good P s" "K \<noteq> {}"
  shows "net_good P s'"
  using assms(1)
  by (induction rule: rtranclp_induct) (use assms step_good in blast)+

end

subsection \<open>Estimates as an invariant\<close>

text \<open>Every signature's weight is positive and its frequency between \<open>lo\<close> and \<open>hi\<close> times
  its weight.\<close>

definition in_range :: "(sig \<Rightarrow> 'd) \<Rightarrow> (sig \<Rightarrow> 'd) \<Rightarrow> 'd :: linordered_field sigmap \<Rightarrow> bool" where
  "in_range lo hi t \<longleftrightarrow> (\<forall>s. s \<noteq> hldsig \<longrightarrow>
     0 < snd (eff t s) \<and> lo s * snd (eff t s) \<le> fst (eff t s) \<and> fst (eff t s) \<le> hi s * snd (eff t s))"

lemma sums_in_range:
  fixes ts :: "'d :: linordered_field vecomap"
  assumes "ts \<noteq> []" "\<forall>t \<in> set ts. in_range lo hi t" "s \<noteq> hldsig"
  shows "0 < (\<Sum>t \<leftarrow> ts. snd (eff t s))
    \<and> lo s * (\<Sum>t \<leftarrow> ts. snd (eff t s)) \<le> (\<Sum>t \<leftarrow> ts. fst (eff t s))
    \<and> (\<Sum>t \<leftarrow> ts. fst (eff t s)) \<le> hi s * (\<Sum>t \<leftarrow> ts. snd (eff t s))"
  using assms(1,2)
proof (induction ts rule: list_nonempty_induct)
  case (single t)
  then show ?case using assms(3) by (simp add: in_range_def)
next
  case (cons t ts)
  then have "in_range lo hi t" by simp
  then have "0 < snd (eff t s)" "lo s * snd (eff t s) \<le> fst (eff t s)" "fst (eff t s) \<le> hi s * snd (eff t s)"
    using assms(3) by (auto simp: in_range_def)
  with cons show ?case by (simp add: distrib_left add_mono)
qed

lemma in_range_merge:
  fixes ts :: "'d :: linordered_field vecomap"
  assumes "slot_ok van ts" "\<forall>t \<in> set ts. in_range lo hi t" "mergelists van ts = Some ts'"
  shows "\<forall>t \<in> set ts'. in_range lo hi t"
proof -
  obtain T where T: "ts' = [T]" and eff: "\<And>s. s \<noteq> hldsig \<Longrightarrow>
       eff T s = ((\<Sum>t \<leftarrow> ts. fst (eff t s)) / 2, (\<Sum>t \<leftarrow> ts. snd (eff t s)) / 2)"
    using mergelists_spec [of ts van] assms(1,3) unfolding slot_ok_def by auto
  have "in_range lo hi T"
    using sums_in_range [OF _ assms(2)] assms(1) by (simp add: in_range_def eff slot_ok_def)
  then show ?thesis by (simp add: T)
qed

lemma in_range_settle:
  fixes ts :: "'d :: linordered_field vecomap"
  assumes "slot_ok van ts" "\<forall>t \<in> set ts. in_range lo hi t" "slot_settle b ts = Some ts'"
  shows "\<forall>t \<in> set ts'. in_range lo hi t"
proof (cases b)
  case True
  then show ?thesis using assms by (simp add: slot_settle_def)
next
  case False
  obtain t rest where ts: "ts = t # rest" using assms(1) by (cases ts) (auto simp: slot_ok_def)
  have "t \<noteq> []" using assms(1) gossip_wf_nonempty by (auto simp: slot_ok_def ts)
  then have "ts' = map (scale_entry (\<lambda>f. f * 2) (\<lambda>w. w * 2)) t # rest"
    using assms(3) False by (simp add: slot_settle_def ts multiplyfreq_2_2)
  moreover have "in_range lo hi (map (scale_entry (\<lambda>f. f * 2) (\<lambda>w. w * 2)) t)"
    using assms(2) by (simp add: in_range_def eff_scale ts map_prod_def split_beta)
  ultimately show ?thesis using assms(2) by (simp add: ts)
qed

interpretation slot_range: participant_invariant "mergelists van" hd slot_receive slot_settle "slot_ok van"
    "gossip_wf van" real_sigs slot_mass "list_mass :: sig \<times> bool \<Rightarrow> 'd :: linordered_field sigmap \<Rightarrow> 'd"
    "\<lambda>ts. \<forall>t \<in> set ts. in_range lo hi t" "in_range lo hi" for van lo hi
proof unfold_locales
  fix ts ts' :: "'d vecomap"
  assume ts: "slot_ok van ts" "\<forall>t \<in> set ts. in_range lo hi t"
  then show "in_range lo hi (hd ts)" by (auto simp: slot_ok_def)
  show "mergelists van ts = Some ts' \<Longrightarrow> \<forall>t \<in> set ts'. in_range lo hi t"
    using ts by (rule in_range_merge)
  show "slot_settle b ts = Some ts' \<Longrightarrow> \<forall>t \<in> set ts'. in_range lo hi t" for b
    using ts by (rule in_range_settle)
  show "in_range lo hi m \<Longrightarrow> slot_receive m ts = Some ts' \<Longrightarrow> \<forall>t \<in> set ts'. in_range lo hi t" for m
    using ts by (auto simp: slot_receive_def)
qed

definition vx_in_range :: "(sig \<Rightarrow> 'd) \<Rightarrow> (sig \<Rightarrow> 'd) \<Rightarrow> ('d :: linordered_field, 'z) node_scheme \<Rightarrow> bool" where
  "vx_in_range lo hi st \<longleftrightarrow> (\<forall>t \<in> set (hd (totalT st)). in_range lo hi t)"

interpretation vx_range: participant_invariant vx_merge vx_own vx_receive vx_settle vx_ok "gossip_wf True"
    real_sigs "vx_mass :: sig \<times> bool \<Rightarrow> ('d :: linordered_field, 'z) node_scheme \<Rightarrow> 'd" list_mass
    "vx_in_range lo hi" "in_range lo hi" for lo hi
proof unfold_locales
  fix st st' :: "('d, 'z) node_scheme"
  assume st: "vx_ok st" "vx_in_range lo hi st"
  from st(1) obtain ts where ts: "totalT st = [ts]" "slot_ok True ts" "vanilla st" "\<not> gossipdone st"
    "consume_failed_msgs st" "rounds st < 0" "txseq st \<noteq> []" "0 \<le> last (txseq st)"
    by (rule vx_okE)
  have range: "\<forall>t \<in> set ts. in_range lo hi t" using st(2) ts(1) by (simp add: vx_in_range_def)
  then show "in_range lo hi (vx_own st)" using ts by (auto simp: vx_own_def slot_ok_def)
  show "vx_in_range lo hi st'" if m: "vx_merge st = Some st'"
  proof -
    obtain ts' where "mergelists True ts = Some ts'" "st' = st\<lparr>totalT := [ts']\<rparr>"
      using m ts by (auto simp: vx_merge_def check_done_def merge_slot_def Let_def split: bind_splits)
    then show ?thesis using in_range_merge [OF ts(2) range] by (simp add: vx_in_range_def)
  qed
  show "vx_in_range lo hi st'" if "vx_settle b st = Some st'" for b
  proof -
    obtain ts' where ts': "slot_settle b ts = Some ts'" using slot.settle_ok [OF ts(2)] by blast
    then have "totalT st' = [ts']" using vx_settle_slot [OF st(1) ts(1) ts'] that by auto
    then show ?thesis using in_range_settle [OF ts(2) range ts'] by (simp add: vx_in_range_def)
  qed
  show "vx_in_range lo hi st'" if "gossip_wf True m" "in_range lo hi m" "vx_receive m st = Some st'" for m
  proof -
    have "totalT st' = [ts @ [m]]"
      using that ts(1) msg_list_entries [of m] by (auto simp: vx_receive_def add2vecomapv_def gossip_wf_def)
    then show ?thesis using range that(2) by (auto simp: vx_in_range_def)
  qed
qed

subsection \<open>Properties\<close>

lemma real_sigs_nonempty: "real_sigs \<noteq> {}"
  by (auto simp: real_sigs_def hldsig_def intro!: exI [of _ "Sig []"])

lemma estimate_in_range:
  fixes t :: "'d :: linordered_field sigmap"
  assumes "in_range lo hi t" "omap_find t sg = Some (f, w)" "sg \<noteq> hldsig"
  shows "0 < w \<and> lo sg \<le> f / w \<and> f / w \<le> hi sg"
proof -
  have "eff t sg = (f, w)" using assms(2) by (simp add: eff_def)
  then have "0 < w \<and> lo sg * w \<le> f \<and> f \<le> hi sg * w"
    using assms(1,3) by (auto simp: in_range_def)
  then show ?thesis by (simp add: pos_le_divide_eq pos_divide_le_eq)
qed

text \<open>
  C7: VanillaXGossip estimates stay in range. When all lists start with positive weights and
  estimates (frequency over weight, dummies included) between \<open>lo\<close> and \<open>hi\<close>, then after
  any run every peer's own list has positive weights and estimates between \<open>lo\<close> and \<open>hi\<close>.
\<close>

theorem vanilla_estimates_in_range:
  fixes s :: "('p, ('d :: linordered_field, 'z) node_scheme, 'd sigmap) net"
  assumes "finite P" "\<forall>p \<in> P. vx_ok (peers s p) \<and> vx_in_range lo hi (peers s p)"
    and "waiting s = {}" "flight s = {#}" "(net_step vx_merge vx_own vx_receive vx_settle P)\<^sup>*\<^sup>* s s'"
    and "p \<in> P" "omap_find (hd (hd (totalT (peers s' p)))) sg = Some (f, w)" "sg \<noteq> hldsig"
  shows "0 < w \<and> lo sg \<le> f / w \<and> f / w \<le> hi sg"
proof -
  have "vx_range.net_good lo hi P s"
    using assms(1-4) by (simp add: vx_range.net_good_def vx.net_ok_def)
  from vx_range.steps_good [OF assms(5) this real_sigs_nonempty]
  have "vx_ok (peers s' p)" "vx_in_range lo hi (peers s' p)"
    using assms(6) by (auto simp: vx_range.net_good_def vx.net_ok_def)
  then have "in_range lo hi (vx_own (peers s' p))" by (rule vx_range.good_own)
  then show ?thesis using assms(7,8) by (simp add: vx_own_def estimate_in_range)
qed

lemma sample_in_range:
  "in_range (\<lambda>_. 0) (\<lambda>_. 4) [(Sig [1], 0, 1), (Sig [5], 4, 1 :: rat)]"
  "in_range (\<lambda>_. 0) (\<lambda>_. 4) [(Sig [1], 0, 1 :: rat)]"
  by (auto simp: in_range_def eff_def omap_find_def dummysig_def)

theorem vanilla_estimates_in_range_witness:
  "\<exists>s' f w. net_step vx_merge vx_own vx_receive vx_settle {0, 1} sample_net s'
     \<and> omap_find (hd (hd (totalT (peers s' 0)))) (Sig [5]) = Some (f, w)
     \<and> 0 < w \<and> 0 \<le> f / w \<and> f / w \<le> 4"
proof -
  let ?n = "sample_node [[[(Sig [1], 0, 1 / 2), (Sig [5], 2, 1 / 2)]]] :: rat node"
  let ?s' = "sample_net\<lparr>peers := (peers sample_net)(0 := ?n), waiting := insert 0 (waiting sample_net)\<rparr>"
  have "vx_merge (peers sample_net 0) = Some ?n"
    by (simp add: sample_net_def sample_node_def vx_merge_def check_done_def merge_slot_def
        mergelists_def dividefreq_def scale_entry_def Let_def dbl_of_eq)
  then have step: "net_step vx_merge vx_own vx_receive vx_settle {0, 1} sample_net ?s'"
    by (intro net_step.merge) (simp_all add: sample_net_def)
  have init: "waiting sample_net = {}" "flight sample_net = {#}" by (simp_all add: sample_net_def)
  have "\<forall>p \<in> {0, 1}. vx_ok (peers sample_net p) \<and> vx_in_range (\<lambda>_. 0) (\<lambda>_. 4) (peers sample_net p)"
    using sample_net_ok sample_in_range by (auto simp: vx_in_range_def sample_net_def sample_node_def)
  moreover have find: "omap_find (hd (hd (totalT (peers ?s' 0)))) (Sig [5]) = Some (2, 1 / 2)"
    by (simp add: sample_node_def omap_find_def)
  ultimately have "(0 :: rat) < 1 / 2 \<and> (0 :: rat) \<le> 2 / (1 / 2) \<and> 2 / (1 / 2) \<le> (4 :: rat)"
    using vanilla_estimates_in_range [OF _ _ init r_into_rtranclp [of "net_step _ _ _ _ _", OF step],
        of "\<lambda>_. 0" "\<lambda>_. 4" 0 "Sig [5]" 2 "1 / 2"]
    by (simp add: hldsig_def)
  then show ?thesis using step find by (intro exI [of _ ?s'] exI [of _ 2] exI [of _ "1 / 2"] conjI) simp_all
qed

text \<open>
  C8: XGossip estimates stay in range, team by team. In a network of finitely many well-formed
  XGossip peers outside broadcast mode that starts with nothing pending, in flight or dropped:
  when the lists that the members of a team start with have positive weights and estimates
  (frequency over weight, dummies for missing signatures included) between \<open>lo\<close> and \<open>hi\<close>,
  then after any run, dropped lists included, every member's own list for the team has
  positive weights and estimates between \<open>lo\<close> and \<open>hi\<close>, for every signature but
  \<^verbatim>\<open>hldsig\<close>.
\<close>

theorem xgossip_estimates_in_range:
  fixes s :: "('p, ('d :: linordered_field, 'z) node_scheme, 'd) xnet"
  assumes "finite P" "\<forall>p \<in> P. xg_ok (xpeers s p)" "pending s = {}" "xflight s = {#}" "xlost s = {#}"
    and "\<forall>p \<in> team_peers P k s. \<forall>t \<in> set (slot_of (xpeers s p) k). in_range lo hi t"
    and "(xnet_step P)\<^sup>*\<^sup>* s s'" "p \<in> team_peers P k s"
    and "omap_find (hd (slot_of (xpeers s' p) k)) sg = Some (f, w)" "sg \<noteq> hldsig"
  shows "0 < w \<and> lo sg \<le> f / w \<and> f / w \<le> hi sg"
proof -
  have ok: "xnet_ok P s" using assms(1-5) by (simp add: xnet_ok_def)
  have "slot.net_ok False (team_peers P k s) (team_net P k s)" using team_net_ok [OF assms(1-5)] .
  then have "slot_range.net_good False lo hi (team_peers P k s) (team_net P k s)"
    using assms(4-6) by (simp add: slot_range.net_good_def team_net_def)
  from slot_range.steps_good [OF _ this real_sigs_nonempty] xnet_steps_refine [OF assms(7) ok, of k]
  have "slot_range.net_good False lo hi (team_peers P k s) (team_net P k s')" by blast
  then have "slot_ok False (slot_of (xpeers s' p) k)" "\<forall>t \<in> set (slot_of (xpeers s' p) k). in_range lo hi t"
    using assms(8) by (auto simp: slot_range.net_good_def slot.net_ok_def team_net_def)
  then have "in_range lo hi (hd (slot_of (xpeers s' p) k))" by (rule slot_range.good_own)
  then show ?thesis using assms(9,10) by (rule estimate_in_range)
qed

theorem xgossip_estimates_in_range_witness:
  "(xnet_step {0, 1, 2})\<^sup>*\<^sup>* sample_xnet sample_dropped
     \<and> (\<exists>f w. omap_find (hd (slot_of (xpeers sample_dropped 0) 9)) (Sig [5]) = Some (f, w)
         \<and> 0 < w \<and> 0 \<le> f / w \<and> f / w \<le> 4)"
proof -
  let ?P = "{0, 1, 2 :: nat}"
  have init: "finite ?P" "\<forall>p \<in> ?P. xg_ok (xpeers sample_xnet p)" "pending sample_xnet = {}"
    "xflight sample_xnet = {#}" "xlost sample_xnet = {#}"
    using sample_xnet_ok by (auto simp: sample_xnet_def)
  have range: "\<forall>p \<in> team_peers ?P 9 sample_xnet. \<forall>t \<in> set (slot_of (xpeers sample_xnet p) 9).
      in_range (\<lambda>_. 0) (\<lambda>_. 4) t"
    by (auto simp: in_range_def eff_def omap_find_def dummysig_def slot_of_def sample_xnet_def sample_node_def)
  have team: "0 \<in> team_peers ?P 9 sample_xnet"
    by (simp add: team_peers_def sample_xnet_def sample_node_def omap_find_def)
  have find: "omap_find (hd (slot_of (xpeers sample_dropped 0) 9)) (Sig [5]) = Some (2, 1 / 2)"
    by (simp add: sample_dropped_def sample_merged_def sample_xnet_def sample_node_def slot_of_def omap_find_def)
  have "(0 :: rat) < 1 / 2 \<and> (0 :: rat) \<le> 2 / (1 / 2) \<and> 2 / (1 / 2) \<le> (4 :: rat)"
    using xgossip_estimates_in_range [OF init range sample_drop_run team find] by (simp add: hldsig_def)
  then show ?thesis
    using sample_drop_run find by (intro conjI exI [of _ 2] exI [of _ "1 / 2"]) simp_all
qed

end
