(* ===== verification/Ida.thy ===== *)
theory Ida
  imports Prelude "HOL-Library.Numeral_Type" "HOL-Library.Monad_Syntax"
begin

text \<open>
  Rabin's information dispersal (\<^verbatim>\<open>utils/ida.C\<close>), which DHash uses to cut a block into
  fragments of which any \<^verbatim>\<open>m\<close> with an invertible matrix rebuild it. \<^verbatim>\<open>u_long\<close> is 32 bits wide,
  the least that the source admits. The generated table of field inverses is the parameter
  \<open>tab\<close>; random numbers are arguments. A string may be read at its length, where the
  library keeps a zero byte, but not beyond; such a read, a failed assertion and an index out of range
  are \<open>None\<close>. Where the source increments its position several times in one expression, which C++ leaves undefined,
  the order of evaluation that the compiler chooses is the parameter \<open>ord\<close>.
\<close>

type_synonym ulong = "32 word"

subsection \<open>The field\<close>

definition field :: ulong where
  "field = 65537"

definition MUL :: "ulong \<Rightarrow> ulong \<Rightarrow> ulong" where
  "MUL a b = (if a = field - 1 \<and> b = field - 1 then 1 else a * b mod field)"

definition INV :: "(ulong \<Rightarrow> ulong) \<Rightarrow> ulong \<Rightarrow> ulong" where
  "INV tab a = tab a"

definition DIV :: "(ulong \<Rightarrow> ulong) \<Rightarrow> ulong \<Rightarrow> ulong \<Rightarrow> ulong" where
  "DIV tab a b = MUL a (INV tab b)"

definition SUB :: "ulong \<Rightarrow> ulong \<Rightarrow> ulong" where
  "SUB a b = ((a - b) + field) mod field"

definition ADD :: "ulong \<Rightarrow> ulong \<Rightarrow> ulong" where
  "ADD a b = (a + b) mod field"

definition optimal_dfrag :: "ulong \<Rightarrow> ulong \<Rightarrow> ulong option" where
  "optimal_dfrag len mtu =
     (if mtu = 0 then None
      else (let m = (len + (mtu - 1)) div mtu;
                m = (if m = 0 then 1 else m);
                nomfragsize = len div m + (4 + m) * 2
            in Some (if nomfragsize > mtu then m + 1 else m)))"

subsection \<open>Packing\<close>

definition magic :: byte where
  "magic = 0xef"

definition pack_one :: "ulong \<Rightarrow> bytes option" where
  "pack_one c =
     (if c AND 0xff000000 \<noteq> 0 then None
      else (let c1 = ucast (drop_bit 8 c); c2 = ucast c
            in Some (if c AND 0xffff0000 \<noteq> 0 then [magic, ucast (drop_bit 16 c), c1, c2]
                     else if c1 = magic then [magic, 0, c1, c2]
                     else [c1, c2])))"

primrec pack_all :: "ulong list \<Rightarrow> bytes option" where
  "pack_all [] = Some []"
| "pack_all (c # cs) = do { b \<leftarrow> pack_one c; bs \<leftarrow> pack_all cs; Some (b @ bs) }"

definition pack :: "ulong list \<Rightarrow> bytes option" where
  "pack inb =
     (if inb = [] then None
      else if unat (inb ! 0) \<le> length inb then pack_all (take (unat (inb ! 0)) inb) else None)"

definition str_at :: "bytes \<Rightarrow> nat \<Rightarrow> byte option" where
  "str_at s i = (if i < length s then Some (s ! i) else if i = length s then Some 0 else None)"

text \<open>One expression of \<^verbatim>\<open>unpackone\<close> increments the position in each of its two or three operands, and the language leaves the result
  undefined. \<open>ord n k\<close> is the number of increments that a compiler carries out before operand \<open>k\<close> of \<open>n\<close> reads its byte.\<close>

definition unpackone :: "(nat \<Rightarrow> nat \<Rightarrow> nat) \<Rightarrow> bytes \<Rightarrow> nat \<Rightarrow> (ulong \<times> nat) option" where
  "unpackone ord inb inp =
     do { b \<leftarrow> str_at inb inp;
          if b \<noteq> magic
          then do { b1 \<leftarrow> str_at inb (inp + ord 2 0);
                    b2 \<leftarrow> str_at inb (inp + ord 2 1);
                    Some (push_bit 8 (ucast b1) OR ucast b2, inp + 2) }
          else do { let inp = inp + 1;
                    b1 \<leftarrow> str_at inb (inp + ord 3 0);
                    b2 \<leftarrow> str_at inb (inp + ord 3 1);
                    b3 \<leftarrow> str_at inb (inp + ord 3 2);
                    Some (push_bit 16 (ucast b1) OR push_bit 8 (ucast b2) OR ucast b3, inp + 3) } }"

primrec unpack_n :: "(nat \<Rightarrow> nat \<Rightarrow> nat) \<Rightarrow> nat \<Rightarrow> bytes \<Rightarrow> nat \<Rightarrow> (ulong list \<times> nat) option" where
  "unpack_n ord 0 inb inp = Some ([], inp)"
| "unpack_n ord (Suc n) inb inp =
     do { (x, inp) \<leftarrow> unpackone ord inb inp; (xs, inp) \<leftarrow> unpack_n ord n inb inp; Some (x # xs, inp) }"

definition unpack :: "(nat \<Rightarrow> nat \<Rightarrow> nat) \<Rightarrow> bytes \<Rightarrow> ulong list option" where
  "unpack ord inb =
     do { (n, _) \<leftarrow> unpackone ord inb 0; (xs, _) \<leftarrow> unpack_n ord (unat n) inb 0; Some xs }"

subsection \<open>Fragments\<close>

text \<open>A matrix row of random non-zero field elements: zeros are drawn again; \<open>None\<close> when
  the random words run out.\<close>

fun gen_row :: "nat \<Rightarrow> ulong list \<Rightarrow> ulong list option" where
  "gen_row 0 rs = Some []"
| "gen_row (Suc k) [] = None"
| "gen_row (Suc k) (r # rs) =
     (if r mod field = 0 then gen_row (Suc k) rs
      else do { v \<leftarrow> gen_row k rs; Some (r mod field # v) })"

definition next_byte :: "bytes \<Rightarrow> nat \<Rightarrow> (ulong \<times> nat) option" where
  "next_byte inb inp =
     (if inp > length inb then Some (0, inp)
      else do { b \<leftarrow> str_at inb inp; Some (ucast b, inp + 1) })"

fun encode_one :: "bytes \<Rightarrow> ulong list \<Rightarrow> nat \<Rightarrow> ulong \<Rightarrow> ulong option" where
  "encode_one inb [] inp cik = Some cik"
| "encode_one inb (vj # v) inp cik =
     do { (b1, inp) \<leftarrow> next_byte inb inp;
          (b2, inp) \<leftarrow> next_byte inb inp;
          let bi = push_bit 8 b1 OR b2;
          if bi = bi AND 0x0000ffff
          then (let cik = ADD cik (MUL bi vj)
                in if cik < field then encode_one inb v inp cik else None)
          else None }"

primrec encode_from :: "bytes \<Rightarrow> ulong list \<Rightarrow> nat \<Rightarrow> nat \<Rightarrow> nat \<Rightarrow> ulong list option" where
  "encode_from inb v m k 0 = Some []"
| "encode_from inb v m k (Suc n) =
     do { c \<leftarrow> encode_one inb v (k * 2 * m) 0; cs \<leftarrow> encode_from inb v m (k + 1) n; Some (c # cs) }"

definition frag_len :: "nat \<Rightarrow> nat \<Rightarrow> nat" where
  "frag_len m rawlen = (rawlen + 2 * m - 1) div (2 * m)"

definition gen_frag_elems :: "nat \<Rightarrow> bytes \<Rightarrow> ulong list \<Rightarrow> ulong list option" where
  "gen_frag_elems m inb rs =
     (let rawlen = length inb; fraglen = frag_len m rawlen; total = 3 + m + 1 + fraglen
      in do { v \<leftarrow> gen_row m rs;
              cs \<leftarrow> encode_from inb v m 0 fraglen;
              Some ([of_nat total, of_nat rawlen, of_nat m] @ v @ [of_nat fraglen] @ cs) })"

definition gen_frag :: "nat \<Rightarrow> bytes \<Rightarrow> ulong list \<Rightarrow> bytes option" where
  "gen_frag m inb rs = (if m = 0 then None else Option.bind (gen_frag_elems m inb rs) pack)"

subsection \<open>Reconstruction\<close>

definition drop_frag :: "nat \<Rightarrow> bytes list \<Rightarrow> bytes list" where
  "drop_frag i frags = take i frags @ drop (i + 1) frags"

text \<open>The results of \<^verbatim>\<open>rand\<close> are given in order.\<close>

fun shuffle_from :: "nat \<Rightarrow> nat list \<Rightarrow> bytes list \<Rightarrow> bytes list" where
  "shuffle_from i (r # rs) frags =
     (if i < length frags
      then (let r = r mod length frags
            in shuffle_from (i + 1) rs
                 (if r = i then frags else frags[i := frags ! r, r := frags ! i]))
      else frags)"
| "shuffle_from i [] frags = frags"

definition random_shuffle :: "nat list \<Rightarrow> bytes list \<Rightarrow> bytes list" where
  "random_shuffle rs frags = shuffle_from 0 rs frags"

text \<open>Rows \<open>[A | I]\<close> of the elimination; \<open>None\<close> when a row or an element is missing.\<close>

definition augment :: "nat \<Rightarrow> nat \<Rightarrow> ulong list list \<Rightarrow> ulong list list option" where
  "augment rows cols from =
     (if rows \<le> length from \<and> list_all (\<lambda>row. cols \<le> length row) (take rows from)
      then Some (map (\<lambda>r. take cols (from ! r) @ map (\<lambda>c. if r = c then 1 else 0) [0..<cols]) [0..<rows])
      else None)"

definition sub_row :: "(ulong \<Rightarrow> ulong) \<Rightarrow> nat \<Rightarrow> ulong list \<Rightarrow> ulong list \<Rightarrow> ulong list" where
  "sub_row tab r prow row =
     (let y = DIV tab (row ! r) (prow ! r) in map2 (\<lambda>a b. SUB a (MUL y b)) row prow)"

definition reduce_row :: "(ulong \<Rightarrow> ulong) \<Rightarrow> nat \<Rightarrow> ulong list list \<Rightarrow> ulong list list" where
  "reduce_row tab r to =
     (let prow = map (\<lambda>a. DIV tab a (to ! r ! r)) (to ! r)
      in map (\<lambda>r1. if r1 = r then prow else sub_row tab r prow (to ! r1)) [0..<length to])"

fun reduce_from :: "(ulong \<Rightarrow> ulong) \<Rightarrow> nat \<Rightarrow> nat \<Rightarrow> ulong list list \<Rightarrow> ulong list list option" where
  "reduce_from tab r 0 to = Some to"
| "reduce_from tab r (Suc n) to =
     (if to ! r ! r = 0 then None else reduce_from tab (r + 1) n (reduce_row tab r to))"

text \<open>The outer option is undefined behaviour, the inner one the result \<^verbatim>\<open>false\<close>.\<close>

definition minvert :: "(ulong \<Rightarrow> ulong) \<Rightarrow> nat \<Rightarrow> nat \<Rightarrow> ulong list list \<Rightarrow> ulong list list option option" where
  "minvert tab rows cols from =
     do { to \<leftarrow> augment rows cols from;
          Some (map_option (map (drop cols)) (reduce_from tab 0 rows to)) }"

text \<open>The rows and data of the first \<^verbatim>\<open>m\<close> fragments. A fragment that does not fit is dropped
  from the vector, and the loop goes on with the next index.\<close>

function collect :: "(nat \<Rightarrow> nat \<Rightarrow> nat) \<Rightarrow> nat \<Rightarrow> ulong \<Rightarrow> ulong \<Rightarrow> ulong \<Rightarrow> bytes list \<Rightarrow> ulong list list \<Rightarrow> ulong list list
    \<Rightarrow> (bytes list \<times> ulong \<times> ulong list list \<times> ulong list list) option" where
  "collect ord i m rawlen blocksize frags a dfrags =
     (if i < unat m
      then if i < length frags
           then (let skip = collect ord (i + 1) m rawlen blocksize (drop_frag i frags) a dfrags; inb = frags ! i
                 in do { (len, inp) \<leftarrow> unpackone ord inb 0;
                         if len < m + 4 then skip
                         else do { (myrawlen, inp) \<leftarrow> unpackone ord inb inp;
                         if myrawlen \<noteq> rawlen then skip
                         else do { (mym, inp) \<leftarrow> unpackone ord inb inp;
                         if mym \<noteq> m then skip
                         else do { (arow, inp) \<leftarrow> unpack_n ord (unat m) inb inp;
                         (myblocksize, inp) \<leftarrow> unpackone ord inb inp;
                         let blocksize = (if blocksize = 0 then myblocksize else blocksize);
                         if blocksize \<noteq> myblocksize
                         then collect ord (i + 1) m rawlen blocksize (drop_frag i frags) a dfrags
                         else if len - (m + 4) \<noteq> blocksize then None
                         else do { (drow, inp) \<leftarrow> unpack_n ord (unat (len - (m + 4))) inb inp;
                         collect ord (i + 1) m rawlen blocksize frags (a @ [arow]) (dfrags @ [drow]) } } } } })
           else None
      else Some (frags, blocksize, a, dfrags))"
  by pat_completeness auto
termination
  by (relation "measure (\<lambda>(_, i, m, _). unat m - i)") auto

fun decode_elem :: "ulong list \<Rightarrow> ulong list \<Rightarrow> ulong \<Rightarrow> ulong" where
  "decode_elem (c # cs) (x # xs) b = decode_elem cs xs (ADD b (MUL c x))"
| "decode_elem _ _ b = b"

definition decode_bytes :: "ulong \<Rightarrow> bytes option" where
  "decode_bytes b =
     (if b AND 0xffff0000 \<noteq> 0 then None else Some [ucast (drop_bit 8 b), ucast b])"

primrec decode_rows :: "ulong list \<Rightarrow> ulong list list \<Rightarrow> bytes option" where
  "decode_rows c [] = Some []"
| "decode_rows c (row # a_inv) =
     do { b \<leftarrow> decode_bytes (decode_elem c row 0); bs \<leftarrow> decode_rows c a_inv; Some (b @ bs) }"

primrec decode_all :: "nat \<Rightarrow> nat \<Rightarrow> ulong list list \<Rightarrow> ulong list list \<Rightarrow> bytes option" where
  "decode_all inp 0 a_inv dfrags = Some []"
| "decode_all inp (Suc n) a_inv dfrags =
     do { b \<leftarrow> decode_rows (map (\<lambda>d. d ! inp) dfrags) a_inv;
          bs \<leftarrow> decode_all (inp + 1) n a_inv dfrags;
          Some (b @ bs) }"

definition reconstruct :: "(nat \<Rightarrow> nat \<Rightarrow> nat) \<Rightarrow> (ulong \<Rightarrow> ulong) \<Rightarrow> nat list \<Rightarrow> bytes list \<Rightarrow> bytes option option" where
  "reconstruct ord tab rs f =
     (if f = [] then Some None
      else (let frags = random_shuffle rs f
            in do { (len, inp) \<leftarrow> unpackone ord (frags ! 0) 0;
                    (rawlen, inp) \<leftarrow> unpackone ord (frags ! 0) inp;
                    (m, inp) \<leftarrow> unpackone ord (frags ! 0) inp;
                    if len < m + 4 then Some None
                    else if length frags < unat m then Some None
                    else do { (frags, blocksize, a, dfrags) \<leftarrow> collect ord 0 m rawlen 0 frags [] [];
                    if length frags < unat m then Some None
                    else do { r \<leftarrow> minvert tab (unat m) (unat m) a;
                    case r of
                      None \<Rightarrow> Some None
                    | Some a_inv \<Rightarrow>
                        do { outb \<leftarrow> decode_all 0 (unat blocksize) a_inv dfrags;
                             if unat rawlen \<le> length outb then Some (Some (take (unat rawlen) outb))
                             else None } } } }))"

end
