(* ===== verification/Ida_Correct.thy ===== *)
theory Ida_Correct
  imports Ida
begin

text \<open>
  Information dispersal is correct: the 32-bit field operations never overflow, packing is
  inverted by unpacking, elimination yields a left inverse, and the fragments of a block
  rebuild it whenever elimination succeeds.
\<close>

subsection \<open>The field operations\<close>

text \<open>A machine word as an element of the field with 65537 elements.\<close>

definition fe :: "ulong \<Rightarrow> 65537" where
  "fe x = of_nat (unat x)"

lemma card_field: "CARD(65537) = 65537"
  by simp

lemma of_nat_field_eq: "(of_nat a = (of_nat b :: 65537)) \<longleftrightarrow> a mod 65537 = b mod 65537"
proof -
  have "(of_nat a = (of_nat b :: 65537)) \<longleftrightarrow> int a mod 65537 = int b mod 65537"
    unfolding bit1.of_nat_eq by (metis bit1.Rep_Abs_mod card_field of_nat_numeral)
  then show ?thesis by (metis nat_int_comparison(1) of_nat_numeral zmod_int)
qed

lemma of_nat_field_mod: "(of_nat (a mod 65537) :: 65537) = of_nat a"
  by (simp only: of_nat_field_eq mod_mod_trivial)

lemma unat_field [simp]: "unat field = 65537"
  by (simp add: field_def)

lemma field_less: "x < field \<longleftrightarrow> unat x < 65537"
  by (simp add: word_less_nat_alt)

lemma mod_field: "x mod field < field" "unat (x mod field) = unat x mod 65537"
  by (simp_all add: word_less_nat_alt unat_mod)

lemma fe_inject: "x < field \<Longrightarrow> y < field \<Longrightarrow> fe x = fe y \<Longrightarrow> x = y"
  unfolding fe_def of_nat_field_eq field_less by (simp add: word_unat_eq_iff)

lemma ADD_field:
  assumes "a < field" "b < field"
  shows "ADD a b < field" "fe (ADD a b) = fe a + fe b"
proof -
  have "unat (a + b) = unat a + unat b"
    using assms unfolding field_less by (intro unat_add_lem [THEN iffD1]) simp
  then show "ADD a b < field" "fe (ADD a b) = fe a + fe b"
    by (simp_all add: ADD_def fe_def mod_field of_nat_field_mod)
qed

lemma MUL_field:
  assumes "a < field" "b < field"
  shows "MUL a b < field" "fe (MUL a b) = fe a * fe b"
proof -
  have bounds: "unat a \<le> 65536" "unat b \<le> 65536" using assms unfolding field_less by auto
  have "MUL a b < field \<and> fe (MUL a b) = fe a * fe b"
  proof (cases "a = field - 1 \<and> b = field - 1")
    case True
    then have "fe a * fe b = of_nat (65536 * 65536)"
      by (simp add: fe_def field_def)
    also have "\<dots> = of_nat 1" unfolding of_nat_field_eq by simp
    finally show ?thesis using True by (simp add: MUL_def fe_def field_less)
  next
    case False
    then have "unat a < 65536 \<or> unat b < 65536"
      using bounds by (auto simp: field_def word_unat_eq_iff)
    then have "unat a * unat b \<le> 65536 * 65535"
    proof
      assume "unat a < 65536"
      then have "unat a * unat b \<le> 65535 * 65536" using bounds by (intro mult_le_mono) auto
      then show ?thesis by simp
    next
      assume "unat b < 65536"
      then show ?thesis using bounds by (intro mult_le_mono) auto
    qed
    then have "unat (a * b) = unat a * unat b" by (intro unat_mult_lem [THEN iffD1]) simp
    moreover have "MUL a b = a * b mod field" using False by (auto simp: MUL_def)
    ultimately show ?thesis
      by (simp only: mod_field(1) fe_def mod_field(2) of_nat_field_mod of_nat_mult simp_thms)
  qed
  then show "MUL a b < field" "fe (MUL a b) = fe a * fe b" by auto
qed

lemma SUB_field:
  assumes "a < field" "b < field"
  shows "SUB a b < field" "fe (SUB a b) = fe a - fe b"
proof -
  have "a - b + field = a + (field - b)" by simp
  moreover have "unat (field - b) = 65537 - unat b"
    using assms(2) by (simp add: unat_sub order_less_imp_le)
  moreover have "unat (a + (field - b)) = unat a + unat (field - b)"
    using assms calculation(2) unfolding field_less by (intro unat_add_lem [THEN iffD1]) simp
  ultimately have u: "unat (a - b + field) = unat a + (65537 - unat b)" by (simp only:)
  have "of_nat (65537 - unat b) = (- of_nat (unat b) :: 65537)"
  proof -
    have "of_nat (65537 - unat b) + (of_nat (unat b) :: 65537) = of_nat 65537"
      using assms(2) unfolding field_less of_nat_add [symmetric] by simp
    also have "\<dots> = 0" using of_nat_field_eq [of 65537 0] by simp
    finally show ?thesis by (simp add: eq_neg_iff_add_eq_0)
  qed
  then show "SUB a b < field" "fe (SUB a b) = fe a - fe b"
    by (simp_all add: SUB_def fe_def mod_field of_nat_field_mod u)
qed

text \<open>What the generated table promises.\<close>

definition inv_table :: "(ulong \<Rightarrow> ulong) \<Rightarrow> bool" where
  "inv_table tab \<longleftrightarrow> (\<forall>a. a \<noteq> 0 \<and> a < field \<longrightarrow> tab a < field \<and> unat a * unat (tab a) mod 65537 = 1)"

lemma DIV_field:
  assumes "inv_table tab" "a < field" "b < field" "b \<noteq> 0"
  shows "DIV tab a b < field" "fe (DIV tab a b) * fe b = fe a"
proof -
  have t: "tab b < field" "unat b * unat (tab b) mod 65537 = 1"
    using assms by (auto simp: inv_table_def)
  then have "fe b * fe (tab b) = 1"
    using of_nat_field_eq [of "unat b * unat (tab b)" 1] by (simp add: fe_def)
  then show "DIV tab a b < field" "fe (DIV tab a b) * fe b = fe a"
    using MUL_field [OF assms(2) t(1)] by (simp_all add: DIV_def INV_def ac_simps)
qed

lemmas field_ops = ADD_field MUL_field SUB_field

subsection \<open>Packing\<close>

lemma and_high:
  fixes c :: ulong
  assumes "\<And>n. bit M n \<longleftrightarrow> k \<le> n \<and> n < 32"
  shows "c AND M = 0 \<longleftrightarrow> (\<forall>n \<ge> k. \<not> bit c n)"
proof -
  have "bit c n \<Longrightarrow> n < 32" for n using bit_imp_le_length [of c n] by simp
  then show ?thesis by (auto simp: bit_eq_iff bit_and_iff assms)
qed

lemma high8: "c AND 0xff000000 = 0 \<longleftrightarrow> (\<forall>n \<ge> 24. \<not> bit c n)" for c :: ulong
proof (rule and_high)
  have eq: "(0xff000000 :: ulong) = push_bit 24 (mask 8)" by (simp add: mask_numeral)
  show "bit (0xff000000 :: ulong) n \<longleftrightarrow> 24 \<le> n \<and> n < 32" for n
    unfolding eq by (auto simp: bit_push_bit_iff bit_mask_iff)
qed

lemma high16: "c AND 0xffff0000 = 0 \<longleftrightarrow> (\<forall>n \<ge> 16. \<not> bit c n)" for c :: ulong
proof (rule and_high)
  have eq: "(0xffff0000 :: ulong) = push_bit 16 (mask 16)" by (simp add: mask_numeral)
  show "bit (0xffff0000 :: ulong) n \<longleftrightarrow> 16 \<le> n \<and> n < 32" for n
    unfolding eq by (auto simp: bit_push_bit_iff bit_mask_iff)
qed

lemma bits_below: "(\<forall>n \<ge> k. \<not> bit c n) \<longleftrightarrow> unat c < 2 ^ k" for c :: ulong
proof -
  have "(\<forall>n \<ge> k. \<not> bit c n) \<longleftrightarrow> (\<forall>n. \<not> bit c (k + n))" by (metis le_Suc_ex le_add1)
  also have "\<dots> \<longleftrightarrow> drop_bit k c = 0"
  proof -
    have "n < 32" if "bit c (k + n)" for n using bit_imp_le_length [OF that] by simp
    then show ?thesis by (auto simp: bit_eq_iff [of _ 0] bit_drop_bit_eq)
  qed
  also have "\<dots> \<longleftrightarrow> unat c div 2 ^ k = 0"
    by (metis drop_bit_eq_div unat_drop_bit_eq unat_eq_zero)
  finally show ?thesis by (simp add: div_eq_0_iff)
qed

lemma three_bytes:
  fixes c :: ulong
  assumes "\<forall>n \<ge> 24. \<not> bit c n"
  shows "push_bit 16 (ucast (ucast (drop_bit 16 c) :: byte)) OR push_bit 8 (ucast (ucast (drop_bit 8 c) :: byte))
    OR ucast (ucast c :: byte) = c" (is "?l = c")
proof (rule bit_eqI)
  fix n :: nat
  have "n < 8 \<or> 8 \<le> n \<and> n < 16 \<or> 16 \<le> n \<and> n < 24 \<or> 24 \<le> n" by linarith
  then show "bit ?l n = bit c n" using assms by (auto simp: bit_simps)
qed

lemma two_bytes:
  fixes c :: ulong
  assumes "\<forall>n \<ge> 16. \<not> bit c n"
  shows "push_bit 8 (ucast (ucast (drop_bit 8 c) :: byte)) OR ucast (ucast c :: byte) = c" (is "?l = c")
proof (rule bit_eqI)
  fix n :: nat
  have "n < 8 \<or> 8 \<le> n \<and> n < 16 \<or> 16 \<le> n" by linarith
  then show "bit ?l n = bit c n" using assms by (auto simp: bit_simps)
qed

text \<open>The operands evaluated from left to right.\<close>

definition ltr :: "nat \<Rightarrow> nat \<Rightarrow> nat" where
  "ltr n k = k"

lemma unpackone_long:
  "unpackone ltr (pre @ [magic, x, y, z] @ rest) (length pre)
     = Some (push_bit 16 (ucast x) OR push_bit 8 (ucast y) OR ucast z, length pre + 4)"
  by (simp add: unpackone_def ltr_def str_at_def nth_append)

lemma unpackone_short:
  "x \<noteq> magic \<Longrightarrow>
   unpackone ltr (pre @ [x, y] @ rest) (length pre) = Some (push_bit 8 (ucast x) OR ucast y, length pre + 2)"
  by (simp add: unpackone_def ltr_def str_at_def nth_append)

lemma pack_unpack_one:
  assumes "unat c < 2 ^ 24"
  shows "\<exists>b. pack_one c = Some b
    \<and> (\<forall>pre rest. unpackone ltr (pre @ b @ rest) (length pre) = Some (c, length pre + length b))"
proof -
  have 24: "\<forall>n \<ge> 24. \<not> bit c n" using assms bits_below by blast
  have hi: "c AND 0xff000000 = 0" using 24 high8 by blast
  consider "c AND 0xffff0000 \<noteq> 0" | "c AND 0xffff0000 = 0" "ucast (drop_bit 8 c) = magic"
    | "c AND 0xffff0000 = 0" "ucast (drop_bit 8 c) \<noteq> magic" by blast
  then show ?thesis
  proof cases
    case 1
    then show ?thesis
      using hi three_bytes [OF 24] unpackone_long by (simp add: pack_one_def Let_def)
  next
    case 2
    then have "ucast (drop_bit 16 c) = (0 :: byte)"
      using high16 [of c] by (auto simp: bit_eq_iff bit_simps)
    with 2 show ?thesis
      using hi three_bytes [OF 24] unpackone_long [of _ 0 "ucast (drop_bit 8 c)" "ucast c"]
      by (simp add: pack_one_def Let_def)
  next
    case 3
    then show ?thesis
      using hi two_bytes [of c] high16 [of c] unpackone_short by (simp add: pack_one_def Let_def)
  qed
qed

lemma pack_unpack_all:
  assumes "\<forall>c \<in> set cs. unat c < 2 ^ 24"
  shows "\<exists>b. pack_all cs = Some b
    \<and> (\<forall>pre rest. unpack_n ltr (length cs) (pre @ b @ rest) (length pre) = Some (cs, length pre + length b))"
  using assms
proof (induction cs)
  case (Cons c cs)
  then obtain b bs where c: "pack_one c = Some b"
      "\<And>pre rest. unpackone ltr (pre @ b @ rest) (length pre) = Some (c, length pre + length b)"
    and cs: "pack_all cs = Some bs"
      "\<And>pre rest. unpack_n ltr (length cs) (pre @ bs @ rest) (length pre) = Some (cs, length pre + length bs)"
    using pack_unpack_one [of c] by auto
  have "unpackone ltr (pre @ (b @ bs) @ rest) (length pre) = Some (c, length pre + length b)" for pre rest
    using c(2) [of pre "bs @ rest"] by simp
  moreover have "unpack_n ltr (length cs) (pre @ (b @ bs) @ rest) (length pre + length b)
      = Some (cs, length pre + length (b @ bs))" for pre rest
    using cs(2) [of "pre @ b" rest] by simp
  ultimately show ?case using c(1) cs(1) by simp
qed simp

subsection \<open>Elimination\<close>

definition shape :: "nat \<Rightarrow> nat \<Rightarrow> ulong list list \<Rightarrow> bool" where
  "shape n k T \<longleftrightarrow> length T = n \<and> (\<forall>row \<in> set T. length row = k \<and> (\<forall>x \<in> set row. x < field))"

abbreviation ent :: "ulong list list \<Rightarrow> nat \<Rightarrow> nat \<Rightarrow> 65537" where
  "ent T i c \<equiv> fe (T ! i ! c)"

lemma shapeD:
  assumes "shape n k T" "i < n"
  shows "length (T ! i) = k" "c < k \<Longrightarrow> T ! i ! c < field" "T ! i \<in> set T"
proof -
  show "T ! i \<in> set T" using assms by (simp add: shape_def)
  then show "length (T ! i) = k" "c < k \<Longrightarrow> T ! i ! c < field"
    using assms(1) by (auto simp: shape_def)
qed

lemma shapeI:
  assumes "length T = n" "\<And>i. i < n \<Longrightarrow> length (T ! i) = k" "\<And>i c. i < n \<Longrightarrow> c < k \<Longrightarrow> T ! i ! c < field"
  shows "shape n k T"
  using assms by (auto simp: shape_def in_set_conv_nth)

lemma fe_0 [simp]: "fe 0 = 0" and fe_1 [simp]: "fe 1 = 1"
  by (simp_all add: fe_def)

lemma reduce_row_spec:
  assumes "inv_table tab" "shape n k T" "r < n" "r < k" "T ! r ! r \<noteq> 0"
  obtains u where "u * ent T r r = 1" "shape n k (reduce_row tab r T)"
    "\<And>c. c < k \<Longrightarrow> ent (reduce_row tab r T) r c = u * ent T r c"
    "\<And>i c. i < n \<Longrightarrow> i \<noteq> r \<Longrightarrow> c < k \<Longrightarrow>
       ent (reduce_row tab r T) i c = ent T i c - ent T i r * (u * ent T r c)"
proof -
  let ?x = "T ! r ! r"
  let ?T = "reduce_row tab r T"
  define u where "u = fe (tab ?x)"
  define prow where "prow = map (\<lambda>a. DIV tab a ?x) (T ! r)"
  have x: "?x < field" using shapeD(2) [OF assms(2,3,4)] .
  then have t: "tab ?x < field" "unat ?x * unat (tab ?x) mod 65537 = 1"
    using assms(1,5) by (auto simp: inv_table_def)
  then have u: "u * fe ?x = 1"
    using of_nat_field_eq [of "unat ?x * unat (tab ?x)" 1] by (simp add: fe_def u_def mult.commute)
  have len: "length T = n" "length (T ! r) = k" using assms(2,3) shapeD(1) by (auto simp: shape_def)
  have pivot: "prow ! c < field \<and> fe (prow ! c) = u * ent T r c" if "c < k" for c
    using MUL_field [OF shapeD(2) [OF assms(2,3) that] t(1)] that len
    by (simp add: prow_def DIV_def INV_def u_def mult.commute)
  have one: "prow ! r = 1"
    using pivot [OF assms(4)] u by (intro fe_inject) (simp_all add: field_less)
  have rowr: "?T ! r = prow" using assms(3) len by (simp add: reduce_row_def prow_def Let_def)
  have rowi: "?T ! i = sub_row tab r prow (T ! i)" if "i < n" "i \<noteq> r" for i
    using that len by (simp add: reduce_row_def prow_def Let_def)
  have tab1: "tab 1 = 1"
  proof -
    have "(1 :: ulong) \<noteq> 0 \<and> 1 < field" by (simp add: field_less)
    then have t1: "tab 1 < field" "unat (tab 1) mod 65537 = 1"
      using assms(1) unfolding inv_table_def by fastforce+
    then have "unat (tab 1) = 1" by (simp add: field_less)
    then show ?thesis by (simp add: word_unat_eq_iff)
  qed
  have sub: "?T ! i ! c < field \<and> ent ?T i c = ent T i c - ent T i r * (u * ent T r c)"
    if "i < n" "i \<noteq> r" "c < k" for i c
  proof -
    have a: "T ! i ! r < field" "T ! i ! c < field" "length (T ! i) = k"
      using shapeD [OF assms(2) that(1)] assms(4) that(3) by auto
    have y: "DIV tab (T ! i ! r) (prow ! r) < field" "fe (DIV tab (T ! i ! r) (prow ! r)) = ent T i r"
      using MUL_field [OF a(1), of 1] by (simp_all add: one DIV_def INV_def tab1 field_less)
    have "?T ! i ! c = SUB (T ! i ! c) (MUL (DIV tab (T ! i ! r) (prow ! r)) (prow ! c))"
      using that a(3) len by (simp add: rowi sub_row_def Let_def prow_def)
    then show ?thesis
      using pivot [OF that(3)] y MUL_field [OF y(1), of "prow ! c"] SUB_field [OF a(2)] by simp
  qed
  have "shape n k ?T"
  proof (rule shapeI)
    show "length ?T = n" using len by (simp add: reduce_row_def Let_def)
    show "length (?T ! i) = k" if "i < n" for i
      using that len shapeD(1) [OF assms(2) that] by (cases "i = r") (simp_all add: rowr rowi prow_def sub_row_def Let_def)
    show "?T ! i ! c < field" if "i < n" "c < k" for i c
      using that sub pivot by (cases "i = r") (simp_all add: rowr)
  qed
  then show thesis using that [of u] u sub pivot rowr by simp
qed

text \<open>The right half is what the row operations made of the unit matrix, so the left half is
  its product with the given matrix; the first \<open>r\<close> columns are unit columns.\<close>

definition elim_inv :: "nat \<Rightarrow> (nat \<Rightarrow> nat \<Rightarrow> 65537) \<Rightarrow> nat \<Rightarrow> ulong list list \<Rightarrow> bool" where
  "elim_inv m A r T \<longleftrightarrow> shape m (2 * m) T
   \<and> (\<forall>i < m. \<forall>c < m. ent T i c = (\<Sum>j < m. ent T i (m + j) * A j c))
   \<and> (\<forall>i < m. \<forall>c < r. ent T i c = (if i = c then 1 else 0))"

lemma elim_inv_step:
  assumes "inv_table tab" "elim_inv m A r T" "r < m" "T ! r ! r \<noteq> 0"
  shows "elim_inv m A (r + 1) (reduce_row tab r T)"
proof -
  have T: "shape m (2 * m) T" "\<And>i c. i < m \<Longrightarrow> c < m \<Longrightarrow> ent T i c = (\<Sum>j < m. ent T i (m + j) * A j c)"
    "\<And>i c. i < m \<Longrightarrow> c < r \<Longrightarrow> ent T i c = (if i = c then 1 else 0)"
    using assms(2) by (auto simp: elim_inv_def)
  obtain u where u: "u * ent T r r = 1" "shape m (2 * m) (reduce_row tab r T)"
    "\<And>c. c < 2 * m \<Longrightarrow> ent (reduce_row tab r T) r c = u * ent T r c"
    "\<And>i c. i < m \<Longrightarrow> i \<noteq> r \<Longrightarrow> c < 2 * m \<Longrightarrow>
       ent (reduce_row tab r T) i c = ent T i c - ent T i r * (u * ent T r c)"
    using reduce_row_spec [OF assms(1) T(1) assms(3) _ assms(4)] assms(3) by auto
  let ?T = "reduce_row tab r T"
  have prod: "ent ?T i c = (\<Sum>j < m. ent ?T i (m + j) * A j c)" if "i < m" "c < m" for i c
  proof (cases "i = r")
    case True
    have "(\<Sum>j < m. ent ?T r (m + j) * A j c) = (\<Sum>j < m. u * (ent T r (m + j) * A j c))"
      by (intro sum.cong) (simp_all add: u(3) mult.assoc)
    also have "\<dots> = u * ent T r c" using T(2) [OF assms(3) that(2)] by (simp add: sum_distrib_left)
    finally show ?thesis using True u(3) that by simp
  next
    case False
    let ?w = "ent T i r * u"
    have "(\<Sum>j < m. ent ?T i (m + j) * A j c)
        = (\<Sum>j < m. ent T i (m + j) * A j c - ?w * (ent T r (m + j) * A j c))"
      by (intro sum.cong) (simp_all add: u(4) that False left_diff_distrib mult.assoc)
    also have "\<dots> = ent T i c - ?w * ent T r c"
      using T(2) [OF that] T(2) [OF assms(3) that(2)] by (simp add: sum_subtractf sum_distrib_left)
    finally show ?thesis using u(4) [OF that(1) False] that by (simp add: mult.assoc)
  qed
  have "ent ?T i c = (if i = c then 1 else 0)" if "i < m" "c < r + 1" for i c
  proof -
    have c: "c < 2 * m" using that(2) assms(3) by simp
    have old: "c < r \<Longrightarrow> ent T r c = 0" using T(3) [OF assms(3)] by simp
    show ?thesis
      using that old u(1) u(3) [OF c] u(4) [OF that(1) _ c] T(3) [OF that(1)]
      by (cases "c = r"; cases "i = r") (simp_all add: mult.commute)
  qed
  then show ?thesis using u(2) prod by (simp add: elim_inv_def)
qed

lemma reduce_from_inv:
  assumes "inv_table tab" "elim_inv m A r T" "r + n = m" "reduce_from tab r n T = Some T'"
  shows "elim_inv m A m T'"
  using assms(2-4)
proof (induction n arbitrary: r T)
  case (Suc n)
  then show ?case using elim_inv_step [OF assms(1), of m A r T] by (auto split: if_splits)
qed simp

lemma augment_inv:
  assumes "shape m m a"
  obtains T where "augment m m a = Some T" "elim_inv m (ent a) 0 T"
proof -
  define T where "T = map (\<lambda>r. take m (a ! r) @ map (\<lambda>c. if r = c then 1 else 0 :: ulong) [0..<m]) [0..<m]"
  have a: "length a = m" "\<forall>row \<in> set a. length row = m" using assms by (auto simp: shape_def)
  have left: "T ! i ! c = a ! i ! c" and right: "T ! i ! (m + c) = (if i = c then 1 else 0)"
    if "i < m" "c < m" for i c
    using that a by (simp_all add: T_def nth_append)
  have "shape m (2 * m) T"
  proof (rule shapeI)
    show "length (T ! i) = 2 * m" if "i < m" for i using that a by (simp add: T_def)
    show "T ! i ! c < field" if "i < m" "c < 2 * m" for i c
    proof (cases "c < m")
      case True
      then show ?thesis using shapeD(2) [OF assms that(1)] left that(1) by simp
    next
      case False
      then show ?thesis using right [OF that(1), of "c - m"] that(2) by (auto simp: field_less)
    qed
  qed (simp add: T_def)
  moreover have "ent T i c = (\<Sum>j < m. ent T i (m + j) * ent a j c)" if "i < m" "c < m" for i c
  proof -
    have "(\<Sum>j < m. ent T i (m + j) * ent a j c) = (\<Sum>j < m. if i = j then ent a j c else 0)"
      using that(1) by (intro sum.cong) (auto simp: right)
    then show ?thesis using that by (simp add: left)
  qed
  moreover have "augment m m a = Some T"
    using a by (auto simp: augment_def T_def list_all_iff dest: in_set_takeD)
  ultimately show thesis using that by (simp add: elim_inv_def)
qed

lemma minvert_spec:
  assumes "inv_table tab" "shape m m a"
  shows "\<exists>r. minvert tab m m a = Some r
    \<and> (\<forall>R. r = Some R \<longrightarrow> shape m m R
        \<and> (\<forall>i < m. \<forall>c < m. (\<Sum>j < m. ent R i j * ent a j c) = (if i = c then 1 else 0)))"
proof -
  obtain T where T: "augment m m a = Some T" "elim_inv m (ent a) 0 T" using augment_inv [OF assms(2)] .
  have "shape m m (map (drop m) T') \<and> (\<forall>i < m. \<forall>c < m.
      (\<Sum>j < m. ent (map (drop m) T') i j * ent a j c) = (if i = c then 1 else 0))"
    if r: "reduce_from tab 0 m T = Some T'" for T'
  proof -
    have inv: "elim_inv m (ent a) m T'" using reduce_from_inv [OF assms(1) T(2) _ r] by simp
    then have sh: "shape m (2 * m) T'" by (simp add: elim_inv_def)
    then have len: "length T' = m" by (simp add: shape_def)
    have nth: "map (drop m) T' ! i ! j = T' ! i ! (m + j)" if "i < m" "j < m" for i j
      using that len shapeD(1) [OF sh that(1)] by simp
    have "shape m m (map (drop m) T')"
    proof (rule shapeI)
      show "length (map (drop m) T' ! i) = m" if "i < m" for i
        using that len shapeD(1) [OF sh that] by simp
      show "map (drop m) T' ! i ! c < field" if "i < m" "c < m" for i c
        using that nth shapeD(2) [OF sh that(1), of "m + c"] by simp
    qed (simp add: len)
    moreover have "(\<Sum>j < m. ent (map (drop m) T') i j * ent a j c) = (if i = c then 1 else 0)"
      if "i < m" "c < m" for i c
    proof -
      have "(\<Sum>j < m. ent (map (drop m) T') i j * ent a j c) = (\<Sum>j < m. ent T' i (m + j) * ent a j c)"
        using that(1) nth by (intro sum.cong) simp_all
      moreover have "ent T' i c = (\<Sum>j < m. ent T' i (m + j) * ent a j c)" "ent T' i c = (if i = c then 1 else 0)"
        using inv that unfolding elim_inv_def by blast+
      ultimately show ?thesis by simp
    qed
    ultimately show ?thesis by blast
  qed
  then show ?thesis by (cases "reduce_from tab 0 m T") (auto simp: minvert_def T(1))
qed

subsection \<open>Encoding\<close>

definition byte_at :: "bytes \<Rightarrow> nat \<Rightarrow> byte" where
  "byte_at s i = (if i < length s then s ! i else 0)"

text \<open>The two bytes at \<open>i\<close> as a field element.\<close>

definition pair_at :: "bytes \<Rightarrow> nat \<Rightarrow> ulong" where
  "pair_at s i = push_bit 8 (ucast (byte_at s i)) OR ucast (byte_at s (i + 1))"

lemma pair_at_bits: "\<forall>n \<ge> 16. \<not> bit (pair_at s i) n"
  by (auto simp: pair_at_def bit_simps dest: bit_imp_le_length)

lemma pair_at_less: "pair_at s i < field" "pair_at s i = pair_at s i AND 0x0000ffff"
proof -
  show "pair_at s i < field" using pair_at_bits bits_below [of 16 "pair_at s i"] by (simp add: field_less)
  have "(0x0000ffff :: ulong) = mask 16" by (simp add: mask_numeral)
  moreover have "pair_at s i AND mask 16 = pair_at s i"
    using pair_at_bits [of s i] by (intro bit_eqI) (auto simp: bit_and_iff bit_mask_iff, metis linorder_not_less)
  ultimately show "pair_at s i = pair_at s i AND 0x0000ffff" by simp
qed

text \<open>Positions behind the end are all alike.\<close>

definition same_pos :: "bytes \<Rightarrow> nat \<Rightarrow> nat \<Rightarrow> bool" where
  "same_pos s inp i \<longleftrightarrow> inp = i \<or> inp > length s \<and> i > length s"

lemma next_byte_pos:
  assumes "same_pos s inp i"
  obtains inp' where "next_byte s inp = Some (ucast (byte_at s i), inp')" "same_pos s inp' (i + 1)"
proof (cases "inp > length s")
  case True
  then show thesis using that [of inp] assms by (auto simp: next_byte_def byte_at_def same_pos_def)
next
  case False
  then have "inp = i" using assms by (simp add: same_pos_def)
  then show thesis using that [of "i + 1"] False
    by (auto simp: next_byte_def str_at_def byte_at_def same_pos_def)
qed

lemma encode_one_spec:
  assumes "\<forall>x \<in> set v. x < field" "same_pos s inp i" "cik < field"
  shows "\<exists>c. encode_one s v inp cik = Some c \<and> c < field
    \<and> fe c = fe cik + (\<Sum>j < length v. fe (pair_at s (i + 2 * j)) * fe (v ! j))"
  using assms
proof (induction v arbitrary: inp i cik)
  case (Cons x v)
  obtain p1 where p1: "next_byte s inp = Some (ucast (byte_at s i), p1)" "same_pos s p1 (i + 1)"
    using next_byte_pos [OF Cons.prems(2)] .
  obtain p2 where p2: "next_byte s p1 = Some (ucast (byte_at s (i + 1)), p2)" "same_pos s p2 (i + 2)"
    using next_byte_pos [OF p1(2)] by (metis add.assoc nat_1_add_1)
  let ?c = "ADD cik (MUL (pair_at s i) x)"
  have m: "MUL (pair_at s i) x < field" "fe (MUL (pair_at s i) x) = fe (pair_at s i) * fe x"
    using MUL_field [OF pair_at_less(1)] Cons.prems(1) by auto
  note a = ADD_field [OF Cons.prems(3) m(1)]
  obtain c where c: "encode_one s v p2 ?c = Some c" "c < field"
    "fe c = fe ?c + (\<Sum>j < length v. fe (pair_at s (i + 2 + 2 * j)) * fe (v ! j))"
    using Cons.IH [OF _ p2(2) a(1)] Cons.prems(1) by auto
  have "encode_one s (x # v) inp cik = Some c"
    using p1(1) p2(1) c(1) a(1) pair_at_less(2) [of s i] unfolding pair_at_def by (simp add: Let_def)
  moreover have "(\<Sum>j < length (x # v). fe (pair_at s (i + 2 * j)) * fe ((x # v) ! j))
      = fe (pair_at s i) * fe x + (\<Sum>j < length v. fe (pair_at s (i + 2 + 2 * j)) * fe (v ! j))"
    by (simp add: sum.lessThan_Suc_shift del: sum.lessThan_Suc)
  ultimately show ?case using c a m by (simp add: add.assoc)
qed simp

lemma encode_from_spec:
  assumes "\<forall>x \<in> set v. x < field" "length v = m"
  shows "\<exists>cs. encode_from s v m k n = Some cs \<and> length cs = n
    \<and> (\<forall>l < n. cs ! l < field \<and> fe (cs ! l)
        = (\<Sum>j < m. fe (pair_at s ((k + l) * 2 * m + 2 * j)) * fe (v ! j)))"
proof (induction n arbitrary: k)
  case (Suc n)
  obtain c where c: "encode_one s v (k * 2 * m) 0 = Some c" "c < field"
    "fe c = (\<Sum>j < m. fe (pair_at s (k * 2 * m + 2 * j)) * fe (v ! j))"
    using encode_one_spec [OF assms(1), of s "k * 2 * m" "k * 2 * m" 0] assms(2)
    by (auto simp: same_pos_def field_less)
  obtain cs where cs: "encode_from s v m (k + 1) n = Some cs" "length cs = n"
    "\<And>l. l < n \<Longrightarrow> cs ! l < field \<and> fe (cs ! l)
        = (\<Sum>j < m. fe (pair_at s ((k + 1 + l) * 2 * m + 2 * j)) * fe (v ! j))"
    using Suc.IH [of "k + 1"] by blast
  have "(c # cs) ! l < field \<and> fe ((c # cs) ! l)
        = (\<Sum>j < m. fe (pair_at s ((k + l) * 2 * m + 2 * j)) * fe (v ! j))" if "l < Suc n" for l
    using that c cs(3) by (cases l) simp_all
  then show ?case using c(1) cs(1,2) by auto
qed simp

subsection \<open>Fragments\<close>

lemma gen_row_spec: "gen_row m rs = Some v \<Longrightarrow> length v = m \<and> (\<forall>x \<in> set v. x < field)"
  by (induction m rs arbitrary: v rule: gen_row.induct)
    (auto simp: mod_field bind_eq_Some_conv split: if_splits)

lemma unpack_n_append:
  "unpack_n ltr (length xs + n) s p = Some (xs @ ys, r) \<Longrightarrow>
   \<exists>q. unpack_n ltr (length xs) s p = Some (xs, q) \<and> unpack_n ltr n s q = Some (ys, r)"
  by (induction xs arbitrary: p) (auto simp: bind_eq_Some_conv)

lemma unpack_n_Cons:
  "unpack_n ltr (Suc n) s p = Some (x # xs, r) \<Longrightarrow> \<exists>q. unpackone ltr s p = Some (x, q) \<and> unpack_n ltr n s q = Some (xs, r)"
  by (auto simp: bind_eq_Some_conv)

text \<open>A fragment of block \<open>s\<close> as it is read: its matrix row and its data.\<close>

definition frag_row :: "nat \<Rightarrow> bytes \<Rightarrow> ulong list" where
  "frag_row m f = (case unpack ltr f of Some xs \<Rightarrow> take m (drop 3 xs) | None \<Rightarrow> [])"

definition frag_data :: "nat \<Rightarrow> bytes \<Rightarrow> ulong list" where
  "frag_data m f = (case unpack ltr f of Some xs \<Rightarrow> drop (m + 4) xs | None \<Rightarrow> [])"

definition block_fits :: "nat \<Rightarrow> bytes \<Rightarrow> bool" where
  "block_fits m s \<longleftrightarrow> 0 < m \<and> length s < 2 ^ 24 \<and> 4 + m + frag_len m (length s) < 2 ^ 24"

definition frag_of :: "nat \<Rightarrow> bytes \<Rightarrow> bytes \<Rightarrow> bool" where
  "frag_of m s f \<longleftrightarrow>
     (let n = frag_len m (length s)
      in length (frag_row m f) = m \<and> (\<forall>x \<in> set (frag_row m f). x < field) \<and> length (frag_data m f) = n
       \<and> (\<forall>l < n. frag_data m f ! l < field \<and> fe (frag_data m f ! l)
            = (\<Sum>j < m. fe (pair_at s (l * 2 * m + 2 * j)) * fe (frag_row m f ! j)))
       \<and> (\<exists>p1 p2 p3 p4 p5 p6. unpackone ltr f 0 = Some (of_nat (4 + m + n), p1)
            \<and> unpackone ltr f p1 = Some (of_nat (length s), p2) \<and> unpackone ltr f p2 = Some (of_nat m, p3)
            \<and> unpack_n ltr m f p3 = Some (frag_row m f, p4) \<and> unpackone ltr f p4 = Some (of_nat n, p5)
            \<and> unpack_n ltr n f p5 = Some (frag_data m f, p6)))"

lemma unat_small: "n < 2 ^ 24 \<Longrightarrow> unat (of_nat n :: ulong) = n"
  by (simp add: unat_of_nat take_bit_nat_eq_self)

lemma gen_frag_of:
  assumes "block_fits m s" "gen_frag m s rs = Some f"
  shows "frag_of m s f"
proof -
  let ?n = "frag_len m (length s)"
  have fits: "0 < m" "length s < 2 ^ 24" "4 + m + ?n < 2 ^ 24" using assms(1) by (auto simp: block_fits_def)
  obtain v cs where v: "gen_row m rs = Some v" and cs: "encode_from s v m 0 ?n = Some cs"
    and pk: "pack ([of_nat (3 + m + 1 + ?n), of_nat (length s), of_nat m] @ v @ [of_nat ?n] @ cs) = Some f"
    using assms(2) fits(1) by (auto simp: gen_frag_def gen_frag_elems_def Let_def bind_eq_Some_conv)
  have v': "length v = m" "\<forall>x \<in> set v. x < field" using gen_row_spec [OF v] by auto
  have cs': "length cs = ?n" "\<And>l. l < ?n \<Longrightarrow> cs ! l < field \<and> fe (cs ! l)
      = (\<Sum>j < m. fe (pair_at s (l * 2 * m + 2 * j)) * fe (v ! j))"
    using encode_from_spec [OF v'(2,1), of s 0 ?n] cs by auto
  define xs where "xs = [of_nat (4 + m + ?n), of_nat (length s), of_nat m] @ v @ [of_nat ?n] @ cs"
  have len: "length xs = 4 + m + ?n" by (simp add: xs_def v' cs')
  have small: "\<forall>x \<in> set xs. unat x < 2 ^ 24"
  proof -
    have "\<forall>x \<in> set cs. x < field" using cs' by (auto simp: in_set_conv_nth)
    moreover have "unat x < 2 ^ 24" if "x < field" for x using that unfolding field_less by simp
    ultimately show ?thesis
      using v'(2) fits unat_small [of "4 + m + ?n"] by (auto simp: xs_def unat_small)
  qed
  have "pack xs = Some f" using pk by (simp add: xs_def ac_simps)
  moreover have "unat (xs ! 0) = length xs" using fits unat_small [of "4 + m + ?n"] by (simp add: len) (simp add: xs_def)
  moreover have "xs \<noteq> []" by (simp add: xs_def)
  ultimately have "pack_all xs = Some f" by (simp add: pack_def)
  then have all: "unpack_n ltr (length xs) f 0 = Some (xs, length f)"
    using pack_unpack_all [OF small] by (metis append_Nil append_Nil2 list.size(3) add_0 option.inject)
  have len3: "length xs = Suc (Suc (Suc (m + Suc ?n)))" by (simp add: len)
  have "unpack_n ltr (Suc (Suc (Suc (m + Suc ?n)))) f 0 = Some (of_nat (4 + m + ?n) # of_nat (length s) # of_nat m
      # v @ of_nat ?n # cs, length f)"
    using all unfolding len3 by (simp only: xs_def append.simps)
  then obtain p1 p2 p3 where p: "unpackone ltr f 0 = Some (of_nat (4 + m + ?n), p1)"
      "unpackone ltr f p1 = Some (of_nat (length s), p2)" "unpackone ltr f p2 = Some (of_nat m, p3)"
    and rest: "unpack_n ltr (length v + Suc ?n) f p3 = Some (v @ of_nat ?n # cs, length f)"
    unfolding v'(1) by (blast dest: unpack_n_Cons)
  obtain p4 p5 where q: "unpack_n ltr m f p3 = Some (v, p4)" "unpackone ltr f p4 = Some (of_nat ?n, p5)"
      "unpack_n ltr ?n f p5 = Some (cs, length f)"
    using unpack_n_append [OF rest] unfolding v'(1) by (blast dest: unpack_n_Cons)
  have "unpack ltr f = Some xs"
    using p(1) all fits unat_small [of "4 + m + ?n"] by (simp add: unpack_def len)
  then have "frag_row m f = v" "frag_data m f = cs"
    by (simp_all add: frag_row_def frag_data_def) (simp_all add: xs_def v' numeral_eq_Suc)
  then show ?thesis using v' cs' p q unfolding frag_of_def Let_def by blast
qed

lemma gen_frag_total:
  assumes "block_fits m s" "gen_row m rs = Some v"
  shows "\<exists>f. gen_frag m s rs = Some f"
proof -
  let ?n = "frag_len m (length s)"
  have fits: "0 < m" "length s < 2 ^ 24" "4 + m + ?n < 2 ^ 24" using assms(1) by (auto simp: block_fits_def)
  have v': "length v = m" "\<forall>x \<in> set v. x < field" using gen_row_spec [OF assms(2)] by auto
  obtain cs where cs: "encode_from s v m 0 ?n = Some cs" "length cs = ?n" "\<And>l. l < ?n \<Longrightarrow> cs ! l < field"
    using encode_from_spec [OF v'(2,1), of s 0 ?n] by auto
  let ?xs = "[of_nat (3 + m + 1 + ?n), of_nat (length s), of_nat m] @ v @ [of_nat ?n] @ cs"
  have "\<forall>x \<in> set cs. x < field" using cs by (auto simp: in_set_conv_nth)
  moreover have "unat x < 2 ^ 24" if "x < field" for x using that unfolding field_less by simp
  ultimately have "\<forall>x \<in> set ?xs. unat x < 2 ^ 24"
    using v'(2) fits unat_small [of "3 + m + 1 + ?n"] by (auto simp: unat_small)
  then obtain f where "pack_all ?xs = Some f" using pack_unpack_all by blast
  then have "pack ?xs = Some f"
    using fits unat_small [of "3 + m + 1 + ?n"] v' cs(2) by (simp add: pack_def)
  then show ?thesis using assms(2) cs(1) fits(1) by (simp add: gen_frag_def gen_frag_elems_def Let_def)
qed

subsection \<open>Collecting\<close>

lemma collect_good:
  assumes "block_fits m s" "\<forall>f \<in> set frags. frag_of m s f" "m \<le> length frags" "i \<le> m"
    and "B = 0 \<or> B = of_nat (frag_len m (length s))"
  shows "collect ltr i (of_nat m) (of_nat (length s)) B frags a d
    = Some (frags, if i < m then of_nat (frag_len m (length s)) else B,
        a @ map (frag_row m) (drop i (take m frags)), d @ map (frag_data m) (drop i (take m frags)))"
  using assms(4,5)
proof (induction "m - i" arbitrary: i B a d)
  case 0
  have "unat (of_nat m :: ulong) = m" using assms(1) unat_small [of m] by (simp add: block_fits_def)
  with 0 show ?case by (subst collect.simps) simp
next
  case (Suc k)
  let ?n = "frag_len m (length s)"
  let ?f = "frags ! i"
  have fits: "4 + m + ?n < 2 ^ 24" "length s < 2 ^ 24" using assms(1) by (auto simp: block_fits_def)
  have m: "unat (of_nat m :: ulong) = m" "unat (of_nat ?n :: ulong) = ?n"
    using fits by (simp_all add: unat_small)
  have i: "i < m" "i < length frags" using Suc.hyps(2) assms(3) by auto
  have "frag_of m s ?f" using assms(2) i by simp
  then obtain p1 p2 p3 p4 p5 p6 where f: "unpackone ltr ?f 0 = Some (of_nat (4 + m + ?n), p1)"
      "unpackone ltr ?f p1 = Some (of_nat (length s), p2)" "unpackone ltr ?f p2 = Some (of_nat m, p3)"
      "unpack_n ltr m ?f p3 = Some (frag_row m ?f, p4)" "unpackone ltr ?f p4 = Some (of_nat ?n, p5)"
      "unpack_n ltr ?n ?f p5 = Some (frag_data m ?f, p6)"
    unfolding frag_of_def Let_def by blast
  have long: "\<not> (of_nat (4 + m + ?n) :: ulong) < of_nat m + 4"
  proof -
    have "(of_nat m + 4 :: ulong) = of_nat (m + 4)" by simp
    then show ?thesis using fits unat_small [of "m + 4"] unat_small [of "4 + m + ?n"]
      by (simp only: word_less_nat_alt)
  qed
  have rest: "of_nat (4 + m + ?n) - (of_nat m + 4 :: ulong) = of_nat ?n" by simp
  have bs: "(if B = 0 then of_nat ?n else B) = (of_nat ?n :: ulong)" using Suc.prems(2) by auto
  have step: "collect ltr i (of_nat m) (of_nat (length s)) B frags a d
      = collect ltr (i + 1) (of_nat m) (of_nat (length s)) (of_nat ?n) frags (a @ [frag_row m ?f]) (d @ [frag_data m ?f])"
    by (subst collect.simps) (simp only: i m f long rest bs Let_def bind.bind_lunit prod.case if_True if_False simp_thms)
  have dropi: "drop i (take m frags) = ?f # drop (i + 1) (take m frags)"
    using i by (simp add: Cons_nth_drop_Suc [symmetric])
  have "collect ltr (i + 1) (of_nat m) (of_nat (length s)) (of_nat ?n) frags (a @ [frag_row m ?f]) (d @ [frag_data m ?f])
      = Some (frags, of_nat ?n, (a @ [frag_row m ?f]) @ map (frag_row m) (drop (i + 1) (take m frags)),
          (d @ [frag_data m ?f]) @ map (frag_data m) (drop (i + 1) (take m frags)))"
    using Suc.hyps(1) [of "i + 1" "of_nat ?n"] Suc.hyps(2) i by simp
  then show ?case unfolding step dropi using i by simp
qed

subsection \<open>Decoding\<close>

lemma decode_elem_spec:
  assumes "length c = length x" "\<forall>y \<in> set c. y < field" "\<forall>y \<in> set x. y < field" "b < field"
  shows "decode_elem c x b < field \<and> fe (decode_elem c x b) = fe b + (\<Sum>j < length x. fe (c ! j) * fe (x ! j))"
  using assms
proof (induction c x arbitrary: b rule: list_induct2)
  case (Cons y c z x)
  have m: "MUL y z < field" "fe (MUL y z) = fe y * fe z" using MUL_field Cons.prems by auto
  note a = ADD_field [OF Cons.prems(3) m(1)]
  show ?case using Cons.IH [OF _ _ a(1)] Cons.prems a(2) m(2)
    by (simp add: sum.lessThan_Suc_shift add.assoc del: sum.lessThan_Suc)
qed simp

lemma decode_bytes_pair: "decode_bytes (pair_at s i) = Some [byte_at s i, byte_at s (i + 1)]"
proof -
  have "pair_at s i AND 0xffff0000 = 0" using high16 pair_at_bits by blast
  moreover have "ucast (drop_bit 8 (pair_at s i)) = byte_at s i"
    by (rule bit_eqI) (auto simp: pair_at_def bit_simps dest: bit_imp_le_length)
  moreover have "ucast (pair_at s i) = byte_at s (i + 1)"
    by (rule bit_eqI) (auto simp: pair_at_def bit_simps)
  ultimately show ?thesis by (simp add: decode_bytes_def)
qed

lemma decode_rows_spec:
  assumes "\<forall>i < length R. decode_elem c (R ! i) 0 = pair_at s (base + 2 * i)"
  shows "decode_rows c R = Some (map (byte_at s) [base..<base + 2 * length R])"
  using assms
proof (induction R arbitrary: base)
  case (Cons row R)
  have "decode_elem c row 0 = pair_at s base" using Cons.prems by force
  moreover have "decode_rows c R = Some (map (byte_at s) [base + 2..<base + 2 + 2 * length R])"
    using Cons.prems by (intro Cons.IH) (force simp: ac_simps)
  moreover have "[base..<base + 2 * length (row # R)] = [base, base + 1] @ [base + 2..<base + 2 + 2 * length R]"
    using upt_add_eq_append [of base "base + 2" "2 * length R"] by (simp add: upt_conv_Cons)
  ultimately show ?case by (simp add: decode_bytes_pair)
qed simp

lemma decode_all_spec:
  assumes "\<And>l. l < inp + n \<Longrightarrow> inp \<le> l \<Longrightarrow>
      decode_rows (map (\<lambda>d. d ! l) D) R = Some (map (byte_at s) [l * w..<(l + 1) * w])"
  shows "decode_all inp n R D = Some (map (byte_at s) [inp * w..<(inp + n) * w])"
  using assms
proof (induction n arbitrary: inp)
  case (Suc n)
  have "decode_rows (map (\<lambda>d. d ! inp) D) R = Some (map (byte_at s) [inp * w..<(inp + 1) * w])"
    using Suc.prems by simp
  moreover have "decode_all (inp + 1) n R D = Some (map (byte_at s) [(inp + 1) * w..<(inp + 1 + n) * w])"
    using Suc.prems by (intro Suc.IH) auto
  moreover have "[inp * w..<(inp + Suc n) * w] = [inp * w..<(inp + 1) * w] @ [(inp + 1) * w..<(inp + 1 + n) * w]"
    using upt_add_eq_append [of "inp * w" "(inp + 1) * w" "n * w"] by (simp add: algebra_simps)
  ultimately show ?case by simp
qed simp

lemma shuffle_from_mset: "mset (shuffle_from i rs frags) = mset frags"
proof (induction i rs frags rule: shuffle_from.induct)
  case (1 i r rs frags)
  let ?r = "r mod length frags"
  have "mset (frags[i := frags ! ?r, ?r := frags ! i]) = mset frags" if "i < length frags"
    using that by (intro mset_swap mod_less_divisor) auto
  with 1 show ?case by (auto simp: Let_def)
qed simp

lemma frag_len_covers: "0 < m \<Longrightarrow> n \<le> frag_len m n * (2 * m)"
  using mod_less_divisor [of "2 * m" "n + 2 * m - 1"] div_mult_mod_eq [of "n + 2 * m - 1" "2 * m"]
  unfolding frag_len_def by linarith

lemma decode_elem_pair:
  assumes "\<forall>f \<in> set F. frag_of m s f" "length F = m" "l < frag_len m (length s)" "shape m m R"
    and "\<And>i c. i < m \<Longrightarrow> c < m \<Longrightarrow> (\<Sum>j < m. ent R i j * ent (map (frag_row m) F) j c) = (if i = c then 1 else 0)"
    and "i < m"
  shows "decode_elem (map (\<lambda>d. d ! l) (map (frag_data m) F)) (R ! i) 0 = pair_at s (l * (2 * m) + 2 * i)"
proof -
  let ?c = "map (\<lambda>d. d ! l) (map (frag_data m) F)"
  let ?b = "\<lambda>k. fe (pair_at s (l * (2 * m) + 2 * k))"
  have F: "frag_of m s (F ! j)" if "j < m" for j using assms(1,2) that by simp
  have c: "?c ! j < field \<and> fe (?c ! j) = (\<Sum>k < m. ?b k * fe (frag_row m (F ! j) ! k))" if "j < m" for j
    using F [OF that] assms(2,3) that unfolding frag_of_def Let_def by (simp add: mult.assoc)
  have row: "length (R ! i) = m" "\<forall>y \<in> set (R ! i). y < field"
    using assms(4,6) shapeD(1) by (auto simp: shape_def)
  have "\<forall>y \<in> set ?c. y < field" using c assms(2) by (force simp: in_set_conv_nth)
  then have dec: "decode_elem ?c (R ! i) 0 < field"
    "fe (decode_elem ?c (R ! i) 0) = (\<Sum>j < m. fe (?c ! j) * ent R i j)"
    using decode_elem_spec [of ?c "R ! i" 0] row assms(2) by (simp_all add: field_less)
  have "(\<Sum>j < m. fe (?c ! j) * ent R i j) = (\<Sum>j < m. \<Sum>k < m. ?b k * (ent R i j * ent (map (frag_row m) F) j k))"
    using c assms(2) by (intro sum.cong) (simp_all add: sum_distrib_right sum_distrib_left ac_simps)
  also have "\<dots> = (\<Sum>k < m. ?b k * (\<Sum>j < m. ent R i j * ent (map (frag_row m) F) j k))"
    by (subst sum.swap) (simp add: sum_distrib_left)
  also have "\<dots> = (\<Sum>k < m. if i = k then ?b k else 0)"
    using assms(5,6) by (intro sum.cong) auto
  also have "\<dots> = ?b i" using assms(6) by simp
  finally show ?thesis using dec fe_inject pair_at_less(1) by metis
qed

lemma reconstruct_spec:
  fixes rs :: "nat list"
  assumes "inv_table tab" "block_fits m s" "m \<le> length frags" "\<forall>f \<in> set frags. frag_of m s f"
  defines "F \<equiv> take m (random_shuffle rs frags)"
  shows "\<exists>r. minvert tab m m (map (frag_row m) F) = Some r
    \<and> reconstruct ltr tab rs frags = Some (if r = None then None else Some s)"
proof -
  let ?n = "frag_len m (length s)"
  let ?fr = "random_shuffle rs frags"
  have fits: "0 < m" "4 + m + ?n < 2 ^ 24" "length s < 2 ^ 24" using assms(2) by (auto simp: block_fits_def)
  have un: "unat (of_nat m :: ulong) = m" "unat (of_nat ?n :: ulong) = ?n" "unat (of_nat (length s) :: ulong) = length s"
    using fits by (simp_all add: unat_small)
  have "mset ?fr = mset frags" by (simp add: random_shuffle_def shuffle_from_mset)
  then have fr: "length ?fr = length frags" "\<forall>f \<in> set ?fr. frag_of m s f"
    using assms(4) by (metis size_mset, metis set_mset_mset)
  have F: "\<forall>f \<in> set F. frag_of m s f" "length F = m"
    using fr assms(3) by (auto simp: F_def dest: in_set_takeD)
  have sh: "shape m m (map (frag_row m) F)"
    using F unfolding shape_def frag_of_def Let_def by auto
  obtain r where r: "minvert tab m m (map (frag_row m) F) = Some r"
    and inv: "\<And>R. r = Some R \<Longrightarrow> shape m m R \<and> (\<forall>i < m. \<forall>c < m.
        (\<Sum>j < m. ent R i j * ent (map (frag_row m) F) j c) = (if i = c then 1 else 0))"
    using minvert_spec [OF assms(1) sh] by blast
  have "0 < length ?fr" unfolding fr(1) using fits(1) assms(3) by linarith
  then have ne: "frags \<noteq> []" "?fr ! 0 \<in> set ?fr" using fr(1) by (metis length_0_conv less_irrefl, simp)
  then have "frag_of m s (?fr ! 0)" using fr(2) by blast
  then obtain p1 p2 p3 where hd: "unpackone ltr (?fr ! 0) 0 = Some (of_nat (4 + m + ?n), p1)"
      "unpackone ltr (?fr ! 0) p1 = Some (of_nat (length s), p2)" "unpackone ltr (?fr ! 0) p2 = Some (of_nat m, p3)"
    unfolding frag_of_def Let_def by blast
  have long: "\<not> (of_nat (4 + m + ?n) :: ulong) < of_nat m + 4"
  proof -
    have "(of_nat m + 4 :: ulong) = of_nat (m + 4)" by simp
    then show ?thesis using fits unat_small [of "m + 4"] unat_small [of "4 + m + ?n"]
      by (simp only: word_less_nat_alt)
  qed
  have col: "collect ltr 0 (of_nat m) (of_nat (length s)) 0 ?fr [] []
      = Some (?fr, of_nat ?n, map (frag_row m) F, map (frag_data m) F)"
    using collect_good [OF assms(2) fr(2), of 0 0] fr(1) assms(3) fits(1) by (simp add: F_def)
  have outb: "decode_all 0 ?n R (map (frag_data m) F) = Some (map (byte_at s) [0..<?n * (2 * m)])" if "r = Some R" for R
  proof -
    have R: "shape m m R" "\<And>i c. i < m \<Longrightarrow> c < m \<Longrightarrow>
        (\<Sum>j < m. ent R i j * ent (map (frag_row m) F) j c) = (if i = c then 1 else 0)"
      using inv [OF that] by blast+
    have "decode_rows (map (\<lambda>d. d ! l) (map (frag_data m) F)) R
        = Some (map (byte_at s) [l * (2 * m)..<(l + 1) * (2 * m)])" if "l < ?n" for l
    proof -
      have len: "length R = m" using R(1) by (simp add: shape_def)
      have "decode_rows (map (\<lambda>d. d ! l) (map (frag_data m) F)) R
          = Some (map (byte_at s) [l * (2 * m)..<l * (2 * m) + 2 * length R])"
        using decode_elem_pair [OF F that R] len by (intro decode_rows_spec) simp
      then show ?thesis by (simp add: len add.commute)
    qed
    then show ?thesis using decode_all_spec [of 0 ?n "map (frag_data m) F" R s "2 * m"] by simp
  qed
  have whole: "take (length s) (map (byte_at s) [0..<?n * (2 * m)]) = s"
    using frag_len_covers [OF fits(1), of "length s"]
    by (intro nth_equalityI) (simp_all add: byte_at_def)
  have "reconstruct ltr tab rs frags = Some (if r = None then None else Some s)"
    using ne fr(1) assms(3) un hd long col r outb whole frag_len_covers [OF fits(1), of "length s"]
    by (cases r) (simp_all add: reconstruct_def Let_def)
  with r show ?thesis by blast
qed

subsection \<open>Properties\<close>

text \<open>
  the field operations are exact in 32 bits. On elements of the field \<^verbatim>\<open>ADD\<close>, \<^verbatim>\<open>SUB\<close> and
  \<^verbatim>\<open>MUL\<close> return the sum, difference and product modulo 65537, although the product of
  two elements may exceed 32 bits (only for \<open>65536 * 65536\<close>, which is treated apart).
\<close>

theorem field_operations_exact:
  assumes "a < field" "b < field"
  shows "unat (ADD a b) = (unat a + unat b) mod 65537
    \<and> int (unat (SUB a b)) = (int (unat a) - int (unat b)) mod 65537
    \<and> unat (MUL a b) = unat a * unat b mod 65537"
proof -
  have bound: "unat (ADD a b) < 65537" "unat (SUB a b) < 65537" "unat (MUL a b) < 65537"
    using field_ops [OF assms] by (simp_all add: field_less)
  have "unat (ADD a b) mod 65537 = (unat a + unat b) mod 65537"
    using ADD_field(2) [OF assms] unfolding fe_def of_nat_add [symmetric] of_nat_field_eq .
  moreover have "unat (MUL a b) mod 65537 = unat a * unat b mod 65537"
    using MUL_field(2) [OF assms] unfolding fe_def of_nat_mult [symmetric] of_nat_field_eq .
  moreover have "(unat (SUB a b) + unat b) mod 65537 = unat a mod 65537"
    using SUB_field(2) [OF assms] unfolding fe_def eq_diff_eq of_nat_add [symmetric] of_nat_field_eq .
  then have "(int (unat (SUB a b)) + int (unat b)) mod 65537 = int (unat a) mod 65537"
    by (metis of_nat_add of_nat_numeral zmod_int)
  from mod_diff_cong [OF this refl, of "int (unat b)"]
  have "int (unat (SUB a b)) mod 65537 = (int (unat a) - int (unat b)) mod 65537" by simp
  then have "int (unat (SUB a b)) = (int (unat a) - int (unat b)) mod 65537"
    using bound(2) by (metis mod_less of_nat_numeral zmod_int)
  ultimately show ?thesis using bound by simp
qed

theorem field_operations_exact_witness:
  "unat (MUL 65536 65536) = 1 \<and> unat (MUL 65536 65535) = 2 \<and> unat (ADD 65536 5) = 4"
proof -
  have f: "(65536 :: ulong) < field" "(65535 :: ulong) < field" "(5 :: ulong) < field" by (simp_all add: field_less)
  show ?thesis
    using field_operations_exact [OF f(1) f(1)] field_operations_exact [OF f(1) f(2)] field_operations_exact [OF f(1) f(3)]
    by simp
qed

text \<open>
  \<^verbatim>\<open>unpack\<close> inverts \<^verbatim>\<open>pack\<close>. A vector whose first element is its length and whose
  elements are below \<open>2 ^ 24\<close> is packed without a failed assertion and unpacked to itself,
  escapes included.
\<close>

theorem pack_roundtrip:
  assumes "xs \<noteq> []" "unat (xs ! 0) = length xs" "\<forall>x \<in> set xs. unat x < 2 ^ 24"
  shows "\<exists>b. pack xs = Some b \<and> unpack ltr b = Some xs"
proof -
  obtain b where b: "pack_all xs = Some b" "unpack_n ltr (length xs) b 0 = Some (xs, length b)"
    using pack_unpack_all [OF assms(3)] by (metis append_Nil append_Nil2 list.size(3) add_0)
  obtain ys where ys: "xs = xs ! 0 # ys" using assms(1) by (cases xs) auto
  then obtain q where "unpackone ltr b 0 = Some (xs ! 0, q)"
    using b(2) unpack_n_Cons [of "length ys" b 0 "xs ! 0" ys] by (metis length_Cons)
  then show ?thesis using b assms(1,2) by (simp add: pack_def unpack_def)
qed

theorem pack_roundtrip_witness:
  "\<exists>b. pack [3, 0xef12, 65536] = Some b \<and> unpack ltr b = Some [3, 0xef12, 65536]"
  using pack_roundtrip [of "[3, 0xef12, 65536]"] by simp

text \<open>
  C36: dispersed blocks are rebuilt by a compiler that evaluates the increments in \<^verbatim>\<open>unpackone\<close> from left to right, an order that
  the language does not promise. Fragments of one block, \<^verbatim>\<open>m\<close> or more of them and in
  any order, are then decoded without a failed assertion or an index out of range: \<^verbatim>\<open>reconstruct\<close> returns exactly the
  block when the elimination on the rows of the first \<^verbatim>\<open>m\<close> shuffled fragments succeeds,
  and \<^verbatim>\<open>false\<close> when it meets a zero pivot. The table is assumed to hold inverses modulo 65537,
  \<^verbatim>\<open>m\<close> to be positive, and lengths to fit the 24 bits that \<^verbatim>\<open>pack\<close> accepts.
\<close>

theorem ida_reconstructs:
  fixes rs :: "nat list"
  assumes "\<forall>n k. ord n k = k" "inv_table tab" "0 < m" "length s < 2 ^ 24" "4 + m + frag_len m (length s) < 2 ^ 24"
    and "m \<le> length frags" "\<forall>f \<in> set frags. \<exists>rnd. gen_frag m s rnd = Some f"
  shows "\<exists>r. minvert tab m m (map (frag_row m) (take m (random_shuffle rs frags))) = Some r
    \<and> reconstruct ord tab rs frags = Some (if r = None then None else Some s)"
proof -
  have "ord = ltr" using assms(1) by (intro ext) (simp add: ltr_def)
  have "block_fits m s" using assms(3-5) by (simp add: block_fits_def)
  moreover have "\<forall>f \<in> set frags. frag_of m s f" using gen_frag_of [OF calculation] assms(7) by blast
  ultimately show ?thesis unfolding \<open>ord = ltr\<close> using assms(2,6) by (intro reconstruct_spec)
qed

text \<open>Inverses by the Euclidean algorithm, a table for concrete runs.\<close>

fun euclid_inv :: "nat \<Rightarrow> nat" where
  "euclid_inv a =
     (if a \<le> 1 then a
      else (65537 - (65537 div a) * euclid_inv (65537 mod a) mod 65537) mod 65537)"

declare euclid_inv.simps [simp del]

lemma no_small_divisor: "list_all (\<lambda>d. 65537 mod d \<noteq> (0 :: nat)) [2..<257]"
  by (simp add: upt_rec_numeral)

lemma no_divisor:
  assumes "1 < a" "a < (65537 :: nat)"
  shows "65537 mod a \<noteq> 0"
proof
  assume "65537 mod a = 0"
  then obtain b where b: "65537 = a * b" by (metis mod_0_imp_dvd dvdE)
  have small: "65537 mod d \<noteq> 0" if "1 < d" "d < 257" for d :: nat
    using no_small_divisor that unfolding list_all_iff set_upt by auto
  have "b \<noteq> 0" using b by (intro notI) simp
  moreover have "b \<noteq> 1" using b assms by (intro notI) simp
  ultimately have "1 < b" by linarith
  moreover have "65537 mod b = 0" unfolding b by simp
  ultimately have "257 \<le> a" "257 \<le> b" using small [of a] small [of b] \<open>65537 mod a = 0\<close> assms(1) by force+
  then have "257 * 257 \<le> a * b" by (rule mult_le_mono)
  then show False using b by simp
qed

lemma euclid_inv_inverse:
  "0 < a \<Longrightarrow> a < 65537 \<Longrightarrow> euclid_inv a < 65537 \<and> a * euclid_inv a mod 65537 = 1"
proof (induction a rule: euclid_inv.induct)
  case (1 a)
  show ?case
  proof (cases "a = 1")
    case True
    then show ?thesis by (simp add: euclid_inv.simps)
  next
    case False
    let ?q = "65537 div a" and ?r = "65537 mod a"
    let ?i = "euclid_inv ?r"
    have r: "0 < ?r" "?r < 65537" using no_divisor [of a] False 1(2,3) by (auto intro: less_trans [OF mod_less_divisor])
    have i: "?r * ?i mod 65537 = 1" using 1(1) r False 1(2) by simp
    have e: "euclid_inv a = (65537 - ?q * ?i mod 65537) mod 65537"
      using False 1(2) by (subst euclid_inv.simps) simp
    have "(of_nat (euclid_inv a) :: 65537) = of_nat (65537 - ?q * ?i mod 65537)"
      unfolding e by (rule of_nat_field_mod)
    also have "\<dots> = of_nat 65537 - of_nat (?q * ?i mod 65537)"
      by (rule of_nat_diff) (simp add: mod_le_divisor less_imp_le)
    also have "\<dots> = - of_nat (?q * ?i)"
      using of_nat_field_eq [of 65537 0] of_nat_field_mod [of "?q * ?i"] by simp
    finally have "of_nat (a * euclid_inv a) = (- (of_nat (a * ?q) * of_nat ?i) :: 65537)" by (simp add: ac_simps)
    also have "of_nat (a * ?q) = (- of_nat ?r :: 65537)"
    proof -
      have "of_nat (a * ?q) + of_nat ?r = (of_nat 65537 :: 65537)"
        unfolding of_nat_add [symmetric] by (simp only: mult_div_mod_eq)
      also have "\<dots> = 0" using of_nat_field_eq [of 65537 0] by simp
      finally show ?thesis by (simp add: eq_neg_iff_add_eq_0)
    qed
    finally have "of_nat (a * euclid_inv a) = (of_nat (?r * ?i) :: 65537)" by simp
    then show ?thesis using i e unfolding of_nat_field_eq by simp
  qed
qed

definition euclid_table :: "ulong \<Rightarrow> ulong" where
  "euclid_table x = of_nat (euclid_inv (unat x))"

lemma euclid_table_inv: "inv_table euclid_table"
  unfolding inv_table_def
proof (intro allI impI)
  fix a :: ulong
  assume "a \<noteq> 0 \<and> a < field"
  then have "0 < unat a" "unat a < 65537" by (simp_all add: field_less unat_gt_0)
  from euclid_inv_inverse [OF this]
  show "euclid_table a < field \<and> unat a * unat (euclid_table a) mod 65537 = 1"
    by (simp add: euclid_table_def field_less unat_small)
qed

lemma sample_frags:
  "gen_frag 2 [104, 101, 121] [1, 1] = Some [0, 7, 0, 3, 0, 2, 0, 1, 0, 1, 0, 1, 225, 101]"
  "gen_frag 2 [104, 101, 121] [1, 0, 2] = Some [0, 7, 0, 3, 0, 2, 0, 1, 0, 2, 0, 1, 90, 100]"
  by code_simp+

lemma sample_rows:
  "frag_row 2 [0, 7, 0, 3, 0, 2, 0, 1, 0, 1, 0, 1, 225, 101] = [1, 1]"
  "frag_row 2 [0, 7, 0, 3, 0, 2, 0, 1, 0, 2, 0, 1, 90, 100] = [1, 2]"
  by code_simp+

lemma sample_minvert: "minvert euclid_table 2 2 [[1, 1], [1, 2]] = Some (Some [[2, 65536], [65536, 1]])"
  by code_simp

theorem ida_reconstructs_witness:
  "reconstruct ltr euclid_table [] [[0, 7, 0, 3, 0, 2, 0, 1, 0, 1, 0, 1, 225, 101],
      [0, 7, 0, 3, 0, 2, 0, 1, 0, 2, 0, 1, 90, 100]] = Some (Some [104, 101, 121])"
proof -
  let ?s = "[104, 101, 121] :: bytes"
  let ?f = "[0, 7, 0, 3, 0, 2, 0, 1, 0, 1, 0, 1, 225, 101] :: bytes"
  let ?g = "[0, 7, 0, 3, 0, 2, 0, 1, 0, 2, 0, 1, 90, 100] :: bytes"
  have fits: "(0 :: nat) < 2" "length ?s < 2 ^ 24" "4 + 2 + frag_len 2 (length ?s) < 2 ^ 24"
    by (simp_all add: frag_len_def)
  have g: "\<forall>f \<in> set [?f, ?g]. \<exists>rnd. gen_frag 2 ?s rnd = Some f" "2 \<le> length [?f, ?g]" using sample_frags by auto
  have "\<forall>n k. ltr n k = k" by (simp add: ltr_def)
  then obtain r where "minvert euclid_table 2 2 (map (frag_row 2) (take 2 (random_shuffle [] [?f, ?g]))) = Some r"
    and rec: "reconstruct ltr euclid_table [] [?f, ?g] = Some (if r = None then None else Some ?s)"
    using ida_reconstructs [OF _ euclid_table_inv fits g(2,1), of ltr "[]"] by blast
  then have "r \<noteq> None" using sample_minvert by (auto simp: random_shuffle_def sample_rows)
  then show ?thesis using rec by simp
qed

subsection \<open>Where reconstruction gives up\<close>

text \<open>
  A zero pivot ends the elimination although an exchange of rows would go on: the rows below
  are non-zero, as \<^verbatim>\<open>gen_frag_\<close> draws them, and independent, since their other order is inverted.
\<close>

theorem minvert_gives_up:
  "minvert euclid_table 3 3 [[1, 1, 1], [1, 1, 2], [1, 2, 1]] = Some None"
  "map_option Option.is_none (minvert euclid_table 3 3 [[1, 1, 1], [1, 2, 1], [1, 1, 2]]) = Some False"
  by code_simp+

text \<open>
  Two good fragments of a block that needs two are present, and a foreign one (its length field is 1)
  between them: the loop drops it, does not look at the fragment that takes its place, and
  the elimination then reads a row that was never extracted.
\<close>

theorem reconstruct_skips_after_drop:
  "reconstruct ltr euclid_table [0, 1, 2] [[0, 7, 0, 3, 0, 2, 0, 1, 0, 1, 0, 1, 225, 101], [0, 1],
     [0, 7, 0, 3, 0, 2, 0, 1, 0, 2, 0, 1, 90, 100]] = None"
  by code_simp

end
