(* ===== verification/Gf2.thy ===== *)
theory Gf2
  imports Prelude
begin

text \<open>
  Polynomials over the field with two elements, the reference against which the polynomial
  routines of \<^verbatim>\<open>utils/utils.C\<close> are stated. A polynomial is a natural number whose bit \<open>i\<close> is the
  coefficient of \<open>x ^ i\<close>: addition is \<open>XOR\<close>, multiplication by \<open>x\<close> doubles.
\<close>

subsection \<open>Addition and multiplication\<close>

fun pmul :: "nat \<Rightarrow> nat \<Rightarrow> nat" where
  "pmul a b = (if b = 0 then 0 else (if odd b then a else 0) XOR pmul (2 * a) (b div 2))"

declare pmul.simps [simp del]

lemmas xor_ac = xor.assoc xor.commute xor.left_commute

lemma xor_self_left [simp]: "a XOR (a XOR b) = (b :: nat)"
  by (simp flip: xor.assoc)

lemma xor_cancel_left [simp]: "a XOR b = a XOR c \<longleftrightarrow> b = (c :: nat)"
  by (metis xor_self_left)

lemma xor_cancel_right [simp]: "b XOR a = c XOR a \<longleftrightarrow> b = (c :: nat)"
  by (metis xor_cancel_left xor.commute)

lemma xor_eq_0_nat [simp]: "a XOR b = 0 \<longleftrightarrow> a = (b :: nat)"
  by (metis xor_cancel_left xor_self_eq)

lemma double_xor: "2 * (a XOR b) = 2 * a XOR 2 * (b :: nat)"
  using push_bit_xor [of 1 a b] by (simp add: push_bit_eq_mult mult.commute)

lemma pow_mult_xor: "2 ^ n * (a XOR b) = 2 ^ n * a XOR 2 ^ n * (b :: nat)"
  using push_bit_xor [of n a b] by (simp add: push_bit_eq_mult mult.commute)

lemma pmul_0_right [simp]: "pmul a 0 = 0"
  by (simp add: pmul.simps)

lemma pmul_0_left [simp]: "pmul 0 b = 0"
proof (induction b rule: less_induct)
  case (less b)
  then show ?case by (cases "b = 0") (simp_all add: pmul.simps [of 0 b])
qed

lemma pmul_double_left: "pmul (2 * a) b = 2 * pmul a b"
proof (induction b arbitrary: a rule: less_induct)
  case (less b)
  show ?case
  proof (cases "b = 0")
    case False
    then have "pmul (2 * (2 * a)) (b div 2) = 2 * pmul (2 * a) (b div 2)" by (intro less) simp
    then show ?thesis using False unfolding pmul.simps [of _ b] by (simp only: if_False double_xor if_distrib [of "(*) 2"] mult_0_right)
  qed simp
qed

lemma pmul_xor_left: "pmul (a XOR b) c = pmul a c XOR pmul b c"
proof (induction c arbitrary: a b rule: less_induct)
  case (less c)
  then show ?case
    by (cases "c = 0") (simp_all add: pmul.simps [of _ c] double_xor xor_ac)
qed

lemma pmul_double_right: "pmul a (2 * b) = 2 * pmul a b"
  by (cases "b = 0") (simp_all add: pmul.simps [of a "2 * b"] pmul_double_left)

lemma pmul_odd_right: "pmul a (Suc (2 * b)) = a XOR 2 * pmul a b"
  by (simp add: pmul.simps [of a "Suc (2 * b)"] pmul_double_left)

lemma pmul_1 [simp]: "pmul a 1 = a" "pmul a (Suc 0) = a"
  using pmul_odd_right [of a 0] by simp_all

lemma odd_xor: "Suc (2 * b) = 1 XOR 2 * b"
  using one_xor_eq [of "2 * b"] by simp

lemma binary_induct [case_names zero double odd]:
  assumes "P 0" "\<And>n. 0 < n \<Longrightarrow> P n \<Longrightarrow> P (2 * n)" "\<And>n. P n \<Longrightarrow> P (Suc (2 * n))"
  shows "P (n :: nat)"
proof (induction n rule: less_induct)
  case (less n)
  show ?case
  proof (cases "n = 0")
    case False
    then have ih: "P (n div 2)" using less by simp
    show ?thesis
    proof (cases "even n")
      case True
      then have "n = 2 * (n div 2)" "0 < n div 2" using False by auto
      then show ?thesis using assms(2) ih by metis
    next
      case False
      then have "n = Suc (2 * (n div 2))" by simp
      then show ?thesis using assms(3) ih by metis
    qed
  qed (simp add: assms(1))
qed

lemma pmul_1_left [simp]: "pmul 1 b = b" "pmul (Suc 0) b = b"
proof -
  show "pmul 1 b = b"
    by (induction b rule: binary_induct)
      (simp_all only: pmul_0_right pmul_double_right pmul_odd_right odd_xor [symmetric])
  then show "pmul (Suc 0) b = b" by simp
qed

lemma pmul_commute: "pmul a b = pmul b a"
proof (induction b rule: binary_induct)
  case zero
  then show ?case by simp
next
  case (double n)
  then show ?case by (simp add: pmul_double_left pmul_double_right)
next
  case (odd n)
  have "pmul (Suc (2 * n)) a = a XOR 2 * pmul n a"
    unfolding odd_xor by (simp add: pmul_xor_left pmul_double_left)
  then show ?case using odd by (simp add: pmul_odd_right)
qed

lemma pmul_xor_right: "pmul c (a XOR b) = pmul c a XOR pmul c b"
  using pmul_xor_left [of a b c] by (simp add: pmul_commute)

lemma pmul_assoc: "pmul (pmul a b) c = pmul a (pmul b c)"
  by (induction c rule: binary_induct)
    (simp_all add: pmul_double_right pmul_odd_right pmul_xor_right)

lemma pmul_left_commute: "pmul b (pmul a c) = pmul a (pmul b c)"
  by (metis pmul_assoc pmul_commute)

lemmas pmul_ac = pmul_assoc pmul_commute pmul_left_commute

lemma pmul_pow2: "pmul a (2 ^ n) = 2 ^ n * a"
  by (induction n) (simp_all add: pmul_double_right mult.assoc)

lemma pmul_pow2_mult: "pmul a (2 ^ n * b) = 2 ^ n * pmul a b" "pmul (2 ^ n * a) b = 2 ^ n * pmul a b"
  by (simp_all flip: pmul_pow2 add: pmul_ac)

subsection \<open>Degree\<close>

definition pdeg :: "nat \<Rightarrow> nat \<Rightarrow> bool" where
  "pdeg a d \<longleftrightarrow> 2 ^ d \<le> a \<and> a < 2 ^ (d + 1)"

lemma xor_less_pow2: "a < 2 ^ n \<Longrightarrow> b < 2 ^ n \<Longrightarrow> a XOR b < (2 ^ n :: nat)"
  by (metis take_bit_nat_eq_self_iff take_bit_xor)

lemma bit_less_pow2: "a < 2 ^ n \<Longrightarrow> bit (a :: nat) m \<Longrightarrow> m < n"
  by (metis bit_take_bit_iff take_bit_nat_eq_self_iff)

lemma less_pow2I: "(\<And>m. bit (a :: nat) m \<Longrightarrow> m < n) \<Longrightarrow> a < 2 ^ n"
  by (metis (no_types) bit_eqI bit_take_bit_iff take_bit_nat_eq_self_iff)

lemma bit_top_iff: "a < 2 ^ (d + 1) \<Longrightarrow> bit (a :: nat) d \<longleftrightarrow> 2 ^ d \<le> a"
proof
  assume "a < 2 ^ (d + 1)" "bit a d"
  then show "2 ^ d \<le> a" by (metis bit_less_pow2 less_irrefl not_le)
next
  assume a: "a < 2 ^ (d + 1)" "2 ^ d \<le> a"
  show "bit a d"
  proof (rule ccontr)
    assume "\<not> bit a d"
    then have "a < 2 ^ d" using bit_less_pow2 [OF a(1)]
      by (intro less_pow2I) (metis Suc_eq_plus1 less_SucE)
    then show False using a(2) by simp
  qed
qed

lemma pdeg_iff_bit: "pdeg a d \<longleftrightarrow> bit a d \<and> a < 2 ^ (d + 1)"
  by (auto simp: pdeg_def bit_top_iff)

lemma pdeg_unique: "pdeg a d \<Longrightarrow> pdeg a e \<Longrightarrow> d = e"
  unfolding pdeg_iff_bit by (metis Suc_eq_plus1 bit_less_pow2 less_Suc_eq_le le_antisym)

lemma pdeg_exists: "0 < a \<Longrightarrow> \<exists>d. pdeg a d"
proof (induction a rule: binary_induct)
  case (double n)
  then obtain d where "pdeg n d" by auto
  then have "pdeg (2 * n) (d + 1)" by (simp add: pdeg_def)
  then show ?case by blast
next
  case (odd n)
  show ?case
  proof (cases "n = 0")
    case True
    then show ?thesis by (intro exI [of _ 0]) (simp add: pdeg_def)
  next
    case False
    then obtain d where "pdeg n d" using odd by auto
    then have "pdeg (Suc (2 * n)) (d + 1)" by (simp add: pdeg_def)
    then show ?thesis by blast
  qed
qed simp

lemma pdeg_double: "pdeg a d \<Longrightarrow> pdeg (2 * a) (d + 1)"
  by (simp add: pdeg_def)

lemma pdeg_pow2_mult: "pdeg a d \<Longrightarrow> pdeg (2 ^ n * a) (d + n)"
  by (simp add: pdeg_def power_add mult.commute)

lemma pdeg_xor: "pdeg a d \<Longrightarrow> b < 2 ^ d \<Longrightarrow> pdeg (a XOR b) d"
proof -
  assume a: "pdeg a d" "b < 2 ^ d"
  then have "b < 2 ^ (d + 1)" by simp
  then have "a XOR b < 2 ^ (d + 1)" using a(1) unfolding pdeg_def by (intro xor_less_pow2) simp_all
  moreover have "\<not> bit b d" using bit_less_pow2 [OF a(2)] by blast
  ultimately show ?thesis using a(1) by (simp add: pdeg_iff_bit bit_xor_iff)
qed

lemma pdeg_xor_same: "pdeg a d \<Longrightarrow> pdeg b d \<Longrightarrow> a XOR b < 2 ^ d"
proof (rule less_pow2I)
  fix m
  assume d: "pdeg a d" "pdeg b d" and m: "bit (a XOR b) m"
  then have "m < d + 1" "m \<noteq> d" unfolding pdeg_iff_bit
    by (metis bit_less_pow2 xor_less_pow2) (metis m bit_xor_iff d pdeg_iff_bit)
  then show "m < d" by simp
qed

lemma pdeg_pmul: "pdeg a d \<Longrightarrow> pdeg b e \<Longrightarrow> pdeg (pmul a b) (d + e)"
proof (induction b arbitrary: e rule: binary_induct)
  case zero
  then show ?case by (simp add: pdeg_def)
next
  case (double n)
  then obtain e' where e': "pdeg n e'" using pdeg_exists by blast
  have "e = e' + 1" using pdeg_unique pdeg_double [OF e'] double.prems(2) by blast
  moreover have "pdeg (pmul a n) (d + e')" using double.IH double.prems(1) e' by blast
  ultimately show ?case using pdeg_double by (fastforce simp: pmul_double_right)
next
  case (odd n)
  show ?case
  proof (cases "n = 0")
    case True
    then have "e = 0" using odd.prems(2) pdeg_unique [of 1 0 e] by (simp add: pdeg_def)
    then show ?thesis using odd.prems(1) True by simp
  next
    case False
    then obtain e' where e': "pdeg n e'" using pdeg_exists by blast
    have "pdeg (Suc (2 * n)) (e' + 1)" using e' by (simp add: pdeg_def)
    then have e: "e = e' + 1" using pdeg_unique odd.prems(2) by blast
    have "pdeg (2 * pmul a n) (d + e' + 1)"
      using odd.IH [OF odd.prems(1) e'] pdeg_double by fastforce
    moreover have "a < 2 ^ (d + e' + 1)"
      using odd.prems(1) unfolding pdeg_def
      by (metis add.commute add.left_commute le_add2 one_le_numeral order_less_le_trans power_increasing)
    ultimately have "pdeg (2 * pmul a n XOR a) (d + e' + 1)" by (rule pdeg_xor)
    then show ?thesis using e by (simp add: pmul_odd_right xor.commute add.assoc)
  qed
qed

lemma pdeg_pos: "pdeg a d \<Longrightarrow> 0 < a"
  unfolding pdeg_def by (metis gr0I le_zero_eq power_not_zero zero_neq_numeral)

lemma pmul_eq_0_iff [simp]: "pmul a b = 0 \<longleftrightarrow> a = 0 \<or> b = 0"
proof
  show "a = 0 \<or> b = 0" if "pmul a b = 0"
    using that pdeg_exists pdeg_pmul pdeg_pos by (metis gr0I less_irrefl)
qed auto

lemma pmul_cancel: "d \<noteq> 0 \<Longrightarrow> pmul d a = pmul d b \<longleftrightarrow> a = b"
  using pmul_eq_0_iff [of d "a XOR b"] by (auto simp: pmul_xor_right)

subsection \<open>Divisibility\<close>

definition pdvd :: "nat \<Rightarrow> nat \<Rightarrow> bool" where
  "pdvd a b \<longleftrightarrow> (\<exists>c. b = pmul a c)"

text \<open>\<open>r\<close> is the remainder of \<open>f\<close> by \<open>g\<close>, unique by the lemma after it.\<close>

definition prem :: "nat \<Rightarrow> nat \<Rightarrow> nat \<Rightarrow> bool" where
  "prem f g r \<longleftrightarrow> pdvd g (f XOR r) \<and> (\<exists>d. pdeg g d \<and> r < 2 ^ d)"

lemma pdvdI [intro]: "b = pmul a c \<Longrightarrow> pdvd a b"
  by (auto simp: pdvd_def)

lemma pdvd_pmul [simp]: "pdvd a (pmul a c)" "pdvd a (pmul c a)"
  using pmul_commute by blast+

lemma pdvd_0 [simp]: "pdvd a 0"
  by (rule pdvdI [of _ _ 0]) simp

lemma pdvd_refl [simp]: "pdvd a a"
  by (rule pdvdI [of _ _ 1]) simp

lemma pdvd_xor: "pdvd a b \<Longrightarrow> pdvd a c \<Longrightarrow> pdvd a (b XOR c)"
  unfolding pdvd_def by (metis pmul_xor_right)

lemma pdvd_mult: "pdvd a b \<Longrightarrow> pdvd a (pmul b c)"
  unfolding pdvd_def by (metis pmul_assoc)

lemma pdvd_xor_trans: "pdvd g (a XOR b) \<Longrightarrow> pdvd g (b XOR c) \<Longrightarrow> pdvd g (a XOR c)"
  using pdvd_xor [of g "a XOR b" "b XOR c"] by (simp add: xor_ac)

lemma pdvd_less_0: "pdvd g a \<Longrightarrow> pdeg g d \<Longrightarrow> a < 2 ^ d \<Longrightarrow> a = 0"
proof (rule ccontr)
  assume g: "pdvd g a" "pdeg g d" "a < 2 ^ d" "a \<noteq> 0"
  then obtain c where c: "a = pmul g c" by (auto simp: pdvd_def)
  then have "c \<noteq> 0" using g(4) by auto
  then obtain e where "pdeg c e" using pdeg_exists by blast
  then have "2 ^ (d + e) \<le> a" using pdeg_pmul [OF g(2)] c by (auto simp: pdeg_def)
  moreover have "(2 :: nat) ^ d \<le> 2 ^ (d + e)" by simp
  ultimately show False using g(3) by linarith
qed

lemma prem_unique: "prem f g r \<Longrightarrow> prem f g r' \<Longrightarrow> r = r'"
proof -
  assume a: "prem f g r" "prem f g r'"
  then obtain d where d: "pdeg g d" "r < 2 ^ d" "r' < 2 ^ d"
    unfolding prem_def by (metis pdeg_unique)
  have "pdvd g (r XOR r')" using a pdvd_xor_trans [of g r f r'] by (simp add: prem_def xor.commute)
  then have "r XOR r' = 0" using d pdvd_less_0 xor_less_pow2 by blast
  then show ?thesis by simp
qed

subsection \<open>Greatest common divisors\<close>

definition is_pgcd :: "nat \<Rightarrow> nat \<Rightarrow> nat \<Rightarrow> bool" where
  "is_pgcd f g d \<longleftrightarrow> pdvd d f \<and> pdvd d g \<and> (\<forall>e. pdvd e f \<and> pdvd e g \<longrightarrow> pdvd e d)"

definition is_plcm :: "nat \<Rightarrow> nat \<Rightarrow> nat \<Rightarrow> bool" where
  "is_plcm f g m \<longleftrightarrow> pdvd f m \<and> pdvd g m \<and> (\<forall>e. pdvd f e \<and> pdvd g e \<longrightarrow> pdvd m e)"

text \<open>A common divisor that is a combination of both is the greatest.\<close>

definition bezout :: "nat \<Rightarrow> nat \<Rightarrow> nat \<Rightarrow> bool" where
  "bezout f g d \<longleftrightarrow> pdvd d f \<and> pdvd d g \<and> (\<exists>u v. d = pmul u f XOR pmul v g)"

lemma bezout_pgcd: "bezout f g d \<Longrightarrow> is_pgcd f g d"
  unfolding bezout_def is_pgcd_def by (metis pdvd_mult pdvd_xor pmul_commute)

lemma bezout_0: "bezout f 0 f"
  unfolding bezout_def by (metis pdvd_0 pdvd_refl pmul_0_right pmul_1_left(1) xor.right_neutral)

lemma bezout_step:
  assumes "bezout g r d" "pdvd g (f XOR r)"
  shows "bezout f g d"
proof -
  obtain q where q: "f XOR r = pmul g q" using assms(2) by (auto simp: pdvd_def)
  then have f: "f = pmul g q XOR r" by (metis xor.commute xor_self_left)
  then have r: "r = f XOR pmul q g" by (metis pmul_commute q xor_self_left)
  obtain u v where uv: "d = pmul u g XOR pmul v r" using assms(1) by (auto simp: bezout_def)
  have "d = pmul v f XOR pmul (u XOR pmul v q) g"
    unfolding uv by (subst r) (simp add: pmul_xor_left pmul_xor_right pmul_assoc xor_ac)
  moreover have "pdvd d f" using assms(1) f by (auto simp: bezout_def intro: pdvd_xor pdvd_mult)
  ultimately show ?thesis using assms(1) unfolding bezout_def by blast
qed

lemma bezout_commute: "bezout f g d \<Longrightarrow> bezout g f d"
  unfolding bezout_def by (metis xor.commute)

text \<open>\<open>t\<close> times the cofactor of \<open>s\<close> is the least common multiple.\<close>

lemma bezout_plcm:
  assumes "bezout t s d" "s = pmul q d" "d \<noteq> 0"
  shows "is_plcm t s (pmul t q)"
proof -
  obtain u v where uv: "d = pmul u t XOR pmul v s" using assms(1) by (auto simp: bezout_def)
  obtain t' where t': "t = pmul d t'" using assms(1) by (auto simp: bezout_def pdvd_def)
  have "pmul t q = pmul s t'" unfolding t' assms(2) by (simp add: pmul_ac)
  then have "pdvd s (pmul t q)" by auto
  moreover have "pdvd (pmul t q) m" if m: "pdvd t m" "pdvd s m" for m
  proof -
    obtain a b where ab: "m = pmul t a" "m = pmul s b" using m unfolding pdvd_def by blast
    have "pmul d m = pmul (pmul u t) m XOR pmul (pmul v s) m"
      by (subst uv) (rule pmul_xor_left)
    also have "\<dots> = pmul (pmul u t) (pmul s b) XOR pmul (pmul v s) (pmul t a)"
      using ab by simp
    also have "\<dots> = pmul (pmul t s) (pmul u b XOR pmul v a)"
      by (simp add: pmul_xor_right pmul_ac)
    also have "\<dots> = pmul d (pmul (pmul t q) (pmul u b XOR pmul v a))"
      using assms(2) by (simp add: pmul_ac)
    finally show ?thesis using assms(3) pmul_cancel by auto
  qed
  ultimately show ?thesis by (simp add: is_plcm_def)
qed

end
