(* ===== verification/Polynomials.thy ===== *)
theory Polynomials
  imports Gf2 "HOL-Library.Monad_Syntax"
begin

text \<open>
  The polynomial arithmetic of \<^verbatim>\<open>utils/utils.C\<close> on vectors of 32-bit words, most significant
  word first: DHash keeps the signatures of documents as such vectors, tests containment by
  \<^verbatim>\<open>remainder\<close> and joins index entries by \<^verbatim>\<open>lcm\<close>. \<open>None\<close> is a failed assertion, a shift by an amount
  out of range, an index out of range, or a loop that does not end (\<^verbatim>\<open>gcd\<close> and the
  word-wise \<^verbatim>\<open>remainder\<close> are partial functions). Degrees are unbounded integers; a vector would
  need \<open>2 ^ 26\<close> words to exceed an \<^verbatim>\<open>int\<close>.
\<close>

type_synonym polys = "poly list"

subsection \<open>Constants and degrees\<close>

definition testPoly :: poly where
  "testPoly = push_bit 31 1"

definition ONEFLAG :: poly where
  "ONEFLAG = 0xffffffff"

definition lowerBitsMask :: poly where
  "lowerBitsMask = ONEFLAG"

lemma drop_bit_1_less: "0 < (w :: 'a :: len word) \<Longrightarrow> unat (drop_bit 1 w) < unat w"
  by (simp only: unat_drop_bit_eq word_less_nat_alt) (simp add: drop_bit_eq_div)

function deg_loop :: "poly \<Rightarrow> poly \<Rightarrow> int \<Rightarrow> int" where
  "deg_loop z bits i =
     (if bits > 0 then if bits AND z \<noteq> 0 then i else deg_loop z (drop_bit 1 bits) (i - 1)
      else i)"
  by pat_completeness auto
termination
  by (relation "measure (\<lambda>(_, bits, _). unat bits)") (simp_all only: in_measure case_prod_conv drop_bit_1_less wf_measure)

declare deg_loop.simps [simp del]

definition getDegree :: "poly \<Rightarrow> int" where
  "getDegree z = deg_loop z (push_bit 31 1) 31"

definition getDegrees :: "polys \<Rightarrow> int option" where
  "getDegrees myPoly =
     (if myPoly = [] then None
      else Some (int ((length myPoly - 1) * 4 * 8) + getDegree (myPoly ! 0)))"

subsection \<open>Shifts and addition\<close>

text \<open>The words shifted to the left, from the least significant one, with the bits that leave the first.\<close>

primrec shl_words :: "nat \<Rightarrow> polys \<Rightarrow> polys \<times> poly" where
  "shl_words n [] = ([], 0)"
| "shl_words n (w # ws) =
     (let (ws', prevmsb) = shl_words n ws;
          msb = drop_bit (32 - n) (w AND push_bit (32 - n) ONEFLAG);
          w' = push_bit n w
      in ((if ws = [] then w' else w' OR prevmsb) # ws', msb))"

definition shiftLeft :: "polys \<Rightarrow> int \<Rightarrow> polys option" where
  "shiftLeft myPoly numBits =
     (if numBits = 0 then Some myPoly
      else if numBits = 32 then Some (myPoly @ [0])
      else if 0 < numBits \<and> numBits \<le> 32
      then (let (ws, prevmsb) = shl_words (nat numBits) myPoly
            in Some (if prevmsb > 0 then prevmsb # ws else ws))
      else None)"

primrec shr_words :: "nat \<Rightarrow> poly \<Rightarrow> polys \<Rightarrow> polys" where
  "shr_words n prevlsb [] = (if prevlsb > 0 then [prevlsb] else [])"
| "shr_words n prevlsb (w # ws) =
     (let lsb = push_bit (32 - n) (w AND drop_bit (32 - n) ONEFLAG)
      in (drop_bit n w OR prevlsb) # shr_words n lsb ws)"

text \<open>The first word takes no bits from a predecessor; a first word that becomes empty is erased.\<close>

definition shiftRight :: "polys \<Rightarrow> int \<Rightarrow> polys option" where
  "shiftRight myPoly numBits =
     (if numBits = 0 \<or> numBits = 32 then Some myPoly
      else if 0 < numBits \<and> numBits < 32
      then (let ws = shr_words (nat numBits) 0 myPoly
            in Some (if ws \<noteq> [] \<and> ws ! 0 = 0 then tl ws else ws))
      else None)"

definition addPoly :: "polys \<Rightarrow> polys \<Rightarrow> polys" where
  "addPoly x y =
     take (length y - length x) y
     @ take (length x - length y) x
     @ map2 (XOR) (drop (length x - length y) x) (drop (length y - length x) y)"

subsection \<open>Multiplication\<close>

function mul_bits :: "poly \<Rightarrow> 64 word \<Rightarrow> 64 word \<Rightarrow> 64 word" where
  "mul_bits x y product =
     (if x > 0
      then mul_bits (drop_bit 1 x) (push_bit 1 y) (if x AND 1 \<noteq> 0 then product XOR y else product)
      else product)"
  by pat_completeness auto
termination
  by (relation "measure (\<lambda>(x, _). unat x)") (simp_all only: in_measure case_prod_conv drop_bit_1_less wf_measure)

declare mul_bits.simps [simp del]

primrec mul_words :: "poly \<Rightarrow> polys \<Rightarrow> polys \<times> 64 word" where
  "mul_words multiplier [] = ([], 0)"
| "mul_words multiplier (w # ws) =
     (let (ws', product) = mul_words multiplier ws;
          product = mul_bits multiplier (ucast w) product
      in (ucast (product AND ucast lowerBitsMask) # ws', drop_bit (4 * 8) product))"

definition multiplyPoly_by :: "polys \<Rightarrow> poly \<Rightarrow> polys" where
  "multiplyPoly_by multiplicand multiplier =
     (let (ws, product) = mul_words multiplier multiplicand
      in if product > 0 then ucast (product AND ucast lowerBitsMask) # ws else ws)"

definition multiplyPoly_res :: "polys \<Rightarrow> polys \<Rightarrow> poly \<Rightarrow> polys option" where
  "multiplyPoly_res res multiplicand multiplier =
     (if length res = length multiplicand then Some (multiplyPoly_by multiplicand multiplier) else None)"

text \<open>\<open>g\<close> is what remains of the second factor.\<close>

primrec multiply_loop :: "polys \<Rightarrow> polys \<Rightarrow> polys \<Rightarrow> polys option" where
  "multiply_loop f res [] = Some res"
| "multiply_loop f res (w # g) =
     do { partialProd \<leftarrow> multiplyPoly_res (replicate (length f) 0) f w;
          let res = addPoly res partialProd;
          res \<leftarrow> (if g \<noteq> [] then shiftLeft res 32 else Some res);
          multiply_loop f res g }"

definition multiplyPoly :: "polys \<Rightarrow> polys \<Rightarrow> polys \<Rightarrow> polys option" where
  "multiplyPoly res f g = multiply_loop f res g"

subsection \<open>Division\<close>

text \<open>The inner loop of \<^verbatim>\<open>remainder\<close> and \<^verbatim>\<open>quotient\<close>: \<open>gtemp\<close> is added to \<open>r\<close> from word \<open>i\<close> on.\<close>

definition xor_at :: "nat \<Rightarrow> polys \<Rightarrow> polys \<Rightarrow> polys" where
  "xor_at i r gtemp =
     take i r @ map2 (XOR) (drop i r) gtemp @ drop (i + length gtemp) r"

definition align :: "int \<Rightarrow> polys \<Rightarrow> polys option" where
  "align fdeg g =
     (let gdeg = getDegree (g ! 0)
      in if fdeg > gdeg then shiftLeft g (fdeg - gdeg) else shiftRight g (gdeg - fdeg))"

definition next_pos :: "int \<Rightarrow> poly \<Rightarrow> nat \<Rightarrow> poly \<times> nat" where
  "next_pos k bitMask i =
     (if k mod (4 * 8) = 0 then (push_bit 31 1, i + 1) else (drop_bit 1 bitMask, i))"

function rem_loop :: "int \<Rightarrow> int \<Rightarrow> polys \<Rightarrow> polys \<Rightarrow> poly \<Rightarrow> nat \<Rightarrow> polys option" where
  "rem_loop k gFullDegree r gtemp bitMask i =
     (if k \<ge> gFullDegree
      then if i < length r
           then do { let r = (if r ! i AND bitMask > 0 then xor_at i r gtemp else r);
                     gtemp \<leftarrow> shiftRight gtemp 1;
                     let (bitMask, i) = next_pos k bitMask i;
                     rem_loop (k - 1) gFullDegree r gtemp bitMask i }
           else None
      else Some r)"
  by pat_completeness auto
termination
  by (relation "measure (\<lambda>(k, g, _). nat (k - g + 1))") auto

declare rem_loop.simps [simp del]

fun trim :: "polys \<Rightarrow> polys" where
  "trim (w # w' # ws) = (if w > 0 then w # w' # ws else trim (w' # ws))"
| "trim ws = ws"

definition remainder :: "polys \<Rightarrow> polys \<Rightarrow> polys option" where
  "remainder f g =
     (if f = [] \<or> g = [] then None
      else do { let fdeg = getDegree (f ! 0);
                gtemp \<leftarrow> align fdeg g;
                if fdeg < 0 then None
                else do { let bitMask = push_bit (nat fdeg) 1;
                          fFullDegree \<leftarrow> getDegrees f;
                          gFullDegree \<leftarrow> getDegrees g;
                          if fFullDegree < gFullDegree then Some f
                          else do { r \<leftarrow> rem_loop fFullDegree gFullDegree f gtemp bitMask 0;
                                    Some (trim r) } } })"

function quot_loop :: "int \<Rightarrow> int \<Rightarrow> polys \<Rightarrow> polys \<Rightarrow> polys \<Rightarrow> poly \<Rightarrow> nat \<Rightarrow> polys option" where
  "quot_loop k gFullDegree q r gtemp bitMask i =
     (if k \<ge> gFullDegree
      then do { q \<leftarrow> shiftLeft q 1;
                if i < length r
                then do { let (q, r) = (if r ! i AND bitMask > 0
                                        then (butlast q @ [last q OR 1], xor_at i r gtemp) else (q, r));
                          gtemp \<leftarrow> shiftRight gtemp 1;
                          let (bitMask, i) = next_pos k bitMask i;
                          quot_loop (k - 1) gFullDegree q r gtemp bitMask i }
                else None }
      else Some q)"
  by pat_completeness auto
termination
  by (relation "measure (\<lambda>(k, g, _). nat (k - g + 1))") auto

declare quot_loop.simps [simp del]

definition quotient :: "polys \<Rightarrow> polys \<Rightarrow> polys option" where
  "quotient f g =
     (if f = [] \<or> g = [] then None
      else do { let fdeg = getDegree (f ! 0);
                gtemp \<leftarrow> align fdeg g;
                if fdeg < 0 then None
                else do { let bitMask = push_bit (nat fdeg) 1;
                          fFullDegree \<leftarrow> getDegrees f;
                          gFullDegree \<leftarrow> getDegrees g;
                          if fFullDegree \<ge> gFullDegree
                          then quot_loop fFullDegree gFullDegree [0] f gtemp bitMask 0
                          else None } })"

partial_function (option) gcd_poly :: "polys \<Rightarrow> polys \<Rightarrow> polys option" where
  "gcd_poly f g =
     (if length g = 1 \<and> g ! 0 = 0 then Some f
      else do { r \<leftarrow> remainder f g; gcd_poly g r })"

definition gcdSpecial :: "polys \<Rightarrow> polys \<Rightarrow> polys option" where
  "gcdSpecial f g =
     do { degf \<leftarrow> getDegrees f; degg \<leftarrow> getDegrees g;
          if degf \<ge> degg then gcd_poly f g else gcd_poly g f }"

definition lcm_poly :: "polys \<Rightarrow> polys \<Rightarrow> polys option" where
  "lcm_poly t s =
     (if length t = 1 \<and> length s = 1 \<and> t ! 0 = 1 \<and> s ! 0 = 1 then Some t
      else do { g \<leftarrow> gcdSpecial t s;
                degs \<leftarrow> getDegrees s;
                degg \<leftarrow> getDegrees g;
                q \<leftarrow> (if degs \<ge> degg then quotient s g else quotient g s);
                multiplyPoly [] t q })"

subsection \<open>Reduction modulo one word\<close>

function modmul_loop :: "poly \<Rightarrow> poly \<Rightarrow> poly \<Rightarrow> poly \<Rightarrow> poly" where
  "modmul_loop modMask res x1 y1 =
     (if y1 > 0
      then (let res = (if y1 AND 1 \<noteq> 0 then res XOR x1 else res);
                x1 = push_bit 1 x1;
                x1 = (if x1 AND testPoly > 0 then (x1 XOR testPoly) XOR modMask else x1)
            in modmul_loop modMask res x1 (drop_bit 1 y1))
      else res)"
  by pat_completeness auto
termination
  by (relation "measure (\<lambda>(_, _, _, y). unat y)") (simp_all only: in_measure case_prod_conv drop_bit_1_less wf_measure)

declare modmul_loop.simps [simp del]

definition modularMultPoly :: "poly \<Rightarrow> poly \<Rightarrow> poly \<Rightarrow> poly" where
  "modularMultPoly x y z = modmul_loop (z XOR testPoly) 0 x y"

record find_mod_state =
  fm_res :: poly
  fm_resMask :: poly
  fm_small :: poly
  fm_k :: int

definition find_mod_bit :: "int \<Rightarrow> poly \<Rightarrow> poly \<Rightarrow> byte \<Rightarrow> byte \<Rightarrow> find_mod_state \<Rightarrow> find_mod_state" where
  "find_mod_bit zDegree testMask modMask ptr bitMask st =
     (let st = (if fm_k st \<ge> zDegree
                then (let st = (if ptr AND bitMask > 0
                                then st\<lparr>fm_res := fm_res st XOR fm_resMask st\<rparr> else st);
                          resMask = push_bit 1 (fm_resMask st)
                      in st\<lparr>fm_resMask := (if resMask AND testMask > 0
                                          then (resMask XOR testMask) XOR modMask else resMask)\<rparr>)
                else (let st = (if ptr AND bitMask > 0
                                then st\<lparr>fm_res := fm_res st OR fm_small st\<rparr> else st)
                      in st\<lparr>fm_small := push_bit 1 (fm_small st)\<rparr>))
      in st\<lparr>fm_k := fm_k st + 1\<rparr>)"

primrec find_mod_byte :: "int \<Rightarrow> poly \<Rightarrow> poly \<Rightarrow> byte \<Rightarrow> nat \<Rightarrow> byte \<Rightarrow> find_mod_state \<Rightarrow> find_mod_state" where
  "find_mod_byte zDegree testMask modMask ptr 0 bitMask st = st"
| "find_mod_byte zDegree testMask modMask ptr (Suc n) bitMask st =
     find_mod_byte zDegree testMask modMask ptr n (push_bit 1 bitMask)
       (find_mod_bit zDegree testMask modMask ptr bitMask st)"

definition findMod :: "bytes \<Rightarrow> poly \<Rightarrow> poly option" where
  "findMod x z =
     (let zDegree = getDegree z
      in if zDegree < 0 then None
         else (let testMask = push_bit (nat zDegree) 1;
                   modMask = z XOR push_bit (nat zDegree) 1
               in Some (fm_res (fold (\<lambda>b. find_mod_byte zDegree testMask modMask b 8 1) x
                          \<lparr>fm_res = 0, fm_resMask = modMask, fm_small = 1, fm_k = 0\<rparr>))))"

partial_function (option) align_mask :: "poly \<Rightarrow> poly option" where
  "align_mask divisorMask =
     (if divisorMask AND testPoly = 0 then align_mask (push_bit 1 divisorMask) else Some divisorMask)"

text \<open>\<^verbatim>\<open>Inl\<close> when the inner loop of the first phase broke off to the next word, \<^verbatim>\<open>Inr\<close> when the top bit is set.\<close>

partial_function (option) seek_bit :: "poly \<Rightarrow> nat \<Rightarrow> nat \<Rightarrow> ((poly \<times> nat) + (poly \<times> nat)) option" where
  "seek_bit x bitNum limit =
     (if x AND testPoly = 0
      then (let x = push_bit 1 x; bitNum = bitNum + 1
            in if x = 0 \<or> bitNum = limit then Some (Inl (x, bitNum)) else seek_bit x bitNum limit)
      else Some (Inr (x, bitNum)))"

text \<open>The words that follow the current one are the last argument.\<close>

partial_function (option) rem_words :: "poly \<Rightarrow> poly \<Rightarrow> nat \<Rightarrow> polys \<Rightarrow> (poly \<times> nat) option" where
  "rem_words divisorMask x bitNum rest =
     (case rest of
        [] \<Rightarrow> Some (x, bitNum)
      | w # ws \<Rightarrow>
          do { s \<leftarrow> seek_bit x bitNum (4 * 8);
               case s of
                 Inl (x, _) \<Rightarrow> rem_words divisorMask (x XOR w) 0 ws
               | Inr (x, bitNum) \<Rightarrow> rem_words divisorMask (x XOR divisorMask) bitNum rest })"

partial_function (option) rem_last :: "poly \<Rightarrow> nat \<Rightarrow> poly \<Rightarrow> nat \<Rightarrow> poly option" where
  "rem_last divisorMask stopBitNum x bitNum =
     do { s \<leftarrow> seek_bit x bitNum stopBitNum;
          case s of
            Inl (x, _) \<Rightarrow> Some x
          | Inr (x, bitNum) \<Rightarrow> rem_last divisorMask stopBitNum (x XOR divisorMask) bitNum }"

definition remainder_word :: "polys \<Rightarrow> poly \<Rightarrow> poly option" where
  "remainder_word inp z =
     do { divisorMask \<leftarrow> align_mask z;
          case inp of
            [] \<Rightarrow> None
          | w # ws \<Rightarrow>
              do { (x, bitNum) \<leftarrow> rem_words divisorMask w 0 ws;
                   rem_last divisorMask (nat (4 * 8 - getDegree z)) x bitNum } }"

declare gcd_poly.simps [code] align_mask.simps [code] seek_bit.simps [code] rem_words.simps [code] rem_last.simps [code]

end
