(* ===== verification/Poly_Correct.thy ===== *)
theory Poly_Correct
  imports Polynomials
begin

text \<open>
  Correctness of the polynomial arithmetic: a vector of words denotes the polynomial
  \<open>pval\<close>, and the operations of \<open>Polynomials\<close> compute the operations of \<open>Gf2\<close> on it.
\<close>

subsection \<open>The polynomial of a vector\<close>

primrec pval :: "polys \<Rightarrow> nat" where
  "pval [] = 0"
| "pval (w # ws) = unat w * 2 ^ (32 * length ws) + pval ws"

lemma unat_less_32: "unat (w :: poly) < 2 ^ 32"
  using unsigned_less [of w] by simp

lemma pval_less: "pval ws < 2 ^ (32 * length ws)"
proof (induction ws)
  case (Cons w ws)
  then show ?case using concat_less [OF unat_less_32 Cons, of w] by simp
qed simp

lemma pval_append: "pval (xs @ ys) = pval xs * 2 ^ (32 * length ys) + pval ys"
  by (induction xs) (simp_all add: algebra_simps power_add)

lemma xor_concat:
  assumes "b < 2 ^ k" "b' < 2 ^ k"
  shows "(a * 2 ^ k + b) XOR (a' * 2 ^ k + b') = (a XOR a') * 2 ^ k + (b XOR b' :: nat)"
  using assms xor_less_pow2 [OF assms]
  by (intro bit_eqI) (simp add: bit_concat bit_xor_iff)

lemma unat_xor: "unat (a XOR b :: 'a :: len word) = unat a XOR unat b"
  by (rule unsigned_xor_eq)

lemma pval_xor_same:
  "length xs = length ys \<Longrightarrow> pval (map2 (XOR) xs ys) = pval xs XOR pval ys"
proof (induction xs ys rule: list_induct2)
  case (Cons x xs y ys)
  then show ?case
    using xor_concat [of "pval xs" "32 * length ys" "pval ys" "unat x" "unat y"] pval_less [of xs] pval_less [of ys]
    by (simp add: unat_xor)
qed simp

lemma addPoly_pval: "pval (addPoly x y) = pval x XOR pval y"
proof -
  let ?dx = "length x - length y" and ?dy = "length y - length x"
  have x: "pval x = pval (take ?dx x) * 2 ^ (32 * length (drop ?dx x)) + pval (drop ?dx x)"
    using pval_append [of "take ?dx x" "drop ?dx x"] by simp
  have y: "pval y = pval (take ?dy y) * 2 ^ (32 * length (drop ?dy y)) + pval (drop ?dy y)"
    using pval_append [of "take ?dy y" "drop ?dy y"] by simp
  have len: "length (drop ?dx x) = length (drop ?dy y)" by simp
  have same: "pval (map2 (XOR) (drop ?dx x) (drop ?dy y)) = pval (drop ?dx x) XOR pval (drop ?dy y)"
    by (rule pval_xor_same [OF len])
  have "pval (addPoly x y)
      = (pval (take ?dx x) XOR pval (take ?dy y)) * 2 ^ (32 * length (drop ?dx x))
        + (pval (drop ?dx x) XOR pval (drop ?dy y))"
    unfolding addPoly_def pval_append same by (cases "length x \<le> length y") simp_all
  also have "\<dots> = pval x XOR pval y"
    unfolding x y len by (intro xor_concat [symmetric]) (metis len pval_less)+
  finally show ?thesis .
qed

lemma addPoly_length: "length (addPoly x y) = max (length x) (length y)"
  by (simp add: addPoly_def)

subsection \<open>Normal form and degree\<close>

definition normal :: "polys \<Rightarrow> bool" where
  "normal ws \<longleftrightarrow> ws \<noteq> [] \<and> ws ! 0 \<noteq> 0"

lemma unat_word_pos: "w \<noteq> 0 \<longleftrightarrow> 1 \<le> unat (w :: 'a :: len word)"
  by (metis One_nat_def Suc_leI not_less_eq_eq unat_eq_zero unat_gt_0 zero_less_Suc le0)

lemma normal_iff: "normal ws \<longleftrightarrow> ws \<noteq> [] \<and> 2 ^ (32 * (length ws - 1)) \<le> pval ws"
proof (cases ws)
  case (Cons w ws')
  have "w \<noteq> 0 \<longleftrightarrow> 2 ^ (32 * length ws') \<le> unat w * 2 ^ (32 * length ws') + pval ws'"
    using pval_less [of ws'] unat_word_pos [of w]
    by (metis add.commute add_0 add_lessD1 le_add2 linorder_not_le mult.commute mult_0 mult_le_mono2
        mult_1_right trans_le_add2 unat_0)
  then show ?thesis by (simp add: Cons normal_def)
qed (simp add: normal_def)

lemma normal_pval_pos: "normal ws \<Longrightarrow> 0 < pval ws"
  unfolding normal_iff by (metis gr0I le_zero_eq power_not_zero zero_neq_numeral)

lemma bit_unat_top: "unat (z :: poly) < 2 ^ (n + 1) \<Longrightarrow> bit z n \<Longrightarrow> pdeg (unat z) n"
  unfolding pdeg_iff_bit by (auto simp: bit_unsigned_iff)

lemma push_bit_1_pos: "n < 32 \<Longrightarrow> (push_bit n 1 :: poly) > 0"
proof -
  assume n: "n < 32"
  have "(push_bit n 1 :: poly) \<noteq> 0"
  proof
    assume z: "push_bit n 1 = (0 :: poly)"
    have "bit (push_bit n 1 :: poly) n" using n by (simp only: bit_simps) simp
    then show False unfolding z by simp
  qed
  then show ?thesis by (simp only: word_gt_0)
qed

lemma deg_loop_spec:
  "n < 32 \<Longrightarrow> unat z < 2 ^ (n + 1) \<Longrightarrow> z \<noteq> 0 \<Longrightarrow>
     \<exists>d \<le> n. deg_loop z (push_bit n 1) (int n) = int d \<and> pdeg (unat z) d"
proof (induction n)
  case 0
  then have "unat z = 1" using unat_word_pos [of z] by simp
  then have "z = 1" by (metis unat_1 word_unat_eq_iff len_gt_0)
  then show ?case by (simp add: deg_loop.simps pdeg_def)
next
  case (Suc n)
  have pos: "(push_bit (Suc n) 1 :: poly) > 0"
    using Suc.prems(1) by (rule push_bit_1_pos)
  show ?case
  proof (cases "bit z (Suc n)")
    case True
    then have "push_bit (Suc n) 1 AND z \<noteq> 0" by (metis and.commute bit_iff_and_push_bit_not_eq_0)
    then have "deg_loop z (push_bit (Suc n) 1) (int (Suc n)) = int (Suc n)"
      using pos by (subst deg_loop.simps) simp
    then show ?thesis using bit_unat_top [OF Suc.prems(2) True] by blast
  next
    case False
    then have a: "push_bit (Suc n) 1 AND z = 0" by (metis and.commute bit_iff_and_push_bit_not_eq_0)
    have s: "drop_bit 1 (push_bit (Suc n) 1 :: poly) = push_bit n 1"
      using Suc.prems(1) by (intro bit_word_eqI) (auto simp: bit_simps)
    have "unat z < 2 ^ (n + 1)"
    proof (rule less_pow2I)
      fix m assume m: "bit (unat z) m"
      then have "m < Suc n + 1" using Suc.prems(2) bit_less_pow2 by blast
      moreover have "m \<noteq> Suc n" using m False by (auto simp: bit_unsigned_iff)
      ultimately show "m < n + 1" by simp
    qed
    then obtain d where d: "d \<le> n" "deg_loop z (push_bit n 1) (int n) = int d" "pdeg (unat z) d"
      using Suc.IH Suc.prems by auto
    have "deg_loop z (push_bit (Suc n) 1) (int (Suc n)) = deg_loop z (push_bit n 1) (int n)"
      using pos a by (subst deg_loop.simps) (simp only: s if_True if_False simp_thms, simp)
    then show ?thesis using d by auto
  qed
qed

lemma getDegree_spec: "z \<noteq> 0 \<Longrightarrow> \<exists>d < 32. getDegree z = int d \<and> pdeg (unat z) d"
  using deg_loop_spec [of 31 z] unat_less_32 [of z] by (fastforce simp: getDegree_def)

lemma pdeg_Cons:
  assumes "pdeg (unat w) d"
  shows "pdeg (pval (w # ws)) (32 * length ws + d)"
proof -
  have "pdeg (2 ^ (32 * length ws) * unat w) (d + 32 * length ws)" using assms by (rule pdeg_pow2_mult)
  moreover have "2 ^ (32 * length ws) * unat w XOR pval ws = pval (w # ws)"
    using xor_concat [of 0 "32 * length ws" "pval ws" "unat w" 0] pval_less [of ws] by (simp add: mult.commute)
  moreover have "pval ws < 2 ^ (d + 32 * length ws)"
    using pval_less [of ws] by (metis le_add2 one_le_numeral order_less_le_trans power_increasing)
  ultimately show ?thesis using pdeg_xor by (metis add.commute)
qed

lemma normal_degree:
  assumes "normal ws"
  shows "\<exists>d < 32. getDegree (ws ! 0) = int d \<and> pdeg (unat (ws ! 0)) d
    \<and> getDegrees ws = Some (int (32 * (length ws - 1) + d)) \<and> pdeg (pval ws) (32 * (length ws - 1) + d)"
proof -
  obtain w ws' where ws: "ws = w # ws'" "w \<noteq> 0" using assms by (cases ws) (auto simp: normal_def)
  obtain d where d: "d < 32" "getDegree w = int d" "pdeg (unat w) d" using getDegree_spec [OF ws(2)] by blast
  have "getDegrees ws = Some (int (32 * (length ws - 1) + d))" using d ws by (simp add: getDegrees_def)
  then show ?thesis using d pdeg_Cons [OF d(3), of ws'] ws by auto
qed

subsection \<open>Shift to the left\<close>

lemma bit_ONEFLAG: "bit ONEFLAG n \<longleftrightarrow> n < 32"
proof -
  have e: "ONEFLAG = Bit_Operations.mask 32" by (simp add: ONEFLAG_def mask_eq_exp_minus_1)
  show ?thesis unfolding e bit_mask_iff by auto
qed

lemma unat_push_bit: "unat (push_bit n w :: 'a :: len word) = unat w * 2 ^ n mod 2 ^ LENGTH('a)"
  unfolding unsigned_push_bit_eq by (simp only: take_bit_eq_mod push_bit_eq_mult)

lemma carry_sum: "q div m * (m * k) + ((q mod m + p) * k + v) = q * k + (p * k + v :: nat)"
proof -
  have "q * k = (q div m * m + q mod m) * k" by (simp only: div_mult_mod_eq)
  then show ?thesis by (simp only: distrib_right mult.assoc add.assoc)
qed

lemma pow_32_Suc: "2 ^ (32 * Suc n) = 2 ^ 32 * (2 :: nat) ^ (32 * n)"
  by (simp add: power_add)

text \<open>One word: what stays and what leaves.\<close>

lemma shl_word:
  assumes "0 < n" "n < 32"
  shows "unat (push_bit n w :: poly) = unat w * 2 ^ n mod 2 ^ 32"
    and "unat (drop_bit (32 - n) (w AND push_bit (32 - n) ONEFLAG) :: poly) = unat w * 2 ^ n div 2 ^ 32"
proof -
  show "unat (push_bit n w :: poly) = unat w * 2 ^ n mod 2 ^ 32"
    using unat_push_bit [of n w] by simp
  have "drop_bit (32 - n) (w AND push_bit (32 - n) ONEFLAG) = drop_bit (32 - n) w"
    using assms by (intro bit_word_eqI) (auto simp: bit_simps bit_ONEFLAG dest: bit_imp_le_length)
  then have "unat (drop_bit (32 - n) (w AND push_bit (32 - n) ONEFLAG)) = unat w div 2 ^ (32 - n)"
    by (simp only: unat_drop_bit_eq) (simp only: drop_bit_eq_div)
  also have "\<dots> = unat w * 2 ^ n div (2 ^ (32 - n) * 2 ^ n)" by simp
  also have "2 ^ (32 - n) * 2 ^ n = (2 ^ 32 :: nat)" using assms by (simp flip: power_add)
  finally show "unat (drop_bit (32 - n) (w AND push_bit (32 - n) ONEFLAG) :: poly) = unat w * 2 ^ n div 2 ^ 32" .
qed

lemma unat_or_push:
  assumes "unat (p :: poly) < 2 ^ n"
  shows "unat (push_bit n w OR p) = unat (push_bit n w) + unat p"
proof -
  have b: "\<not> bit p m" if "n \<le> m" for m
    using bit_less_pow2 [OF assms, of m] that by (auto simp: bit_unsigned_iff not_less)
  have "push_bit n w AND p = 0"
    using b by (intro bit_word_eqI) (auto simp: bit_simps)
  then show ?thesis using unsigned_or_eq [of "push_bit n w" p] disjunctive_add_eq_or [of "unat (push_bit n w)" "unat p"]
    by (metis unsigned_0 unsigned_and_eq)
qed

lemma shl_words_spec:
  assumes "0 < n" "n < 32"
  shows "length (fst (shl_words n ws)) = length ws"
    and "unat (snd (shl_words n ws)) * 2 ^ (32 * length ws) + pval (fst (shl_words n ws)) = 2 ^ n * pval ws"
    and "unat (snd (shl_words n ws)) < 2 ^ n"
proof -
  have "length (fst (shl_words n ws)) = length ws
    \<and> unat (snd (shl_words n ws)) * 2 ^ (32 * length ws) + pval (fst (shl_words n ws)) = 2 ^ n * pval ws
    \<and> unat (snd (shl_words n ws)) < 2 ^ n"
  proof (induction ws)
    case (Cons w ws)
    obtain vs p where vs: "shl_words n ws = (vs, p)" by fastforce
    have ih: "length vs = length ws" "unat p * 2 ^ (32 * length ws) + pval vs = 2 ^ n * pval ws" "unat p < 2 ^ n"
      using Cons vs by auto
    have "unat (push_bit n w) + unat p = unat (if ws = [] then push_bit n w else push_bit n w OR p)"
      using unat_or_push [OF ih(3)] vs by auto
    then have w: "unat (if ws = [] then push_bit n w else push_bit n w OR p) = unat w * 2 ^ n mod 2 ^ 32 + unat p"
      using shl_word(1) [OF assms] by simp
    have "unat w * 2 ^ n div 2 ^ 32 < 2 ^ n"
      using unat_less_32 [of w] by (intro less_mult_imp_div_less) simp
    moreover have "unat w * 2 ^ n div 2 ^ 32 * 2 ^ (32 * Suc (length ws))
        + ((unat w * 2 ^ n mod 2 ^ 32 + unat p) * 2 ^ (32 * length ws) + pval vs)
      = 2 ^ n * (unat w * 2 ^ (32 * length ws) + pval ws)"
      unfolding pow_32_Suc carry_sum ih(2) by (simp add: algebra_simps)
    ultimately show ?case
      unfolding shl_words.simps vs Let_def case_prod_conv fst_conv snd_conv list.size pval.simps w shl_word(2) [OF assms] ih
      by simp
  qed simp
  then show "length (fst (shl_words n ws)) = length ws"
    and "unat (snd (shl_words n ws)) * 2 ^ (32 * length ws) + pval (fst (shl_words n ws)) = 2 ^ n * pval ws"
    and "unat (snd (shl_words n ws)) < 2 ^ n" by blast+
qed

lemma shiftLeft_spec:
  assumes "0 \<le> n" "n \<le> 32"
  shows "\<exists>ws'. shiftLeft ws n = Some ws' \<and> pval ws' = 2 ^ nat n * pval ws \<and> (normal ws \<longrightarrow> normal ws')"
proof -
  consider "n = 0" | "n = 32" | "0 < n" "n < 32" using assms by linarith
  then show ?thesis
  proof cases
    case 1
    then show ?thesis by (simp add: shiftLeft_def)
  next
    case 2
    then show ?thesis by (auto simp: shiftLeft_def pval_append normal_def nth_append)
  next
    case 3
    then have n: "0 < nat n" "nat n < 32" by linarith+
    obtain vs p where vs: "shl_words (nat n) ws = (vs, p)" by fastforce
    note s = shl_words_spec [OF n, of ws, unfolded vs fst_conv snd_conv]
    let ?r = "if p > 0 then p # vs else vs"
    have pv: "pval ?r = 2 ^ nat n * pval ws" using s by (auto simp: word_gt_0)
    moreover have "normal ws \<longrightarrow> normal ?r"
    proof (cases "p > 0")
      case True
      then show ?thesis by (simp add: normal_def word_gt_0)
    next
      case False
      have "pval ws \<le> 2 ^ nat n * pval ws" by simp
      then show ?thesis using s(1) pv False unfolding normal_iff by (auto intro: order_trans)
    qed
    ultimately show ?thesis using 3 vs by (auto simp: shiftLeft_def)
  qed
qed

subsection \<open>Multiplication\<close>

lemma mul_bits_spec:
  "unat y * 2 ^ n < 2 ^ 64 \<Longrightarrow> unat x < 2 ^ n \<Longrightarrow>
     unat (mul_bits x y p) = unat p XOR pmul (unat y) (unat x)"
proof (induction n arbitrary: x y p)
  case 0
  then have "x = 0" by (simp add: unat_eq_zero)
  then show ?case by (simp add: mul_bits.simps)
next
  case (Suc n)
  show ?case
  proof (cases "x = 0")
    case True
    then show ?thesis by (simp add: mul_bits.simps)
  next
    case False
    have y2: "unat (push_bit 1 y) = 2 * unat y"
    proof -
      have "unat y * 2 \<le> unat y * 2 ^ Suc n" by simp
      then have "unat y * 2 < 2 ^ 64" using Suc.prems(1) by linarith
      then show ?thesis using unat_push_bit [of 1 y] by simp
    qed
    have x2: "unat (drop_bit 1 x) = unat x div 2" by (simp only: unat_drop_bit_eq) (simp add: drop_bit_eq_div)
    have odd: "x AND 1 \<noteq> 0 \<longleftrightarrow> odd (unat x)"
      using bit_iff_and_push_bit_not_eq_0 [of x 0] by (simp add: bit_unsigned_iff flip: bit_0)
    have "unat (mul_bits x y p) = unat (mul_bits (drop_bit 1 x) (push_bit 1 y) (if x AND 1 \<noteq> 0 then p XOR y else p))"
      using False by (subst mul_bits.simps) (simp add: word_gt_0)
    also have "\<dots> = unat (if x AND 1 \<noteq> 0 then p XOR y else p) XOR pmul (2 * unat y) (unat x div 2)"
      using Suc.IH [of "push_bit 1 y" "drop_bit 1 x"] Suc.prems by (simp only: y2 x2) (simp add: mult.commute)
    also have "\<dots> = unat p XOR pmul (unat y) (unat x)"
      using False by (simp add: pmul.simps [of "unat y" "unat x"] odd unat_xor xor.assoc unat_eq_zero)
    finally show ?thesis .
  qed
qed

lemma pmul_less: "a < 2 ^ m \<Longrightarrow> b < 2 ^ n \<Longrightarrow> pmul a b < 2 ^ (m + n)"
proof (cases "a = 0 \<or> b = 0")
  case False
  assume ab: "a < 2 ^ m" "b < 2 ^ n"
  from False obtain d e where d: "pdeg a d" "pdeg b e" using pdeg_exists by (metis gr0I)
  have "d < m" "e < n" using d ab by (auto simp: pdeg_iff_bit dest: bit_less_pow2)
  then have "d + e + 1 \<le> m + n" by simp
  then have "(2 :: nat) ^ (d + e + 1) \<le> 2 ^ (m + n)" by (intro power_increasing) simp_all
  then show ?thesis using pdeg_pmul [OF d] unfolding pdeg_def by linarith
qed auto

lemma low_word: "unat (ucast (p AND ucast lowerBitsMask) :: poly) = unat (p :: 64 word) mod 2 ^ 32"
proof -
  have "ucast (p AND ucast lowerBitsMask) = (ucast p :: poly)"
    by (intro bit_word_eqI) (auto simp: bit_simps lowerBitsMask_def bit_ONEFLAG)
  then show ?thesis by (simp add: unsigned_ucast_eq take_bit_eq_mod)
qed

lemma high_word: "unat (drop_bit (4 * 8) p) = unat (p :: 64 word) div 2 ^ 32"
  by (simp only: unat_drop_bit_eq) (simp add: drop_bit_eq_div)

lemma mul_words_spec:
  "length (fst (mul_words m ws)) = length ws
   \<and> unat (snd (mul_words m ws)) * 2 ^ (32 * length ws) + pval (fst (mul_words m ws)) = pmul (pval ws) (unat m)
   \<and> unat (snd (mul_words m ws)) < 2 ^ 32"
proof (induction ws)
  case (Cons w ws)
  obtain vs p where vs: "mul_words m ws = (vs, p)" by fastforce
  have ih: "length vs = length ws" "unat p * 2 ^ (32 * length ws) + pval vs = pmul (pval ws) (unat m)" "unat p < 2 ^ 32"
    using Cons vs by auto
  define q where "q = mul_bits m (ucast w) p"
  have uw: "unat (ucast w :: 64 word) = unat w" 
    using unat_less_32 [of w] by (simp add: unsigned_ucast_eq take_bit_nat_eq_self)
  have "unat w * 2 ^ 32 < 2 ^ 64" using unat_less_32 [of w] by simp
  then have q: "unat q = unat p XOR pmul (unat w) (unat m)"
    using mul_bits_spec [of "ucast w" 32 m p] unat_less_32 [of m] unfolding q_def uw by simp
  have "unat q < 2 ^ 64" using unsigned_less [of q] by simp
  then have carry: "unat q div 2 ^ 32 < 2 ^ 32" by (simp add: less_mult_imp_div_less)
  let ?k = "32 * length ws"
  have "unat q div 2 ^ 32 * 2 ^ (32 * Suc (length ws)) + ((unat q mod 2 ^ 32) * 2 ^ ?k + pval vs)
      = unat q * 2 ^ ?k + pval vs"
    using carry_sum [of "unat q" "2 ^ 32" "2 ^ ?k" 0 "pval vs"] unfolding pow_32_Suc by simp
  also have "\<dots> = (pmul (unat w) (unat m) * 2 ^ ?k + 0) XOR (unat p * 2 ^ ?k + pval vs)"
    using pval_less [of vs] ih(1) unfolding q by (subst xor_concat) (simp_all add: xor.commute)
  also have "\<dots> = pmul (unat w * 2 ^ ?k XOR pval ws) (unat m)"
    unfolding ih(2) by (simp add: pmul_xor_left pmul_pow2_mult(2) mult.commute [of _ "2 ^ ?k"])
  also have "unat w * 2 ^ ?k XOR pval ws = pval (w # ws)"
    using xor_concat [of 0 ?k "pval ws" "unat w" 0] pval_less [of ws] by simp
  finally show ?case
    using ih(1) carry by (simp only: mul_words.simps vs Let_def case_prod_conv fst_conv snd_conv
      list.size add_Suc_right add_0_right pval.simps low_word high_word q_def [symmetric] simp_thms)
qed simp

lemma multiplyPoly_by_pval: "pval (multiplyPoly_by ws m) = pmul (pval ws) (unat m)"
proof -
  obtain vs p where vs: "mul_words m ws = (vs, p)" by fastforce
  then have s: "length vs = length ws" "unat p * 2 ^ (32 * length ws) + pval vs = pmul (pval ws) (unat m)" "unat p < 2 ^ 32"
    using mul_words_spec [of m ws] by auto
  show ?thesis
  proof (cases "p > 0")
    case True
    then show ?thesis using s vs by (simp add: multiplyPoly_by_def low_word)
  next
    case False
    then have "p = 0" by (simp add: word_gt_0)
    then show ?thesis using s vs by (simp add: multiplyPoly_by_def)
  qed
qed

lemma multiply_loop_spec:
  "\<exists>r. multiply_loop f res g = Some r
     \<and> pval r = 2 ^ (32 * (length g - 1)) * pval res XOR pmul (pval f) (pval g)"
proof (induction g arbitrary: res)
  case (Cons w g)
  let ?p = "addPoly res (multiplyPoly_by f w)"
  have p: "pval ?p = pval res XOR pmul (pval f) (unat w)" by (simp add: addPoly_pval multiplyPoly_by_pval)
  have g: "pval (w # g) = 2 ^ (32 * length g) * unat w XOR pval g"
    using xor_concat [of 0 "32 * length g" "pval g" "unat w" 0] pval_less [of g] by (simp add: mult.commute)
  show ?case
  proof (cases "g = []")
    case True
    then show ?thesis using p by (simp add: multiplyPoly_res_def)
  next
    case False
    obtain res' where r: "shiftLeft ?p 32 = Some res'" "pval res' = 2 ^ 32 * pval ?p"
      using shiftLeft_spec [of 32 ?p] by auto
    obtain s where s: "multiply_loop f res' g = Some s"
      "pval s = 2 ^ (32 * (length g - 1)) * pval res' XOR pmul (pval f) (pval g)" using Cons by blast
    have "(2 :: nat) ^ (32 * (length g - 1)) * 2 ^ 32 = 2 ^ (32 * length g)"
      unfolding power_add [symmetric] using False by (cases g) simp_all
    then have "2 ^ (32 * (length g - 1)) * pval res' = 2 ^ (32 * length g) * (pval res XOR pmul (pval f) (unat w))"
      unfolding r p by (metis mult.assoc)
    then have "pval s = 2 ^ (32 * (length (w # g) - 1)) * pval res XOR pmul (pval f) (pval (w # g))"
      unfolding s g pmul_xor_right pmul_pow2_mult by (simp add: pow_mult_xor xor.assoc)
    moreover have "multiply_loop f res (w # g) = Some s"
      using False r s by (simp add: multiplyPoly_res_def)
    ultimately show ?thesis by blast
  qed
qed simp

lemma multiplyPoly_spec: "\<exists>r. multiplyPoly [] f g = Some r \<and> pval r = pmul (pval f) (pval g)"
  using multiply_loop_spec [of f "[]" g] by (simp add: multiplyPoly_def)

end
