(* ===== verification/Poly_Words.thy ===== *)
theory Poly_Words
  imports Poly_Correct Wire
begin

text \<open>
  Reduction modulo an irreducible polynomial that fits one word: \<^verbatim>\<open>findMod\<close> on a byte string,
  \<^verbatim>\<open>modularMultPoly\<close> and the word-wise \<^verbatim>\<open>remainder\<close> of \<^verbatim>\<open>utils/utils.C\<close>.
\<close>

subsection \<open>One step of reduction\<close>

text \<open>Times \<open>x\<close>, then the leading term replaced.\<close>

definition times_x :: "poly \<Rightarrow> nat \<Rightarrow> poly \<Rightarrow> poly" where
  "times_x z d m =
     (let m' = push_bit 1 m
      in if m' AND push_bit d 1 > 0 then (m' XOR push_bit d 1) XOR (z XOR push_bit d 1) else m')"

lemma times_x_spec:
  assumes "pdeg (unat z) d" "unat m < 2 ^ d" "d < 32"
  shows "unat (times_x z d m) < 2 ^ d" "pdvd (unat z) (unat (times_x z d m) XOR 2 * unat m)"
proof -
  have "2 * unat m < 2 ^ (d + 1)" using assms(2) by simp
  also have "(2 :: nat) ^ (d + 1) \<le> 2 ^ 32" using assms(3) by (intro power_increasing) simp_all
  finally have m2: "unat (push_bit 1 m) = 2 * unat m" using unat_push_bit [of 1 m] by simp
  have t: "push_bit 1 m AND push_bit d 1 > 0 \<longleftrightarrow> bit (2 * unat m) d"
    unfolding word_gt_0 m2 [symmetric] using bit_iff_and_push_bit_not_eq_0 [of "push_bit 1 m" d] assms(3)
    by (auto simp: bit_unsigned_iff)
  have lt: "2 * unat m < 2 ^ (d + 1)" using assms(2) by simp
  have "unat (times_x z d m) < 2 ^ d \<and> pdvd (unat z) (unat (times_x z d m) XOR 2 * unat m)"
  proof (cases "bit (2 * unat m) d")
    case True
    then have "times_x z d m = push_bit 1 m XOR z"
      using t unfolding times_x_def Let_def by (simp only: if_True) (intro bit_word_eqI, auto simp only: bit_xor_iff)
    then have e: "unat (times_x z d m) = 2 * unat m XOR unat z" by (simp only: unat_xor m2)
    have "pdeg (2 * unat m) d" using True lt by (simp add: pdeg_iff_bit)
    then have "2 * unat m XOR unat z < 2 ^ d" by (rule pdeg_xor_same [OF _ assms(1)])
    moreover have "(2 * unat m XOR unat z) XOR 2 * unat m = unat z" by (simp add: xor_ac)
    ultimately show ?thesis unfolding e by simp
  next
    case False
    then have "unat (times_x z d m) = 2 * unat m" using t m2 unfolding times_x_def Let_def by (simp only: if_False)
    then show ?thesis using False lt bit_top_iff [of "2 * unat m" d] by simp
  qed
  then show "unat (times_x z d m) < 2 ^ d" "pdvd (unat z) (unat (times_x z d m) XOR 2 * unat m)" by blast+
qed

subsection \<open>Modular multiplication\<close>

lemma testPoly_31: "testPoly = push_bit 31 1"
  by (simp only: testPoly_def)

lemma modmul_loop_spec:
  assumes "pdeg (unat z) 31"
  shows "unat y < 2 ^ n \<Longrightarrow> unat res < 2 ^ 31 \<Longrightarrow> unat x < 2 ^ 31 \<Longrightarrow>
    unat (modmul_loop (z XOR testPoly) res x y) < 2 ^ 31
    \<and> pdvd (unat z) (unat (modmul_loop (z XOR testPoly) res x y) XOR (unat res XOR pmul (unat x) (unat y)))"
proof (induction n arbitrary: res x y)
  case 0
  then have "y = 0" by (simp add: unat_eq_zero)
  then show ?case using 0 by (simp add: modmul_loop.simps)
next
  case (Suc n)
  show ?case
  proof (cases "y = 0")
    case True
    then show ?thesis using Suc.prems by (simp add: modmul_loop.simps)
  next
    case False
    let ?res = "if y AND 1 \<noteq> 0 then res XOR x else res" and ?x = "times_x z 31 x" and ?y = "drop_bit 1 y"
    note tx = times_x_spec [OF assms Suc.prems(3), simplified]
    have eq: "modmul_loop (z XOR testPoly) res x y = modmul_loop (z XOR testPoly) ?res ?x ?y"
      using False
      by (subst modmul_loop.simps) (simp only: testPoly_31 times_x_def word_gt_0 if_True Let_def eq_commute [of 0] simp_thms)
    have y2: "unat ?y = unat y div 2" by (simp only: unat_drop_bit_eq) (simp add: drop_bit_eq_div)
    have odd: "y AND 1 \<noteq> 0 \<longleftrightarrow> odd (unat y)"
      using bit_iff_and_push_bit_not_eq_0 [of y 0] by (simp add: bit_unsigned_iff flip: bit_0)
    have res: "unat ?res = unat res XOR (if odd (unat y) then unat x else 0)" "unat ?res < 2 ^ 31"
      using Suc.prems(2,3) xor_less_pow2 [OF Suc.prems(2,3)] unfolding odd by (auto simp: unat_xor)
    have ih: "unat (modmul_loop (z XOR testPoly) ?res ?x ?y) < 2 ^ 31
      \<and> pdvd (unat z) (unat (modmul_loop (z XOR testPoly) ?res ?x ?y) XOR (unat ?res XOR pmul (unat ?x) (unat ?y)))"
      using Suc.prems(1) y2 res(2) tx(1) by (intro Suc.IH) auto
    have p: "pmul (unat x) (unat y) = (if odd (unat y) then unat x else 0) XOR pmul (2 * unat x) (unat ?y)"
      using False unfolding y2 by (simp add: pmul.simps [of "unat x" "unat y"] unat_eq_zero)
    have "pdvd (unat z) (pmul (unat ?x XOR 2 * unat x) (unat ?y))" using tx(2) by (rule pdvd_mult)
    then have "pdvd (unat z) ((unat ?res XOR pmul (unat ?x) (unat ?y)) XOR (unat res XOR pmul (unat x) (unat y)))"
      unfolding res(1) p by (simp add: pmul_xor_left xor_ac)
    then show ?thesis unfolding eq using ih pdvd_xor_trans by blast
  qed
qed

subsection \<open>Reduction of a byte string\<close>

text \<open>The state after the bits of the polynomial \<open>A\<close> of length \<open>k\<close> have been read.\<close>

definition fm_inv :: "poly \<Rightarrow> nat \<Rightarrow> nat \<Rightarrow> nat \<Rightarrow> find_mod_state \<Rightarrow> bool" where
  "fm_inv z d k A st \<longleftrightarrow> fm_k st = int k \<and> A < 2 ^ k \<and> unat (fm_res st) < 2 ^ d \<and> unat (fm_resMask st) < 2 ^ d
     \<and> pdvd (unat z) (unat (fm_res st) XOR A)
     \<and> (if k < d then unat (fm_res st) = A \<and> fm_small st = push_bit k 1
        else True)
     \<and> pdvd (unat z) (unat (fm_resMask st) XOR 2 ^ max k d)"

lemma unat_push_1: "n < 32 \<Longrightarrow> unat (push_bit n 1 :: poly) = 2 ^ n"
proof -
  assume n: "n < 32"
  then have "(2 :: nat) ^ n < 2 ^ 32" by (intro power_strict_increasing) simp_all
  then show ?thesis using unat_push_bit [of n "1 :: poly"] by simp
qed

lemma pow_top_xor: "A < 2 ^ k \<Longrightarrow> A XOR 2 ^ k = A + (2 ^ k :: nat)"
  using xor_concat [of A k 0 0 1] by simp

lemma find_mod_bit_inv:
  assumes "pdeg (unat z) d" "d < 32" "fm_inv z d k A st"
  shows "fm_inv z d (k + 1) (if ptr AND bm > 0 then A + 2 ^ k else A)
    (find_mod_bit (int d) (push_bit d 1) (z XOR push_bit d 1) ptr bm st)"
proof (cases "d \<le> k")
  case True
  have i: "fm_k st = int k" "A < 2 ^ k" "unat (fm_res st) < 2 ^ d" "unat (fm_resMask st) < 2 ^ d"
    "pdvd (unat z) (unat (fm_res st) XOR A)" "pdvd (unat z) (unat (fm_resMask st) XOR 2 ^ k)"
    using assms(3) True by (auto simp: fm_inv_def)
  note tx = times_x_spec [OF assms(1) i(4) assms(2)]
  have "pdvd (unat z) (2 * unat (fm_resMask st) XOR 2 ^ (k + 1))"
    using pdvd_mult [OF i(6), of 2] pmul_double_right [of _ 1]
    by (simp add: double_xor)
  then have mask: "pdvd (unat z) (unat (times_x z d (fm_resMask st)) XOR 2 ^ (k + 1))"
    using tx(2) pdvd_xor_trans by blast
  have st: "find_mod_bit (int d) (push_bit d 1) (z XOR push_bit d 1) ptr bm st
      = st\<lparr>fm_res := (if ptr AND bm > 0 then fm_res st XOR fm_resMask st else fm_res st),
           fm_resMask := times_x z d (fm_resMask st), fm_k := int (k + 1)\<rparr>"
    using True i(1) unfolding find_mod_bit_def times_x_def Let_def by simp
  have "pdvd (unat z) ((unat (fm_res st) XOR A) XOR (unat (fm_resMask st) XOR 2 ^ k))" using i(5,6) by (rule pdvd_xor)
  then have "pdvd (unat z) (unat (fm_res st XOR fm_resMask st) XOR (A + 2 ^ k))"
    unfolding unat_xor pow_top_xor [OF i(2), symmetric] by (simp add: xor_ac)
  moreover have "unat (fm_res st XOR fm_resMask st) < 2 ^ d" using i(3,4) unfolding unat_xor by (rule xor_less_pow2)
  moreover have "A + 2 ^ k < 2 ^ (k + 1)" "A < 2 ^ (k + 1)" using i(2) by simp_all
  ultimately show ?thesis unfolding st fm_inv_def using True i(3,5) tx(1) mask by (simp add: max_def)
next
  case False
  have i: "fm_k st = int k" "A < 2 ^ k" "unat (fm_res st) < 2 ^ d" "unat (fm_resMask st) < 2 ^ d"
    "unat (fm_res st) = A" "fm_small st = push_bit k 1" "pdvd (unat z) (unat (fm_resMask st) XOR 2 ^ d)"
    using assms(3) False by (auto simp: fm_inv_def)
  have st: "find_mod_bit (int d) (push_bit d 1) (z XOR push_bit d 1) ptr bm st
      = st\<lparr>fm_res := (if ptr AND bm > 0 then fm_res st OR fm_small st else fm_res st),
           fm_small := push_bit 1 (fm_small st), fm_k := int (k + 1)\<rparr>"
    using False i(1) unfolding find_mod_bit_def Let_def by simp
  have "unat (fm_res st OR fm_small st) = A OR 2 ^ k"
    unfolding unsigned_or_eq i(5,6) using unat_push_1 [of k] False assms(2) by simp
  also have "\<dots> = A + 2 ^ k"
    using i(2) by (intro disjunctive_add_eq_or [symmetric]) (auto intro!: bit_eqI simp: bit_and_iff bit_exp_iff dest: bit_less_pow2)
  finally have "unat (fm_res st OR fm_small st) = A + 2 ^ k" .
  moreover have "A + 2 ^ k < 2 ^ (k + 1)" "A < 2 ^ (k + 1)" using i(2) by simp_all
  moreover have "(2 :: nat) ^ (k + 1) \<le> 2 ^ d" using False by (intro power_increasing) simp_all
  moreover have "push_bit 1 (push_bit k 1) = (push_bit (k + 1) 1 :: poly)" by simp
  ultimately show ?thesis unfolding st fm_inv_def using False i
    by (auto simp: max_def simp del: push_bit_of_1)
qed

lemma test_byte: "b AND push_bit j 1 > 0 \<longleftrightarrow> bit (b :: byte) j"
  unfolding bit_iff_and_push_bit_not_eq_0 by (metis word_gt_0)

lemma byte_digit: "unat (b :: byte) div 2 ^ j = of_bool (bit b j) + 2 * (unat b div 2 ^ (j + 1))"
proof -
  have "odd (unat b div 2 ^ j) \<longleftrightarrow> bit b j"
    using bit_iff_odd [of "unat b" j] by (auto simp: bit_unsigned_iff dest: bit_imp_le_length)
  moreover have "unat b div 2 ^ (j + 1) = unat b div 2 ^ j div 2"
    unfolding power_add power_one_right by (rule div_mult2_eq)
  moreover have "unat b div 2 ^ j = of_bool (odd (unat b div 2 ^ j)) + 2 * (unat b div 2 ^ j div 2)"
    by (simp flip: mod_2_eq_odd)
  ultimately show ?thesis by simp
qed

lemma find_mod_byte_inv:
  assumes "pdeg (unat z) d" "d < 32"
  shows "fm_inv z d k A st \<Longrightarrow> j + n = 8 \<Longrightarrow> fm_inv z d (k + n) (A + 2 ^ k * (unat b div 2 ^ j))
    (find_mod_byte (int d) (push_bit d 1) (z XOR push_bit d 1) b n (push_bit j 1) st)"
proof (induction n arbitrary: k A st j)
  case 0
  have "unat b < 2 ^ 8" using unsigned_less [of b] by simp
  then show ?case using 0 by simp
next
  case (Suc n)
  let ?A = "if b AND push_bit j 1 > 0 then A + 2 ^ k else A"
  let ?st = "find_mod_bit (int d) (push_bit d 1) (z XOR push_bit d 1) b (push_bit j 1) st"
  have "fm_inv z d (k + 1) ?A ?st" by (rule find_mod_bit_inv [OF assms Suc.prems(1)])
  then have "fm_inv z d (k + 1 + n) (?A + 2 ^ (k + 1) * (unat b div 2 ^ (j + 1)))
    (find_mod_byte (int d) (push_bit d 1) (z XOR push_bit d 1) b n (push_bit (j + 1) 1) ?st)"
    using Suc.prems(2) by (intro Suc.IH) simp_all
  moreover have "?A + 2 ^ (k + 1) * (unat b div 2 ^ (j + 1)) = A + 2 ^ k * (unat b div 2 ^ j)"
    unfolding byte_digit [of b j] test_byte by (simp add: algebra_simps)
  moreover have "push_bit 1 (push_bit j 1) = (push_bit (j + 1) 1 :: byte)" by simp
  ultimately show ?case unfolding find_mod_byte.simps by (simp only: add_Suc_right add_Suc add_0_right One_nat_def)
qed

lemma find_mod_bytes_inv:
  assumes "pdeg (unat z) d" "d < 32"
  shows "fm_inv z d k A st \<Longrightarrow> fm_inv z d (k + 8 * length bs) (A + 2 ^ k * le_nat bs)
    (fold (\<lambda>b. find_mod_byte (int d) (push_bit d 1) (z XOR push_bit d 1) b 8 1) bs st)"
proof (induction bs arbitrary: k A st)
  case (Cons b bs)
  have "fm_inv z d (k + 8) (A + 2 ^ k * unat b) (find_mod_byte (int d) (push_bit d 1) (z XOR push_bit d 1) b 8 1 st)"
    using find_mod_byte_inv [OF assms Cons.prems, of 0 8 b] by simp
  from Cons.IH [OF this] show ?case by (simp add: algebra_simps power_add)
qed simp

subsection \<open>The word-wise remainder\<close>

lemma align_mask_spec:
  "pdeg (unat w) e \<Longrightarrow> e + n = 31 \<Longrightarrow> \<exists>m. align_mask w = Some m \<and> unat m = 2 ^ n * unat w"
proof (induction n arbitrary: w e)
  case 0
  then have "bit w 31" by (auto simp: pdeg_iff_bit bit_unsigned_iff)
  then have "w AND testPoly \<noteq> 0" unfolding testPoly_def bit_iff_and_push_bit_not_eq_0 .
  then show ?case by (subst align_mask.simps) simp
next
  case (Suc n)
  have "unat w < 2 ^ 31" using Suc.prems power_increasing [of "e + 1" 31 "2 :: nat"] unfolding pdeg_def by linarith
  then have w2: "unat (push_bit 1 w) = 2 * unat w" using unat_push_bit [of 1 w] by simp
  have "\<not> bit w 31" using bit_less_pow2 [OF \<open>unat w < 2 ^ 31\<close>, of 31] by (auto simp: bit_unsigned_iff)
  then have z: "w AND testPoly = 0" unfolding testPoly_def bit_iff_and_push_bit_not_eq_0 by blast
  have "pdeg (unat (push_bit 1 w)) (e + 1)" unfolding w2 using Suc.prems(1) by (rule pdeg_double)
  from Suc.IH [OF this] obtain m where m: "align_mask (push_bit 1 w) = Some m" "unat m = 2 ^ n * unat (push_bit 1 w)"
    using Suc.prems(2) by auto
  then have "align_mask w = Some m" using z by (subst align_mask.simps) (simp only: simp_thms if_True)
  then show ?case using m(2) unfolding w2 by simp
qed

lemma align_mask_0: "align_mask w = Some m \<Longrightarrow> w \<noteq> 0"
proof (erule align_mask.raw_induct [rotated])
  fix f :: "poly \<Rightarrow> poly option" and w m
  assume ih: "\<And>w m. f w = Some m \<Longrightarrow> w \<noteq> 0"
    and "(if w AND testPoly = 0 then f (push_bit 1 w) else Some w) = Some m"
  then show "w \<noteq> 0" using ih [of 0] by (auto split: if_splits)
qed

text \<open>Either the top bit is found, or the word is used up.\<close>

lemma seek_bit_spec:
  "b < L \<Longrightarrow> \<exists>x' n. unat x' = 2 ^ n * unat x \<and> b + n \<le> L
     \<and> (seek_bit x b L = Some (Inr (x', b + n)) \<and> bit x' 31 \<and> b + n < L
        \<or> seek_bit x b L = Some (Inl (x', b + n)) \<and> (x = 0 \<and> x' = 0 \<or> b + n = L))"
proof (induction "L - b" arbitrary: x b rule: less_induct)
  case less
  show ?case
  proof (cases "bit x 31")
    case True
    then have "x AND testPoly \<noteq> 0" unfolding testPoly_def bit_iff_and_push_bit_not_eq_0 .
    then have "seek_bit x b L = Some (Inr (x, b))" by (subst seek_bit.simps) simp
    then show ?thesis using True less.prems by (intro exI [of _ x] exI [of _ 0]) simp
  next
    case False
    then have z: "x AND testPoly = 0" unfolding testPoly_def bit_iff_and_push_bit_not_eq_0 by blast
    have "unat x < 2 ^ 31"
      using bit_top_iff [of "unat x" 31] unat_less_32 [of x] False by (auto simp: bit_unsigned_iff)
    then have x2: "unat (push_bit 1 x) = 2 ^ 1 * unat x" using unat_push_bit [of 1 x] by simp
    then have x0: "push_bit 1 x = 0 \<longleftrightarrow> x = 0" by (metis mult_0_right mult_eq_0_iff power_not_zero unat_eq_zero zero_neq_numeral)
    show ?thesis
    proof (cases "push_bit 1 x = 0 \<or> b + 1 = L")
      case True
      then have "seek_bit x b L = Some (Inl (push_bit 1 x, b + 1))"
        using z by (subst seek_bit.simps) (simp only: Let_def if_True simp_thms)
      then show ?thesis using True x0 x2 less.prems by (intro exI [of _ "push_bit 1 x"] exI [of _ 1]) auto
    next
      case nf: False
      then have eq: "seek_bit x b L = seek_bit (push_bit 1 x) (b + 1) L"
        using z by (subst seek_bit.simps) (simp only: Let_def if_True if_False simp_thms)
      have "b + 1 < L" "L - (b + 1) < L - b" using nf less.prems by linarith+
      then obtain x' n where ih: "unat x' = 2 ^ n * unat (push_bit 1 x)" "b + 1 + n \<le> L"
         "seek_bit (push_bit 1 x) (b + 1) L = Some (Inr (x', b + 1 + n)) \<and> bit x' 31 \<and> b + 1 + n < L
          \<or> seek_bit (push_bit 1 x) (b + 1) L = Some (Inl (x', b + 1 + n))
            \<and> (push_bit 1 x = 0 \<and> x' = 0 \<or> b + 1 + n = L)"
        using less.hyps [of "b + 1" "push_bit 1 x"] by blast
      have "unat x' = 2 ^ (n + 1) * unat x" using ih(1) unfolding x2 by simp
      then show ?thesis using ih(2,3) nf unfolding eq
        by (intro exI [of _ x'] exI [of _ "n + 1"]) (auto simp: add.assoc add.commute [of 1])
    qed
  qed
qed

text \<open>Clearing the top bit by the aligned divisor.\<close>

lemma clear_top:
  assumes "bit x 31" "unat m = 2 ^ (31 - d) * unat z" "pdeg (unat z) d" "d < 32"
  shows "\<not> bit (x XOR m) 31"
proof -
  have "pdeg (unat m) 31" using pdeg_pow2_mult [OF assms(3), of "31 - d"] assms(2,4) by simp
  then have "bit m 31" by (auto simp: pdeg_iff_bit bit_unsigned_iff)
  then show ?thesis using assms(1) by (simp add: bit_xor_iff)
qed

lemma rem_words_spec:
  assumes "unat m = 2 ^ (31 - d) * unat z" "pdeg (unat z) d" "d < 32"
  shows "rest \<noteq> [] \<longrightarrow> b < 32 \<Longrightarrow>
    \<exists>x'. rem_words m x b rest = Some (x', if rest = [] then b else 0)
      \<and> pdvd (unat z) ((2 ^ (32 * length rest - b) * unat x XOR pval rest) XOR (if rest = [] then unat x else unat x'))
      \<and> (rest = [] \<longrightarrow> x' = x)"
proof (induction "66 * length rest + (2 * (32 - b) + of_bool (bit x 31))" arbitrary: rest b x rule: less_induct)
  case less
  show ?case
  proof (cases rest)
    case Nil
    then show ?thesis by (subst rem_words.simps) simp
  next
    case (Cons w ws)
    then have b: "b < 32" using less.prems by simp
    obtain x' n where s: "unat x' = 2 ^ n * unat x" "b + n \<le> 32"
      "seek_bit x b 32 = Some (Inr (x', b + n)) \<and> bit x' 31 \<and> b + n < 32
       \<or> seek_bit x b 32 = Some (Inl (x', b + n)) \<and> (x = 0 \<and> x' = 0 \<or> b + n = 32)"
      using seek_bit_spec [OF b, of x] by blast
    let ?k = "32 * length rest"
    have "b + n \<le> ?k" using s(2) Cons by simp
    then have "?k - b = ?k - (b + n) + n" by simp
    then have shift: "2 ^ (?k - b) * unat x = 2 ^ (?k - (b + n)) * unat x'"
      unfolding s(1) by (simp only: power_add mult.assoc)
    from s(3) show ?thesis
    proof
      assume a: "seek_bit x b 32 = Some (Inr (x', b + n)) \<and> bit x' 31 \<and> b + n < 32"
      have nb: "\<not> bit (x' XOR m) 31" using clear_top [OF _ assms] a by blast
      have "n = 0 \<Longrightarrow> x' = x" using s(1) by (simp add: word_unat_eq_iff)
      then have dec: "66 * length rest + (2 * (32 - (b + n)) + of_bool (bit (x' XOR m) 31))
          < 66 * length rest + (2 * (32 - b) + of_bool (bit x 31))"
        using a nb by (cases n) auto
      have eq: "rem_words m x b rest = rem_words m (x' XOR m) (b + n) rest"
        using a Cons by (subst rem_words.simps) simp
      obtain x'' where ih: "rem_words m (x' XOR m) (b + n) rest = Some (x'', 0)"
        "pdvd (unat z) ((2 ^ (?k - (b + n)) * unat (x' XOR m) XOR pval rest) XOR unat x'')"
        using less.hyps [OF dec] a Cons by auto
      have "2 ^ (?k - (b + n)) * unat (x' XOR m) = 2 ^ (?k - b) * unat x XOR 2 ^ (?k - (b + n)) * (2 ^ (31 - d) * unat z)"
        unfolding unat_xor pow_mult_xor shift assms(1) ..
      moreover have "pdvd (unat z) (2 ^ (?k - (b + n)) * (2 ^ (31 - d) * unat z))"
        by (metis mult.assoc pdvd_pmul(1) pmul_pow2 power_add)
      ultimately have "pdvd (unat z) ((2 ^ (?k - b) * unat x XOR pval rest) XOR (2 ^ (?k - (b + n)) * unat (x' XOR m) XOR pval rest))"
        by (simp add: xor_ac)
      then have "pdvd (unat z) ((2 ^ (?k - b) * unat x XOR pval rest) XOR unat x'')" using ih(2) by (rule pdvd_xor_trans)
      then show ?thesis using ih(1) Cons unfolding eq by simp
    next
      assume a: "seek_bit x b 32 = Some (Inl (x', b + n)) \<and> (x = 0 \<and> x' = 0 \<or> b + n = 32)"
      let ?l = "32 * length ws"
      have eq: "rem_words m x b rest = rem_words m (x' XOR w) 0 ws"
        using a Cons by (subst rem_words.simps) simp
      have "2 ^ (?k - b) * unat x = 2 ^ ?l * unat x'" using a shift Cons by auto
      moreover have "pval rest = 2 ^ ?l * unat w XOR pval ws"
        using xor_concat [of 0 ?l "pval ws" "unat w" 0] pval_less [of ws] Cons by (simp add: mult.commute)
      ultimately have T: "2 ^ (?k - b) * unat x XOR pval rest = 2 ^ ?l * unat (x' XOR w) XOR pval ws"
        by (simp only: unat_xor pow_mult_xor xor.assoc)
      have dec: "66 * length ws + (2 * (32 - 0) + of_bool (bit (x' XOR w) 31))
          < 66 * length rest + (2 * (32 - b) + of_bool (bit x 31))"
        using Cons by (cases "bit (x' XOR w) 31") simp_all
      obtain x'' where ih: "rem_words m (x' XOR w) 0 ws = Some (x'', 0)"
        "pdvd (unat z) ((2 ^ (?l - 0) * unat (x' XOR w) XOR pval ws) XOR (if ws = [] then unat (x' XOR w) else unat x''))"
        "ws = [] \<longrightarrow> x'' = x' XOR w"
        using less.hyps [OF dec] by (auto split: if_splits)
      then show ?thesis using Cons T unfolding eq by (auto split: if_splits)
    qed
  qed
qed

lemma rem_last_spec:
  assumes "unat m = 2 ^ (31 - d) * unat z" "pdeg (unat z) d" "d < 32"
  shows "unat x = 2 ^ b * T \<Longrightarrow> b < 32 - d \<Longrightarrow>
    \<exists>x' R. rem_last m (32 - d) x b = Some x' \<and> unat x' = 2 ^ (32 - d) * R \<and> R < 2 ^ d \<and> pdvd (unat z) (T XOR R)"
proof (induction "2 * (32 - b) + of_bool (bit x 31)" arbitrary: b x T rule: less_induct)
  case less
  obtain x' n where s: "unat x' = 2 ^ n * unat x" "b + n \<le> 32 - d"
      "seek_bit x b (32 - d) = Some (Inr (x', b + n)) \<and> bit x' 31 \<and> b + n < 32 - d
       \<or> seek_bit x b (32 - d) = Some (Inl (x', b + n)) \<and> (x = 0 \<and> x' = 0 \<or> b + n = 32 - d)"
    using seek_bit_spec [OF less.prems(2), of x] by blast
  have x': "unat x' = 2 ^ (b + n) * T" unfolding s(1) less.prems(1) by (simp add: power_add)
  from s(3) show ?case
  proof
    assume a: "seek_bit x b (32 - d) = Some (Inr (x', b + n)) \<and> bit x' 31 \<and> b + n < 32 - d"
    have nb: "\<not> bit (x' XOR m) 31" using clear_top [OF _ assms] a by blast
    have "n = 0 \<Longrightarrow> x' = x" using s(1) by (simp add: word_unat_eq_iff)
    then have dec: "2 * (32 - (b + n)) + of_bool (bit (x' XOR m) 31) < 2 * (32 - b) + of_bool (bit x 31)"
      using a nb by (cases n) auto
    have "31 - d = (b + n) + (31 - d - (b + n))" using a by linarith
    then have "unat m = 2 ^ (b + n) * (2 ^ (31 - d - (b + n)) * unat z)"
      unfolding assms(1) by (metis mult.assoc power_add)
    then have "unat (x' XOR m) = 2 ^ (b + n) * (T XOR 2 ^ (31 - d - (b + n)) * unat z)"
      unfolding unat_xor x' pow_mult_xor by simp
    from less.hyps [OF dec this] obtain x'' R where
      r: "rem_last m (32 - d) (x' XOR m) (b + n) = Some x''" "unat x'' = 2 ^ (32 - d) * R" "R < 2 ^ d"
        "pdvd (unat z) ((T XOR 2 ^ (31 - d - (b + n)) * unat z) XOR R)" using a by blast
    have "pdvd (unat z) (T XOR (T XOR 2 ^ (31 - d - (b + n)) * unat z))"
      by (metis pdvd_pmul(1) pmul_pow2 xor_self_left)
    then have "pdvd (unat z) (T XOR R)" using r(4) by (rule pdvd_xor_trans)
    moreover have "rem_last m (32 - d) x b = Some x''" using a r(1) by (subst rem_last.simps) simp
    ultimately show ?thesis using r by blast
  next
    assume a: "seek_bit x b (32 - d) = Some (Inl (x', b + n)) \<and> (x = 0 \<and> x' = 0 \<or> b + n = 32 - d)"
    have e: "rem_last m (32 - d) x b = Some x'" using a by (subst rem_last.simps) simp
    show ?thesis
    proof (cases "x' = 0")
      case True
      then have "T = 0" using x' by simp
      then show ?thesis using e True by (intro exI [of _ x'] exI [of _ 0]) simp
    next
      case False
      then have n: "b + n = 32 - d" using a by blast
      have "2 ^ (32 - d) * T < 2 ^ (32 - d) * 2 ^ d"
        using unat_less_32 [of x'] assms(3) unfolding x' n by (simp flip: power_add)
      then have "T < 2 ^ d" by simp
      then show ?thesis using e x' n by (intro exI [of _ x'] exI [of _ T]) simp
    qed
  qed
qed

lemma getDegree_pdeg: "pdeg (unat z) d \<Longrightarrow> getDegree z = int d"
  using getDegree_spec [of z] pdeg_unique pdeg_pos by (metis unat_gt_0)

lemma pdeg_word: "pdeg (unat (z :: poly)) d \<Longrightarrow> d < 32"
  using bit_less_pow2 [OF unat_less_32] by (auto simp: pdeg_iff_bit)

subsection \<open>Properties\<close>

text \<open>
  \<^verbatim>\<open>findMod\<close> reduces a text. For a polynomial of any degree the result is the remainder of the byte
  string, read as a polynomial whose lowest coefficient is the lowest bit of the first byte.
\<close>

theorem findMod_is_remainder:
  assumes "z \<noteq> 0"
  shows "\<exists>r. findMod x z = Some r \<and> prem (le_nat x) (unat z) (unat r)"
proof -
  obtain d where d: "d < 32" "getDegree z = int d" "pdeg (unat z) d" using getDegree_spec [OF assms] by blast
  let ?st = "\<lparr>fm_res = 0, fm_resMask = z XOR push_bit d 1, fm_small = 1, fm_k = 0\<rparr>"
  have u: "unat (z XOR push_bit d 1) = unat z XOR 2 ^ d" unfolding unat_xor unat_push_1 [OF d(1)] ..
  have "pdeg (2 ^ d) d" by (simp add: pdeg_def)
  then have "unat (z XOR push_bit d 1) < 2 ^ d" unfolding u using d(3) by (intro pdeg_xor_same)
  moreover have "pdvd (unat z) (unat (z XOR push_bit d 1) XOR 2 ^ d)" unfolding u by (simp add: xor.assoc)
  ultimately have "fm_inv z d 0 0 ?st" unfolding fm_inv_def by simp
  from find_mod_bytes_inv [OF d(3,1) this, of x]
  have "fm_inv z d (8 * length x) (le_nat x)
    (fold (\<lambda>b. find_mod_byte (int d) (push_bit d 1) (z XOR push_bit d 1) b 8 1) x ?st)" by simp
  then show ?thesis using d by (auto simp: findMod_def Let_def fm_inv_def prem_def xor.commute)
qed

theorem findMod_is_remainder_witness:
  "findMod [0x12, 0x34, 0x56] 0x11b = Some 186 \<and> prem 0x563412 0x11b 186"
proof -
  have "findMod [0x12, 0x34, 0x56] 0x11b = Some 186" by code_simp
  then show ?thesis using findMod_is_remainder [of "0x11b" "[0x12, 0x34, 0x56]"] by simp
qed

text \<open>
  \<^verbatim>\<open>modularMultPoly\<close> multiplies modulo a polynomial of degree 31. For a first factor of smaller degree the
  result is the remainder of the product.
\<close>

theorem modularMultPoly_is_product:
  assumes "bit z 31" "\<not> bit x 31"
  shows "prem (pmul (unat x) (unat y)) (unat z) (unat (modularMultPoly x y z))"
proof -
  have z: "pdeg (unat z) 31" using assms(1) unat_less_32 [of z] by (simp add: pdeg_iff_bit bit_unsigned_iff)
  have "unat x < 2 ^ 31" using bit_top_iff [of "unat x" 31] unat_less_32 [of x] assms(2) by (auto simp: bit_unsigned_iff)
  from modmul_loop_spec [OF z unat_less_32 [of y] _ this, of 0]
  show ?thesis using z by (auto simp: modularMultPoly_def prem_def xor.commute)
qed

theorem modularMultPoly_is_product_witness:
  "prem (pmul 0x12345 0x777) 0x80000003 126991979"
proof -
  have "modularMultPoly 0x12345 0x777 0x80000003 = 126991979" by code_simp
  moreover have "bit (0x80000003 :: poly) 31" "\<not> bit (0x12345 :: poly) 31" by code_simp+
  ultimately show ?thesis using modularMultPoly_is_product [of "0x80000003" "0x12345" "0x777"] by simp
qed

text \<open>
  The word-wise \<^verbatim>\<open>remainder\<close>. Its loops end for every non-zero divisor and every non-empty vector, and
  the value returned is the remainder shifted to the top of the word, where the divisor was aligned;
  for the divisor 0 the alignment never ends.
\<close>

theorem remainder_word_is_shifted:
  "if z = 0 then remainder_word (w # ws) z = None
   else \<exists>d r x. pdeg (unat z) d \<and> remainder_word (w # ws) z = Some x
     \<and> unat x = 2 ^ (32 - d) * r \<and> prem (pval (w # ws)) (unat z) r"
proof (cases "z = 0")
  case True
  have "align_mask 0 = None" using align_mask_0 [of 0] by (cases "align_mask 0") auto
  then show ?thesis using True by (simp add: remainder_word_def)
next
  case False
  then obtain d where d: "pdeg (unat z) d" using pdeg_exists by (metis unat_gt_0)
  then have d32: "d < 32" "getDegree z = int d" by (simp_all add: pdeg_word getDegree_pdeg)
  obtain m where m: "align_mask z = Some m" "unat m = 2 ^ (31 - d) * unat z"
    using align_mask_spec [OF d, of "31 - d"] d32(1) by auto
  obtain x where x: "rem_words m w 0 ws = Some (x, 0)" "pdvd (unat z) (pval (w # ws) XOR unat x)"
  proof -
    have "pval (w # ws) = 2 ^ (32 * length ws - 0) * unat w XOR pval ws"
      using xor_concat [of 0 "32 * length ws" "pval ws" "unat w" 0] pval_less [of ws] by (simp add: mult.commute)
    then show thesis using that rem_words_spec [OF m(2) d d32(1), of ws 0 w] by (auto split: if_splits)
  qed
  obtain x' R where r: "rem_last m (32 - d) x 0 = Some x'" "unat x' = 2 ^ (32 - d) * R" "R < 2 ^ d"
      "pdvd (unat z) (unat x XOR R)"
    using rem_last_spec [OF m(2) d d32(1), of x 0 "unat x"] d32(1) by auto
  have "nat (4 * 8 - getDegree z) = 32 - d" using d32 by simp
  then have "remainder_word (w # ws) z = Some x'" using m(1) x(1) r(1) by (simp add: remainder_word_def)
  moreover have "pdvd (unat z) (pval (w # ws) XOR R)" using x(2) r(4) by (rule pdvd_xor_trans)
  then have "prem (pval (w # ws)) (unat z) R" using d r(3) by (auto simp: prem_def)
  ultimately show ?thesis using False d r(2) by auto
qed

end
