(* ===== verification/Lsh.thy ===== *)
theory Lsh
  imports Polynomials Messages Chord_ID Gossip_Lists
begin

text \<open>
  Locality sensitive hashing of signatures: the class \<^verbatim>\<open>lsh\<close> of \<^verbatim>\<open>utils/utils.h\<close> and \<^verbatim>\<open>utils/utils.C\<close>, and its
  uses in \<^verbatim>\<open>tools/gpsi.C\<close>: \<^verbatim>\<open>lshsig\<close> announces the signatures of a peer to their teams, \<^verbatim>\<open>lshquery\<close> and
  \<^verbatim>\<open>vanillaquery\<close> send queries. \<^verbatim>\<open>int\<close> parameters that meet unsigned operands are 32-bit words. The hash of
  the library is the parameter \<open>compute_hash\<close>, the text of an identifier \<open>show_id\<close>; random choices are
  arguments. A send yields the identifier and the bytes; its outcome is only logged by the source.
  \<open>None\<close> is an access out of range or division by 0.
\<close>

subsection \<open>The class\<close>

record lsh =
  lsh_k :: nat
  lsh_l :: nat
  lsh_m :: nat
  lsh_col :: int
  selected_poly :: poly
  lsh_irrnums :: polys
  randa :: polys
  randb :: polys
  highest :: poly

text \<open>The index of the chosen polynomial is drawn from \<open>0\<close> up to the number of polynomials, inclusive.\<close>

definition new_lsh :: "nat \<Rightarrow> nat \<Rightarrow> nat \<Rightarrow> poly \<Rightarrow> int \<Rightarrow> polys \<Rightarrow> polys \<Rightarrow> polys \<Rightarrow> nat \<Rightarrow> lsh option" where
  "new_lsh kc lc mc nc colc irrnumbers hasha hashb rand_index =
     (if rand_index < length irrnumbers
      then Some \<lparr>lsh_k = kc, lsh_l = lc, lsh_m = mc, lsh_col = colc, selected_poly = irrnumbers ! rand_index,
                 lsh_irrnums = irrnumbers, randa = hasha, randb = hashb, highest = nc\<rparr>
      else None)"

definition getIRRPoly :: "lsh \<Rightarrow> poly" where
  "getIRRPoly L = selected_poly L"

text \<open>One element of the unique sequence against all elements: later copies are replaced by the first word of
  their product with a further polynomial.\<close>

primrec unique_row :: "polys \<Rightarrow> poly \<Rightarrow> nat \<Rightarrow> polys \<Rightarrow> polys option" where
  "unique_row irr p cnt [] = Some []"
| "unique_row irr p cnt (q # qs) =
     (if p = q
      then do { q \<leftarrow> (if cnt > 0
                      then if cnt - 1 < length irr
                           then do { result \<leftarrow> multiplyPoly [] [q] [irr ! (cnt - 1)]; Some (result ! 0) }
                           else None
                      else Some q);
                qs \<leftarrow> unique_row irr p (cnt + 1) qs;
                Some (q # qs) }
      else do { qs \<leftarrow> unique_row irr p cnt qs; Some (q # qs) })"

primrec unique_rows :: "polys \<Rightarrow> polys \<Rightarrow> polys \<Rightarrow> polys option" where
  "unique_rows irr [] outputPols = Some outputPols"
| "unique_rows irr (p # polNums) outputPols =
     do { outputPols \<leftarrow> unique_row irr p 0 outputPols; unique_rows irr polNums outputPols }"

definition getUniqueSet :: "lsh \<Rightarrow> polys \<Rightarrow> polys option" where
  "getUniqueSet L inputPols = unique_rows (lsh_irrnums L) (remdups_adj inputPols) inputPols"

definition isMinimum :: "polys \<Rightarrow> poly option" where
  "isMinimum v = (if v = [] then None else Some (fold (\<lambda>x v1. if x < v1 then x else v1) v (v ! 0)))"

definition min_hash :: "lsh \<Rightarrow> polys \<Rightarrow> nat \<Rightarrow> poly option" where
  "min_hash L S f =
     (if f < length (randa L) \<and> f < length (randb L) \<and> lsh_k L \<le> length S \<and> highest L \<noteq> 0
      then isMinimum (map (\<lambda>s. (randa L ! f * s + randb L ! f) mod highest L) (take (lsh_k L) S))
      else None)"

primrec min_hashes :: "lsh \<Rightarrow> polys \<Rightarrow> nat \<Rightarrow> nat \<Rightarrow> polys option" where
  "min_hashes L S f 0 = Some []"
| "min_hashes L S f (Suc l) =
     do { h \<leftarrow> min_hash L S f; hs \<leftarrow> min_hashes L S (f + 1) l; Some (h # hs) }"

text \<open>The minima of a group as a string stream prints them.\<close>

definition group_text :: "polys \<Rightarrow> bytes" where
  "group_text mins = concat (map (\<lambda>h. dec_text (unat h)) mins)"

primrec pre_hash :: "lsh \<Rightarrow> bool \<Rightarrow> polys \<Rightarrow> nat \<Rightarrow> nat \<Rightarrow> bytes list option" where
  "pre_hash L once S f 0 = Some []"
| "pre_hash L once S f (Suc m) =
     do { mins \<leftarrow> min_hashes L S f (lsh_l L);
          rest \<leftarrow> (if once then Some [] else pre_hash L once S (f + lsh_l L) m);
          Some (group_text mins # rest) }"

definition getHashCode :: "(bytes \<Rightarrow> chordID) \<Rightarrow> lsh \<Rightarrow> polys \<Rightarrow> chordID list option" where
  "getHashCode compute_hash L S =
     map_option (map compute_hash) (pre_hash L (lsh_col L \<noteq> 0) S 0 (lsh_m L))"

primrec mod_all :: "poly \<Rightarrow> bytes list \<Rightarrow> polys option" where
  "mod_all polNumber [] = Some []"
| "mod_all polNumber (p # ps) =
     do { ID \<leftarrow> findMod p polNumber; hash \<leftarrow> mod_all polNumber ps; Some (ID # hash) }"

definition getHashCodeFindMod :: "lsh \<Rightarrow> polys \<Rightarrow> poly \<Rightarrow> polys option" where
  "getHashCodeFindMod L S polNumber =
     do { texts \<leftarrow> pre_hash L False S 0 (lsh_m L); mod_all polNumber texts }"

subsection \<open>The teams of a signature\<close>

text \<open>The globals that parametrise hashing.\<close>

record lsh_config =
  lfuncs :: nat
  mgroups :: nat
  lshseed :: poly
  irrnums :: polys
  hasha :: polys
  hashb :: polys
  uflag :: bool
  rand_index :: nat

definition hash_sig :: "(bytes \<Rightarrow> chordID) \<Rightarrow> lsh_config \<Rightarrow> int \<Rightarrow> polys \<Rightarrow> chordID list option" where
  "hash_sig compute_hash c col sig =
     do { L \<leftarrow> new_lsh (length sig) (lfuncs c) (mgroups c) (lshseed c) col (irrnums c) (hasha c) (hashb c) (rand_index c);
          lshsig \<leftarrow> (if uflag c then getUniqueSet L sig else Some sig);
          minhash \<leftarrow> getHashCode compute_hash L lshsig;
          Some (sort minhash) }"

definition run_lsh :: "(bytes \<Rightarrow> chordID) \<Rightarrow> lsh_config \<Rightarrow> polys \<Rightarrow> chordID list option" where
  "run_lsh compute_hash c sig = hash_sig compute_hash c 0 sig"

subsection \<open>Announcing signatures\<close>

text \<open>One message per team, to a member drawn at random; \<open>mk\<close> builds the message from the texts of the member and
  of the team.\<close>

fun send_teams :: "(chordID \<Rightarrow> bytes) \<Rightarrow> nat \<Rightarrow> (bytes \<Rightarrow> bytes \<Rightarrow> bytes option) \<Rightarrow> chordID list \<Rightarrow> nat list
    \<Rightarrow> ((chordID \<times> bytes) list \<times> nat list) option" where
  "send_teams show_id teamsize mk [] rands = Some ([], rands)"
| "send_teams show_id teamsize mk (teamID # ids) [] = None"
| "send_teams show_id teamsize mk (teamID # ids) (randcol # rands) =
     do { (_, team) \<leftarrow> make_team teamsize 0 teamID;
          if randcol < length team
          then do { value \<leftarrow> mk (show_id (team ! randcol)) (show_id (team ! 0));
                    (msgs, rands) \<leftarrow> send_teams show_id teamsize mk ids rands;
                    Some ((team ! randcol, value) # msgs, rands) }
          else None }"

fun lshsig_loop :: "(chordID \<Rightarrow> bytes) \<Rightarrow> (bytes \<Rightarrow> chordID) \<Rightarrow> ('d \<Rightarrow> 64 word) \<Rightarrow> lsh_config \<Rightarrow> nat \<Rightarrow> bool
    \<Rightarrow> InsertType \<Rightarrow> int \<Rightarrow> 'd sigmap \<Rightarrow> nat list \<Rightarrow> (chordID \<times> bytes) list option" where
  "lshsig_loop show_id compute_hash to_bits c teamsize send msgtype col [] rands = Some []"
| "lshsig_loop show_id compute_hash to_bits c teamsize send msgtype col ((sig, freq, weight) # entries) rands =
     do { minhash \<leftarrow> hash_sig compute_hash c col (polys sig);
          (msgs, rands) \<leftarrow>
            (if send
             then send_teams show_id teamsize
                    (\<lambda>key teamID. makeKeyValue_init key teamID (polys sig) (to_bits freq) (to_bits weight) msgtype)
                    minhash rands
             else Some ([], rands));
          rest \<leftarrow> lshsig_loop show_id compute_hash to_bits c teamsize send msgtype col entries rands;
          Some (msgs @ rest) }"

definition lshsig :: "(chordID \<Rightarrow> bytes) \<Rightarrow> (bytes \<Rightarrow> chordID) \<Rightarrow> ('d \<Rightarrow> 64 word) \<Rightarrow> lsh_config \<Rightarrow> nat \<Rightarrow> bool \<Rightarrow> bool
    \<Rightarrow> 'd vecomap \<Rightarrow> InsertType \<Rightarrow> nat \<Rightarrow> int \<Rightarrow> nat list \<Rightarrow> (chordID \<times> bytes) list option" where
  "lshsig show_id compute_hash to_bits c teamsize Qflag gflag teamvecomap msgtype listnum col rands =
     (if listnum < length teamvecomap
      then lshsig_loop show_id compute_hash to_bits c teamsize ((Qflag \<or> gflag) \<and> msgtype \<noteq> INVALID) msgtype col
             (teamvecomap ! listnum) rands
      else None)"

subsection \<open>Sending queries\<close>

definition back_of :: "'a list option \<Rightarrow> 'a \<Rightarrow> 'a option" where
  "back_of r old = (case r of Some [] \<Rightarrow> None | Some xs \<Rightarrow> Some (last xs) | None \<Rightarrow> Some old)"

text \<open>The document type and the proxy signature keep the values of the previous query when none is found.\<close>

fun lshquery_loop :: "(chordID \<Rightarrow> bytes) \<Rightarrow> (bytes \<Rightarrow> chordID) \<Rightarrow> lsh_config \<Rightarrow> nat \<Rightarrow> bool
    \<Rightarrow> (int \<Rightarrow> bytes list option) \<Rightarrow> (bytes \<Rightarrow> polys list option) \<Rightarrow> int \<Rightarrow> InsertType \<Rightarrow> int
    \<Rightarrow> bytes \<Rightarrow> polys \<Rightarrow> (polys \<times> int) list \<Rightarrow> nat list \<Rightarrow> (chordID \<times> bytes) list option" where
  "lshquery_loop show_id compute_hash c teamsize send qid2dtd dtd2proxysigs queryid msgtype col dtd regularsig [] rands
     = Some []"
| "lshquery_loop show_id compute_hash c teamsize send qid2dtd dtd2proxysigs queryid msgtype col dtd regularsig
       ((querysig, qid) # queryMap) rands =
     (if queryid \<noteq> qid \<and> queryid \<noteq> -1
      then lshquery_loop show_id compute_hash c teamsize send qid2dtd dtd2proxysigs queryid msgtype col dtd regularsig
             queryMap rands
      else do { dtd \<leftarrow> back_of (qid2dtd qid) dtd;
                regularsig \<leftarrow> (if msgtype = QUERYXP then back_of (dtd2proxysigs dtd) regularsig else Some regularsig);
                minhash \<leftarrow> (if msgtype = QUERYX \<or> msgtype = QUERYS then hash_sig compute_hash c col querysig
                            else if msgtype = QUERYXP then hash_sig compute_hash c col regularsig
                            else Some []);
                (msgs, rands) \<leftarrow>
                  (if send
                   then send_teams show_id teamsize
                          (\<lambda>key teamID. makeKeyValue_query key teamID dtd querysig qid msgtype) minhash rands
                   else Some ([], rands));
                if queryid = qid then Some msgs
                else do { rest \<leftarrow> lshquery_loop show_id compute_hash c teamsize send qid2dtd dtd2proxysigs queryid msgtype
                                    col dtd regularsig queryMap rands;
                          Some (msgs @ rest) } })"

definition lshquery :: "(chordID \<Rightarrow> bytes) \<Rightarrow> (bytes \<Rightarrow> chordID) \<Rightarrow> lsh_config \<Rightarrow> nat \<Rightarrow> bool \<Rightarrow> bool
    \<Rightarrow> (int \<Rightarrow> bytes list option) \<Rightarrow> (bytes \<Rightarrow> polys list option) \<Rightarrow> (polys \<times> int) list \<Rightarrow> int \<Rightarrow> InsertType \<Rightarrow> int
    \<Rightarrow> nat list \<Rightarrow> (chordID \<times> bytes) list option" where
  "lshquery show_id compute_hash c teamsize Qflag gflag qid2dtd dtd2proxysigs queryMap queryid msgtype col rands =
     lshquery_loop show_id compute_hash c teamsize ((Qflag \<or> gflag) \<and> msgtype \<noteq> INVALID) qid2dtd dtd2proxysigs queryid
       msgtype col [] [] queryMap rands"

fun vanilla_loop :: "(chordID \<Rightarrow> bytes) \<Rightarrow> bool \<Rightarrow> (int \<Rightarrow> bytes list option) \<Rightarrow> InsertType \<Rightarrow> bytes \<Rightarrow> (polys \<times> int) list
    \<Rightarrow> chordID list \<Rightarrow> (chordID \<times> bytes) list option" where
  "vanilla_loop show_id send qid2dtd msgtype dtd [] randomIDs = Some []"
| "vanilla_loop show_id send qid2dtd msgtype dtd ((querysig, qid) # queryMap) randomIDs =
     do { dtd \<leftarrow> back_of (qid2dtd qid) dtd;
          if send
          then (case randomIDs of
                  [] \<Rightarrow> None
                | ID # randomIDs \<Rightarrow>
                    do { value \<leftarrow> makeKeyValue_query (show_id ID) (show_id ID) dtd querysig qid msgtype;
                         rest \<leftarrow> vanilla_loop show_id send qid2dtd msgtype dtd queryMap randomIDs;
                         Some ((ID, value) # rest) })
          else vanilla_loop show_id send qid2dtd msgtype dtd queryMap randomIDs }"

definition vanillaquery :: "(chordID \<Rightarrow> bytes) \<Rightarrow> bool \<Rightarrow> bool \<Rightarrow> (int \<Rightarrow> bytes list option) \<Rightarrow> (polys \<times> int) list
    \<Rightarrow> InsertType \<Rightarrow> chordID list \<Rightarrow> (chordID \<times> bytes) list option" where
  "vanillaquery show_id Qflag gflag qid2dtd queryMap msgtype randomIDs =
     vanilla_loop show_id ((Qflag \<or> gflag) \<and> msgtype \<noteq> INVALID) qid2dtd msgtype [] queryMap randomIDs"

subsection \<open>Minima\<close>

definition hash_value :: "polys \<Rightarrow> polys \<Rightarrow> poly \<Rightarrow> nat \<Rightarrow> poly \<Rightarrow> poly" where
  "hash_value as bs n f s = (as ! f * s + bs ! f) mod n"

lemma fold_min: "fold (\<lambda>x v1. if x < v1 then x else v1) v a = Min (insert a (set v))" for a :: "'a :: linorder"
proof (induction v arbitrary: a)
  case (Cons x v)
  have "(if x < a then x else a) = min a x" by (auto simp: min_def)
  moreover have "Min (insert (min a x) (set v)) = Min (insert a (insert x (set v)))"
    by (cases "set v = {}") (simp_all add: min.assoc)
  ultimately show ?case using Cons by simp
qed simp

lemma isMinimum_Min: "v \<noteq> [] \<Longrightarrow> isMinimum v = Some (Min (set v))"
  by (simp add: isMinimum_def fold_min insert_absorb)

lemma min_hash_Min:
  assumes "lsh_k L = length S" "S \<noteq> []"
  shows "min_hash L S f =
    (if f < length (randa L) \<and> f < length (randb L) \<and> highest L \<noteq> 0
     then Some (Min (hash_value (randa L) (randb L) (highest L) f ` set S)) else None)"
  using assms by (simp add: min_hash_def isMinimum_Min hash_value_def [abs_def])

text \<open>Two element sets agree on a function when its minimum over both is taken at a common element.\<close>

definition common_min :: "('a \<Rightarrow> 'b :: linorder) \<Rightarrow> 'a set \<Rightarrow> 'a set \<Rightarrow> bool" where
  "common_min h A B \<longleftrightarrow> (\<exists>s \<in> A \<inter> B. \<forall>s' \<in> A \<union> B. h s \<le> h s')"

lemma common_min_Min:
  assumes "common_min h A B" "finite A" "finite B"
  shows "Min (h ` A) = Min (h ` B)"
proof -
  obtain s where s: "s \<in> A" "s \<in> B" "\<forall>s' \<in> A \<union> B. h s \<le> h s'" using assms(1) by (auto simp: common_min_def)
  have "Min (h ` A) = h s" "Min (h ` B) = h s" using s assms(2,3) by (auto intro!: Min_eqI)
  then show ?thesis by simp
qed

lemma common_min_same:
  assumes "finite A" "A \<noteq> {}"
  shows "common_min h A A"
proof -
  have "Min (h ` A) \<in> h ` A" using assms by (intro Min_in) auto
  then obtain s where s: "s \<in> A" "h s = Min (h ` A)" by auto
  then have "\<forall>s' \<in> A. h s \<le> h s'" using assms(1) by simp
  then show ?thesis using s(1) by (auto simp: common_min_def)
qed

lemma min_hashes_cong:
  "(\<And>i. i < l \<Longrightarrow> min_hash L S (f + i) = min_hash L' S' (f + i)) \<Longrightarrow> min_hashes L S f l = min_hashes L' S' f l"
proof (induction l arbitrary: f)
  case (Suc l)
  have "min_hashes L S (f + 1) l = min_hashes L' S' (f + 1) l"
    using Suc.prems [of "Suc _"] by (intro Suc.IH) simp
  then show ?case using Suc.prems [of 0] by simp
qed simp

lemma pre_hash_cong:
  assumes "\<And>f. min_hash L S f = min_hash L' S' f" "lsh_l L = lsh_l L'"
  shows "pre_hash L once S f m = pre_hash L' once S' f m"
  using min_hashes_cong [OF assms(1)] assms(2) by (cases once; induction m arbitrary: f; simp)

lemma pre_hash_nth:
  "pre_hash L False S f m = Some ts \<Longrightarrow> j < m \<Longrightarrow>
     length ts = m \<and> (\<exists>mins. min_hashes L S (f + j * lsh_l L) (lsh_l L) = Some mins \<and> ts ! j = group_text mins)"
proof (induction m arbitrary: f j ts)
  case (Suc m)
  obtain mins rest where r: "min_hashes L S f (lsh_l L) = Some mins" "pre_hash L False S (f + lsh_l L) m = Some rest"
      "ts = group_text mins # rest"
    using Suc.prems(1) by (auto simp: bind_eq_Some_conv)
  have len: "length rest = m" using Suc.IH [OF r(2), of 0] r(2) by (cases m) auto
  show ?case
  proof (cases j)
    case 0
    then show ?thesis using r len by simp
  next
    case (Suc j')
    then show ?thesis using Suc.IH [OF r(2), of j'] Suc.prems(2) r(3) len by (simp add: add.assoc)
  qed
qed simp

lemma unique_row_absent: "p \<notin> set qs \<Longrightarrow> unique_row irr p c qs = Some qs"
  by (induction qs) auto

lemma unique_row_distinct: "distinct qs \<Longrightarrow> unique_row irr p 0 qs = Some qs"
  by (induction qs) (auto simp: unique_row_absent)

lemma getUniqueSet_distinct: "distinct S \<Longrightarrow> getUniqueSet L S = Some S"
proof -
  assume "distinct S"
  then have "unique_rows irr ps S = Some S" for irr ps by (induction ps) (simp_all add: unique_row_distinct)
  then show ?thesis by (simp add: getUniqueSet_def)
qed

text \<open>What hashing comes to when the multiset step changes nothing.\<close>

lemma hash_sig_plain:
  assumes "uflag c \<longrightarrow> distinct S"
  shows "hash_sig compute_hash c col S =
    do { L \<leftarrow> new_lsh (length S) (lfuncs c) (mgroups c) (lshseed c) col (irrnums c) (hasha c) (hashb c) (rand_index c);
         ids \<leftarrow> getHashCode compute_hash L S; Some (sort ids) }"
  using assms by (cases "uflag c") (simp_all add: hash_sig_def getUniqueSet_distinct)

lemma new_lsh_fields:
  "new_lsh k l m n col irr as bs r = Some L \<Longrightarrow>
     lsh_k L = k \<and> lsh_l L = l \<and> lsh_m L = m \<and> lsh_col L = col \<and> randa L = as \<and> randb L = bs \<and> highest L = n"
  by (auto simp: new_lsh_def split: if_splits)

lemma team_texts:
  assumes "run_lsh compute_hash c S = Some T" "uflag c \<longrightarrow> distinct S"
  shows "\<exists>L ts. new_lsh (length S) (lfuncs c) (mgroups c) (lshseed c) 0 (irrnums c) (hasha c) (hashb c) (rand_index c) = Some L
    \<and> pre_hash L False S 0 (mgroups c) = Some ts \<and> T = sort (map compute_hash ts)"
proof -
  obtain L ids where L: "new_lsh (length S) (lfuncs c) (mgroups c) (lshseed c) 0 (irrnums c) (hasha c) (hashb c) (rand_index c) = Some L"
      "getHashCode compute_hash L S = Some ids" "T = sort ids"
    using assms by (auto simp: run_lsh_def hash_sig_plain bind_eq_Some_conv)
  then show ?thesis using new_lsh_fields [OF L(1)] by (auto simp: getHashCode_def)
qed

subsection \<open>Messages to teams\<close>

lemma make_team_ids:
  assumes "0 < n" "is_id tid"
  shows "\<exists>ix team. make_team n myID tid = Some (ix, team) \<and> length team = n \<and> team ! 0 = tid
    \<and> (\<forall>x \<in> set team. is_id x)"
proof -
  have "team_member n tid 0 = tid" using assms(2) by (simp add: team_member_def is_id_def)
  moreover have "is_id (team_member n tid i)" for i by (simp add: team_member_def is_id_def)
  ultimately show ?thesis using make_team_members [OF assms, of myID] assms(1) by fastforce
qed

lemma hash_sig_ids:
  assumes "hash_sig compute_hash c col S = Some ids" "\<And>t. is_id (compute_hash t)"
  shows "\<forall>x \<in> set ids. is_id x"
  using assms by (auto simp: hash_sig_def getHashCode_def bind_eq_Some_conv)

definition sent_to :: "nat \<Rightarrow> (chordID \<Rightarrow> bytes) \<Rightarrow> (bytes \<Rightarrow> bytes \<Rightarrow> bytes \<Rightarrow> bool) \<Rightarrow> chordID \<Rightarrow> chordID \<times> bytes \<Rightarrow> bool" where
  "sent_to n show_id P tid msg \<longleftrightarrow>
     (\<exists>ix team. make_team n 0 tid = Some (ix, team) \<and> fst msg \<in> set team \<and> P (show_id (fst msg)) (show_id tid) (snd msg))"

lemma send_teams_spec:
  assumes "\<And>a b. is_id a \<Longrightarrow> is_id b \<Longrightarrow> \<exists>m. mk (show_id a) (show_id b) = Some m \<and> P (show_id a) (show_id b) m" "0 < n"
  shows "\<forall>x \<in> set ids. is_id x \<Longrightarrow> length ids \<le> length rands \<Longrightarrow> (\<forall>r \<in> set rands. r < n) \<Longrightarrow>
    \<exists>msgs. send_teams show_id n mk ids rands = Some (msgs, drop (length ids) rands)
      \<and> list_all2 (sent_to n show_id P) ids msgs"
proof (induction ids arbitrary: rands)
  case (Cons tid ids)
  then obtain r rs where r: "rands = r # rs" "r < n" by (cases rands) auto
  have tid: "is_id tid" using Cons.prems(1) by simp
  obtain ix team where t: "make_team n 0 tid = Some (ix, team)" "length team = n" "\<forall>x \<in> set team. is_id x" "team ! 0 = tid"
    using make_team_ids [OF assms(2) tid] by blast
  have mem: "team ! r \<in> set team" using r(2) t(2) by simp
  obtain m where m: "mk (show_id (team ! r)) (show_id tid) = Some m" "P (show_id (team ! r)) (show_id tid) m"
    using assms(1) tid mem t(3) by blast
  obtain msgs where ih: "send_teams show_id n mk ids rs = Some (msgs, drop (length ids) rs)"
      "list_all2 (sent_to n show_id P) ids msgs" using Cons.IH [of rs] Cons.prems r by auto
  have "send_teams show_id n mk (tid # ids) rands = Some ((team ! r, m) # msgs, drop (length (tid # ids)) rands)"
    using r t(1,2,4) m(1) ih(1) by simp
  moreover have "sent_to n show_id P tid (team ! r, m)"
    unfolding sent_to_def fst_conv snd_conv using t(1) m(2) mem by blast
  ultimately show ?case using ih(2) by auto
qed simp

definition init_received :: "('d \<Rightarrow> 64 word) \<Rightarrow> InsertType \<Rightarrow> sig \<times> 'd \<times> 'd \<Rightarrow> bytes \<Rightarrow> bytes \<Rightarrow> bytes \<Rightarrow> bool" where
  "init_received to_bits type e key teamid m \<longleftrightarrow>
     (case e of (s, f, w) \<Rightarrow> received getKeyValue_init type m (key, teamid, polys s, to_bits f, to_bits w))"

lemma list_all2_map_Pair: "list_all2 P (map (Pair e) ids) ms \<longleftrightarrow> list_all2 (\<lambda>i m. P (e, i) m) ids ms"
  by (simp add: list_all2_map1)

lemma lshsig_loop_spec:
  assumes "0 < n" "\<And>t. is_id (compute_hash t)" "\<forall>r \<in> set rands. r < n"
    and "\<forall>e \<in> set entries. \<forall>a b. is_id a \<and> is_id b \<longrightarrow> init_len (show_id a) (show_id b) (polys (fst e)) < 2 ^ 31"
    and "\<forall>e \<in> set entries. hash_sig compute_hash c col (polys (fst e)) = Some (ids e)"
    and "(\<Sum>e \<leftarrow> entries. length (ids e)) \<le> length rands"
  shows "\<exists>msgs. lshsig_loop show_id compute_hash to_bits c n True type col entries rands = Some msgs
    \<and> list_all2 (\<lambda>(e, tid). sent_to n show_id (init_received to_bits type e) tid)
        (concat (map (\<lambda>e. map (Pair e) (ids e)) entries)) msgs"
  using assms(3-)
proof (induction entries arbitrary: rands)
  case (Cons e entries)
  obtain s f w where e: "e = (s, f, w)" by (cases e)
  let ?mk = "\<lambda>key teamID. makeKeyValue_init key teamID (polys s) (to_bits f) (to_bits w) type"
  have mk: "\<exists>m. ?mk (show_id a) (show_id b) = Some m \<and> init_received to_bits type e (show_id a) (show_id b) m" if "is_id a" "is_id b" for a b
    using that init_message_received [of "show_id a" "show_id b" "polys s" "to_bits f" "to_bits w" type] Cons.prems(2)
    unfolding init_received_def by (auto simp: e)
  have i: "\<forall>x \<in> set (ids e). is_id x" using hash_sig_ids [OF _ assms(2)] Cons.prems(3) by auto
  obtain msgs where m: "send_teams show_id n ?mk (ids e) rands = Some (msgs, drop (length (ids e)) rands)"
      "list_all2 (sent_to n show_id (init_received to_bits type e)) (ids e) msgs"
    using send_teams_spec [of ?mk show_id "init_received to_bits type e" n "ids e" rands, OF mk assms(1) i] Cons.prems(1,4) by auto
  obtain rest where r: "lshsig_loop show_id compute_hash to_bits c n True type col entries (drop (length (ids e)) rands) = Some rest"
      "list_all2 (\<lambda>(e, tid). sent_to n show_id (init_received to_bits type e) tid)
        (concat (map (\<lambda>e. map (Pair e) (ids e)) entries)) rest"
  proof -
    have "\<forall>r \<in> set (drop (length (ids e)) rands). r < n" using Cons.prems(1) by (meson in_set_dropD)
    moreover have "(\<Sum>e \<leftarrow> entries. length (ids e)) \<le> length (drop (length (ids e)) rands)" using Cons.prems(4) by simp
    ultimately show thesis using that Cons.IH [of "drop (length (ids e)) rands"] Cons.prems(2,3) by auto
  qed
  have "lshsig_loop show_id compute_hash to_bits c n True type col (e # entries) rands = Some (msgs @ rest)"
    using m(1) r(1) Cons.prems(3) by (simp add: e)
  moreover have "list_all2 (\<lambda>(e, tid). sent_to n show_id (init_received to_bits type e) tid)
      (concat (map (\<lambda>e. map (Pair e) (ids e)) (e # entries))) (msgs @ rest)"
    using m(2) r(2) by (auto simp: list_all2_map_Pair intro!: list_all2_appendI)
  ultimately show ?case by blast
qed simp

subsection \<open>Properties\<close>

text \<open>
  C27: the teams of a signature depend only on the set of its elements. Signatures with the same elements, in any
  order and with any multiplicities, get the same teams (with the multiset conversion off, or both free of duplicates).
\<close>

theorem teams_depend_on_set:
  assumes "set S = set S'" "S \<noteq> []" "uflag c \<longrightarrow> distinct S \<and> distinct S'"
  shows "hash_sig compute_hash c col S = hash_sig compute_hash c col S'"
proof -
  have ne: "S' \<noteq> []" using assms(1,2) by auto
  let ?new = "\<lambda>k. new_lsh k (lfuncs c) (mgroups c) (lshseed c) col (irrnums c) (hasha c) (hashb c) (rand_index c)"
  show ?thesis
  proof (cases "?new (length S)")
    case None
    then have "?new (length S') = None" by (auto simp: new_lsh_def split: if_splits)
    then show ?thesis using None assms(3) by (simp add: hash_sig_plain)
  next
    case (Some L)
    then obtain L' where L': "?new (length S') = Some L'" by (auto simp: new_lsh_def split: if_splits)
    note f = new_lsh_fields [OF Some] new_lsh_fields [OF L']
    have "min_hash L S i = min_hash L' S' i" for i
      using f assms(1) by (simp add: min_hash_Min assms(2) ne)
    then have "pre_hash L once S i m = pre_hash L' once S' i m" for once i m
      using f by (intro pre_hash_cong) simp_all
    then show ?thesis using Some L' f assms(3) by (simp add: hash_sig_plain getHashCode_def)
  qed
qed

definition sample_config :: lsh_config where
  "sample_config = \<lparr>lfuncs = 2, mgroups = 2, lshseed = 101, irrnums = [2, 3], hasha = [3, 5, 7, 11], hashb = [1, 2, 3, 4],
     uflag = False, rand_index = 0\<rparr>"

theorem teams_depend_on_set_witness:
  "hash_sig (\<lambda>t. int (length t)) sample_config 0 [4, 9, 4] = hash_sig (\<lambda>t. int (length t)) sample_config 0 [9, 4]"
  by (rule teams_depend_on_set) (auto simp: sample_config_def)

text \<open>
  C26: signatures that share their minima share a team. When, for every function of one group, the least hash value over
  the elements of both signatures belongs to a common element, the two lists of teams have an identifier in common.
  The signatures are not empty, hashing succeeds for both, and the multiset conversion is off or both are free of
  duplicates.
\<close>

theorem teams_shared:
  assumes "run_lsh compute_hash c S = Some T" "run_lsh compute_hash c S' = Some T'" "S \<noteq> []" "S' \<noteq> []"
    and "uflag c \<longrightarrow> distinct S \<and> distinct S'" "j < mgroups c"
    and "\<forall>i < lfuncs c. common_min (hash_value (hasha c) (hashb c) (lshseed c) (j * lfuncs c + i)) (set S) (set S')"
  shows "set T \<inter> set T' \<noteq> {}"
proof -
  let ?new = "\<lambda>k. new_lsh k (lfuncs c) (mgroups c) (lshseed c) 0 (irrnums c) (hasha c) (hashb c) (rand_index c)"
  obtain L ts where L: "?new (length S) = Some L" "pre_hash L False S 0 (mgroups c) = Some ts" "T = sort (map compute_hash ts)"
    using team_texts [OF assms(1)] assms(5) by auto
  obtain L' ts' where L': "?new (length S') = Some L'" "pre_hash L' False S' 0 (mgroups c) = Some ts'" "T' = sort (map compute_hash ts')"
    using team_texts [OF assms(2)] assms(5) by auto
  note f = new_lsh_fields [OF L(1)] new_lsh_fields [OF L'(1)]
  obtain mins where m: "length ts = mgroups c" "min_hashes L S (j * lfuncs c) (lfuncs c) = Some mins" "ts ! j = group_text mins"
    using pre_hash_nth [OF L(2) assms(6)] f by auto
  obtain mins' where m': "length ts' = mgroups c" "min_hashes L' S' (j * lfuncs c) (lfuncs c) = Some mins'" "ts' ! j = group_text mins'"
    using pre_hash_nth [OF L'(2) assms(6)] f by auto
  have "min_hash L S (j * lfuncs c + i) = min_hash L' S' (j * lfuncs c + i)" if "i < lfuncs c" for i
    using common_min_Min [of "hash_value (hasha c) (hashb c) (lshseed c) (j * lfuncs c + i)" "set S" "set S'"] assms(7) that f
    by (simp add: min_hash_Min assms(3,4))
  then have "ts ! j = ts' ! j" using min_hashes_cong [of "lfuncs c" L S "j * lfuncs c" L' S'] m m' by simp
  then have "compute_hash (ts ! j) \<in> set T" "compute_hash (ts ! j) \<in> set T'"
    using L(3) L'(3) m(1) m'(1) assms(6) by (auto intro!: imageI nth_mem) (metis imageI nth_mem)
  then show ?thesis by blast
qed

theorem teams_shared_witness:
  "\<exists>T T'. run_lsh (\<lambda>t. int (length t)) sample_config [4, 9] = Some T
     \<and> run_lsh (\<lambda>t. int (length t)) sample_config [4, 12] = Some T' \<and> set T \<inter> set T' \<noteq> {}"
proof -
  have T: "run_lsh (\<lambda>t. int (length t)) sample_config [4, 9] = Some [3, 4]"
    "run_lsh (\<lambda>t. int (length t)) sample_config [4, 12] = Some [4, 4]" by code_simp+
  have "common_min (hash_value [3, 5, 7, 11] [1, 2, 3, 4] 101 0) (set [4, 9]) (set [4, 12])"
    "common_min (hash_value [3, 5, 7, 11] [1, 2, 3, 4] 101 1) (set [4, 9]) (set [4, 12])" by code_simp+
  then have "\<forall>i < lfuncs sample_config. common_min (hash_value (hasha sample_config) (hashb sample_config) (lshseed sample_config)
      (0 * lfuncs sample_config + i)) (set [4, 9]) (set [4, 12])"
    by (auto simp: sample_config_def less_2_cases_iff)
  then have "set [3, 4] \<inter> set [4, 4 :: int] \<noteq> {}"
    by (intro teams_shared [OF T, of 0]) (auto simp: sample_config_def)
  with T show ?thesis by blast
qed

text \<open>
  C28: \<^verbatim>\<open>lshsig\<close> announces every signature to all its teams. For each entry of the list, in order, and each of its team
  identifiers one message goes to a member of that team, and a peer that receives it reads the key, the team, the
  signature, the frequency and the weight of the entry. It is called for an existing list with a positive team size, in
  a mode that sends and with a valid message type; hashing succeeds for every entry and hashes are identifiers of 160
  bits; there is a random number below the team size for every message; and for all identifiers of the circle the message
  of an entry stays below 2 ^ 31 bytes.
\<close>

theorem lshsig_announces:
  fixes list :: "'d sigmap"
  assumes "0 < teamsize" "listnum < length ts" "ts ! listnum = list" "Qflag \<or> gflag" "type \<noteq> INVALID"
    and "\<forall>t. is_id (compute_hash t)"
    and "\<forall>e \<in> set list. \<forall>a b. is_id a \<and> is_id b \<longrightarrow> init_len (show_id a) (show_id b) (polys (fst e)) < 2 ^ 31"
    and "\<forall>e \<in> set list. hash_sig compute_hash c col (polys (fst e)) = Some (ids e)"
    and "\<forall>r \<in> set rands. r < teamsize" "(\<Sum>e \<leftarrow> list. length (ids e)) \<le> length rands"
  shows "\<exists>msgs. lshsig show_id compute_hash to_bits c teamsize Qflag gflag ts type listnum col rands = Some msgs
    \<and> list_all2 (\<lambda>((s, f, w), tid) (ID, m). \<exists>ix team. make_team teamsize 0 tid = Some (ix, team) \<and> ID \<in> set team
          \<and> received getKeyValue_init type m (show_id ID, show_id tid, polys s, to_bits f, to_bits w))
        (concat (map (\<lambda>e. map (Pair e) (ids e)) list)) msgs"
proof -
  obtain msgs where m: "lshsig_loop show_id compute_hash to_bits c teamsize True type col list rands = Some msgs"
      "list_all2 (\<lambda>(e, tid). sent_to teamsize show_id (init_received to_bits type e) tid)
        (concat (map (\<lambda>e. map (Pair e) (ids e)) list)) msgs"
    using lshsig_loop_spec [OF assms(1) spec [OF assms(6)] assms(9,7,8,10)] by blast
  have "list_all2 (\<lambda>((s, f, w), tid) (ID, m). \<exists>ix team. make_team teamsize 0 tid = Some (ix, team) \<and> ID \<in> set team
          \<and> received getKeyValue_init type m (show_id ID, show_id tid, polys s, to_bits f, to_bits w))
        (concat (map (\<lambda>e. map (Pair e) (ids e)) list)) msgs"
    using m(2) by (rule list_all2_mono) (auto simp: sent_to_def init_received_def)
  moreover have "lshsig show_id compute_hash to_bits c teamsize Qflag gflag ts type listnum col rands = Some msgs"
    unfolding lshsig_def using assms(2-5) m(1) by simp
  ultimately show ?thesis by blast
qed

theorem lshsig_announces_witness:
  "\<exists>msgs. lshsig (\<lambda>a. hex_text (nat a)) (\<lambda>t. int (length t) mod 2 ^ 160) of_nat sample_config 3 False True
      [[(Sig [4, 9], 2 :: nat, 1)]] INITGOSSIP 0 0 [0, 2] = Some msgs \<and> length msgs = 2"
proof -
  have "hash_sig (\<lambda>t. int (length t) mod 2 ^ 160) sample_config 0 [4, 9] = Some [3, 4]" by code_simp
  moreover have "is_id (int (length t) mod 2 ^ 160)" for t :: bytes
    by (simp add: is_id_def ring_def NBIT_def del: two_NBIT)
  moreover have "init_len (hex_text (nat a)) (hex_text (nat b)) [4, 9] < 2 ^ 31" if "is_id a" "is_id b" for a b
    using hex_text_id [OF that(1)] hex_text_id [OF that(2)] by (simp add: init_len_def)
  ultimately show ?thesis
    using lshsig_announces [of 3 0 "[[(Sig [4, 9], 2, 1)]]" "[(Sig [4, 9], 2, 1)]" False True INITGOSSIP
        "\<lambda>t. int (length t) mod 2 ^ 160" "\<lambda>a. hex_text (nat a)" sample_config 0 "\<lambda>e. [3, 4]" "[0, 2]" of_nat]
    by (auto dest!: list_all2_lengthD)
qed

subsection \<open>Where hashing goes astray\<close>

text \<open>The conversion of a multiset into a set keeps only the first word of a product, so copies may stay equal.\<close>

theorem getUniqueSet_keeps_duplicates:
  "getUniqueSet \<lparr>lsh_k = 3, lsh_l = 1, lsh_m = 1, lsh_col = 0, selected_poly = 2, lsh_irrnums = [2, 3],
     randa = [1], randb = [1], highest = 7\<rparr> [0x80000000, 0x80000000, 0x80000000] = Some [0x80000000, 1, 1]"
  by code_simp

text \<open>The minima of a group are printed without a separator, so different minima may give one text.\<close>

theorem group_text_ambiguous: "group_text [1, 23] = group_text [12, 3]"
  by code_simp

end
