(* ===== verification/Index_Node.thy ===== *)
theory Index_Node
  imports Polynomials Payloads Chord_ID Dht_Client
begin

text \<open>
  Index nodes in the DHT: the similarity of signatures and the choice of a child (\<^verbatim>\<open>utils/utils.C\<close>), the update of a
  stored node and the hand-over of gossip messages (\<^verbatim>\<open>dhash/dhblock_noauth_srv.C\<close>), and the filter that a node
  applies before it answers a query (\<^verbatim>\<open>executeFilter\<close> of \<^verbatim>\<open>dhash/client.C\<close>). A node is the vector of its elements,
  a header with a type and an interval followed by entries of a key and a signature. The XDR form of such a
  vector is given by the parameters \<open>marshal\<close> and \<open>payload\<close>, the hash of the library by \<open>compute_hash\<close>.
  \<open>None\<close> is undefined behaviour: an access out of range, signed overflow, a failed assertion or a loop without
  end.
\<close>

subsection \<open>Similarity of signatures\<close>

definition updateMBR :: "polys \<Rightarrow> polys \<Rightarrow> polys option" where
  "updateMBR src e =
     (if 2 \<le> length src \<and> 2 \<le> length e
      then (let src = (if e ! 0 < src ! 0 then src[0 := e ! 0] else src);
                src = (if e ! 1 > src ! 1 then src[1 := e ! 1] else src)
            in Some src)
      else None)"

definition enlargement :: "polys \<Rightarrow> polys \<Rightarrow> int option" where
  "enlargement entrySig sig =
     do { myMBR \<leftarrow> updateMBR entrySig sig;
          Some (sint ((myMBR ! 1 - myMBR ! 0) - (entrySig ! 1 - entrySig ! 0))) }"

text \<open>The score is computed in \<^verbatim>\<open>double\<close> and truncated; for degrees below \<open>2 ^ 21\<close> the rounding never reaches an
  integer, so this is integer division.\<close>

definition score :: "int \<Rightarrow> int \<Rightarrow> int option" where
  "score degg degl =
     (if degl = 0 then None
      else (let val = sgn degg * sgn degl * (2147483646 * \<bar>degg\<bar> div \<bar>degl\<bar>)
            in if int32 val then Some val else None))"

definition pSim :: "polys \<Rightarrow> polys \<Rightarrow> polys \<Rightarrow> bool \<Rightarrow> int option" where
  "pSim s1 s2 mygcd isMetric =
     (if isMetric
      then do { mylcm \<leftarrow> lcm_poly [1] s1;
                mylcm \<leftarrow> lcm_poly mylcm s2;
                degg \<leftarrow> getDegrees mygcd;
                degl \<leftarrow> getDegrees mylcm;
                score degg degl }
      else getDegrees mygcd)"

definition lcmSpecial :: "polys \<Rightarrow> polys \<Rightarrow> polys \<Rightarrow> polys option" where
  "lcmSpecial t s g =
     (if length t = 1 \<and> length s = 1 \<and> t ! 0 = 1 \<and> s ! 0 = 1 then Some t
      else do { degs \<leftarrow> getDegrees s;
                degg \<leftarrow> getDegrees g;
                q \<leftarrow> (if degs \<ge> degg then quotient s g else quotient g s);
                multiplyPoly [] t q })"

text \<open>The first signature is overwritten by the least common multiple.\<close>

definition pSimOpt :: "polys \<Rightarrow> polys \<Rightarrow> polys \<Rightarrow> bool \<Rightarrow> (int \<times> polys) option" where
  "pSimOpt s1 s2 mygcd isMetric =
     (if isMetric
      then do { s1 \<leftarrow> lcmSpecial s1 s2 mygcd;
                degg \<leftarrow> getDegrees mygcd;
                degl \<leftarrow> getDegrees s1;
                v \<leftarrow> score degg degl;
                Some (v, s1) }
      else do { v \<leftarrow> getDegrees mygcd; Some (v, s1) })"

definition null_child :: bytes where
  "null_child = [78, 85, 76, 76]"

text \<open>State of the scan: best value so far, the degree of its signature, its key.\<close>

fun pick_loop :: "polys \<Rightarrow> bool \<Rightarrow> bytes list \<Rightarrow> int \<times> int \<times> bytes \<Rightarrow> bytes option" where
  "pick_loop sig ismetric [] (maxGCDDegree, bestDeg, bestChild) = Some bestChild"
| "pick_loop sig ismetric (e # es) (maxGCDDegree, bestDeg, bestChild) =
     do { (childKey, entrySig) \<leftarrow> getKeyValue_sig e;
          sigDegree \<leftarrow> getDegrees entrySig;
          gcdPoly \<leftarrow> gcdSpecial entrySig sig;
          deg \<leftarrow> pSim entrySig sig gcdPoly ismetric;
          pick_loop sig ismetric es
            (if deg > maxGCDDegree then (deg, sigDegree, childKey)
             else if deg = maxGCDDegree \<and> sigDegree < bestDeg then (maxGCDDegree, sigDegree, childKey)
             else (maxGCDDegree, bestDeg, bestChild)) }"

definition pickChild :: "bytes list \<Rightarrow> polys \<Rightarrow> bool \<Rightarrow> bytes option" where
  "pickChild entries sig ismetric = pick_loop sig ismetric (drop 1 entries) (-1, -1, null_child)"

fun pickV_loop :: "polys \<Rightarrow> bytes list \<Rightarrow> int \<times> poly \<times> bytes \<Rightarrow> bytes option" where
  "pickV_loop sig [] (mx, bestChildSize, bestChild) = Some bestChild"
| "pickV_loop sig (en # es) (mx, bestChildSize, bestChild) =
     do { (childKey, entrySig) \<leftarrow> getKeyValue_sig en;
          e \<leftarrow> enlargement entrySig sig;
          let size = entrySig ! 1 - entrySig ! 0;
          pickV_loop sig es
            (if e > mx then (e, size, childKey)
             else if e = mx \<and> size < bestChildSize then (mx, size, childKey)
             else (mx, bestChildSize, bestChild)) }"

definition pickChildV :: "bytes list \<Rightarrow> polys \<Rightarrow> bytes option" where
  "pickChildV entries sig = pickV_loop sig (drop 1 entries) (-1, 0, null_child)"

subsection \<open>Storing\<close>

definition MAXENTRIES :: nat where
  "MAXENTRIES = 500"

definition MAXSIGSPERQUERY :: nat where
  "MAXSIGSPERQUERY = 50"

definition Interval_eq :: "Interval \<Rightarrow> Interval \<Rightarrow> bool" where
  "Interval_eq i t \<longleftrightarrow> ln i = ln t \<and> ld i = ld t \<and> rn i = rn t \<and> rd' i = rd' t \<and> level i = level t"

definition mhashdata :: "bytes \<Rightarrow> poly option" where
  "mhashdata data = map_option (\<lambda>ds. fold (\<lambda>d h. h XOR d) ds 0) (rd_list data 0 (length data div 4))"

text \<open>The hash table of \<^verbatim>\<open>merge_data\<close> holds the hashes of the old elements only.\<close>

definition merge_data :: "(bytes \<Rightarrow> chordID) \<Rightarrow> (bytes list \<Rightarrow> bytes) \<Rightarrow> (bytes \<Rightarrow> bytes list) \<Rightarrow> bytes \<Rightarrow> bytes \<Rightarrow> bytes" where
  "merge_data compute_hash marshal payload new_data prev_data =
     (let new_elems = payload new_data;
          old_elems = (if prev_data \<noteq> [] then payload prev_data else []);
          old_hashes = map compute_hash old_elems;
          merged = old_elems @ filter (\<lambda>e. compute_hash e \<notin> set old_hashes) new_elems
      in if length merged = length old_elems then prev_data else marshal merged)"

definition header_of :: "bytes \<Rightarrow> (bytes \<times> Interval) option" where
  "header_of elem = do { (currKey, currValue) \<leftarrow> getKeyValue_strs elem; currInt \<leftarrow> getInterval currValue; Some (currKey, currInt) }"

text \<open>A product of two \<^verbatim>\<open>int\<close>s.\<close>

definition int_mult :: "int \<Rightarrow> int \<Rightarrow> int option" where
  "int_mult a b = (if int32 (a * b) then Some (a * b) else None)"

definition narrower :: "Interval \<Rightarrow> Interval \<Rightarrow> bool option" where
  "narrower newInt currInt =
     do { a \<leftarrow> int_mult (rn newInt) (rd' currInt); b \<leftarrow> int_mult (rd' newInt) (rn currInt); Some (a < b) }"

paragraph \<open>Merging replicas\<close>

primrec merge_into :: "bytes \<Rightarrow> polys \<Rightarrow> bytes list \<Rightarrow> (bytes list \<times> bool) option" where
  "merge_into newKey newSig [] = Some ([], False)"
| "merge_into newKey newSig (e # es) =
     do { (oldKey, oldSig) \<leftarrow> getKeyValue_sig e;
          if newKey = oldKey
          then do { oldSig \<leftarrow> lcm_poly oldSig newSig;
                    value \<leftarrow> makeKeyValue_sig oldKey oldSig NONE;
                    Some (value # es, True) }
          else do { (es, found) \<leftarrow> merge_into newKey newSig es; Some (e # es, found) } }"

primrec merge_entries :: "bytes list \<Rightarrow> bytes list \<Rightarrow> bytes list option" where
  "merge_entries old_elems [] = Some old_elems"
| "merge_entries old_elems (n # ns) =
     do { (newKey, newSig) \<leftarrow> getKeyValue_sig n;
          (es, found) \<leftarrow> merge_into newKey newSig (tl old_elems);
          let old_elems = hd old_elems # es;
          merge_entries
            (if \<not> found \<and> length old_elems \<le> MAXENTRIES then old_elems @ [n] else old_elems) ns }"

definition merge_node :: "bytes list \<Rightarrow> bytes list \<Rightarrow> bytes list option" where
  "merge_node old_elems new_elems =
     (if old_elems = [] then Some new_elems
      else do { (currKey, currInt) \<leftarrow> header_of (old_elems ! 0);
                (newKey, newInt) \<leftarrow> header_of (new_elems ! 0);
                if Interval_eq newInt currInt then merge_entries old_elems (tl new_elems)
                else do { nr \<leftarrow> narrower newInt currInt;
                          if nr \<and> level newInt = level currInt then Some new_elems
                          else if level newInt > level currInt then Some new_elems
                          else None } })"

paragraph \<open>Updating an entry\<close>

definition combine :: "int \<Rightarrow> polys \<Rightarrow> polys \<Rightarrow> polys option" where
  "combine type childSig newSig =
     (if type = InsertType_code UPDATE \<or> type = InsertType_code UPDATEIFPRESENT then lcm_poly childSig newSig
      else if type = InsertType_code UPDATEVAL \<or> type = InsertType_code UPDATEVALIFPRESENT then updateMBR childSig newSig
      else if type = InsertType_code REPLACESIG then Some newSig
      else None)"

primrec update_entries :: "int \<Rightarrow> bytes \<Rightarrow> polys \<Rightarrow> bytes list \<Rightarrow> (bytes list \<times> bool) option" where
  "update_entries type newKey newSig [] = Some ([], False)"
| "update_entries type newKey newSig (e # es) =
     do { (childKey, childSig) \<leftarrow> getKeyValue_sig e;
          (e, hit) \<leftarrow> (if childKey = newKey
                       then do { childSig \<leftarrow> combine type childSig newSig;
                                 value \<leftarrow> makeKeyValue_sig childKey childSig NONE;
                                 Some (value, True) }
                       else Some (e, False));
          (es, isUpdate) \<leftarrow> update_entries type newKey newSig es;
          Some (e # es, hit \<or> isUpdate) }"

text \<open>\<^verbatim>\<open>strstr (key, "#")\<close>, on the text up to the first zero byte.\<close>

definition has_mark :: "bytes \<Rightarrow> bool" where
  "has_mark key \<longleftrightarrow> 0x23 \<in> set (takeWhile (\<lambda>c. c \<noteq> 0) key)"

definition update_node :: "int \<Rightarrow> bytes \<Rightarrow> bytes list \<Rightarrow> (dhash_stat \<times> bytes list) option" where
  "update_node type newElem old_elems =
     (if old_elems = [] then Some (DHASH_CORRUPTHDR, [])
      else do { (newKey, newSig) \<leftarrow> getKeyValue_sig newElem;
                (currKey, currInt) \<leftarrow> header_of (old_elems ! 0);
                if level currInt > 0 \<and> has_mark newKey then Some (DHASH_RETRYINSERT, old_elems)
                else if level currInt = 0 \<and> has_mark newKey \<and> random currInt = -1 then Some (DHASH_RETRYINSERT, old_elems)
                else do { (es, isUpdate) \<leftarrow> update_entries type newKey newSig (tl old_elems);
                          let old_elems = hd old_elems # es;
                          Some (if \<not> isUpdate \<and> type \<noteq> InsertType_code UPDATEIFPRESENT
                                then if length old_elems > MAXENTRIES then (DHASH_FULL, old_elems)
                                     else (DHASH_OK, old_elems @ [newElem])
                                else (DHASH_OK, old_elems)) } })"

paragraph \<open>Updating the header\<close>

definition new_header :: "(bytes \<Rightarrow> chordID) \<Rightarrow> bytes \<Rightarrow> Interval \<Rightarrow> Interval \<Rightarrow> Interval option" where
  "new_header compute_hash currKey currInt newInt =
     do { nr \<leftarrow> narrower newInt currInt;
          let currInt = (if nr then currInt\<lparr>rn := rn newInt, rd' := rd' newInt\<rparr> else currInt);
          let nodeType = snd (str2chordID currKey 0);
          if nodeType = compute_hash [110, 111, 100, 101, 46, 114, 111, 111, 116]
          then (let currInt = (if level currInt = 0 \<and> level newInt = 1 \<and> random currInt = -1
                               then currInt\<lparr>random := random newInt\<rparr> else currInt);
                    currInt = (if level currInt < level newInt then currInt\<lparr>level := level newInt\<rparr> else currInt)
                in Some (if level newInt = level currInt \<and> level currInt = 0 \<and> random newInt = -1
                         then currInt\<lparr>random := random newInt\<rparr> else currInt))
          else Some currInt }"

definition update_header :: "(bytes \<Rightarrow> chordID) \<Rightarrow> int \<Rightarrow> bytes \<Rightarrow> bytes list \<Rightarrow> (dhash_stat \<times> bytes list) option" where
  "update_header compute_hash type newElem old_elems =
     (if type = InsertType_code UPDATEHDRLOCK \<and> old_elems = [] then Some (DHASH_OK, [newElem])
      else if type = InsertType_code UPDATEHDR \<and> old_elems = [] then Some (DHASH_RETRYINSERT, old_elems)
      else do { (currKey, currInt) \<leftarrow> header_of (old_elems ! 0);
                (newKey, newInt) \<leftarrow> header_of newElem;
                if type = InsertType_code UPDATEHDRLOCK then Some (DHASH_NOTFIRST, old_elems)
                else if ld newInt = ld currInt \<and> ln newInt = ln currInt
                then do { currInt \<leftarrow> new_header compute_hash currKey currInt newInt;
                          hdr \<leftarrow> makeKeyValue_interval_notype currKey currInt;
                          Some (DHASH_OK, old_elems[0 := hdr]) }
                else Some (DHASH_CORRUPTHDR, old_elems) })"

paragraph \<open>Splitting\<close>

text \<open>Is the key among those listed? The list is walked by the lengths it holds, which may be negative.\<close>

partial_function (option) listed :: "bytes \<Rightarrow> bytes \<Rightarrow> int \<Rightarrow> bool option" where
  "listed childKey newElem p =
     (if p < int (length newElem)
      then do { entryLen \<leftarrow> rd_int newElem p;
                (keyToDelete, _) \<leftarrow> get_sized newElem (p + 4);
                if childKey = keyToDelete then Some True else listed childKey newElem (p + 4 + entryLen) }
      else Some False)"

partial_function (option) listed_entries :: "bytes \<Rightarrow> int \<Rightarrow> bytes list option" where
  "listed_entries newElem p =
     (if p < int (length newElem)
      then do { (entryToAdd, q) \<leftarrow> get_sized newElem p;
                es \<leftarrow> listed_entries newElem q;
                Some (entryToAdd # es) }
      else Some [])"

primrec keep_unlisted :: "bytes \<Rightarrow> bytes list \<Rightarrow> bytes list option" where
  "keep_unlisted newElem [] = Some []"
| "keep_unlisted newElem (e # es) =
     do { (childKey, childSigStr) \<leftarrow> getKeyValue_ptrs e;
          isPresent \<leftarrow> listed childKey newElem 0;
          es \<leftarrow> keep_unlisted newElem es;
          Some (if isPresent then es else e # es) }"

definition split_node :: "bytes \<Rightarrow> bytes list \<Rightarrow> bytes list option" where
  "split_node newElem old_elems =
     (if length old_elems > MAXENTRIES
      then do { es \<leftarrow> keep_unlisted newElem (tl old_elems); Some (hd old_elems # es) }
      else if length old_elems = 1 then do { es \<leftarrow> listed_entries newElem 0; Some (old_elems @ es) }
      else Some old_elems)"

paragraph \<open>The whole adjustment\<close>

record adjusted =
  resStatus :: dhash_stat
  adj_data :: bytes
  forwarded :: "bytes option"

definition is_gossip :: "int \<Rightarrow> bool" where
  "is_gossip msgtype \<longleftrightarrow> msgtype \<in> InsertType_code ` {VXGOSSIP, VXGOSSIPC, XGOSSIP, XGOSSIPC, BCAST, BCASTC, INITGOSSIP,
     INFORMTEAM, QUERYS, QUERYX, QUERYXP}"

definition updates_entry :: "int \<Rightarrow> bool" where
  "updates_entry type \<longleftrightarrow> type \<in> InsertType_code ` {UPDATE, UPDATEIFPRESENT, UPDATEVAL, UPDATEVALIFPRESENT, REPLACESIG}"

definition adjust_elem :: "(bytes \<Rightarrow> chordID) \<Rightarrow> bytes \<Rightarrow> bytes list \<Rightarrow> (dhash_stat \<times> bytes list) option" where
  "adjust_elem compute_hash new_elem old_elems =
     do { type \<leftarrow> rd_int new_elem 0;
          let newElem = drop 4 new_elem;
          if updates_entry type
          then update_node type newElem old_elems
          else if type = InsertType_code UPDATEHDRLOCK \<or> type = InsertType_code UPDATEHDR
          then update_header compute_hash type newElem old_elems
          else if type = InsertType_code SPLIT then map_option (Pair DHASH_OK) (split_node newElem old_elems)
          else if type = InsertType_code JUSTAPPEND
          then Some (if old_elems = [] then (DHASH_CORRUPTHDR, old_elems) else (DHASH_OK, old_elems @ [newElem]))
          else if type > 0
          then Some (if length old_elems > MAXENTRIES then (DHASH_FULL, old_elems) else (DHASH_OK, old_elems @ [new_elem]))
          else Some (DHASH_OK, old_elems) }"

text \<open>\<open>gdiscard\<close> simulates churn; \<open>isconn\<close> says that the socket of the gossip process could be opened, over
  which the element is then written.\<close>

definition adjust_data :: "(bytes \<Rightarrow> chordID) \<Rightarrow> (bytes list \<Rightarrow> bytes) \<Rightarrow> (bytes \<Rightarrow> bytes list) \<Rightarrow> bool \<Rightarrow> bool
    \<Rightarrow> bytes \<Rightarrow> bytes \<Rightarrow> adjusted option" where
  "adjust_data compute_hash marshal payload gdiscard isconn new_data prev_data =
     (let old_elems = (if prev_data \<noteq> [] then payload prev_data else []);
          new_elems = payload new_data
      in if new_elems = [] then None
         else do { msgtype \<leftarrow> rd_int (new_elems ! 0) 0;
                   if is_gossip msgtype
                   then Some (if gdiscard \<or> \<not> isconn then \<lparr>resStatus = DHASH_ERR, adj_data = [], forwarded = None\<rparr>
                              else \<lparr>resStatus = DHASH_OK, adj_data = [], forwarded = Some (new_elems ! 0)\<rparr>)
                   else if length new_elems > 1
                   then do { es \<leftarrow> merge_node old_elems new_elems;
                             Some \<lparr>resStatus = DHASH_OK, adj_data = marshal es, forwarded = None\<rparr> }
                   else do { (st, es) \<leftarrow> adjust_elem compute_hash (new_elems ! 0) old_elems;
                             Some \<lparr>resStatus = st,
                                   adj_data = (if old_elems = [] \<and> updates_entry msgtype then [] else marshal es),
                                   forwarded = None\<rparr> } })"

text \<open>The answer to the client, the data the database holds afterwards, and whether a repair was started.\<close>

definition real_store :: "adjusted \<Rightarrow> bytes \<Rightarrow> dhash_stat \<times> bytes \<times> bool" where
  "real_store a old_data =
     (if resStatus a = DHASH_ERR then (DHASH_ERR, old_data, False)
      else if resStatus a = DHASH_CORRUPTHDR then (DHASH_CORRUPTHDR, old_data, True)
      else if resStatus a \<in> {DHASH_NOTFIRST, DHASH_FULL, DHASH_RETRYINSERT} then (resStatus a, old_data, False)
      else if adj_data a \<noteq> old_data then (DHASH_OK, adj_data a, False)
      else (DHASH_OK, old_data, False))"

subsection \<open>Answering\<close>

definition HDRONLY :: bytes where
  "HDRONLY = [72, 68, 82, 79, 78, 76, 89]"

definition FULLNODE :: bytes where
  "FULLNODE = [70, 85, 76, 76]"

definition NOTFULLNODE :: bytes where
  "NOTFULLNODE = [78, 79, 84, 70, 85, 76, 76]"

primrec filter_sigs :: "bytes \<Rightarrow> int \<Rightarrow> nat \<Rightarrow> (polys list \<times> int) option" where
  "filter_sigs flt p 0 = Some ([], p)"
| "filter_sigs flt p (Suc n) =
     do { size \<leftarrow> rd flt p;
          sig \<leftarrow> rd_list flt (p + 4) (nat (sint (size :: poly)));
          (sigs, q) \<leftarrow> filter_sigs flt (p + 4 + 4 * int (unat size)) n;
          Some (sig # sigs, q) }"

text \<open>The test of divisibility: a remainder is computed only when the degrees allow it.\<close>

definition divisible :: "polys \<Rightarrow> polys \<Rightarrow> bool option" where
  "divisible entrySig sig =
     do { dega \<leftarrow> getDegrees entrySig;
          degb \<leftarrow> getDegrees sig;
          if dega \<ge> degb then do { rem \<leftarrow> remainder entrySig sig; Some (length rem = 1 \<and> rem ! 0 = 0) }
          else Some False }"

primrec divisible_any :: "polys \<Rightarrow> polys list \<Rightarrow> bool option" where
  "divisible_any entrySig [] = Some False"
| "divisible_any entrySig (s # ss) =
     do { b \<leftarrow> divisible entrySig s; if b then Some True else divisible_any entrySig ss }"

primrec filter_divisible :: "polys list \<Rightarrow> bytes list \<Rightarrow> bytes list option" where
  "filter_divisible listOfSigs [] = Some []"
| "filter_divisible listOfSigs (e # es) =
     do { (entryKey, entrySig) \<leftarrow> getKeyValue_sig e;
          _ \<leftarrow> getDegrees entrySig;
          isDivides \<leftarrow> divisible_any entrySig listOfSigs;
          rest \<leftarrow> filter_divisible listOfSigs es;
          Some (if isDivides then entryKey # rest else rest) }"

definition word_at :: "polys \<Rightarrow> nat \<Rightarrow> poly option" where
  "word_at sig i = (if i < length sig then Some (sig ! i) else None)"

definition value_test :: "poly \<Rightarrow> polys \<Rightarrow> polys \<Rightarrow> bool option" where
  "value_test OP entrySig valSig =
     (if OP = OPTYPE_code EQUAL
      then do { lo \<leftarrow> word_at entrySig 0;
                if lo \<le> valSig ! 0 then do { hi \<leftarrow> word_at entrySig 1; Some (hi \<ge> valSig ! 1) } else Some False }
      else if OP = OPTYPE_code GREATER then do { hi \<leftarrow> word_at entrySig 1; Some (\<not> hi \<le> valSig ! 0) }
      else if OP = OPTYPE_code GREATEREQUAL then do { hi \<leftarrow> word_at entrySig 1; Some (\<not> hi < valSig ! 0) }
      else if OP = OPTYPE_code LESS then do { lo \<leftarrow> word_at entrySig 0; Some (\<not> lo \<ge> valSig ! 1) }
      else if OP = OPTYPE_code LESSEQUAL then do { lo \<leftarrow> word_at entrySig 0; Some (\<not> lo > valSig ! 1) }
      else Some False)"

text \<open>The entries that pass the value test; on a leaf their documents are tested against the query as well. An
  operator other than equality with a one-word value ends the scan at the first entry.\<close>

fun filter_values :: "bool \<Rightarrow> polys list \<Rightarrow> polys \<Rightarrow> poly \<Rightarrow> bytes list \<Rightarrow> bytes list option" where
  "filter_values leaf listOfSigs valSig OP [] = Some []"
| "filter_values leaf listOfSigs valSig OP (e # es) =
     do { (entryKey, entrySig) \<leftarrow> getKeyValue_sig e;
          _ \<leftarrow> getDegrees entrySig;
          if length valSig = 1 \<and> OP \<noteq> OPTYPE_code EQUAL then Some []
          else do { isDivides \<leftarrow> (if length valSig = 1 then divisible entrySig valSig
                                   else if length valSig = 2 then value_test OP entrySig valSig
                                   else Some False);
                    mine \<leftarrow> (if isDivides
                             then if leaf
                                  then do { (mySig, myDocid) \<leftarrow> getDocid entryKey [];
                                            _ \<leftarrow> getDegrees mySig;
                                            b \<leftarrow> divisible_any mySig (take MAXSIGSPERQUERY listOfSigs);
                                            Some (if b then [myDocid] else []) }
                                  else Some [entryKey]
                             else Some []);
                    rest \<leftarrow> filter_values leaf listOfSigs valSig OP es;
                    Some (mine @ rest) } }"

definition is_leaf :: "(bytes \<Rightarrow> chordID) \<Rightarrow> bytes \<Rightarrow> bool option" where
  "is_leaf compute_hash hdr =
     do { (a, nodeInt) \<leftarrow> header_of hdr;
          let nodeType = snd (str2chordID a 0);
          Some (nodeType = compute_hash [110, 111, 100, 101, 46, 108, 101, 97, 102]
                \<or> nodeType = compute_hash [110, 111, 100, 101, 46, 114, 111, 111, 116] \<and> level nodeInt = 0) }"

definition executeFilter :: "(bytes \<Rightarrow> chordID) \<Rightarrow> bytes list \<Rightarrow> bytes \<Rightarrow> bytes list option" where
  "executeFilter compute_hash contents flt =
     (if contents = [] then None
      else if takeWhile (\<lambda>c. c \<noteq> 0) flt = HDRONLY then Some [contents ! 0]
      else do { type \<leftarrow> rd flt 0;
                numSigs \<leftarrow> rd_int flt 4;
                (listOfSigs, p) \<leftarrow> filter_sigs flt 8 (nat numSigs);
                if type = RetrieveType_code DIVISIBLE
                then do { es \<leftarrow> filter_divisible listOfSigs (tl contents); Some (contents ! 0 # es) }
                else if type = RetrieveType_code DIVISIBLEV
                then do { valSize \<leftarrow> rd_int flt p;
                          valSig \<leftarrow> rd_list flt (p + 4) (nat valSize);
                          OP \<leftarrow> rd flt (p + 4 + 4 * int (nat valSize));
                          leaf \<leftarrow> is_leaf compute_hash (contents ! 0);
                          es \<leftarrow> filter_values leaf listOfSigs valSig OP (tl contents);
                          Some (contents ! 0 # es) }
                else if type = RetrieveType_code PICKCHILD \<or> type = RetrieveType_code PICKCHILDV
                then do { let status = (if length contents > MAXENTRIES then FULLNODE else NOTFULLNODE);
                          leaf \<leftarrow> is_leaf compute_hash (contents ! 0);
                          if leaf then Some [contents ! 0, status]
                          else if listOfSigs = [] then None
                          else do { child \<leftarrow> (if type = RetrieveType_code PICKCHILD
                                               then pickChild contents (listOfSigs ! 0) True
                                               else pickChildV contents (listOfSigs ! 0));
                                    Some [contents ! 0, status, child] } }
                else Some [contents ! 0] })"

end
