(* ===== verification/Poly_Division.thy ===== *)
theory Poly_Division
  imports Poly_Correct
begin

text \<open>
  Division of polynomials: \<^verbatim>\<open>remainder\<close>, \<^verbatim>\<open>quotient\<close>, \<^verbatim>\<open>gcd\<close> and \<^verbatim>\<open>lcm\<close> of \<^verbatim>\<open>utils/utils.C\<close> compute the
  operations of \<open>Gf2\<close>. The divisor is kept as a vector aligned at a word of the dividend;
  \<open>placed\<close> says which polynomial such a vector stands for.
\<close>

subsection \<open>Bits counted from the top\<close>

primrec tb :: "polys \<Rightarrow> nat \<Rightarrow> bool" where
  "tb [] m \<longleftrightarrow> False"
| "tb (w # ws) m \<longleftrightarrow> (if m < 32 then bit w (31 - m) else tb ws (m - 32))"

lemma bit_pval: "j < 32 * length ws \<Longrightarrow> bit (pval ws) j \<longleftrightarrow> tb ws (32 * length ws - 1 - j)"
proof (induction ws)
  case (Cons w ws)
  show ?case
  proof (cases "j < 32 * length ws")
    case True
    then have "\<not> 32 * length (w # ws) - 1 - j < 32" "32 * length (w # ws) - 1 - j - 32 = 32 * length ws - 1 - j"
      by auto
    then show ?thesis using Cons.IH [OF True] True
      by (simp only: tb.simps if_False pval.simps bit_concat [OF pval_less] if_True)
  next
    case False
    then have "31 - (32 * length (w # ws) - 1 - j) = j - 32 * length ws" "32 * length (w # ws) - 1 - j < 32"
      using Cons.prems by auto
    then show ?thesis using False Cons.prems
      by (auto simp: bit_concat pval_less bit_unsigned_iff)
  qed
qed simp

lemma tb_nth: "tb ws m \<longleftrightarrow> m div 32 < length ws \<and> bit (ws ! (m div 32)) (31 - m mod 32)"
proof (induction ws arbitrary: m)
  case (Cons w ws)
  show ?case
  proof (cases "m < 32")
    case False
    then have "m div 32 = Suc ((m - 32) div 32)" "(m - 32) mod 32 = m mod 32"
      by (simp_all add: div_if [of m] le_mod_geq)
    then show ?thesis using False Cons by simp
  qed simp
qed simp

lemma tb_pval: "tb ws m \<longleftrightarrow> m < 32 * length ws \<and> bit (pval ws) (32 * length ws - 1 - m)"
proof (cases "m < 32 * length ws")
  case True
  then show ?thesis using bit_pval [of "32 * length ws - 1 - m" ws] by auto
next
  case False
  then have "\<not> m div 32 < length ws" by (simp add: div_less_iff_less_mult mult.commute)
  then show ?thesis using False by (simp add: tb_nth)
qed

lemma tb_shr_words:
  assumes "0 < n" "n < 32"
  shows "(\<And>j. bit p j \<Longrightarrow> 32 - n \<le> j) \<Longrightarrow>
    tb (shr_words n p ws) m \<longleftrightarrow> (if m < n then bit p (31 - m) else tb ws (m - n))"
proof (induction ws arbitrary: p m)
  case Nil
  show ?case
  proof (cases "p > 0")
    case True
    then show ?thesis using Nil [of "31 - m"] assms by auto
  next
    case False
    then show ?thesis by (simp add: word_gt_0)
  qed
next
  case (Cons w ws)
  let ?lsb = "push_bit (32 - n) (w AND drop_bit (32 - n) ONEFLAG)"
  have lsb: "bit ?lsb j \<longleftrightarrow> 32 - n \<le> j \<and> j < 32 \<and> bit w (j - (32 - n))" for j
    using assms by (auto simp: bit_simps bit_ONEFLAG)
  then have ih: "tb (shr_words n ?lsb ws) m' \<longleftrightarrow> (if m' < n then bit ?lsb (31 - m') else tb ws (m' - n))" for m'
    by (intro Cons.IH) blast
  show ?case
  proof (cases "m < 32")
    case True
    have "bit (drop_bit n w) (31 - m) \<longleftrightarrow> n \<le> m \<and> bit w (31 - (m - n))"
    proof (cases "n \<le> m")
      case nm: True
      then have "n + (31 - m) = 31 - (m - n)" using True by simp
      then show ?thesis using nm by (simp only: bit_drop_bit_eq comp_apply simp_thms)
    next
      case nm: False
      then have "\<not> bit w (n + (31 - m))" using True bit_imp_le_length [of w "n + (31 - m)"] by auto
      then show ?thesis using nm by (simp only: bit_drop_bit_eq comp_apply simp_thms)
    qed
    moreover have "bit p (31 - m) \<Longrightarrow> m < n" using Cons.prems [of "31 - m"] True assms by auto
    moreover have "tb (shr_words n p (w # ws)) m \<longleftrightarrow> bit (drop_bit n w) (31 - m) \<or> bit p (31 - m)"
      using True by (simp only: tb.simps shr_words.simps Let_def bit_or_iff if_True)
    moreover have "tb (w # ws) (m - n) \<longleftrightarrow> bit w (31 - (m - n))"
      using True by (simp only: tb.simps less_imp_diff_less if_True)
    ultimately show ?thesis by (meson not_le)
  next
    case False
    have m: "\<not> m < n" "m - n - 32 = m - 32 - n" using False assms by linarith+
    have l: "tb (shr_words n p (w # ws)) m \<longleftrightarrow> (if m - 32 < n then bit ?lsb (31 - (m - 32)) else tb ws (m - 32 - n))"
      using False ih by (simp only: tb.simps shr_words.simps Let_def if_False)
    show ?thesis
    proof (cases "m - 32 < n")
      case True
      then have "32 - n \<le> 31 - (m - 32)" "31 - (m - 32) < 32" "31 - (m - 32) - (32 - n) = 31 - (m - n)" "m - n < 32"
        using False assms by linarith+
      then show ?thesis using True m(1) unfolding l lsb by (simp only: tb.simps if_True if_False simp_thms)
    next
      case nm: False
      then have "\<not> m - n < 32" using False by linarith
      then show ?thesis using nm m unfolding l by (simp only: tb.simps if_False)
    qed
  qed
qed

subsection \<open>A divisor aligned with the dividend\<close>

text \<open>\<open>ws\<close>, laid over a vector of \<open>N\<close> words from word \<open>i\<close> on, is the polynomial \<open>V\<close>.\<close>

definition placed :: "nat \<Rightarrow> nat \<Rightarrow> polys \<Rightarrow> nat \<Rightarrow> bool" where
  "placed N i ws V \<longleftrightarrow>
     (\<forall>m. tb ws m \<longleftrightarrow> m + 32 * i < 32 * N \<and> bit V (32 * N - 1 - (m + 32 * i)))"

lemma placedD:
  "placed N i ws V \<Longrightarrow> tb ws m \<longleftrightarrow> m + 32 * i < 32 * N \<and> bit V (32 * N - 1 - (m + 32 * i))"
  by (simp only: placed_def)

lemma placed_start:
  assumes "length ws \<le> N"
  shows "placed N 0 ws (2 ^ (32 * (N - length ws)) * pval ws)"
  unfolding placed_def
proof
  fix m
  let ?k = "32 * (N - length ws)"
  have bit: "bit (2 ^ ?k * pval ws) j \<longleftrightarrow> ?k \<le> j \<and> bit (pval ws) (j - ?k)" for j
    using bit_concat [of 0 ?k "pval ws" j] by (auto simp: mult.commute)
  have k: "32 * N = ?k + 32 * length ws" using assms by (simp add: algebra_simps)
  show "tb ws m \<longleftrightarrow> m + 32 * 0 < 32 * N \<and> bit (2 ^ ?k * pval ws) (32 * N - 1 - (m + 32 * 0))"
    unfolding bit tb_pval k by (auto simp: diff_diff_add add.commute)
qed

lemma bit_div_pow: "bit (V div 2 ^ n :: nat) j \<longleftrightarrow> bit V (n + j)"
  by (simp add: bit_drop_bit_eq flip: drop_bit_eq_div)

lemma dvd_pow_bit: "2 ^ n dvd (V :: nat) \<Longrightarrow> j < n \<Longrightarrow> \<not> bit V j"
  by (metis bit_concat bit_0_eq bot_apply bot_bool_def dvd_def add_0_right mult.commute zero_less_numeral zero_less_power)

lemma placed_shr:
  assumes "placed N i ws V" "2 ^ n dvd V" "V div 2 ^ n < 2 ^ (32 * (N - i))" "V < 2 ^ (32 * (N - i))" "0 < n" "n < 32"
  shows "placed N i (shr_words n 0 ws) (V div 2 ^ n)"
  unfolding placed_def
proof
  fix m
  have tb: "tb (shr_words n 0 ws) m \<longleftrightarrow> n \<le> m \<and> tb ws (m - n)"
    using tb_shr_words [OF assms(5,6), of 0 ws m] by auto
  show "tb (shr_words n 0 ws) m \<longleftrightarrow> m + 32 * i < 32 * N \<and> bit (V div 2 ^ n) (32 * N - 1 - (m + 32 * i))"
  proof (cases "n \<le> m \<and> m + 32 * i < 32 * N")
    case True
    then have "n + (32 * N - 1 - (m + 32 * i)) = 32 * N - 1 - (m - n + 32 * i)" "m - n + 32 * i < 32 * N" by linarith+
    then show ?thesis using True unfolding tb bit_div_pow placedD [OF assms(1)] by simp
  next
    case False
    have "\<not> bit V (n + (32 * N - 1 - (m + 32 * i)))" if "m < n" "m + 32 * i < 32 * N"
    proof
      assume "bit V (n + (32 * N - 1 - (m + 32 * i)))"
      then have "n + (32 * N - 1 - (m + 32 * i)) < 32 * (N - i)" by (rule bit_less_pow2 [OF assms(4)])
      then show False using that by (simp add: diff_mult_distrib2)
    qed
    moreover have "\<not> tb ws (m - n)" if "n \<le> m" "32 * N \<le> m + 32 * i"
    proof
      assume "tb ws (m - n)"
      then have "m - n + 32 * i < 32 * N" "bit V (32 * N - 1 - (m - n + 32 * i))"
        unfolding placedD [OF assms(1)] by blast+
      then show False using that dvd_pow_bit [OF assms(2), of "32 * N - 1 - (m - n + 32 * i)"] by linarith
    qed
    ultimately show ?thesis using False unfolding tb bit_div_pow by (meson not_le)
  qed
qed

lemma placed_top:
  assumes "placed N i ws V" "pdeg V k" "k < 32 * (N - i)"
  shows "ws \<noteq> []" "ws ! 0 = 0 \<longleftrightarrow> k < 32 * (N - i) - 32"
proof -
  let ?p = "32 * (N - i) - 1 - k"
  have p: "tb ws ?p"
  proof -
    have "?p + 32 * i < 32 * N" "32 * N - 1 - (?p + 32 * i) = k" using assms(3) by (simp_all add: diff_mult_distrib2)
    then show ?thesis using assms(2) unfolding placedD [OF assms(1)] pdeg_iff_bit by metis
  qed
  then show ne: "ws \<noteq> []" by auto
  have above: "\<not> tb ws m" if "m < ?p" for m
  proof
    assume "tb ws m"
    then have "bit V (32 * N - 1 - (m + 32 * i))" unfolding placedD [OF assms(1)] by blast
    moreover have "k < 32 * N - 1 - (m + 32 * i)" using that assms(3) by (simp add: diff_mult_distrib2)
    ultimately show False using assms(2) bit_less_pow2 unfolding pdeg_iff_bit by (metis Suc_eq_plus1 not_less_eq)
  qed
  show "ws ! 0 = 0 \<longleftrightarrow> k < 32 * (N - i) - 32"
  proof
    assume z: "ws ! 0 = 0"
    have "\<not> ?p < 32" using p z ne by (cases ws) auto
    then show "k < 32 * (N - i) - 32" by linarith
  next
    assume k: "k < 32 * (N - i) - 32"
    obtain w ws' where ws: "ws = w # ws'" using ne by (cases ws) auto
    have "\<not> bit w j" if "j < 32" for j
    proof -
      have j: "31 - j < ?p" "31 - j < 32" "31 - (31 - j) = j" using that k by linarith+
      show ?thesis using above [OF j(1)] j(2,3) unfolding ws by (simp only: tb.simps if_True simp_thms)
    qed
    then have "w = 0" by (intro bit_word_eqI) auto
    then show "ws ! 0 = 0" unfolding ws by simp
  qed
qed

lemma placed_tl:
  assumes "placed N i ws V" "ws \<noteq> []" "ws ! 0 = 0"
  shows "placed N (i + 1) (tl ws) V"
  unfolding placed_def
proof
  fix m
  have "tb (tl ws) m \<longleftrightarrow> tb ws (m + 32)" using assms(2) by (cases ws) auto
  then show "tb (tl ws) m \<longleftrightarrow> m + 32 * (i + 1) < 32 * N \<and> bit V (32 * N - 1 - (m + 32 * (i + 1)))"
    unfolding placedD [OF assms(1)] by (simp add: add.assoc)
qed

lemma placed_shiftRight:
  assumes "placed N i ws V" "2 ^ nat n dvd V" "V < 2 ^ (32 * (N - i))" "pdeg (V div 2 ^ nat n) k" "0 < n" "n < 32"
  shows "\<exists>ws'. shiftRight ws n = Some ws'
    \<and> placed N (if k < 32 * (N - i) - 32 then i + 1 else i) ws' (V div 2 ^ nat n)"
proof -
  have n: "0 < nat n" "nat n < 32" using assms(5,6) by linarith+
  have le: "V div 2 ^ nat n \<le> V" by simp
  then have small: "V div 2 ^ nat n < 2 ^ (32 * (N - i))" using assms(3) by linarith
  note p = placed_shr [OF assms(1,2) small assms(3) n]
  have k: "k < 32 * (N - i)" using assms(4) small bit_less_pow2 unfolding pdeg_iff_bit by blast
  note top = placed_top [OF p assms(4) k]
  show ?thesis
    using assms(5,6) top placed_tl [OF p top(1)] p by (auto simp: shiftRight_def Let_def)
qed

subsection \<open>One step of the division\<close>

lemma xor_at_length: "i \<le> length r \<Longrightarrow> length (xor_at i r g) = length r"
  by (auto simp: xor_at_def)

lemma xor_at_nth:
  "j < length r \<Longrightarrow> i \<le> length r \<Longrightarrow>
     xor_at i r g ! j = (if i \<le> j \<and> j - i < length g then r ! j XOR g ! (j - i) else r ! j)"
  by (auto simp: xor_at_def nth_append min_def) 

lemma xor_at_pval:
  assumes "placed (length r) i g V" "i < length r" "V < 2 ^ (32 * (length r - i))"
  shows "pval (xor_at i r g) = pval r XOR V"
proof (rule bit_eqI)
  fix j
  let ?N = "length r"
  have len: "length (xor_at i r g) = ?N" using assms(2) by (simp add: xor_at_length)
  show "bit (pval (xor_at i r g)) j \<longleftrightarrow> bit (pval r XOR V) j"
  proof (cases "j < 32 * ?N")
    case False
    have "\<not> bit (pval (xor_at i r g)) j" "\<not> bit (pval r) j" "\<not> bit V j"
      using False bit_less_pow2 [OF pval_less, of "xor_at i r g" j] bit_less_pow2 [OF pval_less, of r j]
        bit_less_pow2 [OF assms(3), of j] len by auto
    then show ?thesis by (simp add: bit_xor_iff)
  next
    case True
    define m where "m = 32 * ?N - 1 - j"
    have m: "m < 32 * ?N" "32 * ?N - 1 - m = j" using True by (auto simp: m_def)
    have V: "bit V j \<longleftrightarrow> 32 * i \<le> m \<and> tb g (m - 32 * i)"
    proof (cases "32 * i \<le> m")
      case True
      then have "m - 32 * i + 32 * i = m" by simp
      then show ?thesis using True m unfolding placedD [OF assms(1)] by simp
    next
      case False
      then have "\<not> j < 32 * (?N - i)" using m by (simp add: diff_mult_distrib2)
      then show ?thesis using False bit_less_pow2 [OF assms(3)] by blast
    qed
    have q: "m div 32 < ?N" using m(1) by (simp add: div_less_iff_less_mult mult.commute)
    have tbx: "tb (xor_at i r g) m \<longleftrightarrow> tb r m \<noteq> (32 * i \<le> m \<and> tb g (m - 32 * i))"
    proof (cases "32 * i \<le> m")
      case True
      then obtain m' where m': "m = m' + i * 32" by (metis add.commute le_Suc_ex mult.commute)
      then have d: "m div 32 = m' div 32 + i" "m mod 32 = m' mod 32" "m - 32 * i = m'" by simp_all
      have "m' div 32 < length g \<or> \<not> tb g m'" by (auto simp: tb_nth)
      then show ?thesis using True q assms(2) unfolding tb_nth [of _ m] len d
        by (auto simp: xor_at_nth bit_xor_iff tb_nth [of g])
    next
      case False
      then have "\<not> i \<le> m div 32" by (simp add: less_eq_div_iff_mult_less_eq mult.commute)
      then show ?thesis using False q assms(2) unfolding tb_nth len by (auto simp: xor_at_nth)
    qed
    have "bit (pval (xor_at i r g)) j \<longleftrightarrow> tb (xor_at i r g) m" "bit (pval r) j \<longleftrightarrow> tb r m"
      using bit_pval [of j "xor_at i r g"] bit_pval [of j r] True len by (simp_all add: m_def)
    then show ?thesis using tbx V by (auto simp: bit_xor_iff)
  qed
qed

definition div_inv :: "nat \<Rightarrow> nat \<Rightarrow> nat \<Rightarrow> nat \<Rightarrow> polys \<Rightarrow> nat \<Rightarrow> poly \<Rightarrow> bool" where
  "div_inv G D N k gtemp i bm \<longleftrightarrow> D \<le> k \<and> k < 32 * N \<and> i = N - 1 - k div 32 \<and> bm = push_bit (k mod 32) 1
     \<and> placed N i gtemp (2 ^ (k - D) * G)"

lemma test_bit: "w AND push_bit b 1 > 0 \<longleftrightarrow> bit (w :: poly) b"
  unfolding bit_iff_and_push_bit_not_eq_0 by (metis word_gt_0)

lemma word_of_pos:
  fixes k N :: nat
  assumes "k < 32 * N"
  shows "N - 1 - k div 32 < N" "32 * (N - (N - 1 - k div 32)) = 32 * (k div 32) + 32"
    and "(32 * N - 1 - k) div 32 = N - 1 - k div 32" "(32 * N - 1 - k) mod 32 = 31 - k mod 32"
proof -
  obtain a b where ab: "k = a * 32 + b" "b < 32"
    using div_mult_mod_eq [of k 32] mod_less_divisor [of 32 k] by (metis zero_less_numeral)
  have a: "a < N" "k div 32 = a" "k mod 32 = b" using ab assms by auto
  then show "N - 1 - k div 32 < N" "32 * (N - (N - 1 - k div 32)) = 32 * (k div 32) + 32" by auto
  obtain x where x: "x = 31 - b" "x < 32" by simp
  have e: "32 * N - 1 - k = (N - 1 - a) * 32 + x" using ab a unfolding x(1) by (simp add: algebra_simps)
  have d: "((N - 1 - a) * 32 + x) div 32 = N - 1 - a" "((N - 1 - a) * 32 + x) mod 32 = x" using x(2) by simp_all
  show "(32 * N - 1 - k) div 32 = N - 1 - k div 32" "(32 * N - 1 - k) mod 32 = 31 - k mod 32"
    unfolding e d a x(1) by simp_all
qed

lemma pval_test_bit:
  assumes "k < 32 * length r"
  shows "r ! (length r - 1 - k div 32) AND push_bit (k mod 32) 1 > 0 \<longleftrightarrow> bit (pval r) k"
proof -
  have "31 - (31 - k mod 32) = k mod 32" by simp
  then show ?thesis using word_of_pos [OF assms] bit_pval [OF assms]
    unfolding test_bit tb_nth by (simp only: simp_thms)
qed

lemma next_pos_inv:
  assumes "pdeg G D" "div_inv G D N k gtemp i bm" "D < k" "next_pos (int k) bm i = (bm', i')" "shiftRight gtemp 1 = Some gtemp'"
  shows "div_inv G D N (k - 1) gtemp' i' bm'"
proof -
  let ?V = "2 ^ (k - D) * G"
  have inv: "k < 32 * N" "i = N - 1 - k div 32" "bm = push_bit (k mod 32) 1" "placed N i gtemp ?V"
    using assms(2) by (auto simp: div_inv_def)
  have "k - D = Suc (k - 1 - D)" using assms(3) by simp
  then have half: "?V = 2 * (2 ^ (k - 1 - D) * G)" by simp
  then have div: "?V div 2 ^ nat 1 = 2 ^ (k - 1 - D) * G" "2 ^ nat 1 dvd ?V" unfolding half by simp_all
  have "pdeg ?V k" using pdeg_pow2_mult [OF assms(1), of "k - D"] assms(3) by simp
  then have "?V < 2 ^ (k + 1)" by (simp add: pdeg_def)
  also have "(2 :: nat) ^ (k + 1) \<le> 2 ^ (32 * (N - i))"
    using word_of_pos(2) [OF inv(1)] mod_less_divisor [of 32 k] div_mult_mod_eq [of k 32]
    unfolding inv(2) by (intro power_increasing) auto
  finally have V: "?V < 2 ^ (32 * (N - i))" .
  have deg: "pdeg (?V div 2 ^ nat 1) (k - 1)"
    using pdeg_pow2_mult [OF assms(1), of "k - 1 - D"] assms(3) unfolding div by simp
  have pl: "placed N (if k - 1 < 32 * (N - i) - 32 then i + 1 else i) gtemp' (2 ^ (k - 1 - D) * G)"
    using placed_shiftRight [OF inv(4) div(2) V deg] assms(5) unfolding div by simp
  have cond: "k - 1 < 32 * (N - i) - 32 \<longleftrightarrow> k mod 32 = 0"
    unfolding inv(2) word_of_pos(2) [OF inv(1)] using assms(3) div_mult_mod_eq [of k 32] by (simp, linarith)
  have k32: "int k mod (4 * 8) = 0 \<longleftrightarrow> k mod 32 = 0" by presburger
  show ?thesis
  proof (cases "k mod 32 = 0")
    case True
    then obtain a where a: "k = 32 * Suc a" using assms(3) by (metis mod_0_imp_dvd dvdE gr_implies_not0 mult_0_right not0_implies_Suc)
    then have m: "(k - 1) div 32 = a" "(k - 1) mod 32 = 31" "k div 32 = Suc a" "Suc a < N" using inv(1) by auto
    have p: "bm' = push_bit 31 1" "i' = i + 1"
      using assms(4) True unfolding next_pos_def k32 by (simp_all only: if_True prod.inject simp_thms)
    have "i + 1 = N - 1 - a" using m unfolding inv(2) by simp
    moreover have "placed N i' gtemp' (2 ^ (k - 1 - D) * G)" using pl True unfolding cond p by (simp only: if_True simp_thms)
    moreover have "D \<le> k - 1" "k - 1 < 32 * N" using assms(3) inv(1) by linarith+
    ultimately show ?thesis using m(1,2) p unfolding div_inv_def by simp
  next
    case False
    then have m: "(k - 1) div 32 = k div 32" "(k - 1) mod 32 = k mod 32 - 1"
      by (cases k; simp add: div_Suc mod_Suc split: if_splits)+
    have "drop_bit 1 (push_bit (k mod 32) 1 :: poly) = push_bit (k mod 32 - 1) 1"
      using False by (intro bit_word_eqI) (auto simp: bit_simps)
    moreover have "drop_bit 1 bm = bm'" "i = i'"
      using assms(4) False unfolding next_pos_def k32 by (simp_all only: if_False prod.inject simp_thms)
    moreover have "placed N i gtemp' (2 ^ (k - 1 - D) * G)" using pl False unfolding cond by (simp only: if_False)
    moreover have "D \<le> k - 1" "k - 1 < 32 * N" using assms(3) inv(1) by linarith+
    ultimately show ?thesis using inv(2,3) m unfolding div_inv_def by (simp only: simp_thms)
  qed
qed

lemma div_step:
  assumes "pdeg G D" "div_inv G D (length r) k gtemp i bm" "pval r < 2 ^ (k + 1)"
  defines "r' \<equiv> if r ! i AND bm > 0 then xor_at i r gtemp else r"
  shows "i < length r" "r ! i AND bm > 0 \<longleftrightarrow> bit (pval r) k" "length r' = length r" "pval r' < 2 ^ k"
    and "pval r' = pval r XOR (if bit (pval r) k then 2 ^ (k - D) * G else 0)"
proof -
  let ?N = "length r" and ?V = "2 ^ (k - D) * G"
  have inv: "D \<le> k" "k < 32 * ?N" "i = ?N - 1 - k div 32" "bm = push_bit (k mod 32) 1" "placed ?N i gtemp ?V"
    using assms(2) by (auto simp: div_inv_def)
  show i: "i < ?N" using word_of_pos(1) [OF inv(2)] inv(3) by simp
  show t: "r ! i AND bm > 0 \<longleftrightarrow> bit (pval r) k" unfolding inv(3,4) by (rule pval_test_bit [OF inv(2)])
  show "length r' = length r" using i by (simp add: r'_def xor_at_length)
  have V: "pdeg ?V k" using pdeg_pow2_mult [OF assms(1), of "k - D"] inv(1) by simp
  then have "?V < 2 ^ (k + 1)" by (simp add: pdeg_def)
  also have "(2 :: nat) ^ (k + 1) \<le> 2 ^ (32 * (?N - i))"
    using word_of_pos(2) [OF inv(2)] mod_less_divisor [of 32 k] div_mult_mod_eq [of k 32]
    unfolding inv(3) by (intro power_increasing) auto
  finally have x: "pval (xor_at i r gtemp) = pval r XOR ?V" using xor_at_pval [OF inv(5) i] by simp
  then show e: "pval r' = pval r XOR (if bit (pval r) k then ?V else 0)" unfolding r'_def t by simp
  show "pval r' < 2 ^ k"
  proof (cases "bit (pval r) k")
    case True
    then have "pdeg (pval r) k" using assms(3) by (simp add: pdeg_iff_bit)
    then show ?thesis using pdeg_xor_same [OF _ V] e True by simp
  next
    case False
    then show ?thesis using assms(3) bit_top_iff [of "pval r" k] e by simp
  qed
qed

subsection \<open>The loops\<close>

lemma shiftRight_1: "\<exists>ws'. shiftRight ws 1 = Some ws'"
  by (simp add: shiftRight_def Let_def)

lemma rem_loop_spec:
  assumes "pdeg G D"
  shows "(0 < n \<Longrightarrow> div_inv G D (length r) (D + n - 1) gtemp i bm) \<Longrightarrow> pval r < 2 ^ (D + n) \<Longrightarrow>
    \<exists>r'. rem_loop (int D + int n - 1) (int D) r gtemp bm i = Some r' \<and> length r' = length r
      \<and> pdvd G (pval r XOR pval r') \<and> pval r' < 2 ^ D"
proof (induction n arbitrary: r gtemp i bm)
  case 0
  then show ?case by (simp add: rem_loop.simps)
next
  case (Suc n)
  let ?k = "D + n"
  let ?r = "if r ! i AND bm > 0 then xor_at i r gtemp else r"
  have inv: "div_inv G D (length r) ?k gtemp i bm" using Suc.prems(1) by simp
  have small: "pval r < 2 ^ (?k + 1)" using Suc.prems(2) by simp
  note st = div_step [OF assms inv small]
  obtain gtemp' where g: "shiftRight gtemp 1 = Some gtemp'" using shiftRight_1 by blast
  obtain bm' i' where p: "next_pos (int ?k) bm i = (bm', i')" by fastforce
  have "div_inv G D (length ?r) (D + n - 1) gtemp' i' bm'" if "0 < n"
    using next_pos_inv [OF assms inv _ p g] that st(3) by simp
  then obtain r' where r': "rem_loop (int D + int n - 1) (int D) ?r gtemp' bm' i' = Some r'" "length r' = length ?r"
      "pdvd G (pval ?r XOR pval r')" "pval r' < 2 ^ D"
    using Suc.IH [of ?r gtemp' i' bm'] st(4) by blast
  have k: "int D + int (Suc n) - 1 = int ?k" "int ?k - 1 = int D + int n - 1" by simp_all
  have "rem_loop (int D + int (Suc n) - 1) (int D) r gtemp bm i = Some r'"
    unfolding k(1) using st(1) g p r'(1) by (subst rem_loop.simps) (simp add: k(2) Let_def)
  moreover have "pdvd G (pval r XOR pval ?r)" unfolding st(5)
    using pdvd_pmul(1) [of G "2 ^ n"] by (simp add: pmul_pow2)
  then have "pdvd G (pval r XOR pval r')" using r'(3) by (rule pdvd_xor_trans)
  ultimately show ?case using r' st(3) by auto
qed

lemma set_low_bit:
  assumes "q \<noteq> []" "even (pval q)"
  shows "pval (butlast q @ [last q OR 1]) = pval q XOR 1"
proof -
  have q: "pval q = pval (butlast q) * 2 ^ 32 + unat (last q)"
    using pval_append [of "butlast q" "[last q]"] assms(1) by simp
  then have "even (unat (last q))" using assms(2) by simp
  moreover have "unat (last q OR 1) = unat (last q) OR 1" unfolding unsigned_or_eq by simp
  ultimately have "unat (last q OR 1) = unat (last q) + 1" using or_one_eq [of "unat (last q)"] by simp
  then have "pval (butlast q @ [last q OR 1]) = pval q + 1" using q pval_append [of "butlast q" "[last q OR 1]"] by simp
  then show ?thesis using assms(2) xor_one_eq [of "pval q"] by simp
qed

lemma normal_set_low: "normal q \<Longrightarrow> even (pval q) \<Longrightarrow> normal (butlast q @ [last q OR 1])"
proof -
  assume q: "normal q" "even (pval q)"
  then have "q \<noteq> []" by (simp add: normal_def)
  have "pval (butlast q @ [last q OR 1]) = pval q + 1"
    using set_low_bit [OF \<open>q \<noteq> []\<close> q(2)] q(2) xor_one_eq [of "pval q"] by simp
  then show ?thesis using q(1) unfolding normal_iff by auto
qed

text \<open>One round of the quotient: doubled, and the low bit set when the divisor was subtracted.\<close>

lemma quot_digit:
  assumes "q \<noteq> []"
  shows "\<exists>q1. shiftLeft q 1 = Some q1 \<and> (let q2 = (if b then butlast q1 @ [last q1 OR 1] else q1)
    in q2 \<noteq> [] \<and> pval q2 = 2 * pval q XOR of_bool b \<and> (normal q \<or> q = [0] \<and> b \<longrightarrow> normal q2))"
proof -
  obtain q1 where q1: "shiftLeft q 1 = Some q1" "pval q1 = 2 * pval q" "normal q \<longrightarrow> normal q1"
    using shiftLeft_spec [of 1 q] by auto
  have ne: "q1 \<noteq> []" using q1(1) assms shl_words_spec(1) [of 1 q]
    by (auto simp: shiftLeft_def split: prod.splits if_splits)
  have z: "q1 = [0]" if "q = [0]" using q1(1) that by (simp add: shiftLeft_def)
  have even: "even (pval q1)" using q1(2) by simp
  have "normal (butlast q1 @ [last q1 OR 1])" if "normal q \<or> q = [0]"
    using that normal_set_low [OF _ even] q1(3) z by (auto simp: normal_def)
  then show ?thesis using q1 ne set_low_bit [OF ne even] by (auto simp: Let_def)
qed

lemma quot_loop_spec:
  assumes "pdeg G D"
  shows "(0 < n \<Longrightarrow> div_inv G D (length r) (D + n - 1) gtemp i bm) \<Longrightarrow> pval r < 2 ^ (D + n) \<Longrightarrow> q \<noteq> [] \<Longrightarrow>
    \<exists>q' Q. quot_loop (int D + int n - 1) (int D) q r gtemp bm i = Some q' \<and> pval q' = 2 ^ n * pval q XOR Q
      \<and> pval r XOR pmul Q G < 2 ^ D \<and> (normal q \<or> q = [0] \<and> 0 < n \<and> bit (pval r) (D + n - 1) \<longrightarrow> normal q')"
proof (induction n arbitrary: q r gtemp i bm)
  case 0
  then show ?case by (intro exI [of _ q] exI [of _ 0]) (simp add: quot_loop.simps)
next
  case (Suc n)
  let ?k = "D + n"
  let ?r = "if r ! i AND bm > 0 then xor_at i r gtemp else r"
  have inv: "div_inv G D (length r) ?k gtemp i bm" using Suc.prems(1) by simp
  have small: "pval r < 2 ^ (?k + 1)" using Suc.prems(2) by simp
  note st = div_step [OF assms inv small]
  obtain gtemp' where g: "shiftRight gtemp 1 = Some gtemp'" using shiftRight_1 by blast
  obtain bm' i' where p: "next_pos (int ?k) bm i = (bm', i')" by fastforce
  let ?b = "bit (pval r) ?k"
  obtain q1 where q1: "shiftLeft q 1 = Some q1"
    and q2: "let q2 = (if ?b then butlast q1 @ [last q1 OR 1] else q1)
      in q2 \<noteq> [] \<and> pval q2 = 2 * pval q XOR of_bool ?b \<and> (normal q \<or> q = [0] \<and> ?b \<longrightarrow> normal q2)"
    using quot_digit [OF Suc.prems(3), of ?b] by blast
  define q2 where "q2 = (if ?b then butlast q1 @ [last q1 OR 1] else q1)"
  have q2: "q2 \<noteq> []" "pval q2 = 2 * pval q XOR of_bool ?b" "normal q \<or> q = [0] \<and> ?b \<longrightarrow> normal q2"
    using q2 unfolding Let_def q2_def [symmetric] by auto
  have "div_inv G D (length ?r) (D + n - 1) gtemp' i' bm'" if "0 < n"
    using next_pos_inv [OF assms inv _ p g] that st(3) by simp
  then obtain q' Q where q': "quot_loop (int D + int n - 1) (int D) q2 ?r gtemp' bm' i' = Some q'"
      "pval q' = 2 ^ n * pval q2 XOR Q" "pval ?r XOR pmul Q G < 2 ^ D" "normal q2 \<longrightarrow> normal q'"
    using Suc.IH [of ?r gtemp' i' bm' q2] st(4) q2(1) by blast
  have k: "int D + int (Suc n) - 1 = int ?k" "int ?k - 1 = int D + int n - 1" by simp_all
  have b: "r ! i AND bm > 0 \<longleftrightarrow> ?b" by (rule st(2))
  have "quot_loop (int D + int (Suc n) - 1) (int D) q r gtemp bm i = Some q'"
    unfolding k(1) using st(1) g p q'(1) q1 unfolding q2_def b
    by (subst quot_loop.simps) (auto simp add: k(2) Let_def b)
  moreover have "pval q' = 2 ^ Suc n * pval q XOR (2 ^ n * of_bool ?b XOR Q)"
    unfolding q'(2) q2(2) by (simp add: pow_mult_xor xor.assoc mult.assoc mult.left_commute)
  moreover have "pmul (2 ^ n * of_bool ?b XOR Q) G = (if ?b then 2 ^ n * G else 0) XOR pmul Q G"
    by (simp add: pmul_xor_left pmul_commute [of "2 ^ n"] pmul_pow2)
  then have "pval r XOR pmul (2 ^ n * of_bool ?b XOR Q) G < 2 ^ D"
    using q'(3) unfolding st(5) by (cases ?b) (simp_all add: xor.assoc)
  ultimately show ?case using q'(4) q2(3) by auto
qed

subsection \<open>Remainder and quotient\<close>

lemma align_Some:
  assumes "getDegree (g ! 0) = int dg" "dg < 32" "df < 32"
  shows "\<exists>gtemp. align (int df) g = Some gtemp"
proof (cases "dg < df")
  case True
  then show ?thesis using assms shiftLeft_spec [of "int df - int dg" g] by (auto simp: align_def)
next
  case False
  then show ?thesis using assms by (auto simp: align_def shiftRight_def Let_def)
qed

lemma shiftLeft_fits:
  assumes "0 < n" "n < 32" "2 ^ n * pval ws < 2 ^ (32 * length ws)"
  shows "\<exists>ws'. shiftLeft ws (int n) = Some ws' \<and> length ws' = length ws \<and> pval ws' = 2 ^ n * pval ws"
proof -
  obtain vs p where vs: "shl_words n ws = (vs, p)" by fastforce
  note s = shl_words_spec [OF assms(1,2), of ws, unfolded vs fst_conv snd_conv]
  have "unat p * 2 ^ (32 * length ws) < 1 * 2 ^ (32 * length ws)" using s(2) assms(3) by linarith
  then have "unat p < 1" by (metis mult_less_cancel2)
  then have "p = 0" by (simp add: unat_eq_zero)
  then show ?thesis using s vs assms by (simp add: shiftLeft_def)
qed

lemma align_spec:
  assumes "getDegree (g ! 0) = int dg" "dg < 32" "df < 32" "g \<noteq> []"
    and "pdeg (pval g) (32 * (length g - 1) + dg)" "32 * (length g - 1) + dg \<le> 32 * (N - 1) + df" "0 < N"
  shows "\<exists>gtemp. align (int df) g = Some gtemp
    \<and> div_inv (pval g) (32 * (length g - 1) + dg) N (32 * (N - 1) + df) gtemp 0 (push_bit df 1)"
proof -
  let ?D = "32 * (length g - 1) + dg" and ?F = "32 * (N - 1) + df"
  have L: "length g \<le> N" using assms(2,3,6,7) by linarith
  have F: "?F < 32 * N" "?F div 32 = N - 1" "?F mod 32 = df" using assms(3,7) by auto
  have inv: "div_inv (pval g) ?D N ?F gtemp 0 (push_bit df 1)" if "placed N 0 gtemp (2 ^ (?F - ?D) * pval g)" for gtemp
    using that assms(6) F unfolding div_inv_def by simp
  have V: "pdeg (2 ^ (?F - ?D) * pval g) ?F" using pdeg_pow2_mult [OF assms(5), of "?F - ?D"] assms(6) by simp
  consider "df = dg" | "dg < df" | "df < dg" by linarith
  then show ?thesis
  proof cases
    case 1
    then have "?F - ?D = 32 * (N - length g)" using L assms(4) by (cases g) (auto simp: algebra_simps)
    then show ?thesis using 1 assms(1) placed_start [OF L] inv by (simp add: align_def shiftRight_def)
  next
    case 2
    have "pdeg (2 ^ (df - dg) * pval g) (32 * (length g - 1) + df)"
      using pdeg_pow2_mult [OF assms(5), of "df - dg"] 2 by (simp add: add.commute)
    then have "2 ^ (df - dg) * pval g < 2 ^ (32 * (length g - 1) + df + 1)" by (simp add: pdeg_def)
    also have "(2 :: nat) ^ (32 * (length g - 1) + df + 1) \<le> 2 ^ (32 * length g)"
      using assms(3,4) by (intro power_increasing) (cases g; simp)+
    finally obtain ws' where ws': "shiftLeft g (int (df - dg)) = Some ws'" "length ws' = length g"
        "pval ws' = 2 ^ (df - dg) * pval g"
      using shiftLeft_fits [of "df - dg" g] 2 assms(3) by (meson less_imp_diff_less zero_less_diff)
    have "?F - ?D = 32 * (N - length g) + (df - dg)" using 2 L assms(4) by (cases g) (auto simp: algebra_simps)
    then have "placed N 0 ws' (2 ^ (?F - ?D) * pval g)"
      using placed_start [of ws' N] L ws' by (simp add: power_add mult.assoc)
    then show ?thesis using 2 assms(1) ws'(1) inv by (auto simp: align_def)
  next
    case 3
    let ?W = "2 ^ (32 * (N - length g)) * pval g"
    have "length g \<noteq> N" using 3 assms(6) by auto
    then have lt: "length g < N" using L by simp
    then have e: "?F - ?D + (dg - df) = 32 * (N - length g)" using 3 assms(2,4,6)
      by (cases g) (auto simp: algebra_simps)
    have W: "?W = 2 ^ (dg - df) * (2 ^ (?F - ?D) * pval g)"
      unfolding e [symmetric] by (simp add: power_add mult.assoc mult.left_commute)
    have div: "?W div 2 ^ nat (int (dg - df)) = 2 ^ (?F - ?D) * pval g" "2 ^ nat (int (dg - df)) dvd ?W"
      unfolding W nat_int by simp_all
    have "?W < 2 ^ (32 * (N - length g)) * 2 ^ (32 * length g)" using pval_less [of g] by simp
    also have "\<dots> = 2 ^ (32 * (N - 0))" using L by (simp flip: power_add)
    finally have small: "?W < 2 ^ (32 * (N - 0))" .
    have k: "\<not> ?F < 32 * (N - 0) - 32" by simp
    obtain ws' where "shiftRight g (int (dg - df)) = Some ws'" "placed N 0 ws' (2 ^ (?F - ?D) * pval g)"
      using placed_shiftRight [OF placed_start [OF L] div(2) small, of ?F] 3 assms(2) V unfolding div
      by (simp only: k if_False) auto
    then show ?thesis using 3 assms(1) inv by (auto simp: align_def)
  qed
qed

lemma trim_pval: "pval (trim ws) = pval ws"
  by (induction ws rule: trim.induct) (auto simp: word_gt_0)

lemma trim_normal: "ws \<noteq> [] \<Longrightarrow> normal (trim ws) \<or> trim ws = [0]"
  by (induction ws rule: trim.induct) (auto simp: normal_def word_gt_0)

text \<open>What both divisions start from.\<close>

lemma division_start:
  assumes "normal f" "normal g"
  obtains df D F gtemp where "getDegree (f ! 0) = int df" "getDegrees f = Some (int F)" "getDegrees g = Some (int D)"
    and "pdeg (pval f) F" "pdeg (pval g) D" "align (int df) g = Some gtemp"
    and "D \<le> F \<Longrightarrow> div_inv (pval g) D (length f) F gtemp 0 (push_bit df 1)"
proof -
  obtain df where f: "df < 32" "getDegree (f ! 0) = int df" "getDegrees f = Some (int (32 * (length f - 1) + df))"
      "pdeg (pval f) (32 * (length f - 1) + df)" using normal_degree [OF assms(1)] by blast
  obtain dg where g: "dg < 32" "getDegree (g ! 0) = int dg" "getDegrees g = Some (int (32 * (length g - 1) + dg))"
      "pdeg (pval g) (32 * (length g - 1) + dg)" using normal_degree [OF assms(2)] by blast
  have ne: "f \<noteq> []" "g \<noteq> []" using assms by (auto simp: normal_def)
  obtain gtemp where a: "align (int df) g = Some gtemp" using align_Some [OF g(2,1) f(1)] by blast
  show thesis
    using that [OF f(2,3) g(3) f(4) g(4) a] align_spec [OF g(2,1) f(1) ne(2) g(4), of "length f"] a ne(1) by auto
qed

lemma remainder_spec:
  assumes "normal f" "normal g"
  shows "\<exists>r. remainder f g = Some r \<and> prem (pval f) (pval g) (pval r) \<and> (normal r \<or> r = [0])"
proof -
  obtain df D F gtemp where s: "getDegree (f ! 0) = int df" "getDegrees f = Some (int F)" "getDegrees g = Some (int D)"
    "pdeg (pval f) F" "pdeg (pval g) D" "align (int df) g = Some gtemp"
    and inv: "D \<le> F \<Longrightarrow> div_inv (pval g) D (length f) F gtemp 0 (push_bit df 1)"
    by (rule division_start [OF assms]) (rule that, assumption+)
  have ne: "f \<noteq> []" "g \<noteq> []" using assms by (auto simp: normal_def)
  show ?thesis
  proof (cases "F < D")
    case True
    then have "(2 :: nat) ^ (F + 1) \<le> 2 ^ D" by (intro power_increasing) simp_all
    then have "pval f < 2 ^ D" using s(4) unfolding pdeg_def by linarith
    then have "prem (pval f) (pval g) (pval f)" using s(5) by (auto simp: prem_def)
    then show ?thesis using True s ne assms(1) by (simp add: remainder_def)
  next
    case False
    then have F: "D + (F - D + 1) - 1 = F" "int D + int (F - D + 1) - 1 = int F" "D + (F - D + 1) = F + 1" by simp_all
    obtain r where r: "rem_loop (int F) (int D) f gtemp (push_bit df 1) 0 = Some r" "length r = length f"
        "pdvd (pval g) (pval f XOR pval r)" "pval r < 2 ^ D"
      using rem_loop_spec [OF s(5), of "F - D + 1" f gtemp 0 "push_bit df 1"] inv s(4) False
      unfolding F by (auto simp: pdeg_def)
    have "remainder f g = Some (trim r)" using False s ne r(1) by (simp add: remainder_def)
    moreover have "r \<noteq> []" using r(2) ne by auto
    ultimately show ?thesis using r(3,4) s(5) trim_normal [of r] by (auto simp: prem_def trim_pval)
  qed
qed

lemma quotient_spec:
  assumes "normal f" "normal g" "pdeg (pval f) F" "pdeg (pval g) D" "D \<le> F"
  shows "\<exists>q. quotient f g = Some q \<and> normal q \<and> pval f XOR pmul (pval q) (pval g) < 2 ^ D"
proof -
  obtain df D' F' gtemp where s: "getDegree (f ! 0) = int df" "getDegrees f = Some (int F')" "getDegrees g = Some (int D')"
    "pdeg (pval f) F'" "pdeg (pval g) D'" "align (int df) g = Some gtemp"
    and inv: "D' \<le> F' \<Longrightarrow> div_inv (pval g) D' (length f) F' gtemp 0 (push_bit df 1)"
    by (rule division_start [OF assms(1,2)]) (rule that, assumption+)
  have e: "F' = F" "D' = D" using s assms pdeg_unique by blast+
  have ne: "f \<noteq> []" "g \<noteq> []" using assms by (auto simp: normal_def)
  have F: "D + (F - D + 1) - 1 = F" "int D + int (F - D + 1) - 1 = int F" "D + (F - D + 1) = F + 1"
    using assms(5) by simp_all
  have "bit (pval f) F" using assms(3) by (simp add: pdeg_iff_bit)
  then obtain q Q where "quot_loop (int F) (int D) [0] f gtemp (push_bit df 1) 0 = Some q" "pval q = Q"
      "pval f XOR pmul Q (pval g) < 2 ^ D" "normal q"
    using quot_loop_spec [OF assms(4), of "F - D + 1" f gtemp 0 "push_bit df 1" "[0]"] inv s(4) assms(3,5) e
    unfolding F by (auto simp: pdeg_def)
  then show ?thesis using s ne assms(5) e by (simp add: quotient_def)
qed

subsection \<open>Greatest common divisor and least common multiple\<close>

lemma gcd_poly_spec:
  "normal f \<Longrightarrow> normal g \<or> g = [0] \<Longrightarrow>
     \<exists>d. gcd_poly f g = Some d \<and> normal d \<and> bezout (pval f) (pval g) (pval d)"
proof (induction "pval g" arbitrary: f g rule: less_induct)
  case less
  show ?case
  proof (cases "g = [0]")
    case True
    then show ?thesis using less.prems bezout_0 by (subst gcd_poly.simps) simp
  next
    case False
    then have g: "normal g" using less.prems by simp
    then have n: "\<not> (length g = 1 \<and> g ! 0 = 0)" by (simp add: normal_def)
    obtain r where r: "remainder f g = Some r" "prem (pval f) (pval g) (pval r)" "normal r \<or> r = [0]"
      using remainder_spec [OF less.prems(1) g] by blast
    have "pval r < pval g" using r(2) unfolding prem_def pdeg_def by (meson less_le_trans)
    then obtain d where d: "gcd_poly g r = Some d" "normal d" "bezout (pval g) (pval r) (pval d)"
      using less.hyps [of r g] g r(3) by blast
    have "bezout (pval f) (pval g) (pval d)" using bezout_step [OF d(3)] r(2) by (simp add: prem_def)
    moreover have "gcd_poly f g = Some d" using n r(1) d(1) by (subst gcd_poly.simps) (simp only: if_False bind.bind_lunit)
    ultimately show ?thesis using d(2) by blast
  qed
qed

lemma gcdSpecial_spec:
  assumes "normal f" "normal g"
  shows "\<exists>d. gcdSpecial f g = Some d \<and> normal d \<and> bezout (pval f) (pval g) (pval d)"
proof -
  obtain F D where "getDegrees f = Some F" "getDegrees g = Some D"
    using normal_degree [OF assms(1)] normal_degree [OF assms(2)] by blast
  then show ?thesis
    using gcd_poly_spec [of f g] gcd_poly_spec [of g f] assms bezout_commute by (auto simp: gcdSpecial_def)
qed

lemma multiplyPoly_by_normal:
  assumes "normal f" "w \<noteq> 0"
  shows "normal (multiplyPoly_by f w)" "length (multiplyPoly_by f w) \<le> length f + 1" "length f \<le> length (multiplyPoly_by f w)"
proof -
  obtain vs p where vs: "mul_words w f = (vs, p)" by fastforce
  then have s: "length vs = length f" "unat p < 2 ^ 32" using mul_words_spec [of w f] by auto
  show "length (multiplyPoly_by f w) \<le> length f + 1" "length f \<le> length (multiplyPoly_by f w)"
    using vs s(1) by (simp_all add: multiplyPoly_by_def)
  obtain F d where d: "pdeg (pval f) F" "pdeg (unat w) d"
    using pdeg_exists normal_pval_pos [OF assms(1)] assms(2) by (metis unat_gt_0)
  show "normal (multiplyPoly_by f w)"
  proof (cases "p > 0")
    case True
    then have "unat p \<noteq> 0" by (simp add: word_gt_0 unat_eq_zero)
    then have "unat (ucast (p AND ucast lowerBitsMask) :: poly) \<noteq> 0" using s(2) by (simp only: low_word) simp
    then have "(ucast (p AND ucast lowerBitsMask) :: poly) \<noteq> 0" by (metis unat_0)
    then show ?thesis using True vs by (simp add: multiplyPoly_by_def normal_def)
  next
    case False
    have "32 * (length f - 1) \<le> F"
      using assms(1) d(1) unfolding normal_iff pdeg_def
      by (metis Suc_eq_plus1 less_Suc_eq_le order_le_less_trans power_less_imp_less_exp one_less_numeral_iff semiring_norm(76))
    then have "(2 :: nat) ^ (32 * (length f - 1)) \<le> 2 ^ (F + d)" by (intro power_increasing) simp_all
    also have "\<dots> \<le> pval (multiplyPoly_by f w)" using pdeg_pmul [OF d] by (simp add: multiplyPoly_by_pval pdeg_def)
    finally show ?thesis using False vs s(1) assms(1) unfolding normal_iff by (auto simp: multiplyPoly_by_def)
  qed
qed

lemma multiply_loop_length:
  "length f + 1 \<le> length res \<Longrightarrow> normal f \<Longrightarrow> multiply_loop f res g = Some r \<Longrightarrow> length r = length res + (length g - 1)"
proof (induction g arbitrary: res)
  case (Cons w g)
  let ?p = "addPoly res (multiplyPoly_by f w)"
  have "length (multiplyPoly_by f w) \<le> length f + 1"
    using mul_words_spec [of w f] by (auto simp: multiplyPoly_by_def split: prod.splits)
  then have p: "length ?p = length res" using Cons.prems(1) by (simp add: addPoly_length)
  show ?case
  proof (cases "g = []")
    case True
    then show ?thesis using Cons.prems p by (simp add: multiplyPoly_res_def)
  next
    case False
    then have "multiply_loop f (?p @ [0]) g = Some r"
      using Cons.prems(3) by (simp add: multiplyPoly_res_def shiftLeft_def)
    then have "length r = length (?p @ [0]) + (length g - 1)"
      using Cons.IH [of "?p @ [0]"] Cons.prems(1,2) p by simp
    then show ?thesis using p False by (cases g) simp_all
  qed
qed simp

lemma multiplyPoly_normal:
  assumes "normal f" "normal g" "multiplyPoly [] f g = Some r"
  shows "normal r"
proof -
  obtain w g' where g: "g = w # g'" "w \<noteq> 0" using assms(2) by (cases g) (auto simp: normal_def)
  let ?p = "multiplyPoly_by f w"
  note p = multiplyPoly_by_normal [OF assms(1) g(2)]
  have add: "addPoly [] ?p = ?p" by (simp add: addPoly_def)
  have len: "length r = length ?p + length g'"
  proof (cases "g' = []")
    case True
    then show ?thesis using assms(3) g add by (simp add: multiplyPoly_def multiplyPoly_res_def)
  next
    case False
    then have "multiply_loop f (?p @ [0]) g' = Some r"
      using assms(3) g add by (simp add: multiplyPoly_def multiplyPoly_res_def shiftLeft_def)
    then have "length r = length (?p @ [0]) + (length g' - 1)"
      using multiply_loop_length [of f "?p @ [0]" g' r] p assms(1) by simp
    then show ?thesis using False by (cases g') simp_all
  qed
  have val: "pval r = pmul (pval f) (pval g)" using multiplyPoly_spec [of f g] assms(3) by auto
  obtain F d where d: "pdeg (pval f) F" "pdeg (unat w) d"
    using pdeg_exists normal_pval_pos [OF assms(1)] g(2) by (metis unat_gt_0)
  have "pdeg (pval ?p) (F + d)" using pdeg_pmul [OF d] by (simp add: multiplyPoly_by_pval)
  then have "pval ?p < 2 ^ (F + d + 1)" by (simp add: pdeg_def)
  then have "(2 :: nat) ^ (32 * (length ?p - 1)) < 2 ^ (F + d + 1)" using p(1) unfolding normal_iff by linarith
  then have "32 * (length ?p - 1) < F + d + 1" by (rule power_less_imp_less_exp [rotated]) simp
  moreover have "length ?p \<noteq> 0" using p(1) by (auto simp: normal_def)
  ultimately have "32 * (length r - 1) \<le> F + (32 * length g' + d)" unfolding len by simp
  then have "(2 :: nat) ^ (32 * (length r - 1)) \<le> 2 ^ (F + (32 * length g' + d))" by (intro power_increasing) simp_all
  also have "\<dots> \<le> pval r" using pdeg_pmul [OF d(1) pdeg_Cons [OF d(2), of g']] unfolding val g(1) by (simp add: pdeg_def)
  finally show ?thesis using len \<open>length ?p \<noteq> 0\<close> unfolding normal_iff by auto
qed

lemma pdvd_degree: "pdvd d s \<Longrightarrow> pdeg d D \<Longrightarrow> pdeg s S \<Longrightarrow> D \<le> S"
proof -
  assume a: "pdvd d s" "pdeg d D" "pdeg s S"
  then obtain c where c: "s = pmul d c" by (auto simp: pdvd_def)
  have "c \<noteq> 0" using pdeg_pos [OF a(3)] c by (intro notI) simp
  then obtain e where "pdeg c e" using pdeg_exists by blast
  then have "pdeg s (D + e)" using pdeg_pmul [OF a(2)] c by simp
  then have "S = D + e" by (rule pdeg_unique [OF a(3)])
  then show ?thesis by simp
qed

lemma exact_quotient:
  assumes "normal s" "normal g" "pdvd (pval g) (pval s)"
  shows "\<exists>q. quotient s g = Some q \<and> normal q \<and> pval s = pmul (pval q) (pval g)"
proof -
  obtain S D where d: "pdeg (pval s) S" "pdeg (pval g) D" using assms(1,2) by (metis pdeg_exists normal_pval_pos)
  then have "D \<le> S" using pdvd_degree assms(3) by blast
  then obtain q where q: "quotient s g = Some q" "normal q" "pval s XOR pmul (pval q) (pval g) < 2 ^ D"
    using quotient_spec [OF assms(1,2) d] by blast
  have "pdvd (pval g) (pval s XOR pmul (pval q) (pval g))" using assms(3) by (intro pdvd_xor) simp_all
  then have "pval s XOR pmul (pval q) (pval g) = 0" using d(2) q(3) by (rule pdvd_less_0)
  then show ?thesis using q by auto
qed

lemma lcm_poly_spec:
  assumes "normal t" "normal s"
  shows "\<exists>m. lcm_poly t s = Some m \<and> normal m \<and> is_plcm (pval t) (pval s) (pval m)"
proof (cases "length t = 1 \<and> length s = 1 \<and> t ! 0 = 1 \<and> s ! 0 = 1")
  case True
  then have "t = [1]" "s = [1]" by (auto simp: length_Suc_conv)
  then show ?thesis using assms(1) True by (auto simp: lcm_poly_def is_plcm_def)
next
  case False
  obtain g where g: "gcdSpecial t s = Some g" "normal g" "bezout (pval t) (pval s) (pval g)"
    using gcdSpecial_spec [OF assms] by blast
  have dvd: "pdvd (pval g) (pval s)" using g(3) by (simp add: bezout_def)
  obtain q where q: "quotient s g = Some q" "normal q" "pval s = pmul (pval q) (pval g)"
    using exact_quotient [OF assms(2) g(2) dvd] by blast
  obtain D S where d: "getDegrees s = Some (int S)" "getDegrees g = Some (int D)" "pdeg (pval s) S" "pdeg (pval g) D"
    using normal_degree [OF assms(2)] normal_degree [OF g(2)] by blast
  have le: "D \<le> S" using pdvd_degree [OF dvd d(4,3)] .
  obtain m where m: "multiplyPoly [] t q = Some m" "pval m = pmul (pval t) (pval q)"
    using multiplyPoly_spec by blast
  have "lcm_poly t s = Some m"
    unfolding lcm_poly_def if_not_P [OF False] using g(1) d(1,2) le q(1) m(1) by simp
  moreover have "normal m" using multiplyPoly_normal [OF assms(1) q(2) m(1)] .
  moreover have "is_plcm (pval t) (pval s) (pval m)"
    unfolding m(2) using g(2,3) q(3) normal_pval_pos by (intro bezout_plcm) auto
  ultimately show ?thesis by blast
qed

subsection \<open>Properties\<close>

text \<open>
  C35: division of polynomials. On normal vectors \<^verbatim>\<open>remainder\<close> returns the remainder over the field
  with two elements, again normal or the single word 0; \<^verbatim>\<open>quotient\<close> returns the normal vector that,
  times the divisor, leaves this remainder, and fails its assertion exactly when the degree of the
  dividend is the smaller one.
\<close>

theorem poly_division:
  assumes "normal f" "normal g"
  shows "\<exists>r. remainder f g = Some r \<and> (normal r \<or> r = [0]) \<and> prem (pval f) (pval g) (pval r)
    \<and> (if the (getDegrees g) \<le> the (getDegrees f)
       then \<exists>q. quotient f g = Some q \<and> normal q \<and> pval f = pmul (pval q) (pval g) XOR pval r
       else quotient f g = None)"
proof -
  obtain r where r: "remainder f g = Some r" "prem (pval f) (pval g) (pval r)" "normal r \<or> r = [0]"
    using remainder_spec [OF assms] by blast
  obtain df D F gtemp where s: "getDegree (f ! 0) = int df" "getDegrees f = Some (int F)" "getDegrees g = Some (int D)"
    "pdeg (pval f) F" "pdeg (pval g) D" "align (int df) g = Some gtemp"
    by (rule division_start [OF assms]) (rule that, assumption+)
  show ?thesis
  proof (cases "D \<le> F")
    case True
    obtain q where q: "quotient f g = Some q" "normal q" "pval f XOR pmul (pval q) (pval g) < 2 ^ D"
      using quotient_spec [OF assms s(4,5) True] by blast
    have "prem (pval f) (pval g) (pval f XOR pmul (pval q) (pval g))"
      using q(3) s(5) by (auto simp: prem_def)
    then have "pval r = pval f XOR pmul (pval q) (pval g)" using r(2) prem_unique by blast
    then have "pval f = pmul (pval q) (pval g) XOR pval r" by (metis xor.commute xor_self_left)
    then show ?thesis using r q s(2,3) True by auto
  next
    case False
    then have "quotient f g = None" using s by (simp add: quotient_def)
    then show ?thesis using r s(2,3) False by auto
  qed
qed

theorem poly_division_witness:
  "remainder [0x11b, 7] [5] = Some [3] \<and> prem (pval [0x11b, 7]) 5 3"
proof -
  have "remainder [0x11b, 7] [5] = Some [3]" by code_simp
  then show ?thesis using poly_division [of "[0x11b, 7]" "[5]"] by (auto simp: normal_def)
qed

text \<open>
  C34: \<^verbatim>\<open>gcd\<close> ends and is right. For normal vectors \<^verbatim>\<open>gcdSpecial\<close>, whichever degree is larger, returns a
  normal vector that divides both and is divided by every common divisor.
\<close>

theorem poly_gcd:
  assumes "normal f" "normal g"
  shows "\<exists>d. gcdSpecial f g = Some d \<and> normal d \<and> is_pgcd (pval f) (pval g) (pval d)"
  using gcdSpecial_spec [OF assms] bezout_pgcd by blast

theorem poly_gcd_witness:
  "gcdSpecial [5] [6] = Some [3] \<and> is_pgcd 5 6 3"
proof -
  have "gcdSpecial [5] [6] = Some [3]" by code_simp
  then show ?thesis using poly_gcd [of "[5]" "[6]"] by (auto simp: normal_def)
qed

text \<open>
  C33: \<^verbatim>\<open>lcm\<close> is right. For normal vectors it returns a normal vector, so it can be applied again,
  that both divide and that divides every common multiple.
\<close>

theorem poly_lcm:
  assumes "normal t" "normal s"
  shows "\<exists>m. lcm_poly t s = Some m \<and> normal m \<and> is_plcm (pval t) (pval s) (pval m)"
  by (rule lcm_poly_spec [OF assms])

theorem poly_lcm_witness:
  "lcm_poly [6] [5] = Some [10] \<and> is_plcm 6 5 10"
proof -
  have "lcm_poly [6] [5] = Some [10]" by code_simp
  then show ?thesis using poly_lcm [of "[6]" "[5]"] by (auto simp: normal_def)
qed

text \<open>
  \<^verbatim>\<open>multiplyPoly\<close> is exact. The product of two vectors, accumulated in 64 bits word by word, denotes
  the product of the polynomials, whatever their lengths.
\<close>

theorem poly_multiply: "map_option pval (multiplyPoly [] f g) = Some (pmul (pval f) (pval g))"
  using multiplyPoly_spec [of f g] by auto

end
