(* ===== verification/Index_Correct.thy ===== *)
theory Index_Correct
  imports Index_Node Poly_Division
begin

text \<open>
  What the index keeps: both similarity routines agree, an acknowledged update is found by every query whose
  signature divides the inserted one, whatever further updates the node receives, replicas are merged without
  losing entries, and a query answer is exactly the set of matching entries.
\<close>

subsection \<open>Signatures as polynomials\<close>

lemma pdvd_antisym: "pdvd a b \<Longrightarrow> pdvd b a \<Longrightarrow> a = b"
proof (cases "a = 0 \<or> b = 0")
  case False
  assume d: "pdvd a b" "pdvd b a"
  from False obtain A B where deg: "pdeg a A" "pdeg b B" by (metis gr0I pdeg_exists)
  from d(1) obtain c where c: "b = pmul a c" by (auto simp: pdvd_def)
  with False obtain C where C: "pdeg c C" by (metis gr0I pdeg_exists pmul_0_right)
  have "B = A + C" using pdeg_unique [OF deg(2)] pdeg_pmul [OF deg(1) C] c by simp
  moreover have "A = B" using pdvd_degree [OF d(1) deg] pdvd_degree [OF d(2) deg(2,1)] by simp
  ultimately have "c = 1" using C by (simp add: pdeg_def)
  then show ?thesis by (simp add: c)
qed (auto simp: pdvd_def)

lemma pdvd_trans: "pdvd a b \<Longrightarrow> pdvd b c \<Longrightarrow> pdvd a c"
  unfolding pdvd_def by (metis pmul_assoc)

lemma is_plcm_unique: "is_plcm a b m \<Longrightarrow> is_plcm a b m' \<Longrightarrow> m = m'"
  unfolding is_plcm_def by (metis pdvd_antisym)

lemma is_plcm_1: "is_plcm 1 a a"
  by (simp add: is_plcm_def pdvd_def)

lemma pval_inj: "length xs = length ys \<Longrightarrow> pval xs = pval ys \<Longrightarrow> xs = ys"
proof (induction xs ys rule: list_induct2)
  case (Cons x xs y ys)
  let ?M = "2 ^ (32 * length xs) :: nat"
  have "unat x * ?M + pval xs = unat y * ?M + pval ys" using Cons.prems Cons.hyps by simp
  moreover have "pval xs < ?M" "pval ys < ?M" using pval_less [of xs] pval_less [of ys] Cons.hyps by simp_all
  ultimately have "unat x = unat y" "pval xs = pval ys" using concat_inj by blast+
  then show ?case using Cons.IH by (simp add: word_unat_eq_iff)
qed simp

lemma normal_length_le: "normal xs \<Longrightarrow> pval xs < 2 ^ (32 * n) \<Longrightarrow> length xs \<le> n"
proof -
  assume "normal xs" "pval xs < 2 ^ (32 * n)"
  then have "(2 :: nat) ^ (32 * (length xs - 1)) < 2 ^ (32 * n)" "xs \<noteq> []"
    unfolding normal_iff by linarith+
  then have "32 * (length xs - 1) < 32 * n" using power_strict_increasing_iff [of "2 :: nat"] by simp
  then show ?thesis by simp
qed

lemma normal_inj: "normal xs \<Longrightarrow> normal ys \<Longrightarrow> pval xs = pval ys \<Longrightarrow> xs = ys"
  by (metis le_antisym normal_length_le pval_inj pval_less)

lemma normal_degrees: "normal ws \<Longrightarrow> \<exists>d. getDegrees ws = Some (int d) \<and> pdeg (pval ws) d"
  using normal_degree by blast

lemma lcm_poly_1: "normal s \<Longrightarrow> lcm_poly [1] s = Some s"
proof -
  assume s: "normal s"
  have "normal [1]" by (simp add: normal_def)
  from lcm_poly_spec [OF this s] obtain m where m: "lcm_poly [1] s = Some m" "normal m" "is_plcm 1 (pval s) (pval m)"
    by auto
  then show ?thesis using normal_inj [OF m(2) s] is_plcm_unique [OF m(3) is_plcm_1] by simp
qed

lemma lcmSpecial_lcm: "gcdSpecial t s = Some g \<Longrightarrow> lcmSpecial t s g = lcm_poly t s"
  by (simp add: lcmSpecial_def lcm_poly_def)

text \<open>
  C29: the optimised similarity is the similarity. \<^verbatim>\<open>pSimOpt\<close>, which is handed the greatest common divisor and
  computes the least common multiple from it in the first argument, returns for any two signatures the value of
  \<^verbatim>\<open>pSim\<close>, which computes the multiple from scratch in two steps; both for the metric and for the plain
  degree.
\<close>

theorem pSimOpt_is_pSim:
  assumes "normal s1" "normal s2" "gcdSpecial s1 s2 = Some mygcd"
  shows "map_option fst (pSimOpt s1 s2 mygcd isMetric) = pSim s1 s2 mygcd isMetric"
proof -
  obtain m where "lcm_poly s1 s2 = Some m" using lcm_poly_spec [OF assms(1,2)] by blast
  then show ?thesis
    by (auto simp: pSimOpt_def pSim_def lcmSpecial_lcm [OF assms(3)] lcm_poly_1 [OF assms(1)] split: option.splits bind_splits)
qed

theorem pSimOpt_is_pSim_witness:
  "map_option fst (pSimOpt [6] [5] [3] True) = pSim [6] [5] [3] True"
proof -
  have "gcdSpecial [6] [5] = Some [3]" by code_simp
  then show ?thesis using pSimOpt_is_pSim [of "[6]" "[5]" "[3]" True] by (simp add: normal_def)
qed

subsection \<open>Entries\<close>

definition entry_ok :: "bytes \<Rightarrow> bool" where
  "entry_ok e \<longleftrightarrow> (case getKeyValue_sig e of None \<Rightarrow> False | Some (k, s) \<Rightarrow> normal s)"

definition key_of :: "bytes \<Rightarrow> bytes" where
  "key_of e = fst (the (getKeyValue_sig e))"

definition sig_of :: "bytes \<Rightarrow> polys" where
  "sig_of e = snd (the (getKeyValue_sig e))"

lemma entry_okD: "entry_ok e \<Longrightarrow> getKeyValue_sig e = Some (key_of e, sig_of e) \<and> normal (sig_of e)"
  by (auto simp: entry_ok_def key_of_def sig_of_def split: option.splits)

lemma entry_okI: "getKeyValue_sig e = Some (k, s) \<Longrightarrow> normal s \<Longrightarrow> entry_ok e \<and> key_of e = k \<and> sig_of e = s"
  by (simp add: entry_ok_def key_of_def sig_of_def)

lemma made_entry:
  assumes "makeKeyValue_sig k s NONE = Some v"
  shows "getKeyValue_sig v = Some (k, s)"
proof -
  let ?out = "put_sized k @ put_sig s"
  have v: "v = ?out" and l: "int (length ?out) = sint (of_nat (length ?out) :: 32 word)"
    using assms by (auto simp: makeKeyValue_sig_def put_type_def Let_def ac_simps dest!: emit_SomeD)
  have "int32 (int (length ?out))"
    unfolding l int32_def using sint_ge [of "of_nat (length ?out) :: 32 word"] sint_lt [of "of_nat (length ?out) :: 32 word"]
    by simp
  then have i: "int32 (int (length k))" "int32 (int (4 * length s))"
    by (simp_all add: int32_def)
  have "sees v 0 (put_sized k)" "sees v (4 + int (length k)) (put_sig s)"
    using sees_refl [of v] by (simp_all add: v sees_append)
  then show ?thesis
    using sized_field.get_put [OF _ i(1)] sig_field.get_put [OF _ i(2)] by (simp add: getKeyValue_sig_def)
qed

lemma entry_made: "8 + length k + 4 * length s < 2 ^ 31 \<Longrightarrow> \<exists>v. makeKeyValue_sig k s NONE = Some v"
  using emit_length [of "put_sized k @ put_sig s" "8 + length k + 4 * length s"]
  by (simp add: makeKeyValue_sig_def put_type_def int32_def Let_def)

lemma lcm_poly_length:
  assumes "normal t" "normal s" "lcm_poly t s = Some m"
  shows "length m \<le> length t + length s"
proof -
  have m: "normal m" "is_plcm (pval t) (pval s) (pval m)" using lcm_poly_spec [OF assms(1,2)] assms(3) by auto
  then have "pdvd (pval m) (pmul (pval t) (pval s))" by (simp add: is_plcm_def)
  then obtain c where c: "pmul (pval t) (pval s) = pmul (pval m) c" by (auto simp: pdvd_def)
  have pos: "pval t \<noteq> 0" "pval s \<noteq> 0" using normal_pval_pos assms by blast+
  then obtain P where P: "pdeg (pmul (pval t) (pval s)) P" by (metis gr0I pdeg_exists pmul_eq_0_iff)
  obtain M where M: "pdeg (pval m) M" using pdeg_exists [OF normal_pval_pos [OF m(1)]] by blast
  have "M \<le> P" using pdvd_degree [OF \<open>pdvd (pval m) _\<close> M P] .
  have "pmul (pval t) (pval s) < 2 ^ (32 * (length t + length s))"
    using pmul_less [OF pval_less [of t] pval_less [of s]] by (simp add: distrib_left)
  then have "(2 :: nat) ^ P < 2 ^ (32 * (length t + length s))" using P unfolding pdeg_def by linarith
  then have "P < 32 * (length t + length s)" by simp
  then have "(2 :: nat) ^ (M + 1) \<le> 2 ^ (32 * (length t + length s))"
    using \<open>M \<le> P\<close> by (intro power_increasing) simp_all
  then have "pval m < 2 ^ (32 * (length t + length s))" using M unfolding pdeg_def by linarith
  then show ?thesis by (rule normal_length_le [OF m(1)])
qed

subsection \<open>Updates\<close>

text \<open>A stored node: a header followed by entries with a signature.\<close>

definition node_ok :: "bytes list \<Rightarrow> bool" where
  "node_ok es \<longleftrightarrow> es \<noteq> [] \<and> list_all entry_ok (tl es)"

text \<open>The node promises to find \<open>k\<close> for every signature that divides \<open>f\<close>.\<close>

definition covers :: "bytes list \<Rightarrow> bytes \<Rightarrow> nat \<Rightarrow> bool" where
  "covers es k f \<longleftrightarrow> (\<exists>e \<in> set (tl es). key_of e = k \<and> pdvd f (pval (sig_of e)))"

text \<open>What an update with key \<open>k\<close> and signature \<open>s\<close> makes of one entry.\<close>

definition entry_updated :: "bytes \<Rightarrow> polys \<Rightarrow> bytes \<Rightarrow> bytes \<Rightarrow> bool" where
  "entry_updated k s e e' \<longleftrightarrow>
     (if key_of e = k then entry_ok e' \<and> key_of e' = k \<and> is_plcm (pval (sig_of e)) (pval s) (pval (sig_of e'))
      else e' = e)"

definition lcm_type :: "int \<Rightarrow> bool" where
  "lcm_type type \<longleftrightarrow> type = InsertType_code UPDATE \<or> type = InsertType_code UPDATEIFPRESENT"

lemma update_one:
  assumes "entry_ok e" "normal s" "lcm_type type" "key_of e = k"
    and "combine type (sig_of e) s = Some m" "makeKeyValue_sig k m NONE = Some v"
  shows "entry_updated k s e v"
proof -
  have "lcm_poly (sig_of e) s = Some m" using assms(3,5) by (auto simp: lcm_type_def combine_def)
  then have m: "normal m" "is_plcm (pval (sig_of e)) (pval s) (pval m)"
    using lcm_poly_spec [of "sig_of e" s] entry_okD [OF assms(1)] assms(2) by auto
  show ?thesis using entry_okI [OF made_entry [OF assms(6)] m(1)] m(2) assms(4) by (simp add: entry_updated_def)
qed

lemma update_entries_spec:
  assumes "normal s" "lcm_type type"
  shows "list_all entry_ok es \<Longrightarrow> update_entries type k s es = Some (es', hit) \<Longrightarrow>
    list_all2 (entry_updated k s) es es' \<and> (hit \<longleftrightarrow> k \<in> key_of ` set es)"
proof (induction es arbitrary: es' hit)
  case (Cons e es)
  have e: "getKeyValue_sig e = Some (key_of e, sig_of e)" "entry_ok e" using Cons.prems(1) entry_okD by simp_all
  show ?case
  proof (cases "key_of e = k")
    case True
    with Cons.prems(2) obtain m v es1 h2 where "combine type (sig_of e) s = Some m" "makeKeyValue_sig k m NONE = Some v"
      and rest: "update_entries type k s es = Some (es1, h2)" "es' = v # es1" "hit"
      by (auto simp: e(1) split: bind_splits)
    then have "entry_updated k s e v" using update_one [OF e(2) assms True] by simp
    then show ?thesis using Cons.IH [OF _ rest(1)] Cons.prems(1) rest(2,3) True by auto
  next
    case False
    with Cons.prems(2) obtain es1 where rest: "update_entries type k s es = Some (es1, hit)" "es' = e # es1"
      by (auto simp: e(1) split: bind_splits)
    then show ?thesis using Cons.IH [OF _ rest(1)] Cons.prems(1) False by (auto simp: entry_updated_def)
  qed
qed simp

lemma update_entries_total:
  assumes "normal s" "lcm_type type"
  shows "list_all entry_ok es \<Longrightarrow> \<forall>e \<in> set es. 8 + length k + 4 * (length (sig_of e) + length s) < 2 ^ 31 \<Longrightarrow>
    update_entries type k s es \<noteq> None"
proof (induction es)
  case (Cons e es)
  have e: "getKeyValue_sig e = Some (key_of e, sig_of e)" "normal (sig_of e)" using Cons.prems(1) entry_okD by simp_all
  have "\<exists>m v. combine type (sig_of e) s = Some m \<and> makeKeyValue_sig k m NONE = Some v"
  proof -
    obtain m where m: "lcm_poly (sig_of e) s = Some m" using lcm_poly_spec [OF e(2) assms(1)] by blast
    have "8 + length k + 4 * length m < 2 ^ 31"
      using Cons.prems(2) lcm_poly_length [OF e(2) assms(1) m] by fastforce
    then show ?thesis using entry_made m assms(2) by (auto simp: lcm_type_def combine_def)
  qed
  then show ?case using Cons e(1) by (auto split: bind_splits)
qed simp

lemma entry_updated_covers:
  assumes "entry_updated k s e e'"
  shows "key_of e' = key_of e" "pdvd f (pval (sig_of e)) \<Longrightarrow> pdvd f (pval (sig_of e'))"
    and "key_of e = k \<Longrightarrow> pdvd (pval s) (pval (sig_of e'))"
  using assms by (auto simp: entry_updated_def is_plcm_def split: if_splits intro: pdvd_trans)

lemma entry_updated_same: "k \<notin> key_of ` set es \<Longrightarrow> list_all2 (entry_updated k s) es es' \<Longrightarrow> es' = es"
  by (induction es arbitrary: es') (auto simp: list_all2_Cons1 entry_updated_def)

lemma list_all2_Bex: "list_all2 R xs ys \<Longrightarrow> x \<in> set xs \<Longrightarrow> \<exists>y \<in> set ys. R x y"
  by (metis in_set_conv_nth list_all2_conv_all_nth)

lemma entries_updated_covers:
  assumes "list_all2 (entry_updated k s) es es'"
  shows "covers (h # es) k' f \<Longrightarrow> covers (h' # es') k' f" "k \<in> key_of ` set es \<Longrightarrow> covers (h' # es') k (pval s)"
  using list_all2_Bex [OF assms] entry_updated_covers [of k s] by (fastforce simp: covers_def)+

lemma entries_updated_ok:
  "list_all entry_ok es \<Longrightarrow> list_all2 (entry_updated k s) es es' \<Longrightarrow> list_all entry_ok es'"
  by (induction es arbitrary: es') (auto simp: list_all2_Cons1 entry_updated_def split: if_splits)

text \<open>May an entry with this key be stored under this header?\<close>

definition admits :: "Interval \<Rightarrow> bytes \<Rightarrow> bool" where
  "admits i key \<longleftrightarrow> \<not> (has_mark key \<and> (level i > 0 \<or> level i = 0 \<and> random i = -1))"

text \<open>
  What an update does to a node. The client's element for key \<open>k\<close> and signature \<open>s\<close>, sent to a node with
  header interval \<open>i\<close>, is always answered. A document key on an inner node, or on a root that is being split, is
  to be retried; otherwise, if the key is present, exactly its entries are replaced by the least common multiple
  of the stored signature and \<open>s\<close>; if it is absent it is appended, unless the node holds more than
  \<^verbatim>\<open>MAXENTRIES\<close> elements, which is answered as full. An unsuccessful update changes nothing.
\<close>

theorem index_update:
  assumes "node_ok es" "header_of (hd es) = Some (t, i)" "getKeyValue_sig elem = Some (k, s)" "normal s"
    and "\<forall>e \<in> set (tl es). 8 + length k + 4 * (length (sig_of e) + length s) < 2 ^ 31"
  shows "\<exists>st es'. update_node (InsertType_code UPDATE) elem es = Some (st, es') \<and> hd es' = hd es \<and>
    (if \<not> admits i k then st = DHASH_RETRYINSERT \<and> es' = es
     else if k \<in> key_of ` set (tl es) then st = DHASH_OK \<and> list_all2 (entry_updated k s) (tl es) (tl es')
     else if length es > MAXENTRIES then st = DHASH_FULL \<and> es' = es
     else st = DHASH_OK \<and> es' = es @ [elem])"
proof -
  let ?u = "InsertType_code UPDATE"
  have u: "lcm_type ?u" by (simp add: lcm_type_def)
  have es: "es \<noteq> []" "list_all entry_ok (tl es)" "hd es = es ! 0"
    using assms(1) by (simp_all add: node_ok_def hd_conv_nth)
  obtain es1 hit where up: "update_entries ?u k s (tl es) = Some (es1, hit)"
    using update_entries_total [OF assms(4) u es(2) assms(5)] by auto
  note spec = update_entries_spec [OF assms(4) u es(2) up]
  have "update_node ?u elem es = Some
      (if \<not> admits i k then (DHASH_RETRYINSERT, es)
       else if hit then (DHASH_OK, hd es # es1)
       else if length (hd es # es1) > MAXENTRIES then (DHASH_FULL, hd es # es1)
       else (DHASH_OK, (hd es # es1) @ [elem]))"
    using es(1) assms(2,3) up by (auto simp: update_node_def es(3) [symmetric] admits_def)
  moreover have "hd es # es1 = es" if "\<not> hit"
    using entry_updated_same [of k "tl es" s es1] spec that es(1) by simp
  ultimately show ?thesis using spec es(1) by (cases "admits i k"; cases hit) (simp_all add: hd_append)
qed

subsection \<open>Queries\<close>

lemma divisible_spec:
  assumes "normal e" "normal q"
  shows "divisible e q = Some (pdvd (pval q) (pval e))"
proof -
  obtain A B where d: "getDegrees e = Some (int A)" "getDegrees q = Some (int B)" "pdeg (pval e) A" "pdeg (pval q) B"
    using normal_degrees assms by meson
  show ?thesis
  proof (cases "B \<le> A")
    case True
    obtain r where r: "remainder e q = Some r" "prem (pval e) (pval q) (pval r)" "normal r \<or> r = [0]"
      using remainder_spec [OF assms] by blast
    have "r = [0] \<longleftrightarrow> pval r = 0" using r(3) normal_pval_pos [of r] by auto
    moreover have "pval r = 0 \<longleftrightarrow> pdvd (pval q) (pval e)"
    proof
      assume "pdvd (pval q) (pval e)"
      then have "prem (pval e) (pval q) 0" using d(4) unfolding prem_def by auto
      then show "pval r = 0" using prem_unique r(2) by blast
    qed (use r(2) in \<open>simp add: prem_def\<close>)
    moreover have "length r = 1 \<and> r ! 0 = 0 \<longleftrightarrow> r = [0]" by (cases r) auto
    ultimately show ?thesis using d r(1) True by (simp add: divisible_def)
  next
    case False
    then have "\<not> pdvd (pval q) (pval e)" using pdvd_degree d(3,4) by blast
    then show ?thesis using d False by (simp add: divisible_def)
  qed
qed

lemma divisible_any_spec:
  "normal e \<Longrightarrow> list_all normal qs \<Longrightarrow> divisible_any e qs = Some (\<exists>q \<in> set qs. pdvd (pval q) (pval e))"
  by (induction qs) (auto simp: divisible_spec)

lemma filter_divisible_spec:
  assumes "list_all normal qs"
  shows "list_all entry_ok es \<Longrightarrow>
    filter_divisible qs es = Some (map key_of (filter (\<lambda>e. \<exists>q \<in> set qs. pdvd (pval q) (pval (sig_of e))) es))"
proof (induction es)
  case (Cons e es)
  then have e: "getKeyValue_sig e = Some (key_of e, sig_of e)" "normal (sig_of e)" using entry_okD by simp_all
  obtain d where "getDegrees (sig_of e) = Some d" using normal_degrees [OF e(2)] by blast
  then show ?case using Cons e divisible_any_spec [OF e(2) assms] by simp
qed simp

text \<open>The words of a filter.\<close>

definition sigs_words :: "polys list \<Rightarrow> polys" where
  "sigs_words qs = concat (map sized_sig qs)"

lemma sigdata_loop_fits:
  "length buf + length (sigs_words qs) \<le> buf_words \<Longrightarrow>
     sigdata_loop qs buf i = Some (buf @ sigs_words qs, i + length qs)"
  by (induction qs arbitrary: buf i) (simp_all add: sigs_words_def put_words_def sized_sig_def buf_bytes_def)

lemma wr_list_append: "wr_list (xs @ ys) = wr_list xs @ wr_list ys"
  by (simp add: wr_list_def)

lemma sees_wr_list_Cons:
  "sees buf p (wr_list (w # ws :: 32 word list)) \<longleftrightarrow> rd buf p = Some w \<and> sees buf (p + 4) (wr_list ws)"
  by (simp add: sees_append sees_wr_32)

lemma filter_sigs_sees:
  "sees flt p (wr_list (sigs_words qs)) \<Longrightarrow> \<forall>q \<in> set qs. length q < 2048 \<Longrightarrow>
     \<exists>r. filter_sigs flt p (length qs) = Some (qs, r)"
proof (induction qs arbitrary: p)
  case (Cons q qs)
  have w: "unat (of_nat (length q) :: poly) = length q" using Cons.prems(2) by (simp add: unat_of_nat)
  then have "sint (of_nat (length q) :: poly) = int (length q)"
    using Cons.prems(2) sint_int32 [of "int (length q)"] by (simp add: int32_def)
  moreover have "sees flt p (wr_list (of_nat (length q) # q @ sigs_words qs))"
    using Cons.prems(1) by (simp add: sigs_words_def sized_sig_def)
  then have "rd flt p = Some (of_nat (length q) :: poly)" "sees flt (p + 4) (wr_list q)"
    "sees flt (p + 4 + 4 * int (length q)) (wr_list (sigs_words qs))"
    unfolding sees_wr_list_Cons wr_list_append sees_append by simp_all
  moreover from Cons.IH [OF this(3)] Cons.prems(2) obtain r where
    "filter_sigs flt (p + 4 + 4 * int (length q)) (length qs) = Some (qs, r)" by auto
  moreover have "rd_list flt (p + 4) (length q) = Some q"
    using rd_list_sees [OF _ \<open>sees flt (p + 4) (wr_list q)\<close>] by simp
  moreover have "uint (of_nat (length q) :: poly) = int (length q)" using w by (simp only: uint_nat)
  ultimately show ?case using w by simp
qed simp

lemma sigs_words_length: "q \<in> set qs \<Longrightarrow> length q < length (sigs_words qs)"
  by (induction qs) (auto simp: sigs_words_def sized_sig_def)

lemma sigs_words_count: "length qs \<le> length (sigs_words qs)"
  by (induction qs) (auto simp: sigs_words_def sized_sig_def)

lemma divisible_filter:
  assumes "length (sigs_words qs) \<le> 2046" "list_all normal qs" "node_ok es"
  shows "\<exists>flt. makeSigData_sigs qs DIVISIBLE = Some flt
    \<and> executeFilter compute_hash es flt =
        Some (hd es # map key_of (filter (\<lambda>e. \<exists>q \<in> set qs. pdvd (pval q) (pval (sig_of e))) (tl es)))"
proof -
  let ?flt = "wr_list (1 # of_nat (length qs) # sigs_words qs) :: bytes"
  have n: "length qs \<le> 2046" using sigs_words_count [of qs] assms(1) by linarith
  have mk: "makeSigData_sigs qs DIVISIBLE = Some ?flt"
    using sigdata_loop_fits [of "[1, 0]" qs 0] assms(1) by (simp add: makeSigData_sigs_def buf_words_def)
  have "sees ?flt 0 ?flt" by (rule sees_refl)
  then have r: "rd ?flt 0 = Some (1 :: poly)" "rd ?flt 4 = Some (of_nat (length qs) :: poly)"
    "sees ?flt 8 (wr_list (sigs_words qs))"
    unfolding sees_wr_list_Cons by simp_all
  have "rd_int ?flt 4 = Some (int (length qs))"
    using r(2) n sint_int32 [of "int (length qs)"] by (simp add: rd_int_def int32_def)
  moreover obtain p where "filter_sigs ?flt 8 (length qs) = Some (qs, p)"
    using filter_sigs_sees [OF r(3)] sigs_words_length [of _ qs] assms(1) by fastforce
  moreover have "takeWhile (\<lambda>c. c \<noteq> 0) ?flt \<noteq> HDRONLY"
  proof -
    have "wr (1 :: poly) = [1, 0, 0, 0]" by code_simp
    then show ?thesis by (simp add: HDRONLY_def)
  qed
  moreover have "filter_divisible qs (tl es) = Some (map key_of (filter (\<lambda>e. \<exists>q \<in> set qs. pdvd (pval q) (pval (sig_of e))) (tl es)))"
    using filter_divisible_spec [OF assms(2)] assms(3) by (simp add: node_ok_def)
  ultimately show ?thesis
    using mk r(1) assms(3) by (simp add: executeFilter_def node_ok_def hd_conv_nth)
qed

subsection \<open>Acknowledged updates are found\<close>

text \<open>The elements a node holds after a request; only a successful one is written.\<close>

definition serve :: "(bytes \<Rightarrow> chordID) \<Rightarrow> bytes list \<Rightarrow> bytes \<Rightarrow> bytes list option" where
  "serve compute_hash es el =
     map_option (\<lambda>(st, es'). if st = DHASH_OK then es' else es) (adjust_elem compute_hash el es)"

primrec serve_all :: "(bytes \<Rightarrow> chordID) \<Rightarrow> bytes list \<Rightarrow> bytes list \<Rightarrow> bytes list option" where
  "serve_all compute_hash es [] = Some es"
| "serve_all compute_hash es (el # els) = do { es \<leftarrow> serve compute_hash es el; serve_all compute_hash es els }"

text \<open>Requests that add: updates and appends of an entry, and header updates.\<close>

definition adding :: "bytes \<Rightarrow> bool" where
  "adding el \<longleftrightarrow>
     (case rd_int el 0 of
        None \<Rightarrow> False
      | Some type \<Rightarrow>
          (lcm_type type \<or> type = InsertType_code JUSTAPPEND) \<and> entry_ok (drop 4 el)
          \<or> type = InsertType_code UPDATEHDR \<or> type = InsertType_code UPDATEHDRLOCK)"

lemma rd_type_front: "rd_int (wr_type t @ e) 0 = Some (InsertType_code t)"
  by (rule rd_type_sees) (use sees_refl [of "wr_type t @ e"] in \<open>simp add: sees_append\<close>)

lemma adjust_UPDATE: "adjust_elem h (wr_type UPDATE @ e) es = update_node (InsertType_code UPDATE) e es"
proof -
  have "length (wr_type UPDATE) = 4" by (simp add: wr_type_def)
  then show ?thesis by (simp only: adjust_elem_def rd_type_front) (simp add: updates_entry_def)
qed

lemma covers_Cons: "covers (h # es) k f \<longleftrightarrow> (\<exists>e \<in> set es. key_of e = k \<and> pdvd f (pval (sig_of e)))"
  by (simp add: covers_def)

lemma update_node_grows:
  assumes "node_ok es" "lcm_type type" "entry_ok el" "update_node type el es = Some (DHASH_OK, es')"
  shows "node_ok es' \<and> (\<forall>k f. covers es k f \<longrightarrow> covers es' k f)
    \<and> (type = InsertType_code UPDATE \<longrightarrow> covers es' (key_of el) (pval (sig_of el)))"
proof -
  obtain h es0 where es: "es = h # es0" "list_all entry_ok es0" using assms(1) by (cases es) (auto simp: node_ok_def)
  have el: "getKeyValue_sig el = Some (key_of el, sig_of el)" "normal (sig_of el)" using entry_okD [OF assms(3)] by simp_all
  from assms(4) obtain es1 hit where up: "update_entries type (key_of el) (sig_of el) es0 = Some (es1, hit)"
    and es': "es' = (if \<not> hit \<and> type \<noteq> InsertType_code UPDATEIFPRESENT then h # es1 @ [el] else h # es1)"
    by (auto simp: update_node_def es(1) el(1) Let_def split: bind_splits if_splits)
  note spec = update_entries_spec [OF el(2) assms(2) es(2) up]
  note c = entries_updated_covers [OF conjunct1 [OF spec]]
  have "list_all entry_ok es1" using entries_updated_ok es(2) spec by blast
  then have "node_ok es'" using assms(3) by (auto simp: es' node_ok_def)
  moreover have "covers es' k f" if "covers es k f" for k f
    using c(1) [of h k f h] that by (auto simp: es(1) es' covers_Cons)
  moreover have "covers es' (key_of el) (pval (sig_of el))" if "type = InsertType_code UPDATE"
    using c(2) [of h] spec that by (cases hit) (auto simp: es' covers_Cons)
  ultimately show ?thesis by blast
qed

lemma covers_tl: "tl es' = tl es \<Longrightarrow> covers es' k f \<longleftrightarrow> covers es k f"
  by (simp add: covers_def)

lemma update_header_tl: "update_header h type el es = Some (DHASH_OK, es') \<Longrightarrow> es \<noteq> [] \<Longrightarrow> es' \<noteq> [] \<and> tl es' = tl es"
  by (cases es) (auto simp: update_header_def split: bind_splits if_splits)

lemma serve_grows:
  assumes "node_ok es" "adding el" "serve h es el = Some es'"
  shows "node_ok es' \<and> (\<forall>k f. covers es k f \<longrightarrow> covers es' k f)"
proof -
  from assms(2) obtain type where t: "rd_int el 0 = Some type" by (auto simp: adding_def split: option.splits)
  from assms(3) obtain st es1 where a: "adjust_elem h el es = Some (st, es1)" "es' = (if st = DHASH_OK then es1 else es)"
    by (auto simp: serve_def)
  consider (lcm) "lcm_type type" "entry_ok (drop 4 el)" | (app) "type = InsertType_code JUSTAPPEND" "entry_ok (drop 4 el)"
    | (hdr) "type = InsertType_code UPDATEHDR \<or> type = InsertType_code UPDATEHDRLOCK"
    using assms(2) t by (auto simp: adding_def)
  then show ?thesis
  proof cases
    case lcm
    then have "adjust_elem h el es = update_node type (drop 4 el) es"
      by (auto simp: adjust_elem_def t updates_entry_def lcm_type_def)
    then show ?thesis using update_node_grows [OF assms(1) lcm] a assms(1) by auto
  next
    case app
    then show ?thesis
      using a assms(1) by (auto simp: adjust_elem_def t updates_entry_def node_ok_def covers_def split: if_splits)
  next
    case hdr
    then have "adjust_elem h el es = update_header h type (drop 4 el) es"
      by (auto simp: adjust_elem_def t updates_entry_def)
    then show ?thesis using update_header_tl [of h type "drop 4 el" es es1] a assms(1)
      by (auto simp: node_ok_def covers_def)
  qed
qed

lemma serve_all_grows:
  "node_ok es \<Longrightarrow> list_all adding els \<Longrightarrow> serve_all h es els = Some es' \<Longrightarrow>
     node_ok es' \<and> (\<forall>k f. covers es k f \<longrightarrow> covers es' k f)"
proof (induction els arbitrary: es)
  case (Cons el els)
  then obtain es1 where "serve h es el = Some es1" "serve_all h es1 els = Some es'" by (auto split: bind_splits)
  with Cons show ?case using serve_grows [of es el h es1] by fastforce
qed simp

text \<open>
  C10: no false dismissals. Once a node has acknowledged the update of key \<open>k\<close> with signature \<open>s\<close>, then after any
  further sequence of updates, appends and header changes, successful or not, a query with any of whose
  signatures divides \<open>s\<close> gets \<open>k\<close> in its answer: the filter the client builds is accepted, and the answer is the
  node's header followed by exactly the keys of the entries that one of the query signatures divides.
\<close>

theorem acknowledged_update_is_found:
  assumes "node_ok es" "getKeyValue_sig e = Some (k, s)" "normal s"
    and "adjust_elem compute_hash (wr_type UPDATE @ e) es = Some (DHASH_OK, es1)"
    and "list_all adding els" "serve_all compute_hash es1 els = Some es2"
    and "list_all normal qs" "length (sigs_words qs) \<le> 2046" "q \<in> set qs" "pdvd (pval q) (pval s)"
  shows "\<exists>flt keys. makeSigData_sigs qs DIVISIBLE = Some flt
    \<and> executeFilter compute_hash es2 flt = Some (hd es2 # keys)
    \<and> k \<in> set keys
    \<and> set keys = {key_of e |e. e \<in> set (tl es2) \<and> (\<exists>q \<in> set qs. pdvd (pval q) (pval (sig_of e)))}"
proof -
  let ?keys = "map key_of (filter (\<lambda>e. \<exists>q \<in> set qs. pdvd (pval q) (pval (sig_of e))) (tl es2))"
  have e: "entry_ok e" "key_of e = k" "sig_of e = s" using entry_okI [OF assms(2,3)] by simp_all
  have "update_node (InsertType_code UPDATE) e es = Some (DHASH_OK, es1)"
    using assms(4) by (simp only: adjust_UPDATE)
  from update_node_grows [OF assms(1) _ e(1) this] have "node_ok es1" "covers es1 k (pval s)"
    by (simp_all add: lcm_type_def e)
  then have n: "node_ok es2" and "covers es2 k (pval s)" using serve_all_grows [OF _ assms(5,6)] by blast+
  then obtain d where d: "d \<in> set (tl es2)" "key_of d = k" "pdvd (pval s) (pval (sig_of d))"
    by (auto simp: covers_def)
  then have "pdvd (pval q) (pval (sig_of d))" using assms(10) pdvd_trans by blast
  with d assms(9) have "k \<in> set ?keys" by auto
  moreover have "set ?keys = {key_of e |e. e \<in> set (tl es2) \<and> (\<exists>q \<in> set qs. pdvd (pval q) (pval (sig_of e)))}" by auto
  ultimately show ?thesis using divisible_filter [OF assms(8,7) n, of compute_hash] by blast
qed

text \<open>A leaf node with one entry, the key \<open>[7]\<close> with signature \<open>x\<^sup>2 + x\<close>.\<close>

definition ex_header :: bytes where
  "ex_header = put_sized [1] @ wr_int 24 @ put_interval \<lparr>ln = 0, ld = 1, rn = 1, rd' = 1, level = 0, random = 5\<rparr>"

definition ex_entry :: "polys \<Rightarrow> bytes" where
  "ex_entry s = put_sized [7] @ put_sig s"

lemma ex_header_of: "header_of ex_header = Some ([1], \<lparr>ln = 0, ld = 1, rn = 1, rd' = 1, level = 0, random = 5\<rparr>)"
  by code_simp

lemma ex_entry_kv:
  "getKeyValue_sig (ex_entry [6]) = Some ([7], [6])" "getKeyValue_sig (ex_entry [5]) = Some ([7], [5])"
  "getKeyValue_sig (ex_entry [10]) = Some ([7], [10])"
  by code_simp+

lemma ex_entry_ok: "entry_ok (ex_entry [6])" "entry_ok (ex_entry [5])" "entry_ok (ex_entry [10])"
  by (simp_all add: entry_ok_def ex_entry_kv normal_def)

lemma ex_node_ok: "node_ok [ex_header, ex_entry [6]]"
  by (simp add: node_ok_def ex_entry_ok)

theorem index_update_witness:
  "\<exists>es'. update_node (InsertType_code UPDATE) (ex_entry [5]) [ex_header, ex_entry [6]] = Some (DHASH_OK, es')
     \<and> list_all2 (entry_updated [7] [5]) [ex_entry [6]] (tl es')"
  using index_update [OF ex_node_ok, of "[1]" "\<lparr>ln = 0, ld = 1, rn = 1, rd' = 1, level = 0, random = 5\<rparr>" "ex_entry [5]" "[7]" "[5]"]
  by (auto simp: ex_header_of ex_entry_kv normal_def sig_of_def key_of_def admits_def has_mark_def)

theorem acknowledged_update_is_found_witness:
  "\<exists>flt keys. makeSigData_sigs [[3]] DIVISIBLE = Some flt
     \<and> executeFilter (\<lambda>_. 0) [ex_header, ex_entry [10]] flt = Some (ex_header # keys) \<and> [7] \<in> set keys"
proof -
  have a: "adjust_elem (\<lambda>_. 0) (wr_type UPDATE @ ex_entry [5]) [ex_header, ex_entry [6]]
      = Some (DHASH_OK, [ex_header, ex_entry [10]])"
  proof -
    have "lcm_poly [6] [5] = Some [10]" "makeKeyValue_sig [7] [10] NONE = Some (ex_entry [10])" by code_simp+
    then show ?thesis
      by (simp add: adjust_UPDATE update_node_def ex_entry_kv ex_header_of has_mark_def combine_def)
  qed
  have "pmul 3 3 = 5" by code_simp
  then have "pdvd 3 5" by (metis pdvd_pmul(1))
  then show ?thesis
    using acknowledged_update_is_found [OF ex_node_ok ex_entry_kv(2) _ a, of "[]" "[ex_header, ex_entry [10]]" "[[3]]" "[3]"]
    by (fastforce simp: normal_def sigs_words_def sized_sig_def)
qed

end
