(* ===== verification/Index_Store.thy ===== *)
theory Index_Store
  imports Index_Correct
begin

text \<open>
  The store of an index node: the merge of replicas, the hand-over of gossip messages to the gossip process, and
  what the database holds after each of them.
\<close>

subsection \<open>Merging replicas\<close>

abbreviation weight :: "bytes list \<Rightarrow> nat" where
  "weight es \<equiv> (\<Sum>e \<leftarrow> es. length (sig_of e))"

text \<open>The first entry with the key is updated, the others stay.\<close>

lemma merge_into_spec:
  assumes "normal s"
  shows "list_all entry_ok es \<Longrightarrow> \<forall>e \<in> set es. 8 + length k + 4 * (length (sig_of e) + length s) < 2 ^ 31 \<Longrightarrow>
    \<exists>es' found. merge_into k s es = Some (es', found) \<and> list_all entry_ok es'
      \<and> list_all2 (\<lambda>e e'. e' = e \<or> entry_updated k s e e') es es'
      \<and> (found \<longleftrightarrow> k \<in> key_of ` set es) \<and> (found \<longrightarrow> covers (h # es') k (pval s))
      \<and> weight es' \<le> weight es + (if found then length s else 0)"
proof (induction es)
  case (Cons e es)
  have e: "getKeyValue_sig e = Some (key_of e, sig_of e)" "normal (sig_of e)" "entry_ok e"
    using Cons.prems(1) entry_okD by simp_all
  show ?case
  proof (cases "key_of e = k")
    case True
    obtain m where m: "lcm_poly (sig_of e) s = Some m" using lcm_poly_spec [OF e(2) assms] by blast
    note l = lcm_poly_length [OF e(2) assms m]
    then obtain v where v: "makeKeyValue_sig k m NONE = Some v" using Cons.prems(2) entry_made [of k m] by fastforce
    have up: "entry_updated k s e v"
      using update_one [OF e(3) assms, of "InsertType_code UPDATE" k m v] True m v by (simp add: lcm_type_def combine_def)
    then have "entry_ok v" "pdvd (pval s) (pval (sig_of v))" "key_of v = k"
      using True by (auto simp: entry_updated_def is_plcm_def)
    moreover have "sig_of v = m" using made_entry [OF v] by (simp add: sig_of_def)
    ultimately show ?thesis
      using Cons.prems(1) True e(1) m v up l by (auto simp: covers_def list_all2_same)
  next
    case False
    from Cons obtain es' found where I: "merge_into k s es = Some (es', found)" "list_all entry_ok es'"
      "list_all2 (\<lambda>e e'. e' = e \<or> entry_updated k s e e') es es'" "found \<longleftrightarrow> k \<in> key_of ` set es"
      "found \<longrightarrow> covers (h # es') k (pval s)" "weight es' \<le> weight es + (if found then length s else 0)"
      by auto
    then show ?thesis using False e by (auto simp: covers_def)
  qed
qed (auto simp: covers_def intro: exI [of _ False])

lemma merge_into_covers:
  assumes "list_all2 (\<lambda>e e'. e' = e \<or> entry_updated k s e e') es es'"
  shows "covers (h # es) k' f \<Longrightarrow> covers (h # es') k' f" "key_of ` set es' = key_of ` set es"
proof -
  show "covers (h # es') k' f" if "covers (h # es) k' f"
    using that list_all2_Bex [OF assms] entry_updated_covers(1,2) [of k s] unfolding covers_def by fastforce
  show "key_of ` set es' = key_of ` set es"
    using assms by (induction rule: list_all2_induct) (auto dest: entry_updated_covers(1))
qed

definition room :: "bytes list \<Rightarrow> bytes list \<Rightarrow> bool" where
  "room es ns \<longleftrightarrow> (\<forall>e \<in> set es \<union> set ns. 8 + length (key_of e) + 4 * (weight es + weight ns) < 2 ^ 31)"

lemma weight_ge: "e \<in> set es \<Longrightarrow> length (sig_of e) \<le> weight es"
  by (induction es) auto

lemma room_mono: "room es ns \<Longrightarrow> weight es' + weight ns' \<le> weight es + weight ns \<Longrightarrow>
    key_of ` (set es' \<union> set ns') \<subseteq> key_of ` (set es \<union> set ns) \<Longrightarrow> room es' ns'"
proof -
  assume r: "room es ns" "weight es' + weight ns' \<le> weight es + weight ns" "key_of ` (set es' \<union> set ns') \<subseteq> key_of ` (set es \<union> set ns)"
  show "room es' ns'"
    unfolding room_def
  proof
    fix e assume "e \<in> set es' \<union> set ns'"
    then obtain d where "d \<in> set es \<union> set ns" "key_of d = key_of e" using r(3) by (metis (no_types) image_iff subset_iff)
    then have "8 + length (key_of e) + 4 * (weight es + weight ns) < 2 ^ 31" using r(1) unfolding room_def by metis
    moreover have "8 + length (key_of e) + 4 * (weight es' + weight ns') \<le> 8 + length (key_of e) + 4 * (weight es + weight ns)"
      by (rule add_left_mono) (rule mult_le_mono2 [OF r(2)])
    ultimately show "8 + length (key_of e) + 4 * (weight es' + weight ns') < 2 ^ 31" by (rule le_less_trans [rotated])
  qed
qed

lemma covers_append: "covers (h # es) k f \<Longrightarrow> covers (h # es @ es') k f"
  by (auto simp: covers_def)

text \<open>One entry of the replica.\<close>

lemma merge_one:
  assumes "list_all entry_ok es" "entry_ok n" "room es (n # ns)"
  shows "\<exists>es1 found es2. merge_into (key_of n) (sig_of n) es = Some (es1, found)
    \<and> es2 = (if \<not> found \<and> length (h # es1) \<le> MAXENTRIES then es1 @ [n] else es1)
    \<and> list_all entry_ok es2 \<and> room es2 ns \<and> length es \<le> length es2 \<and> length es2 \<le> max (length es) MAXENTRIES
    \<and> (\<forall>k f. covers (h # es) k f \<longrightarrow> covers (h # es2) k f)
    \<and> (covers (h # es2) (key_of n) (pval (sig_of n)) \<or> MAXENTRIES < length (h # es2))"
proof -
  have n: "normal (sig_of n)" using entry_okD [OF assms(2)] by simp
  have "8 + length (key_of n) + 4 * (length (sig_of e) + length (sig_of n)) < 2 ^ 31" if "e \<in> set es" for e
    using assms(3) weight_ge [OF that] by (auto simp: room_def)
  then obtain es1 found where m: "merge_into (key_of n) (sig_of n) es = Some (es1, found)" "list_all entry_ok es1"
    "list_all2 (\<lambda>e e'. e' = e \<or> entry_updated (key_of n) (sig_of n) e e') es es1" "found \<longleftrightarrow> key_of n \<in> key_of ` set es"
    "found \<longrightarrow> covers (h # es1) (key_of n) (pval (sig_of n))" "weight es1 \<le> weight es + (if found then length (sig_of n) else 0)"
    using merge_into_spec [OF n assms(1), of "key_of n" h] by auto
  define es2 where "es2 = (if \<not> found \<and> length (h # es1) \<le> MAXENTRIES then es1 @ [n] else es1)"
  note c = merge_into_covers [OF m(3)]
  have l: "length es1 = length es" using list_all2_lengthD [OF m(3)] by simp
  have r: "weight es2 + weight ns \<le> weight es + weight (n # ns)"
    using m(6) by (auto simp: es2_def split: if_splits)
  have k: "key_of ` (set es2 \<union> set ns) \<subseteq> key_of ` (set es \<union> set (n # ns))"
    using c(2) by (auto simp: es2_def image_Un)
  have "covers (h # es2) k f" if "covers (h # es) k f" for k f
    using c(1) [OF that] covers_append [of h es1 k f "[n]"] by (simp add: es2_def)
  moreover have "covers (h # es2) (key_of n) (pval (sig_of n)) \<or> MAXENTRIES < length (h # es2)"
    using m(5) by (auto simp: es2_def covers_def)
  moreover have "list_all entry_ok es2" using m(2) assms(2) by (simp add: es2_def)
  ultimately show ?thesis
    using m(1) room_mono [OF assms(3) r k] l es2_def by (intro exI [of _ es1] exI [of _ found] exI [of _ es2]) auto
qed

lemma merge_entries_spec:
  assumes "list_all entry_ok ns"
  shows "list_all entry_ok es \<Longrightarrow> room es ns \<Longrightarrow> \<exists>es'. merge_entries (h # es) ns = Some (h # es') \<and> list_all entry_ok es'
    \<and> length es \<le> length es' \<and> length es' \<le> max (length es) MAXENTRIES
    \<and> (\<forall>k f. covers (h # es) k f \<longrightarrow> covers (h # es') k f)
    \<and> (\<forall>n \<in> set ns. covers (h # es') (key_of n) (pval (sig_of n)) \<or> MAXENTRIES < length (h # es'))"
  using assms
proof (induction ns arbitrary: es)
  case (Cons n ns)
  then obtain es1 found es2 where m: "merge_into (key_of n) (sig_of n) es = Some (es1, found)"
    "es2 = (if \<not> found \<and> length (h # es1) \<le> MAXENTRIES then es1 @ [n] else es1)"
    "list_all entry_ok es2" "room es2 ns" "length es \<le> length es2" "length es2 \<le> max (length es) MAXENTRIES"
    "\<forall>k f. covers (h # es) k f \<longrightarrow> covers (h # es2) k f"
    "covers (h # es2) (key_of n) (pval (sig_of n)) \<or> MAXENTRIES < length (h # es2)"
    using merge_one [of es n ns h] by auto
  from Cons.IH [OF m(3,4)] Cons.prems(3) obtain es' where I: "merge_entries (h # es2) ns = Some (h # es')" "list_all entry_ok es'"
    "length es2 \<le> length es'" "length es' \<le> max (length es2) MAXENTRIES"
    "\<forall>k f. covers (h # es2) k f \<longrightarrow> covers (h # es') k f"
    "\<forall>n \<in> set ns. covers (h # es') (key_of n) (pval (sig_of n)) \<or> MAXENTRIES < length (h # es')"
    by auto
  have "getKeyValue_sig n = Some (key_of n, sig_of n)" using entry_okD Cons.prems(3) by simp
  then have "merge_entries (h # es) (n # ns) = merge_entries (h # es2) ns" using m(1,2) by simp
  then show ?case using I m(5,6,7,8) by (intro exI [of _ es']) auto
qed simp

text \<open>
  C11: replicas are merged without loss. When a node receives another copy of itself, with the same interval, all
  entries it had are kept, and every entry of the copy is found afterwards by every query that would have found
  it in the copy, unless the node has become full. The node stays well formed and never grows past
  \<^verbatim>\<open>MAXENTRIES\<close> entries by this. The sizes assumed are those for which the length of an encoded entry is an
  \<^verbatim>\<open>int\<close>.
\<close>

theorem replicas_merge:
  assumes "node_ok old" "node_ok new" "header_of (hd old) = Some (t, i)" "header_of (hd new) = Some (t', i')"
    and "Interval_eq i' i" "room (tl old) (tl new)"
  shows "\<exists>es. merge_node old new = Some es \<and> node_ok es \<and> hd es = hd old \<and> length es \<le> max (length old) (MAXENTRIES + 1)
    \<and> (\<forall>k f. covers old k f \<longrightarrow> covers es k f)
    \<and> (\<forall>n \<in> set (tl new). covers es (key_of n) (pval (sig_of n)) \<or> MAXENTRIES < length es)"
proof -
  obtain h es where old: "old = h # es" "list_all entry_ok es" using assms(1) by (cases old) (auto simp: node_ok_def)
  have "list_all entry_ok (tl new)" "hd new = new ! 0" "new \<noteq> []" using assms(2) by (auto simp: node_ok_def hd_conv_nth)
  with merge_entries_spec [of "tl new" es h] old assms(6) obtain es' where
    m: "merge_entries (h # es) (tl new) = Some (h # es')" "list_all entry_ok es'"
    "length es' \<le> max (length es) MAXENTRIES" "\<forall>k f. covers (h # es) k f \<longrightarrow> covers (h # es') k f"
    "\<forall>n \<in> set (tl new). covers (h # es') (key_of n) (pval (sig_of n)) \<or> MAXENTRIES < length (h # es')"
    by auto
  moreover have "merge_node old new = Some (h # es')"
    using m(1) assms(3,4,5) \<open>hd new = new ! 0\<close> by (simp add: merge_node_def old(1))
  moreover have "length (h # es') \<le> max (length old) (MAXENTRIES + 1)" using m(3) old(1) by auto
  ultimately show ?thesis using old(1) by (intro exI [of _ "h # es'"]) (auto simp: node_ok_def)
qed

theorem replicas_merge_witness:
  "\<exists>es. merge_node [ex_header, ex_entry [6]] [ex_header, ex_entry [5]] = Some es
     \<and> covers es [7] (pval [6]) \<and> covers es [7] (pval [5])"
proof -
  have kv: "key_of (ex_entry [6]) = [7]" "key_of (ex_entry [5]) = [7]" "sig_of (ex_entry [6]) = [6]" "sig_of (ex_entry [5]) = [5]"
    by (simp_all add: key_of_def sig_of_def ex_entry_kv)
  obtain es where m: "merge_node [ex_header, ex_entry [6]] [ex_header, ex_entry [5]] = Some es"
    "length es \<le> MAXENTRIES + 1" "covers [ex_header, ex_entry [6]] [7] 6 \<longrightarrow> covers es [7] 6"
    "covers es [7] 5 \<or> MAXENTRIES < length es"
    using replicas_merge [OF ex_node_ok, of "[ex_header, ex_entry [5]]" "[1]" _ "[1]"]
    by (auto simp: node_ok_def ex_entry_ok ex_header_of Interval_eq_def room_def kv MAXENTRIES_def)
  have "length es = 2"
    using m(1) by (auto simp: merge_node_def ex_header_of Interval_eq_def ex_entry_kv split: bind_splits if_splits)
  with m show ?thesis by (auto simp: MAXENTRIES_def covers_def kv)
qed

subsection \<open>Gossip messages\<close>

text \<open>
  C2: gossip messages pass through. A block whose element starts with the type of a gossip or query message is
  handed to the gossip process byte for byte and acknowledged, if the peer does not simulate churn and the
  process listens; otherwise it is answered as an error and nothing is forwarded. An empty slot of the database
  stays empty in both cases; a message that is refused leaves the stored data as it was; but a message that is
  accepted for a key under which the node stores data replaces that data by the empty block.
\<close>

theorem gossip_is_forwarded:
  assumes "payload new_data = m # ms" "rd_int m 0 = Some type" "is_gossip type"
  shows "\<exists>a. adjust_data compute_hash marshal payload gdiscard isconn new_data old_data = Some a
    \<and> forwarded a = (if \<not> gdiscard \<and> isconn then Some m else None)
    \<and> real_store a old_data = (if \<not> gdiscard \<and> isconn then (DHASH_OK, [], False) else (DHASH_ERR, old_data, False))"
  using assms by (auto simp: adjust_data_def real_store_def)

theorem gossip_is_forwarded_witness:
  "\<exists>a. adjust_data (\<lambda>_. 0) concat (\<lambda>b. [b]) False True (wr_type XGOSSIP @ [1, 2, 3]) [] = Some a
     \<and> forwarded a = Some (wr_type XGOSSIP @ [1, 2, 3]) \<and> real_store a [] = (DHASH_OK, [], False)"
  using gossip_is_forwarded [of "\<lambda>b. [b]" "wr_type XGOSSIP @ [1, 2, 3]" "wr_type XGOSSIP @ [1, 2, 3]" "[]"
      "InsertType_code XGOSSIP" "\<lambda>_. 0" concat False True "[]"]
  by (simp only: rd_type_front) (simp add: is_gossip_def)

text \<open>\<^verbatim>\<open>UPDATEVALIFPRESENT\<close> does append an entry that is absent, unlike \<^verbatim>\<open>UPDATEIFPRESENT\<close>.\<close>

lemma updatevalifpresent_appends:
  assumes "header_of h = Some (t, i)" "getKeyValue_sig elem = Some (k, s)" "admits i k"
  shows "update_node (InsertType_code UPDATEVALIFPRESENT) elem [h] = Some (DHASH_OK, [h, elem])"
    and "update_node (InsertType_code UPDATEIFPRESENT) elem [h] = Some (DHASH_OK, [h])"
  using assms by (auto simp: update_node_def admits_def MAXENTRIES_def)

end
