(* ===== verification/Merkle_Hash.thy ===== *)
theory Merkle_Hash
  imports Wire
begin

unbundle bit_operations_syntax

text \<open>
  Hashes of the Merkle trees (\<^verbatim>\<open>merkle/merkle_hash.C\<close>, \<^verbatim>\<open>merkle/merkle_misc.C\<close>): 20 bytes, least significant first,
  read and written in 27 slots of 6 bits from the most significant end, the last one of 4 bits. Identifiers are
  natural numbers here. A failed assertion and an access outside the 20 bytes are \<open>None\<close>.
\<close>

subsection \<open>Operations\<close>

definition hashsize :: nat where
  "hashsize = 20"

definition NUM_SLOTS :: nat where
  "NUM_SLOTS = 27"

type_synonym merkle_hash = bytes

definition getbit :: "merkle_hash \<Rightarrow> nat \<Rightarrow> nat" where
  "getbit h i = of_bool (bit (h ! (i div 8)) (i mod 8))"

definition setbit :: "merkle_hash \<Rightarrow> nat \<Rightarrow> bool \<Rightarrow> merkle_hash" where
  "setbit h i on =
     h[i div 8 := (if on then h ! (i div 8) OR push_bit (i mod 8) 1 else h ! (i div 8) AND NOT (push_bit (i mod 8) 1))]"

text \<open>\<^verbatim>\<open>merkle_hash (u_int i)\<close>\<close>

definition merkle_hash_of :: "32 word \<Rightarrow> merkle_hash" where
  "merkle_hash_of i =
     [ucast (i AND 0x000000ff), ucast (drop_bit 8 (i AND 0x0000ff00)), ucast (drop_bit 16 (i AND 0x00ff0000)),
      ucast (drop_bit 24 (i AND 0xff000000))] @ replicate (hashsize - 4) 0"

primrec read_bits :: "merkle_hash \<Rightarrow> nat \<Rightarrow> int \<Rightarrow> nat \<Rightarrow> nat" where
  "read_bits h 0 high val = val"
| "read_bits h (Suc n) high val =
     (if high \<ge> 0 then read_bits h n (high - 1) (2 * val + getbit h (nat high)) else val)"

definition read_slot :: "merkle_hash \<Rightarrow> nat \<Rightarrow> nat" where
  "read_slot h slotno = read_bits h 6 (8 * int hashsize - 6 * int slotno - 1) 0"

primrec write_bits :: "nat \<Rightarrow> nat \<Rightarrow> nat \<Rightarrow> merkle_hash \<Rightarrow> merkle_hash" where
  "write_bits low val 0 h = h"
| "write_bits low val (Suc n) h = write_bits (Suc low) (val div 2) n (setbit h low (odd val))"

definition write_slot :: "merkle_hash \<Rightarrow> nat \<Rightarrow> nat \<Rightarrow> merkle_hash option" where
  "write_slot h slotno val =
     (let high = 8 * int hashsize - 6 * int slotno - 1;
          low = (if high = 3 then 0 else high - 5)
      in if low < 0 \<or> val div 2 ^ nat (1 + high - low) \<noteq> 0 then None
         else Some (write_bits (nat low) val (nat (1 + high - low)) h))"

definition clear_slot :: "merkle_hash \<Rightarrow> nat \<Rightarrow> merkle_hash option" where
  "clear_slot h slotno = write_slot h slotno 0"

primrec clear_slots :: "nat \<Rightarrow> merkle_hash \<Rightarrow> nat \<Rightarrow> merkle_hash option" where
  "clear_slots 0 h i = Some h"
| "clear_slots (Suc n) h i = do { h \<leftarrow> clear_slot h i; clear_slots n h (i + 1) }"

definition clear_suffix :: "merkle_hash \<Rightarrow> nat \<Rightarrow> merkle_hash option" where
  "clear_suffix h slotno = clear_slots (NUM_SLOTS - slotno) h slotno"

definition prefix_match :: "nat \<Rightarrow> merkle_hash \<Rightarrow> merkle_hash \<Rightarrow> bool" where
  "prefix_match nslots a b = list_all (\<lambda>i. read_slot a i = read_slot b i) [0..<nslots]"

text \<open>Comparison starts at the most significant byte.\<close>

primrec cmp_bytes :: "nat \<Rightarrow> merkle_hash \<Rightarrow> merkle_hash \<Rightarrow> int" where
  "cmp_bytes 0 a b = 0"
| "cmp_bytes (Suc i) a b = (if a ! i > b ! i then 1 else if a ! i < b ! i then -1 else cmp_bytes i a b)"

definition hash_cmp :: "merkle_hash \<Rightarrow> merkle_hash \<Rightarrow> int" where
  "hash_cmp a b = cmp_bytes hashsize a b"

definition tobigint :: "merkle_hash \<Rightarrow> nat" where
  "tobigint h = foldr (\<lambda>b ret. 256 * ret + unat b) h 0"

text \<open>\<^verbatim>\<open>mpz_get_rawmag_be\<close> writes the magnitude big-endian into the cleared buffer, \<^verbatim>\<open>reverse\<close> turns it around.\<close>

definition to_merkle_hash :: "nat \<Rightarrow> merkle_hash" where
  "to_merkle_hash k = rev (rev (le_bytes hashsize k))"

subsection \<open>Hashes as numbers\<close>

lemma tobigint_le_nat: "tobigint h = le_nat h"
  by (induction h) (simp_all add: tobigint_def)

lemma bit_le_nat: "bit (le_nat h) j \<longleftrightarrow> j < 8 * length h \<and> bit (h ! (j div 8)) (j mod 8)"
proof (induction h arbitrary: j)
  case (Cons b h)
  have b: "unat b < 2 ^ 8" using unsigned_less [of b] by simp
  have "bit (le_nat (b # h)) j \<longleftrightarrow> (if j < 8 then bit (unat b) j else bit (le_nat h) (j - 8))"
    using bit_concat [OF b, of "le_nat h" j] by (simp add: ac_simps)
  moreover have "j div 8 = Suc ((j - 8) div 8)" "j mod 8 = (j - 8) mod 8" if "\<not> j < 8"
    using that by (simp_all add: le_div_geq le_mod_geq)
  ultimately show ?case using Cons.IH [of "j - 8"] by (auto simp: bit_unsigned_iff)
qed simp

lemma le_nat_inj: "length a = length b \<Longrightarrow> le_nat a = le_nat b \<Longrightarrow> a = b"
proof (induction a b rule: list_induct2)
  case (Cons x xs y ys)
  have "unat x < 256" "unat y < 256" using unsigned_less [of x] unsigned_less [of y] by simp_all
  then have "le_nat xs = le_nat ys \<and> unat x = unat y"
    using concat_inj [of "le_nat xs" 256 "unat x" "le_nat ys" "unat y"] Cons.prems by (simp add: ac_simps)
  then show ?case using Cons.IH by (simp add: word_unat_eq_iff)
qed simp

text \<open>The two conversions are inverse to each other.\<close>

lemma length_to_merkle_hash [simp]: "length (to_merkle_hash k) = 20"
  by (simp add: to_merkle_hash_def hashsize_def)

lemma tobigint_to_merkle_hash: "k < 2 ^ 160 \<Longrightarrow> tobigint (to_merkle_hash k) = k"
  by (simp add: tobigint_le_nat to_merkle_hash_def hashsize_def le_nat_le_bytes)

lemma tobigint_less: "length h = 20 \<Longrightarrow> tobigint h < 2 ^ 160"
  using le_nat_bound [of h] by (simp add: tobigint_le_nat)

lemma to_merkle_hash_tobigint: "length h = 20 \<Longrightarrow> to_merkle_hash (tobigint h) = h"
  using tobigint_to_merkle_hash [OF tobigint_less, of h]
  by (intro le_nat_inj) (simp_all flip: tobigint_le_nat)

subsection \<open>Slots\<close>

lemma length_setbit [simp]: "length (setbit h i on) = length h"
  by (simp add: setbit_def)

lemma bit_setbit:
  assumes "i < 8 * length h"
  shows "bit (tobigint (setbit h i on)) j \<longleftrightarrow> (if j = i then on else bit (tobigint h) j)"
proof -
  have d: "j = i \<longleftrightarrow> j div 8 = i div 8 \<and> j mod 8 = i mod 8"
    by (metis div_mult_mod_eq)
  have l: "i div 8 < length h" using assms by (simp add: less_mult_imp_div_less mult.commute)
  show ?thesis
    using assms l unfolding tobigint_le_nat bit_le_nat setbit_def
    by (auto simp: nth_list_update d bit_or_iff bit_and_iff bit_not_iff bit_exp_iff bit_push_bit_iff bit_1_iff)
qed

lemma length_write_bits [simp]: "length (write_bits low val n h) = length h"
  by (induction n arbitrary: low val h) simp_all

lemma bit_write_bits:
  "low + n \<le> 8 * length h \<Longrightarrow>
     bit (tobigint (write_bits low val n h)) j \<longleftrightarrow> (if low \<le> j \<and> j < low + n then bit val (j - low) else bit (tobigint h) j)"
proof (induction n arbitrary: low val h)
  case (Suc n)
  have "bit (val div 2) (j - Suc low) \<longleftrightarrow> bit val (j - low)" if "low < j"
    using that by (metis Suc_diff_Suc bit_Suc)
  then show ?case using Suc by (auto simp: bit_setbit bit_0)
qed auto

text \<open>The number of bits of a hash that the first \<open>d\<close> slots leave.\<close>

definition rest_bits :: "nat \<Rightarrow> nat" where
  "rest_bits d = 160 - 6 * d"

definition slot :: "nat \<Rightarrow> nat \<Rightarrow> nat" where
  "slot d k = (if d < 26 then k div 2 ^ rest_bits (d + 1) mod 64 else if d = 26 then k mod 16 else 0)"

lemma getbit_tobigint: "i < 8 * length h \<Longrightarrow> getbit h i = of_bool (bit (tobigint h) i)"
  by (simp add: getbit_def tobigint_le_nat bit_le_nat)

lemma read_bits_tobigint:
  "n \<le> Suc high \<Longrightarrow> high < 8 * length h \<Longrightarrow>
     read_bits h n (int high) val = 2 ^ n * val + tobigint h div 2 ^ (Suc high - n) mod 2 ^ n"
proof (induction n arbitrary: high val)
  case (Suc n)
  let ?t = "tobigint h"
  have g: "getbit h high = ?t div 2 ^ high mod 2"
    using Suc.prems(2) by (simp add: getbit_tobigint bit_iff_odd mod_2_eq_odd)
  have split: "?t div 2 ^ (high - n) mod 2 ^ Suc n = 2 ^ n * (?t div 2 ^ high mod 2) + ?t div 2 ^ (high - n) mod 2 ^ n"
  proof -
    have "?t div 2 ^ (high - n) mod (2 ^ n * 2) = 2 ^ n * (?t div 2 ^ (high - n) div 2 ^ n mod 2) + ?t div 2 ^ (high - n) mod 2 ^ n"
      by (rule mod_mult2_eq)
    moreover have "?t div 2 ^ (high - n) div 2 ^ n = ?t div 2 ^ high"
      using Suc.prems(1) by (simp flip: div_mult2_eq power_add)
    ultimately show ?thesis by (simp add: mult.commute)
  qed
  show ?case
  proof (cases high)
    case 0
    then have "n = 0" using Suc.prems(1) by simp
    then show ?thesis using g 0 by (simp add: mod_2_eq_odd)
  next
    case (Suc high')
    then have "read_bits h (Suc n) (int high) val = 2 ^ n * (2 * val + getbit h high) + ?t div 2 ^ (Suc high' - n) mod 2 ^ n"
      using Suc.IH [of high' "2 * val + getbit h high"] Suc.prems nat_int [of "Suc high'"] by simp
    then show ?thesis using split g Suc by (simp add: algebra_simps)
  qed
qed simp

lemma read_slot_tobigint:
  assumes "length h = 20" "d < NUM_SLOTS"
  shows "read_slot h d = slot d (tobigint h)"
proof (cases "d = 26")
  case True
  have "read_slot h 26 = read_bits h 4 (int 3) 0" by (simp add: read_slot_def hashsize_def eval_nat_numeral)
  then show ?thesis using read_bits_tobigint [of 4 3 h 0] assms(1) True by (simp add: slot_def)
next
  case False
  then have d: "d < 26" using assms(2) by (simp add: NUM_SLOTS_def)
  define high where "high = 159 - 6 * d"
  have "8 * int hashsize - 6 * int d - 1 = int high" "6 \<le> Suc high" "high < 160"
    using d by (simp_all add: hashsize_def high_def of_nat_diff)
  moreover have "Suc high - 6 = rest_bits (d + 1)" by (simp add: high_def rest_bits_def)
  ultimately show ?thesis
    using read_bits_tobigint [of 6 high h 0] assms(1) d by (simp add: read_slot_def slot_def)
qed

text \<open>Two numbers below \<open>2 ^ 160\<close> agree in the first \<open>d\<close> slots.\<close>

definition same_prefix :: "nat \<Rightarrow> nat \<Rightarrow> nat \<Rightarrow> bool" where
  "same_prefix d a b \<longleftrightarrow> a div 2 ^ rest_bits d = b div 2 ^ rest_bits d"

lemma div_rest_bits: "d < 26 \<Longrightarrow> k div 2 ^ rest_bits (d + 1) = 64 * (k div 2 ^ rest_bits d) + slot d k"
proof -
  assume d: "d < 26"
  then have e: "rest_bits d = rest_bits (d + 1) + 6" by (simp add: rest_bits_def)
  have "k div 2 ^ rest_bits d = k div 2 ^ rest_bits (d + 1) div 64"
    unfolding e power_add div_mult2_eq by simp
  then show ?thesis using d by (simp add: slot_def)
qed

lemma same_prefix_Suc: "d < 26 \<Longrightarrow> same_prefix (Suc d) a b \<longleftrightarrow> same_prefix d a b \<and> slot d a = slot d b"
proof -
  assume d: "d < 26"
  have "slot d a < 64" "slot d b < 64" using d by (simp_all add: slot_def)
  then have "A * 64 + slot d a = B * 64 + slot d b \<longleftrightarrow> A = B \<and> slot d a = slot d b" for A B
    using concat_inj [of A 64 "slot d a" B "slot d b"] by (metis (no_types))
  then show ?thesis
    unfolding same_prefix_def Suc_eq_plus1 div_rest_bits [OF d] mult.commute [of 64] by blast
qed

lemma same_prefix_0: "a < 2 ^ 160 \<Longrightarrow> b < 2 ^ 160 \<Longrightarrow> same_prefix 0 a b"
  by (simp add: same_prefix_def rest_bits_def)

lemma same_prefix_27: "same_prefix 27 a b \<longleftrightarrow> a = b"
  by (simp add: same_prefix_def rest_bits_def)

lemma same_prefix_26: "same_prefix 27 a b \<longleftrightarrow> same_prefix 26 a b \<and> slot 26 a = slot 26 b"
  by (auto simp: same_prefix_def rest_bits_def slot_def) (metis div_mult_mod_eq)

lemma prefix_match_same_prefix:
  assumes "length a = 20" "length b = 20" "d \<le> NUM_SLOTS"
  shows "prefix_match d a b \<longleftrightarrow> same_prefix d (tobigint a) (tobigint b)"
  using assms(3)
proof (induction d)
  case 0
  then show ?case using tobigint_less assms by (simp add: prefix_match_def same_prefix_0)
next
  case (Suc d)
  then have r: "read_slot a d = slot d (tobigint a)" "read_slot b d = slot d (tobigint b)"
    using assms read_slot_tobigint by simp_all
  have "prefix_match (Suc d) a b \<longleftrightarrow> prefix_match d a b \<and> read_slot a d = read_slot b d"
    by (auto simp: prefix_match_def list_all_iff less_Suc_eq)
  also have "\<dots> \<longleftrightarrow> same_prefix d (tobigint a) (tobigint b) \<and> slot d (tobigint a) = slot d (tobigint b)"
    using Suc r by simp
  also have "\<dots> \<longleftrightarrow> same_prefix (Suc d) (tobigint a) (tobigint b)"
  proof (cases "d = 26")
    case True
    then have "Suc d = 27" by simp
    then show ?thesis using same_prefix_26 [of "tobigint a" "tobigint b"] True by (simp only:)
  next
    case False
    then show ?thesis using same_prefix_Suc [of d] Suc.prems by (simp add: NUM_SLOTS_def)
  qed
  finally show ?case .
qed

text \<open>Writing a slot replaces its bits.\<close>

lemma write_slot_bits:
  assumes "length h = 20" "d < 26" "v < 64"
  shows "\<exists>h'. write_slot h d v = Some h' \<and> length h' = 20
    \<and> (\<forall>j. bit (tobigint h') j \<longleftrightarrow>
          (if rest_bits (d + 1) \<le> j \<and> j < rest_bits d then bit v (j - rest_bits (d + 1)) else bit (tobigint h) j))"
proof -
  let ?low = "rest_bits (d + 1)"
  have l: "8 * int hashsize - 6 * int d - 1 = int ?low + 5" "rest_bits d = ?low + 6" "?low + 6 \<le> 160" "?low \<ge> 4"
    using assms(2) by (simp_all add: rest_bits_def hashsize_def of_nat_diff)
  then have "write_slot h d v = Some (write_bits ?low v 6 h)"
    using assms(3) by (simp add: write_slot_def Let_def)
  then show ?thesis using bit_write_bits [of ?low 6 h v] assms(1) l by auto
qed

lemma clear_slot_26:
  assumes "length h = 20"
  shows "\<exists>h'. clear_slot h 26 = Some h' \<and> length h' = 20
    \<and> (\<forall>j. bit (tobigint h') j \<longleftrightarrow> 4 \<le> j \<and> bit (tobigint h) j)"
proof -
  have "clear_slot h 26 = Some (write_bits 0 0 4 h)"
    by (simp add: clear_slot_def write_slot_def hashsize_def Let_def)
  then show ?thesis using bit_write_bits [of 0 4 h 0] assms by auto
qed

lemma clear_suffix_bits:
  assumes "n + d = 27"
  shows "length h = 20 \<Longrightarrow> \<exists>h'. clear_slots n h d = Some h' \<and> length h' = 20
    \<and> (\<forall>j. bit (tobigint h') j \<longleftrightarrow> rest_bits d \<le> j \<and> bit (tobigint h) j)"
  using assms
proof (induction n arbitrary: h d)
  case 0
  then show ?case by (auto simp: rest_bits_def)
next
  case (Suc n)
  obtain h1 where h1: "clear_slot h d = Some h1" "length h1 = 20"
    "\<forall>j. bit (tobigint h1) j \<longleftrightarrow> \<not> (rest_bits (d + 1) \<le> j \<and> j < rest_bits d) \<and> bit (tobigint h) j"
  proof (cases "d = 26")
    case True
    then show ?thesis using clear_slot_26 [OF Suc.prems(1)] that by (force simp: rest_bits_def)
  next
    case False
    then have "d < 26" using Suc.prems by simp
    then show ?thesis using write_slot_bits [OF Suc.prems(1), of d 0] that by (force simp: clear_slot_def)
  qed
  have "rest_bits (d + 1) \<le> rest_bits d" by (simp add: rest_bits_def)
  then show ?case using Suc.IH [OF h1(2), of "d + 1"] Suc.prems h1 by fastforce
qed

text \<open>What a prefix denotes: the first \<open>d\<close> slots of a key, then zeros.\<close>

definition base :: "nat \<Rightarrow> nat \<Rightarrow> nat" where
  "base d k = k div 2 ^ rest_bits d * 2 ^ rest_bits d"

lemma bit_base: "bit (base d k) j \<longleftrightarrow> rest_bits d \<le> j \<and> bit k j"
  using bit_concat [of 0 "rest_bits d" "k div 2 ^ rest_bits d" j]
  by (auto simp: base_def bit_iff_odd div_mult2_eq [symmetric] power_add [symmetric])

lemma clear_suffix_base:
  assumes "length h = 20" "d \<le> NUM_SLOTS"
  shows "\<exists>h'. clear_suffix h d = Some h' \<and> length h' = 20 \<and> tobigint h' = base d (tobigint h)"
proof -
  obtain h' where h': "clear_slots (27 - d) h d = Some h'" "length h' = 20"
    "\<forall>j. bit (tobigint h') j \<longleftrightarrow> rest_bits d \<le> j \<and> bit (tobigint h) j"
    using clear_suffix_bits [of "27 - d" d h] assms by (auto simp: NUM_SLOTS_def)
  have "tobigint h' = base d (tobigint h)" by (rule bit_eqI) (simp add: h'(3) bit_base)
  then show ?thesis using h' by (simp add: clear_suffix_def NUM_SLOTS_def)
qed

end
