(* ===== verification/Merkle_Tree.thy ===== *)
theory Merkle_Tree
  imports Merkle_Hash Chord_ID "HOL-Library.Tree"
begin

text \<open>
  The Merkle trees that describe the keys a node stores (\<^verbatim>\<open>merkle/merkle_node.C\<close>, \<^verbatim>\<open>merkle/merkle_tree.C\<close>). The keys are
  kept in the library's ordered tree \<^verbatim>\<open>keylist\<close>, here its sorted list; the nodes hold the number of keys under
  them and a hash. SHA-1 is the parameter \<open>sha\<close>. A failed assertion, a \<^verbatim>\<open>fatal\<close> and an access out of range are
  \<open>None\<close>; the recursion of an insertion is not bounded by the tree, so it is a partial function.
\<close>

subsection \<open>Nodes\<close>

datatype merkle_node = MNode (ncount: nat) (nhash: merkle_hash) (nentry: "merkle_node list option")

definition zero_hash :: merkle_hash where
  "zero_hash = merkle_hash_of 0"

definition new_node :: merkle_node where
  "new_node = MNode 0 zero_hash None"

definition initialize :: "nat \<Rightarrow> merkle_node" where
  "initialize c = MNode c zero_hash None"

definition isleaf :: "merkle_node \<Rightarrow> bool" where
  "isleaf n \<longleftrightarrow> nentry n = None"

definition child :: "merkle_node \<Rightarrow> nat \<Rightarrow> merkle_node option" where
  "child n i = do { cs \<leftarrow> nentry n; if i < length cs then Some (cs ! i) else None }"

definition child_hash :: "merkle_node \<Rightarrow> nat \<Rightarrow> merkle_hash option" where
  "child_hash n i = map_option nhash (child n i)"

definition leaf_is_full :: "merkle_node \<Rightarrow> bool" where
  "leaf_is_full n \<longleftrightarrow> ncount n = 64"

definition internal2leaf :: "merkle_node \<Rightarrow> merkle_node" where
  "internal2leaf n = MNode (ncount n) (nhash n) None"

definition set_child :: "merkle_node \<Rightarrow> nat \<Rightarrow> merkle_node \<Rightarrow> merkle_node" where
  "set_child n i c = MNode (ncount n) (nhash n) (map_option (\<lambda>cs. cs[i := c]) (nentry n))"

definition set_hash :: "merkle_hash \<Rightarrow> merkle_node \<Rightarrow> merkle_node" where
  "set_hash h n = MNode (ncount n) h (nentry n)"

definition set_count :: "nat \<Rightarrow> merkle_node \<Rightarrow> merkle_node" where
  "set_count c n = MNode c (nhash n) (nentry n)"

subsection \<open>The ordered keys\<close>

text \<open>The walk of \<^verbatim>\<open>closestsucc\<close> down the library's tree: the key itself, or the last node seen.\<close>

fun walk :: "nat tree \<Rightarrow> nat \<Rightarrow> nat \<Rightarrow> nat" where
  "walk Leaf k p = p"
| "walk (Node l a r) k p = (if k < a then walk l k a else if k > a then walk r k a else a)"

definition next_key :: "nat list \<Rightarrow> nat \<Rightarrow> nat option" where
  "next_key ks p = find (\<lambda>x. p < x) ks"

definition closestsucc_walk :: "nat tree \<Rightarrow> nat \<Rightarrow> nat option" where
  "closestsucc_walk t k =
     (case t of
        Leaf \<Rightarrow> None
      | Node l a r \<Rightarrow>
          (let p = walk t k a
           in if k \<le> p then Some p
              else (case next_key (inorder t) p of Some n \<Rightarrow> Some n | None \<Rightarrow> Some (hd (inorder t)))))"

text \<open>The same on the sorted list.\<close>

definition closestsucc :: "nat list \<Rightarrow> nat \<Rightarrow> nat option" where
  "closestsucc ks k =
     (case find (\<lambda>x. k \<le> x) ks of Some x \<Rightarrow> Some x | None \<Rightarrow> (if ks = [] then None else Some (hd ks)))"

definition keys_from :: "nat list \<Rightarrow> nat \<Rightarrow> nat list" where
  "keys_from ks k = (case closestsucc ks k of None \<Rightarrow> [] | Some c \<Rightarrow> dropWhile (\<lambda>x. x < c) ks)"

definition database_get_keys :: "nat list \<Rightarrow> nat \<Rightarrow> merkle_hash \<Rightarrow> merkle_hash list" where
  "database_get_keys ks depth prefix =
     takeWhile (\<lambda>key. prefix_match depth key prefix) (map to_merkle_hash (keys_from ks (tobigint prefix)))"

definition database_get_IDs :: "nat list \<Rightarrow> nat \<Rightarrow> merkle_hash \<Rightarrow> nat list" where
  "database_get_IDs ks depth prefix = map tobigint (database_get_keys ks depth prefix)"

definition get_keyrange :: "nat list \<Rightarrow> nat \<Rightarrow> nat \<Rightarrow> nat \<Rightarrow> nat list" where
  "get_keyrange ks mn mx n = takeWhile (\<lambda>k. betweenbothincl (int mn) (int mx) (int k)) (take n (keys_from ks mn))"

subsection \<open>Hashing\<close>

definition rehash :: "(bytes \<Rightarrow> merkle_hash) \<Rightarrow> bool \<Rightarrow> nat list \<Rightarrow> nat \<Rightarrow> merkle_hash \<Rightarrow> merkle_node \<Rightarrow> merkle_node option" where
  "rehash sha do_rehash ks depth key n =
     (if \<not> do_rehash then Some n
      else (let n = set_hash zero_hash n
            in if ncount n = 0 then Some n
               else case nentry n of
                      None \<Rightarrow>
                        if ncount n \<le> 64
                        then do { prefix \<leftarrow> clear_suffix key depth;
                                  Some (set_hash (sha (concat (database_get_keys ks depth prefix))) n) }
                        else None
                    | Some cs \<Rightarrow> Some (set_hash (sha (concat (map nhash cs))) n)))"

text \<open>\<^verbatim>\<open>_hash_tree\<close>: the children are hashed without the check, whatever the caller asked for.\<close>

fun hash_node :: "(bytes \<Rightarrow> merkle_hash) \<Rightarrow> nat list \<Rightarrow> nat \<Rightarrow> merkle_hash \<Rightarrow> bool \<Rightarrow> merkle_node \<Rightarrow> merkle_node option"
  and hash_children :: "(bytes \<Rightarrow> merkle_hash) \<Rightarrow> nat list \<Rightarrow> nat \<Rightarrow> merkle_hash \<Rightarrow> nat \<Rightarrow> merkle_node list
    \<Rightarrow> merkle_node list option" where
  "hash_node sha ks depth prefix check (MNode c h None) =
     (let keys = database_get_keys ks depth prefix;
          h' = (if c \<noteq> 0 then sha (concat keys) else zero_hash)
      in if c > 64 \<or> check \<and> (length keys \<noteq> c \<or> h' \<noteq> h) then None else Some (MNode c h' None))"
| "hash_node sha ks depth prefix check (MNode c h (Some cs)) =
     do { cs' \<leftarrow> hash_children sha ks depth prefix 0 cs;
          let h' = (if c \<noteq> 0 then sha (concat (map nhash cs')) else zero_hash);
          if check \<and> (sum_list (map ncount cs) \<noteq> c \<or> h' \<noteq> h) then None else Some (MNode c h' (Some cs')) }"
| "hash_children sha ks depth prefix i [] = Some []"
| "hash_children sha ks depth prefix i (c # cs) =
     do { nprefix \<leftarrow> write_slot prefix depth i;
          c \<leftarrow> hash_node sha ks (depth + 1) nprefix False c;
          cs \<leftarrow> hash_children sha ks depth prefix (i + 1) cs;
          Some (c # cs) }"

subsection \<open>Splitting, insertion, removal\<close>

definition count_blocks :: "nat list \<Rightarrow> nat \<Rightarrow> merkle_hash \<Rightarrow> nat list option" where
  "count_blocks ks depth key =
     do { prefix \<leftarrow> clear_suffix key depth;
          Some (fold (\<lambda>k nblocks. nblocks[read_slot k depth := nblocks ! read_slot k depth + 1])
                  (database_get_keys ks depth prefix) (replicate 64 0)) }"

primrec split_children :: "(bytes \<Rightarrow> merkle_hash) \<Rightarrow> bool \<Rightarrow> nat list \<Rightarrow> nat \<Rightarrow> nat list \<Rightarrow> merkle_hash \<Rightarrow> nat list
    \<Rightarrow> merkle_node list option" where
  "split_children sha rh ks depth nblocks prefix [] = Some []"
| "split_children sha rh ks depth nblocks prefix (i # is) =
     do { prefix \<leftarrow> write_slot prefix depth i;
          c \<leftarrow> rehash sha rh ks (depth + 1) prefix (initialize (nblocks ! i));
          cs \<leftarrow> split_children sha rh ks depth nblocks prefix is;
          Some (c # cs) }"

definition leaf2internal :: "(bytes \<Rightarrow> merkle_hash) \<Rightarrow> bool \<Rightarrow> nat list \<Rightarrow> nat \<Rightarrow> merkle_hash \<Rightarrow> merkle_node \<Rightarrow> merkle_node option" where
  "leaf2internal sha rh ks depth key n =
     (if isleaf n
      then do { nblocks \<leftarrow> count_blocks ks depth key;
                prefix \<leftarrow> clear_suffix key depth;
                let xmax = (if depth = NUM_SLOTS then 16 else 64);
                cs \<leftarrow> split_children sha rh ks depth nblocks prefix [0..<xmax];
                Some (MNode (ncount n) (nhash n) (Some (cs @ replicate (64 - xmax) new_node))) }
      else None)"

partial_function (option) insert_at :: "(bytes \<Rightarrow> merkle_hash) \<Rightarrow> bool \<Rightarrow> nat \<Rightarrow> merkle_hash \<Rightarrow> merkle_node \<Rightarrow> nat list
    \<Rightarrow> (merkle_node \<times> nat list) option" where
  "insert_at sha rh depth key n ks =
     do { n \<leftarrow> (if isleaf n \<and> leaf_is_full n then leaf2internal sha rh ks depth key n else Some n);
          (n, ks) \<leftarrow> (if isleaf n
                      then if tobigint key \<in> set ks then None else Some (n, insort (tobigint key) ks)
                      else do { let branch = read_slot key depth;
                                c \<leftarrow> child n branch;
                                (c, ks) \<leftarrow> insert_at sha rh (depth + 1) key c ks;
                                Some (set_child n branch c, ks) });
          n \<leftarrow> rehash sha rh ks depth key (set_count (ncount n + 1) n);
          Some (n, ks) }"

partial_function (option) remove_at :: "(bytes \<Rightarrow> merkle_hash) \<Rightarrow> bool \<Rightarrow> nat \<Rightarrow> merkle_hash \<Rightarrow> merkle_node \<Rightarrow> nat list
    \<Rightarrow> (merkle_node \<times> nat list) option" where
  "remove_at sha rh depth key n ks =
     do { (n, ks) \<leftarrow> (if isleaf n
                      then if tobigint key \<in> set ks then Some (n, remove1 (tobigint key) ks) else None
                      else do { let branch = read_slot key depth;
                                c \<leftarrow> child n branch;
                                (c, ks) \<leftarrow> remove_at sha rh (depth + 1) key c ks;
                                Some (set_child n branch c, ks) });
          if ncount n = 0 then None
          else do { let n = set_count (ncount n - 1) n;
                    let n = (if \<not> isleaf n \<and> ncount n \<le> 64 then internal2leaf n else n);
                    n \<leftarrow> rehash sha rh ks depth key n;
                    Some (n, ks) } }"

partial_function (option) lookup_at :: "nat \<Rightarrow> nat \<Rightarrow> merkle_hash \<Rightarrow> merkle_node \<Rightarrow> (nat \<times> merkle_node) option" where
  "lookup_at depth max_depth key n =
     (if depth = max_depth \<or> isleaf n then Some (depth, n)
      else do { c \<leftarrow> child n (read_slot key depth); lookup_at (depth + 1) max_depth key c })"

subsection \<open>The tree\<close>

record merkle_tree =
  do_rehash :: bool
  keylist :: "nat list"
  root :: merkle_node

definition new_tree :: merkle_tree where
  "new_tree = \<lparr>do_rehash = True, keylist = [], root = new_node\<rparr>"

definition set_rehash_on_modification :: "bool \<Rightarrow> merkle_tree \<Rightarrow> merkle_tree" where
  "set_rehash_on_modification enable t = t\<lparr>do_rehash := enable\<rparr>"

definition hash_tree :: "(bytes \<Rightarrow> merkle_hash) \<Rightarrow> merkle_tree \<Rightarrow> merkle_tree option" where
  "hash_tree sha t = do { n \<leftarrow> hash_node sha (keylist t) 0 zero_hash False (root t); Some (t\<lparr>root := n\<rparr>) }"

definition check_invariants :: "(bytes \<Rightarrow> merkle_hash) \<Rightarrow> merkle_tree \<Rightarrow> merkle_tree option" where
  "check_invariants sha t =
     (if \<not> do_rehash t then Some t
      else do { n \<leftarrow> hash_node sha (keylist t) 0 zero_hash True (root t); Some (t\<lparr>root := n\<rparr>) })"

definition key_exists :: "merkle_tree \<Rightarrow> nat \<Rightarrow> bool" where
  "key_exists t key \<longleftrightarrow> key \<in> set (keylist t)"

definition tree_insert :: "(bytes \<Rightarrow> merkle_hash) \<Rightarrow> merkle_tree \<Rightarrow> merkle_hash \<Rightarrow> merkle_tree option" where
  "tree_insert sha t key =
     (if key_exists t (tobigint key) then None
      else do { (n, ks) \<leftarrow> insert_at sha (do_rehash t) 0 key (root t) (keylist t); Some (t\<lparr>root := n, keylist := ks\<rparr>) })"

definition tree_remove :: "(bytes \<Rightarrow> merkle_hash) \<Rightarrow> merkle_tree \<Rightarrow> merkle_hash \<Rightarrow> merkle_tree option" where
  "tree_remove sha t key =
     (if \<not> key_exists t (tobigint key) then None
      else do { (n, ks) \<leftarrow> remove_at sha (do_rehash t) 0 key (root t) (keylist t); Some (t\<lparr>root := n, keylist := ks\<rparr>) })"

definition insert_id :: "(bytes \<Rightarrow> merkle_hash) \<Rightarrow> merkle_tree \<Rightarrow> nat \<Rightarrow> merkle_tree option" where
  "insert_id sha t i = tree_insert sha t (to_merkle_hash i)"

definition remove_id :: "(bytes \<Rightarrow> merkle_hash) \<Rightarrow> merkle_tree \<Rightarrow> nat \<Rightarrow> merkle_tree option" where
  "remove_id sha t i = tree_remove sha t (to_merkle_hash i)"

text \<open>The low 32 bits of an identifier are replaced by auxiliary information.\<close>

definition with_aux :: "nat \<Rightarrow> 32 word \<Rightarrow> nat option" where
  "with_aux i aux = (let key = push_bit 32 (drop_bit 32 i) in if key > 0 then Some (key OR unat aux) else None)"

definition insert_aux :: "(bytes \<Rightarrow> merkle_hash) \<Rightarrow> merkle_tree \<Rightarrow> nat \<Rightarrow> 32 word \<Rightarrow> merkle_tree option" where
  "insert_aux sha t i aux = do { key \<leftarrow> with_aux i aux; insert_id sha t key }"

definition remove_aux :: "(bytes \<Rightarrow> merkle_hash) \<Rightarrow> merkle_tree \<Rightarrow> nat \<Rightarrow> 32 word \<Rightarrow> merkle_tree option" where
  "remove_aux sha t i aux = do { key \<leftarrow> with_aux i aux; remove_id sha t key }"

definition key_exists_aux :: "merkle_tree \<Rightarrow> nat \<Rightarrow> 32 word \<Rightarrow> bool option" where
  "key_exists_aux t i aux = do { key \<leftarrow> with_aux i aux; Some (key_exists t key) }"

text \<open>\<open>lookup_exact\<close>: no node at that depth is \<open>Some None\<close>.\<close>

definition lookup_exact :: "merkle_tree \<Rightarrow> nat \<Rightarrow> merkle_hash \<Rightarrow> merkle_node option option" where
  "lookup_exact t depth key =
     do { (realdepth, n) \<leftarrow> lookup_at 0 depth key (root t);
          if realdepth \<le> depth then Some (if realdepth \<noteq> depth then None else Some n) else None }"

definition lookup_node :: "merkle_tree \<Rightarrow> nat \<Rightarrow> merkle_hash \<Rightarrow> (nat \<times> merkle_node) option" where
  "lookup_node t max_depth key = lookup_at 0 max_depth key (root t)"

end
