(* ===== verification/Merkle_Correct.thy ===== *)
theory Merkle_Correct
  imports Merkle_Tree
begin

text \<open>
  The Merkle tree is a canonical form of its set of keys: \<open>canon\<close> builds the tree of a sorted list of keys
  directly, and insertion and removal lead from the tree of one set to the tree of the other. Shape, counts and
  hashes are therefore a function of the keys alone.
\<close>

subsection \<open>Sorted lists of keys\<close>

definition keys_ok :: "nat list \<Rightarrow> bool" where
  "keys_ok ks \<longleftrightarrow> sorted ks \<and> distinct ks \<and> (\<forall>k \<in> set ks. k < 2 ^ 160)"

lemma dropWhile_sorted: "sorted ks \<Longrightarrow> dropWhile (\<lambda>x. x < (c :: nat)) ks = filter (\<lambda>x. c \<le> x) ks"
  by (induction ks) (auto intro!: filter_True [symmetric])

lemma takeWhile_sorted: "sorted ks \<Longrightarrow> takeWhile (\<lambda>x. x < (c :: nat)) ks = filter (\<lambda>x. x < c) ks"
  by (induction ks) (auto intro!: filter_False [symmetric])

lemma find_filter: "find P xs = (if filter P xs = [] then None else Some (hd (filter P xs)))"
  by (induction xs) auto

lemma keys_from_sorted:
  assumes "sorted ks"
  shows "keys_from ks k = (if \<exists>x \<in> set ks. k \<le> x then filter (\<lambda>x. k \<le> x) ks else ks)"
proof (cases "filter (\<lambda>x. k \<le> x) ks = []")
  case True
  then have "\<not> (\<exists>x \<in> set ks. k \<le> x)" by (auto simp: filter_empty_conv)
  moreover have "dropWhile (\<lambda>x. x < hd ks) ks = ks" by (cases ks) auto
  ultimately show ?thesis using True by (simp add: keys_from_def closestsucc_def find_filter)
next
  case False
  define c where "c = hd (filter (\<lambda>x. k \<le> x) ks)"
  have c: "c \<in> set ks" "k \<le> c" using False hd_in_set [OF False] by (auto simp: c_def)
  have "sorted (filter (\<lambda>x. k \<le> x) ks)" using assms by (rule sorted_wrt_filter)
  then have least: "c \<le> x" if "x \<in> set ks" "k \<le> x" for x
    using that False unfolding c_def by (cases "filter (\<lambda>x. k \<le> x) ks") (auto simp: filter_eq_Cons_iff)
  have "keys_from ks k = filter (\<lambda>x. c \<le> x) ks"
    using False by (simp add: keys_from_def closestsucc_def find_filter dropWhile_sorted [OF assms] c_def)
  also have "\<dots> = filter (\<lambda>x. k \<le> x) ks" using c(2) least by (intro filter_cong) auto
  finally show ?thesis using c by auto
qed

text \<open>The walk down a search tree computes the same successor.\<close>

lemma walk_adjacent:
  "bst t \<Longrightarrow> t \<noteq> Leaf \<Longrightarrow> walk t k p \<in> set_tree t
     \<and> (\<forall>x \<in> set_tree t. \<not> (k < x \<and> x < walk t k p) \<and> \<not> (walk t k p < x \<and> x < k))
     \<and> (k \<in> set_tree t \<longrightarrow> walk t k p = k)"
proof (induction t arbitrary: p)
  case (Node l a r)
  note IH = Node.IH(1) [of a] Node.IH(2) [of a]
  consider "k < a" | "a < k" | "k = a" by linarith
  then show ?case
  proof cases
    case 1
    then show ?thesis using Node.prems IH(1) by (cases "l = Leaf") (auto, fastforce+)
  next
    case 2
    then show ?thesis using Node.prems IH(2) by (cases "r = Leaf") (auto, fastforce+)
  qed auto
qed simp

lemma find_least: "sorted xs \<Longrightarrow> w \<in> set xs \<Longrightarrow> k \<le> w \<Longrightarrow> \<forall>x \<in> set xs. k \<le> x \<longrightarrow> w \<le> (x :: nat) \<Longrightarrow>
    find (\<lambda>x. k \<le> x) xs = Some w"
  by (induction xs) (auto dest: le_antisym)

lemma closestsucc_walk_inorder:
  assumes "bst t"
  shows "closestsucc_walk t k = closestsucc (inorder t) k"
proof (cases t)
  case (Node l a r)
  let ?w = "walk t k a"
  have w: "?w \<in> set_tree t" "\<forall>x \<in> set_tree t. \<not> (k < x \<and> x < ?w) \<and> \<not> (?w < x \<and> x < k)" "k \<in> set_tree t \<longrightarrow> ?w = k"
    using walk_adjacent [OF assms, of k a] Node by (blast dest: sym)+
  show ?thesis
  proof (cases "k \<le> ?w")
    case True
    have "\<forall>x \<in> set_tree t. k \<le> x \<longrightarrow> ?w \<le> x" using w by (metis le_less not_less)
    then have "find (\<lambda>x. k \<le> x) (inorder t) = Some ?w"
      using find_least [of "inorder t" ?w k] assms w(1) True by (simp add: bst_iff_sorted_wrt_less strict_sorted_iff)
    then show ?thesis using True Node by (simp add: closestsucc_walk_def closestsucc_def)
  next
    case False
    then have "\<forall>x \<in> set (inorder t). k \<le> x \<longleftrightarrow> ?w < x" using w by (metis le_less not_less set_inorder nless_le)
    then have "find (\<lambda>x. k \<le> x) (inorder t) = next_key (inorder t) ?w"
      unfolding next_key_def by (intro find_cong) auto
    then show ?thesis using False Node by (simp add: closestsucc_walk_def closestsucc_def split: option.splits)
  qed
qed (simp add: closestsucc_walk_def closestsucc_def)

subsection \<open>Blocks of keys\<close>

text \<open>The keys that share the first \<open>d\<close> slots with \<open>k\<close>.\<close>

definition blk :: "nat \<Rightarrow> nat \<Rightarrow> nat list \<Rightarrow> nat list" where
  "blk d k ks = filter (same_prefix d k) ks"

lemma same_prefix_range: "same_prefix d k x \<longleftrightarrow> base d k \<le> x \<and> x < base d k + 2 ^ rest_bits d"
proof -
  let ?M = "2 ^ rest_bits d :: nat"
  have "k div ?M = x div ?M \<longleftrightarrow> k div ?M * ?M \<le> x \<and> x < k div ?M * ?M + ?M"
    by (metis (no_types) add.commute div_nat_eqI dividend_less_div_times mult.commute mult_Suc pos2 times_div_less_eq_dividend zero_less_power)
  then show ?thesis by (simp add: same_prefix_def base_def)
qed

lemma database_get_keys_blk:
  assumes "keys_ok ks" "length h = 20" "d \<le> NUM_SLOTS" "tobigint h = base d k"
  shows "database_get_keys ks d h = map to_merkle_hash (blk d k ks)"
proof -
  have s: "sorted ks" and b: "\<forall>x \<in> set ks. x < 2 ^ 160" using assms(1) by (auto simp: keys_ok_def)
  let ?hi = "base d k + 2 ^ rest_bits d"
  have sub: "set (keys_from ks (base d k)) \<subseteq> set ks" by (auto simp: keys_from_sorted [OF s])
  have m: "prefix_match d (to_merkle_hash x) h \<longleftrightarrow> base d k \<le> x \<and> x < ?hi" if "x \<in> set ks" for x
  proof -
    have "same_prefix d (base d k) x \<longleftrightarrow> same_prefix d k x" by (simp add: same_prefix_def base_def)
    then show ?thesis
      using prefix_match_same_prefix [of "to_merkle_hash x" h d] assms(2,3,4) b that same_prefix_range [of d k x]
      by (auto simp: tobigint_to_merkle_hash same_prefix_def)
  qed
  have e: "database_get_keys ks d h = map to_merkle_hash (takeWhile (\<lambda>x. base d k \<le> x \<and> x < ?hi) (keys_from ks (base d k)))"
    unfolding database_get_keys_def takeWhile_map assms(4) comp_def using m sub by (intro arg_cong [where f = "map _"] takeWhile_cong) auto
  show ?thesis
  proof (cases "\<exists>x \<in> set ks. base d k \<le> x")
    case True
    have "takeWhile (\<lambda>x. base d k \<le> x \<and> x < ?hi) (filter (\<lambda>x. base d k \<le> x) ks) = takeWhile (\<lambda>x. x < ?hi) (filter (\<lambda>x. base d k \<le> x) ks)"
      by (rule takeWhile_cong) auto
    also have "\<dots> = filter (\<lambda>x. x < ?hi) (filter (\<lambda>x. base d k \<le> x) ks)"
      by (rule takeWhile_sorted) (rule sorted_wrt_filter [OF s])
    finally show ?thesis using True unfolding e blk_def same_prefix_range [abs_def] by (simp add: keys_from_sorted [OF s] conj_commute)
  next
    case False
    then have "takeWhile (\<lambda>x. base d k \<le> x \<and> x < ?hi) ks = []" by (cases ks) auto
    moreover have "blk d k ks = []" using False by (auto simp: blk_def same_prefix_range filter_empty_conv)
    ultimately
    show ?thesis using False unfolding e by (simp add: keys_from_sorted [OF s])
  qed
qed

subsection \<open>The canonical tree\<close>

definition leaf_hash :: "(bytes \<Rightarrow> merkle_hash) \<Rightarrow> nat list \<Rightarrow> merkle_hash" where
  "leaf_hash sha b = (if b = [] then zero_hash else sha (concat (map to_merkle_hash b)))"

function canon :: "(bytes \<Rightarrow> merkle_hash) \<Rightarrow> nat \<Rightarrow> nat list \<Rightarrow> merkle_node" where
  "canon sha d b =
     (if length b \<le> 64 \<or> 26 \<le> d then MNode (length b) (leaf_hash sha b) None
      else (let cs = map (\<lambda>i. canon sha (d + 1) (filter (\<lambda>k. slot d k = i) b)) [0..<64]
            in MNode (length b) (sha (concat (map nhash cs))) (Some cs)))"
  by pat_completeness auto
termination by (relation "measure (\<lambda>(sha, d, b). 26 - d)") auto

declare canon.simps [simp del]

lemma canon_leaf: "length b \<le> 64 \<Longrightarrow> canon sha d b = MNode (length b) (leaf_hash sha b) None"
  by (subst canon.simps) simp

lemma canon_internal:
  "64 < length b \<Longrightarrow> d < 26 \<Longrightarrow> canon sha d b =
     (let cs = map (\<lambda>i. canon sha (d + 1) (filter (\<lambda>k. slot d k = i) b)) [0..<64]
      in MNode (length b) (sha (concat (map nhash cs))) (Some cs))"
  by (subst canon.simps) simp

lemma ncount_canon [simp]: "ncount (canon sha d b) = length b"
  by (subst canon.simps) (simp add: Let_def)

lemma slot_less: "slot d k < 64"
  by (auto simp: slot_def intro: less_trans [of _ 16])

lemma blk_Suc: "d < 26 \<Longrightarrow> blk (Suc d) k ks = filter (\<lambda>x. slot d x = slot d k) (blk d k ks)"
  by (auto simp: blk_def same_prefix_Suc intro!: filter_cong)

lemma keys_ok_insort: "keys_ok ks \<Longrightarrow> k \<notin> set ks \<Longrightarrow> k < 2 ^ 160 \<Longrightarrow> keys_ok (insort k ks)"
  by (auto simp: keys_ok_def sorted_insort distinct_insort set_insort_key)

lemma keys_ok_remove1: "keys_ok ks \<Longrightarrow> keys_ok (remove1 k ks)"
  by (auto simp: keys_ok_def sorted_remove1 dest: notin_set_remove1)

lemma filter_insort:
  "sorted ks \<Longrightarrow> filter P (insort k ks) = (if P k then insort k (filter P ks) else filter P ks)"
  by (simp add: filter_insort filter_insort_triv)

lemma blk_insort: "keys_ok ks \<Longrightarrow> blk d k (insort k ks) = insort k (blk d k ks)"
  by (simp add: keys_ok_def blk_def same_prefix_def filter_insort)

lemma blk_remove1: "keys_ok ks \<Longrightarrow> blk d k (remove1 k ks) = remove1 k (blk d k ks)"
  by (simp add: keys_ok_def blk_def distinct_remove1_removeAll removeAll_filter_not_eq conj_commute)

lemma blk_26_length: "keys_ok ks \<Longrightarrow> length (blk 26 k ks) \<le> 16"
proof -
  assume ks: "keys_ok ks"
  have "inj_on (\<lambda>x. x mod 16) (set (blk 26 k ks))"
    by (auto simp: inj_on_def blk_def same_prefix_def rest_bits_def) (metis div_mult_mod_eq)
  moreover have "(\<lambda>x. x mod 16) ` set (blk 26 k ks) \<subseteq> {..<16}" by auto
  ultimately have "card (set (blk 26 k ks)) \<le> 16" using card_inj_on_le [of _ _ "{..<16}"] by force
  moreover have "distinct (blk 26 k ks)" using ks by (simp add: keys_ok_def blk_def)
  ultimately show ?thesis by (simp add: distinct_card)
qed

lemma length_clear_suffix_base:
  assumes "length key = 20" "d \<le> 26"
  obtains h where "clear_suffix key d = Some h" "length h = 20" "tobigint h = base d (tobigint key)"
  using clear_suffix_base [OF assms(1), of d] assms(2) by (auto simp: NUM_SLOTS_def)

text \<open>Hashing a leaf.\<close>

lemma rehash_leaf:
  assumes "keys_ok ks" "length key = 20" "d \<le> 26" "c = length (blk d (tobigint key) ks)" "c \<le> 64"
  shows "rehash sha True ks d key (MNode c h None) = Some (canon sha d (blk d (tobigint key) ks))"
proof -
  obtain p where p: "clear_suffix key d = Some p" "length p = 20" "tobigint p = base d (tobigint key)"
    using length_clear_suffix_base [OF assms(2,3)] .
  have "database_get_keys ks d p = map to_merkle_hash (blk d (tobigint key) ks)"
    using database_get_keys_blk [OF assms(1) p(2) _ p(3)] assms(3) by (simp add: NUM_SLOTS_def)
  then show ?thesis
    using assms(4,5) p(1) by (auto simp: rehash_def set_hash_def canon_leaf leaf_hash_def)
qed

subsection \<open>Splitting a leaf\<close>

lemma write_slot_prefix:
  assumes "length h = 20" "d < 26" "v < 64"
  shows "\<exists>h'. write_slot h d v = Some h' \<and> length h' = 20 \<and> same_prefix d (tobigint h') (tobigint h) \<and> slot d (tobigint h') = v"
proof -
  obtain h' where h': "write_slot h d v = Some h'" "length h' = 20"
    "\<And>j. bit (tobigint h') j \<longleftrightarrow>
        (if rest_bits (d + 1) \<le> j \<and> j < rest_bits d then bit v (j - rest_bits (d + 1)) else bit (tobigint h) j)"
    using write_slot_bits [OF assms] by blast
  have e: "rest_bits d = rest_bits (d + 1) + 6" using assms(2) by (simp add: rest_bits_def)
  have "drop_bit (rest_bits d) (tobigint h') = drop_bit (rest_bits d) (tobigint h)"
    by (rule bit_eqI) (simp add: bit_drop_bit_eq h'(3))
  moreover have "take_bit 6 (drop_bit (rest_bits (d + 1)) (tobigint h')) = take_bit 6 v"
    by (rule bit_eqI) (auto simp: bit_take_bit_iff bit_drop_bit_eq h'(3) e)
  moreover have "take_bit 6 v = v" using assms(3) by (simp add: take_bit_nat_eq_self)
  ultimately have "same_prefix d (tobigint h') (tobigint h)" "slot d (tobigint h') = v"
    using assms(2) by (simp_all add: same_prefix_def slot_def drop_bit_eq_div take_bit_eq_mod)
  then show ?thesis using h'(1,2) by blast
qed

lemma fold_count:
  "\<forall>x \<in> set xs. f x < n \<Longrightarrow> length nb = n \<Longrightarrow>
     fold (\<lambda>x nb. nb[f x := nb ! f x + 1]) xs nb = map (\<lambda>i. nb ! i + length (filter (\<lambda>x. f x = i) xs)) [0..<n]"
proof (induction xs arbitrary: nb)
  case Nil
  then show ?case by (auto intro: nth_equalityI)
next
  case (Cons x xs)
  then show ?case by (auto simp: nth_list_update intro!: map_cong)
qed

lemma read_slot_key: "k < 2 ^ 160 \<Longrightarrow> d \<le> 26 \<Longrightarrow> read_slot (to_merkle_hash k) d = slot d k"
  using read_slot_tobigint [of "to_merkle_hash k" d] by (simp add: tobigint_to_merkle_hash NUM_SLOTS_def)

lemma blk_subset: "set (blk d k ks) \<subseteq> set ks"
  by (auto simp: blk_def)

lemma count_blocks_blk:
  assumes "keys_ok ks" "length key = 20" "d \<le> 26"
  shows "count_blocks ks d key = Some (map (\<lambda>i. length (filter (\<lambda>x. slot d x = i) (blk d (tobigint key) ks))) [0..<64])"
proof -
  let ?b = "blk d (tobigint key) ks"
  obtain p where p: "clear_suffix key d = Some p" "length p = 20" "tobigint p = base d (tobigint key)"
    using length_clear_suffix_base [OF assms(2,3)] .
  have g: "database_get_keys ks d p = map to_merkle_hash ?b"
    using database_get_keys_blk [OF assms(1) p(2) _ p(3)] assms(3) by (simp add: NUM_SLOTS_def)
  have r: "read_slot (to_merkle_hash x) d = slot d x" if "x \<in> set ?b" for x
  proof -
    have "x \<in> set ks" using that blk_subset by blast
    then show ?thesis using read_slot_key [of x d] assms by (auto simp: keys_ok_def)
  qed
  have "fold (\<lambda>x nb. nb[read_slot (to_merkle_hash x) d := nb ! read_slot (to_merkle_hash x) d + 1]) ?b (replicate 64 0)
      = fold (\<lambda>x nb. nb[slot d x := nb ! slot d x + 1]) ?b (replicate 64 0)"
    using r by (intro fold_cong) auto
  also have "\<dots> = map (\<lambda>i. length (filter (\<lambda>x. slot d x = i) ?b)) [0..<64]"
    by (subst fold_count [where n = 64]) (auto simp: slot_less)
  finally show ?thesis by (simp add: count_blocks_def p(1) g fold_map comp_def)
qed

lemma split_children_canon:
  assumes "keys_ok ks" "d < 26" "length (blk d k ks) \<le> 64"
    and nb: "nb = map (\<lambda>i. length (filter (\<lambda>x. slot d x = i) (blk d k ks))) [0..<64]"
  shows "\<forall>i \<in> set is. i < 64 \<Longrightarrow> length p = 20 \<Longrightarrow> same_prefix d (tobigint p) k \<Longrightarrow>
    split_children sha True ks d nb p is = Some (map (\<lambda>i. canon sha (d + 1) (filter (\<lambda>x. slot d x = i) (blk d k ks))) is)"
proof (induction "is" arbitrary: p)
  case (Cons i "is")
  then obtain p' where p': "write_slot p d i = Some p'" "length p' = 20" "same_prefix d (tobigint p') (tobigint p)"
    "slot d (tobigint p') = i"
    using write_slot_prefix [of p d i] assms(2) by auto
  have s: "same_prefix d (tobigint p') k" using p'(3) Cons.prems(3) by (simp add: same_prefix_def)
  have b: "blk (d + 1) (tobigint p') ks = filter (\<lambda>x. slot d x = i) (blk d k ks)"
    using s p'(4) by (simp add: blk_Suc [OF assms(2)]) (simp add: blk_def same_prefix_def)
  have "length (filter (\<lambda>x. slot d x = i) (blk d k ks)) \<le> 64"
    using assms(3) length_filter_le [of _ "blk d k ks"] le_trans by blast
  then have "rehash sha True ks (d + 1) p' (initialize (nb ! i)) = Some (canon sha (d + 1) (filter (\<lambda>x. slot d x = i) (blk d k ks)))"
    using rehash_leaf [OF assms(1) p'(2), of "d + 1"] assms(2) Cons.prems(1) unfolding b by (simp add: initialize_def nb)
  then show ?case using Cons.IH [OF _ p'(2) s] Cons.prems(1) p'(1) by simp
qed simp

lemma leaf2internal_canon:
  assumes "keys_ok ks" "length key = 20" "d < 26" "length (blk d (tobigint key) ks) \<le> 64"
  shows "leaf2internal sha True ks d key (MNode c h None) =
    Some (MNode c h (Some (map (\<lambda>i. canon sha (d + 1) (filter (\<lambda>x. slot d x = i) (blk d (tobigint key) ks))) [0..<64])))"
proof -
  obtain p where p: "clear_suffix key d = Some p" "length p = 20" "tobigint p = base d (tobigint key)"
    using length_clear_suffix_base [OF assms(2), of d] assms(3) by auto
  have "same_prefix d (tobigint p) (tobigint key)" by (simp add: p(3) same_prefix_def base_def)
  then show ?thesis
    using split_children_canon [OF assms(1,3,4) refl, of "[0..<64]" p sha] p(1,2) assms(3)
      count_blocks_blk [OF assms(1,2), of d]
    by (simp add: leaf2internal_def isleaf_def NUM_SLOTS_def)
qed

subsection \<open>Insertion and removal\<close>

lemma isleaf_MNode [simp]: "isleaf (MNode c h e) \<longleftrightarrow> e = None"
  by (simp add: isleaf_def)

text \<open>Both operations change one block: the children of the changed node, and its hash.\<close>

lemma children_update:
  assumes "\<And>i. i \<noteq> j \<Longrightarrow> filter (\<lambda>x. slot d x = i) b' = filter (\<lambda>x. slot d x = i) b" "j < 64"
  shows "(map (\<lambda>i. canon sha (d + 1) (filter (\<lambda>x. slot d x = i) b)) [0..<64])
      [j := canon sha (d + 1) (filter (\<lambda>x. slot d x = j) b')]
    = map (\<lambda>i. canon sha (d + 1) (filter (\<lambda>x. slot d x = i) b')) [0..<64]"
  using assms by (intro nth_equalityI) (auto simp: nth_list_update)

lemma rehash_internal:
  "c \<noteq> 0 \<Longrightarrow> rehash sha True ks d key (MNode c h (Some cs)) = Some (MNode c (sha (concat (map nhash cs))) (Some cs))"
  by (simp add: rehash_def set_hash_def)

text \<open>The part of an insertion below an internal node.\<close>

lemma insert_internal:
  assumes "keys_ok ks" "length key = 20" "d < 26" "tobigint key \<notin> set ks"
    and n: "nentry n = Some (map (\<lambda>i. canon sha (d + 1) (filter (\<lambda>x. slot d x = i) (blk d (tobigint key) ks))) [0..<64])"
      "ncount n = length (blk d (tobigint key) ks)" "64 \<le> ncount n"
    and IH: "insert_at sha True (d + 1) key (canon sha (d + 1) (blk (d + 1) (tobigint key) ks)) ks
      = Some (canon sha (d + 1) (blk (d + 1) (tobigint key) (insort (tobigint key) ks)), insort (tobigint key) ks)"
    and nf: "\<not> isleaf n"
  shows "insert_at sha True d key n ks =
    Some (canon sha d (blk d (tobigint key) (insort (tobigint key) ks)), insort (tobigint key) ks)"
proof -
  let ?k = "tobigint key"
  let ?b = "blk d ?k ks" and ?b' = "insort ?k (blk d ?k ks)" and ?j = "slot d ?k"
  let ?cs = "\<lambda>b. map (\<lambda>i. canon sha (d + 1) (filter (\<lambda>x. slot d x = i) b)) [0..<64]"
  have kd: "read_slot key d = ?j" using read_slot_tobigint [OF assms(2)] assms(3) by (simp add: NUM_SLOTS_def)
  have sb: "sorted ?b" using assms(1) by (simp add: keys_ok_def blk_def sorted_wrt_filter)
  have b': "blk d ?k (insort ?k ks) = ?b'" by (rule blk_insort [OF assms(1)])
  have Sb: "blk (Suc d) ?k ks = filter (\<lambda>x. slot d x = ?j) ?b" using blk_Suc [OF assms(3)] by simp
  have Sb': "blk (Suc d) ?k (insort ?k ks) = filter (\<lambda>x. slot d x = ?j) ?b'" using blk_Suc [OF assms(3)] b' by simp
  have other: "filter (\<lambda>x. slot d x = i) ?b' = filter (\<lambda>x. slot d x = i) ?b" if "i \<noteq> ?j" for i
    using filter_insort [OF sb, of "\<lambda>x. slot d x = i" ?k] that by simp
  have c: "child n ?j = Some (canon sha (d + 1) (blk (d + 1) ?k ks))"
    using n(1) slot_less by (simp add: child_def Sb)
  have "set_child n ?j (canon sha (d + 1) (blk (d + 1) ?k (insort ?k ks))) = MNode (ncount n) (nhash n) (Some (?cs ?b'))"
    using children_update [OF other slot_less] n(1) by (simp add: set_child_def Sb')
  then have "insert_at sha True d key n ks =
      map_option (\<lambda>n. (n, insort ?k ks)) (rehash sha True (insort ?k ks) d key (MNode (ncount n + 1) (nhash n) (Some (?cs ?b'))))"
    using nf IH c by (subst insert_at.simps) (simp add: kd set_count_def map_conv_bind_option comp_def)
  also have "\<dots> = Some (MNode (length ?b') (sha (concat (map nhash (?cs ?b')))) (Some (?cs ?b')), insort ?k ks)"
    by (simp add: rehash_internal n(2))
  also have "MNode (length ?b') (sha (concat (map nhash (?cs ?b')))) (Some (?cs ?b')) = canon sha d ?b'"
    using canon_internal [of ?b' d sha] n(2,3) assms(3) by (simp add: Let_def)
  finally show ?thesis by (simp add: b')
qed

lemma insert_at_canon:
  assumes "keys_ok ks" "length key = 20" "tobigint key \<notin> set ks"
  shows "d \<le> 26 \<Longrightarrow> insert_at sha True d key (canon sha d (blk d (tobigint key) ks)) ks =
    Some (canon sha d (blk d (tobigint key) (insort (tobigint key) ks)), insort (tobigint key) ks)"
proof (induction "26 - d" arbitrary: d rule: less_induct)
  case less
  let ?k = "tobigint key"
  let ?b = "blk d ?k ks" and ?ks' = "insort ?k ks"
  have k: "?k < 2 ^ 160" using tobigint_less [OF assms(2)] .
  have ok': "keys_ok ?ks'" using keys_ok_insort [OF assms(1,3) k] .
  have b': "blk d ?k ?ks' = insort ?k ?b" by (rule blk_insort [OF assms(1)])
  have IH: "insert_at sha True (d + 1) key (canon sha (d + 1) (blk (d + 1) ?k ks)) ks
      = Some (canon sha (d + 1) (blk (d + 1) ?k ?ks'), ?ks')" if "d < 26"
    using less.hyps [of "d + 1"] that by simp
  have "d < 26" if "64 \<le> length ?b" using blk_26_length [OF assms(1), of ?k] less.prems that by (cases "d = 26") auto
  then consider (leaf) "length ?b < 64" | (full) "length ?b = 64" "d < 26" | (internal) "64 < length ?b" "d < 26"
    by (metis less_imp_le linorder_neqE_nat order_refl)
  then show ?case
  proof cases
    case leaf
    have "rehash sha True ?ks' d key (MNode (length ?b + 1) (leaf_hash sha ?b) None) = Some (canon sha d (blk d ?k ?ks'))"
      using rehash_leaf [OF ok' assms(2) less.prems] leaf b' by simp
    then show ?thesis
      using leaf assms(3) by (subst insert_at.simps) (simp add: canon_leaf isleaf_def leaf_is_full_def set_count_def)
  next
    case full
    define n where "n = MNode (length ?b) (leaf_hash sha ?b)
      (Some (map (\<lambda>i. canon sha (d + 1) (filter (\<lambda>x. slot d x = i) ?b)) [0..<64]))"
    have c: "canon sha d ?b = MNode (length ?b) (leaf_hash sha ?b) None" using full by (simp add: canon_leaf)
    have "leaf2internal sha True ks d key (canon sha d ?b) = Some n"
      using leaf2internal_canon [OF assms(1,2) full(2)] full(1) c by (simp add: n_def)
    then have "insert_at sha True d key (canon sha d ?b) ks = insert_at sha True d key n ks"
      using full c by (subst (1 2) insert_at.simps) (simp add: isleaf_def leaf_is_full_def n_def)
    then show ?thesis
      using insert_internal [OF assms(1,2) full(2) assms(3), of n sha] IH full by (simp add: n_def isleaf_def)
  next
    case internal
    then show ?thesis
      using insert_internal [OF assms(1,2) internal(2) assms(3), of "canon sha d ?b" sha] IH
      by (simp add: canon_internal Let_def isleaf_def)
  qed
qed

lemma remove_internal:
  assumes "keys_ok ks" "length key = 20" "d < 26" "tobigint key \<in> set ks" "64 < length (blk d (tobigint key) ks)"
    and IH: "remove_at sha True (d + 1) key (canon sha (d + 1) (blk (d + 1) (tobigint key) ks)) ks
      = Some (canon sha (d + 1) (blk (d + 1) (tobigint key) (remove1 (tobigint key) ks)), remove1 (tobigint key) ks)"
  shows "remove_at sha True d key (canon sha d (blk d (tobigint key) ks)) ks =
    Some (canon sha d (blk d (tobigint key) (remove1 (tobigint key) ks)), remove1 (tobigint key) ks)"
proof -
  let ?k = "tobigint key"
  let ?b = "blk d ?k ks" and ?j = "slot d ?k" and ?ks' = "remove1 ?k ks"
  let ?b' = "remove1 ?k ?b"
  let ?cs = "\<lambda>b. map (\<lambda>i. canon sha (Suc d) (filter (\<lambda>x. slot d x = i) b)) [0..<64]"
  have kd: "read_slot key d = ?j" using read_slot_tobigint [OF assms(2)] assms(3) by (simp add: NUM_SLOTS_def)
  have kb: "?k \<in> set ?b" using assms(4) by (simp add: blk_def same_prefix_def)
  have b': "blk d ?k ?ks' = ?b'" by (rule blk_remove1 [OF assms(1)])
  have ok': "keys_ok ?ks'" by (rule keys_ok_remove1 [OF assms(1)])
  have Sb: "blk (Suc d) ?k ks = filter (\<lambda>x. slot d x = ?j) ?b" using blk_Suc [OF assms(3)] by simp
  have Sb': "blk (Suc d) ?k ?ks' = filter (\<lambda>x. slot d x = ?j) ?b'" using blk_Suc [OF assms(3)] b' by simp
  have "distinct ?b" using assms(1) by (simp add: keys_ok_def blk_def)
  then have other: "filter (\<lambda>x. slot d x = i) ?b' = filter (\<lambda>x. slot d x = i) ?b" if "i \<noteq> ?j" for i
    using that by (auto simp: distinct_remove1_removeAll removeAll_filter_not_eq intro!: filter_cong)
  have l: "length ?b' = length ?b - 1" using kb by (simp add: length_remove1)
  have n: "canon sha d ?b = MNode (length ?b) (sha (concat (map nhash (?cs ?b)))) (Some (?cs ?b))"
    using assms(3,5) by (simp add: canon_internal Let_def)
  then have nl: "\<not> isleaf (canon sha d ?b)" by simp
  have "child (canon sha d ?b) ?j = Some (canon sha (Suc d) (blk (Suc d) ?k ks))"
    using slot_less by (simp add: child_def n Sb)
  moreover have "set_child (canon sha d ?b) ?j (canon sha (Suc d) (blk (Suc d) ?k ?ks'))
      = MNode (length ?b) (nhash (canon sha d ?b)) (Some (?cs ?b'))"
    using children_update [OF other slot_less, where sha = sha] by (simp add: set_child_def Sb' n)
  ultimately have r: "remove_at sha True d key (canon sha d ?b) ks =
      map_option (\<lambda>n. (n, ?ks')) (rehash sha True ?ks' d key
        (if length ?b' \<le> 64 then MNode (length ?b') (nhash (canon sha d ?b)) None
         else MNode (length ?b') (nhash (canon sha d ?b)) (Some (?cs ?b'))))"
    using assms(5) IH nl length_pos_if_in_set [OF kb]
    by (subst remove_at.simps) (simp add: kd set_count_def internal2leaf_def l map_conv_bind_option comp_def)
  show ?thesis
  proof (cases "length ?b' \<le> 64")
    case True
    then show ?thesis using r rehash_leaf [OF ok' assms(2), of d] assms(3) by (simp add: b')
  next
    case False
    then have "?b' \<noteq> []" by auto
    then show ?thesis using r canon_internal [of ?b' d sha] assms(3) False by (simp add: rehash_internal b' Let_def)
  qed
qed

lemma remove_at_canon:
  assumes "keys_ok ks" "length key = 20" "tobigint key \<in> set ks"
  shows "d \<le> 26 \<Longrightarrow> remove_at sha True d key (canon sha d (blk d (tobigint key) ks)) ks =
    Some (canon sha d (blk d (tobigint key) (remove1 (tobigint key) ks)), remove1 (tobigint key) ks)"
proof (induction "26 - d" arbitrary: d rule: less_induct)
  case less
  let ?k = "tobigint key"
  let ?b = "blk d ?k ks" and ?ks' = "remove1 ?k ks"
  have ok': "keys_ok ?ks'" by (rule keys_ok_remove1 [OF assms(1)])
  have b': "blk d ?k ?ks' = remove1 ?k ?b" by (rule blk_remove1 [OF assms(1)])
  have kb: "?k \<in> set ?b" using assms(3) by (simp add: blk_def same_prefix_def)
  then have l: "length (remove1 ?k ?b) = length ?b - 1" "?b \<noteq> []" by (auto simp: length_remove1)
  show ?case
  proof (cases "length ?b \<le> 64")
    case True
    have "rehash sha True ?ks' d key (MNode (length ?b - 1) (leaf_hash sha ?b) None) = Some (canon sha d (blk d ?k ?ks'))"
      using rehash_leaf [OF ok' assms(2) less.prems] True l b' by simp
    then show ?thesis
      using True assms(3) l(2) by (subst remove_at.simps) (simp add: canon_leaf isleaf_def set_count_def)
  next
    case False
    then have d: "d < 26" using blk_26_length [OF assms(1), of ?k] less.prems by (cases "d = 26") auto
    then show ?thesis using remove_internal [OF assms(1,2) d assms(3), of sha] less.hyps [of "d + 1"] False by simp
  qed
qed

subsection \<open>The tree refines the set of keys\<close>

definition tree_ok :: "(bytes \<Rightarrow> merkle_hash) \<Rightarrow> merkle_tree \<Rightarrow> bool" where
  "tree_ok sha t \<longleftrightarrow> do_rehash t \<and> keys_ok (keylist t) \<and> root t = canon sha 0 (keylist t)"

definition keys_of :: "merkle_tree \<Rightarrow> nat set" where
  "keys_of t = set (keylist t)"

lemma blk_0: "keys_ok ks \<Longrightarrow> k < 2 ^ 160 \<Longrightarrow> blk 0 k ks = ks"
  unfolding blk_def by (rule filter_True) (auto simp: keys_ok_def intro: same_prefix_0)

lemma length_zero_hash [simp]: "length zero_hash = 20"
  by (simp add: zero_hash_def merkle_hash_of_def hashsize_def)

lemma new_tree_ok: "tree_ok sha new_tree \<and> keys_of new_tree = {}"
  by (simp add: tree_ok_def new_tree_def keys_ok_def canon_leaf leaf_hash_def new_node_def keys_of_def)

lemma insert_id_ok:
  assumes "tree_ok sha t" "k < 2 ^ 160" "k \<notin> keys_of t"
  shows "\<exists>t'. insert_id sha t k = Some t' \<and> tree_ok sha t' \<and> keys_of t' = insert k (keys_of t)"
proof -
  have t: "do_rehash t" "keys_ok (keylist t)" "root t = canon sha 0 (keylist t)" using assms(1) by (simp_all add: tree_ok_def)
  have k: "tobigint (to_merkle_hash k) = k" using assms(2) by (rule tobigint_to_merkle_hash)
  have ok': "keys_ok (insort k (keylist t))" using keys_ok_insort [OF t(2) _ assms(2)] assms(3) by (simp add: keys_of_def)
  then show ?thesis
    using insert_at_canon [OF t(2), of "to_merkle_hash k" 0 sha] assms(3) t blk_0 [OF t(2) assms(2)] blk_0 [OF ok' assms(2)]
    by (simp add: insert_id_def tree_insert_def key_exists_def k keys_of_def tree_ok_def set_insort_key)
qed

lemma remove_id_ok:
  assumes "tree_ok sha t" "k < 2 ^ 160" "k \<in> keys_of t"
  shows "\<exists>t'. remove_id sha t k = Some t' \<and> tree_ok sha t' \<and> keys_of t' = keys_of t - {k}"
proof -
  have t: "do_rehash t" "keys_ok (keylist t)" "root t = canon sha 0 (keylist t)" using assms(1) by (simp_all add: tree_ok_def)
  have k: "tobigint (to_merkle_hash k) = k" using assms(2) by (rule tobigint_to_merkle_hash)
  have ok': "keys_ok (remove1 k (keylist t))" using keys_ok_remove1 [OF t(2)] .
  then show ?thesis
    using remove_at_canon [OF t(2), of "to_merkle_hash k" 0 sha] assms(3) t blk_0 [OF t(2) assms(2)] blk_0 [OF ok' assms(2)]
    by (simp add: remove_id_def tree_remove_def key_exists_def k keys_of_def tree_ok_def keys_ok_def)
qed

text \<open>
  C12: the Merkle tree refines the set of its keys. Every insertion of an absent identifier below \<open>2 ^ 160\<close> and every
  removal of a present one succeeds, changes the set of keys by exactly that identifier, and leads from the
  canonical tree of the one set to the canonical tree of the other: a leaf where at most 64 keys share the
  prefix, 64 children otherwise, each node with its number of keys and with the hash over its keys or over the
  hashes of its children. Inserting a present key and removing an absent one stop the program. No property of
  SHA-1 is used.
\<close>

theorem merkle_tree_refines_set:
  assumes "tree_ok sha t" "k < 2 ^ 160"
  shows "if k \<in> keys_of t
    then insert_id sha t k = None
      \<and> (\<exists>t'. remove_id sha t k = Some t' \<and> tree_ok sha t' \<and> keys_of t' = keys_of t - {k})
    else remove_id sha t k = None
      \<and> (\<exists>t'. insert_id sha t k = Some t' \<and> tree_ok sha t' \<and> keys_of t' = insert k (keys_of t))"
  using insert_id_ok [OF assms] remove_id_ok [OF assms]
  by (simp add: insert_id_def tree_insert_def remove_id_def tree_remove_def key_exists_def keys_of_def
      tobigint_to_merkle_hash [OF assms(2)])

theorem merkle_tree_refines_set_witness:
  "\<exists>t'. insert_id (\<lambda>m. m) new_tree 5 = Some t' \<and> tree_ok (\<lambda>m. m) t' \<and> keys_of t' = {5}"
  using merkle_tree_refines_set [of "\<lambda>m. m" new_tree 5] new_tree_ok by simp

subsection \<open>Equal hashes, equal keys\<close>

text \<open>The messages that are hashed in the tree of a block.\<close>

function msgs :: "(bytes \<Rightarrow> merkle_hash) \<Rightarrow> nat \<Rightarrow> nat list \<Rightarrow> bytes set" where
  "msgs sha d b =
     (if b = [] then {}
      else if length b \<le> 64 \<or> 26 \<le> d then {concat (map to_merkle_hash b)}
      else (let cs = map (\<lambda>i. canon sha (d + 1) (filter (\<lambda>k. slot d k = i) b)) [0..<64]
            in insert (concat (map nhash cs)) (\<Union>i < 64. msgs sha (d + 1) (filter (\<lambda>k. slot d k = i) b))))"
  by pat_completeness auto
termination by (relation "measure (\<lambda>(sha, d, b). 26 - d)") auto

declare msgs.simps [simp del]

text \<open>No collision of SHA-1 on a set of messages, and none of the keys is itself one of the hashes.\<close>

definition no_collision :: "(bytes \<Rightarrow> merkle_hash) \<Rightarrow> bytes set \<Rightarrow> nat set \<Rightarrow> bool" where
  "no_collision sha M K \<longleftrightarrow>
     inj_on sha M \<and> zero_hash \<notin> sha ` M \<and> (\<forall>m. length (sha m) = 20) \<and> to_merkle_hash ` K \<inter> sha ` M = {}"

lemma no_collision_mono: "no_collision sha M K \<Longrightarrow> M' \<subseteq> M \<Longrightarrow> K' \<subseteq> K \<Longrightarrow> no_collision sha M' K'"
  unfolding no_collision_def by (meson image_mono inj_on_subset disjoint_iff subset_iff)

lemma concat_eq_length:
  assumes "0 < n"
  shows "\<forall>x \<in> set xs. length x = n \<Longrightarrow> \<forall>y \<in> set ys. length y = n \<Longrightarrow> concat xs = concat ys \<Longrightarrow> xs = ys"
proof (induction xs arbitrary: ys)
  case Nil
  then show ?case using assms by (cases ys) auto
next
  case (Cons x xs)
  have "x \<noteq> []" using Cons.prems(1) assms by force
  then obtain y ys' where ys: "ys = y # ys'" using Cons.prems(3) by (cases ys) simp_all
  then have "x @ concat xs = y @ concat ys'" "length x = length y" using Cons.prems by simp_all
  then have "x = y" "concat xs = concat ys'" by simp_all
  then show ?case using Cons.IH [of ys'] Cons.prems(1,2) ys by simp
qed

lemma leaf_message_inj:
  assumes "\<forall>k \<in> set b \<union> set b'. k < 2 ^ 160" "concat (map to_merkle_hash b) = concat (map to_merkle_hash b')"
  shows "b = b'"
proof -
  have "map to_merkle_hash b = map to_merkle_hash b'"
    by (rule concat_eq_length [of 20]) (use assms(2) in auto)
  moreover have "inj_on to_merkle_hash (set b \<union> set b')"
    using assms(1) by (metis inj_onI tobigint_to_merkle_hash)
  ultimately show ?thesis by (rule map_inj_on)
qed

lemma nhash_canon:
  "nhash (canon sha d b) =
     (if b = [] then zero_hash
      else if length b \<le> 64 \<or> 26 \<le> d then sha (concat (map to_merkle_hash b))
      else sha (concat (map (\<lambda>i. nhash (canon sha (d + 1) (filter (\<lambda>k. slot d k = i) b))) [0..<64])))"
  by (subst canon.simps) (simp add: leaf_hash_def Let_def comp_def)

lemma nhash_in_msgs: "b \<noteq> [] \<Longrightarrow> nhash (canon sha d b) \<in> sha ` msgs sha d b"
  by (subst msgs.simps) (auto simp: nhash_canon Let_def comp_def)

lemma length_nhash_canon: "\<forall>m. length (sha m) = 20 \<Longrightarrow> length (nhash (canon sha d b)) = 20"
  by (simp add: nhash_canon)

lemma filter_slots_eq:
  assumes "\<And>i. i < 64 \<Longrightarrow> filter (\<lambda>k. slot d k = i) b = filter (\<lambda>k. slot d k = i) b'"
  shows "set b = set b'"
proof -
  have "x \<in> set b \<longleftrightarrow> x \<in> set b'" for x
  proof -
    have "x \<in> set (filter (\<lambda>k. slot d k = slot d x) b) \<longleftrightarrow> x \<in> set (filter (\<lambda>k. slot d k = slot d x) b')"
      using assms [OF slot_less] by simp
    then show ?thesis by simp
  qed
  then show ?thesis by blast
qed

text \<open>A leaf is never mistaken for an internal node.\<close>

lemma leaf_not_internal:
  assumes "no_collision sha (msgs sha d b \<union> msgs sha d b') (set b \<union> set b')" "b \<noteq> []" "64 < length b'" "d < 26"
  shows "concat (map to_merkle_hash b) \<noteq> concat (map (\<lambda>i. nhash (canon sha (d + 1) (filter (\<lambda>k. slot d k = i) b'))) [0..<64])"
proof
  let ?f = "\<lambda>i. filter (\<lambda>k. slot d k = i) b'"
  assume e: "concat (map to_merkle_hash b) = concat (map (\<lambda>i. nhash (canon sha (d + 1) (?f i))) [0..<64])"
  have l: "\<forall>m. length (sha m) = 20" using assms(1) by (simp add: no_collision_def)
  have eq: "map to_merkle_hash b = map (\<lambda>i. nhash (canon sha (d + 1) (?f i))) [0..<64]"
    by (rule concat_eq_length [of 20]) (use e length_nhash_canon [OF l] in auto)
  obtain x where "x \<in> set b'" using assms(3) by (cases b') auto
  then have ne: "?f (slot d x) \<noteq> []" by (auto simp: filter_empty_conv)
  have "nhash (canon sha (d + 1) (?f (slot d x))) \<in> set (map (\<lambda>i. nhash (canon sha (d + 1) (?f i))) [0..<64])"
    using slot_less by auto
  then have "nhash (canon sha (d + 1) (?f (slot d x))) \<in> to_merkle_hash ` set b" unfolding eq [symmetric] by auto
  moreover have "msgs sha (d + 1) (?f (slot d x)) \<subseteq> msgs sha d b'"
    using assms(3,4) slot_less [of d x] by (subst (2) msgs.simps) (auto simp: Let_def)
  then have "nhash (canon sha (d + 1) (?f (slot d x))) \<in> sha ` msgs sha d b'" using nhash_in_msgs [OF ne] by blast
  ultimately show False using assms(1) by (auto simp: no_collision_def)
qed

lemma msgs_child: "64 < length b \<Longrightarrow> d < 26 \<Longrightarrow> i < 64 \<Longrightarrow> msgs sha (d + 1) (filter (\<lambda>k. slot d k = i) b) \<subseteq> msgs sha d b"
  by (subst (2) msgs.simps) (auto simp: Let_def)

definition one_block :: "nat \<Rightarrow> nat list \<Rightarrow> bool" where
  "one_block d b \<longleftrightarrow> keys_ok b \<and> (\<forall>x \<in> set b. \<forall>y \<in> set b. same_prefix d x y)"

lemma one_block_child: "one_block d b \<Longrightarrow> d < 26 \<Longrightarrow> one_block (d + 1) (filter (\<lambda>k. slot d k = i) b)"
  by (simp add: one_block_def keys_ok_def same_prefix_Suc sorted_wrt_filter)

lemma one_block_26: "one_block 26 b \<Longrightarrow> length b \<le> 16"
proof (cases b)
  case (Cons x xs)
  assume b: "one_block 26 b"
  then have "blk 26 x b = b" unfolding blk_def by (intro filter_True) (simp add: one_block_def Cons)
  then show ?thesis using blk_26_length [of b x] b by (simp add: one_block_def)
qed simp

lemma canon_internal_inj:
  assumes "one_block d b" "one_block d b'" "d < 26" "64 < length b" "64 < length b'" "\<forall>m. length (sha m) = 20"
    and "\<And>i. i < 64 \<Longrightarrow> nhash (canon sha (d + 1) (filter (\<lambda>k. slot d k = i) b)) = nhash (canon sha (d + 1) (filter (\<lambda>k. slot d k = i) b'))
      \<Longrightarrow> filter (\<lambda>k. slot d k = i) b = filter (\<lambda>k. slot d k = i) b'"
    and "concat (map (\<lambda>i. nhash (canon sha (d + 1) (filter (\<lambda>k. slot d k = i) b))) [0..<64])
      = concat (map (\<lambda>i. nhash (canon sha (d + 1) (filter (\<lambda>k. slot d k = i) b'))) [0..<64])"
  shows "b = b'"
proof -
  have "map (\<lambda>i. nhash (canon sha (d + 1) (filter (\<lambda>k. slot d k = i) b))) [0..<64]
      = map (\<lambda>i. nhash (canon sha (d + 1) (filter (\<lambda>k. slot d k = i) b'))) [0..<64]"
    by (rule concat_eq_length [of 20]) (use assms(8) length_nhash_canon [OF assms(6)] in auto)
  then have "nhash (canon sha (d + 1) (filter (\<lambda>k. slot d k = i) b)) = nhash (canon sha (d + 1) (filter (\<lambda>k. slot d k = i) b'))"
    if "i < 64" for i
    using that by simp
  then have "set b = set b'" using filter_slots_eq [of d b b'] assms(7) by blast
  then show ?thesis using assms(1,2) sorted_distinct_set_unique by (auto simp: one_block_def keys_ok_def)
qed

lemma canon_hash_inj:
  "no_collision sha (msgs sha d b \<union> msgs sha d b') (set b \<union> set b') \<Longrightarrow> one_block d b \<Longrightarrow> one_block d b' \<Longrightarrow> d \<le> 26 \<Longrightarrow>
     nhash (canon sha d b) = nhash (canon sha d b') \<Longrightarrow> b = b'"
proof (induction "26 - d" arbitrary: d b b' rule: less_induct)
  case less
  note nc = less.prems(1)
  have inj: "inj_on sha (msgs sha d b \<union> msgs sha d b')" and z: "zero_hash \<notin> sha ` (msgs sha d b \<union> msgs sha d b')"
    and l: "\<forall>m. length (sha m) = 20" using nc by (simp_all add: no_collision_def)
  have small: "length b \<le> 64 \<and> length b' \<le> 64" if "26 \<le> d"
    using that less.prems(2,3,4) one_block_26 [of b] one_block_26 [of b'] by (cases "d = 26") auto
  let ?int = "\<lambda>b. concat (map (\<lambda>i. nhash (canon sha (d + 1) (filter (\<lambda>k. slot d k = i) b))) [0..<64])"
  let ?lf = "\<lambda>b. concat (map to_merkle_hash b)"
  show ?case
  proof (cases "b = [] \<or> b' = []")
    case True
    moreover have "nhash (canon sha d []) = zero_hash" by (simp add: nhash_canon)
    ultimately show ?thesis
      using less.prems(5) z nhash_in_msgs [of b sha d] nhash_in_msgs [of b' sha d] by (metis UnI1 UnI2 image_Un)
  next
    case False
    define m where "m b = (if length b \<le> 64 then ?lf b else ?int b)" for b
    have "m b \<in> msgs sha d b" "m b' \<in> msgs sha d b'"
      using False small by (subst msgs.simps, auto simp: m_def Let_def comp_def)+
    moreover have "sha (m b) = sha (m b')"
      using less.prems(5) False small by (auto simp: nhash_canon m_def split: if_splits)
    ultimately have e: "m b = m b'" using inj by (auto dest: inj_onD)
    consider "length b \<le> 64" "length b' \<le> 64" | "length b \<le> 64" "64 < length b'" "d < 26"
      | "64 < length b" "length b' \<le> 64" "d < 26" | (int) "64 < length b" "64 < length b'" "d < 26"
      using small by linarith
    then show ?thesis
    proof cases
      case 1
      then show ?thesis
        using leaf_message_inj [of b b'] e less.prems(2,3) by (auto simp: m_def one_block_def keys_ok_def)
    next
      case 2
      then show ?thesis using leaf_not_internal [OF nc _ 2(2,3)] e False by (simp add: m_def)
    next
      case 3
      then show ?thesis
        using leaf_not_internal [of sha d b' b] nc e False by (simp add: m_def Un_commute)
    next
      case int
      have "filter (\<lambda>k. slot d k = i) b = filter (\<lambda>k. slot d k = i) b'"
        if "i < 64" "nhash (canon sha (d + 1) (filter (\<lambda>k. slot d k = i) b)) = nhash (canon sha (d + 1) (filter (\<lambda>k. slot d k = i) b'))"
        for i
      proof (rule less.hyps)
        show "no_collision sha (msgs sha (d + 1) (filter (\<lambda>k. slot d k = i) b) \<union> msgs sha (d + 1) (filter (\<lambda>k. slot d k = i) b'))
          (set (filter (\<lambda>k. slot d k = i) b) \<union> set (filter (\<lambda>k. slot d k = i) b'))"
          by (rule no_collision_mono [OF nc]) (use msgs_child [OF int(1,3) that(1)] msgs_child [OF int(2,3) that(1)] in auto)
      qed (use int less.prems(2,3) one_block_child that(2) in auto)
      then show ?thesis
        using canon_internal_inj [OF less.prems(2,3) int(3,1,2) l] e int by (simp add: m_def)
    qed
  qed
qed

text \<open>
  C14: equal hashes mean equal keys. Two trees have the same root hash if and only if they hold the same keys,
  provided that SHA-1 (with hashes of 20 bytes) has no collision among the messages hashed in the two trees, none
  of these has the all-zero hash, and none of the keys is itself the hash of one of the nodes (the hash of a leaf
  and of an internal node are not separated otherwise).
\<close>

theorem equal_hashes_equal_keys:
  assumes "tree_ok sha t" "tree_ok sha t'"
    and "no_collision sha (msgs sha 0 (keylist t) \<union> msgs sha 0 (keylist t')) (keys_of t \<union> keys_of t')"
  shows "nhash (root t) = nhash (root t') \<longleftrightarrow> keys_of t = keys_of t'"
proof -
  have ok: "keys_ok (keylist t)" "keys_ok (keylist t')" and r: "root t = canon sha 0 (keylist t)" "root t' = canon sha 0 (keylist t')"
    using assms(1,2) by (simp_all add: tree_ok_def)
  then have ob: "one_block 0 (keylist t)" "one_block 0 (keylist t')" by (auto simp: one_block_def keys_ok_def intro: same_prefix_0)
  have "keylist t = keylist t' \<longleftrightarrow> keys_of t = keys_of t'"
    using ok sorted_distinct_set_unique by (auto simp: keys_of_def keys_ok_def)
  then show ?thesis using canon_hash_inj [OF _ ob] assms(3) by (auto simp: r keys_of_def)
qed

definition sample_sha :: "bytes \<Rightarrow> merkle_hash" where
  "sample_sha m = take 20 (map (\<lambda>b. b + 1) m @ replicate 20 1)"

definition sample_tree :: "nat \<Rightarrow> merkle_tree" where
  "sample_tree k = \<lparr>do_rehash = True, keylist = [k], root = canon sample_sha 0 [k]\<rparr>"

lemma sample_no_collision:
  "no_collision sample_sha (msgs sample_sha 0 (keylist (sample_tree 5)) \<union> msgs sample_sha 0 (keylist (sample_tree 6)))
     (keys_of (sample_tree 5) \<union> keys_of (sample_tree 6))"
proof -
  have m: "msgs sample_sha 0 [k] = {to_merkle_hash k}" for k by (simp add: msgs.simps)
  have "zero_hash \<noteq> sample_sha (to_merkle_hash 5)" "zero_hash \<noteq> sample_sha (to_merkle_hash 6)"
    "sample_sha (to_merkle_hash 5) \<noteq> sample_sha (to_merkle_hash 6)"
    "to_merkle_hash 5 \<noteq> sample_sha (to_merkle_hash 5)" "to_merkle_hash 5 \<noteq> sample_sha (to_merkle_hash 6)"
    "to_merkle_hash 6 \<noteq> sample_sha (to_merkle_hash 5)" "to_merkle_hash 6 \<noteq> sample_sha (to_merkle_hash 6)"
    by code_simp+
  moreover have "length (sample_sha x) = 20" for x by (simp add: sample_sha_def)
  ultimately show ?thesis
    by (auto simp: no_collision_def sample_tree_def m keys_of_def)
qed

lemma sample_tree_ok: "k < 2 ^ 160 \<Longrightarrow> tree_ok sample_sha (sample_tree k)"
  by (simp add: tree_ok_def sample_tree_def keys_ok_def)

theorem equal_hashes_equal_keys_witness:
  "nhash (root (sample_tree 5)) = nhash (root (sample_tree 6)) \<longleftrightarrow> keys_of (sample_tree 5) = keys_of (sample_tree 6)"
  by (rule equal_hashes_equal_keys [OF sample_tree_ok sample_tree_ok sample_no_collision]) simp_all

end
