(* ===== verification/Merkle_Sync.thy ===== *)
theory Merkle_Sync
  imports Merkle_Correct
begin

text \<open>
  Synchronisation of two Merkle trees (\<^verbatim>\<open>merkle/merkle_syncer.C\<close>, \<^verbatim>\<open>merkle/merkle_server.C\<close>): the local side sends the
  nodes that differ to the remote side, compares its own node with the answer, and reports the keys that one of
  them lacks. A report is a key with \<open>True\<close> when it is missing locally and \<open>False\<close> when it is missing remotely.
  Requests and answers are function calls; \<open>None\<close> is a failed assertion, a \<^verbatim>\<open>fatal\<close> or a loop without end.
\<close>

subsection \<open>Nodes on the wire\<close>

record merkle_rpc_node =
  rpc_depth :: nat
  rpc_prefix :: merkle_hash
  rpc_isleaf :: bool
  rpc_count :: nat
  rpc_hash :: merkle_hash
  rpc_child_hash :: "merkle_hash list"

definition format_rpcnode :: "merkle_tree \<Rightarrow> nat \<Rightarrow> merkle_hash \<Rightarrow> merkle_node \<Rightarrow> merkle_rpc_node option" where
  "format_rpcnode ltree depth prefix n =
     (case nentry n of
        Some cs \<Rightarrow>
          Some \<lparr>rpc_depth = depth, rpc_prefix = prefix, rpc_isleaf = False, rpc_count = ncount n, rpc_hash = nhash n,
                rpc_child_hash = map nhash cs\<rparr>
      | None \<Rightarrow>
          (let keys = database_get_keys (keylist ltree) depth prefix
           in if length keys \<noteq> ncount n then None
              else Some \<lparr>rpc_depth = depth, rpc_prefix = prefix, rpc_isleaf = True, rpc_count = ncount n,
                         rpc_hash = nhash n, rpc_child_hash = keys\<rparr>))"

definition handle_send_node :: "merkle_tree \<Rightarrow> nat \<Rightarrow> merkle_hash \<Rightarrow> merkle_rpc_node option" where
  "handle_send_node ltree depth prefix =
     do { (lnode_depth, lnode) \<leftarrow> lookup_node ltree depth prefix;
          if lnode_depth \<noteq> depth then None
          else do { lnode_prefix \<leftarrow> clear_suffix prefix lnode_depth;
                    format_rpcnode ltree lnode_depth lnode_prefix lnode } }"

text \<open>64 keys are returned, one more is looked up to tell whether there are more.\<close>

definition handle_get_keys :: "merkle_tree \<Rightarrow> nat \<Rightarrow> nat \<Rightarrow> nat list \<times> bool" where
  "handle_get_keys ltree rngmin rngmax =
     (let keys = get_keyrange (keylist ltree) rngmin rngmax 65 in (take 64 keys, length keys = 65))"

subsection \<open>Comparing\<close>

definition in_rng :: "nat \<Rightarrow> nat \<Rightarrow> nat \<Rightarrow> bool" where
  "in_rng rngmin rngmax k = betweenbothincl (int rngmin) (int rngmax) (int k)"

definition overlap :: "nat \<Rightarrow> nat \<Rightarrow> nat \<Rightarrow> nat \<Rightarrow> bool" where
  "overlap l1 r1 l2 r2 \<longleftrightarrow> in_rng l1 r1 l2 \<or> in_rng l1 r1 r2 \<or> in_rng l2 r2 l1 \<or> in_rng l2 r2 r1"

text \<open>The local keys against the table of remote keys; the table keeps what was not met.\<close>

primrec scan_local :: "nat \<Rightarrow> nat \<Rightarrow> nat list \<Rightarrow> nat list \<Rightarrow> (nat \<times> bool) list \<times> nat list" where
  "scan_local rngmin rngmax [] rkeys = ([], rkeys)"
| "scan_local rngmin rngmax (k # lkeys) rkeys =
     (if k \<notin> set rkeys \<and> in_rng rngmin rngmax k
      then (let (reports, rkeys) = scan_local rngmin rngmax lkeys rkeys in ((k, False) # reports, rkeys))
      else scan_local rngmin rngmax lkeys (removeAll k rkeys))"

definition compare_keylists :: "nat list \<Rightarrow> nat list \<Rightarrow> nat \<Rightarrow> nat \<Rightarrow> (nat \<times> bool) list" where
  "compare_keylists lkeys vrkeys rngmin rngmax =
     (let (reports, rkeys) = scan_local rngmin rngmax lkeys (remdups (filter (in_rng rngmin rngmax) vrkeys))
      in reports @ map (\<lambda>k. (k, True)) rkeys)"

text \<open>The range of keys to fetch from the remote side when only it has children; its width is computed from the
  depth and not from six times the depth.\<close>

definition node_range :: "nat \<Rightarrow> nat \<Rightarrow> merkle_rpc_node \<Rightarrow> nat \<times> nat" where
  "node_range rngmin rngmax rnode =
     (let tmpmin = tobigint (rpc_prefix rnode);
          node_width = 2 ^ (160 - rpc_depth rnode);
          tmpmax = tmpmin + node_width - 1;
          tmpmin = (if between (int tmpmin) (int tmpmax) (int rngmin) then rngmin else tmpmin);
          tmpmax = (if between (int tmpmin) (int tmpmax) (int rngmax) then rngmax else tmpmax)
      in (tmpmin, tmpmax))"

text \<open>The reports, and the range with the local keys for which a \<^verbatim>\<open>merkle_getkeyrange\<close> is started.\<close>

definition compare_nodes :: "merkle_tree \<Rightarrow> nat \<Rightarrow> nat \<Rightarrow> merkle_node \<Rightarrow> merkle_rpc_node
    \<Rightarrow> (nat \<times> bool) list \<times> (nat \<times> nat \<times> nat list) option" where
  "compare_nodes ltree rngmin rngmax lnode rnode =
     (let lkeys = database_get_IDs (keylist ltree) (rpc_depth rnode) (rpc_prefix rnode)
      in if rpc_isleaf rnode
         then (compare_keylists lkeys (map tobigint (rpc_child_hash rnode)) rngmin rngmax, None)
         else if isleaf lnode
         then (let (tmpmin, tmpmax) = node_range rngmin rngmax rnode in ([], Some (tmpmin, tmpmax, lkeys)))
         else ([], None))"

text \<open>\<^verbatim>\<open>merkle_getkeyrange\<close> with the remote tree at the other end.\<close>

partial_function (option) getkeyrange :: "merkle_tree \<Rightarrow> nat \<Rightarrow> nat \<Rightarrow> nat list \<Rightarrow> nat \<Rightarrow> (nat \<times> bool) list option" where
  "getkeyrange rtree rngmin rngmax lkeys current =
     (if \<not> in_rng rngmin rngmax current then Some []
      else do { let (rkeys, morekeys) = handle_get_keys rtree current rngmax;
                let sentmax = (if rkeys \<noteq> [] then last rkeys else rngmax);
                let reports = compare_keylists lkeys rkeys current sentmax;
                let current = nat (incID (int (if morekeys then sentmax else rngmax)));
                rest \<leftarrow> getkeyrange rtree rngmin rngmax lkeys current;
                Some (reports @ rest) })"

subsection \<open>The traversal\<close>

record syncer =
  sy_st :: "(merkle_rpc_node \<times> nat) list"
  missing :: "(nat \<times> bool) list"
  ranges :: "(nat \<times> nat \<times> nat list) list"
  sync_done :: bool
  fatal_err :: bool

text \<open>The slots of one node from \<open>p\<close> on: the first child that differs and overlaps the range.\<close>

function scan_slots :: "nat \<Rightarrow> nat \<Rightarrow> merkle_rpc_node \<Rightarrow> merkle_node \<Rightarrow> nat \<Rightarrow> (nat \<times> merkle_hash) option option" where
  "scan_slots rngmin rngmax rnode lnode p =
     (if p < 64
      then do { remote \<leftarrow> (if p < length (rpc_child_hash rnode) then Some (rpc_child_hash rnode ! p) else None);
                local \<leftarrow> child_hash lnode p;
                let depth = rpc_depth rnode + 1;
                prefix \<leftarrow> write_slot (rpc_prefix rnode) (rpc_depth rnode) p;
                if 160 < 6 * depth then None
                else do { let slot_rngmin = tobigint prefix;
                          let slot_rngmax = slot_rngmin + 2 ^ (160 - 6 * depth) - 1;
                          if tobigint remote \<noteq> tobigint local \<and> overlap rngmin rngmax slot_rngmin slot_rngmax
                          then Some (Some (p + 1, prefix))
                          else scan_slots rngmin rngmax rnode lnode (p + 1) } }
      else Some None)"
  by pat_completeness auto
termination by (relation "measure (\<lambda>(mn, mx, rnode, lnode, p). 64 - p)") auto

declare scan_slots.simps [simp del]

fun next_node :: "merkle_tree \<Rightarrow> nat \<Rightarrow> nat \<Rightarrow> (merkle_rpc_node \<times> nat) list
    \<Rightarrow> ((merkle_rpc_node \<times> nat) list \<times> (nat \<times> merkle_hash) option) option" where
  "next_node ltree rngmin rngmax [] = Some ([], None)"
| "next_node ltree rngmin rngmax ((rnode, p) # st) =
     (if rpc_isleaf rnode then None
      else do { ln \<leftarrow> lookup_exact ltree (rpc_depth rnode) (rpc_prefix rnode);
                lnode \<leftarrow> ln;
                found \<leftarrow> scan_slots rngmin rngmax rnode lnode p;
                case found of
                  Some (p, prefix) \<Rightarrow> Some ((rnode, p) # st, Some (rpc_depth rnode + 1, prefix))
                | None \<Rightarrow> next_node ltree rngmin rngmax st })"

text \<open>\<^verbatim>\<open>next\<close>: the node to send, or the end.\<close>

definition sync_next :: "merkle_tree \<Rightarrow> nat \<Rightarrow> nat \<Rightarrow> syncer \<Rightarrow> (syncer \<times> (nat \<times> merkle_hash) option) option" where
  "sync_next ltree rngmin rngmax s =
     (if sync_done s \<or> fatal_err s then None
      else do { (st, req) \<leftarrow> next_node ltree rngmin rngmax (sy_st s);
                Some (case req of None \<Rightarrow> (s\<lparr>sy_st := st, sync_done := True\<rparr>, None) | Some q \<Rightarrow> (s\<lparr>sy_st := st\<rparr>, Some q)) })"

definition sendnode :: "merkle_tree \<Rightarrow> nat \<Rightarrow> merkle_hash \<Rightarrow> merkle_rpc_node option" where
  "sendnode ltree depth prefix =
     do { (lnode_depth, lnode) \<leftarrow> lookup_node ltree depth prefix;
          if lnode_depth \<noteq> depth then None else format_rpcnode ltree depth prefix lnode }"

text \<open>The answer, \<open>None\<close> for an error of the RPC or of the remote side.\<close>

definition sendnode_cb :: "merkle_tree \<Rightarrow> nat \<Rightarrow> nat \<Rightarrow> merkle_rpc_node option \<Rightarrow> syncer
    \<Rightarrow> (syncer \<times> (nat \<times> merkle_hash) option) option" where
  "sendnode_cb ltree rngmin rngmax res s =
     (case res of
        None \<Rightarrow> Some (s\<lparr>fatal_err := True, sync_done := True\<rparr>, None)
      | Some rnode \<Rightarrow>
          do { ln \<leftarrow> lookup_exact ltree (rpc_depth rnode) (rpc_prefix rnode);
               lnode \<leftarrow> ln;
               let (reports, rng) = compare_nodes ltree rngmin rngmax lnode rnode;
               let s = s\<lparr>missing := missing s @ reports, ranges := ranges s @ (case rng of None \<Rightarrow> [] | Some g \<Rightarrow> [g])\<rparr>;
               sync_next ltree rngmin rngmax
                 (if \<not> isleaf lnode \<and> \<not> rpc_isleaf rnode then s\<lparr>sy_st := (rnode, 0) # sy_st s\<rparr> else s) })"

text \<open>The exchange with a remote tree that answers every request.\<close>

partial_function (option) sync_run :: "merkle_tree \<Rightarrow> merkle_tree \<Rightarrow> nat \<Rightarrow> nat \<Rightarrow> nat \<Rightarrow> merkle_hash \<Rightarrow> syncer \<Rightarrow> syncer option" where
  "sync_run ltree rtree rngmin rngmax depth prefix s =
     do { arg \<leftarrow> sendnode ltree depth prefix;
          rnode \<leftarrow> handle_send_node rtree (rpc_depth arg) (rpc_prefix arg);
          (s, req) \<leftarrow> sendnode_cb ltree rngmin rngmax (Some rnode) s;
          case req of None \<Rightarrow> Some s | Some (d, p) \<Rightarrow> sync_run ltree rtree rngmin rngmax d p s }"

definition new_syncer :: syncer where
  "new_syncer = \<lparr>sy_st = [], missing = [], ranges = [], sync_done = False, fatal_err = False\<rparr>"

definition sync :: "merkle_tree \<Rightarrow> merkle_tree \<Rightarrow> nat \<Rightarrow> nat \<Rightarrow> syncer option" where
  "sync ltree rtree rngmin rngmax = sync_run ltree rtree rngmin rngmax 0 zero_hash new_syncer"

end
