(* ===== verification/Merkle_Sync_Correct.thy ===== *)
theory Merkle_Sync_Correct
  imports Merkle_Sync
begin

text \<open>
  The synchronisation of two Merkle trees ends and reports exactly the keys of the range that one of the two trees
  lacks, as long as the local tree has children wherever the remote one has; and what goes wrong otherwise.
\<close>

subsection \<open>Comparing lists of keys\<close>

definition difference :: "nat \<Rightarrow> nat \<Rightarrow> nat set \<Rightarrow> nat set \<Rightarrow> (nat \<times> bool) set" where
  "difference mn mx A B =
     (\<lambda>k. (k, False)) ` {k \<in> A - B. in_rng mn mx k} \<union> (\<lambda>k. (k, True)) ` {k \<in> B - A. in_rng mn mx k}"

lemma scan_local_set:
  "distinct lkeys \<Longrightarrow> set (fst (scan_local mn mx lkeys R)) = (\<lambda>k. (k, False)) ` {k \<in> set lkeys - set R. in_rng mn mx k}
     \<and> set (snd (scan_local mn mx lkeys R)) = set R - set lkeys"
proof (induction lkeys arbitrary: R)
  case (Cons k lkeys)
  show ?case
  proof (cases "k \<notin> set R \<and> in_rng mn mx k")
    case True
    then show ?thesis using Cons.IH [of R] Cons.prems by (auto simp: case_prod_unfold Let_def)
  next
    case False
    then show ?thesis using Cons.IH [of "removeAll k R"] Cons.prems by auto
  qed
qed simp

lemma compare_keylists_set:
  "distinct lkeys \<Longrightarrow> set (compare_keylists lkeys rkeys mn mx) = difference mn mx (set lkeys) (set rkeys)"
  using scan_local_set [of lkeys mn mx "remdups (filter (in_rng mn mx) rkeys)"]
  by (simp add: compare_keylists_def difference_def case_prod_unfold Let_def) blast

lemma overlap_if:
  assumes "lo \<le> k" "k \<le> hi" "lo < hi" "in_rng mn mx k"
  shows "overlap mn mx lo hi"
  using assms unfolding overlap_def in_rng_def betweenbothincl_def by (auto split: if_splits)

subsection \<open>Nodes of canonical trees\<close>

lemma lookup_at_path:
  assumes "length h = 20" "d \<le> 26" "\<forall>d' < d. 64 < length (blk d' (tobigint h) ks)"
  shows "j \<le> d \<Longrightarrow> lookup_at j d h (canon sha j (blk j (tobigint h) ks)) = Some (d, canon sha d (blk d (tobigint h) ks))"
proof (induction "d - j" arbitrary: j)
  case 0
  then show ?case by (subst lookup_at.simps) simp
next
  case (Suc n)
  let ?k = "tobigint h"
  have j: "j < d" "j < 26" using Suc.hyps(2) assms(2) by linarith+
  have "read_slot h j = slot j ?k" using read_slot_tobigint [OF assms(1)] j by (simp add: NUM_SLOTS_def)
  moreover have "blk (Suc j) ?k ks = filter (\<lambda>x. slot j x = slot j ?k) (blk j ?k ks)" by (rule blk_Suc [OF j(2)])
  moreover have "64 < length (blk j ?k ks)" using assms(3) j by blast
  ultimately have "\<not> isleaf (canon sha j (blk j ?k ks))"
    "child (canon sha j (blk j ?k ks)) (read_slot h j) = Some (canon sha (Suc j) (blk (Suc j) ?k ks))"
    using j slot_less by (simp_all add: canon_internal Let_def child_def)
  then show ?case using Suc.hyps(1) [of "Suc j"] Suc.hyps(2) j by (subst lookup_at.simps) simp
qed

lemma lookup_node_path:
  assumes "tree_ok sha t" "length h = 20" "d \<le> 26" "\<forall>d' < d. 64 < length (blk d' (tobigint h) (keylist t))"
  shows "lookup_node t d h = Some (d, canon sha d (blk d (tobigint h) (keylist t)))"
    and "lookup_exact t d h = Some (Some (canon sha d (blk d (tobigint h) (keylist t))))"
proof -
  have "root t = canon sha 0 (blk 0 (tobigint h) (keylist t))"
    using assms(1) blk_0 [of "keylist t" "tobigint h"] tobigint_less [OF assms(2)] by (simp add: tree_ok_def)
  then have "lookup_at 0 d h (root t) = Some (d, canon sha d (blk d (tobigint h) (keylist t)))"
    using lookup_at_path [OF assms(2,3,4), of 0 sha] by simp
  then show "lookup_node t d h = Some (d, canon sha d (blk d (tobigint h) (keylist t)))"
    "lookup_exact t d h = Some (Some (canon sha d (blk d (tobigint h) (keylist t))))"
    by (simp_all add: lookup_node_def lookup_exact_def)
qed

text \<open>The node that a tree sends for a prefix.\<close>

definition rpc_of :: "(bytes \<Rightarrow> merkle_hash) \<Rightarrow> nat list \<Rightarrow> nat \<Rightarrow> merkle_hash \<Rightarrow> merkle_rpc_node" where
  "rpc_of sha ks d h =
     (let b = blk d (tobigint h) ks
      in \<lparr>rpc_depth = d, rpc_prefix = h, rpc_isleaf = (length b \<le> 64), rpc_count = length b, rpc_hash = nhash (canon sha d b),
          rpc_child_hash = (if length b \<le> 64 then map to_merkle_hash b
            else map (\<lambda>i. nhash (canon sha (Suc d) (filter (\<lambda>x. slot d x = i) b))) [0..<64])\<rparr>)"

definition is_prefix :: "nat \<Rightarrow> merkle_hash \<Rightarrow> bool" where
  "is_prefix d h \<longleftrightarrow> length h = 20 \<and> tobigint h = base d (tobigint h)"

lemma format_rpcnode_canon:
  assumes "tree_ok sha t" "is_prefix d h" "d \<le> 26"
  shows "format_rpcnode t d h (canon sha d (blk d (tobigint h) (keylist t))) = Some (rpc_of sha (keylist t) d h)"
proof -
  let ?b = "blk d (tobigint h) (keylist t)"
  have ok: "keys_ok (keylist t)" using assms(1) by (simp add: tree_ok_def)
  have g: "database_get_keys (keylist t) d h = map to_merkle_hash ?b"
    using database_get_keys_blk [OF ok, of h d "tobigint h"] assms(2,3) by (simp add: is_prefix_def NUM_SLOTS_def)
  show ?thesis
  proof (cases "length ?b \<le> 64")
    case True
    then show ?thesis by (simp add: format_rpcnode_def canon_leaf g rpc_of_def Let_def)
  next
    case False
    then have "d < 26" using blk_26_length [OF ok, of "tobigint h"] assms(3) by (cases "d = 26") auto
    then show ?thesis using False by (simp add: format_rpcnode_def canon_internal rpc_of_def Let_def comp_def)
  qed
qed

lemma clear_suffix_prefix: "is_prefix d h \<Longrightarrow> d \<le> 26 \<Longrightarrow> clear_suffix h d = Some h"
proof -
  assume h: "is_prefix d h" "d \<le> 26"
  then obtain h' where h': "clear_suffix h d = Some h'" "length h' = 20" "tobigint h' = base d (tobigint h)"
    using length_clear_suffix_base [of h d] by (auto simp: is_prefix_def)
  then have "h' = h" using le_nat_inj [of h' h] h(1) by (simp add: is_prefix_def tobigint_le_nat)
  then show ?thesis using h' by simp
qed

lemma send_node_canon:
  assumes "tree_ok sha t" "is_prefix d h" "d \<le> 26" "\<forall>d' < d. 64 < length (blk d' (tobigint h) (keylist t))"
  shows "sendnode t d h = Some (rpc_of sha (keylist t) d h)" "handle_send_node t d h = Some (rpc_of sha (keylist t) d h)"
  using lookup_node_path [OF assms(1) _ assms(3,4)] format_rpcnode_canon [OF assms(1,2,3)] clear_suffix_prefix [OF assms(2,3)] assms(2)
  by (simp_all add: sendnode_def handle_send_node_def is_prefix_def)

text \<open>The prefix of a child.\<close>

lemma write_slot_child:
  assumes "is_prefix d h" "d < 26" "i < 64"
  shows "\<exists>h'. write_slot h d i = Some h' \<and> is_prefix (Suc d) h' \<and> same_prefix d (tobigint h') (tobigint h) \<and> slot d (tobigint h') = i"
proof -
  have l: "length h = 20" using assms(1) by (simp add: is_prefix_def)
  obtain h' where h': "write_slot h d i = Some h'" "length h' = 20" "same_prefix d (tobigint h') (tobigint h)" "slot d (tobigint h') = i"
    using write_slot_prefix [OF l assms(2,3)] by blast
  have b: "bit (tobigint h') j \<longleftrightarrow>
      (if rest_bits (d + 1) \<le> j \<and> j < rest_bits d then bit i (j - rest_bits (d + 1)) else bit (tobigint h) j)" for j
    using write_slot_bits [OF l assms(2,3)] h'(1) by auto
  have z: "\<not> bit (tobigint h) j" if "j < rest_bits d" for j
    using assms(1) bit_base [of d "tobigint h" j] that by (simp add: is_prefix_def)
  have "rest_bits (Suc d) \<le> rest_bits d" by (simp add: rest_bits_def)
  then have "tobigint h' = base (Suc d) (tobigint h')"
    using z by (intro bit_eqI) (auto simp: bit_base b)
  then show ?thesis using h' by (auto simp: is_prefix_def)
qed

subsection \<open>The pair of trees\<close>

lemma blk_memD: "x \<in> set (blk d k ks) \<Longrightarrow> x \<in> set ks"
  using blk_subset by blast

text \<open>Wherever the remote tree has children, the local one has.\<close>

definition sync_pair :: "(bytes \<Rightarrow> merkle_hash) \<Rightarrow> merkle_tree \<Rightarrow> merkle_tree \<Rightarrow> bool" where
  "sync_pair sha t r \<longleftrightarrow> tree_ok sha t \<and> tree_ok sha r
     \<and> no_collision sha (msgs sha 0 (keylist t) \<union> msgs sha 0 (keylist r)) (keys_of t \<union> keys_of r)
     \<and> (\<forall>d \<le> 26. \<forall>k < 2 ^ 160. 64 < length (blk d k (keylist r)) \<longrightarrow> 64 < length (blk d k (keylist t)))"

definition on_path :: "merkle_tree \<Rightarrow> merkle_tree \<Rightarrow> nat \<Rightarrow> nat \<Rightarrow> bool" where
  "on_path t r d k \<longleftrightarrow> (\<forall>d' < d. 64 < length (blk d' k (keylist t)) \<and> 64 < length (blk d' k (keylist r)))"

lemma on_path_Suc:
  "on_path t r d k \<Longrightarrow> same_prefix d k' k \<Longrightarrow> d \<le> 26 \<Longrightarrow> 64 < length (blk d k (keylist t)) \<Longrightarrow> 64 < length (blk d k (keylist r)) \<Longrightarrow>
     on_path t r (Suc d) k'"
proof -
  assume a: "on_path t r d k" "same_prefix d k' k" "d \<le> 26" "64 < length (blk d k (keylist t))" "64 < length (blk d k (keylist r))"
  have "same_prefix d' k' k" if "d' \<le> d" for d'
    using that a(2,3)
  proof (induction rule: inc_induct)
    case (step n)
    then show ?case using same_prefix_Suc [of n k' k] by simp
  qed simp
  then have "blk d' k' ks = blk d' k ks" if "d' \<le> d" for d' ks
    using that unfolding blk_def by (intro filter_cong) (auto simp: same_prefix_def)
  then show ?thesis using a by (auto simp: on_path_def less_Suc_eq)
qed

lemma msgs_path:
  "\<forall>d' < d. 64 < length (blk d' k ks) \<Longrightarrow> keys_ok ks \<Longrightarrow> k < 2 ^ 160 \<Longrightarrow> d \<le> 26 \<Longrightarrow> msgs sha d (blk d k ks) \<subseteq> msgs sha 0 ks"
proof (induction d)
  case 0
  then show ?case by (simp add: blk_0)
next
  case (Suc d)
  have "msgs sha (d + 1) (filter (\<lambda>x. slot d x = slot d k) (blk d k ks)) \<subseteq> msgs sha d (blk d k ks)"
    using Suc.prems slot_less by (intro msgs_child) auto
  then show ?case using Suc by (auto simp: blk_Suc)
qed

lemma one_block_blk: "keys_ok ks \<Longrightarrow> one_block d (blk d k ks)"
  by (auto simp: one_block_def keys_ok_def blk_def same_prefix_def sorted_wrt_filter)

lemma tobigint_inj: "length a = 20 \<Longrightarrow> length b = 20 \<Longrightarrow> tobigint a = tobigint b \<longleftrightarrow> a = b"
  using le_nat_inj [of a b] by (auto simp: tobigint_le_nat)

lemma hashes_tell_blocks:
  assumes "sync_pair sha t r" "on_path t r d k" "d \<le> 26" "k < 2 ^ 160"
  shows "tobigint (nhash (canon sha d (blk d k (keylist t)))) = tobigint (nhash (canon sha d (blk d k (keylist r))))
    \<longleftrightarrow> blk d k (keylist t) = blk d k (keylist r)"
proof -
  let ?L = "keylist t" and ?R = "keylist r"
  have ok: "keys_ok ?L" "keys_ok ?R" and nc: "no_collision sha (msgs sha 0 ?L \<union> msgs sha 0 ?R) (keys_of t \<union> keys_of r)"
    using assms(1) by (simp_all add: sync_pair_def tree_ok_def)
  have len: "\<forall>m. length (sha m) = 20" using nc by (simp add: no_collision_def)
  have "no_collision sha (msgs sha d (blk d k ?L) \<union> msgs sha d (blk d k ?R)) (set (blk d k ?L) \<union> set (blk d k ?R))"
    using msgs_path [OF _ ok(1) assms(4,3), of sha] msgs_path [OF _ ok(2) assms(4,3), of sha] assms(2) 
    by (intro no_collision_mono [OF nc]) (auto simp: on_path_def keys_of_def dest: blk_memD)
  then have "nhash (canon sha d (blk d k ?L)) = nhash (canon sha d (blk d k ?R)) \<longleftrightarrow> blk d k ?L = blk d k ?R"
    using canon_hash_inj [OF _ one_block_blk [OF ok(1)] one_block_blk [OF ok(2)] assms(3)] by auto
  then show ?thesis using tobigint_inj length_nhash_canon [OF len] by simp
qed

subsection \<open>The traversal\<close>

text \<open>What is left to do with a given stack.\<close>

definition cont :: "merkle_tree \<Rightarrow> merkle_tree \<Rightarrow> nat \<Rightarrow> nat \<Rightarrow> syncer \<Rightarrow> syncer option" where
  "cont t r mn mx s =
     do { (s, req) \<leftarrow> sync_next t mn mx s;
          case req of None \<Rightarrow> Some s | Some (d, p) \<Rightarrow> sync_run t r mn mx d p s }"

definition running :: "syncer \<Rightarrow> bool" where
  "running s \<longleftrightarrow> \<not> sync_done s \<and> \<not> fatal_err s"

lemma running_simps [simp]:
  "running (s\<lparr>missing := m\<rparr>) = running s" "running (s\<lparr>sy_st := st\<rparr>) = running s" "running (s\<lparr>ranges := g\<rparr>) = running s"
  by (simp_all add: running_def)

lemma syncer_commute: "s\<lparr>sy_st := a, missing := m\<rparr> = s\<lparr>missing := m, sy_st := a\<rparr>"
  by (cases s) simp

lemma sync_run_cont:
  assumes "sync_pair sha t r" "is_prefix d h" "d \<le> 26" "on_path t r d (tobigint h)"
  defines "bl \<equiv> blk d (tobigint h) (keylist t)" and "br \<equiv> blk d (tobigint h) (keylist r)"
  shows "sync_run t r mn mx d h s =
    (if length br \<le> 64 then cont t r mn mx (s\<lparr>missing := missing s @ compare_keylists bl br mn mx\<rparr>)
     else cont t r mn mx (s\<lparr>sy_st := (rpc_of sha (keylist r) d h, 0) # sy_st s\<rparr>))"
proof -
  have ok: "tree_ok sha t" "tree_ok sha r" "keys_ok (keylist t)" "keys_ok (keylist r)" using assms(1) by (simp_all add: sync_pair_def tree_ok_def)
  have l: "length h = 20" using assms(2) by (simp add: is_prefix_def)
  have pt: "\<forall>d' < d. 64 < length (blk d' (tobigint h) (keylist t))" and pr: "\<forall>d' < d. 64 < length (blk d' (tobigint h) (keylist r))"
    using assms(4) by (auto simp: on_path_def)
  note sn = send_node_canon(1) [OF ok(1) assms(2,3) pt] send_node_canon(2) [OF ok(2) assms(2,3) pr]
    lookup_node_path(2) [OF ok(1) l assms(3) pt]
  have g: "database_get_IDs (keylist t) d h = bl"
  proof -
    have "database_get_keys (keylist t) d h = map to_merkle_hash bl"
      using database_get_keys_blk [OF ok(3) l, of d "tobigint h"] assms(2,3) by (simp add: is_prefix_def NUM_SLOTS_def bl_def)
    moreover have "map (tobigint \<circ> to_merkle_hash) bl = bl"
      by (rule map_idI) (use ok(3) in \<open>auto simp: bl_def keys_ok_def tobigint_to_merkle_hash dest!: blk_memD\<close>)
    ultimately show ?thesis by (simp add: database_get_IDs_def)
  qed
  show ?thesis
  proof (cases "length br \<le> 64")
    case True
    have "map tobigint (map to_merkle_hash br) = br"
      unfolding map_map by (rule map_idI) (use ok(4) in \<open>auto simp: br_def keys_ok_def tobigint_to_merkle_hash dest!: blk_memD\<close>)
    then show ?thesis
      using True by (subst sync_run.simps)
        (simp add: sn sendnode_cb_def compare_nodes_def rpc_of_def Let_def g cont_def flip: br_def)
  next
    case False
    have d: "d < 26" using False blk_26_length [OF ok(4), of "tobigint h"] assms(3) by (cases "d = 26") (auto simp: br_def)
    have "64 < length bl" using assms(1) False assms(3) tobigint_less [OF l] by (auto simp: sync_pair_def bl_def br_def)
    then have "\<not> isleaf (canon sha d bl)" using d by (simp add: canon_internal Let_def)
    then show ?thesis
      using False by (subst sync_run.simps)
        (simp add: sn sendnode_cb_def compare_nodes_def rpc_of_def Let_def g cont_def flip: br_def bl_def)
  qed
qed

text \<open>One slot of a node on the stack.\<close>

lemma child_hash_canon:
  "64 < length b \<Longrightarrow> d < 26 \<Longrightarrow> j < 64 \<Longrightarrow>
     child_hash (canon sha d b) j = Some (nhash (canon sha (Suc d) (filter (\<lambda>x. slot d x = j) b)))"
  by (simp add: child_hash_def child_def canon_internal Let_def)

lemma cont_slot:
  assumes "sync_pair sha t r" "is_prefix d h" "d < 26" "on_path t r d (tobigint h)" "running s" "j < 64"
    and "64 < length (blk d (tobigint h) (keylist t))" "64 < length (blk d (tobigint h) (keylist r))"
    and "write_slot h d j = Some h'" "is_prefix (Suc d) h'" "on_path t r (Suc d) (tobigint h')"
    and "blk (Suc d) (tobigint h') (keylist t) = filter (\<lambda>x. slot d x = j) (blk d (tobigint h) (keylist t))"
    and "blk (Suc d) (tobigint h') (keylist r) = filter (\<lambda>x. slot d x = j) (blk d (tobigint h) (keylist r))"
  shows "cont t r mn mx (s\<lparr>sy_st := (rpc_of sha (keylist r) d h, j) # st\<rparr>) =
    (if blk (Suc d) (tobigint h') (keylist t) \<noteq> blk (Suc d) (tobigint h') (keylist r)
        \<and> overlap mn mx (tobigint h') (tobigint h' + 2 ^ rest_bits (Suc d) - 1)
     then sync_run t r mn mx (Suc d) h' (s\<lparr>sy_st := (rpc_of sha (keylist r) d h, Suc j) # st\<rparr>)
     else cont t r mn mx (s\<lparr>sy_st := (rpc_of sha (keylist r) d h, Suc j) # st\<rparr>))"
proof -
  let ?k = "tobigint h"
  let ?rn = "rpc_of sha (keylist r) d h" and ?ln = "canon sha d (blk d ?k (keylist t))"
  have ok: "tree_ok sha t" using assms(1) by (simp add: sync_pair_def)
  have l: "length h = 20" "length h' = 20" using assms(2,10) by (simp_all add: is_prefix_def)
  have lk: "lookup_exact t d h = Some (Some ?ln)"
    using lookup_node_path(2) [OF ok l(1), of d] assms(3,4) by (auto simp: on_path_def)
  have rn: "rpc_depth ?rn = d" "rpc_prefix ?rn = h" "\<not> rpc_isleaf ?rn" "length (rpc_child_hash ?rn) = 64"
    "rpc_child_hash ?rn ! j = nhash (canon sha (Suc d) (blk (Suc d) (tobigint h') (keylist r)))"
    using assms(6,8,13) by (simp_all add: rpc_of_def Let_def)
  have ch: "child_hash ?ln j = Some (nhash (canon sha (Suc d) (blk (Suc d) (tobigint h') (keylist t))))"
    using child_hash_canon [OF assms(7,3,6)] assms(12) by simp
  have "tobigint (nhash (canon sha (Suc d) (blk (Suc d) (tobigint h') (keylist r)))) \<noteq> tobigint (nhash (canon sha (Suc d) (blk (Suc d) (tobigint h') (keylist t))))
      \<longleftrightarrow> blk (Suc d) (tobigint h') (keylist t) \<noteq> blk (Suc d) (tobigint h') (keylist r)"
    using hashes_tell_blocks [OF assms(1,11) Suc_leI [OF assms(3)] tobigint_less [OF l(2)]] by auto
  then have scan: "scan_slots mn mx ?rn ?ln j =
      (if blk (Suc d) (tobigint h') (keylist t) \<noteq> blk (Suc d) (tobigint h') (keylist r)
          \<and> overlap mn mx (tobigint h') (tobigint h' + 2 ^ rest_bits (Suc d) - 1)
       then Some (Some (Suc j, h')) else scan_slots mn mx ?rn ?ln (Suc j))"
    using assms(3,6,9) by (subst scan_slots.simps) (simp add: rn ch rest_bits_def Let_def)
  show ?thesis
    using assms(5) by (simp add: cont_def sync_next_def running_def rn lk scan cong: option.case_cong)
qed

lemma cont_slots_done:
  assumes "sync_pair sha t r" "is_prefix d h" "d < 26" "on_path t r d (tobigint h)" "running s"
    and "64 < length (blk d (tobigint h) (keylist r))"
  shows "cont t r mn mx (s\<lparr>sy_st := (rpc_of sha (keylist r) d h, 64) # st\<rparr>) = cont t r mn mx (s\<lparr>sy_st := st\<rparr>)"
proof -
  have ok: "tree_ok sha t" using assms(1) by (simp add: sync_pair_def)
  have l: "length h = 20" using assms(2) by (simp add: is_prefix_def)
  have "lookup_exact t d h = Some (Some (canon sha d (blk d (tobigint h) (keylist t))))"
    using lookup_node_path(2) [OF ok l(1), of d] assms(3,4) by (auto simp: on_path_def)
  then show ?thesis
    using assms(5,6) by (simp add: cont_def sync_next_def running_def rpc_of_def Let_def scan_slots.simps [of _ _ _ _ 64] cong: option.case_cong)
qed

lemma difference_slots:
  "(\<Union>i \<in> {0..<64}. difference mn mx {x \<in> A. slot d x = i} {x \<in> B. slot d x = i}) = difference mn mx A B"
  using slot_less [of d] unfolding difference_def by (auto simp: image_iff)

lemma difference_outside:
  assumes "\<And>k. k \<in> A \<union> B \<Longrightarrow> \<not> in_rng mn mx k"
  shows "difference mn mx A B = {}"
  using assms by (auto simp: difference_def)

lemma child_prefix:
  assumes "sync_pair sha t r" "is_prefix d h" "d < 26" "on_path t r d (tobigint h)" "j < 64"
    and "64 < length (blk d (tobigint h) (keylist t))" "64 < length (blk d (tobigint h) (keylist r))"
  obtains h' where "write_slot h d j = Some h'" "is_prefix (Suc d) h'" "on_path t r (Suc d) (tobigint h')"
    "blk (Suc d) (tobigint h') (keylist t) = filter (\<lambda>x. slot d x = j) (blk d (tobigint h) (keylist t))"
    "blk (Suc d) (tobigint h') (keylist r) = filter (\<lambda>x. slot d x = j) (blk d (tobigint h) (keylist r))"
proof -
  obtain h' where h': "write_slot h d j = Some h'" "is_prefix (Suc d) h'" "same_prefix d (tobigint h') (tobigint h)" "slot d (tobigint h') = j"
    using write_slot_child [OF assms(2,3,5)] by blast
  have "blk d (tobigint h') ks = blk d (tobigint h) ks" for ks
    using h'(3) unfolding blk_def by (intro filter_cong) (auto simp: same_prefix_def)
  then have "blk (Suc d) (tobigint h') ks = filter (\<lambda>x. slot d x = j) (blk d (tobigint h) ks)" for ks
    using blk_Suc [OF assms(3), of "tobigint h'" ks] h'(4) by simp
  then show thesis using that h' on_path_Suc [OF assms(4) h'(3) _ assms(6,7)] assms(3) by simp
qed

lemma block_in_slot_range:
  "is_prefix d h \<Longrightarrow> x \<in> set (blk d (tobigint h) ks) \<Longrightarrow> tobigint h \<le> x \<and> x \<le> tobigint h + 2 ^ rest_bits d - 1"
  using same_prefix_range [of d "tobigint h" x] by (auto simp: blk_def is_prefix_def)

lemma skipped_child:
  assumes "is_prefix (Suc d) h" "d < 26" "\<not> (blk (Suc d) (tobigint h) L \<noteq> blk (Suc d) (tobigint h) R
        \<and> overlap mn mx (tobigint h) (tobigint h + 2 ^ rest_bits (Suc d) - 1))"
  shows "difference mn mx (set (blk (Suc d) (tobigint h) L)) (set (blk (Suc d) (tobigint h) R)) = {}"
proof (cases "blk (Suc d) (tobigint h) L = blk (Suc d) (tobigint h) R")
  case True
  then show ?thesis by (simp add: difference_def)
next
  case False
  have "(2 :: nat) ^ 4 \<le> 2 ^ rest_bits (Suc d)" using assms(2) by (intro power_increasing) (simp_all add: rest_bits_def)
  then have w: "tobigint h < tobigint h + 2 ^ rest_bits (Suc d) - 1" by simp
  show ?thesis
  proof (rule difference_outside)
    fix k
    assume "k \<in> set (blk (Suc d) (tobigint h) L) \<union> set (blk (Suc d) (tobigint h) R)"
    then have "tobigint h \<le> k" "k \<le> tobigint h + 2 ^ rest_bits (Suc d) - 1" using block_in_slot_range [OF assms(1)] by blast+
    then show "\<not> in_rng mn mx k" using overlap_if [OF _ _ w] assms(3) False by blast
  qed
qed

text \<open>The remaining slots of one node, given that its children are handled.\<close>

lemma slots_report:
  assumes "sync_pair sha t r" "is_prefix d h" "d < 26" "on_path t r d (tobigint h)"
    and "64 < length (blk d (tobigint h) (keylist t))" "64 < length (blk d (tobigint h) (keylist r))"
    and IH: "\<And>h' s. is_prefix (Suc d) h' \<Longrightarrow> on_path t r (Suc d) (tobigint h') \<Longrightarrow> running s \<Longrightarrow>
      \<exists>ev. sync_run t r mn mx (Suc d) h' s = cont t r mn mx (s\<lparr>missing := missing s @ ev\<rparr>)
        \<and> set ev = difference mn mx (set (blk (Suc d) (tobigint h') (keylist t))) (set (blk (Suc d) (tobigint h') (keylist r)))"
  shows "j \<le> 64 \<Longrightarrow> running s \<Longrightarrow>
    \<exists>ev. cont t r mn mx (s\<lparr>sy_st := (rpc_of sha (keylist r) d h, j) # st\<rparr>) = cont t r mn mx (s\<lparr>sy_st := st, missing := missing s @ ev\<rparr>)
      \<and> set ev = (\<Union>i \<in> {j..<64}. difference mn mx {x \<in> set (blk d (tobigint h) (keylist t)). slot d x = i}
                                         {x \<in> set (blk d (tobigint h) (keylist r)). slot d x = i})"
proof (induction "64 - j" arbitrary: j s)
  case 0
  then have "j = 64" by simp
  then show ?case using cont_slots_done [OF assms(1-4) 0(3) assms(6)] by (intro exI [of _ "[]"]) simp
next
  case (Suc n)
  then have j: "j < 64" by simp
  obtain h' where h': "write_slot h d j = Some h'" "is_prefix (Suc d) h'" "on_path t r (Suc d) (tobigint h')"
    "blk (Suc d) (tobigint h') (keylist t) = filter (\<lambda>x. slot d x = j) (blk d (tobigint h) (keylist t))"
    "blk (Suc d) (tobigint h') (keylist r) = filter (\<lambda>x. slot d x = j) (blk d (tobigint h) (keylist r))"
    using child_prefix [OF assms(1-4) j assms(5,6)] .
  note step = cont_slot [OF assms(1-4) Suc.prems(2) j assms(5,6) h', of mn mx st]
  let ?D = "\<lambda>i. difference mn mx {x \<in> set (blk d (tobigint h) (keylist t)). slot d x = i} {x \<in> set (blk d (tobigint h) (keylist r)). slot d x = i}"
  have D: "difference mn mx (set (blk (Suc d) (tobigint h') (keylist t))) (set (blk (Suc d) (tobigint h') (keylist r))) = ?D j"
    by (simp add: h'(4,5))
  have "{j..<64} = insert j {Suc j..<64}" using j by auto
  then have U: "(\<Union>i \<in> {j..<64}. ?D i) = ?D j \<union> (\<Union>i \<in> {Suc j..<64}. ?D i)" by simp
  have inner: "\<exists>ev. cont t r mn mx (s'\<lparr>sy_st := (rpc_of sha (keylist r) d h, Suc j) # st\<rparr>) = cont t r mn mx (s'\<lparr>sy_st := st, missing := missing s' @ ev\<rparr>)
      \<and> set ev = (\<Union>i \<in> {Suc j..<64}. ?D i)" if "running s'" for s'
    using Suc.hyps(1) [of "Suc j" s'] Suc.hyps(2) j that by simp
  show ?case
  proof (cases "blk (Suc d) (tobigint h') (keylist t) \<noteq> blk (Suc d) (tobigint h') (keylist r)
        \<and> overlap mn mx (tobigint h') (tobigint h' + 2 ^ rest_bits (Suc d) - 1)")
    case True
    let ?s = "s\<lparr>sy_st := (rpc_of sha (keylist r) d h, Suc j) # st\<rparr>"
    obtain ev1 where e1: "sync_run t r mn mx (Suc d) h' ?s = cont t r mn mx (?s\<lparr>missing := missing ?s @ ev1\<rparr>)" "set ev1 = ?D j"
      using IH [OF h'(2,3), of ?s] Suc.prems(2) D by auto
    obtain ev2 where e2: "cont t r mn mx (s\<lparr>missing := missing s @ ev1, sy_st := (rpc_of sha (keylist r) d h, Suc j) # st\<rparr>)
        = cont t r mn mx (s\<lparr>missing := missing s @ ev1, sy_st := st, missing := (missing s @ ev1) @ ev2\<rparr>)"
      "set ev2 = (\<Union>i \<in> {Suc j..<64}. ?D i)"
      using inner [of "s\<lparr>missing := missing s @ ev1\<rparr>"] Suc.prems(2) by auto
    have "cont t r mn mx (s\<lparr>sy_st := (rpc_of sha (keylist r) d h, j) # st\<rparr>) = cont t r mn mx (s\<lparr>sy_st := st, missing := missing s @ (ev1 @ ev2)\<rparr>)"
      using step True e1(1) e2(1) by (simp add: syncer_commute)
    then show ?thesis using U e1(2) e2(2) by (intro exI [of _ "ev1 @ ev2"]) simp
  next
    case False
    then have "?D j = {}" using skipped_child [OF h'(2) assms(3) False] D by simp
    then have "(\<Union>i \<in> {j..<64}. ?D i) = (\<Union>i \<in> {Suc j..<64}. ?D i)" unfolding U by simp
    moreover have "cont t r mn mx (s\<lparr>sy_st := (rpc_of sha (keylist r) d h, j) # st\<rparr>)
        = cont t r mn mx (s\<lparr>sy_st := (rpc_of sha (keylist r) d h, Suc j) # st\<rparr>)"
      using step unfolding if_not_P [OF False] .
    ultimately show ?thesis using inner [OF Suc.prems(2)] by (simp only:)
  qed
qed

lemma sync_run_reports:
  assumes "sync_pair sha t r"
  shows "is_prefix d h \<Longrightarrow> d \<le> 26 \<Longrightarrow> on_path t r d (tobigint h) \<Longrightarrow> running s \<Longrightarrow>
    \<exists>ev. sync_run t r mn mx d h s = cont t r mn mx (s\<lparr>missing := missing s @ ev\<rparr>)
      \<and> set ev = difference mn mx (set (blk d (tobigint h) (keylist t))) (set (blk d (tobigint h) (keylist r)))"
proof (induction "26 - d" arbitrary: d h s rule: less_induct)
  case less
  let ?bl = "blk d (tobigint h) (keylist t)" and ?br = "blk d (tobigint h) (keylist r)"
  have ok: "keys_ok (keylist t)" "keys_ok (keylist r)" using assms by (simp_all add: sync_pair_def tree_ok_def)
  note run = sync_run_cont [OF assms less.prems(1,2,3), of mn mx s]
  show ?case
  proof (cases "length ?br \<le> 64")
    case True
    have "distinct ?bl" using ok(1) by (simp add: keys_ok_def blk_def)
    then show ?thesis using run True compare_keylists_set [of ?bl ?br mn mx] by auto
  next
    case False
    have d: "d < 26" using False blk_26_length [OF ok(2), of "tobigint h"] less.prems(2) by (cases "d = 26") auto
    have l: "length h = 20" using less.prems(1) by (simp add: is_prefix_def)
    have "64 < length ?bl" using assms False less.prems(2) tobigint_less [OF l] by (auto simp: sync_pair_def)
    then obtain ev where e: "cont t r mn mx (s\<lparr>sy_st := (rpc_of sha (keylist r) d h, 0) # sy_st s\<rparr>)
        = cont t r mn mx (s\<lparr>sy_st := sy_st s, missing := missing s @ ev\<rparr>)"
      "set ev = (\<Union>i \<in> {0..<64}. difference mn mx {x \<in> set ?bl. slot d x = i} {x \<in> set ?br. slot d x = i})"
      using slots_report [OF assms less.prems(1) d less.prems(3), of mn mx 0 s "sy_st s"] less.hyps [of "Suc d"] d False less.prems(4)
      by auto
    then show ?thesis using run False difference_slots by auto
  qed
qed

text \<open>
  C13: synchronisation finds exactly the differences. For two well-formed Merkle trees without a hash collision, and
  such that the local tree has children wherever the remote one has, the exchange of nodes always ends without an
  error, starts no key range transfer, and the reports are exactly the keys of the requested range that one of
  the trees holds and the other does not, each with the side that lacks it.
\<close>

theorem sync_finds_differences:
  assumes "sync_pair sha ltree rtree"
  shows "\<exists>s. sync ltree rtree rngmin rngmax = Some s \<and> sync_done s \<and> \<not> fatal_err s \<and> ranges s = []
    \<and> set (missing s) = difference rngmin rngmax (keys_of ltree) (keys_of rtree)"
proof -
  have ok: "keys_ok (keylist ltree)" "keys_ok (keylist rtree)" using assms by (simp_all add: sync_pair_def tree_ok_def)
  have "le_nat (replicate n 0) = 0" for n by (induction n) simp_all
  then have z: "tobigint zero_hash = 0" by (simp add: tobigint_le_nat zero_hash_def merkle_hash_of_def)
  have p: "is_prefix 0 zero_hash" unfolding is_prefix_def z by (simp add: base_def)
  have s: "on_path ltree rtree 0 (tobigint zero_hash)" "running new_syncer" "missing new_syncer = []"
    by (simp_all add: on_path_def running_def new_syncer_def)
  obtain ev where e: "sync_run ltree rtree rngmin rngmax 0 zero_hash new_syncer
      = cont ltree rtree rngmin rngmax (new_syncer\<lparr>missing := missing new_syncer @ ev\<rparr>)"
    "set ev = difference rngmin rngmax (set (blk 0 (tobigint zero_hash) (keylist ltree))) (set (blk 0 (tobigint zero_hash) (keylist rtree)))"
    using sync_run_reports [OF assms p _ s(1,2), of rngmin rngmax] by blast
  have "cont ltree rtree rngmin rngmax (new_syncer\<lparr>missing := ev\<rparr>) = Some (new_syncer\<lparr>missing := ev, sync_done := True\<rparr>)"
    by (simp add: cont_def sync_next_def new_syncer_def)
  then have "sync ltree rtree rngmin rngmax = Some (new_syncer\<lparr>missing := ev, sync_done := True\<rparr>)"
    using e(1) s(3) by (simp add: sync_def)
  moreover have "set ev = difference rngmin rngmax (keys_of ltree) (keys_of rtree)"
    using e(2) blk_0 [OF ok(1), of 0] blk_0 [OF ok(2), of 0] unfolding z by (simp add: keys_of_def)
  ultimately show ?thesis by (simp add: new_syncer_def)
qed

theorem sync_finds_differences_witness:
  "\<exists>s. sync (sample_tree 5) (sample_tree 6) 0 100 = Some s \<and> sync_done s \<and> \<not> fatal_err s \<and> ranges s = []
    \<and> set (missing s) = difference 0 100 (keys_of (sample_tree 5)) (keys_of (sample_tree 6))"
proof (rule sync_finds_differences)
  have "\<not> 64 < length (blk d k (keylist (sample_tree n)))" for d k n
    by (simp add: blk_def sample_tree_def)
  then show "sync_pair sample_sha (sample_tree 5) (sample_tree 6)"
    using sample_no_collision by (simp add: sync_pair_def sample_tree_ok)
qed

end
