(* ===== verification/Sig_Text.thy ===== *)
theory Sig_Text
  imports Lsh Gossip_Node
begin

text \<open>
  The texts that \<^verbatim>\<open>tools/gpsi.C\<close> writes and reads: \<^verbatim>\<open>tokenize\<close>, the text of a signature
  (\<^verbatim>\<open>sig2str\<close>, \<^verbatim>\<open>string2sig\<close>) and netstrings, with the functions of the C library that
  they use: \<^verbatim>\<open>strtol\<close> on a 64-bit \<^verbatim>\<open>long\<close>, \<^verbatim>\<open>strtod\<close> on decimal numbers (its hexadecimal, infinite
  and NaN forms are left out), the conversion \<^verbatim>\<open>%f\<close> and \<^verbatim>\<open>getline\<close>. The text that a string
  buffer of the library prints for an unsigned integer is the parameter \<open>show_uint\<close>.
\<close>

subsection \<open>The C library\<close>

definition ascii :: "string \<Rightarrow> bytes" where
  "ascii s = map of_char s"

definition is_space :: "byte \<Rightarrow> bool" where
  "is_space c \<longleftrightarrow> c = 32 \<or> 9 \<le> c \<and> c \<le> 13"

definition is_digit :: "byte \<Rightarrow> bool" where
  "is_digit c \<longleftrightarrow> 48 \<le> c \<and> c \<le> 57"

definition dec_val :: "bytes \<Rightarrow> nat" where
  "dec_val s = foldl (\<lambda>v c. 10 * v + (unat c - 48)) 0 s"

text \<open>The sign of a number and the text behind it.\<close>

definition sign_of :: "bytes \<Rightarrow> bool \<times> bytes" where
  "sign_of s =
     (case s of
        c # cs \<Rightarrow> if c = 45 then (True, cs) else if c = 43 then (False, cs) else (False, s)
      | [] \<Rightarrow> (False, []))"

definition strtol :: "bytes \<Rightarrow> int" where
  "strtol s =
     (let (neg, s') = sign_of (dropWhile is_space s);
          v = int (dec_val (takeWhile is_digit s'))
      in if neg then max (- (2 ^ 63)) (- v) else min (2 ^ 63 - 1) v)"

definition exponent_of :: "bytes \<Rightarrow> int" where
  "exponent_of s =
     (case s of
        c # cs \<Rightarrow>
          if c = 101 \<or> c = 69
          then (let (neg, ds) = sign_of cs; e = int (dec_val (takeWhile is_digit ds))
                in if neg then - e else e)
          else 0
      | [] \<Rightarrow> 0)"

definition strtod :: "bytes \<Rightarrow> 'd :: field" where
  "strtod s =
     (let (neg, s') = sign_of (dropWhile is_space s);
          whole = takeWhile is_digit s';
          rest = dropWhile is_digit s';
          (frac, rest') =
            (case rest of
               c # cs \<Rightarrow> if c = 46 then (takeWhile is_digit cs, dropWhile is_digit cs) else ([], rest)
             | [] \<Rightarrow> ([], []));
          v = of_nat (dec_val (whole @ frac)) / 10 ^ length frac;
          e = (if whole @ frac = [] then 0 else exponent_of rest');
          v' = (if 0 \<le> e then v * 10 ^ nat e else v / 10 ^ nat (- e))
      in if neg then - v' else v')"

text \<open>To the nearest integer, ties to even.\<close>

definition round_even :: "'d :: floor_ceiling \<Rightarrow> int" where
  "round_even x =
     (let f = floor x; r = x - of_int f
      in if r < 1 / 2 then f else if 1 / 2 < r then f + 1 else if even f then f else f + 1)"

primrec dec_pad :: "nat \<Rightarrow> nat \<Rightarrow> bytes" where
  "dec_pad 0 n = []"
| "dec_pad (Suc k) n = dec_pad k (n div 10) @ [of_nat (48 + n mod 10)]"

text \<open>The conversion \<^verbatim>\<open>%f\<close>: six decimals.\<close>

definition fmt_f :: "'d :: floor_ceiling \<Rightarrow> bytes" where
  "fmt_f x =
     (let n = nat (round_even (\<bar>x\<bar> * 10 ^ 6))
      in (if x < 0 then [45] else []) @ dec_text (n div 10 ^ 6) @ [46] @ dec_pad 6 (n mod 10 ^ 6))"

text \<open>The lines of a file as \<^verbatim>\<open>getline\<close> returns them, with their newline.\<close>

function getlines :: "bytes \<Rightarrow> bytes list" where
  "getlines s =
     (if s = [] then []
      else (case dropWhile (\<lambda>c. c \<noteq> 10) s of
              [] \<Rightarrow> [s]
            | c # cs \<Rightarrow> (takeWhile (\<lambda>c. c \<noteq> 10) s @ [c]) # getlines cs))"
  by pat_completeness auto
termination
proof (relation "measure length")
  fix s :: bytes and c cs
  assume "dropWhile (\<lambda>c. c \<noteq> 10) s = c # cs"
  then show "(cs, s) \<in> measure length"
    using length_dropWhile_le [of "\<lambda>c. c \<noteq> 10" s] by simp
qed simp

declare getlines.simps [simp del]

subsection \<open>Tokens\<close>

text \<open>A position in the string is the suffix from it, \<^verbatim>\<open>npos\<close> the empty one.\<close>

function tokenize_loop :: "byte list \<Rightarrow> bytes \<Rightarrow> bytes list" where
  "tokenize_loop delimiters s =
     (let lastPos = dropWhile (\<lambda>c. c \<in> set delimiters) s
      in if lastPos = [] then []
         else takeWhile (\<lambda>c. c \<notin> set delimiters) lastPos
                # tokenize_loop delimiters (dropWhile (\<lambda>c. c \<notin> set delimiters) lastPos))"
  by pat_completeness auto
termination
proof (relation "measure (length \<circ> snd)")
  fix d :: "byte list" and s x
  assume x: "x = dropWhile (\<lambda>c. c \<in> set d) s" "x \<noteq> []"
  then have "hd x \<notin> set d" using hd_dropWhile by blast
  then have "length (dropWhile (\<lambda>c. c \<notin> set d) x) < length x"
    using x(2) by (cases x) (simp_all add: le_imp_less_Suc length_dropWhile_le)
  also have "length x \<le> length s" using x(1) by (simp add: length_dropWhile_le)
  finally show "((d, dropWhile (\<lambda>c. c \<notin> set d) x), d, s) \<in> measure (length \<circ> snd)" by simp
qed simp

declare tokenize_loop.simps [simp del]

definition tokenize :: "bytes \<Rightarrow> bytes list \<Rightarrow> byte list \<Rightarrow> bytes list" where
  "tokenize str tokens delimiters = tokens @ tokenize_loop delimiters str"

subsection \<open>Signatures\<close>

definition string2sig :: "bytes \<Rightarrow> polys \<Rightarrow> bool \<times> polys" where
  "string2sig buf sig =
     (if length buf = 0 then (False, sig)
      else (True, sig @ map (\<lambda>t. word_of_int (strtol t)) (tokenize buf [] [45])))"

text \<open>An empty signature leaves the caller's string, null at first, as it was.\<close>

definition sig2str :: "(poly \<Rightarrow> bytes) \<Rightarrow> polys \<Rightarrow> bytes option \<Rightarrow> bool \<times> bytes option" where
  "sig2str show_uint sig buf =
     (if length sig \<le> 0 then (False, buf)
      else (True, Some (concat (map (\<lambda>p. show_uint p @ [45]) sig))))"

subsection \<open>Netstrings\<close>

text \<open>The value that \<^verbatim>\<open>fscanf\<close> reads with \<^verbatim>\<open>%d\<close> and the rest of the stream.\<close>

definition scan_int :: "bytes \<Rightarrow> (int \<times> bytes) option" where
  "scan_int f =
     (let (neg, s) = sign_of (dropWhile is_space f); ds = takeWhile is_digit s
      in if ds = [] then None
         else Some (if neg then - int (dec_val ds) else int (dec_val ds), dropWhile is_digit s))"

datatype 'a read = Undefined | Null | Buf 'a bytes

text \<open>\<open>Null\<close> is the null pointer, \<open>Buf\<close> the bytes read and the rest of the stream. A length
  that does not fit an \<^verbatim>\<open>int\<close> or is negative overruns the allocated buffer.\<close>

definition netstring_decode :: "bytes \<Rightarrow> bytes read" where
  "netstring_decode f =
     (case scan_int f of
        None \<Rightarrow> Null
      | Some (len, f) \<Rightarrow>
          if len \<ge> 2 ^ 31 - 1 then Undefined
          else (case f of
            [] \<Rightarrow> Null
          | c # f \<Rightarrow>
              if c \<noteq> 58 then Null
              else if len < 0 then Undefined
              else if length f < nat len then Null
              else (case drop (nat len) f of
                      c # f' \<Rightarrow> if c \<noteq> 44 then Null else Buf (take (nat len) f) f'
                    | [] \<Rightarrow> Null)))"

definition netstring_encode :: "bytes \<Rightarrow> bytes \<Rightarrow> bytes" where
  "netstring_encode buf f =
     (let s = getString buf in f @ dec_text (length s) @ [58] @ s @ [44])"

subsection \<open>Decimal text is read back\<close>

lemma dec_text_ne [simp]: "dec_text n \<noteq> []"
  by (simp add: dec_text.simps [of n])

lemma digit_char [simp]: "d < 10 \<Longrightarrow> is_digit (of_nat (48 + d)) \<and> unat (of_nat (48 + d) :: byte) = 48 + d"
  by (simp add: is_digit_def word_le_nat_alt unat_of_nat del: of_nat_add)

lemma dec_text_digits: "c \<in> set (dec_text n) \<Longrightarrow> is_digit c"
proof (induction n rule: dec_text.induct)
  case (1 n)
  then show ?case using digit_char [of n] digit_char [of "n mod 10"]
    by (auto simp: dec_text.simps [of n] simp del: digit_char of_nat_add split: if_splits)
qed

lemma dec_val_append: "dec_val (s @ [c]) = 10 * dec_val s + (unat c - 48)"
  by (simp add: dec_val_def)

lemma dec_val_text: "dec_val (dec_text n) = n"
proof (induction n rule: dec_text.induct)
  case (1 n)
  show ?case
  proof (cases "n < 10")
    case True
    then show ?thesis using digit_char [of n]
      by (simp add: dec_text.simps [of n] dec_val_def del: digit_char of_nat_add)
  next
    case False
    then show ?thesis using 1 digit_char [of "n mod 10"]
      by (simp add: dec_text.simps [of n] dec_val_append del: digit_char of_nat_add)
  qed
qed

lemma while_sep:
  assumes "\<forall>c \<in> set l. P c" "\<not> P x"
  shows "takeWhile P (l @ x # r) = l" "dropWhile P (l @ x # r) = x # r"
  using assms by (induction l) auto

lemma is_digit_sep:
  "\<not> is_digit 45" "\<not> is_digit 58" "\<not> is_digit 10" "\<not> is_digit 46" "\<not> is_digit 44" "\<not> is_digit 43"
  by (simp_all add: is_digit_def word_le_nat_alt)

lemma is_digit_not_space: "is_digit c \<Longrightarrow> \<not> is_space c"
  by (auto simp: is_digit_def is_space_def word_le_nat_alt)

text \<open>A text that starts with a digit has no space and no sign to skip.\<close>

lemma sign_of_digits:
  assumes "s \<noteq> []" "\<And>c. c \<in> set s \<Longrightarrow> is_digit c"
  shows "sign_of (dropWhile is_space (s @ r)) = (False, s @ r)"
proof -
  obtain c cs where s: "s = c # cs" using assms(1) by (cases s) simp_all
  then have "is_digit c" using assms(2) by simp
  moreover have "c \<noteq> 45" "c \<noteq> 43" using calculation is_digit_sep by auto
  ultimately show ?thesis by (simp add: s is_digit_not_space sign_of_def)
qed

definition no_digit_first :: "bytes \<Rightarrow> bool" where
  "no_digit_first r \<longleftrightarrow> (case r of [] \<Rightarrow> True | c # _ \<Rightarrow> \<not> is_digit c)"

lemma take_digits:
  assumes "\<And>c. c \<in> set s \<Longrightarrow> is_digit c" "no_digit_first r"
  shows "takeWhile is_digit (s @ r) = s" "dropWhile is_digit (s @ r) = r"
  using assms by (cases r; simp add: no_digit_first_def)+

lemma strtol_dec_text:
  assumes "n < 2 ^ 63" "no_digit_first r"
  shows "strtol (dec_text n @ r) = int n"
  using assms sign_of_digits [of "dec_text n" r] take_digits [of "dec_text n" r]
  by (simp add: strtol_def dec_text_digits dec_val_text)

lemma scan_int_dec_text:
  "no_digit_first r \<Longrightarrow> scan_int (dec_text n @ r) = Some (int n, r)"
  using sign_of_digits [of "dec_text n" r] take_digits [of "dec_text n" r]
  by (simp add: scan_int_def dec_text_digits dec_val_text)

subsection \<open>Tokens of separated text\<close>

lemma tokenize_loop_Nil [simp]: "tokenize_loop d [] = []"
  by (simp add: tokenize_loop.simps)

lemma tokenize_loop_token:
  assumes "t \<noteq> []" "set t \<inter> set d = {}" "r = [] \<or> hd r \<in> set d"
  shows "tokenize_loop d (t @ r) = t # tokenize_loop d r"
proof -
  have "\<forall>c \<in> set t. c \<notin> set d" using assms(2) by auto
  moreover have "takeWhile (\<lambda>c. c \<notin> set d) r = []" "dropWhile (\<lambda>c. c \<notin> set d) r = r"
    using assms(3) by (cases r; simp)+
  ultimately have "takeWhile (\<lambda>c. c \<notin> set d) (t @ r) = t" "dropWhile (\<lambda>c. c \<notin> set d) (t @ r) = r"
    by (simp_all add: takeWhile_append2 dropWhile_append2)
  moreover have "dropWhile (\<lambda>c. c \<in> set d) (t @ r) = t @ r"
    using assms(1,2) by (cases t) auto
  ultimately show ?thesis using assms(1) by (simp add: tokenize_loop.simps [of d "t @ r"])
qed

lemma tokenize_loop_sep [simp]: "c \<in> set d \<Longrightarrow> tokenize_loop d (c # r) = tokenize_loop d r"
  by (simp add: tokenize_loop.simps [of d "c # r"] tokenize_loop.simps [of d r])

lemma tokenize_loop_Cons:
  assumes "t \<noteq> []" "set t \<inter> set d = {}" "c \<in> set d"
  shows "tokenize_loop d (t @ c # r) = t # tokenize_loop d r"
  using tokenize_loop_token [of t d "c # r"] assms by simp

lemma tokenize_loop_last:
  "t \<noteq> [] \<Longrightarrow> set t \<inter> set d = {} \<Longrightarrow> tokenize_loop d t = [t]"
  using tokenize_loop_token [of t d "[]"] by simp

lemma tokenize_loop_concat:
  "\<forall>t \<in> set ts. t \<noteq> [] \<and> set t \<inter> set d = {} \<Longrightarrow> c \<in> set d
   \<Longrightarrow> tokenize_loop d (concat (map (\<lambda>t. t @ [c]) ts)) = ts"
  by (induction ts) (simp_all add: tokenize_loop_Cons)

subsection \<open>The text of a signature is read back\<close>

text \<open>The string buffer prints an unsigned integer in decimal.\<close>

definition prints_decimal :: "(poly \<Rightarrow> bytes) \<Rightarrow> bool" where
  "prints_decimal show_uint \<longleftrightarrow> (\<forall>p. show_uint p = dec_text (unat p))"

definition sig_text :: "polys \<Rightarrow> bytes" where
  "sig_text sig = concat (map (\<lambda>p. dec_text (unat p) @ [45]) sig)"

lemma sig2str_text:
  "prints_decimal show_uint \<Longrightarrow> sig \<noteq> [] \<Longrightarrow> sig2str show_uint sig buf = (True, Some (sig_text sig))"
  by (simp add: sig2str_def prints_decimal_def sig_text_def)

lemma sig_text_chars: "c \<in> set (sig_text sig) \<Longrightarrow> is_digit c \<or> c = 45"
  by (auto simp: sig_text_def dest: dec_text_digits split: if_splits)

lemma sig_text_ne [simp]: "sig \<noteq> [] \<Longrightarrow> sig_text sig \<noteq> []"
  by (cases sig) (simp_all add: sig_text_def)

lemma tokenize_sig_text: "tokenize (sig_text sig) [] [45] = map (\<lambda>p. dec_text (unat p)) sig"
proof -
  let ?ts = "map (\<lambda>p. dec_text (unat p)) sig"
  have "\<forall>t \<in> set ?ts. t \<noteq> [] \<and> set t \<inter> set [45] = {}"
    using dec_text_digits is_digit_sep(1) by auto
  from tokenize_loop_concat [OF this, of 45] show ?thesis
    by (simp add: tokenize_def sig_text_def comp_def)
qed

lemma strtol_poly: "word_of_int (strtol (dec_text (unat (p :: poly)))) = p"
proof -
  have "unat p < 2 ^ 63" using unsigned_less [of p, where 'a = nat] by simp
  from strtol_dec_text [OF this, of "[]"] show ?thesis by (simp add: no_digit_first_def)
qed

lemma string2sig_text: "s \<noteq> [] \<Longrightarrow> string2sig (sig_text s) sig = (True, sig @ s)"
  by (simp add: string2sig_def tokenize_sig_text comp_def strtol_poly)

text \<open>
  \<^verbatim>\<open>string2sig\<close> reads back what \<^verbatim>\<open>sig2str\<close> printed, for every signature with an element; an
  empty one is refused and leaves the caller's string.
\<close>

theorem string2sig_sig2str:
  assumes "prints_decimal show_uint" "s \<noteq> []"
  shows "\<exists>t. sig2str show_uint s buf = (True, Some t) \<and> string2sig t [] = (True, s)"
    and "sig2str show_uint [] buf = (False, buf)"
  using assms by (auto simp: sig2str_text string2sig_text) (simp add: sig2str_def)

text \<open>
  A netstring appended to a stream is read back, up to the first zero byte of the string, and
  what follows it stays in the stream.
\<close>

theorem netstring_roundtrip:
  assumes "length s < 2 ^ 31 - 1" "0 \<notin> set s"
  shows "netstring_decode (netstring_encode s [] @ r) = Buf s r"
proof -
  have "getString s = s" using assms(2) by (auto simp: getString_def takeWhile_eq_all_conv)
  moreover have "no_digit_first (58 # s @ 44 # r)" by (simp add: no_digit_first_def is_digit_sep)
  moreover have "\<not> int (length s) \<ge> 2 ^ 31 - 1" using assms(1) by simp
  ultimately show ?thesis
    by (simp add: netstring_encode_def netstring_decode_def scan_int_dec_text)
qed

subsection \<open>Six decimals\<close>

text \<open>The number that the conversion \<^verbatim>\<open>%f\<close> prints.\<close>

definition round6 :: "'d :: floor_ceiling \<Rightarrow> 'd" where
  "round6 x = (let v = of_int (round_even (\<bar>x\<bar> * 10 ^ 6)) / 10 ^ 6 in if x < 0 then - v else v)"

lemma round_even_of_int [simp]: "round_even (of_int n) = n"
  by (simp add: round_even_def)

lemma round_even_near: "\<bar>of_int (round_even x) - x\<bar> \<le> 1 / 2"
proof -
  have "of_int (floor x) \<le> x" "x < of_int (floor x) + 1" by linarith+
  moreover from this have "x \<le> of_int \<lfloor>x\<rfloor> \<Longrightarrow> of_int \<lfloor>x\<rfloor> = x" by simp
  ultimately show ?thesis unfolding round_even_def Let_def
    by (cases "of_int \<lfloor>x\<rfloor> = x") (auto simp: abs_if field_simps not_less)
qed

lemma round_even_nonneg: "0 \<le> x \<Longrightarrow> 0 \<le> round_even x"
  by (auto simp: round_even_def Let_def)

lemma round6_near: "\<bar>round6 x - x\<bar> \<le> 1 / (2 * 10 ^ 6)"
proof -
  have "\<bar>of_int (round_even (\<bar>x\<bar> * 10 ^ 6)) - \<bar>x\<bar> * 10 ^ 6\<bar> \<le> 1 / 2" by (rule round_even_near)
  then have "\<bar>of_int (round_even (\<bar>x\<bar> * 10 ^ 6)) / 10 ^ 6 - \<bar>x\<bar>\<bar> \<le> 1 / (2 * 10 ^ 6)"
    by (simp add: abs_if field_simps split: if_splits)
  then show ?thesis by (auto simp: round6_def Let_def abs_if split: if_splits)
qed

lemma round6_of_int [simp]: "round6 (of_int n) = of_int n"
proof -
  have "\<bar>of_int n\<bar> * 10 ^ 6 = (of_int (\<bar>n\<bar> * 10 ^ 6) :: 'a)" by simp
  then have "round_even (\<bar>of_int n\<bar> * 10 ^ 6 :: 'a) = \<bar>n\<bar> * 10 ^ 6" using round_even_of_int by metis
  then show ?thesis by (simp add: round6_def Let_def)
qed

lemma dec_pad_digits: "length (dec_pad k n) = k \<and> (\<forall>c \<in> set (dec_pad k n). is_digit c)"
proof (induction k arbitrary: n)
  case (Suc k)
  then show ?case using digit_char [of "n mod 10"] by (simp del: digit_char of_nat_add)
qed simp

lemma dec_val_pad: "dec_val (s @ dec_pad k n) = dec_val s * 10 ^ k + n mod 10 ^ k"
proof (induction k arbitrary: n)
  case (Suc k)
  have "dec_val (s @ dec_pad (Suc k) n) = 10 * (dec_val s * 10 ^ k + n div 10 mod 10 ^ k) + n mod 10"
    using Suc [of "n div 10"] dec_val_append [of "s @ dec_pad k (n div 10)"] digit_char [of "n mod 10"]
    by (simp del: digit_char of_nat_add)
  also have "\<dots> = dec_val s * 10 ^ Suc k + n mod 10 ^ Suc k"
    by (simp add: mod_mult2_eq algebra_simps)
  finally show ?case .
qed simp

lemma strtod_fmt_f:
  fixes x :: "'d :: floor_ceiling"
  assumes "r = [] \<or> hd r = 10"
  shows "strtod (fmt_f x @ r) = round6 x"
proof -
  define n where "n = nat (round_even (\<bar>x\<bar> * 10 ^ 6))"
  define w f where wf: "w = dec_text (n div 10 ^ 6)" "f = dec_pad 6 (n mod 10 ^ 6)"
  have txt0: "fmt_f x @ r = (if x < 0 then [45] else []) @ w @ 46 # f @ r"
    by (simp add: fmt_f_def n_def wf Let_def)
  have wd: "w \<noteq> []" "\<And>c. c \<in> set w \<Longrightarrow> is_digit c" by (simp_all add: wf dec_text_digits)
  have w: "takeWhile is_digit (w @ 46 # f @ r) = w" "dropWhile is_digit (w @ 46 # f @ r) = 46 # f @ r"
    using take_digits [of w "46 # f @ r"] wd by (simp_all add: no_digit_first_def is_digit_sep)
  have "no_digit_first r" using assms by (cases r) (auto simp: no_digit_first_def is_digit_sep)
  then have f: "takeWhile is_digit (f @ r) = f" "dropWhile is_digit (f @ r) = r"
    using take_digits [of f r] dec_pad_digits [of 6] unfolding wf by blast+
  have s: "sign_of (dropWhile is_space (fmt_f x @ r)) = (x < 0, w @ 46 # f @ r)"
    using sign_of_digits [of w "46 # f @ r"] wd
    by (simp add: txt0) (simp add: is_space_def sign_of_def word_le_nat_alt)
  have "exponent_of r = 0" using assms by (cases r) (auto simp: exponent_of_def)
  moreover have "dec_val (w @ f) = n" by (simp add: wf dec_val_pad dec_val_text)
  moreover have "length f = 6" using dec_pad_digits unfolding wf by blast
  moreover have "of_nat n = (of_int (round_even (\<bar>x\<bar> * 10 ^ 6)) :: 'd)"
    using round_even_nonneg [of "\<bar>x\<bar> * 10 ^ 6"] by (simp add: n_def)
  ultimately show ?thesis
    unfolding strtod_def s by (simp add: w f wd round6_def)
qed

end
