(* ===== verification/State_Log.thy ===== *)
theory State_Log
  imports Sig_Text Init_Merge
begin

text \<open>
  The log of a peer's lists after the init phase: \<^verbatim>\<open>loginitstate\<close> and \<^verbatim>\<open>loadinitstate\<close> of
  \<^verbatim>\<open>tools/gpsi.C\<close>. The log is the text of the file. A file that is loaded adds its lists behind
  those in memory, which is how the merge of several peers' logs starts.
\<close>

subsection \<open>Writing\<close>

text \<open>One line per signature; the string \<^verbatim>\<open>sigbuf\<close> is kept from one signature to the next.\<close>

fun log_entries :: "(poly \<Rightarrow> bytes) \<Rightarrow> bytes option \<Rightarrow> 'd :: floor_ceiling sigmap
    \<Rightarrow> (bytes option \<times> bytes) option" where
  "log_entries show_uint sigbuf [] = Some (sigbuf, [])"
| "log_entries show_uint sigbuf ((s, freq, weight) # m) =
     (case snd (sig2str show_uint (polys s) sigbuf) of
        None \<Rightarrow> None
      | Some t \<Rightarrow>
          do { (sigbuf, out) \<leftarrow> log_entries show_uint (Some t) m;
               Some (sigbuf, (t @ [58] @ fmt_f freq @ [58] @ fmt_f weight @ [10]) @ out) })"

definition index_line :: "nat \<Rightarrow> nat \<Rightarrow> bytes \<Rightarrow> bytes" where
  "index_line i lsize teamID =
     ascii ''index:'' @ dec_text i @ ascii '':listsize:'' @ dec_text lsize @ ascii '':teamID:'' @ teamID @ [10]"

text \<open>The lists from number \<open>i\<close> on; a list without a team is left out.\<close>

fun log_teams :: "(poly \<Rightarrow> bytes) \<Rightarrow> (chordID \<Rightarrow> bytes) \<Rightarrow> (chordID, nat list) omap \<Rightarrow> bytes option \<Rightarrow> nat
    \<Rightarrow> 'd :: floor_ceiling vecomap list \<Rightarrow> bytes option" where
  "log_teams show_uint show_id index sigbuf i [] = Some []"
| "log_teams show_uint show_id index sigbuf i (ts # tT) =
     (let ID = findteamid index i
      in if ID = 0 then log_teams show_uint show_id index sigbuf (i + 1) tT
         else (case ts of
                 [] \<Rightarrow> None
               | t # _ \<Rightarrow>
                   do { (sigbuf, out) \<leftarrow> log_entries show_uint sigbuf t;
                        rest \<leftarrow> log_teams show_uint show_id index sigbuf (i + 1) tT;
                        Some (index_line i (length t) (show_id ID) @ out @ rest) }))"

definition loginitstate :: "(poly \<Rightarrow> bytes) \<Rightarrow> (chordID \<Rightarrow> bytes) \<Rightarrow> ('d :: floor_ceiling, 'z) node_scheme
    \<Rightarrow> bytes option" where
  "loginitstate show_uint show_id st = log_teams show_uint show_id (teamindex st) None 0 (totalT st)"

subsection \<open>Reading\<close>

text \<open>\<^verbatim>\<open>teamindex[k].push_back(i)\<close>\<close>

definition push_index :: "chordID \<Rightarrow> nat \<Rightarrow> (chordID, nat list) omap \<Rightarrow> (chordID, nat list) omap" where
  "push_index k i index =
     omap_put k ((case omap_find index k of None \<Rightarrow> [] | Some ixs \<Rightarrow> ixs) @ [i]) index"

text \<open>The variables of the loop: the peer, the list of the team being read, its identifier and
  the number of index lines so far. \<open>None\<close> is a missing field, or a negative list number, which
  would be an index out of range at its first use.\<close>

type_synonym ('d, 'z) load_state = "('d, 'z) node_scheme \<times> 'd sigmap \<times> chordID \<times> nat"

definition load_line :: "nat \<Rightarrow> bytes \<Rightarrow> ('d :: field, 'z) load_state \<Rightarrow> ('d, 'z) load_state option" where
  "load_line tsize line ls =
     (case ls of (st, sigList, teamID, n) \<Rightarrow>
      let tokens = tokenize (getString line) [] [58]
      in if tokens = [] then None
         else if tokens ! 0 = ascii ''index'' then
           if length tokens < 2 then None
           else let tind = strtol (tokens ! 1);
                    teamID = snd (str2chordID (butlast (last tokens)) teamID);
                    st = st\<lparr>teamindex := push_index teamID (tsize + nat tind) (teamindex st)\<rparr>
                in if tind < 0 \<or> tind \<ge> 2 ^ 31 then None
                   else if n \<noteq> 0
                   then Some (st\<lparr>totalT := totalT st @ [[sigList]]\<rparr>, [], teamID, n + 1)
                   else Some (st, sigList, teamID, n + 1)
         else if length tokens < 3 then None
         else let sig = snd (string2sig (tokens ! 0) []);
                  freq = strtod (tokens ! 1);
                  weight = strtod (tokens ! 2)
              in Some (st, omap_push (Sig sig) (freq, weight) sigList, teamID, n))"

fun load_lines :: "nat \<Rightarrow> bytes list \<Rightarrow> ('d :: field, 'z) load_state \<Rightarrow> ('d, 'z) load_state option" where
  "load_lines tsize [] ls = Some ls"
| "load_lines tsize (l # lines) ls = do { ls \<leftarrow> load_line tsize l ls; load_lines tsize lines ls }"

definition loadinitstate :: "bytes \<Rightarrow> ('d :: field, 'z) node_scheme \<Rightarrow> (('d, 'z) node_scheme \<times> nat) option" where
  "loadinitstate initfp st =
     do { (st, sigList, teamID, n) \<leftarrow>
            load_lines (length (totalT st)) (getlines initfp) (st, [], 0, 0);
          Some (if n \<noteq> 0 then st\<lparr>totalT := totalT st @ [[sigList]]\<rparr> else st, n) }"

text \<open>The files of a directory, one after the other; one that cannot be opened is skipped. The
  lists read and the files without one are counted.\<close>

fun load_files :: "bytes option list \<Rightarrow> ('d :: field, 'z) node_scheme \<Rightarrow> nat \<Rightarrow> nat
    \<Rightarrow> (('d, 'z) node_scheme \<times> nat \<times> nat) option" where
  "load_files [] st totallists zerofiles = Some (st, totallists, zerofiles)"
| "load_files (None # fs) st totallists zerofiles = load_files fs st totallists zerofiles"
| "load_files (Some initfp # fs) st totallists zerofiles =
     do { (st, nlists) \<leftarrow> loadinitstate initfp st;
          load_files fs st (totallists + nlists) (if nlists = 0 then zerofiles + 1 else zerofiles) }"

text \<open>The action that merges init files.\<close>

definition merge_init_files :: "bytes option list \<Rightarrow> ('d :: field, 'z) node_scheme \<Rightarrow> ('d, 'z) node_scheme option" where
  "merge_init_files initfiles st =
     do { (st, totallists, zerofiles) \<leftarrow> load_files initfiles st 0 0;
          mergeinit (st\<lparr>allT := []\<rparr>) }"

subsection \<open>Lines\<close>

lemma getlines_line:
  assumes "10 \<notin> set l"
  shows "getlines (l @ 10 # r) = (l @ [10]) # getlines r"
proof -
  have "\<forall>c \<in> set l. c \<noteq> 10" using assms by auto
  then show ?thesis by (simp add: getlines.simps [of "l @ 10 # r"] while_sep)
qed

lemma getlines_Nil [simp]: "getlines [] = []"
  by (simp add: getlines.simps)

lemma getlines_concat:
  "\<forall>l \<in> set ls. 10 \<notin> set l \<Longrightarrow> getlines (concat (map (\<lambda>l. l @ [10]) ls) @ r) = map (\<lambda>l. l @ [10]) ls @ getlines r"
  by (induction ls) (simp_all add: getlines_line)

lemma load_lines_append:
  "load_lines tsize (xs @ ys) ls = Option.bind (load_lines tsize xs ls) (load_lines tsize ys)"
  by (induction xs arbitrary: ls) (auto split: bind_splits)

text \<open>The characters that the fields of a line are made of.\<close>

definition plain :: "bytes \<Rightarrow> bool" where
  "plain s \<longleftrightarrow> s \<noteq> [] \<and> (\<forall>c \<in> set s. c \<noteq> 0 \<and> c \<noteq> 10 \<and> c \<noteq> 58)"

lemma plain_tokens:
  assumes "\<forall>t \<in> set ts. plain t" "plain t"
  shows "tokenize (getString (concat (map (\<lambda>t. t @ [58]) ts) @ t @ [10])) [] [58] = ts @ [t @ [10]]"
proof -
  have "\<forall>c \<in> set (concat (map (\<lambda>t. t @ [58]) ts) @ t @ [10]). c \<noteq> 0"
    using assms by (auto simp: plain_def split: if_splits)
  then have "getString (concat (map (\<lambda>t. t @ [58]) ts) @ t @ [10]) = concat (map (\<lambda>t. t @ [58]) ts) @ t @ [10]"
    by (simp only: getString_def takeWhile_eq_all_conv)
  moreover have "tokenize_loop [58] (concat (map (\<lambda>t. t @ [58]) ts) @ t @ [10]) = ts @ [t @ [10]]"
    using assms(1)
  proof (induction ts)
    case Nil
    show ?case using assms(2) tokenize_loop_last [of "t @ [10]" "[58]"] by (auto simp: plain_def)
  next
    case (Cons a ts)
    then show ?case using tokenize_loop_Cons [of a "[58]" 58] by (auto simp: plain_def)
  qed
  ultimately show ?thesis by (simp add: tokenize_def)
qed

lemma digits_plain: "s \<noteq> [] \<Longrightarrow> \<forall>c \<in> set s. is_digit c \<or> c = 45 \<or> c = 46 \<Longrightarrow> plain s"
  by (auto simp: plain_def is_digit_def word_le_nat_alt)

lemma plain_dec_text: "plain (dec_text n)"
  by (rule digits_plain) (auto dest: dec_text_digits)

lemma plain_sig_text: "sig \<noteq> [] \<Longrightarrow> plain (sig_text sig)"
  by (rule digits_plain) (auto dest: sig_text_chars)

lemma plain_fmt_f: "plain (fmt_f x)"
  by (rule digits_plain) (auto simp: fmt_f_def Let_def dest: dec_text_digits bspec [OF conjunct2 [OF dec_pad_digits]])

lemma hex_char_plain: "d < 16 \<Longrightarrow> hex_char d \<noteq> 0 \<and> hex_char d \<noteq> 10 \<and> hex_char d \<noteq> 58"
  using hex_digit_char [of d] by (auto simp: hex_digit_def word_le_nat_alt)

lemma plain_hex_text: "plain (hex_text n)"
proof (induction n rule: hex_text.induct)
  case (1 n)
  show ?case
    using 1 hex_char_plain [of n] hex_char_plain [of "n mod 16"]
    by (auto simp: plain_def hex_text.simps [of n])
qed

subsection \<open>What is logged is loaded\<close>

text \<open>The string buffer prints an identifier in hexadecimal.\<close>

definition prints_hex :: "(chordID \<Rightarrow> bytes) \<Rightarrow> bool" where
  "prints_hex show_id \<longleftrightarrow> (\<forall>a. is_id a \<longrightarrow> show_id a = hex_text (nat a))"

definition entry_line :: "sig \<times> 'd :: floor_ceiling \<times> 'd \<Rightarrow> bytes" where
  "entry_line e = (case e of (s, f, w) \<Rightarrow> sig_text (polys s) @ [58] @ fmt_f f @ [58] @ fmt_f w)"

text \<open>A list with its numbers rounded to the six decimals that are printed.\<close>

definition round_list :: "'d :: floor_ceiling sigmap \<Rightarrow> 'd sigmap" where
  "round_list m = map (\<lambda>(s, f, w). (s, round6 f, round6 w)) m"

definition loggable :: "'d sigmap \<Rightarrow> bool" where
  "loggable t \<longleftrightarrow> omap_wf t \<and> (\<forall>(s, _) \<in> set t. polys s \<noteq> [])"

lemma log_entries_lines:
  assumes "prints_decimal show_uint" "\<forall>(s, _) \<in> set m. polys s \<noteq> []"
  shows "\<exists>b. log_entries show_uint sigbuf m = Some (b, concat (map (\<lambda>l. l @ [10]) (map entry_line m)))"
  using assms(2)
proof (induction m arbitrary: sigbuf)
  case (Cons e m)
  obtain s f w where e: "e = (s, f, w)" by (cases e)
  obtain b where "log_entries show_uint (Some (sig_text (polys s))) m
      = Some (b, concat (map (\<lambda>l. l @ [10]) (map entry_line m)))"
    using Cons by auto
  then show ?case using Cons.prems sig2str_text [OF assms(1), of "polys s" sigbuf]
    by (simp add: e entry_line_def [of "(s, f, w)"])
qed simp

lemma sig_text_not_index: "s \<noteq> [] \<Longrightarrow> sig_text s \<noteq> ascii ''index''"
proof
  assume "s \<noteq> []" "sig_text s = ascii ''index''"
  then have "105 \<in> set (sig_text s)" by (simp add: ascii_def of_char_def)
  from sig_text_chars [OF this] show False by (simp add: is_digit_def word_le_nat_alt)
qed

lemma load_entry_line:
  assumes "polys s \<noteq> []"
  shows "load_line tsize (entry_line (s, f, w) @ [10]) (st, u, k, n)
       = Some (st, omap_push s (round6 f, round6 w) u, k, n)"
proof -
  have "tokenize (getString (entry_line (s, f, w) @ [10])) [] [58]
      = [sig_text (polys s), fmt_f f, fmt_f w @ [10]]"
    using plain_tokens [of "[sig_text (polys s), fmt_f f]" "fmt_f w"] assms
    by (simp add: entry_line_def plain_sig_text plain_fmt_f)
  then show ?thesis
    using assms strtod_fmt_f [of "[]" f] strtod_fmt_f [of "[10]" w]
    by (simp add: load_line_def sig_text_not_index string2sig_text)
qed

lemma load_entry_lines:
  assumes "\<forall>(s, _) \<in> set m. polys s \<noteq> []"
  shows "load_lines tsize (map (\<lambda>l. l @ [10]) (map entry_line m)) (st, u, k, n)
       = Some (st, fold (\<lambda>(s, fw). omap_push s fw) (round_list m) u, k, n)"
  using assms
proof (induction m arbitrary: u)
  case (Cons e m)
  obtain s f w where "e = (s, f, w)" by (cases e)
  then show ?case using Cons by (simp add: load_entry_line round_list_def)
qed (simp add: round_list_def)

lemma fold_push_round_list:
  assumes "omap_wf t"
  shows "fold (\<lambda>(s, fw). omap_push s fw) (round_list t) [] = round_list t"
proof -
  have "map fst (round_list t) = map fst t" by (simp add: round_list_def comp_def split_def)
  then show ?thesis
    using sm.entries_unique [OF sm.wf_push_all [OF sm.wf_empty], of "round_list t" "round_list t"] assms
    by (simp add: sm.find_push_all sm.wf_empty sm.find_empty omap_wf_def)
qed

lemma plain_words: "plain (ascii ''index'')" "plain (ascii ''listsize'')" "plain (ascii ''teamID'')"
  by (simp_all add: plain_def ascii_def of_char_def)

lemma load_index_line:
  assumes "i < 2 ^ 31" "is_id k"
  shows "load_line tsize (index_line i z (hex_text (nat k))) (st, u, k', n)
       = Some (let st = st\<lparr>teamindex := push_index k (tsize + i) (teamindex st)\<rparr>
               in if n \<noteq> 0 then (st\<lparr>totalT := totalT st @ [[u]]\<rparr>, [], k, n + 1) else (st, u, k, n + 1))"
proof -
  let ?ts = "[ascii ''index'', dec_text i, ascii ''listsize'', dec_text z, ascii ''teamID'']"
  have line: "index_line i z (hex_text (nat k)) = concat (map (\<lambda>t. t @ [58]) ?ts) @ hex_text (nat k) @ [10]"
    by (simp add: index_line_def ascii_def of_char_def)
  have "tokenize (getString (index_line i z (hex_text (nat k)))) [] [58] = ?ts @ [hex_text (nat k) @ [10]]"
    unfolding line by (rule plain_tokens) (simp_all add: plain_words plain_dec_text plain_hex_text)
  moreover have "strtol (dec_text i) = int i"
    using assms(1) strtol_dec_text [of i "[]"] by (simp add: no_digit_first_def)
  moreover have "\<not> int i \<ge> 2 ^ 31" using assms(1) by simp
  ultimately show ?thesis
    by (simp add: load_line_def str2chordID_text [OF assms(2)] Let_def)
qed

definition close_load :: "('d, 'z) load_state \<Rightarrow> ('d, 'z) node_scheme \<times> nat" where
  "close_load ls = (case ls of (st, u, k, n) \<Rightarrow> (if n \<noteq> 0 then st\<lparr>totalT := totalT st @ [[u]]\<rparr> else st, n))"

lemma loadinitstate_close:
  "loadinitstate f st = map_option close_load (load_lines (length (totalT st)) (getlines f) (st, [], 0, 0))"
  by (auto simp: loadinitstate_def close_load_def map_option_case split: option.splits)

lemma index_line_plain: "prints_hex show_id \<Longrightarrow> is_id k \<Longrightarrow>
  \<exists>l. index_line i z (show_id k) = l @ [10] \<and> 10 \<notin> set l"
  using plain_words plain_dec_text [of i] plain_dec_text [of z] plain_hex_text [of "nat k"]
  by (intro exI [of _ "butlast (index_line i z (show_id k))"])
     (auto simp: index_line_def prints_hex_def plain_def butlast_append ascii_def of_char_def)

lemma entry_line_plain: "polys (fst e) \<noteq> [] \<Longrightarrow> 10 \<notin> set (entry_line e)"
  using plain_sig_text [of "polys (fst e)"] plain_fmt_f [of "fst (snd e)"] plain_fmt_f [of "snd (snd e)"]
  by (cases e) (auto simp: entry_line_def plain_def)

text \<open>The state after the lists from number \<open>i\<close> on have been loaded.\<close>

definition loaded :: "(chordID, nat list) omap \<Rightarrow> nat \<Rightarrow> nat \<Rightarrow> 'd :: floor_ceiling vecomap list
    \<Rightarrow> ('d, 'z) node_scheme \<Rightarrow> ('d, 'z) node_scheme" where
  "loaded index tsize i tT st =
     st\<lparr>teamindex := fold (\<lambda>j. push_index (findteamid index j) (tsize + j)) [i..<i + length tT] (teamindex st),
        totalT := totalT st @ map (\<lambda>ts. [round_list (hd ts)]) tT\<rparr>"

lemma log_teams_load:
  fixes st :: "('d :: floor_ceiling, 'z) node_scheme"
  assumes "prints_decimal show_uint" "prints_hex show_id" "i + length tT \<le> 2 ^ 31" "n = 0 \<Longrightarrow> u = []"
    and "\<forall>j \<in> {i..<i + length tT}. findteamid index j \<noteq> 0 \<and> is_id (findteamid index j)"
    and "\<forall>ts \<in> set tT. ts \<noteq> [] \<and> loggable (hd ts)"
  shows "\<exists>out. log_teams show_uint show_id index sigbuf i tT = Some out
    \<and> map_option close_load (load_lines tsize (getlines out) (st, u, k, n))
      = Some (loaded index tsize i tT (fst (close_load (st, u, k, n))), n + length tT)"
  using assms(3-)
proof (induction tT arbitrary: sigbuf i st u k n)
  case Nil
  then show ?case by (simp add: loaded_def close_load_def)
next
  case (Cons ts tT)
  define ID where "ID = findteamid index i"
  have ID: "ID \<noteq> 0" "is_id ID" "show_id ID = hex_text (nat ID)"
    using Cons.prems(3) assms(2) by (auto simp: ID_def prints_hex_def)
  obtain t tr where ts: "ts = t # tr" and t: "omap_wf t" "\<forall>(s, _) \<in> set t. polys s \<noteq> []"
    using Cons.prems(4) by (cases ts) (auto simp: loggable_def)
  obtain b where b: "log_entries show_uint sigbuf t = Some (b, concat (map (\<lambda>l. l @ [10]) (map entry_line t)))"
    using log_entries_lines [OF assms(1) t(2)] by blast
  define st' where "st' = fst (close_load (st, u, k, n))\<lparr>teamindex := push_index ID (tsize + i) (teamindex st)\<rparr>"
  obtain rest where rest: "log_teams show_uint show_id index b (i + 1) tT = Some rest"
    "map_option close_load (load_lines tsize (getlines rest) (st', round_list t, ID, n + 1))
      = Some (loaded index tsize (i + 1) tT (fst (close_load (st', round_list t, ID, n + 1))), n + 1 + length tT)"
    using Cons.IH [of "i + 1" "n + 1" "round_list t" b st' ID] Cons.prems by auto
  obtain l where l: "index_line i (length t) (show_id ID) = l @ [10]" "10 \<notin> set l"
    using index_line_plain [OF assms(2) ID(2)] by blast
  let ?out = "index_line i (length t) (show_id ID) @ concat (map (\<lambda>l. l @ [10]) (map entry_line t)) @ rest"
  have "getlines ?out = index_line i (length t) (show_id ID) # map (\<lambda>l. l @ [10]) (map entry_line t) @ getlines rest"
    using getlines_line [OF l(2)] getlines_concat [of "map entry_line t" rest] t(2) entry_line_plain
    unfolding l(1) by fastforce
  moreover have "load_line tsize (index_line i (length t) (show_id ID)) (st, u, k, n) = Some (st', [], ID, n + 1)"
    using load_index_line [of i ID tsize "length t" st u k n] ID Cons.prems(1,2)
    by (auto simp: st'_def close_load_def Let_def)
  ultimately have "load_lines tsize (getlines ?out) (st, u, k, n)
      = load_lines tsize (getlines rest) (st', round_list t, ID, n + 1)"
    using load_entry_lines [OF t(2), of tsize st' "[]" ID "n + 1"] fold_push_round_list [OF t(1)] by (simp add: load_lines_append)
  moreover have "loaded index tsize (i + 1) tT (fst (close_load (st', round_list t, ID, n + 1)))
      = loaded index tsize i (ts # tT) (fst (close_load (st, u, k, n)))"
    by (simp add: loaded_def close_load_def st'_def ts ID_def upt_conv_Cons del: upt_Suc)
  moreover have "log_teams show_uint show_id index sigbuf i (ts # tT) = Some ?out"
    using b rest(1) ID(1) by (simp add: ts ID_def Let_def)
  ultimately show ?case using rest(2) by (intro exI [of _ ?out]) simp
qed

text \<open>Rebuilding an index in which every list number has one team.\<close>

lemma findteamid_unique:
  assumes "teams_ok index n" "omap_find index k = Some [i]"
  shows "findteamid index i = k"
proof -
  have d: "distinct (map fst index)"
    using assms(1) by (simp add: teams_ok_def omap_wf_def sorted_wrt_less_distinct)
  have "(k, [i]) \<in> set index" using assms(2) by (simp add: omap_find_def map_of_SomeD)
  then obtain k' ixs where f: "find (\<lambda>(k, ixs). i \<in> set ixs) index = Some (k', ixs)"
    by (cases "find (\<lambda>(k, ixs). i \<in> set ixs) index") (fastforce simp: find_None_iff)+
  then have "(k', ixs) \<in> set index" "i \<in> set ixs"
    by (auto simp: find_Some_iff) (metis nth_mem)
  then have "omap_find index k' = Some ixs" using d by (simp add: omap_find_def)
  moreover from this obtain j where "ixs = [j]" using assms(1) unfolding teams_ok_def by blast
  moreover from this have "ixs = [i]" using \<open>i \<in> set ixs\<close> by simp
  ultimately have "k' = k" using assms unfolding teams_ok_def by blast
  then show ?thesis by (simp add: findteamid_def f)
qed

lemma rebuild_index:
  assumes "teams_ok index n" "\<forall>i < n. \<exists>k. omap_find index k = Some [i]"
  shows "fold (\<lambda>j. push_index (findteamid index j) j) [0..<n] [] = index"
proof -
  define ix where "ix m = fold (\<lambda>j. push_index (findteamid index j) j) [0..<m] []" for m
  have "omap_wf (ix m) \<and> (\<forall>k. omap_find (ix m) k =
      (case omap_find index k of Some [i] \<Rightarrow> if i < m then Some [i] else None | _ \<Rightarrow> None))" if "m \<le> n" for m
    using that
  proof (induction m)
    case 0
    then show ?case by (auto simp: ix_def omap_wf_def omap_find_def split: option.splits list.splits)
  next
    case (Suc m)
    then obtain k0 where k0: "omap_find index k0 = Some [m]" using assms(2) by (auto simp: Suc_le_eq)
    have u: "k = k0" if "omap_find index k = Some [m]" for k
      using that k0 assms(1) unfolding teams_ok_def by blast
    have wf: "omap_wf (ix m)" and IH: "omap_find (ix m) k =
      (case omap_find index k of Some [i] \<Rightarrow> if i < m then Some [i] else None | _ \<Rightarrow> None)" for k
      using Suc by auto
    have "ix (Suc m) = omap_put k0 [m] (ix m)"
      using IH [of k0] k0 by (simp add: ix_def push_index_def findteamid_unique [OF assms(1) k0])
    moreover have "omap_find (omap_put k0 [m] (ix m)) k =
      (case omap_find index k of Some [i] \<Rightarrow> if i < Suc m then Some [i] else None | _ \<Rightarrow> None)" for k
    proof (cases "k = k0")
      case False
      then have "omap_find index k \<noteq> Some [m]" using u by blast
      then show ?thesis using False IH [of k]
        by (simp add: omap_find_put [OF wf] less_Suc_eq split: option.split list.split)
    qed (simp add: omap_find_put [OF wf] k0)
    ultimately show ?case using wf by (simp add: omap_wf_put)
  qed
  from this [of n] have "omap_wf (ix n)" and f: "omap_find (ix n) k =
      (case omap_find index k of Some [i] \<Rightarrow> if i < n then Some [i] else None | _ \<Rightarrow> None)" for k
    by auto
  moreover have "map_of (ix n) = map_of index"
  proof
    fix k show "map_of (ix n) k = map_of index k"
      using f [of k] assms(1) by (fastforce simp: teams_ok_def omap_find_def split: option.splits list.splits)
  qed
  ultimately show ?thesis
    using sorted_alist_unique [of "ix n" index] assms(1)
    by (simp add: ix_def teams_ok_def omap_wf_def)
qed

text \<open>A peer after the init phase: each list belongs to one team and holds signatures with elements.\<close>

definition log_ready :: "('d, 'z) node_scheme \<Rightarrow> bool" where
  "log_ready st \<longleftrightarrow>
     teams_ok (teamindex st) (length (totalT st)) \<and> length (totalT st) \<le> 2 ^ 31
   \<and> (\<forall>i < length (totalT st). \<exists>k. k \<noteq> 0 \<and> is_id k \<and> omap_find (teamindex st) k = Some [i])
   \<and> (\<forall>ts \<in> set (totalT st). ts \<noteq> [] \<and> loggable (hd ts))"

lemma load_log:
  fixes st st0 :: "('d :: floor_ceiling, 'z) node_scheme"
  assumes "prints_decimal show_uint" "prints_hex show_id" "log_ready st"
  shows "\<exists>log. loginitstate show_uint show_id st = Some log
    \<and> loadinitstate log st0
      = Some (loaded (teamindex st) (length (totalT st0)) 0 (totalT st) st0, length (totalT st))"
proof -
  have ok: "teams_ok (teamindex st) (length (totalT st))" "length (totalT st) \<le> 2 ^ 31"
    "\<forall>i < length (totalT st). \<exists>k. k \<noteq> 0 \<and> is_id k \<and> omap_find (teamindex st) k = Some [i]"
    "\<forall>ts \<in> set (totalT st). ts \<noteq> [] \<and> loggable (hd ts)"
    using assms(3) by (simp_all add: log_ready_def)
  have ids: "\<forall>j \<in> {0..<0 + length (totalT st)}.
      findteamid (teamindex st) j \<noteq> 0 \<and> is_id (findteamid (teamindex st) j)"
    using ok(3) findteamid_unique [OF ok(1)] by fastforce
  show ?thesis
    using log_teams_load [OF assms(1,2) _ _ ids ok(4), of 0 "[]" None "length (totalT st0)" st0 0] ok(2)
    by (simp add: loginitstate_def loadinitstate_close close_load_def)
qed

text \<open>
  C24: a peer that loads the log of an init phase has the same teams at the same places as the peer
  that wrote it, and the same signatures in each list; frequencies and weights are rounded to
  the six decimals that the log prints, which is within \<open>5 / 10 ^ 7\<close>, and whole numbers, such as
  the counts of the init phase, come back exactly.
\<close>

theorem init_state_roundtrip:
  fixes st st0 :: "('d :: floor_ceiling, 'z) node_scheme"
  assumes "prints_decimal show_uint" "prints_hex show_id" "log_ready st"
    and "totalT st0 = []" "teamindex st0 = []"
  shows "\<exists>log. loginitstate show_uint show_id st = Some log
    \<and> loadinitstate log st0 = Some (st0\<lparr>teamindex := teamindex st,
          totalT := map (\<lambda>ts. [round_list (hd ts)]) (totalT st)\<rparr>, length (totalT st))
    \<and> (\<forall>n. round6 (of_int n :: 'd) = of_int n) \<and> (\<forall>x :: 'd. \<bar>round6 x - x\<bar> \<le> 1 / (2 * 10 ^ 6))"
proof -
  let ?n = "length (totalT st)"
  obtain log where log: "loginitstate show_uint show_id st = Some log"
    and l: "loadinitstate log st0 = Some (loaded (teamindex st) 0 0 (totalT st) st0, ?n)"
    using load_log [OF assms(1-3), of st0] assms(4) by auto
  have "fold (\<lambda>j. push_index (findteamid (teamindex st) j) j) [0..<?n] [] = teamindex st"
    by (rule rebuild_index) (use assms(3) in \<open>auto simp: log_ready_def\<close>)
  then have "loadinitstate log st0 = Some (st0\<lparr>teamindex := teamindex st,
        totalT := map (\<lambda>ts. [round_list (hd ts)]) (totalT st)\<rparr>, ?n)"
    using l assms(4,5) by (simp add: loaded_def)
  then show ?thesis using log round6_of_int round6_near by blast
qed

subsection \<open>Merging the logs of several peers\<close>

lemma load_files_logs:
  fixes st0 :: "('d :: floor_ceiling, 'z) node_scheme" and peers :: "('d, 'z) node_scheme list"
  assumes "prints_decimal show_uint" "prints_hex show_id" "\<forall>p \<in> set peers. log_ready p"
  shows "\<exists>st n z. load_files (map (loginitstate show_uint show_id) peers) st0 n0 z0 = Some (st, n, z)
    \<and> totalT st = totalT st0 @ concat (map (\<lambda>p. map (\<lambda>ts. [round_list (hd ts)]) (totalT p)) peers)"
  using assms(3)
proof (induction peers arbitrary: st0 n0 z0)
  case (Cons p peers)
  then obtain log where log: "loginitstate show_uint show_id p = Some log"
    "loadinitstate log st0
      = Some (loaded (teamindex p) (length (totalT st0)) 0 (totalT p) st0, length (totalT p))"
    using load_log [OF assms(1,2), of p st0] by auto
  then show ?case
    using Cons.IH [of "loaded (teamindex p) (length (totalT st0)) 0 (totalT p) st0"] Cons.prems
    by (fastforce simp: loaded_def)
qed simp

lemma omap_find_round_list:
  "omap_find (round_list t) s = map_option (\<lambda>(f, w). (round6 f, round6 w)) (omap_find t s)"
  by (induction t) (auto simp: omap_find_def round_list_def)

lemma round_list_wf: "omap_wf (round_list t) \<longleftrightarrow> omap_wf t"
  by (simp add: omap_wf_def round_list_def comp_def split_def)

lemma round6_0 [simp]: "round6 0 = 0"
  using round6_of_int [of 0] by simp

lemma freq_of_round_list: "freq_of (Some (round_list t)) s = round6 (freq_of (Some t) s)"
  by (simp add: freq_of_def omap_find_round_list split: option.split)

text \<open>
  C23: merging the init files of several peers: when every file is the log of a peer after the init
  phase, the merge ends with one list of exactly the signatures that the peers hold, and the
  frequency of a signature is the sum of the logged frequencies over all lists of all peers.
\<close>

theorem merged_logs_sum:
  fixes peers :: "('d :: floor_ceiling, 'z) node_scheme list" and st0 :: "('d, 'z) node_scheme"
  assumes "prints_decimal show_uint" "prints_hex show_id" "\<forall>p \<in> set peers. log_ready p" "totalT st0 = []"
  shows "\<exists>st u. merge_init_files (map (loginitstate show_uint show_id) peers) st0 = Some st
    \<and> allT st = [u] \<and> omap_wf u
    \<and> (\<forall>s. omap_find u s =
        (if \<exists>p \<in> set peers. \<exists>ts \<in> set (totalT p). s \<in> omap_keys (hd ts)
         then Some (\<Sum>p \<leftarrow> peers. \<Sum>ts \<leftarrow> totalT p. round6 (freq_of (Some (hd ts)) s), 1) else None))"
proof -
  obtain st n z where l: "load_files (map (loginitstate show_uint show_id) peers) st0 0 0 = Some (st, n, z)"
    and t: "totalT st = concat (map (\<lambda>p. map (\<lambda>ts. [round_list (hd ts)]) (totalT p)) peers)"
    using load_files_logs [OF assms(1-3), of st0 0 0] assms(4) by auto
  have "\<forall>ts \<in> set (totalT (st\<lparr>allT := []\<rparr>)). ts \<noteq> [] \<and> omap_wf (hd ts)"
    using assms(3) by (auto simp: t log_ready_def loggable_def round_list_wf)
  from mergeinit_sums [OF this] obtain u where
    u: "mergeinit (st\<lparr>allT := []\<rparr>) = Some (st\<lparr>allT := [u]\<rparr>)" "omap_wf u"
      "\<forall>s. omap_find u s = (if \<exists>ts \<in> set (totalT st). s \<in> omap_keys (hd ts)
          then Some (\<Sum>ts \<leftarrow> totalT st. freq_of (Some (hd ts)) s, 1) else None)"
    by auto
  have "(\<Sum>ts \<leftarrow> totalT st. freq_of (Some (hd ts)) s)
      = (\<Sum>p \<leftarrow> peers. \<Sum>ts \<leftarrow> totalT p. round6 (freq_of (Some (hd ts)) s))" for s
    unfolding t by (induction peers) (simp_all add: comp_def freq_of_round_list)
  moreover have "(\<exists>ts \<in> set (totalT st). s \<in> omap_keys (hd ts))
      \<longleftrightarrow> (\<exists>p \<in> set peers. \<exists>ts \<in> set (totalT p). s \<in> omap_keys (hd ts))" for s
    by (auto simp: t omap_keys_iff omap_find_round_list)
  ultimately show ?thesis using u l by (auto simp: merge_init_files_def)
qed

text \<open>A peer with two teams.\<close>

definition log_sample :: "rat node" where
  "log_sample = (sample_node [[[(Sig [3], 2, 1), (Sig [5], 4, 1)]], [[(Sig [3, 7], 1, 1)]]])
     \<lparr>teamindex := [(9, [1]), (12, [0])]\<rparr>"

lemma log_ready_sample: "log_ready log_sample"
  unfolding log_ready_def teams_ok_def
  by (auto simp: log_sample_def sample_node_def omap_wf_def omap_find_def loggable_def less_sig_def
      CompareSig_def is_id_def ring_def NBIT_def less_Suc_eq simp del: two_NBIT split: if_splits
      intro: exI [of _ "9 :: int"])

theorem init_state_roundtrip_witness:
  "\<exists>log. loginitstate (\<lambda>p. dec_text (unat p)) (\<lambda>a. hex_text (nat a)) log_sample = Some log
    \<and> map_option (\<lambda>(st, n). (teamindex st, totalT st, n)) (loadinitstate log (sample_node [] :: rat node))
      = Some ([(9, [1]), (12, [0])], [[[(Sig [3], 2, 1), (Sig [5], 4, 1)]], [[(Sig [3, 7], 1, 1)]]], 2)"
proof -
  have r: "round6 (1 :: rat) = 1" "round6 (2 :: rat) = 2" "round6 (4 :: rat) = 4"
    using round6_of_int [of 1, where 'a = rat] round6_of_int [of 2, where 'a = rat] round6_of_int [of 4, where 'a = rat]
    by simp_all
  have "prints_decimal (\<lambda>p. dec_text (unat p))" "prints_hex (\<lambda>a. hex_text (nat a))"
    by (simp_all add: prints_decimal_def prints_hex_def)
  from init_state_roundtrip [OF this log_ready_sample, of "sample_node []"] show ?thesis
    by (auto simp: log_sample_def sample_node_def round_list_def r)
qed

theorem merged_logs_sum_witness:
  "\<exists>st u. merge_init_files (map (loginitstate (\<lambda>p. dec_text (unat p)) (\<lambda>a. hex_text (nat a))) [log_sample, log_sample])
       (sample_node [] :: rat node) = Some st
    \<and> allT st = [u] \<and> omap_find u (Sig [5]) = Some (8, 1)"
proof -
  have r: "round6 (4 :: rat) = 4" using round6_of_int [of 4, where 'a = rat] by simp
  have "prints_decimal (\<lambda>p. dec_text (unat p))" "prints_hex (\<lambda>a. hex_text (nat a))"
    by (simp_all add: prints_decimal_def prints_hex_def)
  from merged_logs_sum [OF this, of "[log_sample, log_sample]" "sample_node []"] log_ready_sample show ?thesis
    by (auto simp: log_sample_def sample_node_def omap_keys_def freq_of_def omap_find_def r)
qed

end
