(* ===== verification/Location.thy ===== *)
theory Location
  imports Chord_ID "HOL-Library.Monad_Syntax"
begin

text \<open>
  What a node knows of another one (\<^verbatim>\<open>utils/location.C\<close>): its identifier, whether it is believed to be alive, how old
  that knowledge is and how many packets were lost; and how the description of a node travels in a message. The clock
  \<^verbatim>\<open>timenow\<close> is the argument \<open>now\<close>; times are integers. The coordinates and the latencies are not kept: the code only copies
  them.
\<close>

record location =
  l_id :: chordID
  hostname :: bytes
  port :: int
  sin_addr :: "32 word"
  vnode :: int
  is_alive :: bool
  dead_time :: int
  updatetime :: int
  knownup :: int
  age_then :: int
  budget :: int
  isme :: bool
  losses :: int

text \<open>A value stored in a \<^verbatim>\<open>char\<close>.\<close>

definition to_char :: "int \<Rightarrow> int" where
  "to_char x = (x + 128) mod 256 - 128"

text \<open>The constructors; \<open>authentic\<close> is the result of \<^verbatim>\<open>is_authenticID\<close> and \<open>s\<close> the address that \<^verbatim>\<open>inet_aton\<close> reads, as kept in
  \<^verbatim>\<open>saddr_.sin_addr\<close>.\<close>

definition new_location :: "int \<Rightarrow> bool \<Rightarrow> chordID \<Rightarrow> bytes \<Rightarrow> int \<Rightarrow> 32 word \<Rightarrow> int \<Rightarrow> int \<Rightarrow> int \<Rightarrow> int \<Rightarrow> bool \<Rightarrow> location" where
  "new_location now authentic n host p s v k a b m =
     \<lparr>l_id = n, hostname = host, port = p, sin_addr = s, vnode = (if authentic then v else -1), is_alive = True, dead_time = 0,
      updatetime = now, knownup = k, age_then = a, budget = b, isme = m, losses = 0\<rparr>"

definition update_knownup :: "int \<Rightarrow> location \<Rightarrow> location option" where
  "update_knownup now l =
     (let l = (if now > 0 \<and> updatetime l > 0 then l\<lparr>knownup := now - updatetime l\<rparr>
               else if now > 0 \<and> updatetime l = 0 then l\<lparr>updatetime := now\<rparr> else l);
          l = (if knownup l < 30 then l\<lparr>knownup := 30\<rparr> else l)
      in if isme l \<and> age_then l = 0 then Some l else None)"

definition age :: "int \<Rightarrow> location \<Rightarrow> location \<times> int" where
  "age now l =
     (if \<not> isme l
      then if now > 0 \<and> updatetime l > 0 then (l, now - updatetime l + age_then l)
           else if now > 0 \<and> updatetime l = 0 then (l\<lparr>updatetime := now\<rparr>, age_then l)
           else (l, age_then l)
      else (l, age_then l))"

definition set_alive :: "int \<Rightarrow> bool \<Rightarrow> location \<Rightarrow> location" where
  "set_alive now alive l =
     (let l = (if \<not> alive \<and> is_alive l then l\<lparr>dead_time := now\<rparr> else l)
      in if \<not> alive \<and> isme l then l else l\<lparr>age_then := 0, is_alive := alive, updatetime := now\<rparr>)"

text \<open>Losses are halved for every five seconds.\<close>

definition get_loss :: "int \<Rightarrow> location \<Rightarrow> location \<times> int" where
  "get_loss now l =
     (if \<not> is_alive l then (l, 0)
      else (let l = (if dead_time l = 0 then l\<lparr>dead_time := now\<rparr>
                     else (let tt = nat ((now - dead_time l) div 5)
                           in l\<lparr>losses := losses l div 2 ^ tt, dead_time := dead_time l + 5 * int tt\<rparr>))
            in (l, losses l)))"

definition set_loss :: "int \<Rightarrow> location \<Rightarrow> location" where
  "set_loss now l =
     (if is_alive l
      then (let (l, c) = get_loss now l;
                l = l\<lparr>losses := to_char (c + 1)\<rparr>
            in if losses l > 4 then set_alive now False l else l\<lparr>updatetime := now, age_then := 0\<rparr>)
      else l\<lparr>updatetime := now, age_then := 0\<rparr>)"

text \<open>\<^verbatim>\<open>update\<close> with another description of the same node: taken when it is newer.\<close>

definition update :: "int \<Rightarrow> location \<Rightarrow> location \<Rightarrow> location \<times> location" where
  "update now l other =
     (if now > 0 \<and> updatetime l > 0
      then if isme l then (l, other)
           else (let (other, oage) = age now other
                 in if oage < now - updatetime l + age_then l
                    then (let (other, oage) = age now other;
                              l = l\<lparr>age_then := oage, updatetime := now\<rparr>;
                              l = (if knownup other < knownup l then l\<lparr>losses := 0\<rparr>
                                   else if losses l > 0 then l\<lparr>losses := losses l - 1\<rparr> else l);
                              l = l\<lparr>knownup := knownup other, budget := budget other\<rparr>
                          in (set_alive now True l, other))
                    else (l, other))
      else if now > 0 \<and> updatetime l = 0 then (l\<lparr>updatetime := now\<rparr>, other)
      else (l, other))"

text \<open>The same with the fields of a \<^verbatim>\<open>chord_node\<close>.\<close>

definition update_chord_node :: "int \<Rightarrow> location \<Rightarrow> int \<Rightarrow> int \<Rightarrow> int \<Rightarrow> location" where
  "update_chord_node now l nage nknownup nbudget =
     (if now > 0 \<and> updatetime l > 0
      then if \<not> isme l \<and> nage < now - updatetime l + age_then l
           then (let l = l\<lparr>age_then := nage, updatetime := now\<rparr>;
                     l = (if nknownup < knownup l then l\<lparr>losses := 0\<rparr>
                          else (let (l, c) = get_loss now l in l\<lparr>losses := c\<rparr>));
                     l = l\<lparr>knownup := nknownup, budget := nbudget\<rparr>
                 in set_alive now True l)
           else l
      else if now > 0 \<and> updatetime l = 0 then l\<lparr>updatetime := now\<rparr>
      else l)"

text \<open>The age, uptime and budget that \<^verbatim>\<open>fill_node\<close> tells other nodes.\<close>

definition fill_node :: "int \<Rightarrow> location \<Rightarrow> (location \<times> int \<times> int \<times> int) option" where
  "fill_node now l =
     (let (l, a) = age now l
      in if isme l then do { l \<leftarrow> update_knownup now l; Some (l, a, knownup l, budget l) }
         else Some (l, if a = 0 then 1 else a, knownup l, budget l))"

subsection \<open>Nodes in messages\<close>

text \<open>What the code finds in its surroundings: the hash function of the library as a number, the reader of addresses of the C
  library, the configured number of virtual nodes and whether the variable \<^verbatim>\<open>MODELNET\<close> is set.\<close>

record net_env =
  sha1 :: "bytes \<Rightarrow> chordID"
  inet_aton :: "bytes \<Rightarrow> 32 word option"
  max_vnodes :: int
  modelnet_on :: bool

definition int_text :: "int \<Rightarrow> bytes" where
  "int_text x = (if x < 0 then 45 # dec_text (nat (- x)) else dec_text (nat x))"

definition node_text :: "bytes \<Rightarrow> int \<Rightarrow> int \<Rightarrow> bytes" where
  "node_text addr p index = addr @ [46] @ int_text p @ [46] @ int_text index"

definition make_chordID :: "net_env \<Rightarrow> bytes \<Rightarrow> int \<Rightarrow> int \<Rightarrow> chordID" where
  "make_chordID E addr p index = sha1 E (node_text addr p index)"

definition is_authenticID :: "net_env \<Rightarrow> chordID \<Rightarrow> bytes \<Rightarrow> int \<Rightarrow> int \<Rightarrow> bool" where
  "is_authenticID E x n p v =
     (if p < 0 \<or> p > 65535 then False else if v > max_vnodes E then False else make_chordID E n p v = x)"

text \<open>The byte order of the network on a little-endian machine, and the text of an address in that order.\<close>

definition htonl :: "32 word \<Rightarrow> 32 word" where
  "htonl w = push_bit 24 (take_bit 8 w) OR push_bit 16 (take_bit 8 (drop_bit 8 w))
     OR push_bit 8 (take_bit 8 (drop_bit 16 w)) OR drop_bit 24 w"

definition inet_ntoa :: "32 word \<Rightarrow> bytes" where
  "inet_ntoa s = dec_text (unat (take_bit 8 s)) @ [46] @ dec_text (unat (take_bit 8 (drop_bit 8 s))) @ [46]
     @ dec_text (unat (take_bit 8 (drop_bit 16 s))) @ [46] @ dec_text (unat (drop_bit 24 s))"

record chord_node_wire =
  machine_order_ipv4_addr :: "32 word"
  machine_order_port_vnnum :: "32 word"
  w_age :: int
  w_knownup :: int
  w_budget :: int

text \<open>The port is stored with 16 bits; a negative \<^verbatim>\<open>vnode_\<close> overwrites it.\<close>

definition fill_node_wire :: "int \<Rightarrow> location \<Rightarrow> (location \<times> chord_node_wire) option" where
  "fill_node_wire now l =
     do { (l', a, k, b) \<leftarrow> fill_node now l;
          Some (l', \<lparr>machine_order_ipv4_addr = htonl (sin_addr l),
            machine_order_port_vnnum = push_bit 16 (take_bit 16 (word_of_int (port l))) OR word_of_int (vnode l),
            w_age = a, w_knownup = k, w_budget = b\<rparr>) }"

text \<open>\<^verbatim>\<open>make_chord_node\<close> and the constructor that takes its result.\<close>

definition wire_addr :: "net_env \<Rightarrow> 32 word \<Rightarrow> 32 word" where
  "wire_addr E a = (if modelnet_on E then htonl a AND 0xffff00ff else htonl a)"

definition make_chord_node :: "net_env \<Rightarrow> int \<Rightarrow> chord_node_wire \<Rightarrow> location" where
  "make_chord_node E now nl =
     (let host = inet_ntoa (wire_addr E (machine_order_ipv4_addr nl));
          p = uint (drop_bit 16 (machine_order_port_vnnum nl));
          v = uint (machine_order_port_vnnum nl AND 0xFFFF);
          x = make_chordID E host p v
      in new_location now (is_authenticID E x host p v) x host p (case inet_aton E host of Some s \<Rightarrow> s | None \<Rightarrow> 0) v
           (w_knownup nl) (w_age nl) (w_budget nl) False)"

text \<open>The location that the receiver of a message makes of a node of the sender. When \<^verbatim>\<open>fill_node\<close> fails its assertion there is
  no message, and the value is unspecified. The sender's refreshed uptime is not written back: nothing here reads it.\<close>

definition wire_loc :: "net_env \<Rightarrow> int \<Rightarrow> location \<Rightarrow> location" where
  "wire_loc E now l = make_chord_node E now (snd (the (fill_node_wire now l)))"

text \<open>A location that survives the way through a message: its identifier is the hash of its address, the address is a number in
  dotted decimal (with the byte cleared that \<^verbatim>\<open>MODELNET\<close> clears), port and virtual node fit 16 bits.\<close>

definition sound :: "net_env \<Rightarrow> location \<Rightarrow> bool" where
  "sound E l \<longleftrightarrow>
     0 \<le> vnode l \<and> vnode l < 2 ^ 16 \<and> vnode l \<le> max_vnodes E \<and> 0 \<le> port l \<and> port l < 2 ^ 16
   \<and> l_id l = make_chordID E (hostname l) (port l) (vnode l)
   \<and> hostname l = inet_ntoa (sin_addr l) \<and> inet_aton E (hostname l) = Some (sin_addr l)
   \<and> (modelnet_on E \<longrightarrow> sin_addr l AND 0xffff00ff = sin_addr l) \<and> (isme l \<longrightarrow> age_then l = 0)"

subsection \<open>Properties\<close>

lemma fields_kept [simp]:
  "l_id (set_alive now b l) = l_id l" "vnode (set_alive now b l) = vnode l" "isme (set_alive now b l) = isme l"
  "l_id (fst (age now l)) = l_id l" "vnode (fst (age now l)) = vnode l"
  "l_id (fst (update now l other)) = l_id l" "vnode (fst (update now l other)) = vnode l"
  "l_id (set_loss now l) = l_id l" "vnode (set_loss now l) = vnode l" "isme (set_loss now l) = isme l"
  by (auto simp: set_alive_def age_def update_def set_loss_def get_loss_def Let_def split: prod.splits)

text \<open>A node never declares itself dead, and another one is declared dead exactly by the fifth loss that is not
  forgotten.\<close>

lemma set_loss_alive:
  assumes "is_alive l" "0 \<le> losses l" "losses l \<le> 4"
  shows "is_alive (set_loss now l) \<longleftrightarrow> isme l \<or> snd (get_loss now l) < 4"
proof -
  have "losses l div 2 ^ k \<le> losses l div 1" for k using assms(2) by (intro zdiv_mono2) simp_all
  then have "losses l div 2 ^ k \<le> 4" "0 \<le> losses l div 2 ^ k" for k
    using assms(2,3) by (auto simp: pos_imp_zdiv_nonneg_iff intro: order_trans)
  then have c: "0 \<le> snd (get_loss now l)" "snd (get_loss now l) \<le> 4" using assms by (simp_all add: get_loss_def Let_def)
  have "is_alive (fst (get_loss now l))" "isme (fst (get_loss now l)) = isme l" using assms(1) by (simp_all add: get_loss_def Let_def)
  then show ?thesis
    using assms(1) c by (auto simp: set_loss_def set_alive_def to_char_def Let_def split: prod.splits)
qed

text \<open>Second-hand knowledge that is taken over makes the node look as if it had just been spoken to: the age that
  came with it is overwritten by \<^verbatim>\<open>set_alive\<close>.\<close>

lemma update_forgets_age:
  "now > 0 \<Longrightarrow> updatetime l > 0 \<Longrightarrow> \<not> isme l \<Longrightarrow> snd (age now other) < now - updatetime l + age_then l \<Longrightarrow>
     age_then (fst (update now l other)) = 0 \<and> is_alive (fst (update now l other)) \<and> snd (age now (fst (update now l other))) = 0"
  by (auto simp: update_def set_alive_def age_def Let_def split: prod.splits)

text \<open>The byte order conversion is its own inverse, and the fields of a wire node are read back.\<close>

lemma bit_htonl:
  "n < 8 \<Longrightarrow> bit (htonl w) n \<longleftrightarrow> bit w (n + 24)"
  "8 \<le> n \<Longrightarrow> n < 16 \<Longrightarrow> bit (htonl w) n \<longleftrightarrow> bit w (n + 8)"
  "16 \<le> n \<Longrightarrow> n < 24 \<Longrightarrow> bit (htonl w) n \<longleftrightarrow> bit w (n - 8)"
  "24 \<le> n \<Longrightarrow> n < 32 \<Longrightarrow> bit (htonl w) n \<longleftrightarrow> bit w (n - 24)"
  by (auto simp: htonl_def bit_simps add.commute dest: bit_imp_le_length)

lemma htonl_htonl [simp]: "htonl (htonl w) = w"
proof (rule bit_word_eqI)
  fix n assume "n < LENGTH(32)"
  then consider "n < 8" | "8 \<le> n" "n < 16" | "16 \<le> n" "n < 24" | "24 \<le> n" "n < 32" by fastforce
  then show "bit (htonl (htonl w)) n = bit w n" by cases (simp_all add: bit_htonl)
qed

lemma vnnum_fields:
  fixes p v :: int
  assumes "0 \<le> p" "p < 2 ^ 16" "0 \<le> v" "v < 2 ^ 16"
  defines "w \<equiv> push_bit 16 (take_bit 16 (word_of_int p)) OR (word_of_int v :: 32 word)"
  shows "uint (drop_bit 16 w) = p" "uint (w AND 0xFFFF) = v"
proof -
  have v: "take_bit 16 v = v" and p: "take_bit 16 p = p" using assms by (simp_all add: take_bit_int_eq_self_iff)
  have vb: "\<not> bit v n" if "16 \<le> n" for n using v that by (metis bit_take_bit_iff not_le)
  have pb: "\<not> bit p n" if "16 \<le> n" for n using p that by (metis bit_take_bit_iff not_le)
  show "uint (drop_bit 16 w) = p"
    by (rule bit_eqI) (use vb pb in \<open>auto simp: w_def bit_simps not_le [symmetric]\<close>)
  have "(0xFFFF :: 32 word) = mask 16" by (simp add: mask_eq_exp_minus_1)
  then have "w AND 0xFFFF = take_bit 16 w" by (simp add: take_bit_eq_mask)
  then show "uint (w AND 0xFFFF) = v"
    by (intro bit_eqI) (use vb in \<open>auto simp: w_def bit_simps not_le [symmetric]\<close>)
qed

lemma update_sound: "sound E l \<Longrightarrow> sound E (fst (update now l other))"
  by (auto simp: sound_def update_def set_alive_def Let_def split: prod.splits)

text \<open>A sound node arrives with its identifier, its address and its number, alive and sound.\<close>

lemma wire_sound:
  assumes "sound E l"
  shows "l_id (wire_loc E now l) = l_id l \<and> hostname (wire_loc E now l) = hostname l \<and> port (wire_loc E now l) = port l
    \<and> vnode (wire_loc E now l) = vnode l \<and> is_alive (wire_loc E now l) \<and> sound E (wire_loc E now l)"
proof -
  have s: "0 \<le> vnode l" "vnode l < 2 ^ 16" "vnode l \<le> max_vnodes E" "0 \<le> port l" "port l < 2 ^ 16"
    "l_id l = make_chordID E (hostname l) (port l) (vnode l)" "hostname l = inet_ntoa (sin_addr l)"
    "inet_aton E (hostname l) = Some (sin_addr l)" "modelnet_on E \<longrightarrow> sin_addr l AND 0xffff00ff = sin_addr l"
    "isme l \<longrightarrow> age_then l = 0"
    using assms unfolding sound_def by blast+
  have "fst (age now l) = l \<or> \<not> isme l" by (simp add: age_def)
  then have "fill_node now l \<noteq> None"
    using s(10) by (auto simp: fill_node_def update_knownup_def age_def Let_def split: if_splits)
  then obtain l' a k b where f: "fill_node now l = Some (l', a, k, b)" by auto
  have h: "wire_addr E (htonl (sin_addr l)) = sin_addr l" using s(9) by (simp add: wire_addr_def)
  have "wire_loc E now l = new_location now True (l_id l) (hostname l) (port l) (sin_addr l) (vnode l) k a b False"
    using s(3-8) h vnnum_fields [OF s(4,5,1,2)]
    by (simp add: wire_loc_def fill_node_wire_def f make_chord_node_def is_authenticID_def Let_def)
  then show ?thesis using s by (simp add: new_location_def sound_def)
qed

end
