(* ===== verification/Skiplist.thy ===== *)
theory Skiplist
  imports Prelude "HOL-Library.Monad_Syntax"
begin

text \<open>
  The skip list of \<^verbatim>\<open>utils/skiplist.h\<close>, on an explicit heap. An element is an address; its \<^verbatim>\<open>sklist_entry\<close> holds the
  pointer \<^verbatim>\<open>previous\<close> and the array \<^verbatim>\<open>forward\<close> of 16 pointers, and \<open>kf\<close> reads the key of an element. A null pointer is
  \<open>None\<close>, and a null pointer that is dereferenced makes the whole operation \<open>None\<close>. The loops follow pointers, so they are partial functions. The random numbers of \<^verbatim>\<open>rndlvl\<close> are the
  argument \<open>coins\<close>: whether each draw is below one half.
\<close>

definition SKLIST_MAX_LEVS :: nat where
  "SKLIST_MAX_LEVS = 16"

type_synonym addr = nat

record sklist_entry =
  previous :: "addr option"
  forward :: "addr option list"

record skiplist =
  heap :: "addr \<Rightarrow> sklist_entry"
  head :: "addr option"
  tail :: "addr option"
  sz :: nat
  lvl :: nat

definition new_skiplist :: "(addr \<Rightarrow> sklist_entry) \<Rightarrow> skiplist" where
  "new_skiplist h = \<lparr>heap = h, head = None, tail = None, sz = 0, lvl = 1\<rparr>"

subsection \<open>Access to the heap\<close>

definition fwd :: "skiplist \<Rightarrow> addr \<Rightarrow> nat \<Rightarrow> addr option" where
  "fwd s x i = forward (heap s x) ! i"

definition set_fwd :: "addr \<Rightarrow> nat \<Rightarrow> addr option \<Rightarrow> skiplist \<Rightarrow> skiplist" where
  "set_fwd x i v s = s\<lparr>heap := (heap s)(x := (heap s x)\<lparr>forward := (forward (heap s x))[i := v]\<rparr>)\<rparr>"

definition set_prev :: "addr \<Rightarrow> addr option \<Rightarrow> skiplist \<Rightarrow> skiplist" where
  "set_prev x v s = s\<lparr>heap := (heap s)(x := (heap s x)\<lparr>previous := v\<rparr>)\<rparr>"

text \<open>A loop that writes \<^verbatim>\<open>forward[i]\<close> of \<open>x\<close> for each \<open>i\<close> of a list; the value may read the heap.\<close>

definition set_fwds :: "addr \<Rightarrow> (skiplist \<Rightarrow> nat \<Rightarrow> addr option) \<Rightarrow> nat list \<Rightarrow> skiplist \<Rightarrow> skiplist" where
  "set_fwds x v is s = fold (\<lambda>i s. set_fwd x i (v s i) s) is s"

primrec rnd_from :: "bool list \<Rightarrow> nat \<Rightarrow> nat" where
  "rnd_from [] l = l"
| "rnd_from (c # cs) l = (if c \<and> l < SKLIST_MAX_LEVS then rnd_from cs (l + 1) else l)"

definition rndlvl :: "bool list \<Rightarrow> nat" where
  "rndlvl coins = rnd_from coins 1"

subsection \<open>Insertion in front\<close>

text \<open>The new head takes the levels of the old one, which is cut or grown to the new level.\<close>

definition insert_head :: "bool list \<Rightarrow> addr \<Rightarrow> skiplist \<Rightarrow> skiplist option" where
  "insert_head coins elm s =
     do { let newlvl = rndlvl coins;
          let s = set_prev elm None s;
          s \<leftarrow> (if newlvl < lvl s
                then do { h0 \<leftarrow> head s;
                          let s = set_fwds elm (\<lambda>_ _. Some h0) [0..<newlvl] s;
                          Some (fold (\<lambda>i s. set_fwd h0 i None (set_fwd elm i (fwd s h0 i) s)) [newlvl..<lvl s] s) }
                else do { let s = set_fwds elm (\<lambda>s _. head s) [0..<newlvl] s;
                          let s = (case head s of None \<Rightarrow> s | Some h0 \<Rightarrow> set_fwds h0 (\<lambda>_ _. None) [lvl s..<newlvl] s);
                          Some (s\<lparr>lvl := newlvl\<rparr>) });
          let s = (case head s of None \<Rightarrow> s | Some h0 \<Rightarrow> set_prev h0 (Some elm) s);
          let s = (if tail s = None then s\<lparr>tail := Some elm\<rparr> else s);
          let s = s\<lparr>head := Some elm\<rparr>;
          Some (set_fwds elm (\<lambda>_ _. None) [lvl s..<SKLIST_MAX_LEVS] s) }"

subsection \<open>Searching\<close>

text \<open>One level: as long as the next element on it is before \<open>k\<close>.\<close>

partial_function (option) level_walk :: "(addr \<Rightarrow> 'k :: linorder) \<Rightarrow> skiplist \<Rightarrow> 'k \<Rightarrow> nat \<Rightarrow> addr \<Rightarrow> addr option" where
  "level_walk kf s k i x =
     (case fwd s x i of
        None \<Rightarrow> Some x
      | Some y \<Rightarrow> if kf y < k then level_walk kf s k i y else Some x)"

text \<open>All levels below \<open>i\<close> from the top; the last element of each level is kept, as \<^verbatim>\<open>update\<close> keeps it.\<close>

primrec descend :: "(addr \<Rightarrow> 'k :: linorder) \<Rightarrow> skiplist \<Rightarrow> 'k \<Rightarrow> nat \<Rightarrow> addr \<Rightarrow> addr list \<Rightarrow> (addr \<times> addr list) option" where
  "descend kf s k 0 x upd = Some (x, upd)"
| "descend kf s k (Suc i) x upd = do { x \<leftarrow> level_walk kf s k i x; descend kf s k i x (x # upd) }"

definition sk_closestpred :: "(addr \<Rightarrow> 'k :: linorder) \<Rightarrow> skiplist \<Rightarrow> 'k \<Rightarrow> addr option option" where
  "sk_closestpred kf s k =
     (case head s of
        None \<Rightarrow> Some None
      | Some x \<Rightarrow>
          if k \<le> kf x then Some (tail s)
          else do { (x, _) \<leftarrow> descend kf s k (lvl s) x []; Some (Some x) })"

definition search :: "(addr \<Rightarrow> 'k :: linorder) \<Rightarrow> skiplist \<Rightarrow> 'k \<Rightarrow> addr option option" where
  "search kf s k =
     (case head s of
        None \<Rightarrow> Some None
      | Some h0 \<Rightarrow>
          if k < kf h0 then Some None
          else if k = kf h0 then Some (Some h0)
          else do { p \<leftarrow> sk_closestpred kf s k;
                    case p of
                      None \<Rightarrow> Some None
                    | Some x \<Rightarrow> (case fwd s x 0 of
                                  Some y \<Rightarrow> if kf y = k then Some (Some y) else Some None
                                | None \<Rightarrow> Some None) })"

definition sk_closestsucc :: "(addr \<Rightarrow> 'k :: linorder) \<Rightarrow> skiplist \<Rightarrow> 'k \<Rightarrow> addr option option" where
  "sk_closestsucc kf s k =
     (case head s of
        None \<Rightarrow> Some None
      | Some h0 \<Rightarrow>
          if k \<le> kf h0 then Some (Some h0)
          else do { t \<leftarrow> tail s;
                    if k > kf t then Some (Some h0)
                    else do { p \<leftarrow> sk_closestpred kf s k;
                              case p of
                                None \<Rightarrow> Some None
                              | Some x \<Rightarrow> Some (if Some x = tail s then Some h0 else fwd s x 0) } })"

subsection \<open>Insertion and removal\<close>

definition link :: "addr \<Rightarrow> addr list \<Rightarrow> nat \<Rightarrow> skiplist \<Rightarrow> skiplist" where
  "link elm upd newlvl s =
     fold (\<lambda>i s. set_fwd (upd ! i) i (Some elm) (set_fwd elm i (fwd s (upd ! i) i) s)) [0..<newlvl] s"

definition insert_after :: "bool list \<Rightarrow> addr \<Rightarrow> addr \<Rightarrow> addr \<Rightarrow> addr option \<Rightarrow> addr list \<Rightarrow> skiplist \<Rightarrow> skiplist" where
  "insert_after coins elm h0 prev x upd s =
     (let newlvl = rndlvl coins;
          (upd, s) = (if newlvl > lvl s then (upd @ replicate (newlvl - lvl s) h0, s\<lparr>lvl := newlvl\<rparr>) else (upd, s));
          s = link elm upd newlvl s;
          s = set_fwds elm (\<lambda>_ _. None) [newlvl..<SKLIST_MAX_LEVS] s;
          s = (case x of None \<Rightarrow> s\<lparr>tail := Some elm\<rparr> | Some y \<Rightarrow> set_prev y (Some elm) s);
          s = set_prev elm (Some prev) s
      in s\<lparr>sz := sz s + 1\<rparr>)"

definition sk_insert :: "(addr \<Rightarrow> 'k :: linorder) \<Rightarrow> bool list \<Rightarrow> addr \<Rightarrow> skiplist \<Rightarrow> (skiplist \<times> bool) option" where
  "sk_insert kf coins elm s =
     (case head s of
        None \<Rightarrow> do { s \<leftarrow> insert_head coins elm (s\<lparr>sz := sz s + 1\<rparr>); Some (s, True) }
      | Some h0 \<Rightarrow>
          if kf elm < kf h0 then do { s \<leftarrow> insert_head coins elm (s\<lparr>sz := sz s + 1\<rparr>); Some (s, True) }
          else if kf elm = kf h0 then Some (s, False)
          else do { (prev, upd) \<leftarrow> descend kf s (kf elm) (lvl s) h0 [];
                    let x = fwd s prev 0;
                    if (case x of None \<Rightarrow> True | Some y \<Rightarrow> kf y > kf elm)
                    then Some (insert_after coins elm h0 prev x upd s, True)
                    else Some (s, False) })"

function lower :: "nat \<Rightarrow> addr \<Rightarrow> skiplist \<Rightarrow> nat" where
  "lower l h0 s = (if l > 1 \<and> fwd s h0 (l - 1) = None then lower (l - 1) h0 s else l)"
  by pat_completeness auto
termination by (relation "measure (\<lambda>(l, h0, s). l)") auto

declare lower.simps [simp del]

text \<open>The new head takes over the levels of the old one above its own, from the top; the loop variable is
  unsigned, so only the \<^verbatim>\<open>break\<close> ends the loop.\<close>

primrec take_levels :: "addr \<Rightarrow> addr \<Rightarrow> nat \<Rightarrow> skiplist \<Rightarrow> skiplist option" where
  "take_levels h0 nxt 0 s = None"
| "take_levels h0 nxt (Suc i) s =
     (if fwd s h0 i \<noteq> Some nxt then take_levels h0 nxt i (set_fwd nxt i (fwd s h0 i) s) else Some s)"

function unlink :: "addr \<Rightarrow> addr list \<Rightarrow> nat \<Rightarrow> skiplist \<Rightarrow> skiplist" where
  "unlink x upd i s =
     (if i < lvl s \<and> fwd s (upd ! i) i = Some x
      then unlink x upd (i + 1) (set_fwd (upd ! i) i (fwd s x i) s)
      else s)"
  by pat_completeness auto
termination by (relation "measure (\<lambda>(x, upd, i, s). lvl s - i)") (auto simp: set_fwd_def)

declare unlink.simps [simp del]

definition sk_remove :: "(addr \<Rightarrow> 'k :: linorder) \<Rightarrow> skiplist \<Rightarrow> 'k \<Rightarrow> (skiplist \<times> addr option) option" where
  "sk_remove kf s k =
     (case head s of
        None \<Rightarrow> Some (s, None)
      | Some h0 \<Rightarrow>
          if kf h0 = k
          then (let s = s\<lparr>sz := sz s - 1\<rparr>
                in case fwd s h0 0 of
                     None \<Rightarrow> Some (s\<lparr>lvl := 1, head := None, tail := None\<rparr>, Some h0)
                   | Some nxt \<Rightarrow>
                       do { s \<leftarrow> take_levels h0 nxt (lvl s) s;
                            let s = set_prev nxt None s;
                            let s = s\<lparr>head := Some nxt\<rparr>;
                            Some (s\<lparr>lvl := lower (lvl s) nxt s\<rparr>, Some h0) })
          else do { (prev, upd) \<leftarrow> descend kf s k (lvl s) h0 [];
                    case fwd s prev 0 of
                      None \<Rightarrow> Some (s, None)
                    | Some x \<Rightarrow>
                        if kf x = k
                        then (let nxt = fwd s x 0;
                                  s = unlink x upd 0 s;
                                  s = s\<lparr>lvl := lower (lvl s) h0 s\<rparr>;
                                  s = (case nxt of Some n \<Rightarrow> set_prev n (Some prev) s | None \<Rightarrow> s\<lparr>tail := Some prev\<rparr>)
                              in Some (s\<lparr>sz := sz s - 1\<rparr>, Some x))
                        else Some (s, None) })"

definition sk_next :: "skiplist \<Rightarrow> addr \<Rightarrow> addr option" where
  "sk_next s elm = fwd s elm 0"

definition sk_prev :: "skiplist \<Rightarrow> addr \<Rightarrow> addr option" where
  "sk_prev s elm = previous (heap s elm)"

partial_function (option) traverse_from :: "skiplist \<Rightarrow> addr option \<Rightarrow> addr list option" where
  "traverse_from s p = (case p of None \<Rightarrow> Some [] | Some x \<Rightarrow> do { xs \<leftarrow> traverse_from s (fwd s x 0); Some (x # xs) })"

partial_function (option) rtraverse_from :: "skiplist \<Rightarrow> addr option \<Rightarrow> addr list option" where
  "rtraverse_from s p = (case p of None \<Rightarrow> Some [] | Some x \<Rightarrow> do { xs \<leftarrow> rtraverse_from s (previous (heap s x)); Some (x # xs) })"

text \<open>The elements a callback is called on.\<close>

definition traverse :: "skiplist \<Rightarrow> addr list option" where
  "traverse s = traverse_from s (head s)"

definition rtraverse :: "skiplist \<Rightarrow> addr list option" where
  "rtraverse s = rtraverse_from s (tail s)"

text \<open>The check of the representation. The pointer that runs along a level is not set back to the head for the next
  level; \<open>None\<close> is an assertion that fails.\<close>

partial_function (option) repok_level :: "(addr \<Rightarrow> 'k :: linorder) \<Rightarrow> skiplist \<Rightarrow> nat \<Rightarrow> addr option \<Rightarrow> unit option" where
  "repok_level kf s i p =
     (case p of
        None \<Rightarrow> Some ()
      | Some x \<Rightarrow>
          (case fwd s x i of
             None \<Rightarrow> if i = 0 \<and> Some x \<noteq> tail s then None else repok_level kf s i None
           | Some y \<Rightarrow>
               if kf x \<ge> kf y \<or> i = 0 \<and> previous (heap s y) \<noteq> Some x then None else repok_level kf s i (Some y)))"

primrec repok_levels :: "(addr \<Rightarrow> 'k :: linorder) \<Rightarrow> skiplist \<Rightarrow> nat \<Rightarrow> addr option \<Rightarrow> unit option" where
  "repok_levels kf s 0 p = Some ()"
| "repok_levels kf s (Suc i) p = do { _ \<leftarrow> repok_level kf s i p; repok_levels kf s i None }"

definition repok :: "(addr \<Rightarrow> 'k :: linorder) \<Rightarrow> skiplist \<Rightarrow> unit option" where
  "repok kf s =
     (case head s of
        None \<Rightarrow> if lvl s = 1 \<and> tail s = None then Some () else None
      | Some p \<Rightarrow> if previous (heap s p) = None then repok_levels kf s (lvl s) (Some p) else None)"

end
