(* ===== verification/Skiplist_Correct.thy ===== *)
theory Skiplist_Correct
  imports Skiplist
begin

text \<open>
  The skip list implements a sorted list. The invariant gives each element a height: it is linked on the levels
  below its height, on each of them to the next element that is high enough, and its remaining pointers are null;
  the head is as high as the list.
\<close>

subsection \<open>The heap\<close>

definition heap_ok :: "skiplist \<Rightarrow> bool" where
  "heap_ok s \<longleftrightarrow> (\<forall>x. length (forward (heap s x)) = 16)"

lemma set_fwd_simps [simp]:
  "head (set_fwd x i v s) = head s" "tail (set_fwd x i v s) = tail s" "sz (set_fwd x i v s) = sz s"
  "lvl (set_fwd x i v s) = lvl s" "previous (heap (set_fwd x i v s) y) = previous (heap s y)"
  "heap_ok (set_fwd x i v s) = heap_ok s"
  by (auto simp: set_fwd_def heap_ok_def)

lemma set_prev_simps [simp]:
  "head (set_prev x v s) = head s" "tail (set_prev x v s) = tail s" "sz (set_prev x v s) = sz s"
  "lvl (set_prev x v s) = lvl s" "fwd (set_prev x v s) y i = fwd s y i" "heap_ok (set_prev x v s) = heap_ok s"
  "previous (heap (set_prev x v s) y) = (if y = x then v else previous (heap s y))"
  by (auto simp: set_prev_def heap_ok_def fwd_def)

lemma update_simps [simp]:
  "fwd (s\<lparr>lvl := l\<rparr>) = fwd s" "fwd (s\<lparr>sz := n\<rparr>) = fwd s" "fwd (s\<lparr>head := p\<rparr>) = fwd s" "fwd (s\<lparr>tail := p\<rparr>) = fwd s"
  "heap_ok (s\<lparr>lvl := l\<rparr>) = heap_ok s" "heap_ok (s\<lparr>sz := n\<rparr>) = heap_ok s" "heap_ok (s\<lparr>head := p\<rparr>) = heap_ok s"
  "heap_ok (s\<lparr>tail := p\<rparr>) = heap_ok s"
  by (auto simp: fwd_def heap_ok_def fun_eq_iff)

lemma lvl_same: "s\<lparr>lvl := lvl s\<rparr> = s"
  by simp

lemma fwd_set_fwd:
  "heap_ok s \<Longrightarrow> i < 16 \<Longrightarrow> fwd (set_fwd x i v s) y j = (if y = x \<and> j = i then v else fwd s y j)"
  by (auto simp: fwd_def set_fwd_def heap_ok_def)

lemma fold_set_fwd_simps [simp]:
  "head (fold (\<lambda>i. set_fwd (x i) i (v i)) is s) = head s" "tail (fold (\<lambda>i. set_fwd (x i) i (v i)) is s) = tail s"
  "sz (fold (\<lambda>i. set_fwd (x i) i (v i)) is s) = sz s" "lvl (fold (\<lambda>i. set_fwd (x i) i (v i)) is s) = lvl s"
  "previous (heap (fold (\<lambda>i. set_fwd (x i) i (v i)) is s) y) = previous (heap s y)"
  "heap_ok (fold (\<lambda>i. set_fwd (x i) i (v i)) is s) = heap_ok s"
  by (induction "is" arbitrary: s) simp_all

lemma fwd_fold_set_fwd:
  "heap_ok s \<Longrightarrow> distinct is \<Longrightarrow> \<forall>i \<in> set is. i < 16 \<Longrightarrow>
     fwd (fold (\<lambda>i. set_fwd (x i) i (v i)) is s) y j = (if j \<in> set is \<and> y = x j then v j else fwd s y j)"
  by (induction "is" arbitrary: s) (auto simp: fwd_set_fwd)

text \<open>The loops of the code are such folds: what they read is not changed by them.\<close>

lemma set_fwds_const: "set_fwds x (\<lambda>_ _. v) is s = fold (\<lambda>i. set_fwd x i v) is s"
  by (simp add: set_fwds_def)

lemma set_fwds_head: "set_fwds x (\<lambda>s _. head s) is s = fold (\<lambda>i. set_fwd x i (head s)) is s"
proof -
  have "head s' = head s \<Longrightarrow> fold (\<lambda>i s. set_fwd x i (head s) s) is s' = fold (\<lambda>i. set_fwd x i (head s)) is s'" for s'
    by (induction "is" arbitrary: s') simp_all
  then show ?thesis by (simp add: set_fwds_def)
qed

text \<open>A loop that moves pointers from \<open>p i\<close> to \<open>e\<close> and leaves \<open>w i\<close> behind.\<close>

definition move :: "addr \<Rightarrow> (nat \<Rightarrow> addr) \<Rightarrow> addr option \<Rightarrow> nat list \<Rightarrow> skiplist \<Rightarrow> skiplist" where
  "move e p w is s = fold (\<lambda>i s. set_fwd (p i) i w (set_fwd e i (fwd s (p i) i) s)) is s"

lemma move_simps [simp]:
  "head (move e p w is s) = head s" "tail (move e p w is s) = tail s" "sz (move e p w is s) = sz s"
  "lvl (move e p w is s) = lvl s" "previous (heap (move e p w is s) y) = previous (heap s y)"
  "heap_ok (move e p w is s) = heap_ok s"
  unfolding move_def by (induction "is" arbitrary: s) simp_all

lemma fwd_move:
  "heap_ok s \<Longrightarrow> distinct is \<Longrightarrow> \<forall>i \<in> set is. i < 16 \<and> p i \<noteq> e \<Longrightarrow>
     fwd (move e p w is s) y j =
       (if j \<in> set is then if y = e then fwd s (p j) j else if y = p j then w else fwd s y j else fwd s y j)"
  unfolding move_def by (induction "is" arbitrary: s) (auto simp: fwd_set_fwd)

lemma move_const: "fold (\<lambda>i s. set_fwd x i w (set_fwd e i (fwd s x i) s)) is s = move e (\<lambda>_. x) w is s"
  by (simp add: move_def)

lemma rnd_from_bounds: "1 \<le> l \<Longrightarrow> l \<le> 16 \<Longrightarrow> 1 \<le> rnd_from coins l \<and> rnd_from coins l \<le> 16"
  by (induction coins arbitrary: l) (simp_all add: SKLIST_MAX_LEVS_def)

lemma rndlvl_bounds: "1 \<le> rndlvl coins" "rndlvl coins \<le> 16"
  using rnd_from_bounds [of 1 coins] by (simp_all add: rndlvl_def)

subsection \<open>The invariant\<close>

definition links :: "skiplist \<Rightarrow> (addr \<Rightarrow> nat) \<Rightarrow> addr \<Rightarrow> addr list \<Rightarrow> bool" where
  "links s h x suf \<longleftrightarrow> (\<forall>i < 16. fwd s x i = (if i < h x then find (\<lambda>y. i < h y) suf else None))"

text \<open>The elements \<open>as\<close>, followed by \<open>bs\<close>, after \<open>p\<close>.\<close>

primrec chain :: "skiplist \<Rightarrow> (addr \<Rightarrow> nat) \<Rightarrow> addr option \<Rightarrow> addr list \<Rightarrow> addr list \<Rightarrow> bool" where
  "chain s h p [] bs \<longleftrightarrow> True"
| "chain s h p (x # as) bs \<longleftrightarrow> links s h x (as @ bs) \<and> previous (heap s x) = p \<and> chain s h (Some x) as bs"

definition first :: "addr list \<Rightarrow> addr option" where
  "first xs = (case xs of [] \<Rightarrow> None | x # _ \<Rightarrow> Some x)"

definition final :: "addr list \<Rightarrow> addr option" where
  "final xs = (if xs = [] then None else Some (last xs))"

lemma first_simps [simp]: "first [] = None" "first (x # xs) = Some x" "first (xs @ ys) = (if xs = [] then first ys else first xs)"
  by (simp_all add: first_def split: list.split)

lemma final_simps [simp]: "final [] = None" "final (xs @ [x]) = Some x" "final (xs @ ys) = (if ys = [] then final xs else final ys)"
  "final (x # xs) = (if xs = [] then Some x else final xs)"
  by (simp_all add: final_def)

lemma ends_None [simp]: "first xs = None \<longleftrightarrow> xs = []" "final xs = None \<longleftrightarrow> xs = []"
  by (simp_all add: first_def final_def split: list.split)

definition keys_inc :: "(addr \<Rightarrow> 'k :: linorder) \<Rightarrow> addr list \<Rightarrow> bool" where
  "keys_inc kf xs \<longleftrightarrow> sorted_wrt (\<lambda>x y. kf x < kf y) xs"

definition skip_inv :: "(addr \<Rightarrow> 'k :: linorder) \<Rightarrow> skiplist \<Rightarrow> (addr \<Rightarrow> nat) \<Rightarrow> addr list \<Rightarrow> bool" where
  "skip_inv kf s h xs \<longleftrightarrow>
     heap_ok s \<and> keys_inc kf xs \<and> head s = first xs \<and> tail s = final xs \<and> sz s = length xs
     \<and> 1 \<le> lvl s \<and> lvl s \<le> 16 \<and> (\<forall>x \<in> set xs. 0 < h x \<and> h x \<le> lvl s)
     \<and> (if xs = [] then lvl s = 1 else h (hd xs) = lvl s) \<and> chain s h None xs []"

definition sorted_elems :: "(addr \<Rightarrow> 'k :: linorder) \<Rightarrow> skiplist \<Rightarrow> addr list \<Rightarrow> bool" where
  "sorted_elems kf s xs \<longleftrightarrow> (\<exists>h. skip_inv kf s h xs)"

lemma chain_append:
  "chain s h p (as @ cs) bs \<longleftrightarrow> chain s h p as (cs @ bs) \<and> chain s h (if as = [] then p else final as) cs bs"
  by (induction as arbitrary: p) auto

lemma chain_nth: "chain s h p (as @ x # cs) bs \<Longrightarrow> links s h x (cs @ bs)"
  by (simp add: chain_append)

lemma keys_inc_append:
  "keys_inc kf (xs @ ys) \<longleftrightarrow> keys_inc kf xs \<and> keys_inc kf ys \<and> (\<forall>x \<in> set xs. \<forall>y \<in> set ys. kf x < kf y)"
  by (simp add: keys_inc_def sorted_wrt_append)

lemma keys_inc_Cons: "keys_inc kf (x # xs) \<longleftrightarrow> (\<forall>y \<in> set xs. kf x < kf y) \<and> keys_inc kf xs"
  by (simp add: keys_inc_def)

lemma keys_inc_distinct: "keys_inc kf xs \<Longrightarrow> distinct xs"
  by (induction xs) (auto simp: keys_inc_def)

lemma skip_inv_distinct: "skip_inv kf s h xs \<Longrightarrow> distinct xs"
  using keys_inc_distinct [of kf xs] by (simp add: skip_inv_def)

lemma find_split: "find P xs = Some y \<Longrightarrow> \<exists>a b. xs = a @ y # b \<and> P y \<and> (\<forall>z \<in> set a. \<not> P z)"
proof (induction xs)
  case (Cons x xs)
  then show ?case
  proof (cases "P x")
    case False
    then obtain a b where "xs = a @ y # b \<and> P y \<and> (\<forall>z \<in> set a. \<not> P z)" using Cons by auto
    then show ?thesis using False by (intro exI [of _ "x # a"] exI [of _ b]) simp
  qed (auto intro: exI [of _ "[]"])
qed simp

lemma find_append: "find P (xs @ ys) = (case find P xs of Some y \<Rightarrow> Some y | None \<Rightarrow> find P ys)"
  by (induction xs) simp_all

lemma find_all: "\<forall>x \<in> set xs. P x \<Longrightarrow> find P xs = first xs"
  by (cases xs) simp_all

lemma find_cong_set: "(\<And>x. x \<in> set xs \<Longrightarrow> P x = Q x) \<Longrightarrow> find P xs = find Q xs"
  by (induction xs) auto

lemma links_cong:
  "(\<And>i. i < 16 \<Longrightarrow> fwd s' x i = fwd s x i) \<Longrightarrow> (\<And>y. y \<in> insert x (set suf) \<Longrightarrow> h' y = h y) \<Longrightarrow> links s' h' x suf = links s h x suf"
  unfolding links_def by (simp cong: find_cong_set)

lemma chain_cong:
  "(\<And>x i. x \<in> set as \<Longrightarrow> i < 16 \<Longrightarrow> fwd s' x i = fwd s x i) \<Longrightarrow>
   (\<And>x. x \<in> set as \<Longrightarrow> previous (heap s' x) = previous (heap s x)) \<Longrightarrow>
   (\<And>x. x \<in> set (as @ bs) \<Longrightarrow> h' x = h x) \<Longrightarrow> chain s' h' p as bs = chain s h p as bs"
proof (induction as arbitrary: p)
  case (Cons x as)
  have "links s' h' x (as @ bs) = links s h x (as @ bs)" by (rule links_cong) (use Cons.prems in auto)
  then show ?case using Cons by simp
qed simp

lemma split_keys: "keys_inc kf xs \<Longrightarrow> xs = filter (\<lambda>x. kf x < k) xs @ filter (\<lambda>x. k \<le> kf x) xs"
proof (induction xs)
  case (Cons x xs)
  then have "kf x < k \<or> filter (\<lambda>y. kf y < k) xs = []" by (fastforce simp: keys_inc_def filter_empty_conv)
  moreover have "k \<le> kf x \<Longrightarrow> filter (\<lambda>y. k \<le> kf y) xs = xs" using Cons.prems by (intro filter_True) (fastforce simp: keys_inc_def)
  ultimately show ?case using Cons by (auto simp: keys_inc_def not_le)
qed simp

subsection \<open>Searching\<close>

lemma level_walk_spec:
  assumes "chain s h None xs []" "keys_inc kf xs" "i < 16"
  shows "xs = pre @ x # suf \<Longrightarrow> i < h x \<Longrightarrow> kf x < k \<Longrightarrow>
    level_walk kf s k i x = Some (last (x # filter (\<lambda>y. i < h y \<and> kf y < k) suf))"
proof (induction "length suf" arbitrary: pre x suf rule: less_induct)
  case less
  have f: "fwd s x i = find (\<lambda>y. i < h y) suf"
    using chain_nth [of s h None pre x suf "[]"] assms(1,3) less.prems by (simp add: links_def)
  show ?case
  proof (cases "find (\<lambda>y. i < h y) suf")
    case None
    then have "filter (\<lambda>y. i < h y \<and> kf y < k) suf = []" by (auto simp: find_None_iff filter_empty_conv)
    then show ?thesis using f None by (subst level_walk.simps) simp
  next
    case (Some y)
    then obtain a b where ab: "suf = a @ y # b" "i < h y" "\<forall>z \<in> set a. \<not> i < h z" using find_split by fastforce
    have a: "filter (\<lambda>y. i < h y \<and> kf y < k) a = []" using ab(3) by (auto simp: filter_empty_conv)
    show ?thesis
    proof (cases "kf y < k")
      case True
      then show ?thesis
        using less.hyps [of b "pre @ x # a" y] less.prems ab a f Some by (subst level_walk.simps) simp
    next
      case False
      have "filter (\<lambda>y. i < h y \<and> kf y < k) b = []"
        using assms(2) False less.prems(1) ab(1) by (fastforce simp: filter_empty_conv keys_inc_append keys_inc_Cons)
      then show ?thesis using False ab a f Some by (subst level_walk.simps) simp
    qed
  qed
qed

lemma level_walk_top:
  assumes "chain s h None (pre @ suf) []" "keys_inc kf (pre @ suf)" "i < 16"
    "\<forall>x \<in> set pre. kf x < k" "\<forall>x \<in> set suf. k \<le> kf x" "x \<in> set pre" "i < h x"
  shows "level_walk kf s k i x = Some (last (filter (\<lambda>y. i < h y) pre))"
proof -
  obtain a b where ab: "pre = a @ x # b" using assms(6) by (meson split_list)
  have "filter (\<lambda>y. i < h y \<and> kf y < k) suf = []" using assms(5) by (auto simp: filter_empty_conv)
  moreover have "filter (\<lambda>y. i < h y \<and> kf y < k) b = filter (\<lambda>y. i < h y) b" using assms(4) ab by (intro filter_cong) auto
  ultimately show ?thesis
    using level_walk_spec [OF assms(1-3), of a x "b @ suf" k] assms(4,6,7) ab by simp
qed

lemma descend_spec:
  assumes "chain s h None (pre @ suf) []" "keys_inc kf (pre @ suf)"
    "\<forall>x \<in> set pre. kf x < k" "\<forall>x \<in> set suf. k \<le> kf x" "\<forall>x \<in> set pre. 0 < h x"
  shows "n \<le> 16 \<Longrightarrow> x \<in> set pre \<Longrightarrow> n \<le> h x \<Longrightarrow>
    descend kf s k n x upd = Some (if n = 0 then x else last pre, map (\<lambda>i. last (filter (\<lambda>y. i < h y) pre)) [0..<n] @ upd)"
proof (induction n arbitrary: x upd)
  case (Suc n)
  let ?y = "last (filter (\<lambda>y. n < h y) pre)"
  have "filter (\<lambda>y. n < h y) pre \<noteq> []" using Suc.prems by (auto simp: filter_empty_conv Suc_le_eq)
  then have "?y \<in> set (filter (\<lambda>y. n < h y) pre)" by (rule last_in_set)
  then have y: "?y \<in> set pre" "n < h ?y" by auto
  have "level_walk kf s k n x = Some ?y" using level_walk_top [OF assms(1,2) _ assms(3,4)] Suc.prems by simp
  moreover have "filter (\<lambda>y. 0 < h y) pre = pre" using assms(5) by (intro filter_True)
  ultimately show ?case using Suc.IH [of ?y "?y # upd"] Suc.prems(1) y by auto
qed simp

text \<open>What the positions around a key are: before it and from it on, with wrapping.\<close>

definition elems_below :: "(addr \<Rightarrow> 'k :: linorder) \<Rightarrow> 'k \<Rightarrow> addr list \<Rightarrow> addr list" where
  "elems_below kf k xs = filter (\<lambda>x. kf x < k) xs"

definition elems_from :: "(addr \<Rightarrow> 'k :: linorder) \<Rightarrow> 'k \<Rightarrow> addr list \<Rightarrow> addr list" where
  "elems_from kf k xs = filter (\<lambda>x. k \<le> kf x) xs"

lemma descend_inv:
  assumes "skip_inv kf s h xs" "xs \<noteq> []" "kf (hd xs) < k"
  shows "descend kf s k (lvl s) (hd xs) [] =
      Some (last (elems_below kf k xs), map (\<lambda>i. last (filter (\<lambda>y. i < h y) (elems_below kf k xs))) [0..<lvl s])"
    and "elems_below kf k xs \<noteq> []"
    and "fwd s (last (elems_below kf k xs)) 0 = first (elems_from kf k xs)"
proof -
  let ?pre = "elems_below kf k xs" and ?suf = "elems_from kf k xs"
  have xs: "xs = ?pre @ ?suf" using split_keys [of kf xs k] assms(1) by (simp add: skip_inv_def elems_below_def elems_from_def)
  have hd: "hd xs \<in> set ?pre" using assms(2,3) by (auto simp: elems_below_def)
  then show ne: "?pre \<noteq> []" by auto
  have ch: "chain s h None (?pre @ ?suf) []" and ki: "keys_inc kf (?pre @ ?suf)" and h0: "\<forall>x \<in> set ?pre. 0 < h x"
    and l: "lvl s \<le> 16" "1 \<le> lvl s" "lvl s \<le> h (hd xs)" and h1: "\<forall>x \<in> set xs. 0 < h x"
    using assms(1,2) xs by (auto simp: skip_inv_def elems_below_def)
  have k: "\<forall>x \<in> set ?pre. kf x < k" "\<forall>x \<in> set ?suf. k \<le> kf x" by (auto simp: elems_below_def elems_from_def)
  show "descend kf s k (lvl s) (hd xs) [] = Some (last ?pre, map (\<lambda>i. last (filter (\<lambda>y. i < h y) ?pre)) [0..<lvl s])"
    using descend_spec [OF ch ki k h0 l(1) hd l(3), of "[]"] l(2) by simp
  have "?pre = butlast ?pre @ [last ?pre]" using ne by simp
  then have "chain s h None (butlast ?pre @ last ?pre # ?suf) []" using ch by (metis append.assoc append_Cons append_Nil)
  from chain_nth [OF this] have "fwd s (last ?pre) 0 = find (\<lambda>y. 0 < h y) ?suf"
    using h0 ne by (simp add: links_def)
  also have "\<dots> = first ?suf" using h1 by (intro find_all) (auto simp: elems_from_def)
  finally show "fwd s (last ?pre) 0 = first ?suf" .
qed

lemma below_from_hd:
  assumes "keys_inc kf xs" "xs \<noteq> []"
  shows "kf (hd xs) < k \<longleftrightarrow> elems_below kf k xs \<noteq> []" and "k \<le> kf (hd xs) \<Longrightarrow> elems_from kf k xs = xs"
    and "kf (last xs) < k \<longleftrightarrow> elems_from kf k xs = []"
proof -
  obtain x ys where x: "xs = x # ys" using assms(2) by (cases xs) auto
  show "kf (hd xs) < k \<longleftrightarrow> elems_below kf k xs \<noteq> []"
    using assms(1) unfolding x keys_inc_Cons elems_below_def filter_empty_conv by fastforce
  show "k \<le> kf (hd xs) \<Longrightarrow> elems_from kf k xs = xs"
    using assms(1) unfolding x keys_inc_Cons elems_from_def by (intro filter_True) fastforce
  obtain y zs where y: "xs = zs @ [y]" using assms(2) by (cases xs rule: rev_cases) auto
  show "kf (last xs) < k \<longleftrightarrow> elems_from kf k xs = []"
    using assms(1) unfolding y keys_inc_append elems_from_def filter_empty_conv by fastforce
qed

lemma closestpred_inv:
  assumes "skip_inv kf s h xs"
  shows "sk_closestpred kf s k = Some (if elems_below kf k xs = [] then final xs else final (elems_below kf k xs))"
proof (cases "xs = []")
  case True
  then show ?thesis using assms by (simp add: sk_closestpred_def skip_inv_def elems_below_def)
next
  case False
  have hd: "head s = Some (hd xs)" "tail s = final xs" "keys_inc kf xs" using assms False by (auto simp: skip_inv_def first_def split: list.split)
  note b = below_from_hd(1) [OF hd(3) False, of k]
  show ?thesis using hd b descend_inv(1) [OF assms False, of k] by (auto simp: sk_closestpred_def final_def)
qed

lemma final_below_not_last:
  assumes "keys_inc kf xs" "elems_from kf k xs \<noteq> []" "elems_below kf k xs \<noteq> []"
  shows "last (elems_below kf k xs) \<noteq> last xs"
proof -
  have "xs \<noteq> []" using assms(3) by (auto simp: elems_below_def)
  then have "last xs \<notin> set (elems_below kf k xs)" using below_from_hd(3) [OF assms(1), of k] assms(2) by (auto simp: elems_below_def)
  then show ?thesis using last_in_set [OF assms(3)] by auto
qed

lemma closestsucc_inv:
  assumes "skip_inv kf s h xs"
  shows "sk_closestsucc kf s k = Some (if elems_from kf k xs = [] then first xs else first (elems_from kf k xs))"
proof (cases "xs = []")
  case True
  then show ?thesis using assms by (simp add: sk_closestsucc_def skip_inv_def elems_from_def)
next
  case False
  have hd: "head s = Some (hd xs)" "tail s = Some (last xs)" "keys_inc kf xs" "first xs = Some (hd xs)"
    using assms False by (auto simp: skip_inv_def first_def final_def split: list.split)
  note b = below_from_hd [OF hd(3) False, of k]
  show ?thesis
  proof (cases "k \<le> kf (hd xs)")
    case True
    then show ?thesis using hd b False by (simp add: sk_closestsucc_def)
  next
    case gt: False
    then have ne: "elems_below kf k xs \<noteq> []" using b(1) by (simp add: not_le)
    show ?thesis
    proof (cases "elems_from kf k xs = []")
      case True
      then show ?thesis using gt hd b(3) by (simp add: sk_closestsucc_def)
    next
      case fr: False
      have "sk_closestpred kf s k = Some (Some (last (elems_below kf k xs)))"
        using closestpred_inv [OF assms, of k] ne by (simp add: final_def)
      then show ?thesis
        using gt [unfolded not_le] gt fr hd b(3) final_below_not_last [OF hd(3) fr ne] descend_inv(3) [OF assms False, of k]
        by (simp add: sk_closestsucc_def)
    qed
  qed
qed

lemma find_key_from:
  assumes "keys_inc kf xs"
  shows "find (\<lambda>x. kf x = k) xs = (case elems_from kf k xs of [] \<Rightarrow> None | y # _ \<Rightarrow> if kf y = k then Some y else None)"
  using assms
proof (induction xs)
  case (Cons x xs)
  have "find (\<lambda>x. kf x = k) xs = None" if "k < kf x" using Cons.prems that by (auto simp: find_None_iff keys_inc_Cons)
  then show ?case using Cons by (auto simp: elems_from_def keys_inc_Cons not_le less_imp_neq dest: order.not_eq_order_implies_strict)
qed (simp add: elems_from_def)

lemma search_inv:
  assumes "skip_inv kf s h xs"
  shows "search kf s k = Some (find (\<lambda>x. kf x = k) xs)"
proof (cases "xs = []")
  case True
  then show ?thesis using assms by (simp add: search_def skip_inv_def)
next
  case False
  have hd: "head s = Some (hd xs)" "keys_inc kf xs" using assms False by (auto simp: skip_inv_def first_def split: list.split)
  note b = below_from_hd [OF hd(2) False, of k] and f = find_key_from [OF hd(2), of k]
  obtain x ys where x: "xs = x # ys" using False by (cases xs) auto
  show ?thesis
  proof (cases "kf (hd xs) < k")
    case True
    then have "sk_closestpred kf s k = Some (Some (last (elems_below kf k xs)))"
      using closestpred_inv [OF assms, of k] b(1) by (simp add: final_def)
    then show ?thesis
      using hd True f descend_inv(3) [OF assms False True] by (auto simp: search_def first_def split: list.split)
  next
    case False
    then show ?thesis using hd b(2) f x by (auto simp: search_def)
  qed
qed

lemma traverse_chain: "chain s h p as [] \<Longrightarrow> \<forall>x \<in> set as. 0 < h x \<Longrightarrow> traverse_from s (first as) = Some as"
proof (induction as arbitrary: p)
  case (Cons x as)
  have "fwd s x 0 = first as" using Cons.prems find_all [of as "\<lambda>y. 0 < h y"] by (simp add: links_def)
  moreover have "traverse_from s (first as) = Some as" using Cons by auto
  ultimately show ?case by (subst traverse_from.simps) simp
qed (subst traverse_from.simps, simp)

lemma rtraverse_chain: "chain s h None as bs \<Longrightarrow> rtraverse_from s (final as) = Some (rev as)"
proof (induction as arbitrary: bs rule: rev_induct)
  case (snoc x as)
  then have "previous (heap s x) = final as" by (auto simp: chain_append)
  moreover have "rtraverse_from s (final as) = Some (rev as)" using snoc by (auto simp: chain_append)
  ultimately show ?case by (subst rtraverse_from.simps) simp
qed (subst rtraverse_from.simps, simp)

lemma neighbours:
  assumes "skip_inv kf s h (as @ x # bs)"
  shows "sk_next s x = first bs" "sk_prev s x = final as"
proof -
  have "\<forall>y \<in> set bs. 0 < h y" "0 < h x" "chain s h None (as @ x # bs) []" using assms by (auto simp: skip_inv_def)
  then show "sk_next s x = first bs" "sk_prev s x = final as"
    using find_all [of bs "\<lambda>y. 0 < h y"] by (auto simp: sk_next_def sk_prev_def chain_append links_def)
qed

subsection \<open>Insertion\<close>

lemma find_heights_None: "\<forall>y \<in> set ys. h y \<le> (l :: nat) \<Longrightarrow> l \<le> i \<Longrightarrow> find (\<lambda>y. i < h y) ys = None"
  by (fastforce simp: find_None_iff)

text \<open>The height of the head is free as long as no other element is higher.\<close>

lemma set_height:
  assumes "skip_inv kf s h (x # ys)" "1 \<le> l" "l \<le> 16" "\<forall>y \<in> set ys. h y \<le> l"
  shows "skip_inv kf (s\<lparr>lvl := l\<rparr>) (h(x := l)) (x # ys)"
proof -
  have x: "x \<notin> set ys" "\<forall>y \<in> set ys. h y \<le> h x" "h x = lvl s"
    using assms(1) keys_inc_distinct [of kf "x # ys"] by (auto simp: skip_inv_def)
  have "links s h x ys" "chain s h (Some x) ys []" "previous (heap s x) = None" using assms(1) by (auto simp: skip_inv_def)
  moreover have "find (\<lambda>y. i < (if y = x then l else h y)) ys = find (\<lambda>y. i < h y) ys" for i
    using x(1) by (intro find_cong_set) auto
  ultimately have "links (s\<lparr>lvl := l\<rparr>) (h(x := l)) x ys"
    using find_heights_None [OF x(2)] find_heights_None [OF assms(4)] by (auto simp: links_def not_less)
  moreover have "chain (s\<lparr>lvl := l\<rparr>) (h(x := l)) (Some x) ys [] = chain s h (Some x) ys []"
    using x(1) by (intro chain_cong) auto
  ultimately show ?thesis using assms \<open>chain s h (Some x) ys []\<close> \<open>previous (heap s x) = None\<close>
    by (auto simp: skip_inv_def)
qed

lemma insert_head_heap:
  assumes "heap_ok s" "head s \<noteq> Some elm" "1 \<le> lvl s" "lvl s \<le> 16" "head s = None \<Longrightarrow> lvl s = 1"
    "\<And>x j. head s = Some x \<Longrightarrow> lvl s \<le> j \<Longrightarrow> j < 16 \<Longrightarrow> fwd s x j = None"
    and n_def: "n = rndlvl coins"
  obtains s' where "insert_head coins elm s = Some s'" "heap_ok s'" "head s' = Some elm"
    "tail s' = (if tail s = None then Some elm else tail s)" "sz s' = sz s" "lvl s' = max (lvl s) n"
    "\<And>y j. j < 16 \<Longrightarrow> fwd s' y j =
       (if y = elm then if j < n then head s else if j < lvl s then (case head s of None \<Rightarrow> None | Some x \<Rightarrow> fwd s x j) else None
        else if Some y = head s \<and> n \<le> j then None else fwd s y j)"
    "\<And>y. previous (heap s' y) = (if Some y = head s then Some elm else if y = elm then None else previous (heap s y))"
proof -
  have n: "1 \<le> n" "n \<le> 16" using rndlvl_bounds by (simp_all add: n_def)
  show thesis
  proof (cases "n < lvl s")
    case True
    then obtain x where x: "head s = Some x" using assms(5) n(1) by (cases "head s") auto
    let ?s1 = "fold (\<lambda>i. set_fwd elm i (Some x)) [0..<n] (set_prev elm None s)"
    let ?s2 = "move elm (\<lambda>_. x) None [n..<lvl s] ?s1"
    let ?s3 = "set_prev x (Some elm) ?s2"
    let ?s4 = "(if tail s = None then ?s3\<lparr>tail := Some elm\<rparr> else ?s3)\<lparr>head := Some elm\<rparr>"
    let ?s5 = "fold (\<lambda>i. set_fwd elm i None) [lvl s..<16] ?s4"
    have "insert_head coins elm s = Some ?s5"
      using True x by (simp add: insert_head_def Let_def set_fwds_const SKLIST_MAX_LEVS_def move_const flip: n_def)
    then show ?thesis
      using True x n assms by (intro that [of ?s5]) (auto simp: fwd_fold_set_fwd fwd_move)
  next
    case False
    let ?s1 = "fold (\<lambda>i. set_fwd elm i (head s)) [0..<n] (set_prev elm None s)"
    let ?s2 = "(case head s of None \<Rightarrow> ?s1 | Some x \<Rightarrow> fold (\<lambda>i. set_fwd x i None) [lvl s..<n] ?s1)\<lparr>lvl := n\<rparr>"
    let ?s3 = "(case head s of None \<Rightarrow> ?s2 | Some x \<Rightarrow> set_prev x (Some elm) ?s2)"
    let ?s4 = "(if tail s = None then ?s3\<lparr>tail := Some elm\<rparr> else ?s3)\<lparr>head := Some elm\<rparr>"
    let ?s5 = "fold (\<lambda>i. set_fwd elm i None) [n..<16] ?s4"
    have "insert_head coins elm s = Some ?s5"
      using False set_fwds_head [of elm "[0..<n]" "set_prev elm None s"]
      by (cases "head s") (simp_all add: insert_head_def Let_def set_fwds_const SKLIST_MAX_LEVS_def flip: n_def)
    then show ?thesis
      using False n assms by (intro that [of ?s5]) (auto simp: fwd_fold_set_fwd split: option.splits)
  qed
qed

lemma insert_head_inv:
  assumes "skip_inv kf s h xs" "elm \<notin> set xs" "\<forall>x \<in> set xs. kf elm < kf x"
  shows "\<exists>s' h'. insert_head coins elm (s\<lparr>sz := sz s + 1\<rparr>) = Some s' \<and> skip_inv kf s' h' (elm # xs)"
proof -
  let ?s = "s\<lparr>sz := sz s + 1\<rparr>" and ?n = "rndlvl coins"
  note inv = assms(1) [unfolded skip_inv_def]
  have n: "0 < ?n" "?n \<le> 16" using rndlvl_bounds [of coins] by simp_all
  have high: "fwd s x j = None" if "head s = Some x" "lvl s \<le> j" "j < 16" for x j
    using that inv by (cases xs) (auto simp: links_def)
  have pr: "heap_ok ?s" "head ?s \<noteq> Some elm" "1 \<le> lvl ?s" "lvl ?s \<le> 16" using inv assms(2) by (cases xs, auto)+
  have "head ?s = None \<Longrightarrow> lvl ?s = 1" "head ?s = Some x \<Longrightarrow> lvl ?s \<le> j \<Longrightarrow> j < 16 \<Longrightarrow> fwd ?s x j = None" for x j
    using inv high by (cases xs, auto)+
  from insert_head_heap [OF pr this refl, of coins] obtain s' where s':
    "insert_head coins elm ?s = Some s'" "heap_ok s'" "head s' = Some elm"
    "tail s' = (if tail ?s = None then Some elm else tail ?s)" "sz s' = sz ?s" "lvl s' = max (lvl ?s) ?n"
    and f: "\<And>y j. j < 16 \<Longrightarrow> fwd s' y j =
       (if y = elm then if j < ?n then head ?s else if j < lvl ?s then (case head ?s of None \<Rightarrow> None | Some x \<Rightarrow> fwd ?s x j) else None
        else if Some y = head ?s \<and> ?n \<le> j then None else fwd ?s y j)"
    and p: "\<And>y. previous (heap s' y) = (if Some y = head ?s then Some elm else if y = elm then None else previous (heap ?s y))"
    by blast
  note f = f [simplified] and p = p [simplified] and s' = s' [simplified]
  show ?thesis
  proof (cases xs)
    case Nil
    have "skip_inv kf s' (h(elm := lvl s')) [elm]"
      using s' f p inv Nil n by (auto simp: skip_inv_def links_def keys_inc_def)
    then show ?thesis using s'(1) Nil by auto
  next
    case (Cons x ys)
    let ?h = "h(x := ?n, elm := max (lvl s) ?n)"
    have x: "x \<noteq> elm" "x \<notin> set ys" "elm \<notin> set ys" using Cons assms(2) inv keys_inc_distinct [of kf xs] by auto
    have l: "links s h x ys" "h x = lvl s" "chain s h (Some x) ys []" "head s = Some x" "\<forall>y \<in> set ys. h y \<le> lvl s"
      using inv Cons by auto
    have fi: "find (\<lambda>y. i < ?h y) ys = find (\<lambda>y. i < h y) ys" for i using x by (intro find_cong_set) auto
    have "chain s' ?h (Some x) ys [] = chain s h (Some x) ys []" using x l(4) f p by (intro chain_cong) auto
    moreover have "links s' ?h x ys"
      using l f x(1) find_heights_None [OF l(5)] unfolding links_def fi by (auto simp: not_less)
    moreover have "links s' ?h elm xs" using l f x(1) unfolding links_def Cons find.simps fi by auto
    ultimately have "chain s' ?h None (elm # xs) []" using Cons p l(3,4) x(1) by auto
    moreover have "\<forall>y \<in> set (elm # xs). 0 < ?h y \<and> ?h y \<le> lvl s'" using inv s'(6) n Cons x by (auto simp: le_max_iff_disj)
    ultimately have "skip_inv kf s' ?h (elm # xs)"
      using s' inv n assms(3) Cons by (auto simp: skip_inv_def keys_inc_Cons)
    then show ?thesis using s'(1) by auto
  qed
qed

lemma chainI:
  "(\<And>a x b. as = a @ x # b \<Longrightarrow> links s h x (b @ bs) \<and> previous (heap s x) = (if a = [] then p else final a)) \<Longrightarrow> chain s h p as bs"
proof (induction as arbitrary: p)
  case (Cons x as)
  have "chain s h (Some x) as bs"
  proof (rule Cons.IH)
    fix a y b
    assume "as = a @ y # b"
    then show "links s h y (b @ bs) \<and> previous (heap s y) = (if a = [] then Some x else final a)"
      using Cons.prems [of "x # a" y b] by auto
  qed
  then show ?case using Cons.prems [of "[]" x as] by simp
qed simp

text \<open>The last element of \<open>pre\<close> that is high enough for level \<open>i\<close>.\<close>

definition last_high :: "(addr \<Rightarrow> nat) \<Rightarrow> addr list \<Rightarrow> nat \<Rightarrow> addr" where
  "last_high h pre i = last (filter (\<lambda>y. i < h y) pre)"

lemma last_high_iff:
  assumes "distinct (a @ x # b)" "\<exists>y \<in> set (a @ x # b). i < h y"
  shows "last_high h (a @ x # b) i = x \<longleftrightarrow> i < h x \<and> find (\<lambda>y. i < h y) b = None"
proof (cases "filter (\<lambda>y. i < h y) b = []")
  case True
  then have b: "find (\<lambda>y. i < h y) b = None" by (auto simp: find_None_iff filter_empty_conv)
  show ?thesis
  proof (cases "i < h x")
    case False
    then have "filter (\<lambda>y. i < h y) a \<noteq> []" using assms(2) True by (auto simp: filter_empty_conv)
    then have "last (filter (\<lambda>y. i < h y) a) \<in> set a" by (meson filter_is_subset last_in_set subsetD)
    then show ?thesis using False True assms(1) by (auto simp: last_high_def)
  qed (simp add: last_high_def True b)
next
  case False
  then have "last (filter (\<lambda>y. i < h y) b) \<in> set b" by (meson filter_is_subset last_in_set subsetD)
  moreover have "find (\<lambda>y. i < h y) b \<noteq> None" using False by (auto simp: find_None_iff filter_empty_conv)
  ultimately show ?thesis using assms(1) False by (auto simp: last_high_def)
qed

lemma last_high_split:
  assumes "distinct pre" "\<exists>y \<in> set pre. i < h y"
  obtains a b where "pre = a @ last_high h pre i # b" "i < h (last_high h pre i)" "find (\<lambda>y. i < h y) b = None"
proof -
  have "filter (\<lambda>y. i < h y) pre \<noteq> []" using assms(2) by (auto simp: filter_empty_conv)
  then have "last_high h pre i \<in> set (filter (\<lambda>y. i < h y) pre)" unfolding last_high_def by (rule last_in_set)
  then obtain a b where "pre = a @ last_high h pre i # b" by (auto dest: split_list)
  then show thesis using that last_high_iff [of a "last_high h pre i" b i h] assms by metis
qed

text \<open>The links around a gap: what is written behind \<open>pre\<close> on level \<open>i\<close> is read by its last high element only.\<close>

lemma links_before_gap:
  assumes "distinct (a @ x # b)" "\<exists>y \<in> set (a @ x # b). i < h y" "fwd s x i = (if i < h x then find (\<lambda>y. i < h y) (b @ suf) else None)"
  shows "(if x = last_high h (a @ x # b) i then v else fwd s x i)
    = (if i < h x then case find (\<lambda>y. i < h y) b of Some y \<Rightarrow> Some y | None \<Rightarrow> v else None)"
  using last_high_iff [OF assms(1,2)] assms(3) by (auto simp: find_append split: option.splits)

lemma link_move: "\<forall>i < n. upd ! i = u i \<Longrightarrow> link elm upd n s = move elm u (Some elm) [0..<n] s"
  unfolding link_def move_def by (intro fold_cong refl) auto

lemma insert_after_heap:
  assumes "heap_ok s" "\<forall>i < n. upd1 ! i = u i \<and> u i \<noteq> elm" "lvl s \<le> 16" "n = rndlvl coins"
    and "upd1 = (if n > lvl s then upd @ replicate (n - lvl s) h0 else upd)" "x \<noteq> Some elm"
    and s'_def: "s' = insert_after coins elm h0 p x upd s"
  shows "heap_ok s'" "head s' = head s" "tail s' = (if x = None then Some elm else tail s)" "sz s' = sz s + 1" "lvl s' = max (lvl s) n"
    "j < 16 \<Longrightarrow> fwd s' y j =
      (if y = elm then if j < n then fwd s (u j) j else None else if j < n \<and> y = u j then Some elm else fwd s y j)"
    "previous (heap s' y) = (if y = elm then Some p else if Some y = x then Some elm else previous (heap s y))"
proof -
  let ?s1 = "s\<lparr>lvl := max (lvl s) n\<rparr>"
  let ?s2 = "move elm u (Some elm) [0..<n] ?s1"
  let ?s3 = "fold (\<lambda>i. set_fwd elm i None) [n..<16] ?s2"
  let ?s4 = "(case x of None \<Rightarrow> ?s3\<lparr>tail := Some elm\<rparr> | Some y \<Rightarrow> set_prev y (Some elm) ?s3)"
  have n: "n \<le> 16" using rndlvl_bounds assms(4) by simp
  have "link elm upd1 n ?s1 = ?s2" using assms(2) by (intro link_move) auto
  moreover have "(if n > lvl s then (upd @ replicate (n - lvl s) h0, s\<lparr>lvl := n\<rparr>) else (upd, s)) = (upd1, ?s1)"
    using assms(5) by (auto simp: max_def)
  ultimately have s': "s' = (set_prev elm (Some p) ?s4)\<lparr>sz := sz s + 1\<rparr>"
    unfolding s'_def insert_after_def assms(4) [symmetric] by (cases x) (simp_all add: Let_def set_fwds_const SKLIST_MAX_LEVS_def)
  show "heap_ok s'" "head s' = head s" "tail s' = (if x = None then Some elm else tail s)" "sz s' = sz s + 1" "lvl s' = max (lvl s) n"
    unfolding s' using assms(1) by (cases x; simp)+
  show "j < 16 \<Longrightarrow> fwd s' y j =
      (if y = elm then if j < n then fwd s (u j) j else None else if j < n \<and> y = u j then Some elm else fwd s y j)"
    unfolding s' using assms(1,2) n by (cases x) (auto simp: fwd_fold_set_fwd fwd_move)
  show "previous (heap s' y) = (if y = elm then Some p else if Some y = x then Some elm else previous (heap s y))"
    unfolding s' using assms(6) by (cases x) auto
qed

lemma insert_after_inv:
  assumes inv: "skip_inv kf s h (pre @ suf)" and pre: "pre \<noteq> []" and elm: "elm \<notin> set (pre @ suf)"
    and keys: "\<forall>x \<in> set pre. kf x < kf elm" "\<forall>x \<in> set suf. kf elm < kf x"
  shows "\<exists>h'. skip_inv kf (insert_after coins elm (hd pre) (last pre) (first suf) (map (last_high h pre) [0..<lvl s]) s) h' (pre @ elm # suf)"
proof -
  define n l where "n = rndlvl coins" and "l = max (lvl s) (rndlvl coins)"
  have n: "0 < n" "n \<le> 16" "n \<le> l" using rndlvl_bounds [of coins] by (auto simp: n_def l_def)
  obtain x ps where x: "pre = x # ps" using pre by (cases pre) auto
  define h1 where "h1 = h(x := l)"
  have hs: "h x = lvl s" "\<forall>y \<in> set (ps @ suf). h y \<le> lvl s" "1 \<le> lvl s" "lvl s \<le> 16" using inv x by (auto simp: skip_inv_def)
  have d: "distinct (pre @ suf)" using inv by (rule skip_inv_distinct)
  have inv1: "skip_inv kf (s\<lparr>lvl := l\<rparr>) h1 (pre @ suf)"
    using set_height [of kf s h x "ps @ suf" l] inv n hs x rndlvl_bounds(2) [of coins] by (auto simp: h1_def l_def le_max_iff_disj)
  define u where "u = last_high h1 pre"
  have high: "\<exists>y \<in> set pre. i < h1 y" if "i < l" for i using that x by (auto simp: h1_def)
  have umem: "u i \<in> set pre" if "i < l" for i
    using last_high_split [OF _ high [OF that], of thesis for thesis] d by (metis distinct_append in_set_conv_decomp u_def)
  let ?upd = "map (last_high h pre) [0..<lvl s]"
  have u_low: "last_high h pre i = u i" if "i < lvl s" for i
  proof -
    have "filter (\<lambda>y. i < h y) pre = filter (\<lambda>y. i < h1 y) pre"
      using that d hs(1) x by (intro filter_cong) (auto simp: h1_def l_def)
    then show ?thesis by (simp add: last_high_def u_def)
  qed
  have u_top: "u i = x" if "lvl s \<le> i" "i < n" for i
  proof -
    have "\<forall>y \<in> set ps. h1 y \<le> i" using hs(2) that(1) d x by (auto simp: h1_def intro: order_trans [of _ "lvl s" i])
    then have "filter (\<lambda>y. i < h1 y) ps = []" by (simp add: filter_empty_conv not_less)
    then show ?thesis using that n x by (simp add: u_def last_high_def h1_def)
  qed
  have upd: "\<forall>i < n. (if n > lvl s then ?upd @ replicate (n - lvl s) x else ?upd) ! i = u i \<and> u i \<noteq> elm"
  proof (intro allI impI conjI)
    fix i
    assume i: "i < n"
    show "(if n > lvl s then ?upd @ replicate (n - lvl s) x else ?upd) ! i = u i"
      using u_low [of i] u_top [of i] i by (cases "i < lvl s") (simp_all add: nth_append)
    show "u i \<noteq> elm" using umem [of i] i n(3) elm by auto
  qed
  define s' where "s' = insert_after coins elm x (last pre) (first suf) ?upd s"
  have "heap_ok s" "first suf \<noteq> Some elm" using inv elm by (auto simp: skip_inv_def first_def split: list.splits)
  note ia = insert_after_heap [OF this(1) upd hs(4) n_def refl this(2) s'_def]
  define h' where "h' = h1(elm := n)"
  have he: "h' elm = n" by (simp add: h'_def)
  have ch1: "chain s h1 None (pre @ suf) []"
    using inv1 chain_cong [of "pre @ suf" s "s\<lparr>lvl := l\<rparr>" "[]" h1 h1 None] by (auto simp: skip_inv_def)
  have fe: "find (\<lambda>y. i < h' y) zs = find (\<lambda>y. i < h1 y) zs" if "elm \<notin> set zs" for i zs
    using that by (intro find_cong_set) (auto simp: h'_def)
  have old: "links s h1 z (b @ suf)" "previous (heap s z) = final a" if "pre = a @ z # b" for a z b
    using ch1 that by (auto simp: chain_append)
  have "chain s' h' None pre (elm # suf)"
  proof (rule chainI, intro conjI)
    fix a z b
    assume ab: "pre = a @ z # b"
    have z: "z \<noteq> elm" "z \<notin> set suf" using ab elm d by auto
    have "fwd s' z i = (if i < h' z then find (\<lambda>y. i < h' y) (b @ elm # suf) else None)" if "i < 16" for i
    proof -
      have o: "fwd s z i = (if i < h1 z then find (\<lambda>y. i < h1 y) (b @ suf) else None)" using old(1) [OF ab] that by (simp add: links_def)
      have "find (\<lambda>y. i < h' y) (b @ elm # suf) =
          (case find (\<lambda>y. i < h1 y) b of Some y \<Rightarrow> Some y | None \<Rightarrow> if i < n then Some elm else find (\<lambda>y. i < h1 y) suf)"
        using fe [of b i] fe [of suf i] elm ab he by (simp add: find_append split: option.split)
      moreover have "fwd s' z i = (if i < n \<and> z = u i then Some elm else fwd s z i)" using ia(6) [OF that] z(1) by simp
      moreover have "(if z = u i then Some elm else fwd s z i) =
          (if i < h1 z then case find (\<lambda>y. i < h1 y) b of Some y \<Rightarrow> Some y | None \<Rightarrow> Some elm else None)" if i: "i < n"
      proof -
        have "distinct (a @ z # b)" "\<exists>y \<in> set (a @ z # b). i < h1 y" using d high [of i] i n(3) unfolding ab by auto
        from links_before_gap [OF this o, of "Some elm"] show ?thesis unfolding u_def ab .
      qed
      moreover have "h' z = h1 z" using z(1) by (simp add: h'_def)
      ultimately show ?thesis using o by (cases "i < n") (simp_all add: find_append)
    qed
    then show "links s' h' z (b @ elm # suf)" by (simp add: links_def)
    show "previous (heap s' z) = (if a = [] then None else final a)"
      using ia(7) [of z] z old(2) [OF ab] by (auto simp: first_def split: list.splits)
  qed
  moreover have "links s' h' elm suf"
  proof -
    have "fwd s (u i) i = find (\<lambda>y. i < h1 y) suf" if i: "i < 16" "i < n" for i
    proof -
      obtain a b where ab: "pre = a @ u i # b" "i < h1 (u i)" "find (\<lambda>y. i < h1 y) b = None"
        using last_high_split [of pre i h1] d high [of i] i n(3) unfolding u_def by auto
      then show ?thesis using old(1) [OF ab(1)] i(1) by (simp add: links_def find_append)
    qed
    then show ?thesis using ia(6) [of _ elm] fe [of suf] elm by (simp add: links_def h'_def)
  qed
  moreover have "previous (heap s' elm) = final pre" using ia(7) [of elm] pre by (simp add: final_def)
  moreover have "chain s' h' (Some elm) suf []"
  proof (cases suf)
    case (Cons z zs)
    have "u i \<notin> set suf" if "i < n" for i using umem [of i] d that n(3) by auto
    then have f: "fwd s' w i = fwd s w i" if "w \<in> set suf" "i < 16" for w i using ia(6) [OF that(2), of w] that(1) elm by auto
    have c: "chain s h1 (final pre) suf []" using ch1 pre by (simp add: chain_append)
    have "links s' h' z zs = links s h1 z zs" using f elm Cons by (intro links_cong) (auto simp: h'_def)
    moreover have "chain s' h' (Some z) zs [] = chain s h1 (Some z) zs []"
      using f elm Cons ia(7) d by (intro chain_cong) (auto simp: h'_def)
    ultimately show ?thesis using c Cons ia(7) [of z] elm by auto
  qed simp
  ultimately have "chain s' h' None (pre @ elm # suf) []" using pre by (simp add: chain_append)
  moreover have "keys_inc kf (pre @ elm # suf)" using inv keys by (auto simp: skip_inv_def keys_inc_append keys_inc_Cons)
  moreover have "\<forall>y \<in> set (pre @ elm # suf). 0 < h' y \<and> h' y \<le> l" using inv1 n by (auto simp: skip_inv_def h'_def)
  moreover have "h' (hd (pre @ elm # suf)) = l" using x elm by (auto simp: h'_def h1_def)
  ultimately have "skip_inv kf s' h' (pre @ elm # suf)"
    using ia(1-5) inv hs n x by (auto simp: skip_inv_def first_def final_def l_def n_def split: list.splits)
  then show ?thesis unfolding s'_def using x by auto
qed

subsection \<open>Removal\<close>

lemma lower_cong: "(\<And>l. fwd s x l = fwd t x l) \<Longrightarrow> lower l x s = lower l x t"
  by (induction l rule: less_induct) (subst (1 2) lower.simps, simp)

lemma lower_inv: "skip_inv kf (s\<lparr>lvl := l\<rparr>) h (x # ys) \<Longrightarrow> \<exists>h'. skip_inv kf (s\<lparr>lvl := lower l x s\<rparr>) h' (x # ys)"
proof (induction l arbitrary: h rule: less_induct)
  case (less l)
  show ?case
  proof (cases "l > 1 \<and> fwd s x (l - 1) = None")
    case True
    have "links s h x ys" "h x = l" "l \<le> 16" using less.prems by (auto simp: skip_inv_def links_def)
    then have "find (\<lambda>y. l - 1 < h y) ys = None" using True by (auto simp: links_def)
    then have "\<forall>y \<in> set ys. h y \<le> l - 1" by (auto simp: find_None_iff)
    moreover have "1 \<le> l - 1" "l - 1 \<le> 16" using True \<open>l \<le> 16\<close> by auto
    ultimately have "skip_inv kf (s\<lparr>lvl := l - 1\<rparr>) (h(x := l - 1)) (x # ys)" using set_height [OF less.prems, of "l - 1"] by simp
    from less.IH [OF _ this] show ?thesis using True by (subst lower.simps) auto
  next
    case False
    then show ?thesis using less.prems by (subst lower.simps) auto
  qed
qed

lemma take_levels_heap:
  "heap_ok s \<Longrightarrow> n \<le> 16 \<Longrightarrow> m < n \<Longrightarrow> x \<noteq> y \<Longrightarrow> \<forall>i < n. fwd s x i = Some y \<longleftrightarrow> i \<le> m \<Longrightarrow>
     \<exists>s'. take_levels x y n s = Some s' \<and> heap_ok s' \<and> head s' = head s \<and> tail s' = tail s \<and> sz s' = sz s \<and> lvl s' = lvl s
       \<and> (\<forall>z. previous (heap s' z) = previous (heap s z))
       \<and> (\<forall>z j. fwd s' z j = (if z = y \<and> m < j \<and> j < n then fwd s x j else fwd s z j))"
proof (induction n arbitrary: s)
  case (Suc n)
  show ?case
  proof (cases "n = m")
    case True
    then show ?thesis using Suc.prems by auto
  next
    case False
    let ?s = "set_fwd y n (fwd s x n) s"
    have "\<forall>i < n. fwd ?s x i = Some y \<longleftrightarrow> i \<le> m" using Suc.prems by (simp add: fwd_set_fwd)
    with Suc.IH [of ?s] Suc.prems False obtain s' where s': "take_levels x y n ?s = Some s'" "heap_ok s'" "head s' = head s"
      "tail s' = tail s" "sz s' = sz s" "lvl s' = lvl s" "\<forall>z. previous (heap s' z) = previous (heap s z)"
      "\<forall>z j. fwd s' z j = (if z = y \<and> m < j \<and> j < n then fwd ?s x j else fwd ?s z j)" by auto
    have "take_levels x y (Suc n) s = Some s'" using Suc.prems False s'(1) by simp
    moreover have "\<forall>z j. fwd s' z j = (if z = y \<and> m < j \<and> j < Suc n then fwd s x j else fwd s z j)"
      using s'(8) Suc.prems False by (auto simp: fwd_set_fwd less_Suc_eq)
    ultimately show ?thesis using s' by blast
  qed
qed simp

lemma remove_head_inv:
  assumes "skip_inv kf s h (x # y # zs)"
  shows "\<exists>s' h'. take_levels x y (lvl s) s = Some s' \<and>
    skip_inv kf ((set_prev y None s')\<lparr>head := Some y, sz := sz s' - 1\<rparr>) h' (y # zs)"
proof -
  note inv = assms [unfolded skip_inv_def]
  have d: "x \<noteq> y" "x \<notin> set zs" "y \<notin> set zs" using skip_inv_distinct [OF assms] by auto
  have hy: "0 < h y" "h y \<le> lvl s" "h x = lvl s" "lvl s \<le> 16" "\<forall>z \<in> set zs. 0 < h z \<and> h z \<le> lvl s" using inv by auto
  have lx: "fwd s x i = (if i < lvl s then if i < h y then Some y else find (\<lambda>z. i < h z) zs else None)" if "i < 16" for i
    using inv that by (auto simp: links_def)
  have ly: "fwd s y i = (if i < h y then find (\<lambda>z. i < h z) zs else None)" if "i < 16" for i
    using inv that by (auto simp: links_def)
  have "find (\<lambda>z. i < h z) zs \<noteq> Some y" for i using d(3) find_split by fastforce
  then have "\<forall>i < lvl s. fwd s x i = Some y \<longleftrightarrow> i \<le> h y - 1" using lx hy by auto
  moreover have "h y - 1 < lvl s" using hy by auto
  ultimately obtain s' where s': "take_levels x y (lvl s) s = Some s'"
    "heap_ok s'" "head s' = head s" "tail s' = tail s" "sz s' = sz s" "lvl s' = lvl s"
    "\<And>z. previous (heap s' z) = previous (heap s z)"
    "\<And>z j. fwd s' z j = (if z = y \<and> h y - 1 < j \<and> j < lvl s then fwd s x j else fwd s z j)"
    using take_levels_heap [of s "lvl s" "h y - 1" x y] inv hy(4) d(1) by auto
  let ?h = "h(y := lvl s)" and ?s = "(set_prev y None s')\<lparr>head := Some y, sz := sz s' - 1\<rparr>"
  have fi: "find (\<lambda>z. i < ?h z) zs = find (\<lambda>z. i < h z) zs" for i using d by (intro find_cong_set) auto
  have "links ?s ?h y zs" unfolding links_def fi using s'(8) lx ly hy by auto
  moreover have "chain ?s ?h (Some y) zs [] = chain s h (Some y) zs []" using d s'(7,8) by (intro chain_cong) auto
  ultimately have "skip_inv kf ?s ?h (y # zs)" using inv s' hy by (auto simp: skip_inv_def keys_inc_Cons)
  then show ?thesis using s'(1) by blast
qed

lemma unlink_heap:
  "heap_ok s \<Longrightarrow> i \<le> m \<Longrightarrow> m \<le> lvl s \<Longrightarrow> lvl s \<le> 16 \<Longrightarrow> \<forall>j < lvl s. upd ! j \<noteq> x \<and> (i \<le> j \<longrightarrow> (fwd s (upd ! j) j = Some x \<longleftrightarrow> j < m)) \<Longrightarrow>
     heap_ok (unlink x upd i s) \<and> head (unlink x upd i s) = head s \<and> tail (unlink x upd i s) = tail s
       \<and> sz (unlink x upd i s) = sz s \<and> lvl (unlink x upd i s) = lvl s
       \<and> (\<forall>z. previous (heap (unlink x upd i s) z) = previous (heap s z))
       \<and> (\<forall>z j. fwd (unlink x upd i s) z j = (if i \<le> j \<and> j < m \<and> z = upd ! j then fwd s x j else fwd s z j))"
proof (induction "m - i" arbitrary: i s)
  case 0
  then have "unlink x upd i s = s" by (subst unlink.simps) auto
  then show ?case using 0 by auto
next
  case (Suc n)
  let ?s = "set_fwd (upd ! i) i (fwd s x i) s"
  have i: "i < m" "i < lvl s" using Suc by auto
  have u: "unlink x upd i s = unlink x upd (i + 1) ?s" using Suc.prems i by (subst unlink.simps) auto
  have "\<forall>j < lvl ?s. upd ! j \<noteq> x \<and> (i + 1 \<le> j \<longrightarrow> (fwd ?s (upd ! j) j = Some x \<longleftrightarrow> j < m))"
    using Suc.prems i by (auto simp: fwd_set_fwd)
  note IH = Suc.hyps(1) [of "i + 1" ?s, OF _ _ _ _ _ this]
  have "fwd (unlink x upd i s) z j = (if i \<le> j \<and> j < m \<and> z = upd ! j then fwd s x j else fwd s z j)" for z j
  proof -
    have "fwd (unlink x upd i s) z j = (if i + 1 \<le> j \<and> j < m \<and> z = upd ! j then fwd ?s x j else fwd ?s z j)"
      unfolding u using IH Suc.hyps(2) Suc.prems i by simp
    moreover have "fwd ?s x j = fwd s x j" using Suc.prems i by (simp add: fwd_set_fwd)
    ultimately show ?thesis using Suc.prems i by (cases "j = i") (auto simp: fwd_set_fwd)
  qed
  then show ?case unfolding u using IH Suc.hyps(2) Suc.prems i by simp
qed

lemma remove_middle_inv:
  assumes inv: "skip_inv kf s h (pre @ x # zs)" and pre: "pre \<noteq> []"
  defines "s1 \<equiv> unlink x (map (last_high h pre) [0..<lvl s]) 0 s"
  defines "s2 \<equiv> s1\<lparr>lvl := lower (lvl s1) (hd pre) s1\<rparr>"
  defines "s3 \<equiv> (case first zs of Some n \<Rightarrow> set_prev n (Some (last pre)) s2 | None \<Rightarrow> s2\<lparr>tail := Some (last pre)\<rparr>)"
  shows "\<exists>h'. skip_inv kf (s3\<lparr>sz := sz s3 - 1\<rparr>) h' (pre @ zs)"
proof -
  let ?u = "last_high h pre" and ?upd = "map (last_high h pre) [0..<lvl s]"
  note si = inv [unfolded skip_inv_def]
  have d: "distinct (pre @ x # zs)" using inv by (rule skip_inv_distinct)
  have ch: "chain s h None (pre @ x # zs) []" using si by auto
  obtain y ps where y: "pre = y # ps" using pre by (cases pre) auto
  have hx: "0 < h x" "h x \<le> lvl s" "h y = lvl s" "lvl s \<le> 16" "heap_ok s" using si y by auto
  have old: "links s h z (b @ x # zs)" "previous (heap s z) = final a" if "pre = a @ z # b" for a z b
    using ch that by (auto simp: chain_append)
  have lx: "fwd s x i = (if i < h x then find (\<lambda>y. i < h y) zs else None)" if "i < 16" for i
    using ch that by (simp add: chain_append links_def)
  have high: "\<exists>z \<in> set pre. i < h z" if "i < lvl s" for i using that hx(3) y by auto
  have u: "?u i \<in> set pre" "fwd s (?u i) i = find (\<lambda>y. i < h y) (x # zs)" if il: "i < lvl s" for i
  proof -
    obtain a b where ab: "pre = a @ ?u i # b" "i < h (?u i)" "find (\<lambda>y. i < h y) b = None"
      using last_high_split [of pre i h] d high [OF il] by auto
    show "?u i \<in> set pre" by (subst ab(1)) simp
    show "fwd s (?u i) i = find (\<lambda>y. i < h y) (x # zs)"
      using old(1) [OF ab(1)] ab il hx(4) by (simp add: links_def find_append)
  qed
  have "find (\<lambda>y. i < h y) zs \<noteq> Some x" for i using d find_split by fastforce
  then have "\<forall>j < lvl s. ?upd ! j \<noteq> x \<and> (0 \<le> j \<longrightarrow> (fwd s (?upd ! j) j = Some x \<longleftrightarrow> j < h x))"
    using u d by auto
  from unlink_heap [OF hx(5) le0 hx(2,4) this, folded s1_def]
  have s1: "heap_ok s1" "head s1 = head s" "tail s1 = tail s" "sz s1 = sz s" "lvl s1 = lvl s"
    "\<And>z. previous (heap s1 z) = previous (heap s z)"
    and f1: "\<And>z j. fwd s1 z j = (if j < h x \<and> z = ?upd ! j then fwd s x j else fwd s z j)" by auto
  have f: "fwd s1 z j = (if j < h x \<and> z = ?u j then fwd s x j else fwd s z j)" for z j using f1 [of z j] hx(2) by auto
  define s4 where "s4 = (case first zs of Some n \<Rightarrow> set_prev n (Some (last pre)) s1 | None \<Rightarrow> s1\<lparr>tail := Some (last pre)\<rparr>)\<lparr>sz := sz s - 1\<rparr>"
  have s4: "heap_ok s4" "head s4 = head s" "tail s4 = (if zs = [] then final pre else tail s)" "sz s4 = sz s - 1" "lvl s4 = lvl s"
    "previous (heap s4 z) = (if Some z = first zs then final pre else previous (heap s z))" "fwd s4 z = fwd s1 z" for z
    unfolding s4_def using s1 pre by (cases "first zs"; auto simp: final_def fun_eq_iff)+
  have "chain s4 h None pre zs"
  proof (rule chainI, intro conjI)
    fix a z b
    assume ab: "pre = a @ z # b"
    have "fwd s1 z i = (if i < h z then find (\<lambda>y. i < h y) (b @ zs) else None)" if "i < 16" for i
    proof -
      have o: "fwd s z i = (if i < h z then find (\<lambda>y. i < h y) (b @ x # zs) else None)" using old(1) [OF ab] that by (simp add: links_def)
      have "(if z = ?u i then fwd s x i else fwd s z i) =
          (if i < h z then case find (\<lambda>y. i < h y) b of Some y \<Rightarrow> Some y | None \<Rightarrow> fwd s x i else None)" if i: "i < h x"
      proof -
        have "distinct (a @ z # b)" "\<exists>y \<in> set (a @ z # b). i < h y" using d high [of i] i hx(2) unfolding ab by auto
        from links_before_gap [OF this o, of "fwd s x i"] show ?thesis unfolding ab .
      qed
      then show ?thesis using o f [of z i] lx [OF that] by (auto simp: find_append split: option.splits)
    qed
    then show "links s4 h z (b @ zs)" by (simp add: links_def s4)
    show "previous (heap s4 z) = (if a = [] then None else final a)"
      using s4(6) [of z] d old(2) [OF ab] ab by (auto simp: first_def split: list.splits)
  qed
  moreover have "chain s4 h (final pre) zs []"
  proof (cases zs)
    case (Cons w ws)
    have "?u j \<notin> set zs" if "j < h x" for j using u(1) [of j] d that hx(2) by auto
    then have fz: "fwd s4 z j = fwd s z j" if "z \<in> set zs" for z j using f [of z j] that s4(7) by auto
    have "links s4 h w ws = links s h w ws" using fz Cons by (intro links_cong) auto
    moreover have "chain s4 h (Some w) ws [] = chain s h (Some w) ws []" using fz Cons d s4(6) by (intro chain_cong) auto
    ultimately show ?thesis using ch Cons s4(6) [of w] by (simp add: chain_append)
  qed simp
  ultimately have "chain s4 h None (pre @ zs) []" using pre by (simp add: chain_append)
  then have "skip_inv kf s4 h (pre @ zs)"
    using si s4 y by (auto simp: skip_inv_def keys_inc_append keys_inc_Cons)
  then have "skip_inv kf (s4\<lparr>lvl := lvl s\<rparr>) h (y # ps @ zs)" using y by (simp only: lvl_same append_Cons flip: s4(5))
  from lower_inv [OF this] obtain h' where h': "skip_inv kf (s4\<lparr>lvl := lower (lvl s) y s4\<rparr>) h' (pre @ zs)" using y by auto
  have "lower l z s4 = lower l z s1" for l z by (rule lower_cong) (simp add: s4(7))
  then have "s4\<lparr>lvl := lower (lvl s) y s4\<rparr> = s3\<lparr>sz := sz s3 - 1\<rparr>"
    unfolding s4_def s3_def s2_def using s1(4,5) y by (cases "first zs") (simp_all add: set_prev_def)
  then show ?thesis using h' by metis
qed

lemma take_levels_sz: "take_levels x y n (s\<lparr>sz := m\<rparr>) = map_option (\<lambda>t. t\<lparr>sz := m\<rparr>) (take_levels x y n s)"
proof (induction n arbitrary: s)
  case (Suc n)
  have "set_fwd y n v (s\<lparr>sz := m\<rparr>) = (set_fwd y n v s)\<lparr>sz := m\<rparr>" for v by (simp add: set_fwd_def)
  then show ?case using Suc by simp
qed simp

text \<open>A key that is not above the head leaves the search at the head.\<close>

lemma descend_stay:
  assumes "links s h x ys" "\<forall>y \<in> set ys. \<not> kf y < k"
  shows "n \<le> 16 \<Longrightarrow> \<exists>upd'. descend kf s k n x upd = Some (x, upd')"
proof (induction n arbitrary: upd)
  case (Suc n)
  have "level_walk kf s k n x = Some x"
  proof (cases "fwd s x n")
    case (Some y)
    then have "find (\<lambda>y. n < h y) ys = Some y" using assms(1) Suc.prems by (auto simp: links_def split: if_splits)
    then have "y \<in> set ys" using find_split by fastforce
    then show ?thesis using Some assms(2) by (subst level_walk.simps) simp
  qed (subst level_walk.simps, simp)
  then show ?case using Suc by simp
qed simp

subsection \<open>Insertion and removal as operations on the sorted list\<close>

lemma first_elems_from:
  assumes "keys_inc kf xs"
  shows "(case first (elems_from kf k xs) of None \<Rightarrow> True | Some y \<Rightarrow> k < kf y) \<longleftrightarrow> k \<notin> kf ` set xs"
proof -
  have "k \<in> kf ` set xs \<longleftrightarrow> find (\<lambda>x. kf x = k) xs \<noteq> None" by (auto simp: find_None_iff image_iff)
  moreover have "k \<le> kf y" if "elems_from kf k xs = y # ys" for y ys
  proof -
    have "y \<in> set (elems_from kf k xs)" using that by simp
    then show ?thesis by (simp add: elems_from_def)
  qed
  ultimately show ?thesis unfolding find_key_from [OF assms] by (cases "elems_from kf k xs") (auto simp: order.strict_iff_order)
qed

lemma insert_sorted_elems:
  assumes "sorted_elems kf s xs" "elm \<notin> set xs"
  shows "if kf elm \<in> kf ` set xs then sk_insert kf coins elm s = Some (s, False)
    else \<exists>s'. sk_insert kf coins elm s = Some (s', True) \<and> sorted_elems kf s' (elems_below kf (kf elm) xs @ elm # elems_from kf (kf elm) xs)"
proof -
  obtain h where inv: "skip_inv kf s h xs" using assms(1) by (auto simp: sorted_elems_def)
  have ki: "keys_inc kf xs" using inv by (simp add: skip_inv_def)
  let ?k = "kf elm"
  show ?thesis
  proof (cases "elems_below kf ?k xs = []")
    case True
    show ?thesis
    proof (cases "?k \<in> kf ` set xs")
      case mem: True
      obtain x ys where x: "xs = x # ys" using mem by (cases xs) auto
      have "kf x = ?k" using below_from_hd(1) [OF ki, of ?k] True mem ki x by (fastforce simp: keys_inc_Cons)
      then show ?thesis using inv x mem by (simp add: sk_insert_def skip_inv_def)
    next
      case False
      have all: "\<forall>x \<in> set xs. ?k < kf x" using True False by (force simp: elems_below_def filter_empty_conv not_less)
      then have e: "elems_from kf ?k xs = xs" unfolding elems_from_def by (intro filter_True) auto
      obtain s' h' where s': "insert_head coins elm (s\<lparr>sz := sz s + 1\<rparr>) = Some s'" "skip_inv kf s' h' (elm # xs)"
        using insert_head_inv [OF inv assms(2) all] by blast
      have "sk_insert kf coins elm s = Some (s', True)"
        using s'(1) inv all by (cases xs) (auto simp: sk_insert_def skip_inv_def)
      then show ?thesis using False True e s'(2) by (auto simp: sorted_elems_def)
    qed
  next
    case False
    have ne: "xs \<noteq> []" using False by (auto simp: elems_below_def)
    have hd: "kf (hd xs) < ?k" "head s = Some (hd xs)"
      using below_from_hd(1) [OF ki ne, of ?k] False inv ne by (auto simp: skip_inv_def first_def split: list.splits)
    have nk: "\<not> ?k < kf (hd xs)" "?k \<noteq> kf (hd xs)" using hd(1) by auto
    note ds = descend_inv [OF inv ne hd(1)] and fe = first_elems_from [OF ki, of ?k]
    let ?pre = "elems_below kf ?k xs" and ?suf = "elems_from kf ?k xs"
    have xs: "xs = ?pre @ ?suf" using split_keys [OF ki, of ?k] by (simp add: elems_below_def elems_from_def)
    have hp: "hd xs = hd ?pre" using xs False by (metis hd_append2)
    show ?thesis
    proof (cases "?k \<in> kf ` set xs")
      case True
      then show ?thesis using hd nk ds(1,3) fe by (simp add: sk_insert_def)
    next
      case new: False
      then have "\<forall>x \<in> set ?suf. ?k < kf x" by (force simp: elems_from_def order.strict_iff_order)
      moreover have "\<forall>x \<in> set ?pre. kf x < ?k" by (simp add: elems_below_def)
      moreover have "skip_inv kf s h (?pre @ ?suf)" using inv xs by simp
      moreover have "elm \<notin> set (?pre @ ?suf)" using assms(2) xs by simp
      ultimately obtain h' where "skip_inv kf (insert_after coins elm (hd ?pre) (last ?pre) (first ?suf) (map (last_high h ?pre) [0..<lvl s]) s) h' (?pre @ elm # ?suf)"
        using insert_after_inv [OF _ False, of kf s h ?suf elm coins] by blast
      then show ?thesis
        using new nk hd ds(1,3) fe hp by (auto simp: sk_insert_def sorted_elems_def last_high_def [abs_def])
    qed
  qed
qed

lemma remove_sorted_elems:
  assumes "sorted_elems kf s xs"
  shows "\<exists>s'. sk_remove kf s k = Some (s', find (\<lambda>x. kf x = k) xs) \<and> sorted_elems kf s' (filter (\<lambda>x. kf x \<noteq> k) xs)"
proof -
  obtain h where inv: "skip_inv kf s h xs" using assms by (auto simp: sorted_elems_def)
  have ki: "keys_inc kf xs" using inv by (simp add: skip_inv_def)
  show ?thesis
  proof (cases xs)
    case Nil
    then show ?thesis using inv by (auto simp: sk_remove_def skip_inv_def sorted_elems_def)
  next
    case (Cons x ys)
    have hd: "head s = Some x" using inv Cons by (simp add: skip_inv_def)
    show ?thesis
    proof (cases "kf x = k")
      case True
      have all: "filter (\<lambda>x. kf x \<noteq> k) xs = ys" using ki Cons True by (fastforce simp: keys_inc_Cons intro: filter_True)
      show ?thesis
      proof (cases ys)
        case Nil
        have "skip_inv kf (s\<lparr>sz := sz s - 1, lvl := 1, head := None, tail := None\<rparr>) h []"
          using inv Cons Nil by (auto simp: skip_inv_def keys_inc_def)
        moreover have "fwd s x 0 = None" using neighbours(1) [of kf s h "[]" x] inv Cons Nil by (simp add: sk_next_def)
        ultimately show ?thesis using hd True all Cons Nil by (auto simp: sk_remove_def sorted_elems_def)
      next
        case (Cons y zs)
        then have inv': "skip_inv kf s h (x # y # zs)" using inv \<open>xs = x # ys\<close> by simp
        have nx: "fwd s x 0 = Some y" using neighbours(1) [of kf s h "[]" x] inv' by (simp add: sk_next_def)
        obtain s' h' where s': "take_levels x y (lvl s) s = Some s'"
          "skip_inv kf ((set_prev y None s')\<lparr>head := Some y, sz := sz s' - 1\<rparr>) h' (y # zs)" (is "skip_inv kf ?t h' _")
          using remove_head_inv [OF inv'] by blast
        have "skip_inv kf (?t\<lparr>lvl := lvl ?t\<rparr>) h' (y # zs)" using s'(2) by (simp only: lvl_same)
        from lower_inv [OF this] obtain h2 where h2: "skip_inv kf (?t\<lparr>lvl := lower (lvl ?t) y ?t\<rparr>) h2 (y # zs)" by blast
        have "sk_remove kf s k = Some (?t\<lparr>lvl := lower (lvl ?t) y ?t\<rparr>, Some x)"
        proof -
          have sz: "sz s' = sz s" using inv' s'(2) by (auto simp: skip_inv_def)
          have t: "(set_prev y None (s'\<lparr>sz := sz s - 1\<rparr>))\<lparr>head := Some y\<rparr> = ?t" using sz by (simp add: set_prev_def)
          have "take_levels x y (lvl s) (s\<lparr>sz := sz s - 1\<rparr>) = Some (s'\<lparr>sz := sz s - 1\<rparr>)" using s'(1) by (simp add: take_levels_sz)
          then show ?thesis using hd True nx t [symmetric] by (simp add: sk_remove_def Let_def)
        qed
        then show ?thesis using h2 all Cons \<open>xs = x # ys\<close> True by (auto simp: sorted_elems_def)
      qed
    next
      case False
      show ?thesis
      proof (cases "kf x < k")
        case True
        note ds = descend_inv [OF inv, of k, unfolded Cons, simplified, OF True, folded Cons]
        let ?pre = "elems_below kf k xs" and ?suf = "elems_from kf k xs"
        have xs: "xs = ?pre @ ?suf" using split_keys [OF ki, of k] by (simp add: elems_below_def elems_from_def)
        have hp: "hd ?pre = x" using xs Cons ds(2) by (metis hd_append2 list.sel(1))
        have fk: "find (\<lambda>x. kf x = k) xs = (case ?suf of [] \<Rightarrow> None | y # _ \<Rightarrow> if kf y = k then Some y else None)"
          by (rule find_key_from [OF ki])
        show ?thesis
        proof (cases "find (\<lambda>x. kf x = k) xs")
          case None
          then have "filter (\<lambda>x. kf x \<noteq> k) xs = xs" by (auto simp: find_None_iff intro: filter_True)
          moreover have "sk_remove kf s k = Some (s, None)"
            using None fk hd False ds(1,3) by (auto simp: sk_remove_def split: list.splits if_splits)
          ultimately show ?thesis using None assms by auto
        next
          case (Some y)
          then obtain zs where y: "?suf = y # zs" "kf y = k" using fk by (auto split: list.splits if_splits)
          have inv': "skip_inv kf s h (?pre @ y # zs)" using inv xs y(1) by simp
          have "kf z \<noteq> k" if "z \<in> set ?pre \<union> set zs" for z
            using that inv' y(2) by (auto simp: skip_inv_def keys_inc_append keys_inc_Cons elems_below_def)
          then have "filter (\<lambda>x. kf x \<noteq> k) (?pre @ y # zs) = ?pre @ zs" using y(2) by (simp add: filter_id_conv)
          moreover have "xs = ?pre @ y # zs" using xs y(1) by simp
          ultimately have "filter (\<lambda>x. kf x \<noteq> k) xs = ?pre @ zs" by metis
          moreover have "fwd s y 0 = first zs" using neighbours(1) [OF inv'] by (simp add: sk_next_def)
          moreover have "descend kf s k (lvl s) x [] = Some (last ?pre, map (last_high h ?pre) [0..<lvl s])"
            using ds(1) Cons by (simp add: last_high_def [abs_def])
          moreover note remove_middle_inv [OF inv' ds(2), unfolded hp]
          ultimately show ?thesis using Some y hd False ds(3) by (auto simp: sk_remove_def Let_def sorted_elems_def)
        qed
      next
        case le: False
        then have "\<forall>y \<in> set ys. \<not> kf y < k" "find (\<lambda>x. kf x = k) xs = None" "filter (\<lambda>x. kf x \<noteq> k) xs = xs"
          using ki Cons False by (fastforce simp: keys_inc_Cons find_None_iff intro: filter_True)+
        moreover have "links s h x ys" "lvl s \<le> 16" using inv Cons by (auto simp: skip_inv_def)
        ultimately obtain upd where "descend kf s k (lvl s) x [] = Some (x, upd)" using descend_stay by blast
        moreover have "\<And>y. fwd s x 0 = Some y \<Longrightarrow> kf y \<noteq> k"
          using neighbours(1) [of kf s h "[]" x ys] inv Cons \<open>find (\<lambda>x. kf x = k) xs = None\<close>
          by (cases ys) (auto simp: sk_next_def split: if_splits)
        ultimately show ?thesis
          using hd False assms \<open>find (\<lambda>x. kf x = k) xs = None\<close> \<open>filter (\<lambda>x. kf x \<noteq> k) xs = xs\<close>
          by (auto simp: sk_remove_def split: option.splits)
      qed
    qed
  qed
qed

subsection \<open>The check of the representation\<close>

lemma repok_level_chain:
  "chain s h p as [] \<Longrightarrow> keys_inc kf as \<Longrightarrow> i < 16 \<Longrightarrow> tail s = final as \<Longrightarrow> \<forall>y \<in> set as. 0 < h y \<Longrightarrow> as = x # bs \<Longrightarrow> i < h x \<Longrightarrow>
     repok_level kf s i (Some x) = Some ()"
proof (induction "length bs" arbitrary: p as x bs rule: less_induct)
  case less
  have f: "fwd s x i = find (\<lambda>y. i < h y) bs" using less.prems by (simp add: links_def)
  have fin: "repok_level kf s i None = Some ()" by (subst repok_level.simps) simp
  show ?case
  proof (cases "find (\<lambda>y. i < h y) bs")
    case None
    then have "bs = []" if "i = 0" using that less.prems(5,6) by (cases bs) auto
    then show ?thesis using None f less.prems(4,6) fin by (subst repok_level.simps) auto
  next
    case (Some y)
    then obtain a b where ab: "bs = a @ y # b" "i < h y" "\<forall>z \<in> set a. \<not> i < h z" using find_split by fastforce
    have c: "chain s h (if a = [] then Some x else final a) (y # b) []" using less.prems(1,6) ab(1) by (simp add: chain_append)
    have "a = []" if "i = 0" using that ab(1,3) less.prems(5,6) by (cases a) auto
    then have "i = 0 \<Longrightarrow> previous (heap s y) = Some x" using c by simp
    moreover have "repok_level kf s i (Some y) = Some ()"
      using less.hyps [of b _ "y # b" y] c less.prems ab by (auto simp: keys_inc_append keys_inc_Cons)
    moreover have "kf x < kf y" using less.prems(2,6) ab(1) by (simp add: keys_inc_Cons)
    ultimately show ?thesis using f Some by (subst repok_level.simps) auto
  qed
qed

lemma repok_inv:
  assumes "skip_inv kf s h xs"
  shows "repok kf s = Some ()"
proof (cases xs)
  case Nil
  then show ?thesis using assms by (simp add: repok_def skip_inv_def)
next
  case (Cons x bs)
  have "repok_levels kf s n None = Some ()" for n
    by (induction n) (simp_all, subst repok_level.simps, simp)
  moreover obtain l where l: "lvl s = Suc l" using assms by (cases "lvl s") (auto simp: skip_inv_def)
  moreover have "repok_level kf s l (Some x) = Some ()"
    using repok_level_chain [of s h None xs kf l x bs] assms Cons l by (auto simp: skip_inv_def)
  ultimately show ?thesis using assms Cons by (simp add: repok_def skip_inv_def)
qed

subsection \<open>The sorted list with wrapping, as clients use it\<close>

text \<open>What a client that walks around the ring of identifiers relies on.\<close>

locale sorted_ring =
  fixes key :: "addr \<Rightarrow> 'k :: linorder" and elems :: "'s \<Rightarrow> addr list \<Rightarrow> bool"
    and first_of last_of :: "'s \<Rightarrow> addr option" and nxt prv :: "'s \<Rightarrow> addr \<Rightarrow> addr option"
    and closest_pred closest_succ :: "'s \<Rightarrow> 'k \<Rightarrow> addr option option"
  assumes sorted: "elems s xs \<Longrightarrow> keys_inc key xs"
    and ends: "elems s xs \<Longrightarrow> first_of s = first xs \<and> last_of s = final xs"
    and beside: "elems s (as @ x # bs) \<Longrightarrow> nxt s x = first bs \<and> prv s x = final as"
    and pred: "elems s xs \<Longrightarrow> closest_pred s k = Some (if elems_below key k xs = [] then final xs else final (elems_below key k xs))"
    and succ: "elems s xs \<Longrightarrow> closest_succ s k = Some (if elems_from key k xs = [] then first xs else first (elems_from key k xs))"
begin

text \<open>With the list turned so that the keys from \<open>k\<close> on come first, the closest successor of \<open>k\<close> is the first
  element and the closest predecessor the last one, and the circular steps follow the turned list.\<close>

definition turned :: "'k \<Rightarrow> addr list \<Rightarrow> addr list" where
  "turned k xs = elems_from key k xs @ elems_below key k xs"

lemma turned_mem: "set (turned k xs) = set xs"
  by (auto simp: turned_def elems_from_def elems_below_def)

lemma turned_length: "length (turned k xs) = length xs"
  using sum_length_filter_compl [of "\<lambda>x. key x < k" xs] by (simp add: turned_def elems_from_def elems_below_def not_less)

lemma split: "elems s xs \<Longrightarrow> xs = elems_below key k xs @ elems_from key k xs"
  using split_keys [OF sorted, of s xs k] by (simp add: elems_below_def elems_from_def)

lemma succ_turned: "elems s xs \<Longrightarrow> closest_succ s k = Some (first (turned k xs))"
  using succ [of s xs k] split [of s xs k] by (auto simp: turned_def)

lemma pred_turned: "elems s xs \<Longrightarrow> closest_pred s k = Some (final (turned k xs))"
  using pred [of s xs k] split [of s xs k] by (auto simp: turned_def)

lemma turned_split:
  assumes "elems s xs" "turned k xs = as @ x # bs"
  obtains c d where "xs = c @ x # d" "bs @ as = d @ c"
proof -
  have xs: "xs = elems_below key k xs @ elems_from key k xs" using split [OF assms(1)] .
  from assms(2) consider u where "as = elems_from key k xs @ u" "elems_below key k xs = u @ x # bs"
    | u where "elems_from key k xs = as @ x # u" "bs = u @ elems_below key k xs"
    unfolding turned_def append_eq_append_conv2 by (auto simp: append_eq_Cons_conv Cons_eq_append_conv)
  then show thesis
  proof cases
    case (1 u)
    show ?thesis by (rule that [of u "bs @ elems_from key k xs"]) (use xs 1 in auto)
  next
    case (2 u)
    show ?thesis by (rule that [of "elems_below key k xs @ as" u]) (use xs 2 in auto)
  qed
qed

lemma next_turned:
  assumes "elems s xs" "turned k xs = as @ x # bs"
  shows "(case nxt s x of None \<Rightarrow> first_of s | Some y \<Rightarrow> Some y) = first (bs @ as @ [x])"
proof -
  obtain c d where cd: "xs = c @ x # d" "bs @ as = d @ c" using turned_split [OF assms] .
  have "(case nxt s x of None \<Rightarrow> first_of s | Some y \<Rightarrow> Some y) = first (d @ c @ [x])"
    using beside [of s c x d] ends [of s xs] assms(1) cd(1) by (cases d) auto
  then show ?thesis using cd(2) by (metis append.assoc)
qed

lemma prev_turned:
  assumes "elems s xs" "turned k xs = as @ x # bs"
  shows "(case prv s x of None \<Rightarrow> last_of s | Some y \<Rightarrow> Some y) = final ([x] @ bs @ as)"
proof -
  obtain c d where cd: "xs = c @ x # d" "bs @ as = d @ c" using turned_split [OF assms] .
  have "(case prv s x of None \<Rightarrow> last_of s | Some y \<Rightarrow> Some y) = final ([x] @ d @ c)"
    using beside [of s c x d] ends [of s xs] assms(1) cd(1) by (cases c rule: rev_cases) auto
  then show ?thesis using cd(2) by simp
qed

end

interpretation sk: sorted_ring kf "sorted_elems kf" head tail sk_next sk_prev "sk_closestpred kf" "sk_closestsucc kf"
  for kf :: "addr \<Rightarrow> 'k :: linorder"
proof
  fix s xs k
  assume "sorted_elems kf s xs"
  then obtain h where inv: "skip_inv kf s h xs" by (auto simp: sorted_elems_def)
  show "keys_inc kf xs" "head s = first xs \<and> tail s = final xs" using inv by (simp_all add: skip_inv_def)
  show "sk_closestpred kf s k = Some (if elems_below kf k xs = [] then final xs else final (elems_below kf k xs))"
    by (rule closestpred_inv [OF inv])
  show "sk_closestsucc kf s k = Some (if elems_from kf k xs = [] then first xs else first (elems_from kf k xs))"
    by (rule closestsucc_inv [OF inv])
next
  fix s as x bs
  assume "sorted_elems kf s (as @ x # bs)"
  then show "sk_next s x = first bs \<and> sk_prev s x = final as" using neighbours by (auto simp: sorted_elems_def)
qed

text \<open>
  C15: the skip list is a sorted list. Whatever the random levels, an insertion links the element at its place, or
  changes nothing and returns false when its key is there; a removal unlinks the element with the key, if there
  is one, and returns it; a search finds it; the closest successor and predecessor of a key wrap around; both
  traversals visit all elements in order; the size is the number of elements; and the check of the representation
  succeeds. No operation follows a null pointer or runs forever.
\<close>

theorem skiplist_is_sorted_list:
  assumes "sorted_elems kf s xs" "elm \<notin> set xs"
  shows "(if kf elm \<in> kf ` set xs then sk_insert kf coins elm s = Some (s, False)
      else \<exists>s'. sk_insert kf coins elm s = Some (s', True)
        \<and> sorted_elems kf s' (elems_below kf (kf elm) xs @ elm # elems_from kf (kf elm) xs))
    \<and> (\<exists>s'. sk_remove kf s k = Some (s', find (\<lambda>x. kf x = k) xs) \<and> sorted_elems kf s' (filter (\<lambda>x. kf x \<noteq> k) xs))
    \<and> search kf s k = Some (find (\<lambda>x. kf x = k) xs)
    \<and> sk_closestsucc kf s k = Some (first (elems_from kf k xs @ elems_below kf k xs))
    \<and> sk_closestpred kf s k = Some (final (elems_from kf k xs @ elems_below kf k xs))
    \<and> traverse s = Some xs \<and> rtraverse s = Some (rev xs) \<and> sz s = length xs \<and> repok kf s = Some ()"
proof -
  obtain h where inv: "skip_inv kf s h xs" using assms(1) by (auto simp: sorted_elems_def)
  note i = inv [unfolded skip_inv_def]
  have "traverse s = Some xs" "rtraverse s = Some (rev xs)" "sz s = length xs"
    using traverse_chain [of s h None xs] rtraverse_chain [of s h xs "[]"] i by (auto simp: traverse_def rtraverse_def)
  then show ?thesis
    using insert_sorted_elems [OF assms, of coins] remove_sorted_elems [OF assms(1), of k] search_inv [OF inv, of k]
      sk.succ_turned [OF assms(1), of k] sk.pred_turned [OF assms(1), of k] repok_inv [OF inv]
    by (simp only: sk.turned_def simp_thms)
qed

lemma new_sorted_elems: "\<forall>x. length (forward (hp x)) = 16 \<Longrightarrow> sorted_elems kf (new_skiplist hp) []"
  by (auto simp: sorted_elems_def skip_inv_def new_skiplist_def heap_ok_def keys_inc_def)

definition blank :: sklist_entry where
  "blank = \<lparr>previous = None, forward = replicate 16 None\<rparr>"

theorem skiplist_is_sorted_list_witness:
  "\<exists>s s'. sk_insert (\<lambda>x. x) [True, True] 3 (new_skiplist (\<lambda>_. blank)) = Some (s, True) \<and> sk_insert (\<lambda>x. x) [] 5 s = Some (s', True)
     \<and> search (\<lambda>x. x) s' 3 = Some (Some 3) \<and> sk_closestsucc (\<lambda>x. x) s' 6 = Some (Some 3) \<and> traverse s' = Some [3, 5]"
proof -
  let ?k = "\<lambda>x :: nat. x"
  have "sorted_elems ?k (new_skiplist (\<lambda>_. blank)) []" by (simp add: new_sorted_elems blank_def)
  from skiplist_is_sorted_list [OF this, of 3 "[True, True]"] obtain s
    where s: "sk_insert ?k [True, True] 3 (new_skiplist (\<lambda>_. blank)) = Some (s, True)" "sorted_elems ?k s [3]"
    by (auto simp: elems_below_def elems_from_def)
  from skiplist_is_sorted_list [OF s(2), of 5 "[]"] obtain s'
    where s': "sk_insert ?k [] 5 s = Some (s', True)" "sorted_elems ?k s' [3, 5]"
    by (auto simp: elems_below_def elems_from_def)
  have "search ?k s' 3 = Some (Some 3) \<and> sk_closestsucc ?k s' 6 = Some (Some 3) \<and> traverse s' = Some [3, 5]"
    using skiplist_is_sorted_list [OF s'(2), of 0 "[]" 3] skiplist_is_sorted_list [OF s'(2), of 0 "[]" 6]
    by (auto simp: elems_below_def elems_from_def)
  then show ?thesis using s(1) s'(1) by blast
qed

text \<open>The check \<^verbatim>\<open>repok\<close> looks at the top level only: a list whose lowest level is out of order passes.\<close>

lemma repok_top_level_only:
  "repok (\<lambda>x. 5 - x)
     \<lparr>heap = (\<lambda>_. blank)(0 := \<lparr>previous = None, forward = Some 1 # replicate 15 None\<rparr>), head = Some 0, tail = Some 1, sz = 2, lvl = 2\<rparr>
   = Some ()"
  by (simp add: repok_def numeral_2_eq_2 repok_level.simps fwd_def)

end
