(* ===== verification/Location_Table.thy ===== *)
theory Location_Table
  imports Location Skiplist_Correct
begin

text \<open>
  The table of the nodes a Chord node knows (\<^verbatim>\<open>utils/locationtable.C\<close>). A \<^verbatim>\<open>locwrap\<close> and a \<^verbatim>\<open>pininfo\<close> are objects at
  addresses; the hash table \<^verbatim>\<open>locs\<close> is the list of its entries in the order of its traversal, on which nothing
  depends; \<^verbatim>\<open>cachedlocs\<close> is a queue, least recently used first; \<^verbatim>\<open>loclist\<close> and \<^verbatim>\<open>pinlist\<close> are skip lists ordered by
  identifier. A failed assertion, a \<^verbatim>\<open>fatal\<close> and a null pointer are \<open>None\<close>.
\<close>

record locwrap =
  loc :: location
  lw_n :: chordID
  is_pinned :: bool

record pininfo =
  pin_n :: chordID
  pinself :: bool
  pinsucc :: nat
  pinpred :: nat

record locationtable =
  wraps :: "addr \<Rightarrow> locwrap"
  pins :: "addr \<Rightarrow> pininfo"
  fresh :: addr
  locs :: "addr list"
  cachedlocs :: "addr list"
  loclist :: skiplist
  pinlist :: skiplist
  max_cachedlocs :: nat
  nnodessum :: nat
  nnodes :: nat
  nvnodes :: nat
  pins_updated :: bool

definition loc_key :: "locationtable \<Rightarrow> addr \<Rightarrow> chordID" where
  "loc_key t a = lw_n (wraps t a)"

definition pin_key :: "locationtable \<Rightarrow> addr \<Rightarrow> chordID" where
  "pin_key t a = pin_n (pins t a)"

definition new_locationtable :: "nat \<Rightarrow> locationtable" where
  "new_locationtable max_cache =
     \<lparr>wraps = (\<lambda>_. \<lparr>loc = new_location 0 True 0 [] 0 0 0 0 0 0 False, lw_n = 0, is_pinned = False\<rparr>),
      pins = (\<lambda>_. \<lparr>pin_n = 0, pinself = False, pinsucc = 0, pinpred = 0\<rparr>), fresh = 0, locs = [], cachedlocs = [],
      loclist = new_skiplist (\<lambda>_. blank), pinlist = new_skiplist (\<lambda>_. blank), max_cachedlocs = max_cache,
      nnodessum = 0, nnodes = 0, nvnodes = 0, pins_updated = False\<rparr>"

definition locs_find :: "locationtable \<Rightarrow> chordID \<Rightarrow> addr option" where
  "locs_find t x = find (\<lambda>a. loc_key t a = x) (locs t)"

definition next_lw :: "locationtable \<Rightarrow> addr \<Rightarrow> addr option" where
  "next_lw t lw = (case sk_next (loclist t) lw of None \<Rightarrow> head (loclist t) | Some y \<Rightarrow> Some y)"

definition prev_lw :: "locationtable \<Rightarrow> addr \<Rightarrow> addr option" where
  "prev_lw t lw = (case sk_prev (loclist t) lw of None \<Rightarrow> tail (loclist t) | Some y \<Rightarrow> Some y)"

definition good :: "locationtable \<Rightarrow> addr \<Rightarrow> bool option" where
  "good t a = (if vnode (loc (wraps t a)) \<ge> 0 then Some (is_alive (loc (wraps t a))) else None)"

definition lt_size :: "locationtable \<Rightarrow> nat" where
  "lt_size t = length (locs t)"

primrec count_good :: "locationtable \<Rightarrow> addr list \<Rightarrow> nat option" where
  "count_good t [] = Some 0"
| "count_good t (a # as) = do { g \<leftarrow> good t a; n \<leftarrow> count_good t as; Some (if g then n + 1 else n) }"

definition usablenodes :: "locationtable \<Rightarrow> nat option" where
  "usablenodes t = count_good t (locs t)"

definition estimate_nodes :: "locationtable \<Rightarrow> nat option" where
  "estimate_nodes t = do { g \<leftarrow> usablenodes t; Some (if g > nnodes t then g else nnodes t) }"

text \<open>The sum is an unsigned long; the result is meaningful when \<^verbatim>\<open>o\<close> is part of it.\<close>

definition replace_estimate :: "nat \<Rightarrow> nat \<Rightarrow> locationtable \<Rightarrow> locationtable option" where
  "replace_estimate old new t =
     (if nvnodes t > 0
      then (let total = nat ((int (nnodessum t) - int old + int new) mod 2 ^ 64)
            in Some (t\<lparr>nnodessum := total, nnodes := total div nvnodes t\<rparr>))
      else None)"

definition incvnodes :: "locationtable \<Rightarrow> locationtable" where
  "incvnodes t = t\<lparr>nvnodes := nvnodes t + 1\<rparr>"

subsection \<open>Pins\<close>

definition set_pinned :: "addr \<Rightarrow> bool \<Rightarrow> locationtable \<Rightarrow> locationtable" where
  "set_pinned a b t = t\<lparr>wraps := (wraps t)(a := (wraps t a)\<lparr>is_pinned := b\<rparr>)\<rparr>"

text \<open>The loop of \<^verbatim>\<open>process_pin\<close>: at most once around the ring, and only until \<open>to_pin\<close> good nodes are pinned.\<close>

fun process_loop :: "bool \<Rightarrow> nat \<Rightarrow> nat \<Rightarrow> addr option \<Rightarrow> locationtable \<Rightarrow> locationtable option" where
  "process_loop forth to_pin cursz None t = None"
| "process_loop forth to_pin 0 (Some cur) t = None"
| "process_loop forth to_pin (Suc cursz) (Some cur) t =
     do { g \<leftarrow> good t cur;
          let (t, to_pin) = (if g then (set_pinned cur True t, to_pin - 1) else (t, to_pin));
          let cur = (if forth then next_lw t cur else prev_lw t cur);
          if to_pin > 0 \<and> cursz > 0 then process_loop forth to_pin cursz cur t else Some t }"

definition process_pin :: "pininfo \<Rightarrow> int \<Rightarrow> locationtable \<Rightarrow> locationtable option" where
  "process_pin cpin num t =
     do { let to_pin = nat \<bar>num\<bar>;
          cur \<leftarrow> (if num > 0 then sk_closestsucc (loc_key t) (loclist t) (pin_n cpin)
                  else sk_closestpred (loc_key t) (loclist t) (pin_n cpin));
          process_loop (num > 0) to_pin (lt_size t) cur t }"

primrec pin_selves :: "addr list \<Rightarrow> locationtable \<Rightarrow> locationtable option" where
  "pin_selves [] t = Some t"
| "pin_selves (c # cs) t =
     do { let cpin = pins t c;
          t \<leftarrow> (if pinpred cpin > 0
                then do { p \<leftarrow> sk_closestpred (loc_key t) (loclist t) (pin_n cpin); a \<leftarrow> p; Some (set_pinned a True t) }
                else Some t);
          t \<leftarrow> (if pinself cpin then do { a \<leftarrow> locs_find t (pin_n cpin); Some (set_pinned a True t) } else Some t);
          pin_selves cs t }"

primrec process_pins :: "addr list \<Rightarrow> locationtable \<Rightarrow> locationtable option" where
  "process_pins [] t = Some t"
| "process_pins (c # cs) t =
     do { let cpin = pins t c;
          t \<leftarrow> (if pinsucc cpin > 0 then process_pin cpin (int (pinsucc cpin)) t else Some t);
          t \<leftarrow> (if pinpred cpin > 0 then process_pin cpin (- int (pinpred cpin)) t else Some t);
          process_pins cs t }"

definition figure_pins :: "locationtable \<Rightarrow> locationtable option" where
  "figure_pins t =
     do { let t = t\<lparr>pins_updated := True\<rparr>;
          if head (pinlist t) = None \<or> head (loclist t) = None then Some t
          else do { cur \<leftarrow> traverse (loclist t);
                    let t = fold (\<lambda>a. set_pinned a False) cur t;
                    cpins \<leftarrow> traverse (pinlist t);
                    t \<leftarrow> pin_selves cpins t;
                    process_pins cpins t } }"

definition pin :: "bool list \<Rightarrow> chordID \<Rightarrow> int \<Rightarrow> locationtable \<Rightarrow> locationtable option" where
  "pin coins x num t =
     do { let t = t\<lparr>pins_updated := False\<rparr>;
          p \<leftarrow> search (pin_key t) (pinlist t) x;
          case p of
            Some a \<Rightarrow>
              (let c = pins t a;
                   c = (if num = 0 then c\<lparr>pinself := True\<rparr> else if num > 0 then c\<lparr>pinsucc := nat num\<rparr> else c\<lparr>pinpred := nat (- num)\<rparr>)
               in Some (t\<lparr>pins := (pins t)(a := c)\<rparr>))
          | None \<Rightarrow>
              do { let a = fresh t;
                   let c = (if num = 0 then \<lparr>pin_n = x, pinself = True, pinsucc = 0, pinpred = 0\<rparr>
                            else if num > 0 then \<lparr>pin_n = x, pinself = False, pinsucc = nat num, pinpred = 0\<rparr>
                            else \<lparr>pin_n = x, pinself = False, pinsucc = 0, pinpred = nat (- num)\<rparr>);
                   let t = t\<lparr>pins := (pins t)(a := c), fresh := a + 1\<rparr>;
                   (l, _) \<leftarrow> sk_insert (pin_key t) coins a (pinlist t);
                   Some (t\<lparr>pinlist := l\<rparr>) } }"

definition unpin :: "chordID \<Rightarrow> locationtable \<Rightarrow> locationtable option" where
  "unpin x t =
     do { let t = t\<lparr>pins_updated := False\<rparr>;
          p \<leftarrow> search (pin_key t) (pinlist t) x;
          case p of
            None \<Rightarrow> Some t
          | Some a \<Rightarrow> do { (l, _) \<leftarrow> sk_remove (pin_key t) (pinlist t) x; Some (t\<lparr>pinlist := l\<rparr>) } }"

definition pinned :: "chordID \<Rightarrow> locationtable \<Rightarrow> (locationtable \<times> bool) option" where
  "pinned x t =
     (case locs_find t x of
        None \<Rightarrow> Some (t, False)
      | Some l \<Rightarrow> do { t \<leftarrow> (if \<not> pins_updated t then figure_pins t else Some t); Some (t, is_pinned (wraps t l)) })"

subsection \<open>Insertion, eviction, lookup\<close>

definition remove_lw :: "addr \<Rightarrow> locationtable \<Rightarrow> locationtable option" where
  "remove_lw lw t =
     do { (l, _) \<leftarrow> sk_remove (loc_key t) (loclist t) (lw_n (wraps t lw));
          Some (t\<lparr>pins_updated := False, locs := removeAll lw (locs t), loclist := l, cachedlocs := removeAll lw (cachedlocs t)\<rparr>) }"

text \<open>One pass over the queue; the successor of an element is read before the element is removed.\<close>

primrec evict_pass :: "bool \<Rightarrow> bool \<Rightarrow> addr list \<Rightarrow> nat \<Rightarrow> locationtable \<Rightarrow> (locationtable \<times> nat) option" where
  "evict_pass all badonly [] n t = Some (t, n)"
| "evict_pass all badonly (cur # rest) n t =
     (if n = 0 then Some (t, n)
      else do { drop \<leftarrow> (if is_pinned (wraps t cur) then Some False
                         else if all then Some True
                         else if badonly then map_option Not (good t cur) else Some True);
                if drop then do { t \<leftarrow> remove_lw cur t; evict_pass all badonly rest (n - 1) t }
                else evict_pass all badonly rest n t })"

text \<open>The pins are marked as out of date at the end only when too little was evicted: the statement follows an \<^verbatim>\<open>if\<close>
  whose own statement is commented out.\<close>

definition evict :: "nat \<Rightarrow> locationtable \<Rightarrow> locationtable option" where
  "evict n t =
     do { t \<leftarrow> figure_pins t;
          let all = (n = 0);
          let n = (if all then lt_size t else n);
          (t, n) \<leftarrow> evict_pass all True (cachedlocs t) n t;
          (t, n) \<leftarrow> (if n = 0 \<or> all then Some (t, n) else evict_pass all False (cachedlocs t) n t);
          Some (if n > 0 \<and> \<not> all then t\<lparr>pins_updated := False\<rparr> else t) }"

definition flush :: "locationtable \<Rightarrow> locationtable option" where
  "flush t = evict 0 t"

definition lookup :: "chordID \<Rightarrow> locationtable \<Rightarrow> locationtable \<times> addr option" where
  "lookup n t =
     (case locs_find t n of
        None \<Rightarrow> (t, None)
      | Some l \<Rightarrow> (t\<lparr>cachedlocs := removeAll l (cachedlocs t) @ [l]\<rparr>, Some l))"

definition set_loc :: "addr \<Rightarrow> location \<Rightarrow> locationtable \<Rightarrow> locationtable" where
  "set_loc a l t = t\<lparr>wraps := (wraps t)(a := (wraps t a)\<lparr>loc := l\<rparr>)\<rparr>"

definition realinsert :: "int \<Rightarrow> bool list \<Rightarrow> location \<Rightarrow> locationtable \<Rightarrow> (locationtable \<times> location) option" where
  "realinsert now coins l t =
     (case lookup (l_id l) t of
        (t, Some a) \<Rightarrow> (let l' = fst (update now (loc (wraps t a)) l) in Some (set_loc a l' t, l'))
      | (t, None) \<Rightarrow>
          do { let a = fresh t;
               let t = t\<lparr>wraps := (wraps t)(a := \<lparr>loc = l, lw_n = l_id l, is_pinned = False\<rparr>), fresh := a + 1\<rparr>;
               (sl, _) \<leftarrow> sk_insert (loc_key t) coins a (loclist t);
               let t = t\<lparr>locs := a # locs t, loclist := sl, cachedlocs := cachedlocs t @ [a], pins_updated := False\<rparr>;
               t \<leftarrow> (if lt_size t > max_cachedlocs t then evict (lt_size t - max_cachedlocs t) t else Some t);
               Some (t, l) })"

definition insert_loc :: "int \<Rightarrow> bool list \<Rightarrow> location \<Rightarrow> locationtable \<Rightarrow> (locationtable \<times> location option) option" where
  "insert_loc now coins l t =
     (if vnode l < 0 then Some (t, None) else do { (t, l) \<leftarrow> realinsert now coins l t; Some (t, Some l) })"

definition lookup_or_create :: "location \<Rightarrow> locationtable \<Rightarrow> locationtable \<times> location option" where
  "lookup_or_create l t =
     (case lookup (l_id l) t of
        (t, Some a) \<Rightarrow> (t, Some (loc (wraps t a)))
      | (t, None) \<Rightarrow> (t, if vnode l < 0 then None else Some l))"

primrec anyloc :: "chordID \<Rightarrow> addr list \<Rightarrow> locationtable \<Rightarrow> chordID option option" where
  "anyloc n [] t = Some None"
| "anyloc n (a # as) t =
     do { g \<leftarrow> good t a;
          if g \<and> l_id (loc (wraps t a)) \<noteq> n then Some (Some (l_id (loc (wraps t a)))) else anyloc n as t }"

definition lookup_anyloc :: "chordID \<Rightarrow> locationtable \<Rightarrow> chordID option option" where
  "lookup_anyloc n t = anyloc n (locs t) t"

definition cached :: "chordID \<Rightarrow> locationtable \<Rightarrow> bool" where
  "cached x t \<longleftrightarrow> locs_find t x \<noteq> None"

subsection \<open>Neighbours on the ring\<close>

text \<open>The search for a good node; \<open>sz\<close> counts the nodes that are passed, and the assertion behind the loop fails when
  all of them were.\<close>

fun seek :: "bool \<Rightarrow> chordID list \<Rightarrow> nat \<Rightarrow> addr option \<Rightarrow> locationtable \<Rightarrow> addr option" where
  "seek forth failed n None t = None"
| "seek forth failed n (Some l) t =
     do { g \<leftarrow> good t l;
          if g \<and> l_id (loc (wraps t l)) \<notin> set failed then if n > 0 then Some l else None
          else case n of 0 \<Rightarrow> None | Suc m \<Rightarrow> seek forth failed m (if forth then next_lw t l else prev_lw t l) t }"

definition closestsuccloc :: "chordID \<Rightarrow> locationtable \<Rightarrow> location option" where
  "closestsuccloc x t =
     do { l \<leftarrow> (case locs_find t x of Some l \<Rightarrow> Some (Some l) | None \<Rightarrow> sk_closestsucc (loc_key t) (loclist t) x);
          l \<leftarrow> seek True [] (lt_size t) l t;
          Some (loc (wraps t l)) }"

definition closestpredloc :: "chordID \<Rightarrow> chordID list \<Rightarrow> locationtable \<Rightarrow> location option" where
  "closestpredloc x failed t =
     do { l \<leftarrow> (case locs_find t x of Some l \<Rightarrow> Some (prev_lw t l) | None \<Rightarrow> sk_closestpred (loc_key t) (loclist t) x);
          l \<leftarrow> seek False failed (lt_size t) l t;
          Some (loc (wraps t l)) }"

definition first_loc :: "locationtable \<Rightarrow> location option" where
  "first_loc t = map_option (\<lambda>a. loc (wraps t a)) (head (loclist t))"

definition next_loc :: "chordID \<Rightarrow> locationtable \<Rightarrow> location option option" where
  "next_loc n t = do { f \<leftarrow> locs_find t n; Some (map_option (\<lambda>a. loc (wraps t a)) (sk_next (loclist t) f)) }"

end
