(* ===== verification/Chord_Node.thy ===== *)
theory Chord_Node
  imports Location_Table
begin

text \<open>
  A Chord node: its successor list, predecessor list and finger table (\<^verbatim>\<open>chord/succ_list.C\<close>, \<^verbatim>\<open>chord/pred_list.C\<close>,
  \<^verbatim>\<open>chord/finger_table.C\<close>), the choice of the next hop (\<^verbatim>\<open>chord/fingerroute.C\<close>), the handlers of \<^verbatim>\<open>chord/chord.C\<close> and the
  callbacks of stabilisation. All three structures are views of one location table. A remote call is returned as a
  value of \<open>rpc\<close>; its callback is a function of the reply. A node in a message is the location that the receiver makes
  of it; \<open>wire\<close> is that conversion (\<open>wire_loc\<close> of the theory \<open>Location\<close>), \<open>now\<close> the clock and \<open>coins\<close> the coin flips of the skip list when a node is inserted.
  Pointers to locations are compared by identifier: the table holds one location for each. \<open>None\<close> is a
  failed assertion, a null pointer or division by 0.
\<close>

record succ_list =
  nsucc_max :: int
  sl_nnodes :: nat
  oldsucc :: chordID
  stable_succlist :: bool
  stable_succlist2 :: bool
  sl_backoff :: int
  sl_continuous :: int

record pred_list =
  npred_max :: int
  oldpred :: chordID
  pl_backoff :: int
  pl_continuous :: int
  stable_predlist :: bool

record finger_table =
  fingers :: "nat \<Rightarrow> chordID option"
  ft_f :: nat
  stable_fingers :: bool
  stable_fingers2 :: bool
  ft_backoff :: int
  nslowfinger :: nat
  nfastfinger :: nat

text \<open>The calls of \<^verbatim>\<open>delaycb\<close> that are pending: a check of a dead node after so many seconds, the fetch of the first
  fingers.\<close>

datatype timer = CheckDead location int | FirstFingers

record vnode =
  my_location :: location
  locations :: locationtable
  successors :: succ_list
  predecessors :: pred_list
  fingertab :: finger_table
  gotfingers :: bool
  checkdead_int :: int
  dead_nodes :: "chordID list"
  timers :: "timer list"

abbreviation myID :: "vnode \<Rightarrow> chordID" where
  "myID v \<equiv> l_id (my_location v)"

datatype rpc =
    GetSuccessor chordID
  | GetPredecessor chordID
  | GetSucclist chordID
  | GetPredlist chordID
  | Notify chordID location
  | Alert chordID location
  | FindRoute chordID chordID
  | Ping chordID
  | FindSuccessor chordID nat
  | GetFingers chordID

text \<open>An answer, or an error: a status of the other node, a timeout, another failure of the call.\<close>

datatype 'a reply = Reply 'a | ErrNoEnt | TimedOut | Failed

text \<open>\<^verbatim>\<open>locations->insert (n)\<close>\<close>

definition insert_node :: "int \<Rightarrow> (chordID \<Rightarrow> bool list) \<Rightarrow> location \<Rightarrow> vnode \<Rightarrow> (vnode \<times> location option) option" where
  "insert_node now coins n v =
     do { (t, r) \<leftarrow> insert_loc now (coins (l_id n)) n (locations v); Some (v\<lparr>locations := t\<rparr>, r) }"

fun insert_nodes :: "int \<Rightarrow> (chordID \<Rightarrow> bool list) \<Rightarrow> location list \<Rightarrow> vnode \<Rightarrow> vnode option" where
  "insert_nodes now coins [] v = Some v"
| "insert_nodes now coins (n # ns) v = do { (v, _) \<leftarrow> insert_node now coins n v; insert_nodes now coins ns v }"

subsection \<open>Successor list\<close>

definition new_succ_list :: "int \<Rightarrow> chordID \<Rightarrow> succ_list" where
  "new_succ_list nsucc me =
     \<lparr>nsucc_max = nsucc, sl_nnodes = 0, oldsucc = me, stable_succlist = False, stable_succlist2 = False,
      sl_backoff = 0, sl_continuous = 0\<rparr>"

definition succ :: "vnode \<Rightarrow> location option" where
  "succ v = closestsuccloc (incID (myID v)) (locations v)"

definition num_succ :: "vnode \<Rightarrow> nat option" where
  "num_succ v =
     do { g \<leftarrow> usablenodes (locations v);
          let goodnodes = int g - 1;
          let newnsucc = (if nsucc_max (successors v) > goodnodes then goodnodes else nsucc_max (successors v));
          Some (if newnsucc < 0 then 0 else nat newnsucc) }"

text \<open>A location and the \<open>k\<close> that follow it.\<close>

fun succ_walk :: "locationtable \<Rightarrow> nat \<Rightarrow> location \<Rightarrow> location list option" where
  "succ_walk t 0 cur = Some [cur]"
| "succ_walk t (Suc k) cur =
     do { n \<leftarrow> closestsuccloc (incID (l_id cur)) t; rest \<leftarrow> succ_walk t k n; Some (cur # rest) }"

definition succs :: "vnode \<Rightarrow> location list option" where
  "succs v = do { cur \<leftarrow> succ v; n \<leftarrow> num_succ v; succ_walk (locations v) (n - 1) cur }"

definition estimate_nnodes :: "vnode \<Rightarrow> nat option" where
  "estimate_nnodes v =
     do { nsucc \<leftarrow> num_succ v;
          walk \<leftarrow> succ_walk (locations v) nsucc (my_location v);
          let d = diff (myID v) (l_id (last walk));
          if d > 0 \<and> nsucc > 0
          then (let s = d div int nsucc; c = push_bit NBIT 1
                in if s = 0 then None else Some (nat ((c div s) mod 2 ^ 64)))
          else Some 1 }"

text \<open>The node itself and its successors; the location behind the last one is looked up as well.\<close>

definition succ_nodelist :: "(location \<Rightarrow> location) \<Rightarrow> vnode \<Rightarrow> location list option" where
  "succ_nodelist wire v =
     do { curnsucc \<leftarrow> num_succ v;
          walk \<leftarrow> succ_walk (locations v) (curnsucc + 1) (my_location v);
          Some (map wire (take (curnsucc + 1) walk)) }"

fun succ_pred_loop :: "vnode \<Rightarrow> chordID \<Rightarrow> chordID list \<Rightarrow> nat \<Rightarrow> location \<Rightarrow> location option" where
  "succ_pred_loop v x failed 0 best = Some best"
| "succ_pred_loop v x failed (Suc k) best =
     do { n \<leftarrow> closestsuccloc (incID (l_id best)) (locations v);
          succ_pred_loop v x failed k
            (if between (myID v) x (l_id n) \<and> l_id n \<notin> set failed then n else best) }"

definition succ_closestpred :: "vnode \<Rightarrow> chordID \<Rightarrow> chordID list \<Rightarrow> location option" where
  "succ_closestpred v x failed = do { n \<leftarrow> num_succ v; succ_pred_loop v x failed n (my_location v) }"

subsection \<open>Finger table\<close>

definition new_finger_table :: finger_table where
  "new_finger_table =
     \<lparr>fingers = (\<lambda>_. None), ft_f = 0, stable_fingers = False, stable_fingers2 = False, ft_backoff = 0,
      nslowfinger = 0, nfastfinger = 0\<rparr>"

definition start :: "vnode \<Rightarrow> nat \<Rightarrow> chordID" where
  "start v i = successorID (myID v) i"

definition finger :: "vnode \<Rightarrow> nat \<Rightarrow> location option" where
  "finger v i = closestsuccloc (start v i) (locations v)"

text \<open>The fingers below number \<open>n\<close>, the last one first.\<close>

fun finger_pred_loop :: "vnode \<Rightarrow> chordID \<Rightarrow> chordID list \<Rightarrow> nat \<Rightarrow> location option" where
  "finger_pred_loop v x failed 0 = Some (my_location v)"
| "finger_pred_loop v x failed (Suc i) =
     do { n \<leftarrow> finger v i;
          if between (myID v) x (l_id n) \<and> l_id n \<notin> set failed then Some n
          else finger_pred_loop v x failed i }"

definition finger_closestpred :: "vnode \<Rightarrow> chordID \<Rightarrow> chordID list \<Rightarrow> location option" where
  "finger_closestpred v x failed = finger_pred_loop v x failed NBIT"

fun get_fingers_loop :: "vnode \<Rightarrow> chordID \<Rightarrow> nat list \<Rightarrow> location list option" where
  "get_fingers_loop v prev [] = Some []"
| "get_fingers_loop v prev (i # is) =
     do { cur \<leftarrow> finger v i;
          rest \<leftarrow> get_fingers_loop v (l_id cur) is;
          Some (if l_id cur \<noteq> prev then cur # rest else rest) }"

definition get_fingers :: "vnode \<Rightarrow> location list option" where
  "get_fingers v = get_fingers_loop v (myID v) [0..<NBIT]"

definition finger_nodelist :: "(location \<Rightarrow> location) \<Rightarrow> vnode \<Rightarrow> location list option" where
  "finger_nodelist wire v = do { fs \<leftarrow> get_fingers v; Some (map wire (my_location v # fs)) }"

subsection \<open>The next hop\<close>

definition closestpred :: "vnode \<Rightarrow> chordID \<Rightarrow> chordID list \<Rightarrow> location option" where
  "closestpred v x failed =
     do { f \<leftarrow> finger_closestpred v x failed;
          u \<leftarrow> succ_closestpred v x failed;
          Some (if l_id f = myID v then u
                else if between (myID v) (l_id f) (l_id u) then f else u) }"

datatype testandfindres =
    Stop
  | InRange "location list"
  | NotInRange location "location list"

text \<open>The handler of a hop; \<open>upcall\<close> is the answer of the upcall, if the request carries one.\<close>

definition doroute :: "(location \<Rightarrow> location) \<Rightarrow> vnode \<Rightarrow> chordID \<Rightarrow> chordID list \<Rightarrow> bool option \<Rightarrow> testandfindres option" where
  "doroute wire v x failed upcall =
     do { s \<leftarrow> succ v;
          res \<leftarrow> (if betweenrightincl (myID v) (l_id s) x
                  then do { ss \<leftarrow> succs v; Some (InRange (map wire ss)) }
                  else do { p \<leftarrow> closestpred v x failed;
                            ss \<leftarrow> succs v;
                            Some (NotInRange (wire p) (map wire ss)) });
          Some (if upcall = Some True then Stop else res) }"

subsection \<open>Predecessor\<close>

definition new_pred_list :: "int \<Rightarrow> chordID \<Rightarrow> pred_list" where
  "new_pred_list npred me = \<lparr>npred_max = npred, oldpred = me, pl_backoff = 0, pl_continuous = 0, stable_predlist = False\<rparr>"

definition pred :: "vnode \<Rightarrow> location option" where
  "pred v = closestpredloc (myID v) [] (locations v)"

definition num_pred :: "vnode \<Rightarrow> nat option" where
  "num_pred v =
     do { g \<leftarrow> usablenodes (locations v);
          let goodnodes = int g - 1;
          let newnpred = (if npred_max (predecessors v) > goodnodes then goodnodes else npred_max (predecessors v));
          Some (if newnpred < 0 then 0 else nat newnpred) }"

fun pred_walk :: "locationtable \<Rightarrow> nat \<Rightarrow> location \<Rightarrow> location list option" where
  "pred_walk t 0 cur = Some [cur]"
| "pred_walk t (Suc k) cur =
     do { n \<leftarrow> closestpredloc (decID (l_id cur)) [] t; rest \<leftarrow> pred_walk t k n; Some (cur # rest) }"

definition preds :: "vnode \<Rightarrow> location list option" where
  "preds v = do { cur \<leftarrow> pred v; n \<leftarrow> num_pred v; pred_walk (locations v) (n - 1) cur }"

definition pred_nodelist :: "(location \<Rightarrow> location) \<Rightarrow> vnode \<Rightarrow> location list option" where
  "pred_nodelist wire v =
     do { curnpred \<leftarrow> num_pred v;
          walk \<leftarrow> pred_walk (locations v) (curnpred + 1) (my_location v);
          Some (map wire (take (curnpred + 1) walk)) }"

definition update_pred :: "int \<Rightarrow> (chordID \<Rightarrow> bool list) \<Rightarrow> location \<Rightarrow> vnode \<Rightarrow> vnode option" where
  "update_pred now coins p v =
     do { curp \<leftarrow> pred v;
          v \<leftarrow> (if between (l_id curp) (myID v) (l_id p)
                then do { (v, _) \<leftarrow> insert_node now coins p v; Some v }
                else Some v);
          q \<leftarrow> pred v;
          Some (v\<lparr>predecessors := (predecessors v)\<lparr>oldpred := l_id q\<rparr>\<rparr>) }"

definition donotify :: "int \<Rightarrow> (chordID \<Rightarrow> bool list) \<Rightarrow> location \<Rightarrow> vnode \<Rightarrow> vnode option" where
  "donotify now coins n v = update_pred now coins n v"

definition stabilize_pred :: "vnode \<Rightarrow> (vnode \<times> rpc) option" where
  "stabilize_pred v =
     do { p \<leftarrow> pred v;
          if pl_continuous (predecessors v) = 0
          then Some (v\<lparr>predecessors := (predecessors v)\<lparr>pl_continuous := 1\<rparr>\<rparr>, GetSuccessor (l_id p))
          else None }"

text \<open>The reply of a callback is \<open>None\<close> when the call failed.\<close>

definition stabilize_getsucc_cb :: "int \<Rightarrow> (chordID \<Rightarrow> bool list) \<Rightarrow> location option \<Rightarrow> vnode \<Rightarrow> vnode option" where
  "stabilize_getsucc_cb now coins reply v =
     (let v = v\<lparr>predecessors := (predecessors v)\<lparr>pl_continuous := pl_continuous (predecessors v) - 1\<rparr>\<rparr>
      in case reply of
           None \<Rightarrow> Some v
         | Some s \<Rightarrow> if l_id s \<noteq> myID v then update_pred now coins s v else Some v)"

definition stabilize_predlist :: "vnode \<Rightarrow> (vnode \<times> rpc) option" where
  "stabilize_predlist v =
     do { p \<leftarrow> pred v;
          Some (v\<lparr>predecessors := (predecessors v)\<lparr>pl_backoff := pl_backoff (predecessors v) + 1\<rparr>\<rparr>, GetPredlist (l_id p)) }"

fun predlist_loop :: "int \<Rightarrow> (chordID \<Rightarrow> bool list) \<Rightarrow> location list \<Rightarrow> vnode \<Rightarrow> vnode option" where
  "predlist_loop now coins [] v = Some v"
| "predlist_loop now coins (n # pl) v =
     (if cached (l_id n) (locations v) then predlist_loop now coins pl v
      else do { (v, _) \<leftarrow> insert_node now coins n (v\<lparr>predecessors := (predecessors v)\<lparr>stable_predlist := False\<rparr>\<rparr>);
                predlist_loop now coins pl v })"

definition stabilize_predlist_cb :: "int \<Rightarrow> (chordID \<Rightarrow> bool list) \<Rightarrow> location list option \<Rightarrow> vnode \<Rightarrow> vnode option" where
  "stabilize_predlist_cb now coins reply v =
     (let v = v\<lparr>predecessors := (predecessors v)\<lparr>pl_backoff := pl_backoff (predecessors v) - 1\<rparr>\<rparr>
      in case reply of
           None \<Rightarrow> Some v
         | Some pl \<Rightarrow> predlist_loop now coins pl (v\<lparr>predecessors := (predecessors v)\<lparr>stable_predlist := True\<rparr>\<rparr>))"

definition pred_isstable :: "vnode \<Rightarrow> bool option" where
  "pred_isstable v = do { p \<leftarrow> pred v; Some (oldpred (predecessors v) = l_id p \<and> stable_predlist (predecessors v)) }"

subsection \<open>Stabilising the successor list\<close>

definition stabilize_succlist :: "vnode \<Rightarrow> (vnode \<times> rpc) option" where
  "stabilize_succlist v =
     (if sl_backoff (successors v) \<noteq> 0 then None
      else do { let sl = (successors v)\<lparr>stable_succlist2 := stable_succlist (successors v), stable_succlist := True\<rparr>;
                n \<leftarrow> estimate_nnodes v;
                t \<leftarrow> replace_estimate (sl_nnodes sl) n (locations v);
                let v = v\<lparr>locations := t, successors := sl\<lparr>sl_nnodes := n, sl_backoff := 1\<rparr>\<rparr>;
                s \<leftarrow> succ v;
                Some (v, GetSucclist (l_id s)) })"

definition set_stable :: "bool \<Rightarrow> vnode \<Rightarrow> vnode" where
  "set_stable b v = v\<lparr>successors := (successors v)\<lparr>stable_succlist := b\<rparr>\<rparr>"

definition add_backoff :: "int \<Rightarrow> vnode \<Rightarrow> vnode" where
  "add_backoff d v = v\<lparr>successors := (successors v)\<lparr>sl_backoff := sl_backoff (successors v) + d\<rparr>\<rparr>"

text \<open>\<^verbatim>\<open>succlist[i]->update (nlist[j])\<close> on the location of the table.\<close>

definition update_known :: "int \<Rightarrow> location \<Rightarrow> vnode \<Rightarrow> vnode" where
  "update_known now n v =
     (case locs_find (locations v) (l_id n) of
        None \<Rightarrow> v
      | Some a \<Rightarrow>
          v\<lparr>locations := set_loc a
              (update_chord_node now (loc (wraps (locations v) a)) (age_then n) (knownup n) (budget n)) (locations v)\<rparr>)"

text \<open>The merge of the own list with the successor's, without its last node: nodes only in the own list are pinged, nodes
  only in the other are inserted. \<open>None\<close> also when none of the three cases applies, where the loop would not end.\<close>

fun merge_succs :: "int \<Rightarrow> (chordID \<Rightarrow> bool list) \<Rightarrow> location list \<Rightarrow> location list \<Rightarrow> vnode \<times> rpc list
    \<Rightarrow> (location list \<times> location list \<times> vnode \<times> rpc list) option" where
  "merge_succs now coins (s # succlist) (n # nlist) (v, calls) =
     (if l_id s = l_id n then merge_succs now coins succlist nlist (update_known now n v, calls)
      else if between (myID v) (l_id n) (l_id s)
      then merge_succs now coins succlist (n # nlist) (add_backoff 1 v, calls @ [Ping (l_id s)])
      else if between (myID v) (l_id s) (l_id n)
      then do { (v, newsucc) \<leftarrow> insert_node now coins n v;
                let bad = (case newsucc of None \<Rightarrow> True | Some l \<Rightarrow> \<not> is_alive l);
                merge_succs now coins (s # succlist) nlist (if bad then v else set_stable False v, calls) }
      else None)"
| "merge_succs now coins succlist nlist (v, calls) = Some (succlist, nlist, v, calls)"

text \<open>New nodes while there is room; \<open>check\<close> tells that own nodes were left over.\<close>

fun append_succs :: "int \<Rightarrow> (chordID \<Rightarrow> bool list) \<Rightarrow> bool \<Rightarrow> location list \<Rightarrow> nat \<Rightarrow> vnode \<Rightarrow> vnode option" where
  "append_succs now coins check [] curnsucc v = Some v"
| "append_succs now coins check (n # nlist) curnsucc v =
     (if int curnsucc < nsucc_max (successors v)
      then if check then None
           else do { (v, newsucc) \<leftarrow> insert_node now coins n v;
                     case newsucc of
                       Some l \<Rightarrow> if is_alive l then append_succs now coins check nlist (curnsucc + 1) (set_stable False v)
                                 else append_succs now coins check nlist curnsucc v
                     | None \<Rightarrow> append_succs now coins check nlist curnsucc v }
      else Some v)"

definition stabilize_getsucclist_cb :: "int \<Rightarrow> (chordID \<Rightarrow> bool list) \<Rightarrow> chordID \<Rightarrow> location list option \<Rightarrow> vnode
    \<Rightarrow> (vnode \<times> rpc list) option" where
  "stabilize_getsucclist_cb now coins s reply v =
     (let v = add_backoff (-1) v
      in case reply of
           None \<Rightarrow> Some (set_stable False v, [])
         | Some nlist \<Rightarrow>
             if nlist = [] \<or> l_id (hd nlist) \<noteq> s then None
             else do { succlist \<leftarrow> succs v;
                       (left, nlist, v, calls) \<leftarrow> merge_succs now coins succlist (butlast nlist) (v, []);
                       let v = add_backoff (int (length left)) v;
                       v \<leftarrow> append_succs now coins (left \<noteq> []) nlist (length succlist) v;
                       Some (v, calls @ map (\<lambda>l. Ping (l_id l)) left) })"

definition stabilize_getsucclist_check :: "bool \<Rightarrow> vnode \<Rightarrow> vnode" where
  "stabilize_getsucclist_check ok v =
     (let v = add_backoff (-1) v in if ok then v else set_stable False v)"

text \<open>The answer to a ping marks the node.\<close>

definition ping_cb :: "int \<Rightarrow> chordID \<Rightarrow> bool \<Rightarrow> vnode \<Rightarrow> vnode" where
  "ping_cb now x ok v =
     (case locs_find (locations v) x of
        None \<Rightarrow> v
      | Some a \<Rightarrow> v\<lparr>locations := set_loc a (set_alive now ok (loc (wraps (locations v) a))) (locations v)\<rparr>)"

text \<open>A node that refuses to be notified is marked as dead; a failed call has done that already. The
  node must be in the table.\<close>

definition notify_cb :: "int \<Rightarrow> chordID \<Rightarrow> bool reply \<Rightarrow> vnode \<Rightarrow> vnode option" where
  "notify_cb now n reply v =
     (case reply of
        Reply False \<Rightarrow>
          (case lookup n (locations v) of
             (t, Some a) \<Rightarrow> Some (v\<lparr>locations := set_loc a (set_alive now False (loc (wraps t a))) t\<rparr>)
           | (t, None) \<Rightarrow> None)
      | _ \<Rightarrow> Some v)"

text \<open>A node is told that another one seems to be dead: it calls that node, if it knows it.\<close>

definition doalert :: "location \<Rightarrow> vnode \<Rightarrow> vnode \<times> rpc list" where
  "doalert n v =
     (case lookup (l_id n) (locations v) of
        (t, Some a) \<Rightarrow> (v\<lparr>locations := t\<rparr>, [GetSuccessor (l_id n)])
      | (t, None) \<Rightarrow> (v\<lparr>locations := t\<rparr>, []))"

subsection \<open>Dead nodes\<close>

text \<open>The location that a pointer refers to: the one of the table, if it has one for the identifier.\<close>

definition deref :: "vnode \<Rightarrow> location \<Rightarrow> location" where
  "deref v l = (case locs_find (locations v) (l_id l) of None \<Rightarrow> l | Some a \<Rightarrow> loc (wraps (locations v) a))"

definition add_timer :: "timer \<Rightarrow> vnode \<Rightarrow> vnode" where
  "add_timer t v = v\<lparr>timers := timers v @ [t]\<rparr>"

text \<open>The ping of a dead node and the delay before the next one; none after 30 days.\<close>

definition check_dead_node :: "int \<Rightarrow> int \<Rightarrow> location \<Rightarrow> int \<Rightarrow> vnode \<Rightarrow> (rpc \<times> int) option" where
  "check_dead_node cap now l backoff v =
     (if now - dead_time (deref v l) > 86400 * 30 then None
      else Some (Ping (l_id l), if backoff * 2 > cap then cap else backoff * 2))"

text \<open>The first place of a node in the list, or its length.\<close>

fun dead_index :: "chordID \<Rightarrow> chordID list \<Rightarrow> nat" where
  "dead_index x [] = 0"
| "dead_index x (d # ds) = (if d = x then 0 else 1 + dead_index x ds)"

definition check_dead_node_cb :: "int \<Rightarrow> (chordID \<Rightarrow> bool list) \<Rightarrow> (location \<Rightarrow> location) \<Rightarrow> location \<Rightarrow> int \<Rightarrow> bool \<Rightarrow> vnode
    \<Rightarrow> (vnode \<times> rpc list) option" where
  "check_dead_node_cb now coins wire l nbackoff ok v =
     (let ds = dead_nodes v; i = dead_index (l_id l) ds
      in if \<not> ok
         then Some (add_timer (CheckDead l nbackoff) (if i = length ds then v\<lparr>dead_nodes := ds @ [l_id l]\<rparr> else v), [])
         else do { let v = (if i \<noteq> length ds then v\<lparr>dead_nodes := tl (ds[i := ds ! 0])\<rparr> else v);
                   (t, _) \<leftarrow> realinsert now (coins (l_id l)) (set_alive now True (deref v l)) (locations v);
                   let v = v\<lparr>locations := t\<rparr>;
                   s \<leftarrow> succ v;
                   Some (v, [Notify (l_id s) (wire (my_location v))]) })"

definition stabilize_succ :: "(location \<Rightarrow> location) \<Rightarrow> vnode \<Rightarrow> (vnode \<times> rpc) option" where
  "stabilize_succ wire v =
     (if sl_continuous (successors v) \<noteq> 0 then None
      else do { cursucc \<leftarrow> succ v;
                if l_id cursucc \<noteq> oldsucc (successors v)
                then Some (v\<lparr>successors := (successors v)\<lparr>oldsucc := l_id cursucc\<rparr>\<rparr>,
                           Notify (l_id cursucc) (wire (my_location v)))
                else Some (v\<lparr>successors := (successors v)\<lparr>sl_continuous := 1\<rparr>\<rparr>, GetPredecessor (l_id cursucc)) })"

definition stabilize_getpred_cb :: "int \<Rightarrow> (chordID \<Rightarrow> bool list) \<Rightarrow> (location \<Rightarrow> location) \<Rightarrow> chordID \<Rightarrow> location reply
    \<Rightarrow> vnode \<Rightarrow> (vnode \<times> rpc list) option" where
  "stabilize_getpred_cb now coins wire sd reply v =
     (let v = v\<lparr>successors := (successors v)\<lparr>sl_continuous := sl_continuous (successors v) - 1\<rparr>\<rparr>
      in case reply of
           TimedOut \<Rightarrow> Some (v, [])
         | Failed \<Rightarrow> Some (v, [])
         | ErrNoEnt \<Rightarrow> Some (v, [Notify sd (wire (my_location v))])
         | Reply p \<Rightarrow>
             if myID v = l_id p then Some (v, [])
             else if betweenleftincl (myID v) sd (l_id p)
             then do { (v, newsucc) \<leftarrow> insert_node now coins p v;
                       Some (case newsucc of
                               Some l \<Rightarrow> if is_alive l then v\<lparr>successors := (successors v)\<lparr>oldsucc := l_id l\<rparr>\<rparr> else v
                             | None \<Rightarrow> v, []) }
             else Some (v, [Notify sd (wire (my_location v))]))"

subsection \<open>Stabilising the fingers\<close>

definition upd_ft :: "(finger_table \<Rightarrow> finger_table) \<Rightarrow> vnode \<Rightarrow> vnode" where
  "upd_ft f v = v\<lparr>fingertab := f (fingertab v)\<rparr>"

definition stabilize_finger :: "vnode \<Rightarrow> (vnode \<times> rpc) option" where
  "stabilize_finger v =
     (let i = ft_f (fingertab v) mod NBIT;
          v = (if i = 0 then upd_ft (\<lambda>ft. ft\<lparr>stable_fingers2 := stable_fingers ft, stable_fingers := True\<rparr>) v else v);
          i = (if i = 0 then 1 else i);
          v = upd_ft (\<lambda>ft. ft\<lparr>ft_f := i, ft_backoff := ft_backoff ft + 1\<rparr>) v
      in do { n \<leftarrow> finger v i;
              if fingers (fingertab v) i \<noteq> Some (l_id n)
              then Some (upd_ft (\<lambda>ft. ft\<lparr>fingers := (fingers ft)(i := Some (l_id n)), stable_fingers := False\<rparr>) v,
                         FindSuccessor (start v i) i)
              else Some (v, GetPredecessor (l_id n)) })"

text \<open>\<^verbatim>\<open>while (i < NBIT && finger (i)->id () == dn) i++\<close>\<close>

function skip_fingers :: "vnode \<Rightarrow> chordID \<Rightarrow> nat \<Rightarrow> nat option" where
  "skip_fingers v dn i =
     (if i < NBIT
      then do { n \<leftarrow> finger v i; if l_id n = dn then skip_fingers v dn (i + 1) else Some i }
      else Some i)"
  by pat_completeness auto
termination by (relation "measure (\<lambda>(v, dn, i). NBIT - i)") auto

declare skip_fingers.simps [simp del]

definition stabilize_finger_getpred_cb :: "chordID \<Rightarrow> nat \<Rightarrow> location option \<Rightarrow> vnode \<Rightarrow> (vnode \<times> rpc list) option" where
  "stabilize_finger_getpred_cb dn i reply v =
     (let v = upd_ft (\<lambda>ft. ft\<lparr>ft_backoff := ft_backoff ft - 1\<rparr>) v
      in case reply of
           None \<Rightarrow> Some (upd_ft (\<lambda>ft. ft\<lparr>stable_fingers := False\<rparr>) v, [])
         | Some p \<Rightarrow>
             if betweenrightincl (l_id p) dn (start v i)
             then do { j \<leftarrow> skip_fingers v dn i;
                       Some (upd_ft (\<lambda>ft. ft\<lparr>nfastfinger := nfastfinger ft + 1, ft_f := j\<rparr>) v, []) }
             else Some (upd_ft (\<lambda>ft. ft\<lparr>nslowfinger := nslowfinger ft + 1, ft_backoff := ft_backoff ft + 1\<rparr>) v,
                        [FindSuccessor (start v i) i]))"

definition stabilize_findsucc_cb :: "nat \<Rightarrow> location list option \<Rightarrow> vnode \<Rightarrow> vnode option" where
  "stabilize_findsucc_cb i reply v =
     (let v = upd_ft (\<lambda>ft. ft\<lparr>ft_backoff := ft_backoff ft - 1\<rparr>) v
      in case reply of
           None \<Rightarrow> Some (upd_ft (\<lambda>ft. ft\<lparr>stable_fingers := False\<rparr>) v)
         | Some ss \<Rightarrow>
             if ss = [] then None
             else do { j \<leftarrow> skip_fingers v (l_id (hd ss)) i; Some (upd_ft (\<lambda>ft. ft\<lparr>ft_f := j\<rparr>) v) })"

definition first_fingers :: "vnode \<Rightarrow> rpc list option" where
  "first_fingers v =
     (if gotfingers v then Some []
      else do { st \<leftarrow> pred_isstable v;
                if st then do { p \<leftarrow> pred v; Some [GetFingers (l_id p)] } else Some [] })"

definition first_fingers_cb :: "int \<Rightarrow> (chordID \<Rightarrow> bool list) \<Rightarrow> location list option \<Rightarrow> vnode \<Rightarrow> vnode option" where
  "first_fingers_cb now coins reply v =
     (case reply of
        None \<Rightarrow> Some (add_timer FirstFingers v)
      | Some nlist \<Rightarrow> insert_nodes now coins nlist (v\<lparr>gotfingers := True\<rparr>))"

subsection \<open>Joining\<close>

text \<open>A node of the ring is asked for the place just before the own one.\<close>

definition join :: "chordID \<Rightarrow> vnode \<Rightarrow> rpc" where
  "join n v = FindRoute n (decID (myID v))"

text \<open>The reply of node \<open>from\<close> to that lookup: the nodes found are inserted, except the node itself, and the successor
  is notified. The result tells whether the join succeeded, or is \<open>None\<close> when it is tried again after a timeout; without success the node
  goes on alone.\<close>

definition join_getsucc_cb :: "int \<Rightarrow> (chordID \<Rightarrow> bool list) \<Rightarrow> (location \<Rightarrow> location) \<Rightarrow> chordID \<Rightarrow> location list reply \<Rightarrow> vnode
    \<Rightarrow> (vnode \<times> rpc list \<times> bool option) option" where
  "join_getsucc_cb now coins wire from reply v =
     (case reply of
        TimedOut \<Rightarrow> Some (v, [join from v], None)
      | Reply nlist \<Rightarrow>
          if length nlist < 1 then Some (v, [], Some False)
          else do { v \<leftarrow> insert_nodes now coins (filter (\<lambda>n. l_id n \<noteq> myID v) nlist) v;
                    s \<leftarrow> succ v;
                    Some (v, [Notify (l_id s) (wire (my_location v))], Some True) }
      | _ \<Rightarrow> Some (v, [], Some False))"

subsection \<open>A new node\<close>

text \<open>The constructors pin the nodes that the three structures need: the successors and predecessors of the node and the
  successor of every start of a finger.\<close>

fun pin_all :: "(chordID \<Rightarrow> bool list) \<Rightarrow> (chordID \<times> int) list \<Rightarrow> locationtable \<Rightarrow> locationtable option" where
  "pin_all coins [] t = Some t"
| "pin_all coins ((x, num) # ps) t = do { t \<leftarrow> pin (coins x) x num t; pin_all coins ps t }"

definition new_vnode :: "(chordID \<Rightarrow> bool list) \<Rightarrow> int \<Rightarrow> int \<Rightarrow> location \<Rightarrow> locationtable \<Rightarrow> vnode option" where
  "new_vnode coins nsucc checkdead me t =
     do { let x = l_id me;
          t \<leftarrow> pin_all coins [(x, 1), (x, nsucc)] t;
          t \<leftarrow> pin_all coins [(x, -1), (x, - nsucc)] t;
          let t = incvnodes t;
          t \<leftarrow> pin_all coins (map (\<lambda>i. (successorID x i, 1)) [0..<NBIT]) t;
          Some \<lparr>my_location = me, locations = t, successors = new_succ_list nsucc x, predecessors = new_pred_list nsucc x,
                fingertab = new_finger_table, gotfingers = False, checkdead_int = checkdead, dead_nodes = [],
                timers = [FirstFingers]\<rparr> }"

end
