(* ===== verification/Location_Correct.thy ===== *)
theory Location_Correct
  imports Location_Table
begin

text \<open>
  Correctness of the location table: its four indices hold the same nodes, the neighbours it returns are the closest
  live nodes on the ring, what is pinned stays, and an insertion keeps the number of nodes bounded.
\<close>

subsection \<open>The invariant\<close>

definition lt_core :: "locationtable \<Rightarrow> addr list \<Rightarrow> bool" where
  "lt_core t xs \<longleftrightarrow>
     sorted_elems (loc_key t) (loclist t) xs \<and> distinct (locs t) \<and> set (locs t) = set xs
     \<and> distinct (cachedlocs t) \<and> set (cachedlocs t) = set xs
     \<and> (\<forall>a \<in> set xs. a < fresh t \<and> loc_key t a = l_id (loc (wraps t a)) \<and> 0 \<le> vnode (loc (wraps t a)))"

definition lt_pins :: "locationtable \<Rightarrow> addr list \<Rightarrow> addr list \<Rightarrow> bool" where
  "lt_pins t xs ps \<longleftrightarrow> sorted_elems (pin_key t) (pinlist t) ps
     \<and> (\<forall>p \<in> set ps. p < fresh t \<and> (pinself (pins t p) \<longrightarrow> pin_key t p \<in> loc_key t ` set xs))"

definition live :: "locationtable \<Rightarrow> addr \<Rightarrow> bool" where
  "live t a \<longleftrightarrow> is_alive (loc (wraps t a))"

lemma pins_updated_simps [simp]:
  "loc_key (t\<lparr>pins_updated := b\<rparr>) = loc_key t" "pin_key (t\<lparr>pins_updated := b\<rparr>) = pin_key t"
  "lt_core (t\<lparr>pins_updated := b\<rparr>) xs = lt_core t xs" "lt_pins (t\<lparr>pins_updated := b\<rparr>) xs ps = lt_pins t xs ps"
  by (simp_all add: loc_key_def [abs_def] pin_key_def [abs_def] lt_core_def lt_pins_def)

lemma good_live: "lt_core t xs \<Longrightarrow> a \<in> set xs \<Longrightarrow> good t a = Some (live t a)"
  by (simp add: lt_core_def good_def live_def)

lemma core_keys: "lt_core t xs \<Longrightarrow> keys_inc (loc_key t) xs"
  using sk.sorted by (auto simp: lt_core_def)

lemma core_distinct: "lt_core t xs \<Longrightarrow> distinct xs"
  using core_keys keys_inc_distinct by blast

lemma core_size: "lt_core t xs \<Longrightarrow> lt_size t = length xs"
  using core_distinct [of t xs] by (auto simp: lt_core_def lt_size_def simp flip: distinct_card)

lemma keys_inc_inj: "keys_inc kf xs \<Longrightarrow> inj_on kf (set xs)"
  by (induction xs) (auto simp: keys_inc_Cons)

lemma find_unique:
  assumes "inj_on kf (set xs)" "set ys = set xs"
  shows "find (\<lambda>a. kf a = k) ys = find (\<lambda>a. kf a = k) xs"
proof (cases "find (\<lambda>a. kf a = k) xs")
  case None
  then have "find (\<lambda>a. kf a = k) ys = None" using assms(2) by (simp add: find_None_iff)
  then show ?thesis using None by simp
next
  case (Some a)
  then have a: "a \<in> set xs" "kf a = k" using find_split [OF Some] by auto
  then obtain b where b: "find (\<lambda>a. kf a = k) ys = Some b" using assms(2) by (cases "find (\<lambda>a. kf a = k) ys") (auto simp: find_None_iff)
  then have "b \<in> set ys" "kf b = k" using find_split [OF b] by auto
  then show ?thesis using Some a b assms by (auto dest: inj_onD)
qed

lemma locs_find_eq: "lt_core t xs \<Longrightarrow> locs_find t k = find (\<lambda>a. loc_key t a = k) xs"
  unfolding locs_find_def using core_keys by (intro find_unique keys_inc_inj) (auto simp: lt_core_def)

subsection \<open>Neighbours\<close>

text \<open>The nodes in the order in which the ring is walked from an identifier.\<close>

definition ring_from :: "locationtable \<Rightarrow> chordID \<Rightarrow> addr list \<Rightarrow> addr list" where
  "ring_from t k xs = elems_from (loc_key t) k xs @ elems_below (loc_key t) k xs"

lemma ring_from_turned: "ring_from t k xs = sk.turned (loc_key t) k xs"
  by (simp add: ring_from_def sk.turned_def)

lemma ring_from_set: "set (ring_from t k xs) = set xs"
  by (simp add: ring_from_turned sk.turned_mem)

lemma ring_from_length: "length (ring_from t k xs) = length xs"
  by (simp add: ring_from_turned sk.turned_length)

lemma next_ring: "lt_core t xs \<Longrightarrow> ring_from t k xs = as @ x # bs \<Longrightarrow> next_lw t x = first (bs @ as @ [x])"
  using sk.next_turned [of "loc_key t" "loclist t" xs k as x bs] by (simp add: lt_core_def next_lw_def ring_from_turned)

lemma prev_ring: "lt_core t xs \<Longrightarrow> ring_from t k xs = as @ x # bs \<Longrightarrow> prev_lw t x = final ([x] @ bs @ as)"
  using sk.prev_turned [of "loc_key t" "loclist t" xs k as x bs] by (simp add: lt_core_def prev_lw_def ring_from_turned)

lemma succ_start:
  assumes "lt_core t xs"
  shows "(case locs_find t x of Some l \<Rightarrow> Some (Some l) | None \<Rightarrow> sk_closestsucc (loc_key t) (loclist t) x) = Some (first (ring_from t x xs))"
proof -
  have s: "sk_closestsucc (loc_key t) (loclist t) x = Some (first (ring_from t x xs))"
    using sk.succ_turned [of "loc_key t" "loclist t" xs x] assms by (simp add: lt_core_def ring_from_turned)
  have "locs_find t x = Some l \<Longrightarrow> first (ring_from t x xs) = Some l" for l
    using locs_find_eq [OF assms] find_key_from [OF core_keys [OF assms], of x]
    by (auto simp: ring_from_def split: list.splits if_splits)
  then show ?thesis using s by (auto split: option.split)
qed

lemma pred_start:
  assumes "lt_core t xs"
  shows "(case locs_find t x of Some l \<Rightarrow> Some (prev_lw t l) | None \<Rightarrow> sk_closestpred (loc_key t) (loclist t) x) = Some (final (ring_from t x xs))"
proof (cases "locs_find t x")
  case None
  then show ?thesis using sk.pred_turned [of "loc_key t" "loclist t" xs x] assms by (simp add: lt_core_def ring_from_turned)
next
  case (Some l)
  then have "first (ring_from t x xs) = Some l" using succ_start [OF assms, of x] by simp
  then obtain bs where "ring_from t x xs = [] @ l # bs" by (cases "ring_from t x xs") auto
  then show ?thesis using Some prev_ring [OF assms] by fastforce
qed

definition usable :: "chordID list \<Rightarrow> locationtable \<Rightarrow> addr \<Rightarrow> bool" where
  "usable failed t a \<longleftrightarrow> live t a \<and> l_id (loc (wraps t a)) \<notin> set failed"

text \<open>A list of nodes that a walk in one direction visits.\<close>

primrec path :: "bool \<Rightarrow> locationtable \<Rightarrow> addr list \<Rightarrow> bool" where
  "path forth t [] \<longleftrightarrow> True"
| "path forth t (a # ws) \<longleftrightarrow> (ws \<noteq> [] \<longrightarrow> (if forth then next_lw t a else prev_lw t a) = first ws) \<and> path forth t ws"

lemma path_forth: "lt_core t xs \<Longrightarrow> ring_from t k xs = as @ bs \<Longrightarrow> path True t bs"
proof (induction bs arbitrary: as)
  case (Cons b bs)
  then show ?case using Cons.IH [of "as @ [b]"] next_ring [of t xs k as b bs] by auto
qed simp

lemma path_back: "lt_core t xs \<Longrightarrow> ring_from t k xs = as @ bs \<Longrightarrow> path False t (rev as)"
proof (induction as arbitrary: bs rule: rev_induct)
  case (snoc a as)
  have "as \<noteq> [] \<Longrightarrow> first (rev as) = final as" by (cases as rule: rev_cases) auto
  then show ?case using snoc.IH [of "a # bs"] snoc.prems prev_ring [of t xs k as a bs] by auto
qed simp

lemma seek_path:
  "lt_core t xs \<Longrightarrow> path forth t ws \<Longrightarrow> set ws \<subseteq> set xs \<Longrightarrow> find (usable failed t) ws = Some y \<Longrightarrow> length ws \<le> n \<Longrightarrow>
     seek forth failed n (first ws) t = Some y"
proof (induction ws arbitrary: n)
  case (Cons w ws)
  have g: "good t w = Some (live t w)" using good_live Cons.prems by simp
  show ?case
  proof (cases "usable failed t w")
    case True
    then show ?thesis using Cons.prems g by (auto simp: usable_def)
  next
    case False
    then obtain m where "n = Suc m" "find (usable failed t) ws = Some y" "ws \<noteq> []"
      using Cons.prems by (cases n; cases ws) (auto split: if_splits)
    then show ?thesis using False g Cons.IH [of m] Cons.prems by (auto simp: usable_def)
  qed
qed simp

lemma ring_from_sorted:
  assumes "lt_core t xs" "is_id k" "\<forall>a \<in> set xs. is_id (loc_key t a)"
  shows "sorted_wrt (\<lambda>a b. ring_dist k (loc_key t a) < ring_dist k (loc_key t b)) (ring_from t k xs)"
proof -
  let ?d = "\<lambda>a. ring_dist k (loc_key t a)"
  have s: "sorted_wrt (\<lambda>a b. loc_key t a < loc_key t b) (filter P xs)" for P
    using core_keys [OF assms(1)] by (simp add: keys_inc_def sorted_wrt_filter)
  have d: "?d a = (if k \<le> loc_key t a then loc_key t a - k else loc_key t a - k + ring)" if "a \<in> set xs" for a
    using that assms(2,3) by (simp add: ring_dist_eq)
  have "sorted_wrt (\<lambda>a b. ?d a < ?d b) (elems_from (loc_key t) k xs)"
    unfolding elems_from_def by (rule sorted_wrt_mono_rel [OF _ s]) (simp add: d)
  moreover have "sorted_wrt (\<lambda>a b. ?d a < ?d b) (elems_below (loc_key t) k xs)"
    unfolding elems_below_def by (rule sorted_wrt_mono_rel [OF _ s]) (simp add: d)
  moreover have "?d a < ?d b" if "a \<in> set (elems_from (loc_key t) k xs)" "b \<in> set (elems_below (loc_key t) k xs)" for a b
  proof -
    have "loc_key t a < ring" "0 \<le> loc_key t b" using that assms(3) by (auto simp: elems_from_def elems_below_def is_id_def)
    then show ?thesis using that by (auto simp: d elems_from_def elems_below_def)
  qed
  ultimately show ?thesis by (simp add: ring_from_def sorted_wrt_append)
qed

lemma find_first: "sorted_wrt R xs \<Longrightarrow> find P xs = Some y \<Longrightarrow> z \<in> set xs \<Longrightarrow> P z \<Longrightarrow> z = y \<or> R y z"
  by (induction xs) (auto split: if_splits)

lemma find_exists: "x \<in> set xs \<Longrightarrow> P x \<Longrightarrow> \<exists>y. find P xs = Some y \<and> y \<in> set xs \<and> P y"
  using find_split [of P xs] by (cases "find P xs") (fastforce simp: find_None_iff)+

lemma closestsuccloc_closest:
  assumes "lt_core t xs" "is_id x" "\<forall>a \<in> set xs. is_id (loc_key t a)" "\<exists>a \<in> set xs. live t a"
  shows "\<exists>a \<in> set xs. closestsuccloc x t = Some (loc (wraps t a)) \<and> live t a
      \<and> (\<forall>b \<in> set xs. live t b \<longrightarrow> ring_dist x (loc_key t a) \<le> ring_dist x (loc_key t b))"
proof -
  let ?r = "ring_from t x xs"
  have len: "length ?r \<le> lt_size t" using core_size [OF assms(1)] by (simp add: ring_from_length)
  have u: "usable [] t = live t" by (auto simp: usable_def)
  obtain y where y: "find (live t) ?r = Some y" "y \<in> set ?r" "live t y" using find_exists [of _ ?r "live t"] assms(4) ring_from_set by blast
  have "seek True [] (lt_size t) (first ?r) t = Some y" using seek_path [OF assms(1) path_forth [OF assms(1), of x "[]" ?r], of "[]" y] y(1) u len ring_from_set by simp
  then have "closestsuccloc x t = Some (loc (wraps t y))" unfolding closestsuccloc_def succ_start [OF assms(1)] by simp
  then show ?thesis
    using y find_first [OF ring_from_sorted [OF assms(1-3)] y(1)] ring_from_set [of t x xs] by (intro bexI [of _ y]) (auto intro: less_imp_le)
qed

lemma closestpredloc_closest:
  assumes "lt_core t xs" "is_id x" "\<forall>a \<in> set xs. is_id (loc_key t a)" "\<exists>a \<in> set xs. usable failed t a"
  shows "\<exists>a \<in> set xs. closestpredloc x failed t = Some (loc (wraps t a)) \<and> usable failed t a
      \<and> (\<forall>b \<in> set xs. usable failed t b \<longrightarrow> ring_dist x (loc_key t b) \<le> ring_dist x (loc_key t a))"
proof -
  let ?r = "ring_from t x xs" and ?R = "\<lambda>a b. ring_dist x (loc_key t a) < ring_dist x (loc_key t b)"
  have len: "length ?r \<le> lt_size t" using core_size [OF assms(1)] by (simp add: ring_from_length)
  have fl: "first (rev ?r) = final ?r" by (cases ?r rule: rev_cases) auto
  obtain z where z: "find (usable failed t) (rev ?r) = Some z" "z \<in> set ?r" "usable failed t z"
    using find_exists [of _ "rev ?r" "usable failed t"] assms(4) ring_from_set by (metis set_rev)
  have "seek False failed (lt_size t) (final ?r) t = Some z" using seek_path [OF assms(1) path_back [OF assms(1), of x ?r "[]"], of failed z] z(1) len ring_from_set fl by simp
  then have "closestpredloc x failed t = Some (loc (wraps t z))" unfolding closestpredloc_def pred_start [OF assms(1)] by simp
  moreover have "sorted_wrt (\<lambda>a b. ?R b a) (rev ?r)" using ring_from_sorted [OF assms(1-3)] by (simp add: sorted_wrt_rev)
  ultimately show ?thesis
    using z find_first [OF _ z(1)] ring_from_set [of t x xs] by (intro bexI [of _ z]) (fastforce intro: less_imp_le)+
qed

text \<open>
  C16: the neighbours a node finds are the closest live ones. When at least one usable node is known,
  \<^verbatim>\<open>closestsuccloc\<close> returns a live node, and no live node lies clockwise between the identifier and it;
  \<^verbatim>\<open>closestpredloc\<close> returns a live node that is not among the failed ones, and no other such node lies
  clockwise between it and the identifier. The assertions on the number of nodes do not fail.
\<close>

theorem closest_live_neighbours:
  assumes "lt_core t xs" "is_id x" "\<forall>a \<in> set xs. is_id (loc_key t a)" "\<exists>a \<in> set xs. usable failed t a"
  shows "(\<exists>a \<in> set xs. closestsuccloc x t = Some (loc (wraps t a)) \<and> live t a
      \<and> (\<forall>b \<in> set xs. live t b \<longrightarrow> ring_dist x (loc_key t a) \<le> ring_dist x (loc_key t b)))
    \<and> (\<exists>a \<in> set xs. closestpredloc x failed t = Some (loc (wraps t a)) \<and> usable failed t a
      \<and> (\<forall>b \<in> set xs. usable failed t b \<longrightarrow> ring_dist x (loc_key t b) \<le> ring_dist x (loc_key t a)))"
proof -
  have "\<exists>a \<in> set xs. live t a" using assms(4) by (auto simp: usable_def)
  then show ?thesis using closestsuccloc_closest [OF assms(1-3)] closestpredloc_closest [OF assms] by blast
qed

subsection \<open>Pins\<close>

definition flags :: "(addr \<Rightarrow> bool) \<Rightarrow> locationtable \<Rightarrow> locationtable" where
  "flags f t = t\<lparr>wraps := \<lambda>a. (wraps t a)\<lparr>is_pinned := f a\<rparr>\<rparr>"

lemma flags_simps [simp]:
  "loc_key (flags f t) = loc_key t" "pin_key (flags f t) = pin_key t" "pins (flags f t) = pins t" "fresh (flags f t) = fresh t"
  "locs (flags f t) = locs t" "cachedlocs (flags f t) = cachedlocs t" "loclist (flags f t) = loclist t"
  "pinlist (flags f t) = pinlist t" "max_cachedlocs (flags f t) = max_cachedlocs t" "pins_updated (flags f t) = pins_updated t"
  "loc (wraps (flags f t) a) = loc (wraps t a)" "is_pinned (wraps (flags f t) a) = f a"
  "good (flags f t) = good t" "live (flags f t) = live t" "next_lw (flags f t) = next_lw t" "prev_lw (flags f t) = prev_lw t"
  "locs_find (flags f t) = locs_find t" "lt_size (flags f t) = lt_size t" "lt_core (flags f t) xs = lt_core t xs"
  "lt_pins (flags f t) xs ps = lt_pins t xs ps" "ring_from (flags f t) = ring_from t" "flags g (flags f t) = flags g t"
  by (simp_all add: flags_def loc_key_def [abs_def] pin_key_def [abs_def] good_def live_def next_lw_def prev_lw_def
      locs_find_def lt_size_def lt_core_def lt_pins_def ring_from_def fun_eq_iff cong: option.case_cong)

lemma flags_same: "flags (\<lambda>a. is_pinned (wraps t a)) t = t"
  by (simp add: flags_def)

lemma path_flags [simp]: "path forth (flags f t) ws = path forth t ws"
  by (induction ws) auto

text \<open>The nodes of a set are marked in addition.\<close>

definition mark :: "addr set \<Rightarrow> locationtable \<Rightarrow> locationtable" where
  "mark S t = flags (\<lambda>a. is_pinned (wraps t a) \<or> a \<in> S) t"

lemma mark_empty [simp]: "mark {} t = t"
  by (simp add: mark_def flags_same)

lemma mark_mark [simp]: "mark S (mark T t) = mark (T \<union> S) t"
  by (simp add: mark_def disj_assoc)

lemma mark_flags: "mark S (flags f t) = flags (\<lambda>a. f a \<or> a \<in> S) t"
  by (simp add: mark_def)

lemma mark_simps [simp]:
  "loc_key (mark S t) = loc_key t" "pins (mark S t) = pins t" "loclist (mark S t) = loclist t" "good (mark S t) = good t"
  "live (mark S t) = live t" "next_lw (mark S t) = next_lw t" "prev_lw (mark S t) = prev_lw t" "locs_find (mark S t) = locs_find t"
  "lt_size (mark S t) = lt_size t" "lt_core (mark S t) xs = lt_core t xs" "ring_from (mark S t) = ring_from t"
  "path forth (mark S t) ws = path forth t ws"
  by (simp_all add: mark_def)

lemma set_pinned_mark: "set_pinned a True t = mark {a} t"
  by (auto simp: mark_def set_pinned_def flags_def fun_eq_iff intro!: locationtable.equality)

lemma process_loop_path:
  "lt_core t xs \<Longrightarrow> path forth t ws \<Longrightarrow> set ws \<subseteq> set xs \<Longrightarrow> ws \<noteq> [] \<Longrightarrow> 0 < m \<Longrightarrow>
     process_loop forth m (length ws) (first ws) t = Some (mark (set (take m (filter (live t) ws))) t)"
proof (induction ws arbitrary: t m)
  case (Cons w ws)
  define S m1 where "S = (if live t w then {w} else {})" and "m1 = (if live t w then m - 1 else m)"
  have g: "good t w = Some (live t w)" using good_live Cons.prems by simp
  have step: "process_loop forth m (length (w # ws)) (first (w # ws)) t =
      (if m1 > 0 \<and> ws \<noteq> [] then process_loop forth m1 (length ws) (if forth then next_lw t w else prev_lw t w) (mark S t)
       else Some (mark S t))"
    using g by (auto simp: S_def m1_def set_pinned_mark)
  have S: "set (take m (filter (live t) (w # ws))) = S \<union> set (take m1 (filter (live t) ws))"
    using Cons.prems(5) by (cases m) (auto simp: S_def m1_def)
  show ?case
  proof (cases "m1 > 0 \<and> ws \<noteq> []")
    case True
    then have "process_loop forth m1 (length ws) (first ws) (mark S t) = Some (mark (set (take m1 (filter (live t) ws))) (mark S t))"
      using Cons.IH [of "mark S t" m1] Cons.prems by simp
    then show ?thesis using True step Cons.prems(2) unfolding S by simp
  next
    case False
    then have "set (take m1 (filter (live t) ws)) = {}" by auto
    then show ?thesis using False step unfolding S by (simp only: if_False Un_empty_right)
  qed
qed simp

text \<open>What a pin asks to keep. The walk starts at the closest successor of the identifier, which is the node itself when the
  table has it: the node counts as the first of its own \<open>pinsucc\<close> successors. The closest predecessor is kept dead or alive.\<close>

definition self_pins :: "locationtable \<Rightarrow> addr list \<Rightarrow> pininfo \<Rightarrow> addr set" where
  "self_pins t xs c = {a. pinpred c > 0 \<and> final (ring_from t (pin_n c) xs) = Some a}
     \<union> {a \<in> set xs. pinself c \<and> loc_key t a = pin_n c}"

definition side_pins :: "locationtable \<Rightarrow> addr list \<Rightarrow> pininfo \<Rightarrow> addr set" where
  "side_pins t xs c = set (take (pinsucc c) (filter (live t) (ring_from t (pin_n c) xs)))
     \<union> set (take (pinpred c) (filter (live t) (rev (ring_from t (pin_n c) xs))))"

definition to_pin :: "locationtable \<Rightarrow> addr list \<Rightarrow> pininfo \<Rightarrow> addr set" where
  "to_pin t xs c = self_pins t xs c \<union> side_pins t xs c"

lemma pins_mark [simp]:
  "self_pins (mark S t) = self_pins t" "side_pins (mark S t) = side_pins t"
  "self_pins (flags f t) = self_pins t" "side_pins (flags f t) = side_pins t"
  "self_pins (t\<lparr>pins_updated := b\<rparr>) = self_pins t" "side_pins (t\<lparr>pins_updated := b\<rparr>) = side_pins t"
proof -
  have "live (t\<lparr>pins_updated := b\<rparr>) = live t" "ring_from (t\<lparr>pins_updated := b\<rparr>) = ring_from t"
    by (simp_all add: live_def [abs_def] ring_from_def [abs_def])
  then show "self_pins (t\<lparr>pins_updated := b\<rparr>) = self_pins t" "side_pins (t\<lparr>pins_updated := b\<rparr>) = side_pins t"
    by (simp_all add: self_pins_def [abs_def] side_pins_def [abs_def])
qed (simp_all add: self_pins_def [abs_def] side_pins_def [abs_def])

definition all_pinned :: "locationtable \<Rightarrow> addr list \<Rightarrow> addr list \<Rightarrow> addr set" where
  "all_pinned t xs ps = (\<Union>p \<in> set ps. to_pin t xs (pins t p))"

text \<open>The flags after \<^verbatim>\<open>figure_pins\<close>: without any pin they stay as they were.\<close>

definition keeps :: "locationtable \<Rightarrow> addr list \<Rightarrow> addr list \<Rightarrow> addr \<Rightarrow> bool" where
  "keeps t xs ps a \<longleftrightarrow> (if ps = [] then is_pinned (wraps t a) else a \<in> all_pinned t xs ps)"

lemma pin_starts:
  assumes "lt_core t xs"
  shows "sk_closestsucc (loc_key t) (loclist t) k = Some (first (ring_from t k xs))"
    and "sk_closestpred (loc_key t) (loclist t) k = Some (final (ring_from t k xs))"
  using sk.succ_turned [of "loc_key t" "loclist t" xs] sk.pred_turned [of "loc_key t" "loclist t" xs] assms
  by (auto simp: lt_core_def ring_from_turned)

lemma process_pin_ok:
  assumes "lt_core t xs" "xs \<noteq> []" "num \<noteq> 0"
  shows "process_pin c num t = Some (mark (set (take (nat \<bar>num\<bar>) (filter (live t)
    ((if num > 0 then \<lambda>r. r else rev) (ring_from t (pin_n c) xs))))) t)"
proof -
  let ?r = "ring_from t (pin_n c) xs"
  have ne: "?r \<noteq> []" using assms(2) ring_from_length [of t "pin_n c" xs] by auto
  have fl: "first (rev ?r) = final ?r" by (cases ?r rule: rev_cases) auto
  have len: "lt_size t = length ?r" using core_size [OF assms(1)] by (simp add: ring_from_length)
  show ?thesis
  proof (cases "num > 0")
    case True
    then show ?thesis
      using process_loop_path [OF assms(1) path_forth [OF assms(1), of "pin_n c" "[]" ?r], of "nat \<bar>num\<bar>"] ne pin_starts [OF assms(1)] len ring_from_set
      by (simp add: process_pin_def)
  next
    case False
    then show ?thesis
      using process_loop_path [OF assms(1) path_back [OF assms(1), of "pin_n c" ?r "[]"], of "nat \<bar>num\<bar>"] ne pin_starts [OF assms(1)] len ring_from_set fl assms(3)
      by (simp add: process_pin_def)
  qed
qed

lemma locs_find_mem: "lt_core t xs \<Longrightarrow> k \<in> loc_key t ` set xs \<Longrightarrow> \<exists>a \<in> set xs. locs_find t k = Some a \<and> loc_key t a = k"
  using find_exists [of _ xs "\<lambda>a. loc_key t a = k"] locs_find_eq [of t xs k] by fastforce

lemma pin_selves_ok:
  "lt_core t xs \<Longrightarrow> xs \<noteq> [] \<Longrightarrow> \<forall>c \<in> set cs. pinself (pins t c) \<longrightarrow> pin_n (pins t c) \<in> loc_key t ` set xs \<Longrightarrow>
     pin_selves cs t = Some (mark (\<Union>c \<in> set cs. self_pins t xs (pins t c)) t)"
proof (induction cs arbitrary: t)
  case (Cons c cs)
  let ?c = "pins t c"
  have "ring_from t (pin_n ?c) xs \<noteq> []" using Cons.prems(2) ring_from_length [of t "pin_n ?c" xs] by auto
  then obtain p where p: "final (ring_from t (pin_n ?c) xs) = Some p" by (auto simp: final_def)
  define A B where "A = (if pinpred ?c > 0 then {p} else {})" and "B = {a \<in> set xs. pinself ?c \<and> loc_key t a = pin_n ?c}"
  have 1: "(if pinpred ?c > 0 then do { p \<leftarrow> sk_closestpred (loc_key t) (loclist t) (pin_n ?c); a \<leftarrow> p; Some (set_pinned a True t) } else Some t)
      = Some (mark A t)"
    using p pin_starts(2) [OF Cons.prems(1)] by (simp add: A_def set_pinned_mark)
  have 2: "(if pinself ?c then do { a \<leftarrow> locs_find (mark A t) (pin_n ?c); Some (set_pinned a True (mark A t)) } else Some (mark A t))
      = Some (mark (A \<union> B) t)"
  proof (cases "pinself ?c")
    case True
    then obtain a where a: "a \<in> set xs" "locs_find t (pin_n ?c) = Some a" "loc_key t a = pin_n ?c"
      using locs_find_mem [OF Cons.prems(1), of "pin_n ?c"] Cons.prems(3) by auto
    have "b = a" if "b \<in> set xs" "loc_key t b = pin_n ?c" for b
      by (rule inj_onD [OF keys_inc_inj [OF core_keys [OF Cons.prems(1)]]]) (use that a in simp_all)
    then have "B = {a}" using True a(1,3) unfolding B_def by blast
    then show ?thesis using True a by (simp add: set_pinned_mark)
  qed (simp add: B_def)
  have "pin_selves (c # cs) t = pin_selves cs (mark (A \<union> B) t)"
    using 1 2 unfolding pin_selves.simps Let_def by (simp only: Option.bind.simps)
  moreover have "self_pins t xs ?c = A \<union> B" using p by (simp add: self_pins_def A_def B_def)
  ultimately show ?case using Cons.IH [of "mark (A \<union> B) t"] Cons.prems by simp
qed simp

lemma process_pins_ok:
  "lt_core t xs \<Longrightarrow> xs \<noteq> [] \<Longrightarrow> process_pins cs t = Some (mark (\<Union>c \<in> set cs. side_pins t xs (pins t c)) t)"
proof (induction cs arbitrary: t)
  case (Cons c cs)
  let ?c = "pins t c"
  define A B where "A = set (take (pinsucc ?c) (filter (live t) (ring_from t (pin_n ?c) xs)))"
    and "B = set (take (pinpred ?c) (filter (live t) (rev (ring_from t (pin_n ?c) xs))))"
  have 1: "(if pinsucc ?c > 0 then process_pin ?c (int (pinsucc ?c)) t else Some t) = Some (mark A t)"
    using process_pin_ok [OF Cons.prems, of "int (pinsucc ?c)" ?c] by (cases "pinsucc ?c = 0") (simp_all add: A_def)
  have 2: "(if pinpred ?c > 0 then process_pin ?c (- int (pinpred ?c)) (mark A t) else Some (mark A t)) = Some (mark (A \<union> B) t)"
    using process_pin_ok [of "mark A t" xs "- int (pinpred ?c)" ?c] Cons.prems by (cases "pinpred ?c = 0") (simp_all add: B_def)
  have "process_pins (c # cs) t = process_pins cs (mark (A \<union> B) t)"
    using 1 2 unfolding process_pins.simps Let_def by (simp only: Option.bind.simps)
  moreover have "side_pins t xs ?c = A \<union> B" by (simp add: side_pins_def A_def B_def)
  ultimately show ?case using Cons.IH [of "mark (A \<union> B) t"] Cons.prems by simp
qed simp

lemma traverse_sorted: "sorted_elems kf s xs \<Longrightarrow> traverse s = Some xs"
  using traverse_chain [of s _ None xs] by (auto simp: sorted_elems_def skip_inv_def traverse_def)

lemma fold_unpin: "fold (\<lambda>a. set_pinned a False) as t = flags (\<lambda>a. is_pinned (wraps t a) \<and> a \<notin> set as) t"
proof (induction as arbitrary: t)
  case (Cons a as)
  have "set_pinned a False t = flags (\<lambda>x. is_pinned (wraps t x) \<and> x \<noteq> a) t"
    by (auto simp: set_pinned_def flags_def fun_eq_iff intro!: locationtable.equality)
  then show ?case by (simp add: Cons.IH conj_ac)
qed (simp add: flags_same)

lemma figure_pins_ok:
  assumes "lt_core t xs" "lt_pins t xs ps"
  shows "\<exists>f. figure_pins t = Some (flags f (t\<lparr>pins_updated := True\<rparr>)) \<and> (\<forall>a \<in> set xs. f a \<longleftrightarrow> keeps t xs ps a)"
proof -
  have h: "head (pinlist t) = first ps" "head (loclist t) = first xs"
    using assms sk.ends [of "pin_key t" "pinlist t" ps] sk.ends [of "loc_key t" "loclist t" xs] by (simp_all add: lt_core_def lt_pins_def)
  let ?t = "t\<lparr>pins_updated := True\<rparr>"
  show ?thesis
  proof (cases "ps = [] \<or> xs = []")
    case True
    then have "head (pinlist t) = None \<or> head (loclist t) = None" using h by auto
    then show ?thesis
      using True by (intro exI [of _ "\<lambda>a. is_pinned (wraps t a)"]) (auto simp: figure_pins_def flags_def keeps_def)
  next
    case False
    have core: "lt_core ?t xs" using assms(1) by simp
    have tr: "traverse (loclist t) = Some xs" "traverse (pinlist t) = Some ps"
      using traverse_sorted assms by (auto simp: lt_core_def lt_pins_def)
    let ?f = "\<lambda>a. is_pinned (wraps t a) \<and> a \<notin> set xs"
    let ?S = "\<Union>c \<in> set ps. self_pins t xs (pins t c)" and ?T = "\<Union>c \<in> set ps. side_pins t xs (pins t c)"
    have "fold (\<lambda>a. set_pinned a False) xs ?t = flags ?f ?t" by (simp add: fold_unpin)
    moreover have "\<forall>c \<in> set ps. pinself (pins t c) \<longrightarrow> pin_n (pins t c) \<in> loc_key t ` set xs"
      using assms(2) by (simp add: lt_pins_def pin_key_def)
    then have "pin_selves ps (flags ?f ?t) = Some (mark ?S (flags ?f ?t))"
      using pin_selves_ok [of "flags ?f ?t" xs ps] core False by simp
    moreover have "process_pins ps (mark ?S (flags ?f ?t)) = Some (mark ?T (mark ?S (flags ?f ?t)))"
      using process_pins_ok [of "mark ?S (flags ?f ?t)" xs ps] core False by simp
    ultimately have "figure_pins t = Some (flags (\<lambda>a. ?f a \<or> a \<in> ?S \<union> ?T) ?t)"
      using h False tr by (simp add: figure_pins_def mark_flags)
    moreover have "?S \<union> ?T = all_pinned t xs ps" unfolding all_pinned_def to_pin_def by blast
    ultimately show ?thesis using False by (auto simp: keeps_def)
  qed
qed

subsection \<open>Eviction\<close>

definition kept :: "locationtable \<Rightarrow> locationtable \<Rightarrow> bool" where
  "kept t t' \<longleftrightarrow> wraps t' = wraps t \<and> pins t' = pins t \<and> fresh t' = fresh t \<and> pinlist t' = pinlist t
     \<and> max_cachedlocs t' = max_cachedlocs t"

lemma kept_keys: "kept t t' \<Longrightarrow> loc_key t' = loc_key t \<and> pin_key t' = pin_key t \<and> good t' = good t"
  by (auto simp: kept_def loc_key_def pin_key_def good_def fun_eq_iff)

lemma remove_lw_ok:
  assumes "lt_core t xs" "a \<in> set xs"
  shows "\<exists>t'. remove_lw a t = Some t' \<and> lt_core t' (filter (\<lambda>x. x \<noteq> a) xs) \<and> kept t t' \<and> cachedlocs t' = removeAll a (cachedlocs t)"
proof -
  have inj: "inj_on (loc_key t) (set xs)" by (rule keys_inc_inj [OF core_keys [OF assms(1)]])
  obtain l r where l: "sk_remove (loc_key t) (loclist t) (loc_key t a) = Some (l, r)"
    "sorted_elems (loc_key t) l (filter (\<lambda>x. loc_key t x \<noteq> loc_key t a) xs)"
    using remove_sorted_elems [of "loc_key t" "loclist t" xs "loc_key t a"] assms(1) by (auto simp: lt_core_def)
  have f: "filter (\<lambda>x. loc_key t x \<noteq> loc_key t a) xs = filter (\<lambda>x. x \<noteq> a) xs"
    using inj assms(2) by (intro filter_cong) (auto dest: inj_onD)
  let ?t = "t\<lparr>pins_updated := False, locs := removeAll a (locs t), loclist := l, cachedlocs := removeAll a (cachedlocs t)\<rparr>"
  have r: "remove_lw a t = Some ?t" using l(1) by (simp add: remove_lw_def loc_key_def)
  have k: "kept t ?t" by (simp add: kept_def)
  show ?thesis
    using assms(1) l(2) f r k kept_keys [OF k] by (intro exI [of _ ?t]) (auto simp: lt_core_def distinct_removeAll)
qed

lemma evict_pass_ok:
  "lt_core t xs \<Longrightarrow> distinct cs \<Longrightarrow> set cs \<subseteq> set xs \<Longrightarrow>
     \<exists>t' n' D. evict_pass all badonly cs n t = Some (t', n') \<and> D \<subseteq> set cs \<and> (\<forall>a \<in> D. \<not> is_pinned (wraps t a)) \<and> n' + card D = n
       \<and> lt_core t' (filter (\<lambda>a. a \<notin> D) xs) \<and> kept t t'
       \<and> (0 < n' \<longrightarrow> (\<forall>a \<in> set cs - D. is_pinned (wraps t a) \<or> \<not> all \<and> badonly \<and> live t a))
       \<and> (badonly \<and> \<not> all \<longrightarrow> (\<forall>a \<in> D. \<not> live t a))"
proof (induction cs arbitrary: t xs n)
  case Nil
  then show ?case by (intro exI [of _ t] exI [of _ n] exI [of _ "{}"]) (simp add: kept_def)
next
  case (Cons c cs)
  have g: "good t c = Some (live t c)" using good_live Cons.prems by simp
  define dr where "dr \<longleftrightarrow> \<not> is_pinned (wraps t c) \<and> (all \<or> \<not> badonly \<or> \<not> live t c)"
  have step: "evict_pass all badonly (c # cs) n t =
      (if n = 0 then Some (t, n) else if dr then do { t \<leftarrow> remove_lw c t; evict_pass all badonly cs (n - 1) t } else evict_pass all badonly cs n t)"
    using g by (simp add: dr_def)
  show ?case
  proof (cases "n = 0")
    case True
    then show ?thesis using step Cons.prems(1) by (intro exI [of _ t] exI [of _ n] exI [of _ "{}"]) (simp add: kept_def)
  next
    case n: False
    show ?thesis
    proof (cases dr)
      case True
      obtain t1 where t1: "remove_lw c t = Some t1" "lt_core t1 (filter (\<lambda>x. x \<noteq> c) xs)" "kept t t1"
        using remove_lw_ok [OF Cons.prems(1), of c] Cons.prems(3) by auto
      have "set cs \<subseteq> set (filter (\<lambda>x. x \<noteq> c) xs)" using Cons.prems by auto
      with Cons.IH [OF t1(2), of "n - 1"] Cons.prems(2) obtain t' n' D where
        *: "evict_pass all badonly cs (n - 1) t1 = Some (t', n')" "D \<subseteq> set cs" "\<forall>a \<in> D. \<not> is_pinned (wraps t1 a)" "n' + card D = n - 1"
          "lt_core t' (filter (\<lambda>a. a \<notin> D) (filter (\<lambda>x. x \<noteq> c) xs))" "kept t1 t'"
          "0 < n' \<longrightarrow> (\<forall>a \<in> set cs - D. is_pinned (wraps t1 a) \<or> \<not> all \<and> badonly \<and> live t1 a)"
          "badonly \<and> \<not> all \<longrightarrow> (\<forall>a \<in> D. \<not> live t1 a)" by auto
      have lv: "live t1 = live t" using t1(3) by (simp add: kept_def live_def [abs_def])
      have "c \<notin> D" "finite D" using *(2) Cons.prems(2) by (auto intro: finite_subset)
      then have "n' + card (insert c D) = n" using *(4) n by simp
      moreover have "filter (\<lambda>a. a \<notin> D) (filter (\<lambda>x. x \<noteq> c) xs) = filter (\<lambda>a. a \<notin> insert c D) xs" by (auto intro: filter_cong)
      moreover have "\<forall>a \<in> insert c D. \<not> is_pinned (wraps t a)" using *(3) t1(3) True by (simp add: kept_def dr_def)
      moreover have "badonly \<and> \<not> all \<longrightarrow> (\<forall>a \<in> insert c D. \<not> live t a)" using *(8) True lv by (auto simp: dr_def)
      ultimately show ?thesis
        using step n True t1 * lv by (intro exI [of _ t'] exI [of _ n'] exI [of _ "insert c D"]) (auto simp: kept_def)
    next
      case False
      obtain t' n' D where
        *: "evict_pass all badonly cs n t = Some (t', n')" "D \<subseteq> set cs" "\<forall>a \<in> D. \<not> is_pinned (wraps t a)" "n' + card D = n"
          "lt_core t' (filter (\<lambda>a. a \<notin> D) xs)" "kept t t'"
          "0 < n' \<longrightarrow> (\<forall>a \<in> set cs - D. is_pinned (wraps t a) \<or> \<not> all \<and> badonly \<and> live t a)"
          "badonly \<and> \<not> all \<longrightarrow> (\<forall>a \<in> D. \<not> live t a)"
        using Cons.IH [OF Cons.prems(1), of n] Cons.prems by auto
      then show ?thesis using step n False
        by (intro exI [of _ t'] exI [of _ n'] exI [of _ D]) (auto simp: dr_def)
    qed
  qed
qed

text \<open>Eviction removes at most the requested number of nodes, only ones that no pin keeps, live ones only when all dead ones that
  no pin keeps are gone, and stops short of the request only when all that is left is kept.\<close>

lemma evict_ok:
  assumes "lt_core t xs" "lt_pins t xs ps"
  shows "\<exists>t' D. evict n t = Some t' \<and> D \<subseteq> set xs \<and> lt_core t' (filter (\<lambda>a. a \<notin> D) xs) \<and> lt_pins t' (filter (\<lambda>a. a \<notin> D) xs) ps
    \<and> (\<forall>a \<in> D. \<not> keeps t xs ps a) \<and> (\<forall>a \<in> set xs. is_pinned (wraps t' a) \<longleftrightarrow> keeps t xs ps a)
    \<and> loc_key t' = loc_key t \<and> max_cachedlocs t' = max_cachedlocs t \<and> live t' = live t \<and> pins t' = pins t
    \<and> (\<forall>a. loc (wraps t' a) = loc (wraps t a))
    \<and> (0 < n \<and> card D = n \<or> (\<forall>a \<in> set xs - D. keeps t xs ps a))
    \<and> (0 < n \<longrightarrow> card D \<le> n \<and> ((\<exists>a \<in> D. live t a) \<longrightarrow> (\<forall>a \<in> set xs - D. live t a \<or> keeps t xs ps a)))"
proof -
  obtain f where f: "figure_pins t = Some (flags f (t\<lparr>pins_updated := True\<rparr>))" "\<forall>a \<in> set xs. f a \<longleftrightarrow> keeps t xs ps a"
    using figure_pins_ok [OF assms] by blast
  define t0 m where "t0 = flags f (t\<lparr>pins_updated := True\<rparr>)" and "m = (if n = 0 then lt_size t0 else n)"
  have k0: "loc_key t0 = loc_key t" "pin_key t0 = pin_key t" "pins t0 = pins t" "pinlist t0 = pinlist t" "fresh t0 = fresh t"
    "max_cachedlocs t0 = max_cachedlocs t" "\<And>a. is_pinned (wraps t0 a) = f a" "live t0 = live t"
    by (simp_all add: t0_def) (simp add: live_def [abs_def])
  have c0: "lt_core t0 xs" using assms(1) by (simp add: t0_def)
  have cl: "distinct (cachedlocs t0)" "set (cachedlocs t0) \<subseteq> set xs" "set (cachedlocs t0) = set xs" using c0 by (auto simp: lt_core_def)
  obtain t1 n1 D1 where p1: "evict_pass (n = 0) True (cachedlocs t0) m t0 = Some (t1, n1)" "D1 \<subseteq> set xs" "\<forall>a \<in> D1. \<not> f a" "n1 + card D1 = m"
    "lt_core t1 (filter (\<lambda>a. a \<notin> D1) xs)" "kept t0 t1" "0 < n1 \<longrightarrow> (\<forall>a \<in> set xs - D1. f a \<or> n \<noteq> 0 \<and> live t a)"
    "n \<noteq> 0 \<longrightarrow> (\<forall>a \<in> D1. \<not> live t a)"
    using evict_pass_ok [OF c0 cl(1,2), of "n = 0" True m] unfolding k0(7,8) cl(3) by auto
  obtain t2 n2 D where p2: "(if n1 = 0 \<or> n = 0 then Some (t1, n1) else evict_pass (n = 0) False (cachedlocs t1) n1 t1) = Some (t2, n2)"
    "D \<subseteq> set xs" "\<forall>a \<in> D. \<not> f a" "n2 + card D = m" "lt_core t2 (filter (\<lambda>a. a \<notin> D) xs)" "kept t0 t2" "0 < n2 \<longrightarrow> (\<forall>a \<in> set xs - D. f a)"
    "n \<noteq> 0 \<longrightarrow> (\<exists>a \<in> D. live t a) \<longrightarrow> (\<forall>a \<in> set xs - D. live t a \<or> f a)"
  proof (cases "n1 = 0 \<or> n = 0")
    case True
    then show ?thesis using that [of t1 n1 D1] p1 by auto
  next
    case False
    let ?ys = "filter (\<lambda>a. a \<notin> D1) xs"
    have cl1: "distinct (cachedlocs t1)" "set (cachedlocs t1) \<subseteq> set ?ys" "set (cachedlocs t1) = set ?ys" using p1(5) by (auto simp: lt_core_def)
    have w: "is_pinned (wraps t1 a) = f a" for a using p1(6) k0(7) by (simp add: kept_def)
    obtain t2 n2 D2 where q: "evict_pass (n = 0) False (cachedlocs t1) n1 t1 = Some (t2, n2)" "D2 \<subseteq> set ?ys" "\<forall>a \<in> D2. \<not> f a"
      "n2 + card D2 = n1" "lt_core t2 (filter (\<lambda>a. a \<notin> D2) ?ys)" "kept t1 t2" "0 < n2 \<longrightarrow> (\<forall>a \<in> set ?ys - D2. f a)"
      using evict_pass_ok [OF p1(5) cl1(1,2), of "n = 0" False n1] unfolding w cl1(3) by auto
    have "card (D1 \<union> D2) = card D1 + card D2"
      using p1(2) q(2) by (intro card_Un_disjoint) (auto intro: finite_subset)
    moreover have "filter (\<lambda>a. a \<notin> D2) ?ys = filter (\<lambda>a. a \<notin> D1 \<union> D2) xs" by (auto intro: filter_cong)
    moreover have "\<forall>a \<in> set xs - (D1 \<union> D2). live t a \<or> f a" using p1(7) False by auto
    moreover have "D1 \<union> D2 \<subseteq> set xs" "\<forall>a \<in> D1 \<union> D2. \<not> f a" using p1(2,3) q(2,3) by auto
    moreover have "kept t0 t2" using p1(6) q(6) by (simp add: kept_def)
    ultimately show ?thesis using that [of t2 n2 "D1 \<union> D2"] False p1(4) q(1,4,5,7) by simp
  qed
  let ?t = "if n2 > 0 \<and> n \<noteq> 0 then t2\<lparr>pins_updated := False\<rparr> else t2" and ?ys = "filter (\<lambda>a. a \<notin> D) xs"
  have "evict n t = Some ?t"
    using f(1) p1(1) p2(1) unfolding evict_def t0_def [symmetric] by (auto simp: m_def Let_def)
  moreover have "lt_core ?t ?ys" using p2(5) by simp
  moreover have dis: "\<forall>a \<in> D. \<not> keeps t xs ps a" using f(2) p2(2,3) by blast
  moreover have "lt_pins ?t ?ys ps"
  proof -
    have "pin_key t p \<in> loc_key t ` set ?ys" if p: "p \<in> set ps" "pinself (pins t p)" for p
    proof -
      obtain a where a: "a \<in> set xs" "loc_key t a = pin_key t p" using assms(2) p by (auto simp: lt_pins_def image_iff)
      then have "a \<in> to_pin t xs (pins t p)" using p(2) by (simp add: to_pin_def self_pins_def pin_key_def)
      then have "keeps t xs ps a" using p(1) by (auto simp: keeps_def all_pinned_def)
      then show ?thesis using dis a p(1) by (intro rev_image_eqI [of a]) auto
    qed
    then have "lt_pins t2 ?ys ps" using assms(2) p2(6) k0 kept_keys [OF p2(6)] by (simp add: lt_pins_def kept_def)
    then show ?thesis by simp
  qed
  moreover have "loc_key ?t = loc_key t" "max_cachedlocs ?t = max_cachedlocs t" "pins ?t = pins t" "\<forall>a \<in> set xs. is_pinned (wraps ?t a) \<longleftrightarrow> keeps t xs ps a"
    using kept_keys [OF p2(6)] p2(6) k0 f(2) by (auto simp: kept_def)
  moreover have "\<forall>a. loc (wraps ?t a) = loc (wraps t a)" using p2(6) by (simp add: kept_def t0_def)
  moreover have "live ?t = live t"
  proof -
    have "wraps ?t = wraps t0" using p2(6) by (simp add: kept_def)
    then have "live ?t = live t0" by (simp add: live_def [abs_def])
    then show ?thesis using k0(8) by simp
  qed
  moreover have "0 < n \<and> card D = n \<or> (\<forall>a \<in> set xs - D. keeps t xs ps a)"
  proof (cases "n2 = 0 \<and> n = 0")
    case True
    then have "card D = length xs" using p2(4) core_size [OF c0] by (simp add: m_def)
    then have "D = set xs" using p2(2) core_distinct [OF c0] by (intro card_subset_eq) (simp_all add: distinct_card)
    then show ?thesis by simp
  next
    case False
    then show ?thesis using p2(4,7) f(2) by (auto simp: m_def)
  qed
  moreover have "0 < n \<longrightarrow> card D \<le> n \<and> ((\<exists>a \<in> D. live t a) \<longrightarrow> (\<forall>a \<in> set xs - D. live t a \<or> keeps t xs ps a))"
    using p2(4,8) f(2) by (auto simp: m_def)
  ultimately show ?thesis using p2(2) by (intro exI [of _ ?t] exI [of _ D]) simp
qed

subsection \<open>Insertion and the other operations\<close>

lemma sorted_elems_cong: "(\<And>x. x \<in> set xs \<Longrightarrow> kf x = kf' x) \<Longrightarrow> sorted_elems kf s xs \<Longrightarrow> sorted_elems kf' s xs"
proof -
  assume a: "\<And>x. x \<in> set xs \<Longrightarrow> kf x = kf' x" "sorted_elems kf s xs"
  have "keys_inc kf xs \<Longrightarrow> keys_inc kf' xs" unfolding keys_inc_def by (rule sorted_wrt_mono_rel) (use a(1) in auto)
  then show ?thesis using a(2) by (auto simp: sorted_elems_def skip_inv_def)
qed

lemma insert_fresh:
  assumes "sorted_elems kf s xs" "a \<notin> set xs" "k \<notin> kf ` set xs" "kf' = kf(a := k)"
  obtains s' ys where "sk_insert kf' coins a s = Some (s', True)" "sorted_elems kf' s' ys" "set ys = insert a (set xs)" "length ys = Suc (length xs)"
    "ys = elems_below kf k xs @ a # elems_from kf k xs"
proof -
  have "sorted_elems kf' s xs" using assms(1,2,4) by (auto intro: sorted_elems_cong [of xs kf])
  moreover have "kf' a \<notin> kf' ` set xs" using assms(2-4) by (auto simp: image_iff)
  ultimately obtain s' where s': "sk_insert kf' coins a s = Some (s', True)"
    "sorted_elems kf' s' (elems_below kf' (kf' a) xs @ a # elems_from kf' (kf' a) xs)"
    using insert_sorted_elems [of kf' s xs a coins] assms(2) by auto
  have "elems_below kf' (kf' a) xs = elems_below kf k xs" "elems_from kf' (kf' a) xs = elems_from kf k xs"
    using assms(2,4) by (auto simp: elems_below_def elems_from_def intro!: filter_cong)
  moreover from this have "length (elems_below kf k xs) + length (elems_from kf k xs) = length xs"
    using sum_length_filter_compl [of "\<lambda>x. kf x < k" xs] by (simp add: elems_below_def elems_from_def not_less)
  ultimately show thesis using s' by (intro that [of s']) (auto simp: elems_below_def elems_from_def)
qed

lemma lookup_ok:
  assumes "lt_core t xs" "lt_pins t xs ps"
  shows "lookup k t = (t\<lparr>cachedlocs := case locs_find t k of None \<Rightarrow> cachedlocs t | Some a \<Rightarrow> removeAll a (cachedlocs t) @ [a]\<rparr>, locs_find t k)"
    and "lt_core (fst (lookup k t)) xs" "lt_pins (fst (lookup k t)) xs ps"
proof -
  let ?t = "\<lambda>c. t\<lparr>cachedlocs := c\<rparr>"
  show l: "lookup k t = (?t (case locs_find t k of None \<Rightarrow> cachedlocs t | Some a \<Rightarrow> removeAll a (cachedlocs t) @ [a]), locs_find t k)"
    by (simp add: lookup_def split: option.split)
  have k: "loc_key (?t c) = loc_key t" "pin_key (?t c) = pin_key t" for c by (simp_all add: loc_key_def [abs_def] pin_key_def [abs_def])
  have "a \<in> set xs" if "locs_find t k = Some a" for a
    using that locs_find_eq [OF assms(1), of k] find_split [of "\<lambda>a. loc_key t a = k" xs a] by auto
  then show "lt_core (fst (lookup k t)) xs" "lt_pins (fst (lookup k t)) xs ps"
    using assms by (auto simp: l lt_core_def lt_pins_def k distinct_removeAll split: option.split)
qed

lemma update_alive: "is_alive l \<Longrightarrow> is_alive (fst (update now l other))"
  by (auto simp: update_def set_alive_def Let_def split: prod.splits)

text \<open>What an insertion of a new node comes to. \<open>u\<close> is the table with the node added and \<open>ys\<close> its nodes in the order of
  their identifiers.\<close>

definition with_node :: "location \<Rightarrow> locationtable \<Rightarrow> locationtable" where
  "with_node l t = t\<lparr>wraps := (wraps t)(fresh t := \<lparr>loc = l, lw_n = l_id l, is_pinned = False\<rparr>)\<rparr>"

definition with_addr :: "location \<Rightarrow> locationtable \<Rightarrow> addr list \<Rightarrow> addr list" where
  "with_addr l t xs = elems_below (loc_key t) (l_id l) xs @ fresh t # elems_from (loc_key t) (l_id l) xs"

lemma table_cong:
  assumes "wraps t = wraps u" "pins t = pins u"
  shows "loc_key t = loc_key u" "live t = live u" "keeps t = keeps u"
proof -
  show k: "loc_key t = loc_key u" "live t = live u" using assms by (simp_all add: loc_key_def [abs_def] live_def [abs_def])
  then have "ring_from t = ring_from u" by (simp add: ring_from_def [abs_def])
  then show "keeps t = keeps u"
    using k assms by (simp add: keeps_def [abs_def] all_pinned_def to_pin_def self_pins_def side_pins_def)
qed

definition inserted :: "location \<Rightarrow> locationtable \<Rightarrow> addr list \<Rightarrow> addr list \<Rightarrow> locationtable \<Rightarrow> addr list \<Rightarrow> bool" where
  "inserted l t xs ps t' xs' \<longleftrightarrow> (let u = with_node l t; ys = with_addr l t xs in
     set xs' \<subseteq> set ys \<and> loc_key t' = loc_key u \<and> live t' = live u \<and> pins t' = pins t
     \<and> (\<forall>a \<in> set ys. keeps u ys ps a \<longrightarrow> a \<in> set xs')
     \<and> min (length ys) (max_cachedlocs t) \<le> length xs'
     \<and> (length xs' \<le> max_cachedlocs t \<or> (\<forall>a \<in> set xs'. keeps u ys ps a))
     \<and> (\<forall>a \<in> set ys - set xs'. live u a \<longrightarrow> (\<forall>b \<in> set xs'. live u b \<or> keeps u ys ps b)))"

lemma realinsert_ok:
  assumes "lt_core t xs" "lt_pins t xs ps" "0 \<le> vnode l"
  shows "\<exists>t' r xs'. realinsert now coins l t = Some (t', r) \<and> l_id r = l_id l \<and> lt_core t' xs' \<and> lt_pins t' xs' ps
    \<and> loc_key t' ` set xs' \<subseteq> insert (l_id l) (loc_key t ` set xs) \<and> max_cachedlocs t' = max_cachedlocs t
    \<and> (length xs < max_cachedlocs t \<longrightarrow> loc_key t' ` set xs' = insert (l_id l) (loc_key t ` set xs) \<and> length xs' \<le> Suc (length xs))
    \<and> (\<forall>a \<in> set xs'. loc (wraps t' a) = l \<or> (\<exists>b \<in> set xs. loc (wraps t' a) \<in> {loc (wraps t b), fst (update now (loc (wraps t b)) l)}))
    \<and> ((\<forall>a \<in> set xs. live t a) \<and> is_alive l \<longrightarrow> is_alive r)
    \<and> ((\<forall>a \<in> set xs. live t a) \<and> is_alive l \<longrightarrow> (\<forall>a \<in> set xs'. live t' a))
    \<and> (if l_id l \<in> loc_key t ` set xs then xs' = xs else inserted l t xs ps t' xs')"
proof (cases "l_id l \<in> loc_key t ` set xs")
  case True
  then obtain a where a: "a \<in> set xs" "locs_find t (l_id l) = Some a" "loc_key t a = l_id l" using locs_find_mem [OF assms(1)] by auto
  define t1 where "t1 = fst (lookup (l_id l) t)"
  have t1: "lookup (l_id l) t = (t1, Some a)" "lt_core t1 xs" "lt_pins t1 xs ps" "wraps t1 = wraps t"
    using lookup_ok [OF assms(1,2), of "l_id l"] a(2) by (simp_all add: t1_def)
  let ?l = "fst (update now (loc (wraps t a)) l)"
  have k: "loc_key (set_loc a m t1) = loc_key t1" "pin_key (set_loc a m t1) = pin_key t1" for m
    by (auto simp: loc_key_def pin_key_def set_loc_def fun_eq_iff)
  have "l_id ?l = l_id l" using a assms(1) by (simp add: lt_core_def)
  moreover have "lt_core (set_loc a ?l t1) xs" "lt_pins (set_loc a ?l t1) xs ps"
    using t1 by (auto simp: lt_core_def lt_pins_def k) (auto simp: set_loc_def lt_core_def)
  moreover have "realinsert now coins l t = Some (set_loc a ?l t1, ?l)" using t1 by (simp add: realinsert_def Let_def)
  moreover have "max_cachedlocs (set_loc a ?l t1) = max_cachedlocs t" using lookup_ok(1) [OF assms(1,2), of "l_id l"] t1(1) by (simp add: set_loc_def)
  moreover have "(\<forall>a \<in> set xs. live t a) \<longrightarrow> is_alive ?l" using a(1) update_alive by (auto simp: live_def)
  moreover have "\<forall>b \<in> set xs. loc (wraps (set_loc a ?l t1) b) \<in> {loc (wraps t b), fst (update now (loc (wraps t b)) l)}"
    using t1(4) by (simp add: set_loc_def)
  moreover have "loc_key (set_loc a ?l t1) = loc_key t"
    using t1(4) k(1) by (simp add: loc_key_def [abs_def])
  moreover have "live t b \<longrightarrow> is_alive l \<longrightarrow> live (set_loc a ?l t1) b" for b
    using t1(4) update_alive [of "loc (wraps t a)" now l] by (auto simp: live_def set_loc_def)
  ultimately show ?thesis using True by (intro exI [of _ "set_loc a ?l t1"] exI [of _ ?l] exI [of _ xs]) auto
next
  case False
  then have "find (\<lambda>a. loc_key t a = l_id l) xs = None" by (force simp: find_None_iff)
  then have nf: "lookup (l_id l) t = (t, None)" using locs_find_eq [OF assms(1), of "l_id l"] by (simp add: lookup_def)
  let ?a = "fresh t"
  define t1 where "t1 = t\<lparr>wraps := (wraps t)(?a := \<lparr>loc = l, lw_n = l_id l, is_pinned = False\<rparr>), fresh := ?a + 1\<rparr>"
  have k1: "loc_key t1 = (loc_key t)(?a := l_id l)" "pin_key t1 = pin_key t" by (auto simp: t1_def loc_key_def pin_key_def fun_eq_iff)
  have fr: "?a \<notin> set xs" using assms(1) by (auto simp: lt_core_def)
  obtain sl ys where sl: "sk_insert (loc_key t1) coins ?a (loclist t) = Some (sl, True)" "sorted_elems (loc_key t1) sl ys"
    "set ys = insert ?a (set xs)" "length ys = Suc (length xs)" "ys = elems_below (loc_key t) (l_id l) xs @ ?a # elems_from (loc_key t) (l_id l) xs"
    using insert_fresh [of "loc_key t" "loclist t" xs ?a "l_id l" "loc_key t1" coins] assms(1) fr False k1(1) by (auto simp: lt_core_def)
  define t2 where "t2 = t1\<lparr>locs := ?a # locs t, loclist := sl, cachedlocs := cachedlocs t @ [?a], pins_updated := False\<rparr>"
  have k2: "loc_key t2 = loc_key t1" "pin_key t2 = pin_key t" "max_cachedlocs t2 = max_cachedlocs t"
    using k1 by (simp_all add: t2_def t1_def loc_key_def [abs_def] pin_key_def [abs_def])
  have c2: "lt_core t2 ys"
    using assms(1,3) sl fr unfolding lt_core_def k2 by (auto simp: t2_def t1_def k1 loc_key_def)
  have "\<forall>p \<in> set ps. pin_key t p \<in> loc_key t ` set xs \<longrightarrow> pin_key t p \<in> loc_key t1 ` set ys"
    using fr by (auto simp: k1 sl(3) image_iff)
  then have p2: "lt_pins t2 ys ps" using assms(2) unfolding lt_pins_def k2 by (auto simp: t2_def t1_def less_SucI)
  have ys: "ys = with_addr l t xs" using sl(5) by (simp add: with_addr_def)
  have u: "wraps t2 = wraps (with_node l t)" "pins t2 = pins (with_node l t)" "pins t2 = pins t" by (simp_all add: with_node_def t2_def t1_def)
  note same = table_cong [OF u(1,2)]
  have sz: "lt_size t2 = length ys" using core_size [OF c2] .
  have ky: "loc_key t2 ` set ys = insert (l_id l) (loc_key t ` set xs)" using fr by (auto simp: k2 k1 sl(3))
  have lv: "(\<forall>a \<in> set xs. live t a) \<and> is_alive l \<longrightarrow> (\<forall>a \<in> set ys. live t2 a)"
    using fr by (auto simp: sl(3) live_def t2_def t1_def)
  have lo: "\<forall>a \<in> set ys. loc (wraps t2 a) = l \<or> (\<exists>b \<in> set xs. loc (wraps t2 a) = loc (wraps t b))"
    using fr by (auto simp: sl(3) t2_def t1_def)
  have r: "realinsert now coins l t =
      do { t \<leftarrow> (if lt_size t2 > max_cachedlocs t then evict (lt_size t2 - max_cachedlocs t) t2 else Some t2); Some (t, l) }"
    using nf sl(1) k2(3) by (simp add: realinsert_def Let_def flip: t1_def) (simp add: t1_def t2_def)
  show ?thesis
  proof (cases "length ys > max_cachedlocs t")
    case True
    let ?n = "length ys - max_cachedlocs t"
    obtain t' D where e: "evict ?n t2 = Some t'" "D \<subseteq> set ys" "lt_core t' (filter (\<lambda>a. a \<notin> D) ys)" "lt_pins t' (filter (\<lambda>a. a \<notin> D) ys) ps"
      "card D = ?n \<or> (\<forall>a \<in> set ys - D. keeps t2 ys ps a)"
      "loc_key t' = loc_key t2" "live t' = live t2" "max_cachedlocs t' = max_cachedlocs t2"
      "\<forall>a. loc (wraps t' a) = loc (wraps t2 a)" "pins t' = pins t2" "\<forall>a \<in> D. \<not> keeps t2 ys ps a" "card D \<le> ?n" "(\<exists>a \<in> D. live t2 a) \<longrightarrow> (\<forall>a \<in> set ys - D. live t2 a \<or> keeps t2 ys ps a)"
      using evict_ok [OF c2 p2, of ?n] True by auto
    have "length (filter (\<lambda>a. a \<notin> D) ys) = length ys - card D"
    proof -
      have "length (filter (\<lambda>a. a \<notin> D) ys) = card (set ys - D)"
        using core_distinct [OF e(3)] by (simp add: set_diff_eq flip: distinct_card)
      also have "\<dots> = card (set ys) - card D" using e(2) by (simp add: card_Diff_subset finite_subset)
      finally show ?thesis using core_distinct [OF c2] by (simp add: distinct_card)
    qed
    moreover from this have "inserted l t xs ps t' (filter (\<lambda>a. a \<notin> D) ys)"
      using e(2,5-) True u(3) unfolding inserted_def Let_def ys [symmetric] same [symmetric] by auto
    ultimately show ?thesis
      using e r sz True False sl(3,4) ky lv lo k2(3) by (intro exI [of _ t'] exI [of _ l] exI [of _ "filter (\<lambda>a. a \<notin> D) ys"]) auto
  next
    case le: False
    then have "inserted l t xs ps t2 ys"
      using u(3) unfolding inserted_def Let_def ys [symmetric] same [symmetric] by auto
    then show ?thesis using le r sz False c2 p2 sl(3,4) ky lv lo k2(3) by (intro exI [of _ t2] exI [of _ l] exI [of _ ys]) auto
  qed
qed

text \<open>
  C17: the table of known nodes is bounded. Inserting a node (with a vnode number that is not negative) into a table that
  satisfies the invariant always succeeds and keeps the invariant. When its identifier is known the nodes stay the same.
  Otherwise let \<open>ys\<close> be the nodes with the new one among them. No node of \<open>ys\<close> that a pin asks to keep is evicted (the node
  itself, the first live nodes clockwise from the identifier, itself included, and counter-clockwise, as many as the pin
  says, and the closest predecessor, dead or alive; with no pin at all, the nodes whose flag is still set); no more are
  evicted than it takes to come down to \<^verbatim>\<open>max_cachedlocs\<close> nodes; a live node is evicted only when every dead node left is
  kept by a pin; and at the end there are at most \<^verbatim>\<open>max_cachedlocs\<close> nodes, or every node left is kept by a pin.
\<close>

theorem realinsert_bounded:
  assumes "lt_core t xs" "lt_pins t xs ps" "0 \<le> vnode l"
  shows "\<exists>t' r xs'. realinsert now coins l t = Some (t', r) \<and> l_id r = l_id l \<and> lt_core t' xs' \<and> lt_pins t' xs' ps
    \<and> (if l_id l \<in> loc_key t ` set xs then xs' = xs
       else let u = with_node l t; ys = with_addr l t xs in
         set xs' \<subseteq> set ys \<and> loc_key t' = loc_key u
         \<and> (\<forall>a \<in> set ys. keeps u ys ps a \<longrightarrow> a \<in> set xs')
         \<and> min (length ys) (max_cachedlocs t) \<le> length xs'
         \<and> (length xs' \<le> max_cachedlocs t \<or> (\<forall>a \<in> set xs'. keeps u ys ps a))
         \<and> (\<forall>a \<in> set ys - set xs'. live u a \<longrightarrow> (\<forall>b \<in> set xs'. live u b \<or> keeps u ys ps b)))"
  using realinsert_ok [OF assms, of now coins] unfolding inserted_def Let_def
  by (elim exE conjE, intro exI conjI) (assumption | simp split: if_splits)+

lemma new_table_ok: "lt_core (new_locationtable n) []" "lt_pins (new_locationtable n) [] []"
  by (simp_all add: lt_core_def lt_pins_def new_locationtable_def new_sorted_elems blank_def)

definition sample_location :: location where
  "sample_location = new_location 10 True 7 [] 0 0 0 60 0 0 False"

text \<open>Pins: a new pin is recorded, and a pin of the node itself needs the node in the table.\<close>

lemma pin_ok:
  assumes "lt_core t xs" "lt_pins t xs ps" "num = 0 \<longrightarrow> x \<in> loc_key t ` set xs"
  shows "\<exists>t' ps'. pin coins x num t = Some t' \<and> lt_core t' xs \<and> lt_pins t' xs ps' \<and> pin_key t' ` set ps' = insert x (pin_key t ` set ps)"
proof -
  let ?t = "t\<lparr>pins_updated := False\<rparr>"
  have so: "sorted_elems (pin_key t) (pinlist t) ps" using assms(2) by (simp add: lt_pins_def)
  then have se: "search (pin_key t) (pinlist t) x = Some (find (\<lambda>a. pin_key t a = x) ps)" using search_inv by (auto simp: sorted_elems_def)
  show ?thesis
  proof (cases "find (\<lambda>a. pin_key t a = x) ps")
    case (Some a)
    then have a: "a \<in> set ps" "pin_key t a = x" using find_split [OF Some] by auto
    define c where "c = (if num = 0 then (pins t a)\<lparr>pinself := True\<rparr> else if num > 0 then (pins t a)\<lparr>pinsucc := nat num\<rparr> else (pins t a)\<lparr>pinpred := nat (- num)\<rparr>)"
    let ?t' = "?t\<lparr>pins := (pins t)(a := c)\<rparr>"
    have p: "pin coins x num t = Some ?t'" using se Some by (simp add: pin_def c_def Let_def)
    have k: "pin_key ?t' = pin_key t" "loc_key ?t' = loc_key t" by (auto simp: pin_key_def loc_key_def c_def fun_eq_iff)
    have "lt_core ?t' xs" using assms(1) by (simp add: lt_core_def k)
    moreover have "lt_pins ?t' xs ps" using assms(2,3) a unfolding lt_pins_def k by (auto simp: c_def split: if_splits)
    ultimately show ?thesis using p a k by (intro exI [of _ ?t'] exI [of _ ps]) auto
  next
    case None
    then have nx: "x \<notin> pin_key t ` set ps" by (auto simp: find_None_iff)
    let ?a = "fresh t"
    define c where "c = (if num = 0 then \<lparr>pin_n = x, pinself = True, pinsucc = 0, pinpred = 0\<rparr>
      else if num > 0 then \<lparr>pin_n = x, pinself = False, pinsucc = nat num, pinpred = 0\<rparr>
      else \<lparr>pin_n = x, pinself = False, pinsucc = 0, pinpred = nat (- num)\<rparr>)"
    define t1 where "t1 = ?t\<lparr>pins := (pins t)(?a := c), fresh := ?a + 1\<rparr>"
    have k1: "pin_key t1 = (pin_key t)(?a := x)" "loc_key t1 = loc_key t" by (auto simp: t1_def pin_key_def loc_key_def c_def fun_eq_iff)
    have fr: "?a \<notin> set ps" using assms(2) by (auto simp: lt_pins_def)
    obtain l qs where l: "sk_insert (pin_key t1) coins ?a (pinlist t) = Some (l, True)" "sorted_elems (pin_key t1) l qs" "set qs = insert ?a (set ps)"
      using insert_fresh [OF so fr nx k1(1), of coins] .
    let ?t' = "t1\<lparr>pinlist := l\<rparr>"
    have p: "pin coins x num t = Some ?t'" using se None l(1) by (simp add: pin_def Let_def t1_def c_def)
    have k: "pin_key ?t' = pin_key t1" "loc_key ?t' = loc_key t" using k1(2) by (auto simp: pin_key_def loc_key_def fun_eq_iff)
    have "lt_core ?t' xs" using assms(1) by (auto simp: lt_core_def k) (auto simp: t1_def lt_core_def)
    moreover have "lt_pins ?t' xs qs"
      using assms(2,3) l fr unfolding lt_pins_def k by (auto simp: k1 less_SucI) (auto simp: t1_def c_def less_SucI split: if_splits)
    moreover have "pin_key ?t' ` set qs = insert x (pin_key t ` set ps)" using fr by (auto simp: k k1 l(3))
    ultimately show ?thesis using p by blast
  qed
qed

lemma unpin_ok:
  assumes "lt_core t xs" "lt_pins t xs ps"
  shows "\<exists>t'. unpin x t = Some t' \<and> lt_core t' xs \<and> lt_pins t' xs (filter (\<lambda>p. pin_key t p \<noteq> x) ps)"
proof -
  have so: "sorted_elems (pin_key t) (pinlist t) ps" using assms(2) by (simp add: lt_pins_def)
  then have se: "search (pin_key t) (pinlist t) x = Some (find (\<lambda>a. pin_key t a = x) ps)" using search_inv by (auto simp: sorted_elems_def)
  show ?thesis
  proof (cases "find (\<lambda>a. pin_key t a = x) ps")
    case None
    then have "filter (\<lambda>p. pin_key t p \<noteq> x) ps = ps" by (auto simp: find_None_iff intro: filter_True)
    then show ?thesis using assms se None by (auto simp: unpin_def)
  next
    case (Some a)
    obtain l where l: "sk_remove (pin_key t) (pinlist t) x = Some (l, Some a)" "sorted_elems (pin_key t) l (filter (\<lambda>p. pin_key t p \<noteq> x) ps)"
      using remove_sorted_elems [OF so, of x] Some by auto
    let ?t' = "t\<lparr>pins_updated := False, pinlist := l\<rparr>"
    have k: "pin_key ?t' = pin_key t" "loc_key ?t' = loc_key t" by (auto simp: pin_key_def loc_key_def fun_eq_iff)
    have "unpin x t = Some ?t'" using se Some l(1) by (simp add: unpin_def)
    then show ?thesis using assms l(2) by (auto simp: lt_core_def lt_pins_def k)
  qed
qed

text \<open>
  C18: what is pinned is kept, and nothing else. Flushing a table that satisfies the invariant succeeds and keeps the
  invariant, and the nodes left, all marked as pinned, are exactly those a pin asks for: the node itself when the pin says
  so, the first live nodes clockwise from the identifier and counter-clockwise, as many as the pin says, and with a
  predecessor count also the closest predecessor, dead or alive. A node with the pinned identifier counts as the first of
  its own successors, against the comment in \<^verbatim>\<open>figure_pins\<close> that the pinned successors of x do not include x. With no
  pin at all the nodes whose flag is still set are left.
\<close>

theorem flush_keeps_pinned:
  assumes "lt_core t xs" "lt_pins t xs ps"
  shows "\<exists>t' xs'. flush t = Some t' \<and> lt_core t' xs' \<and> lt_pins t' xs' ps \<and> loc_key t' = loc_key t
    \<and> xs' = filter (\<lambda>a. if ps = [] then is_pinned (wraps t a) else \<exists>p \<in> set ps. a \<in> to_pin t xs (pins t p)) xs
    \<and> (\<forall>a \<in> set xs'. is_pinned (wraps t' a))"
proof -
  obtain t' D where e: "evict 0 t = Some t'" "lt_core t' (filter (\<lambda>a. a \<notin> D) xs)" "lt_pins t' (filter (\<lambda>a. a \<notin> D) xs) ps"
    "\<forall>a \<in> D. \<not> keeps t xs ps a" "loc_key t' = loc_key t" "\<forall>a \<in> set xs - D. keeps t xs ps a"
    "\<forall>a \<in> set xs. is_pinned (wraps t' a) \<longleftrightarrow> keeps t xs ps a"
    using evict_ok [OF assms, of 0] by auto
  have "filter (\<lambda>a. a \<notin> D) xs = filter (keeps t xs ps) xs" using e(4,6) by (intro filter_cong) auto
  moreover have "keeps t xs ps = (\<lambda>a. if ps = [] then is_pinned (wraps t a) else \<exists>p \<in> set ps. a \<in> to_pin t xs (pins t p))"
    by (simp add: keeps_def [abs_def] all_pinned_def)
  ultimately show ?thesis
    using e by (intro exI [of _ t'] exI [of _ "filter (\<lambda>a. a \<notin> D) xs"]) (auto simp: flush_def)
qed

text \<open>With the last pin removed the flags are not computed again: nodes stay pinned that nothing asks to keep.\<close>

lemma figure_pins_stale: "head (pinlist t) = None \<Longrightarrow> figure_pins t = Some (t\<lparr>pins_updated := True\<rparr>)"
  by (simp add: figure_pins_def)

definition sample_table :: "skiplist \<Rightarrow> locationtable" where
  "sample_table s = (new_locationtable 1)\<lparr>wraps := \<lambda>_. \<lparr>loc = sample_location, lw_n = 7, is_pinned = False\<rparr>, fresh := 1,
     locs := [0], cachedlocs := [0], loclist := s\<rparr>"

lemma sample_table_ok: "\<exists>s. lt_core (sample_table s) [0] \<and> lt_pins (sample_table s) [0] []"
proof -
  let ?k = "\<lambda>_ :: addr. 7 :: chordID"
  have "sorted_elems ?k (new_skiplist (\<lambda>_. blank)) []" by (simp add: new_sorted_elems blank_def)
  from insert_sorted_elems [OF this, of 0 "[]"] obtain s where so: "sorted_elems ?k s [0]"
    by (auto simp: elems_below_def elems_from_def)
  have k: "loc_key (sample_table s) = ?k" by (simp add: loc_key_def [abs_def] sample_table_def)
  have "lt_core (sample_table s) [0]"
    unfolding lt_core_def k using so by (simp add: sample_table_def sample_location_def new_location_def)
  moreover have "lt_pins (sample_table s) [0] []"
    unfolding lt_pins_def by (simp add: sample_table_def new_locationtable_def new_sorted_elems blank_def)
  ultimately show ?thesis by blast
qed

theorem closest_live_neighbours_witness:
  "\<exists>t. closestsuccloc 9 t = Some sample_location \<and> closestpredloc 9 [] t = Some sample_location"
proof -
  obtain s where s: "lt_core (sample_table s) [0]" using sample_table_ok by blast
  have n: "0 < ring" "9 < ring" by (simp_all add: ring_def NBIT_def del: two_NBIT)
  have "is_id 9" "\<forall>a \<in> set [0]. is_id (loc_key (sample_table s) a)" "\<exists>a \<in> set [0]. usable [] (sample_table s) a"
    using n by (simp_all add: is_id_def loc_key_def sample_table_def usable_def live_def sample_location_def new_location_def)
  from closest_live_neighbours [OF s this] show ?thesis by (intro exI [of _ "sample_table s"]) (simp add: sample_table_def)
qed

text \<open>Two live nodes, 7 and 9, and a pin of one successor of 7.\<close>

definition pin_table :: "skiplist \<Rightarrow> skiplist \<Rightarrow> locationtable" where
  "pin_table s q = (new_locationtable 2)\<lparr>wraps := \<lambda>a. (let l = sample_location\<lparr>l_id := if a = 0 then 7 else 9\<rparr>
       in \<lparr>loc = l, lw_n = l_id l, is_pinned = False\<rparr>),
     pins := \<lambda>_. \<lparr>pin_n = 7, pinself = False, pinsucc = 1, pinpred = 0\<rparr>, fresh := 3,
     locs := [0, 1], cachedlocs := [0, 1], loclist := s, pinlist := q\<rparr>"

lemma pin_table_keys: "loc_key (pin_table s q) = (\<lambda>a. if a = 0 then 7 else 9)" "pin_key (pin_table s q) = (\<lambda>_. 7)"
  "live (pin_table s q) = (\<lambda>_. True)"
  by (auto simp: loc_key_def pin_key_def pin_table_def Let_def live_def sample_location_def new_location_def)

lemma pin_table_ok: "\<exists>s q. lt_core (pin_table s q) [0, 1] \<and> lt_pins (pin_table s q) [0, 1] [2]"
proof -
  let ?k = "\<lambda>a :: addr. if a = 0 then 7 else 9 :: chordID"
  have "sorted_elems ?k (new_skiplist (\<lambda>_. blank)) []" by (simp add: new_sorted_elems blank_def)
  from insert_sorted_elems [OF this, of 0 "[]"] obtain s0 where "sorted_elems ?k s0 [0]"
    by (auto simp: elems_below_def elems_from_def)
  from insert_sorted_elems [OF this, of 1 "[]"] obtain s where s: "sorted_elems ?k s [0, 1]"
    by (auto simp: elems_below_def elems_from_def)
  have "sorted_elems (\<lambda>_ :: addr. 7 :: chordID) (new_skiplist (\<lambda>_. blank)) []" by (simp add: new_sorted_elems blank_def)
  from insert_sorted_elems [OF this, of 2 "[]"] obtain q where q: "sorted_elems (\<lambda>_ :: addr. 7 :: chordID) q [2]"
    by (auto simp: elems_below_def elems_from_def)
  have "lt_core (pin_table s q) [0, 1]"
    unfolding lt_core_def pin_table_keys using s by (simp add: pin_table_def Let_def sample_location_def new_location_def)
  moreover have "lt_pins (pin_table s q) [0, 1] [2]"
    unfolding lt_pins_def pin_table_keys using q by (simp add: pin_table_def)
  ultimately show ?thesis by blast
qed

theorem flush_keeps_pinned_witness:
  "\<exists>t t'. locs t = [0, 1] \<and> pinsucc (pins t 2) = 1 \<and> flush t = Some t' \<and> lt_core t' [0] \<and> loc_key t' 0 = 7 \<and> is_pinned (wraps t' 0)"
proof -
  obtain s q where o: "lt_core (pin_table s q) [0, 1]" "lt_pins (pin_table s q) [0, 1] [2]" using pin_table_ok by blast
  have "to_pin (pin_table s q) [0, 1] (pins (pin_table s q) 2) = {0}"
    by (simp add: to_pin_def self_pins_def side_pins_def ring_from_def elems_from_def elems_below_def pin_table_keys)
      (auto simp: pin_table_def)
  with flush_keeps_pinned [OF o] obtain t' where "flush (pin_table s q) = Some t'" "lt_core t' [0]"
    "loc_key t' = loc_key (pin_table s q)" "is_pinned (wraps t' 0)" by auto
  moreover have "locs (pin_table s q) = [0, 1]" "pinsucc (pins (pin_table s q) 2) = 1" by (simp_all add: pin_table_def)
  ultimately show ?thesis by (intro exI [of _ "pin_table s q"] exI [of _ t']) (simp add: pin_table_keys)
qed

theorem realinsert_bounded_witness:
  "\<exists>t t' r xs'. locs t = [0, 1] \<and> realinsert 20 [True] (sample_location\<lparr>l_id := 11\<rparr>) t = Some (t', r) \<and> l_id r = 11
     \<and> lt_core t' xs' \<and> set xs' \<subseteq> {0, 1, 3} \<and> 0 \<in> set xs' \<and> 2 \<le> length xs'"
proof -
  obtain s q where o: "lt_core (pin_table s q) [0, 1]" "lt_pins (pin_table s q) [0, 1] [2]" using pin_table_ok by blast
  let ?l = "sample_location\<lparr>l_id := 11\<rparr>" and ?t = "pin_table s q"
  let ?u = "with_node ?l ?t"
  have f: "fresh ?t = 3" "max_cachedlocs ?t = 2" "locs ?t = [0, 1]" "pins ?u 2 = \<lparr>pin_n = 7, pinself = False, pinsucc = 1, pinpred = 0\<rparr>"
    by (simp_all add: pin_table_def new_locationtable_def with_node_def)
  have ys: "with_addr ?l ?t [0, 1] = [0, 1, 3]" by (simp add: with_addr_def elems_below_def elems_from_def pin_table_keys f)
  have k: "loc_key ?u = (loc_key ?t)(3 := 11)" "live ?u = (\<lambda>_. True)"
    by (auto simp: loc_key_def live_def with_node_def f fun_eq_iff) (auto simp: sample_location_def new_location_def pin_table_def Let_def)
  have "keeps ?u [0, 1, 3] [2] 0"
    by (simp add: keeps_def all_pinned_def to_pin_def side_pins_def ring_from_def elems_from_def f k pin_table_keys)
  moreover have l: "0 \<le> vnode ?l" "l_id ?l = 11" by (simp_all add: sample_location_def new_location_def)
  moreover have ni: "l_id ?l \<notin> loc_key ?t ` set [0, 1]" by (simp add: pin_table_keys)
  moreover obtain t' r xs' where "realinsert 20 [True] ?l ?t = Some (t', r)" "l_id r = l_id ?l" "lt_core t' xs'"
    "set xs' \<subseteq> set [0, 1, 3]" "\<forall>a \<in> set [0, 1, 3]. keeps ?u [0, 1, 3] [2] a \<longrightarrow> a \<in> set xs'" "min (length [0 :: nat, 1, 3]) 2 \<le> length xs'"
    using realinsert_bounded [OF o l(1), of 20 "[True]", unfolded if_not_P [OF ni] ys Let_def f(2)] by blast
  ultimately show ?thesis using f(3) by (intro exI [of _ ?t] exI [of _ t'] exI [of _ r] exI [of _ xs']) simp
qed

end
