(* ===== verification/Chord_Route.thy ===== *)
theory Chord_Route
  imports Chord_Node Location_Correct
begin

text \<open>
  An iterative lookup (\<^verbatim>\<open>chord/route_chord.C\<close>, \<^verbatim>\<open>find_route\<close> and \<^verbatim>\<open>doRPC\<close> of \<^verbatim>\<open>chord/server.C\<close>) over a network of nodes:
  the node that looks up asks one node after the other for its closest predecessor of the key, until one answers that
  the key is in its range. \<open>net\<close> gives the nodes, \<open>up\<close> those that answer. What the transport does to the location table
  is modelled as far as the table is concerned: a node that is marked as dead is not called, a node that does not answer is marked
  as dead, a node that answers is inserted. Coordinates and statistics are left out, and what the nodes that are alerted
  do (\<open>doalert\<close>).
\<close>

datatype chordstat = CHORD_OK | CHORD_ERRNOENT | CHORD_RPCFAILURE | CHORD_INRANGE | CHORD_NOTINRANGE | CHORD_NOHANDLER | CHORD_STOP

record route_iterator =
  rt_key :: chordID
  search_path :: "location list"
  failed_nodes :: "chordID list"
  rt_successors :: "location list"
  rt_status :: chordstat

definition new_iterator :: "chordID \<Rightarrow> route_iterator" where
  "new_iterator x = \<lparr>rt_key = x, search_path = [], failed_nodes = [], rt_successors = [], rt_status = CHORD_OK\<rparr>"

text \<open>What happens after a reply: the callback is told that the lookup is done or not, or the next hop is
  made without telling it, after an alert to the node that is asked again.\<close>

datatype outcome = Done | More | Again rpc

definition first_hop :: "chordID option \<Rightarrow> vnode \<Rightarrow> route_iterator \<Rightarrow> (vnode \<times> route_iterator) option" where
  "first_hop guess v it =
     (case guess of
        Some g \<Rightarrow>
          (case lookup g (locations v) of
             (t, Some a) \<Rightarrow> Some (v\<lparr>locations := t\<rparr>, it\<lparr>search_path := search_path it @ [loc (wraps t a)]\<rparr>)
           | (t, None) \<Rightarrow>
               do { l \<leftarrow> closestpred v (rt_key it) []; Some (v, it\<lparr>search_path := search_path it @ [l]\<rparr>) })
      | None \<Rightarrow>
          do { l \<leftarrow> closestpred v (rt_key it) []; Some (v, it\<lparr>search_path := search_path it @ [l]\<rparr>) })"

definition make_hop_cb :: "int \<Rightarrow> (chordID \<Rightarrow> bool list) \<Rightarrow> testandfindres option \<Rightarrow> vnode \<Rightarrow> route_iterator
    \<Rightarrow> (vnode \<times> route_iterator \<times> outcome) option" where
  "make_hop_cb now coins reply v it =
     (if search_path it = [] then None
      else case reply of
        None \<Rightarrow>
          (let last_node_tried = last (search_path it);
               path = butlast (search_path it);
               path = (if path = [] then [my_location v] else path)
           in Some (v, it\<lparr>search_path := path, failed_nodes := failed_nodes it @ [l_id last_node_tried]\<rparr>,
                    Again (Alert (l_id (last path)) last_node_tried)))
      | Some Stop \<Rightarrow> Some (v, it\<lparr>rt_status := CHORD_OK\<rparr>, Done)
      | Some (InRange ns) \<Rightarrow>
          if ns = [] then None
          else do { (v, n0) \<leftarrow> insert_node now coins (hd ns) v;
                    n0 \<leftarrow> n0;
                    Some (v, it\<lparr>search_path := search_path it @ [n0], rt_successors := ns\<rparr>, Done) }
      | Some (NotInRange n ss) \<Rightarrow>
          if l_id (last (search_path it)) = l_id n
          then Some (v, it\<lparr>rt_status := CHORD_ERRNOENT\<rparr>, Done)
          else do { (v, n0) \<leftarrow> insert_node now coins n v;
                    n0 \<leftarrow> n0;
                    let it = it\<lparr>search_path := search_path it @ [n0], rt_successors := ss\<rparr>;
                    if length (search_path it) \<le> 1000 then Some (v, it, More) else None })"

subsection \<open>Calls\<close>

text \<open>Whether \<^verbatim>\<open>doRPC\<close> makes the call; looking the node up moves it to the end of the queue.\<close>

definition doRPC :: "location \<Rightarrow> vnode \<Rightarrow> vnode \<times> bool" where
  "doRPC l v =
     (case lookup (l_id l) (locations v) of
        (t, Some a) \<Rightarrow> (v\<lparr>locations := t\<rparr>, is_alive (loc (wraps t a)))
      | (t, None) \<Rightarrow> (v, True))"

text \<open>A node that is marked as dead is checked again later, when that is wanted.\<close>

definition track_dead :: "location \<Rightarrow> vnode \<Rightarrow> vnode" where
  "track_dead l v =
     (if \<not> is_alive (deref v l) \<and> checkdead_int v > 0 \<and> l_id l \<notin> set (dead_nodes v)
      then add_timer (CheckDead l (checkdead_int v)) (v\<lparr>dead_nodes := dead_nodes v @ [l_id l]\<rparr>)
      else v)"

definition doRPC_cb :: "int \<Rightarrow> (chordID \<Rightarrow> bool list) \<Rightarrow> location \<Rightarrow> location option \<Rightarrow> vnode \<Rightarrow> vnode option" where
  "doRPC_cb now coins l src v =
     (case src of
        None \<Rightarrow>
          (case lookup (l_id l) (locations v) of
             (t, Some a) \<Rightarrow>
               Some (track_dead l (v\<lparr>locations :=
                 if is_alive (loc (wraps t a)) then set_loc a (set_alive now False (loc (wraps t a))) t else t\<rparr>))
           | (t, None) \<Rightarrow>
               do { (t, _) \<leftarrow> realinsert now (coins (l_id l)) l t;
                    Some (track_dead (set_alive now False l) (ping_cb now (l_id l) False (v\<lparr>locations := t\<rparr>))) })
      | Some n \<Rightarrow> if myID v \<noteq> l_id n then do { (v, _) \<leftarrow> insert_node now coins n v; Some v } else Some v)"

type_synonym network = "chordID \<Rightarrow> vnode"

text \<open>One hop of node \<open>self\<close>: the call, its answer by the node asked, and the callback.\<close>

definition make_hop :: "int \<Rightarrow> (chordID \<Rightarrow> bool list) \<Rightarrow> (location \<Rightarrow> location) \<Rightarrow> (chordID \<Rightarrow> bool) \<Rightarrow> chordID
    \<Rightarrow> network \<times> route_iterator \<Rightarrow> (network \<times> route_iterator \<times> outcome) option" where
  "make_hop now coins wire up self s =
     (case s of (net, it) \<Rightarrow>
      if search_path it = [] then None
      else do {
        let n = last (search_path it);
        let (v, call) = doRPC n (net self);
        let net = net(self := v);
        (v, reply) \<leftarrow>
          (if \<not> call then Some (v, None)
           else if \<not> up (l_id n) then do { v \<leftarrow> doRPC_cb now coins n None v; Some (v, None) }
           else do { res \<leftarrow> doroute wire (net (l_id n)) (rt_key it) (failed_nodes it) None;
                     v \<leftarrow> doRPC_cb now coins n (Some (wire (my_location (net (l_id n))))) v;
                     Some (v, Some res) });
        (v, it, out) \<leftarrow> make_hop_cb now coins reply v it;
        Some (net(self := v), it, out) })"

partial_function (option) route_loop :: "int \<Rightarrow> (chordID \<Rightarrow> bool list) \<Rightarrow> (location \<Rightarrow> location) \<Rightarrow> (chordID \<Rightarrow> bool) \<Rightarrow> chordID
    \<Rightarrow> network \<times> route_iterator \<Rightarrow> (network \<times> route_iterator) option" where
  "route_loop now coins wire up self s =
     do { (net, it, out) \<leftarrow> make_hop now coins wire up self s;
          if out = Done then Some (net, it) else route_loop now coins wire up self (net, it) }"

declare route_loop.simps [code]

definition find_route :: "int \<Rightarrow> (chordID \<Rightarrow> bool list) \<Rightarrow> (location \<Rightarrow> location) \<Rightarrow> (chordID \<Rightarrow> bool) \<Rightarrow> network \<Rightarrow> chordID \<Rightarrow> chordID
    \<Rightarrow> (network \<times> route_iterator) option" where
  "find_route now coins wire up net self x =
     do { (v, it) \<leftarrow> first_hop None (net self) (new_iterator x);
          route_loop now coins wire up self (net(self := v), it) }"

text \<open>The nodes that \<^verbatim>\<open>dofindroute_cb\<close> returns: the successors, if wanted, and the path.\<close>

definition dofindroute_cb :: "(location \<Rightarrow> location) \<Rightarrow> bool \<Rightarrow> route_iterator \<Rightarrow> location list option" where
  "dofindroute_cb wire return_succs it =
     (if rt_status it \<noteq> CHORD_OK then None
      else Some ((if return_succs then map wire (rt_successors it) else []) @ map wire (search_path it)))"

text \<open>\<^verbatim>\<open>find_succlist_hop_cb\<close>: before the lookup is done, the successors of the node just asked are taken when the key lies
  among them and enough of them follow it. \<open>None\<close>: go on with the next hop.\<close>

fun shave_loop :: "nat \<Rightarrow> nat \<Rightarrow> chordID \<Rightarrow> location list \<Rightarrow> location list option" where
  "shave_loop i 0 key cs = None"
| "shave_loop i (Suc k) key cs =
     (if betweenrightincl (l_id (cs ! (i - 1))) (l_id (cs ! i)) key then Some (drop i cs)
      else shave_loop (i + 1) k key cs)"

definition find_succlist_hop_cb :: "bool \<Rightarrow> nat \<Rightarrow> bool \<Rightarrow> route_iterator \<Rightarrow> location list option" where
  "find_succlist_hop_cb shave m done it =
     (let cs = rt_successors it; left = (if length cs < m then length cs else length cs - m)
      in if done then Some cs
         else if shave then shave_loop 1 (left - 1) (rt_key it) cs
         else None)"

subsection \<open>The list of dead nodes\<close>

lemma dead_index_in: "x \<in> set ds \<longleftrightarrow> dead_index x ds < length ds" "x \<in> set ds \<Longrightarrow> ds ! dead_index x ds = x"
  by (induction ds) auto

lemma dead_index_le: "dead_index x ds \<le> length ds"
  by (induction ds) auto

text \<open>Overwriting a place with the first element and dropping that is a removal.\<close>

lemma drop_dead:
  assumes "distinct ds" "x \<in> set ds"
  shows "set (tl (ds[dead_index x ds := ds ! 0])) = set ds - {x} \<and> distinct (tl (ds[dead_index x ds := ds ! 0]))"
proof (cases ds)
  case (Cons d es)
  show ?thesis
  proof (cases "d = x")
    case True
    then show ?thesis using assms Cons by simp
  next
    case False
    then have x: "x \<in> set es" "distinct es" "d \<notin> set es" using assms Cons by auto
    let ?j = "dead_index x es"
    have j: "?j < length es" "es ! ?j = x" using dead_index_in [of x es] x(1) by simp_all
    have "set (es[?j := d]) = insert d (set es - {x})" using set_update_distinct [OF x(2) j(1)] j(2) by simp
    moreover have "distinct (es[?j := d])" using x j by (simp add: distinct_list_update)
    ultimately show ?thesis using False x Cons by auto
  qed
qed (use assms in simp)

text \<open>The list of dead nodes never holds a node twice, a node that does not answer is in it afterwards and has a check
  pending, and one that answers has left it.\<close>

theorem dead_nodes_listed:
  assumes "distinct (dead_nodes v)" "check_dead_node_cb now coins wire l nbackoff ok v = Some (v', calls)"
  shows "distinct (dead_nodes v')
    \<and> set (dead_nodes v') = (if ok then set (dead_nodes v) - {l_id l} else insert (l_id l) (set (dead_nodes v)))
    \<and> (ok \<or> CheckDead l nbackoff \<in> set (timers v'))"
proof -
  let ?ds = "dead_nodes v" and ?i = "dead_index (l_id l) (dead_nodes v)"
  have i: "?i \<noteq> length ?ds \<longleftrightarrow> l_id l \<in> set ?ds"
    using dead_index_in(1) [of "l_id l" ?ds] dead_index_le [of "l_id l" ?ds] by linarith
  show ?thesis
  proof (cases ok)
    case True
    then have "dead_nodes v' = (if ?i \<noteq> length ?ds then tl (?ds[?i := ?ds ! 0]) else ?ds)"
      using assms(2) by (auto simp: check_dead_node_cb_def Let_def split: bind_splits prod.splits)
    then show ?thesis using True i drop_dead [OF assms(1), of "l_id l"] assms(1) by simp
  next
    case False
    then have "v' = add_timer (CheckDead l nbackoff) (if ?i = length ?ds then v\<lparr>dead_nodes := ?ds @ [l_id l]\<rparr> else v)"
      using assms(2) by (simp add: check_dead_node_cb_def Let_def)
    then show ?thesis using False i assms(1) by (auto simp: add_timer_def)
  qed
qed

end
