(* ===== verification/Chord_Lookup.thy ===== *)
theory Chord_Lookup
  imports Chord_Route
begin

text \<open>
  Lookups find the right node. The locale \<open>ring_table\<close> states what routing relies on in a table of known nodes; the
  location table interprets it. In a network whose nodes know the nodes that their fingers should point to, every hop
  at least halves the distance to the predecessor of the key, so that a lookup ends after at most 161 hops, at the
  node that follows the key.
\<close>

subsection \<open>Distances\<close>

lemma dist_bounds: "0 \<le> ring_dist a b" "ring_dist a b < ring"
  by (simp_all add: ring_dist_def)

lemma dist_self [simp]: "ring_dist a a = 0"
  by (simp add: ring_dist_def)

lemma dist_inj: "is_id a \<Longrightarrow> is_id b \<Longrightarrow> is_id c \<Longrightarrow> ring_dist a b = ring_dist a c \<Longrightarrow> b = c"
  by (auto simp: ring_dist_eq is_id_def split: if_splits)

lemma dist_0: "is_id a \<Longrightarrow> is_id b \<Longrightarrow> ring_dist a b = 0 \<longleftrightarrow> a = b"
  using dist_inj [of a b a] by auto

lemma dist_pos: "is_id a \<Longrightarrow> is_id b \<Longrightarrow> a \<noteq> b \<Longrightarrow> 1 \<le> ring_dist a b"
  using dist_0 [of a b] dist_bounds(1) [of a b] by linarith

lemma dist_split:
  "is_id a \<Longrightarrow> is_id b \<Longrightarrow> is_id c \<Longrightarrow> ring_dist a b \<le> ring_dist a c \<Longrightarrow> ring_dist b c = ring_dist a c - ring_dist a b"
  by (auto simp: ring_dist_eq is_id_def split: if_splits)

lemma dist_add:
  "is_id a \<Longrightarrow> is_id b \<Longrightarrow> is_id c \<Longrightarrow> ring_dist a b + ring_dist b c < ring
   \<Longrightarrow> ring_dist a c = ring_dist a b + ring_dist b c"
  by (auto simp: ring_dist_eq is_id_def split: if_splits)

lemma dist_shift:
  assumes "is_id a" "is_id k" "0 \<le> d" "d < ring"
  shows "ring_dist ((a + d) mod ring) k = (if d \<le> ring_dist a k then ring_dist a k - d else ring_dist a k - d + ring)"
proof -
  have "ring_dist ((a + d) mod ring) k = (ring_dist a k - d) mod ring"
    by (simp add: ring_dist_def mod_simps algebra_simps)
  moreover have "(ring_dist a k - d) mod ring = (if d \<le> ring_dist a k then ring_dist a k - d else ring_dist a k - d + ring)"
  proof (cases "d \<le> ring_dist a k")
    case True
    then show ?thesis using dist_bounds [of a k] assms(3) by (simp add: mod_pos_pos_trivial)
  next
    case False
    have "(ring_dist a k - d) mod ring = (ring_dist a k - d + ring) mod ring" by simp
    also have "\<dots> = ring_dist a k - d + ring"
      using dist_bounds [of a k] assms(4) False by (intro mod_pos_pos_trivial) linarith+
    finally show ?thesis using False by simp
  qed
  ultimately show ?thesis by simp
qed

lemma is_id_mod [simp]: "is_id (x mod ring)"
  by (simp add: is_id_def)

lemma incID_mod: "is_id a \<Longrightarrow> incID a = (a + 1) mod ring"
proof -
  assume a: "is_id a"
  show ?thesis
  proof (cases "a + 1 = ring")
    case True
    then show ?thesis by (simp add: incID_def push_NBIT)
  next
    case False
    then have "(a + 1) mod ring = a + 1" using a by (intro mod_pos_pos_trivial) (auto simp: is_id_def)
    then show ?thesis using a False by (simp add: incID_def push_NBIT is_id_def)
  qed
qed

lemma distance_dist: "is_id a \<Longrightarrow> is_id b \<Longrightarrow> distance a b = (if a = b then ring else ring_dist a b)"
  by (auto simp: distance_def push_NBIT ring_dist_eq is_id_def Let_def)

lemma distance_bounds: "is_id a \<Longrightarrow> is_id b \<Longrightarrow> 0 < distance a b \<and> distance a b \<le> ring"
  using dist_bounds [of a b] dist_0 [of a b] by (auto simp: distance_dist)

lemma between_distance:
  "is_id a \<Longrightarrow> is_id b \<Longrightarrow> is_id n \<Longrightarrow> between a b n \<longleftrightarrow> 0 < ring_dist a n \<and> ring_dist a n < distance a b"
  using interval_tests [of a b n] dist_bounds [of a n] dist_0 [of a n] by (auto simp: distance_dist)

lemma between_irrefl [simp]: "\<not> between a b a"
  by (simp add: between_def)

lemma inrange_distance:
  "is_id a \<Longrightarrow> is_id b \<Longrightarrow> is_id n \<Longrightarrow> betweenrightincl a b n \<longleftrightarrow> a = b \<or> distance a n \<le> ring_dist a b"
  using interval_tests [of a b n] dist_bounds [of a b] by (auto simp: distance_dist)

lemma distance_split:
  "is_id a \<Longrightarrow> is_id b \<Longrightarrow> is_id x \<Longrightarrow> ring_dist a b < distance a x \<Longrightarrow> distance b x = distance a x - ring_dist a b"
  by (auto simp: distance_dist ring_dist_eq is_id_def split: if_splits)

subsection \<open>Tables of known nodes\<close>

text \<open>\<open>k\<close> is the node of \<open>N\<close> that follows \<open>x\<close>.\<close>

definition follows :: "chordID set \<Rightarrow> chordID \<Rightarrow> chordID \<Rightarrow> bool" where
  "follows N x k \<longleftrightarrow> k \<in> N \<and> (\<forall>k' \<in> N. ring_dist x k \<le> ring_dist x k')"

lemma follows_unique:
  "\<forall>k \<in> N. is_id k \<Longrightarrow> is_id x \<Longrightarrow> follows N x k \<Longrightarrow> follows N x k' \<Longrightarrow> k = k'"
  unfolding follows_def by (metis dist_inj order_antisym)

lemma follows_exists:
  assumes "finite N" "N \<noteq> {}"
  shows "\<exists>k. follows N x k"
proof -
  have "Min (ring_dist x ` N) \<in> ring_dist x ` N" using assms by (intro Min_in) auto
  then obtain k where "k \<in> N" "ring_dist x k = Min (ring_dist x ` N)" by auto
  then show ?thesis using assms(1) by (intro exI [of _ k]) (auto simp: follows_def intro: Min_le)
qed

locale ring_table =
  fixes inv :: "'t \<Rightarrow> bool"
    and known :: "'t \<Rightarrow> chordID set"
    and nxt :: "chordID \<Rightarrow> 't \<Rightarrow> chordID option"
  assumes known_ids: "inv t \<Longrightarrow> k \<in> known t \<Longrightarrow> is_id k"
    and nxt_follows: "inv t \<Longrightarrow> is_id x \<Longrightarrow> known t \<noteq> {} \<Longrightarrow> \<exists>k. nxt x t = Some k \<and> follows (known t) x k"
begin

text \<open>The node found at distance \<open>d\<close> clockwise from a known node \<open>a\<close> is \<open>a\<close> itself or at least that far from it.\<close>

lemma nxt_far:
  assumes "inv t" "a \<in> known t" "0 < d" "d < ring" "nxt ((a + d) mod ring) t = Some k"
  shows "k \<in> known t" "k = a \<or> d \<le> ring_dist a k"
proof -
  have a: "is_id a" using known_ids assms(1,2) .
  have f: "follows (known t) ((a + d) mod ring) k"
    using nxt_follows [of t "(a + d) mod ring"] assms(1,2,5) by auto
  then show "k \<in> known t" by (simp add: follows_def)
  then have k: "is_id k" using known_ids assms(1) by blast
  have "ring_dist ((a + d) mod ring) k \<le> ring_dist ((a + d) mod ring) a" using f assms(2) by (simp add: follows_def)
  then show "k = a \<or> d \<le> ring_dist a k"
    using assms(3,4) a k dist_0 [OF a k] dist_bounds [of a k]
    by (auto simp: dist_shift split: if_splits)
qed

text \<open>It is not farther than another known node at least that far away.\<close>

lemma nxt_near:
  assumes "inv t" "a \<in> known t" "0 < d" "d < ring" "q \<in> known t" "d \<le> ring_dist a q"
  shows "\<exists>k \<in> known t. nxt ((a + d) mod ring) t = Some k \<and> d \<le> ring_dist a k \<and> ring_dist a k \<le> ring_dist a q"
proof -
  have ids: "is_id a" "is_id q" using known_ids assms(1,2,5) by auto
  obtain k where k: "nxt ((a + d) mod ring) t = Some k" and f: "follows (known t) ((a + d) mod ring) k"
    using nxt_follows [of t "(a + d) mod ring"] assms(1,2) by auto
  have kk: "k \<in> known t" "is_id k" using f known_ids assms(1) by (auto simp: follows_def)
  have "ring_dist ((a + d) mod ring) k \<le> ring_dist a q - d"
    using f assms(3-6) ids by (auto simp: follows_def dist_shift dest!: bspec [of _ _ q])
  then have "d \<le> ring_dist a k \<and> ring_dist a k \<le> ring_dist a q"
    using assms(3,4) ids kk dist_bounds [of a q] dist_bounds [of a k] by (auto simp: dist_shift split: if_splits)
  then show ?thesis using k kk by blast
qed

end

definition tbl_ok :: "(location \<Rightarrow> bool) \<Rightarrow> locationtable \<Rightarrow> bool" where
  "tbl_ok G t \<longleftrightarrow> (\<exists>xs. lt_core t xs \<and> (\<forall>a \<in> set xs. is_id (loc_key t a) \<and> G (loc (wraps t a))))"

definition live_ids :: "locationtable \<Rightarrow> chordID set" where
  "live_ids t = loc_key t ` {a \<in> set (locs t). live t a}"

lemma live_ids_core: "lt_core t xs \<Longrightarrow> live_ids t = loc_key t ` {a \<in> set xs. live t a}"
  by (simp add: live_ids_def lt_core_def)

lemma closestsuccloc_follows:
  assumes "tbl_ok G t" "is_id x" "live_ids t \<noteq> {}"
  shows "\<exists>l. closestsuccloc x t = Some l \<and> follows (live_ids t) x (l_id l) \<and> G l"
proof -
  obtain xs where xs: "lt_core t xs" "\<forall>a \<in> set xs. is_id (loc_key t a)" "\<forall>a \<in> set xs. G (loc (wraps t a))"
    using assms(1) by (auto simp: tbl_ok_def)
  obtain a where "a \<in> set xs" "closestsuccloc x t = Some (loc (wraps t a))" "live t a"
    "\<forall>b \<in> set xs. live t b \<longrightarrow> ring_dist x (loc_key t a) \<le> ring_dist x (loc_key t b)"
    using closestsuccloc_closest [OF xs(1) assms(2) xs(2)] assms(3) by (auto simp: live_ids_core [OF xs(1)])
  then show ?thesis using xs(1,3) by (auto simp: follows_def live_ids_core [OF xs(1)] lt_core_def)
qed

interpretation rt: ring_table "tbl_ok G" live_ids "\<lambda>x t. map_option l_id (closestsuccloc x t)" for G
proof
  show "is_id k" if "tbl_ok G t" "k \<in> live_ids t" for t k
    using that by (auto simp: tbl_ok_def live_ids_core)
  show "\<exists>k. map_option l_id (closestsuccloc x t) = Some k \<and> follows (live_ids t) x k"
    if "tbl_ok G t" "is_id x" "live_ids t \<noteq> {}" for t x
    using closestsuccloc_follows [OF that] by auto
qed

subsection \<open>The next hop\<close>

text \<open>A node of the network \<open>N\<close>: its own location and those in its table satisfy \<open>G\<close>, it knows only nodes of the network as alive, itself among them, and of these
  at least the ones its fingers should point to, the first of which is its successor.\<close>

definition vnode_ok :: "(location \<Rightarrow> bool) \<Rightarrow> chordID set \<Rightarrow> chordID \<Rightarrow> vnode \<Rightarrow> bool" where
  "vnode_ok G N n v \<longleftrightarrow>
     myID v = n \<and> G (my_location v) \<and> tbl_ok G (locations v) \<and> 1 \<le> nsucc_max (successors v)
   \<and> n \<in> live_ids (locations v) \<and> live_ids (locations v) \<subseteq> N
   \<and> (\<forall>i < NBIT. \<forall>k. follows N (start v i) k \<longrightarrow> k \<in> live_ids (locations v))"

lemma start_mod: "start v i = (myID v + 2 ^ i) mod ring"
  by (simp add: start_def successorID_mod)

lemma pow_ring: "i < NBIT \<Longrightarrow> 2 ^ i < ring"
  using power_strict_increasing [of i NBIT "2 :: int"] by simp

lemma count_good_core:
  "lt_core t xs \<Longrightarrow> set as \<subseteq> set xs \<Longrightarrow> count_good t as = Some (length (filter (live t) as))"
  by (induction as) (simp_all add: good_live)

lemma usable_two:
  assumes "tbl_ok G t" "a \<in> live_ids t" "b \<in> live_ids t"
  shows "\<exists>g. usablenodes t = Some g \<and> 1 \<le> g \<and> (a \<noteq> b \<longrightarrow> 2 \<le> g)"
proof -
  obtain xs where c: "lt_core t xs" using assms(1) by (auto simp: tbl_ok_def)
  let ?as = "filter (live t) (locs t)"
  have d: "distinct ?as" using c by (simp add: lt_core_def)
  have "live_ids t = loc_key t ` set ?as" by (auto simp: live_ids_def)
  then have "card (live_ids t) \<le> length ?as" by (metis card_image_le card_length finite_set le_trans)
  moreover have "card {a, b} \<le> card (live_ids t)" using assms(2,3) by (intro card_mono) (auto simp: live_ids_def)
  ultimately have "1 \<le> length ?as \<and> (a \<noteq> b \<longrightarrow> 2 \<le> length ?as)" by (cases "a = b") auto
  then show ?thesis using count_good_core [OF c, of "locs t"] c by (simp add: usablenodes_def lt_core_def)
qed

lemma succ_walk_known:
  assumes "tbl_ok G t" "live_ids t \<noteq> {}" "is_id (l_id cur)" "G cur"
  shows "\<exists>ls. succ_walk t k (cur) = Some ls \<and> ls \<noteq> [] \<and> hd ls = cur \<and> (\<forall>l \<in> set ls. G l)"
  using assms(3,4)
proof (induction k arbitrary: cur)
  case (Suc k)
  obtain l where l: "closestsuccloc (incID (l_id cur)) t = Some l" "l_id l \<in> live_ids t" "G l"
    using closestsuccloc_follows [OF assms(1) _ assms(2), of "incID (l_id cur)"] Suc.prems(1)
    by (auto simp: incID_mod follows_def)
  then have "is_id (l_id l)" using rt.known_ids assms(1) by blast
  then show ?case using Suc.IH [of l] Suc.prems l by auto
qed simp

lemma finger_closestpred_far:
  assumes "vnode_ok G N n v" "is_id x" "i < NBIT" "\<exists>l. finger v i = Some l \<and> between n x (l_id l)"
  shows "\<exists>l. finger_closestpred v x [] = Some l \<and> between n x (l_id l) \<and> 2 ^ i \<le> ring_dist n (l_id l)
    \<and> l_id l \<in> live_ids (locations v) \<and> G l"
proof -
  let ?t = "locations v"
  have v: "myID v = n" "tbl_ok G ?t" "n \<in> live_ids ?t" using assms(1) by (auto simp: vnode_ok_def)
  have "\<exists>l. finger_pred_loop v x [] m = Some l \<and> between n x (l_id l) \<and> 2 ^ i \<le> ring_dist n (l_id l)
      \<and> l_id l \<in> live_ids ?t \<and> G l" if "i < m" "m \<le> NBIT" for m
    using that
  proof (induction m)
    case (Suc j)
    have j: "2 ^ j < ring" "is_id (start v j)" using pow_ring Suc.prems by (simp_all add: start_mod)
    obtain l where l: "finger v j = Some l" "l_id l \<in> live_ids ?t" "G l"
      using closestsuccloc_follows [OF v(2) j(2)] v(3) by (auto simp: finger_def follows_def)
    show ?case
    proof (cases "between n x (l_id l)")
      case True
      have "l_id l = n \<or> 2 ^ j \<le> ring_dist n (l_id l)"
        using rt.nxt_far [OF v(2,3), of "2 ^ j" "l_id l"] l(1) j(1) v(1) by (simp add: finger_def start_mod)
      moreover have "l_id l \<noteq> n" using True by auto
      moreover have "(2 :: int) ^ i \<le> 2 ^ j" using Suc.prems by (intro power_increasing) auto
      ultimately have "2 ^ i \<le> ring_dist n (l_id l)" by linarith
      then show ?thesis using True l v(1) by auto
    next
      case False
      then have "i \<noteq> j" using assms(4) l(1) by auto
      then show ?thesis using Suc False l(1) v(1) by auto
    qed
  qed simp
  from this [of NBIT] show ?thesis using assms(3) by (simp add: finger_closestpred_def)
qed

lemma succ_pred_loop_known:
  assumes "vnode_ok G N n v" "is_id x" "l_id best = n \<or> between n x (l_id best)" "l_id best \<in> live_ids (locations v)"
    "G best"
  shows "\<exists>l. succ_pred_loop v x [] k best = Some l \<and> (l_id l = n \<and> l_id best = n \<or> between n x (l_id l))
    \<and> l_id l \<in> live_ids (locations v) \<and> G l"
  using assms(3-)
proof (induction k arbitrary: best)
  case (Suc k)
  have v: "myID v = n" "tbl_ok G (locations v)" using assms(1) by (auto simp: vnode_ok_def)
  have "is_id (l_id best)" using rt.known_ids v(2) Suc.prems(2) by blast
  then obtain l where "closestsuccloc (incID (l_id best)) (locations v) = Some l" "l_id l \<in> live_ids (locations v)"
    "G l"
    using closestsuccloc_follows [OF v(2), of "incID (l_id best)"] Suc.prems(2) by (auto simp: incID_mod follows_def)
  moreover have "l_id best = n" if "l_id best \<noteq> n \<longrightarrow> \<not> between n x (l_id best)" using that Suc.prems(1) by blast
  ultimately show ?case
    using Suc.IH [of l] Suc.IH [of best] Suc.prems v(1) by (cases "between n x (l_id l)") auto
qed auto

text \<open>The predecessor of \<open>x\<close> as seen from \<open>n\<close>: the last node of \<open>N\<close> before \<open>x\<close>.\<close>

definition last_before :: "chordID set \<Rightarrow> chordID \<Rightarrow> chordID \<Rightarrow> chordID \<Rightarrow> bool" where
  "last_before N n x q \<longleftrightarrow> q \<in> N \<and> ring_dist n q < distance n x
     \<and> (\<forall>k \<in> N. ring_dist n k < distance n x \<longrightarrow> ring_dist n k \<le> ring_dist n q)"

lemma last_before_exists:
  assumes "finite N" "n \<in> N" "is_id n" "is_id x"
  shows "\<exists>q. last_before N n x q"
proof -
  let ?M = "{k \<in> N. ring_dist n k < distance n x}"
  have n: "n \<in> ?M" using assms(2) distance_bounds [OF assms(3,4)] by simp
  have "Max (ring_dist n ` ?M) \<in> ring_dist n ` ?M" using assms(1) n by (intro Max_in) auto
  then obtain q where "q \<in> ?M" "ring_dist n q = Max (ring_dist n ` ?M)" by auto
  then show ?thesis using assms(1) by (intro exI [of _ q]) (auto simp: last_before_def intro: Max_ge)
qed

lemma log2_floor: "0 < (d :: int) \<Longrightarrow> d < 2 ^ m \<Longrightarrow> \<exists>i < m. 2 ^ i \<le> d \<and> d < 2 ^ Suc i"
proof (induction m)
  case (Suc m)
  then show ?case by (cases "d < 2 ^ m") (auto simp: less_Suc_eq not_less)
qed simp

lemma known_finger:
  assumes "vnode_ok G N n v" "\<forall>k \<in> N. is_id k" "finite N" "i < NBIT" "q \<in> N" "2 ^ i \<le> ring_dist n q"
  shows "\<exists>l. finger v i = Some l \<and> 2 ^ i \<le> ring_dist n (l_id l) \<and> ring_dist n (l_id l) \<le> ring_dist n q"
proof -
  let ?t = "locations v"
  have v: "myID v = n" "tbl_ok G ?t" "n \<in> live_ids ?t" "live_ids ?t \<subseteq> N" using assms(1) by (auto simp: vnode_ok_def)
  then have n: "is_id n" "n \<in> N" using assms(2) by auto
  obtain k where k: "follows N (start v i) k" using follows_exists assms(3,5) by blast
  then have kt: "k \<in> live_ids ?t" using assms(1,4) by (auto simp: vnode_ok_def)
  have ik: "is_id k" "is_id q" using k assms(2,5) by (auto simp: follows_def)
  have "ring_dist (start v i) k \<le> ring_dist n q - 2 ^ i"
    using k assms(5,6) n ik pow_ring [OF assms(4)] by (auto simp: follows_def start_mod v(1) dist_shift dest!: bspec [of _ _ q])
  then have "2 ^ i \<le> ring_dist n k \<and> ring_dist n k \<le> ring_dist n q"
    using n ik pow_ring [OF assms(4)] dist_bounds [of n q] dist_bounds [of n k]
    by (auto simp: start_mod v(1) dist_shift split: if_splits)
  then show ?thesis
    using rt.nxt_near [OF v(2,3), of "2 ^ i" k] pow_ring [OF assms(4)] kt
    by (fastforce simp: finger_def start_mod v(1))
qed

lemma finger_between:
  assumes "vnode_ok G N n v" "\<forall>k \<in> N. is_id k" "finite N" "is_id x" "last_before N n x q" "i < NBIT" "2 ^ i \<le> ring_dist n q"
  shows "\<exists>l. finger v i = Some l \<and> between n x (l_id l) \<and> l_id l \<in> live_ids (locations v) \<and> G l"
proof -
  let ?t = "locations v"
  have v: "tbl_ok G ?t" "n \<in> live_ids ?t" "live_ids ?t \<subseteq> N" using assms(1) by (auto simp: vnode_ok_def)
  have q: "q \<in> N" "ring_dist n q < distance n x" "is_id n" using assms(2,5) v(2,3) by (auto simp: last_before_def)
  obtain l where l: "finger v i = Some l" "2 ^ i \<le> ring_dist n (l_id l)" "ring_dist n (l_id l) \<le> ring_dist n q"
    using known_finger [OF assms(1-3,6) q(1) assms(7)] by blast
  have lk: "l_id l \<in> live_ids ?t" "G l"
    using closestsuccloc_follows [OF v(1), of "start v i"] l(1) v(2) by (auto simp: finger_def start_mod follows_def)
  moreover have "is_id (l_id l)" using lk v(3) assms(2) by auto
  moreover have "0 < ring_dist n (l_id l)" using l(2) by (rule less_le_trans [rotated]) simp
  ultimately show ?thesis using l q assms(4) by (auto simp: between_distance)
qed

lemma num_succ_known:
  assumes "vnode_ok G N n v" "k \<in> live_ids (locations v)"
  shows "\<exists>m. num_succ v = Some m \<and> (k \<noteq> n \<longrightarrow> 0 < m)"
proof -
  have v: "tbl_ok G (locations v)" "n \<in> live_ids (locations v)" "1 \<le> nsucc_max (successors v)"
    using assms(1) by (auto simp: vnode_ok_def)
  obtain g where "usablenodes (locations v) = Some g" "1 \<le> g" "k \<noteq> n \<longrightarrow> 2 \<le> g"
    using usable_two [OF v(1) assms(2) v(2)] by auto
  then show ?thesis using v(3) by (auto simp: num_succ_def Let_def split: if_splits)
qed

text \<open>Each hop leaves less than half of the distance to the predecessor of the key.\<close>

lemma closestpred_halves:
  assumes "vnode_ok G N n v" "\<forall>k \<in> N. is_id k" "finite N" "is_id x" "last_before N n x q"
    and "2 ^ i \<le> ring_dist n q" "i < NBIT"
  shows "\<exists>p. closestpred v x [] = Some p \<and> l_id p \<in> N \<and> G p \<and> between n x (l_id p)
    \<and> 2 ^ i \<le> ring_dist n (l_id p)"
proof -
  let ?t = "locations v"
  have v: "myID v = n" "tbl_ok G ?t" "n \<in> live_ids ?t" "live_ids ?t \<subseteq> N" "1 \<le> nsucc_max (successors v)" "is_id n"
    using assms(1,2) by (auto simp: vnode_ok_def)
  obtain f where f: "finger_closestpred v x [] = Some f" "between n x (l_id f)" "2 ^ i \<le> ring_dist n (l_id f)"
    "l_id f \<in> live_ids ?t" "G f"
    using finger_closestpred_far [OF assms(1,4,7)] finger_between [OF assms(1-5,7,6)] by blast
  have "(2 :: int) ^ 0 \<le> 2 ^ i" by simp
  then have q1: "2 ^ 0 \<le> ring_dist n q" using assms(6) by linarith
  obtain s where s: "finger v 0 = Some s" "between n x (l_id s)" "l_id s \<in> live_ids ?t" "G s"
    using finger_between [OF assms(1-5) _ q1] by (auto simp: NBIT_def)
  then have sn: "l_id s \<noteq> n" by auto
  then obtain m where m: "num_succ v = Some (Suc m)"
    using num_succ_known [OF assms(1) s(3)] by (metis gr0_implies_Suc)
  have "closestsuccloc (incID n) ?t = Some s" using s(1) v(1,6) by (simp add: finger_def start_mod incID_mod)
  then obtain u where u: "succ_closestpred v x [] = Some u" "between n x (l_id u)" "l_id u \<in> live_ids ?t" "G u"
    using succ_pred_loop_known [OF assms(1,4) _ s(3,4), of m] s(2) m v(1) sn by (auto simp: succ_closestpred_def)
  have fu: "is_id (l_id f)" "is_id (l_id u)" "l_id f \<noteq> n" using f u v(4) assms(2) by auto
  then have "ring_dist n (l_id f) \<le> ring_dist n (l_id u)" if "\<not> between n (l_id f) (l_id u)"
    using that u(2) v(6) assms(4) fu by (auto simp: between_distance distance_dist not_less)
  then have "2 ^ i \<le> ring_dist n (l_id u)" if "\<not> between n (l_id f) (l_id u)" using that f(3) by linarith
  then show ?thesis using f u fu v by (auto simp: closestpred_def)
qed

subsection \<open>The answer of a node\<close>

lemma succs_known:
  assumes "vnode_ok G N n v" "\<forall>k \<in> N. is_id k" "finite N"
  shows "\<exists>s ss. succ v = Some s \<and> succs v = Some ss \<and> ss \<noteq> [] \<and> hd ss = s \<and> follows N (incID n) (l_id s)
    \<and> (\<forall>l \<in> set ss. G l)"
proof -
  let ?t = "locations v"
  have v: "myID v = n" "tbl_ok G ?t" "n \<in> live_ids ?t" "live_ids ?t \<subseteq> N" "is_id n" using assms(1,2) by (auto simp: vnode_ok_def)
  have z: "start v 0 = incID n" "0 < NBIT" using v(1,5) by (simp_all add: start_mod incID_mod NBIT_def)
  obtain s where s: "succ v = Some s" "follows (live_ids ?t) (incID n) (l_id s)" "G s"
    using closestsuccloc_follows [OF v(2), of "incID n"] v by (auto simp: succ_def incID_mod)
  obtain k where k: "follows N (incID n) k" using follows_exists assms(3) v(3,4) by blast
  then have "k \<in> live_ids ?t" using assms(1) z by (auto simp: vnode_ok_def)
  then have "follows N (incID n) (l_id s)"
    using s(2) k v(4) unfolding follows_def by (meson order_trans subsetD)
  moreover have "is_id (l_id s)" using s(2) v(4) assms(2) by (auto simp: follows_def)
  moreover obtain m where "num_succ v = Some m" using num_succ_known [OF assms(1) v(3)] by auto
  ultimately show ?thesis
    using succ_walk_known [OF v(2) _ _ s(3), of "m - 1"] s(1) v(3) by (auto simp: succs_def)
qed

lemma follows_incID:
  assumes "\<forall>k \<in> N. is_id k" "follows N (incID n) s" "n \<in> N" "k \<in> N" "k \<noteq> n"
  shows "s \<noteq> n" "ring_dist n s \<le> ring_dist n k"
proof -
  have one: "0 \<le> (1 :: int)" "1 < ring" by (simp_all add: ring_def NBIT_def del: two_NBIT)
  have ids: "is_id n" "is_id k" "is_id s" "s \<in> N" using assms by (auto simp: follows_def)
  have k: "1 \<le> ring_dist n k" "ring_dist n k < ring"
    using dist_pos [OF ids(1,2)] dist_bounds [of n k] assms(5) by auto
  have sh: "ring_dist (incID n) k = ring_dist n k - 1" "ring_dist (incID n) n = ring - 1"
    using dist_shift [OF ids(1) ids(2) one] dist_shift [OF ids(1) ids(1) one] k by (simp_all add: incID_mod ids)
  have le: "ring_dist (incID n) s \<le> ring_dist n k - 1" using assms(2,4) sh by (auto simp: follows_def)
  then show sn: "s \<noteq> n" using sh k by auto
  have "1 \<le> ring_dist n s" using dist_pos [OF ids(1,3)] sn by auto
  then have "ring_dist (incID n) s = ring_dist n s - 1"
    using dist_shift [OF ids(1) ids(3) one] by (simp add: incID_mod ids)
  then show "ring_dist n s \<le> ring_dist n k" using le by simp
qed

lemma inrange_iff:
  assumes "vnode_ok G N n v" "\<forall>k \<in> N. is_id k" "is_id x" "last_before N n x q" "follows N (incID n) s"
  shows "betweenrightincl n s x \<longleftrightarrow> q = n"
    and "q = n \<Longrightarrow> follows N x s"
proof -
  have n: "n \<in> N" "is_id n" using assms(1,2) by (auto simp: vnode_ok_def)
  have sN: "s \<in> N" "is_id s" and qN: "q \<in> N" "is_id q" using assms(2,4,5) by (auto simp: follows_def last_before_def)
  have sd: "ring_dist n s \<le> ring_dist n k" if "k \<in> N" "k \<noteq> n" for k
    using follows_incID [OF assms(2,5) n(1) that] by blast
  have alone: "N = {n}" if "s = n" using follows_incID(1) [OF assms(2,5) n(1)] that n(1) by auto
  show iff: "betweenrightincl n s x \<longleftrightarrow> q = n"
  proof (cases "s = n")
    case True
    then show ?thesis using alone qN by (auto simp: betweenrightincl_def)
  next
    case False
    have "distance n x \<le> ring_dist n s" if "q = n"
    proof (rule ccontr)
      assume "\<not> distance n x \<le> ring_dist n s"
      then have "ring_dist n s \<le> 0" using assms(4) sN \<open>q = n\<close> by (auto simp: last_before_def)
      then show False using dist_0 [of n s] dist_bounds [of n s] n sN False by auto
    qed
    moreover have "ring_dist n s < distance n x" if "q \<noteq> n"
      using sd [OF qN(1) that] assms(4) by (auto simp: last_before_def)
    ultimately show ?thesis using n sN assms(3) False by (cases "q = n") (auto simp: inrange_distance)
  qed
  assume qn: "q = n"
  show "follows N x s"
  proof (cases "s = n")
    case True
    then show ?thesis using alone by (auto simp: follows_def)
  next
    case False
    have sx: "distance n x \<le> ring_dist n s" using iff qn n sN assms(3) False by (simp add: inrange_distance)
    then have xn: "x \<noteq> n" and x: "distance n x = ring_dist n x"
      using dist_bounds [of n s] n assms(3) by (auto simp: distance_dist split: if_splits)
    have "ring_dist x s \<le> ring_dist x k" if k: "k \<in> N" for k
    proof (cases "k = n")
      case True
      have "ring_dist n s < ring" using dist_bounds by simp
      then show ?thesis using True sx x xn n sN assms(3) by (auto simp: ring_dist_eq is_id_def split: if_splits)
    next
      case kn: False
      have "ring_dist n s \<le> ring_dist n k" using sd [OF k kn] .
      then have "ring_dist x s = ring_dist n s - ring_dist n x" "ring_dist x k = ring_dist n k - ring_dist n x"
        using sx x n sN assms(2,3) k by (auto intro!: dist_split)
      then show ?thesis using \<open>ring_dist n s \<le> ring_dist n k\<close> by simp
    qed
    then show ?thesis using sN by (simp add: follows_def)
  qed
qed

text \<open>The predecessor of the key stays the same from hop to hop.\<close>

lemma last_before_hop:
  assumes "\<forall>k \<in> N. is_id k" "is_id x" "last_before N n x q" "n \<in> N" "p \<in> N" "between n x p"
  shows "last_before N p x q" "ring_dist p q = ring_dist n q - ring_dist n p" "distance p x = distance n x - ring_dist n p"
proof -
  have ids: "is_id n" "is_id p" "is_id q" using assms by (auto simp: last_before_def)
  have p: "0 < ring_dist n p" "ring_dist n p < distance n x" using assms(2,6) ids by (simp_all add: between_distance)
  then have pq: "ring_dist n p \<le> ring_dist n q" using assms(3,5) by (simp add: last_before_def)
  then show d: "ring_dist p q = ring_dist n q - ring_dist n p" using ids by (intro dist_split)
  show x: "distance p x = distance n x - ring_dist n p" using p ids assms(2) by (intro distance_split)
  have "ring_dist p k \<le> ring_dist p q" if k: "k \<in> N" "ring_dist p k < distance p x" for k
  proof -
    have "ring_dist n p + ring_dist p k < ring" using k x distance_bounds [OF ids(1) assms(2)] by linarith
    then have "ring_dist n k = ring_dist n p + ring_dist p k" using ids k assms(1) by (intro dist_add) auto
    then show ?thesis using k x d assms(3) by (auto simp: last_before_def)
  qed
  then show "last_before N p x q" using assms(3) d x by (auto simp: last_before_def)
qed

subsection \<open>The node that looks up\<close>

text \<open>Its table takes insertions, and all nodes in it are marked as alive.\<close>

definition self_ok :: "chordID \<Rightarrow> vnode \<Rightarrow> bool" where
  "self_ok n v \<longleftrightarrow> myID v = n \<and> (\<exists>xs ps. lt_core (locations v) xs \<and> lt_pins (locations v) xs ps \<and> (\<forall>a \<in> set xs. live (locations v) a))"

text \<open>What nodes owe each other: the locations that satisfy \<open>G\<close> are valid, keep \<open>G\<close> when they are updated, and go through a
  message with their identifier, alive and with \<open>G\<close>.\<close>

locale node_messages =
  fixes G :: "location \<Rightarrow> bool" and wire :: "location \<Rightarrow> location"
  assumes good_vnode: "G l \<Longrightarrow> 0 \<le> location.vnode l"
    and good_update: "G l \<Longrightarrow> G (fst (update now l other))"
    and wire_id: "G l \<Longrightarrow> l_id (wire l) = l_id l"
    and wire_alive: "G l \<Longrightarrow> is_alive (wire l)"
    and wire_good: "G l \<Longrightarrow> G (wire l)"
begin

lemma wire_vnode: "G l \<Longrightarrow> 0 \<le> location.vnode (wire l)"
  using good_vnode wire_good by blast

lemmas wire_simps [simp] = wire_id wire_alive wire_good wire_vnode

end

interpretation msg: node_messages "sound E" "wire_loc E now" for E now
proof
  show "0 \<le> location.vnode l" if "sound E l" for l using that by (simp add: sound_def)
qed (simp_all add: update_sound wire_sound)

lemma insert_node_ok:
  assumes "self_ok n v" "0 \<le> location.vnode l" "is_alive l"
  shows "\<exists>v' r. insert_node now coins l v = Some (v', Some r) \<and> l_id r = l_id l \<and> self_ok n v'"
proof -
  obtain xs ps where c: "lt_core (locations v) xs" "lt_pins (locations v) xs ps" "\<forall>a \<in> set xs. live (locations v) a"
    using assms(1) by (auto simp: self_ok_def)
  obtain t' r xs' where "realinsert now (coins (l_id l)) l (locations v) = Some (t', r)" "l_id r = l_id l"
    "lt_core t' xs'" "lt_pins t' xs' ps" "\<forall>a \<in> set xs'. live t' a"
    using realinsert_ok [OF c(1,2) assms(2), of now "coins (l_id l)"] c(3) assms(3) by blast
  then show ?thesis using assms(1,2) by (auto simp: insert_node_def insert_loc_def self_ok_def)
qed

lemma doRPC_ok:
  assumes "self_ok n v"
  shows "\<exists>v'. doRPC l v = (v', True) \<and> self_ok n v' \<and> my_location v' = my_location v \<and> successors v' = successors v
    \<and> (\<exists>c. locations v' = (locations v)\<lparr>cachedlocs := c\<rparr>)"
proof -
  obtain xs ps where c: "lt_core (locations v) xs" "lt_pins (locations v) xs ps" "\<forall>a \<in> set xs. live (locations v) a"
    using assms by (auto simp: self_ok_def)
  note lk = lookup_ok [OF c(1,2), of "l_id l"]
  show ?thesis
  proof (cases "locs_find (locations v) (l_id l)")
    case None
    then show ?thesis using assms lk(1) by (auto simp: doRPC_def intro!: exI [of _ "cachedlocs (locations v)"])
  next
    case (Some a)
    then have a: "a \<in> set xs" using locs_find_eq [OF c(1), of "l_id l"] find_split [of "\<lambda>a. loc_key (locations v) a = l_id l" xs a] Some by auto
    define t where "t = (locations v)\<lparr>cachedlocs := removeAll a (cachedlocs (locations v)) @ [a]\<rparr>"
    have t: "lookup (l_id l) (locations v) = (t, Some a)" "lt_core t xs" "lt_pins t xs ps" "live t = live (locations v)"
      using lk Some by (simp_all add: t_def live_def [abs_def])
    have al: "is_alive (loc (wraps t a))" using a c(3) t(4) by (auto simp: live_def fun_eq_iff)
    then have "doRPC l v = (v\<lparr>locations := t\<rparr>, True)" using t(1) by (simp add: doRPC_def)
    moreover have "self_ok n (v\<lparr>locations := t\<rparr>)" using assms t c(3) by (auto simp: self_ok_def)
    ultimately show ?thesis by (auto simp: t_def)
  qed
qed

lemma node_ok_cachedlocs:
  assumes "vnode_ok G N n v" "self_ok n v'" "locations v' = (locations v)\<lparr>cachedlocs := c\<rparr>"
    "my_location v' = my_location v" "successors v' = successors v"
  shows "vnode_ok G N n v'"
proof -
  let ?t = "locations v" and ?t' = "locations v'"
  have k: "loc_key ?t' = loc_key ?t" "locs ?t' = locs ?t" "live ?t' = live ?t"
    by (simp_all add: assms(3) loc_key_def [abs_def] live_def [abs_def])
  obtain xs where xs: "lt_core ?t xs" "\<forall>a \<in> set xs. is_id (loc_key ?t a) \<and> G (loc (wraps ?t a))"
    using assms(1) by (auto simp: vnode_ok_def tbl_ok_def)
  obtain xs' where xs': "lt_core ?t' xs'" using assms(2) by (auto simp: self_ok_def)
  have "set xs' = set xs" using xs(1) xs' k(2) by (simp add: lt_core_def)
  then have "tbl_ok G ?t'" using xs' xs(2) k(1) assms(3) by (auto simp: tbl_ok_def)
  moreover have "live_ids ?t' = live_ids ?t" by (simp add: live_ids_def k)
  moreover have "start v' = start v" by (simp add: start_def [abs_def] assms(4))
  ultimately show ?thesis using assms(1,4,5) by (simp add: vnode_ok_def)
qed

text \<open>The state between two hops: the node \<open>h\<close> is to be asked next, the node before \<open>x\<close> is \<open>q\<close>.\<close>

definition hop_inv :: "(location \<Rightarrow> bool) \<Rightarrow> chordID set \<Rightarrow> chordID \<Rightarrow> chordID \<Rightarrow> network \<Rightarrow> route_iterator \<Rightarrow> chordID \<Rightarrow> chordID \<Rightarrow> bool" where
  "hop_inv G N self x net it h q \<longleftrightarrow>
     self_ok self (net self) \<and> (\<forall>n \<in> N. n \<noteq> self \<or> h = self \<longrightarrow> vnode_ok G N n (net n))
   \<and> h \<in> N \<and> search_path it \<noteq> [] \<and> l_id (last (search_path it)) = h
   \<and> failed_nodes it = [] \<and> rt_key it = x \<and> rt_status it = CHORD_OK
   \<and> last_before N h x q \<and> ring_dist self h + distance h x = distance self x"

context node_messages
begin

lemma doroute_inrange:
  assumes "vnode_ok G N n v" "\<forall>k \<in> N. is_id k" "finite N" "is_id x" "last_before N n x n"
  shows "\<exists>ss. doroute wire v x f None = Some (InRange ss) \<and> ss \<noteq> [] \<and> follows N x (l_id (hd ss))
    \<and> 0 \<le> location.vnode (hd ss) \<and> is_alive (hd ss)"
proof -
  obtain s ss where s: "succ v = Some s" "succs v = Some ss" "ss \<noteq> []" "hd ss = s" "follows N (incID n) (l_id s)"
    "\<forall>l \<in> set ss. G l"
    using succs_known [OF assms(1-3)] by blast
  have "betweenrightincl n (l_id s) x" "follows N x (l_id s)" using inrange_iff [OF assms(1,2,4,5) s(5)] by auto
  moreover have "G s" using s(3,4,6) by auto
  ultimately show ?thesis using s assms(1) by (auto simp: doroute_def vnode_ok_def hd_map)
qed

lemma doroute_notinrange:
  assumes "vnode_ok G N n v" "\<forall>k \<in> N. is_id k" "finite N" "is_id x" "last_before N n x q"
    and "q \<noteq> n" "2 ^ i \<le> ring_dist n q" "i < NBIT"
  shows "\<exists>p ss. doroute wire v x [] None = Some (NotInRange p ss) \<and> l_id p \<in> N \<and> between n x (l_id p)
    \<and> 2 ^ i \<le> ring_dist n (l_id p) \<and> 0 \<le> location.vnode p \<and> is_alive p"
proof -
  obtain s ss where s: "succ v = Some s" "succs v = Some ss" "follows N (incID n) (l_id s)"
    using succs_known [OF assms(1-3)] by blast
  have "\<not> betweenrightincl n (l_id s) x" using inrange_iff(1) [OF assms(1,2,4,5) s(3)] assms(6) by simp
  then show ?thesis
    using s closestpred_halves [OF assms(1-5,7,8)] assms(1) by (fastforce simp: doroute_def vnode_ok_def)
qed

text \<open>Hops.\<close>

text \<open>The part of a hop before the callback: the node asked answers.\<close>

lemma hop_answer:
  assumes "hop_inv G N self x net it h q" "\<forall>n \<in> N. up n"
  obtains v v' where "vnode_ok G N h v" "self_ok self v'"
    "make_hop now coins wire up self (net, it) =
       do { res \<leftarrow> doroute wire v x [] None;
            (w, it, out) \<leftarrow> make_hop_cb now coins (Some res) v' it;
            Some (net(self := w), it, out) }"
proof -
  have i: "self_ok self (net self)" "h \<in> N" "search_path it \<noteq> []" "l_id (last (search_path it)) = h"
    "failed_nodes it = []" "rt_key it = x" "vnode_ok G N h (net h)"
    using assms(1) by (auto simp: hop_inv_def)
  obtain v1 c where v1: "doRPC (last (search_path it)) (net self) = (v1, True)" "self_ok self v1"
    "my_location v1 = my_location (net self)" "successors v1 = successors (net self)"
    "locations v1 = (locations (net self))\<lparr>cachedlocs := c\<rparr>"
    using doRPC_ok [OF i(1)] by blast
  let ?net = "net(self := v1)"
  have ok: "vnode_ok G N h (?net h)"
  proof (cases "h = self")
    case True
    then show ?thesis using node_ok_cachedlocs [OF _ v1(2,5,3,4)] i(7) by simp
  qed (use i(7) in simp)
  obtain v2 where v2: "doRPC_cb now coins (last (search_path it)) (Some (wire (my_location (?net h)))) v1 = Some v2" "self_ok self v2"
  proof (cases "myID v1 = h")
    case True
    then show ?thesis using that [of v1] v1(2) ok by (auto simp: doRPC_cb_def vnode_ok_def)
  next
    case False
    let ?l = "wire (my_location (?net h))"
    have "0 \<le> location.vnode ?l" "is_alive ?l" "l_id ?l = h" using ok by (auto simp: vnode_ok_def)
    then show ?thesis using insert_node_ok [OF v1(2), of ?l now coins] False that by (auto simp: doRPC_cb_def)
  qed
  show thesis
    by (rule that [OF ok v2(2)]) (use i assms(2) v1(1) v2(1) in \<open>auto simp: make_hop_def Let_def split: bind_splits\<close>)
qed

lemma hop_done:
  assumes "hop_inv G N self x net it h h" "\<forall>n \<in> N. up n" "\<forall>k \<in> N. is_id k" "finite N" "is_id x"
  shows "\<exists>net' it'. make_hop now coins wire up self (net, it) = Some (net', it', Done) \<and> rt_status it' = CHORD_OK
    \<and> rt_successors it' \<noteq> [] \<and> follows N x (l_id (hd (rt_successors it')))
    \<and> l_id (last (search_path it')) = l_id (hd (rt_successors it')) \<and> length (search_path it') = Suc (length (search_path it))"
proof -
  obtain v v' where v: "vnode_ok G N h v" "self_ok self v'" and hop: "make_hop now coins wire up self (net, it) =
       do { res \<leftarrow> doroute wire v x [] None;
            (w, it, out) \<leftarrow> make_hop_cb now coins (Some res) v' it;
            Some (net(self := w), it, out) }"
    using hop_answer [OF assms(1,2)] by blast
  have i: "search_path it \<noteq> []" "rt_status it = CHORD_OK" "last_before N h x h" using assms(1) by (auto simp: hop_inv_def)
  obtain ss where ss: "doroute wire v x [] None = Some (InRange ss)" "ss \<noteq> []" "follows N x (l_id (hd ss))"
    "0 \<le> location.vnode (hd ss)" "is_alive (hd ss)"
    using doroute_inrange [OF v(1) assms(3-5) i(3)] by blast
  then show ?thesis using hop i insert_node_ok [OF v(2) ss(4,5), of now coins] by (auto simp: make_hop_cb_def)
qed

lemma hop_more:
  assumes "hop_inv G N self x net it h q" "\<forall>n \<in> N. up n" "\<forall>k \<in> N. is_id k" "finite N" "is_id x" "self \<in> N"
    and "q \<noteq> h" "2 ^ i \<le> ring_dist h q" "i < NBIT" "length (search_path it) < 1000"
  shows "\<exists>net' it' p. make_hop now coins wire up self (net, it) = Some (net', it', More) \<and> hop_inv G N self x net' it' p q
    \<and> 2 ^ i \<le> ring_dist h p \<and> ring_dist p q = ring_dist h q - ring_dist h p
    \<and> length (search_path it') = Suc (length (search_path it))"
proof -
  obtain v v' where v: "vnode_ok G N h v" "self_ok self v'" and hop: "make_hop now coins wire up self (net, it) =
       do { res \<leftarrow> doroute wire v x [] None;
            (w, it, out) \<leftarrow> make_hop_cb now coins (Some res) v' it;
            Some (net(self := w), it, out) }"
    using hop_answer [OF assms(1,2)] by blast
  have inv: "search_path it \<noteq> []" "l_id (last (search_path it)) = h" "last_before N h x q" "h \<in> N"
    "ring_dist self h + distance h x = distance self x"
    "failed_nodes it = []" "rt_key it = x" "rt_status it = CHORD_OK" "\<forall>n \<in> N. n \<noteq> self \<longrightarrow> vnode_ok G N n (net n)"
    using assms(1) by (auto simp: hop_inv_def)
  obtain p ss where p: "doroute wire v x [] None = Some (NotInRange p ss)" "l_id p \<in> N" "between h x (l_id p)"
    "2 ^ i \<le> ring_dist h (l_id p)" "0 \<le> location.vnode p" "is_alive p"
    using doroute_notinrange [OF v(1) assms(3-5) inv(3) assms(7-9)] by blast
  obtain w r where w: "insert_node now coins p v' = Some (w, Some r)" "l_id r = l_id p" "self_ok self w"
    using insert_node_ok [OF v(2) p(5,6)] by blast
  let ?it = "it\<lparr>search_path := search_path it @ [r], rt_successors := ss\<rparr>"
  have ids: "is_id self" "is_id h" "is_id (l_id p)" using assms(3,6) inv(4) p(2) by auto
  note lb = last_before_hop [OF assms(3,5) inv(3,4) p(2,3)]
  have d: "0 < ring_dist h (l_id p)" "ring_dist h (l_id p) < distance h x"
    using p(3) ids assms(5) by (simp_all add: between_distance)
  then have "ring_dist self h + ring_dist h (l_id p) < ring"
    using inv(5) distance_bounds [OF ids(1) assms(5)] by linarith
  then have sp: "ring_dist self (l_id p) = ring_dist self h + ring_dist h (l_id p)" using ids by (intro dist_add)
  then have "l_id p \<noteq> self" using d(1) dist_bounds(1) [of self h] dist_self [of self] by auto
  then have "hop_inv G N self x (net(self := w)) ?it (l_id p) q"
    using inv w p(2) lb sp by (simp add: hop_inv_def)
  moreover have "l_id p \<noteq> h" using p(3) by auto
  ultimately show ?thesis
    using hop p(1,4) w inv(1,2) lb(2) assms(10) by (auto simp: make_hop_cb_def Let_def)
qed

lemma route_loop_finds:
  assumes "\<forall>n \<in> N. up n" "\<forall>k \<in> N. is_id k" "finite N" "is_id x" "self \<in> N"
    and "hop_inv G N self x net it h q" "ring_dist h q < 2 ^ m" "m \<le> NBIT" "length (search_path it) + m < 1000"
  shows "\<exists>net' it'. route_loop now coins wire up self (net, it) = Some (net', it') \<and> rt_status it' = CHORD_OK
    \<and> rt_successors it' \<noteq> [] \<and> follows N x (l_id (hd (rt_successors it')))
    \<and> l_id (last (search_path it')) = l_id (hd (rt_successors it'))
    \<and> length (search_path it') \<le> length (search_path it) + m + 1"
  using assms(6-)
proof (induction m arbitrary: net it h rule: less_induct)
  case (less m)
  have ids: "is_id h" "is_id q" using less.prems(1) assms(2) by (auto simp: hop_inv_def last_before_def)
  show ?case
  proof (cases "q = h")
    case True
    then show ?thesis
      using hop_done [of N self x net it h up now coins] less.prems(1) assms by (fastforce simp: route_loop.simps)
  next
    case False
    have "0 < ring_dist h q" using dist_pos [OF ids] False by auto
    then obtain i where i: "i < m" "2 ^ i \<le> ring_dist h q" "ring_dist h q < 2 ^ Suc i"
      using log2_floor less.prems(2) by blast
    moreover have "i < NBIT" "length (search_path it) < 1000" using i(1) less.prems(3,4) by simp_all
    ultimately obtain net' it' p where hop: "make_hop now coins wire up self (net, it) = Some (net', it', More)"
      "hop_inv G N self x net' it' p q" "2 ^ i \<le> ring_dist h p" "ring_dist p q = ring_dist h q - ring_dist h p"
      "length (search_path it') = Suc (length (search_path it))"
      using hop_more [OF less.prems(1) assms(1-5) False i(2), of now coins] by blast
    then have "ring_dist p q < 2 ^ i" using i(3) by simp
    then show ?thesis
      using less.IH [OF i(1) hop(2)] i(1) less.prems(3,4) hop(1,5)
      by (auto simp: route_loop.simps [of _ _ _ _ _ "(net, it)"])
  qed
qed

end

lemma closestpred_known:
  assumes "vnode_ok G N n v" "\<forall>k \<in> N. is_id k" "is_id x"
  shows "\<exists>p. closestpred v x [] = Some p \<and> l_id p \<in> N \<and> (l_id p = n \<or> between n x (l_id p))"
proof -
  let ?t = "locations v"
  have v: "myID v = n" "tbl_ok G ?t" "n \<in> live_ids ?t" "live_ids ?t \<subseteq> N" "G (my_location v)"
    using assms(1) by (auto simp: vnode_ok_def)
  have "\<exists>l. finger_pred_loop v x [] m = Some l \<and> l_id l \<in> N \<and> (l_id l = n \<or> between n x (l_id l))" for m
  proof (induction m)
    case 0
    then show ?case using v by auto
  next
    case (Suc j)
    obtain l where "finger v j = Some l" "l_id l \<in> live_ids ?t"
      using closestsuccloc_follows [OF v(2), of "start v j"] v(3) by (auto simp: finger_def follows_def start_mod)
    then show ?case using Suc v(1,4) by auto
  qed
  then obtain f where f: "finger_closestpred v x [] = Some f" "l_id f \<in> N" "l_id f = n \<or> between n x (l_id f)"
    by (auto simp: finger_closestpred_def)
  obtain m where m: "num_succ v = Some m" using num_succ_known [OF assms(1) v(3)] by auto
  then obtain u where u: "succ_closestpred v x [] = Some u" "l_id u \<in> N" "l_id u = n \<or> between n x (l_id u)"
    using succ_pred_loop_known [OF assms(1,3), of "my_location v" m] v by (auto simp: succ_closestpred_def)
  show ?thesis using f u by (auto simp: closestpred_def)
qed

text \<open>
  C19: lookups find the node responsible for a key, in logarithmic time. In a finite network of nodes that all answer, each knows
  only nodes of the network as alive, itself among them, holds the nodes that its fingers should point to and asks for at least one
  successor; the locations in the tables are sound: an identifier is the hash of the node's address, given in dotted decimal, its
  port and its number, both of which fit 16 bits. The table of the node that looks up satisfies its invariant and marks all nodes in it as alive. Then a lookup
  from any node ends without error and without a failed assertion, nodes being sent as \<^verbatim>\<open>fill_node\<close> writes and \<^verbatim>\<open>make_chord_node\<close>
  reads them; the first of the successors it returns, and the last node of its path, is the node that follows the key on the ring.
  The path has at most \<open>NBIT + 2\<close> nodes, since every hop leaves less than half of the distance to the predecessor of the key.
\<close>

theorem lookup_finds_successor:
  assumes "finite N" "\<forall>k \<in> N. is_id k" "self \<in> N" "is_id x"
    and "\<forall>n \<in> N. vnode_ok (sound E) N n (net n)" "self_ok self (net self)" "\<forall>n \<in> N. up n"
  shows "\<exists>net' it. find_route now coins (wire_loc E now) up net self x = Some (net', it) \<and> rt_status it = CHORD_OK
    \<and> rt_successors it \<noteq> [] \<and> follows N x (l_id (hd (rt_successors it)))
    \<and> l_id (last (search_path it)) = l_id (hd (rt_successors it)) \<and> length (search_path it) \<le> NBIT + 2"
proof -
  have v: "vnode_ok (sound E) N self (net self)" "is_id self" using assms by auto
  obtain p where p: "closestpred (net self) x [] = Some p" "l_id p \<in> N" "l_id p = self \<or> between self x (l_id p)"
    using closestpred_known [OF v(1) assms(2,4)] by blast
  obtain q where q: "last_before N self x q" using last_before_exists [OF assms(1,3) v(2) assms(4)] by blast
  let ?it = "(new_iterator x)\<lparr>search_path := [p]\<rparr>"
  have "last_before N (l_id p) x q \<and> ring_dist self (l_id p) + distance (l_id p) x = distance self x"
  proof (cases "l_id p = self")
    case False
    then show ?thesis using last_before_hop [OF assms(2,4) q assms(3) p(2)] p(3) by simp
  qed (simp add: q)
  then have "hop_inv (sound E) N self x net ?it (l_id p) q" using assms p(2) by (simp add: hop_inv_def new_iterator_def)
  moreover have "ring_dist (l_id p) q < 2 ^ NBIT" using dist_bounds by simp
  ultimately obtain net' it where "route_loop now coins (wire_loc E now) up self (net, ?it) = Some (net', it)" "rt_status it = CHORD_OK"
    "rt_successors it \<noteq> []" "follows N x (l_id (hd (rt_successors it)))"
    "l_id (last (search_path it)) = l_id (hd (rt_successors it))" "length (search_path it) \<le> 1 + NBIT + 1"
    using msg.route_loop_finds [OF assms(7,2,1,4,3), of E net ?it "l_id p" q NBIT now coins now] by (auto simp: NBIT_def)
  moreover have "first_hop None (net self) (new_iterator x) = Some (net self, ?it)"
    using p(1) by (simp add: first_hop_def new_iterator_def)
  ultimately show ?thesis by (simp add: find_route_def)
qed

text \<open>A network of the two nodes 7 and 20 that know each other.\<close>

definition two_host :: bytes where
  "two_host = inet_ntoa 0x0100007f"

text \<open>A hash function that tells the ports 7, 9 and 20 of one machine apart.\<close>

definition two_env :: net_env where
  "two_env = \<lparr>sha1 = (\<lambda>t. if t = node_text two_host 7 0 then 7 else if t = node_text two_host 9 0 then 9
       else if t = node_text two_host 20 0 then 20 else 0),
     inet_aton = (\<lambda>t. if t = two_host then Some 0x0100007f else None), max_vnodes = 1024, modelnet_on = False\<rparr>"

definition two_loc :: "chordID \<Rightarrow> location" where
  "two_loc x = new_location 10 True x two_host x 0x0100007f 0 60 0 0 False"

lemma two_sound: "x \<in> {7, 9, 20} \<Longrightarrow> sound two_env (two_loc x)"
proof -
  have "node_text two_host 9 0 \<noteq> node_text two_host 7 0" "node_text two_host 20 0 \<noteq> node_text two_host 7 0"
    "node_text two_host 20 0 \<noteq> node_text two_host 9 0" by code_simp+
  then show "x \<in> {7, 9, 20} \<Longrightarrow> sound two_env (two_loc x)"
    by (auto simp: sound_def two_loc_def new_location_def make_chordID_def two_env_def) (simp_all add: two_host_def)
qed

definition two_table :: "skiplist \<Rightarrow> locationtable" where
  "two_table s = (new_locationtable 10)\<lparr>wraps := \<lambda>a. let x = (if a = 0 then 7 else 20) in \<lparr>loc = two_loc x, lw_n = x, is_pinned = False\<rparr>,
     fresh := 2, locs := [0, 1], cachedlocs := [0, 1], loclist := s\<rparr>"

definition two_net :: "skiplist \<Rightarrow> network" where
  "two_net s = (\<lambda>n. \<lparr>my_location = two_loc n, locations = two_table s, successors = new_succ_list 4 n,
     predecessors = new_pred_list 4 n, fingertab = new_finger_table, gotfingers = False,
     checkdead_int = 0, dead_nodes = [], timers = []\<rparr>)"

lemma two_locs [simp]: "l_id (two_loc x) = x" "location.vnode (two_loc x) = 0" "is_alive (two_loc x)" "isme (two_loc x) = False"
  by (simp_all add: two_loc_def new_location_def)

lemma two_keys: "loc_key (two_table s) = (\<lambda>a. if a = 0 then 7 else 20)" "live (two_table s) = (\<lambda>_. True)"
  by (auto simp: loc_key_def two_table_def Let_def live_def two_loc_def new_location_def)

lemma two_table_ok: "\<exists>s. lt_core (two_table s) [0, 1] \<and> lt_pins (two_table s) [0, 1] []"
proof -
  let ?k = "\<lambda>a :: addr. if a = 0 then 7 else 20 :: chordID"
  have "sorted_elems ?k (new_skiplist (\<lambda>_. blank)) []" by (simp add: new_sorted_elems blank_def)
  from insert_sorted_elems [OF this, of 0 "[]"] obtain s0 where "sorted_elems ?k s0 [0]"
    by (auto simp: elems_below_def elems_from_def)
  from insert_sorted_elems [OF this, of 1 "[]"] obtain s where so: "sorted_elems ?k s [0, 1]"
    by (auto simp: elems_below_def elems_from_def)
  have "lt_core (two_table s) [0, 1]"
    unfolding lt_core_def two_keys using so by (simp add: two_table_def Let_def two_loc_def new_location_def)
  moreover have "lt_pins (two_table s) [0, 1] []"
    unfolding lt_pins_def by (simp add: two_table_def new_locationtable_def new_sorted_elems blank_def)
  ultimately show ?thesis by blast
qed

theorem lookup_finds_successor_witness:
  "\<exists>net net' it. find_route 20 (\<lambda>_. []) (wire_loc two_env 20) (\<lambda>_. True) net 7 9 = Some (net', it)
     \<and> rt_status it = CHORD_OK \<and> l_id (hd (rt_successors it)) = 20"
proof -
  obtain s where s: "lt_core (two_table s) [0, 1]" "lt_pins (two_table s) [0, 1] []" using two_table_ok by blast
  have r: "20 < ring" by (simp add: ring_def NBIT_def del: two_NBIT)
  have ids: "\<forall>k \<in> {7, 20}. is_id k" "is_id 9" using r by (simp_all add: is_id_def)
  have l: "live_ids (two_table s) = {7, 20}" by (auto simp: live_ids_core [OF s(1)] two_keys)
  have "\<forall>a \<in> set [0, 1]. sound two_env (loc (wraps (two_table s) a))" using two_sound by (simp add: two_table_def Let_def)
  then have "tbl_ok (sound two_env) (two_table s)" unfolding tbl_ok_def
    using s(1) ids(1) by (intro exI [of _ "[0, 1]"]) (simp add: two_keys)
  then have "\<forall>n \<in> {7, 20}. vnode_ok (sound two_env) {7, 20} n (two_net s n)"
    using two_sound by (auto simp: vnode_ok_def two_net_def two_locs new_succ_list_def l follows_def)
  moreover have "self_ok 7 (two_net s 7)"
    using s by (auto simp: self_ok_def two_net_def two_locs two_keys)
  ultimately obtain net' it where it: "find_route 20 (\<lambda>_. []) (wire_loc two_env 20) (\<lambda>_. True) (two_net s) 7 9 = Some (net', it)"
    "rt_status it = CHORD_OK" "follows {7, 20} 9 (l_id (hd (rt_successors it)))"
    using lookup_finds_successor [of "{7, 20}" 7 9 two_env "two_net s" "\<lambda>_. True" 20 "\<lambda>_. []"] ids by auto
  moreover have "ring_dist 9 20 < ring_dist 9 7"
    using ring_dist_eq [of 9 20] ring_dist_eq [of 9 7] ids r by simp
  ultimately show ?thesis by (fastforce simp: follows_def)
qed

end
