(* ===== verification/Chord_Join.thy ===== *)
theory Chord_Join
  imports Chord_Lookup
begin

text \<open>
  Stabilisation: the merge of successor lists always ends and its assertion holds, and a node that joins is taken into
  the ring by two rounds of the node before it.
\<close>

subsection \<open>Insertion into a table of live nodes\<close>

text \<open>A table whose nodes are all alive and satisfy \<open>G\<close>, with room for \<open>k\<close> more.\<close>

definition live_tbl :: "(location \<Rightarrow> bool) \<Rightarrow> nat \<Rightarrow> locationtable \<Rightarrow> bool" where
  "live_tbl G k t \<longleftrightarrow> (\<exists>xs ps. lt_core t xs \<and> lt_pins t xs ps \<and> (\<forall>a \<in> set xs. live t a \<and> is_id (loc_key t a) \<and> G (loc (wraps t a)))
     \<and> length xs + k \<le> max_cachedlocs t)"

lemma live_tbl_ok: "live_tbl G k t \<Longrightarrow> tbl_ok G t"
  by (auto simp: live_tbl_def tbl_ok_def)

lemma live_tbl_mono: "live_tbl G k t \<Longrightarrow> j \<le> k \<Longrightarrow> live_tbl G j t"
  unfolding live_tbl_def by (meson add_left_mono order_trans)

context node_messages
begin

lemma insert_live:
  assumes "live_tbl G (Suc k) (locations v)" "G l" "is_alive l" "is_id (l_id l)"
  shows "\<exists>t r. insert_node now coins l v = Some (v\<lparr>locations := t\<rparr>, Some r) \<and> l_id r = l_id l \<and> is_alive r
    \<and> live_tbl G k t \<and> live_ids t = insert (l_id l) (live_ids (locations v))"
proof -
  obtain xs ps where c: "lt_core (locations v) xs" "lt_pins (locations v) xs ps"
    "\<forall>a \<in> set xs. live (locations v) a \<and> is_id (loc_key (locations v) a) \<and> G (loc (wraps (locations v) a))" "length xs + Suc k \<le> max_cachedlocs (locations v)"
    using assms(1) by (auto simp: live_tbl_def)
  obtain t r xs' where t: "realinsert now (coins (l_id l)) l (locations v) = Some (t, r)" "l_id r = l_id l" "is_alive r"
    "lt_core t xs'" "lt_pins t xs' ps" "\<forall>a \<in> set xs'. live t a" "max_cachedlocs t = max_cachedlocs (locations v)"
    "loc_key t ` set xs' = insert (l_id l) (loc_key (locations v) ` set xs)" "length xs' \<le> Suc (length xs)"
    "\<forall>a \<in> set xs'. loc (wraps t a) = l \<or> (\<exists>b \<in> set xs. loc (wraps t a) \<in> {loc (wraps (locations v) b), fst (update now (loc (wraps (locations v) b)) l)})"
    using realinsert_ok [OF c(1,2) good_vnode [OF assms(2)], of now "coins (l_id l)"] c(3,4) assms(3) by auto
  have g: "\<forall>a \<in> set xs'. G (loc (wraps t a))" using t(10) c(3) assms(2) good_update by fastforce
  have "live_ids t = insert (l_id l) (live_ids (locations v))"
    using t(6,8) c(3) by (simp add: live_ids_core [OF c(1)] live_ids_core [OF t(4)] conj_commute cong: conj_cong)
  moreover have "\<forall>a \<in> set xs'. is_id (loc_key t a)"
  proof
    fix a assume "a \<in> set xs'"
    then have "loc_key t a \<in> insert (l_id l) (loc_key (locations v) ` set xs)" using t(8) by blast
    then show "is_id (loc_key t a)" using c(3) assms(4) by auto
  qed
  then have "live_tbl G k t" unfolding live_tbl_def using t(4-7,9) c(4) g by (intro exI [of _ xs'] exI [of _ ps]) auto
  ultimately show ?thesis using t(1-3) good_vnode [OF assms(2)] by (auto simp: insert_node_def insert_loc_def)
qed

end

definition good_node :: "(location \<Rightarrow> bool) \<Rightarrow> location \<Rightarrow> bool" where
  "good_node G l \<longleftrightarrow> G l \<and> is_alive l \<and> is_id (l_id l)"

context node_messages
begin

lemma insert_nodes_live:
  assumes "live_tbl G (k + length ns) (locations v)" "\<forall>l \<in> set ns. good_node G l"
  shows "\<exists>t. insert_nodes now coins ns v = Some (v\<lparr>locations := t\<rparr>) \<and> live_tbl G k t
    \<and> live_ids t = l_id ` set ns \<union> live_ids (locations v)"
  using assms
proof (induction ns arbitrary: v)
  case Nil
  then show ?case by (auto intro!: exI [of _ "locations v"])
next
  case (Cons n ns)
  obtain t r where t: "insert_node now coins n v = Some (v\<lparr>locations := t\<rparr>, Some r)" "live_tbl G (k + length ns) t"
    "live_ids t = insert (l_id n) (live_ids (locations v))"
    using insert_live [of "k + length ns" v n now coins] Cons.prems by (auto simp: good_node_def)
  then show ?case using Cons.IH [of "v\<lparr>locations := t\<rparr>"] Cons.prems by auto
qed

end

subsection \<open>Neighbours\<close>

text \<open>\<open>k\<close> is the node of \<open>N\<close> before \<open>x\<close>.\<close>

definition precedes :: "chordID set \<Rightarrow> chordID \<Rightarrow> chordID \<Rightarrow> bool" where
  "precedes N x k \<longleftrightarrow> k \<in> N \<and> (\<forall>k' \<in> N. ring_dist x k' \<le> ring_dist x k)"

lemma closestpredloc_precedes:
  assumes "tbl_ok G t" "is_id x" "live_ids t \<noteq> {}"
  shows "\<exists>l. closestpredloc x [] t = Some l \<and> precedes (live_ids t) x (l_id l) \<and> G l"
proof -
  obtain xs where xs: "lt_core t xs" "\<forall>a \<in> set xs. is_id (loc_key t a)" "\<forall>a \<in> set xs. G (loc (wraps t a))" using assms(1) by (auto simp: tbl_ok_def)
  have "\<exists>a \<in> set xs. usable [] t a" using assms(3) by (auto simp: live_ids_core [OF xs(1)] usable_def)
  from closestpredloc_closest [OF xs(1) assms(2) xs(2) this] show ?thesis
    using xs(1,3) by (auto simp: precedes_def live_ids_core [OF xs(1)] usable_def lt_core_def)
qed

lemma pred_is:
  assumes "live_tbl G j (locations v)" "precedes (live_ids (locations v)) (myID v) k" "is_id (myID v)"
  shows "\<exists>l. pred v = Some l \<and> l_id l = k \<and> G l"
proof -
  have k: "k \<in> live_ids (locations v)" using assms(2) by (simp add: precedes_def)
  then obtain l where l: "pred v = Some l" "precedes (live_ids (locations v)) (myID v) (l_id l)" "G l"
    using closestpredloc_precedes [OF live_tbl_ok [OF assms(1)] assms(3)] by (auto simp: pred_def)
  have "is_id k" "is_id (l_id l)" using rt.known_ids [OF live_tbl_ok [OF assms(1)]] k l(2) by (auto simp: precedes_def)
  then have "l_id l = k" using l(2) assms(2,3) dist_inj unfolding precedes_def by (metis order_antisym)
  then show ?thesis using l(1,3) by blast
qed

lemma succ_is:
  assumes "live_tbl G j (locations v)" "is_id (myID v)" "k \<in> live_ids (locations v)" "k \<noteq> myID v"
    and "\<forall>k' \<in> live_ids (locations v). k' \<noteq> myID v \<longrightarrow> ring_dist (myID v) k \<le> ring_dist (myID v) k'"
    and "myID v \<in> live_ids (locations v)"
  shows "\<exists>l. succ v = Some l \<and> l_id l = k"
proof -
  let ?S = "live_ids (locations v)"
  have ids: "\<forall>k \<in> ?S. is_id k" using rt.known_ids [OF live_tbl_ok [OF assms(1)]] by blast
  obtain l where l: "succ v = Some l" "follows ?S (incID (myID v)) (l_id l)"
    using closestsuccloc_follows [OF live_tbl_ok [OF assms(1)], of "incID (myID v)"] assms(2,3)
    by (auto simp: succ_def incID_mod)
  have "l_id l \<noteq> myID v" "ring_dist (myID v) (l_id l) \<le> ring_dist (myID v) k"
    using follows_incID [OF ids l(2) assms(6,3,4)] by auto
  moreover have "l_id l \<in> ?S" using l(2) by (simp add: follows_def)
  ultimately have "ring_dist (myID v) (l_id l) = ring_dist (myID v) k" using assms(5) by (simp add: order_antisym)
  then have "l_id l = k" using dist_inj [of "myID v" "l_id l" k] ids assms(2,3) \<open>l_id l \<in> ?S\<close> by blast
  then show ?thesis using l(1) by blast
qed

subsection \<open>The place of a new node\<close>

lemma dist_from:
  assumes "is_id n" "is_id a" "is_id k"
  shows "ring_dist a k = (if ring_dist n a \<le> ring_dist n k then ring_dist n k - ring_dist n a
    else ring_dist n k - ring_dist n a + ring)"
  using assms by (auto simp: ring_dist_eq is_id_def)

text \<open>The new node \<open>n\<close> lies between the neighbours \<open>a\<close> and \<open>b\<close> of the network \<open>N\<close>.\<close>

definition place :: "chordID set \<Rightarrow> chordID \<Rightarrow> chordID \<Rightarrow> chordID \<Rightarrow> bool" where
  "place N a n b \<longleftrightarrow> (\<forall>k \<in> N. is_id k) \<and> is_id n \<and> n \<notin> N \<and> a \<noteq> b \<and> precedes N n a \<and> follows N n b"

lemma place_facts:
  assumes "place N a n b"
  shows "is_id a" "is_id b" "is_id n" "a \<in> N" "b \<in> N" "a \<noteq> n" "b \<noteq> n" "a \<noteq> b"
    and "\<And>k. k \<in> N \<Longrightarrow> ring_dist n b \<le> ring_dist n k \<and> ring_dist n k \<le> ring_dist n a \<and> is_id k \<and> 0 < ring_dist n k \<and> k \<noteq> n"
    and "ring_dist n b < ring_dist n a"
proof -
  show ids: "is_id a" "is_id b" "is_id n" "a \<in> N" "b \<in> N" "a \<noteq> n" "b \<noteq> n" "a \<noteq> b"
    using assms by (auto simp: place_def precedes_def follows_def)
  show "ring_dist n b \<le> ring_dist n k \<and> ring_dist n k \<le> ring_dist n a \<and> is_id k \<and> 0 < ring_dist n k \<and> k \<noteq> n" if "k \<in> N" for k
    using that assms ids dist_pos [of n k] by (force simp: place_def precedes_def follows_def)
  then have "ring_dist n b \<le> ring_dist n a" "ring_dist n b \<noteq> ring_dist n a" using ids dist_inj [of n b a] by auto
  then show "ring_dist n b < ring_dist n a" by simp
qed

lemma place_after_a:
  assumes "place N a n b" "k \<in> N" "k \<noteq> a"
  shows "ring_dist a b \<le> ring_dist a k" "ring_dist a n \<le> ring_dist a k" "ring_dist a n < ring_dist a b"
proof -
  note p = place_facts [OF assms(1)]
  have k: "ring_dist n k < ring_dist n a"
    using p(9) [OF assms(2)] dist_inj [of n k a] p(1,3) assms(3) by (auto simp: order_le_less)
  have "ring_dist a k = ring_dist n k - ring_dist n a + ring" using dist_from [OF p(3,1), of k] k p(9) [OF assms(2)] by auto
  moreover have "ring_dist a b = ring_dist n b - ring_dist n a + ring" using dist_from [OF p(3,1,2)] p(10) by auto
  moreover have "ring_dist a n = ring - ring_dist n a" using dist_from [OF p(3,1,3)] p(9) [OF p(4)] by auto
  ultimately show "ring_dist a b \<le> ring_dist a k" "ring_dist a n \<le> ring_dist a k" "ring_dist a n < ring_dist a b"
    using p(9) [OF assms(2)] p(9) [OF p(5)] by auto
qed

lemma place_before_b:
  assumes "place N a n b" "k \<in> N"
  shows "ring_dist b k \<le> ring_dist b a" "ring_dist b k \<le> ring_dist b n"
proof -
  note p = place_facts [OF assms(1)]
  have "ring_dist b k = ring_dist n k - ring_dist n b" using dist_from [OF p(3,2), of k] p(9) [OF assms(2)] by auto
  moreover have "ring_dist b a = ring_dist n a - ring_dist n b" using dist_from [OF p(3,2,1)] p(10) by auto
  moreover have "ring_dist b n = ring - ring_dist n b" using dist_from [OF p(3,2,3)] p(9) [OF p(5)] by auto
  ultimately show "ring_dist b k \<le> ring_dist b a" "ring_dist b k \<le> ring_dist b n"
    using p(9) [OF assms(2)] dist_bounds(2) [of n k] by auto
qed

lemma place_between:
  assumes "place N a n b"
  shows "between a b n" "betweenleftincl a b n" "k \<in> N \<Longrightarrow> k \<noteq> a \<Longrightarrow> between k n a \<and> \<not> betweenleftincl a n k"
proof -
  note p = place_facts [OF assms]
  have ab: "ring_dist a n < ring_dist a b" using place_after_a(3) [OF assms p(5)] p(8) by auto
  then show "between a b n" "betweenleftincl a b n" using interval_tests [OF p(1,2,3)] p(6) by auto
  assume k: "k \<in> N" "k \<noteq> a"
  have "ring_dist k a = ring_dist n a - ring_dist n k" "ring_dist k n = ring - ring_dist n k"
    using dist_from [OF p(3) _ p(1), of k] dist_from [OF p(3) _ p(3), of k] p(9) [OF k(1)] by auto
  then have "ring_dist k a < ring_dist k n" using dist_bounds(2) [of n a] by simp
  moreover have "\<not> ring_dist a k < ring_dist a n" using place_after_a(2) [OF assms k] by simp
  ultimately show "between k n a \<and> \<not> betweenleftincl a n k"
    using interval_tests [OF _ p(3,1), of k] interval_tests [OF p(1,3), of k] p(9) [OF k(1)] p(6) k(2) by auto
qed

subsection \<open>A node joins\<close>

text \<open>Delivery of the notifications among some calls to a node.\<close>

fun deliver :: "int \<Rightarrow> (chordID \<Rightarrow> bool list) \<Rightarrow> rpc list \<Rightarrow> vnode \<Rightarrow> vnode option" where
  "deliver now coins [] s = Some s"
| "deliver now coins (Notify x l # calls) s =
     (if x = myID s then do { s \<leftarrow> donotify now coins l s; deliver now coins calls s } else deliver now coins calls s)"
| "deliver now coins (_ # calls) s = deliver now coins calls s"

text \<open>A round of node \<open>a\<close> that checks its successor \<open>s\<close>: the call, the answer and what follows from it.\<close>

definition stab_round :: "int \<Rightarrow> (chordID \<Rightarrow> bool list) \<Rightarrow> (location \<Rightarrow> location) \<Rightarrow> vnode \<Rightarrow> vnode \<Rightarrow> (vnode \<times> vnode) option" where
  "stab_round now coins wire a s =
     do { (a, call) \<leftarrow> stabilize_succ wire a;
          case call of
            GetPredecessor x \<Rightarrow>
              do { p \<leftarrow> pred s;
                   (a, calls) \<leftarrow> stabilize_getpred_cb now coins wire x (Reply (wire p)) a;
                   s \<leftarrow> deliver now coins calls s;
                   Some (a, s) }
          | _ \<Rightarrow> do { s \<leftarrow> deliver now coins [call] s; Some (a, s) } }"

text \<open>Node \<open>n\<close> joins between \<open>a\<close> and \<open>b\<close> with the nodes \<open>nlist\<close> that the lookup of its place returned; then \<open>a\<close> makes two rounds, the
  first with \<open>b\<close>, the second with \<open>n\<close>.\<close>

definition join_ring :: "int \<Rightarrow> (chordID \<Rightarrow> bool list) \<Rightarrow> (location \<Rightarrow> location) \<Rightarrow> chordID \<Rightarrow> location list \<Rightarrow> vnode \<Rightarrow> vnode \<Rightarrow> vnode
    \<Rightarrow> (vnode \<times> vnode \<times> vnode) option" where
  "join_ring now coins wire from nlist a n b =
     do { (n, calls, ok) \<leftarrow> join_getsucc_cb now coins wire from (Reply nlist) n;
          b \<leftarrow> deliver now coins calls b;
          (a, b) \<leftarrow> stab_round now coins wire a b;
          (a, n) \<leftarrow> stab_round now coins wire a n;
          Some (a, n, b) }"

text \<open>A node whose table knows itself and some other nodes of the network, all with \<open>G\<close>, with room for \<open>k\<close> more.\<close>

definition member :: "(location \<Rightarrow> bool) \<Rightarrow> nat \<Rightarrow> chordID set \<Rightarrow> chordID \<Rightarrow> vnode \<Rightarrow> bool" where
  "member G k S n v \<longleftrightarrow> myID v = n \<and> is_id n \<and> G (my_location v) \<and> live_tbl G k (locations v) \<and> n \<in> live_ids (locations v)
     \<and> live_ids (locations v) \<subseteq> S"

context node_messages
begin

lemma join_step:
  assumes "member G (Suc k + length nlist) {n} n v" "\<forall>l \<in> set nlist. good_node G l \<and> l_id l \<in> insert n N" "b \<in> l_id ` set nlist" "place N a n b"
  shows "\<exists>v'. join_getsucc_cb now coins wire from (Reply nlist) v = Some (v', [Notify b (wire (my_location v))], Some True)
    \<and> member G (Suc k) (insert n N) n v' \<and> b \<in> live_ids (locations v') \<and> my_location v' = my_location v \<and> (\<exists>s. succ v' = Some s \<and> l_id s = b)"
proof -
  note p = place_facts [OF assms(4)]
  let ?ns = "filter (\<lambda>l. l_id l \<noteq> n) nlist"
  have v: "myID v = n" "live_tbl G (Suc k + length nlist) (locations v)" "live_ids (locations v) = {n}"
    using assms(1) by (auto simp: member_def)
  have "live_tbl G (Suc k + length ?ns) (locations v)" using live_tbl_mono [OF v(2)] by simp
  then obtain t where t: "insert_nodes now coins ?ns v = Some (v\<lparr>locations := t\<rparr>)" "live_tbl G (Suc k) t" "live_ids t = l_id ` set ?ns \<union> {n}"
    using insert_nodes_live [of "Suc k" ?ns v now coins] assms(2) v(3) by auto
  have sub: "live_ids t \<subseteq> insert n N" "b \<in> live_ids t" "nlist \<noteq> []" using t(3) assms(2,3) p(7) by auto
  obtain s where "succ (v\<lparr>locations := t\<rparr>) = Some s" "l_id s = b"
    using succ_is [of G "Suc k" "v\<lparr>locations := t\<rparr>" b] t(2,3) sub v(1) p by auto
  then show ?thesis using t sub v(1) assms(1) p(3) by (auto simp: join_getsucc_cb_def member_def Suc_le_eq)
qed

lemma notify_step:
  assumes "member G (Suc k) S m v" "\<exists>q. precedes (live_ids (locations v)) m q \<and> between q m (l_id l)" "good_node G l"
    and "precedes (insert (l_id l) (live_ids (locations v))) m (l_id l)"
  shows "\<exists>v'. donotify now coins l v = Some v' \<and> member G k (insert (l_id l) S) m v' \<and> my_location v' = my_location v
    \<and> live_ids (locations v') = insert (l_id l) (live_ids (locations v)) \<and> successors v' = successors v
    \<and> (\<exists>q. pred v' = Some q \<and> l_id q = l_id l \<and> G q)"
proof -
  have v: "myID v = m" "is_id m" "live_tbl G (Suc k) (locations v)" "m \<in> live_ids (locations v)" using assms(1) by (auto simp: member_def)
  obtain c where c: "pred v = Some c" "between (l_id c) m (l_id l)" using pred_is [OF v(3)] v assms(2) by auto
  obtain t r where t: "insert_node now coins l v = Some (v\<lparr>locations := t\<rparr>, Some r)" "live_tbl G k t"
    "live_ids t = insert (l_id l) (live_ids (locations v))"
    using insert_live [OF v(3), of l now coins] assms(3) unfolding good_node_def by blast
  obtain q where q: "pred (v\<lparr>locations := t\<rparr>) = Some q" "l_id q = l_id l" "G q"
    using pred_is [of G k "v\<lparr>locations := t\<rparr>" "l_id l"] t v assms(4) by auto
  then have "pred (v\<lparr>locations := t, predecessors := x\<rparr>) = Some q" for x by (simp add: pred_def)
  then show ?thesis
    using c t q v assms(1) by (auto simp: donotify_def update_pred_def member_def pred_def)
qed

lemma first_round:
  assumes "member G 1 N a va" "place N a n b" "b \<in> live_ids (locations va)" "oldsucc (successors va) = b" "sl_continuous (successors va) = 0"
    and "pred vb = Some p" "l_id p = n" "G p"
  shows "\<exists>va'. stab_round now coins wire va vb = Some (va', vb) \<and> member G 0 (insert n N) a va' \<and> n \<in> live_ids (locations va')
    \<and> oldsucc (successors va') = n \<and> sl_continuous (successors va') = 0 \<and> my_location va' = my_location va
    \<and> (\<exists>s. succ va' = Some s \<and> l_id s = n)"
proof -
  note pf = place_facts [OF assms(2)]
  have v: "myID va = a" "live_tbl G 1 (locations va)" "a \<in> live_ids (locations va)" "live_ids (locations va) \<subseteq> N"
    using assms(1) by (auto simp: member_def)
  obtain s where s: "succ va = Some s" "l_id s = b"
    using succ_is [OF v(2), of b] v pf place_after_a(1) [OF assms(2)] assms(3) by blast
  let ?v1 = "va\<lparr>successors := (successors va)\<lparr>sl_continuous := 0\<rparr>\<rparr>"
  have w: "G (wire p)" "is_alive (wire p)" "l_id (wire p) = n" using assms(7,8) by auto
  obtain t r where t: "insert_node now coins (wire p) ?v1 = Some (?v1\<lparr>locations := t\<rparr>, Some r)" "l_id r = n" "is_alive r" "live_tbl G 0 t"
    "live_ids t = insert n (live_ids (locations va))"
    using insert_live [of 0 ?v1 "wire p" now coins] v(2) w pf(3) by auto
  let ?v2 = "?v1\<lparr>locations := t, successors := (successors ?v1)\<lparr>oldsucc := n\<rparr>\<rparr>"
  have "stab_round now coins wire va vb = Some (?v2, vb)"
    using s assms(4-6) v(1) w(3) t(1-3) pf(6) place_between(2) [OF assms(2)]
    by (simp add: stab_round_def stabilize_succ_def stabilize_getpred_cb_def Let_def)
  moreover have "\<forall>k \<in> live_ids (locations va). k \<noteq> a \<longrightarrow> ring_dist a n \<le> ring_dist a k"
    using place_after_a(2) [OF assms(2)] v(4) by blast
  then have "\<exists>s. succ ?v2 = Some s \<and> l_id s = n"
    using succ_is [of G 0 ?v2 n] t(4,5) v(1,3) pf(1,6) by auto
  moreover have "member G 0 (insert n N) a ?v2" using assms(1) t(4,5) v by (auto simp: member_def)
  ultimately show ?thesis using t(5) by (intro exI [of _ ?v2]) simp
qed

lemma second_round:
  assumes "member G 0 (insert n N) a va" "place N a n b" "n \<in> live_ids (locations va)" "oldsucc (successors va) = n" "sl_continuous (successors va) = 0"
    and "member G (Suc k) (insert n N) n vn" "b \<in> live_ids (locations vn)"
    and "succ va = Some s" "l_id s = n"
  shows "\<exists>va' vn'. stab_round now coins wire va vn = Some (va', vn') \<and> (\<exists>s. succ va' = Some s \<and> l_id s = n)
    \<and> (\<exists>q. pred vn' = Some q \<and> l_id q = a) \<and> (\<exists>s. succ vn' = Some s \<and> l_id s = b)"
proof -
  note pf = place_facts [OF assms(2)]
  have v: "myID va = a" and n: "myID vn = n" "live_tbl G (Suc k) (locations vn)" "n \<in> live_ids (locations vn)"
    "live_ids (locations vn) \<subseteq> insert n N" "tbl_ok G (locations vn)"
    using assms(1,6) live_tbl_ok by (auto simp: member_def)
  obtain q where q: "pred vn = Some q" "precedes (live_ids (locations vn)) n (l_id q)" "G q"
    using closestpredloc_precedes [OF n(5) pf(3)] n(1,3) by (auto simp: pred_def)
  have qn: "l_id q \<noteq> n" using q(2) assms(7) pf(9) [OF pf(5)] by (auto simp: precedes_def)
  then have qN: "l_id q \<in> N" using q(2) n(4) by (auto simp: precedes_def)
  let ?va = "va\<lparr>successors := (successors va)\<lparr>sl_continuous := 0\<rparr>\<rparr>"
  have sa: "succ ?va = Some s" using assms(8) by (simp add: succ_def)
  have sn: "\<exists>s. succ w = Some s \<and> l_id s = b" if "live_tbl G j (locations w)" "myID w = n" "b \<in> live_ids (locations w)"
    "live_ids (locations w) \<subseteq> insert n N" "n \<in> live_ids (locations w)" for w j
    using succ_is [OF that(1), of b] that pf by blast
  show ?thesis
  proof (cases "l_id q = a")
    case True
    then have "stab_round now coins wire va vn = Some (?va, vn)"
      using assms(4,5,8,9) q(1,3) v by (simp add: stab_round_def stabilize_succ_def stabilize_getpred_cb_def Let_def)
    then show ?thesis using True q(1) sa assms(7,9) sn [OF n(2,1) assms(7) n(4,3)] by auto
  next
    case False
    let ?l = "wire (my_location va)"
    have l: "l_id ?l = a" "good_node G ?l" using v assms(1) pf(1) by (auto simp: good_node_def member_def)
    have bt: "between (l_id q) n a" "\<not> betweenleftincl a n (l_id q)" using place_between(3) [OF assms(2) qN False] by auto
    have "precedes (insert a (live_ids (locations vn))) n a"
      using n(4) pf(9) [OF pf(4)] pf(9) by (auto simp: precedes_def)
    then obtain vn' where vn': "donotify now coins ?l vn = Some vn'" "member G k (insert a (insert n N)) n vn'" "\<exists>q. pred vn' = Some q \<and> l_id q = a"
      "live_ids (locations vn') = insert a (live_ids (locations vn))"
      using notify_step [OF assms(6), of ?l now coins] l q(2) bt(1) by auto
    have "stab_round now coins wire va vn = Some (?va, vn')"
      using assms(4,5,8,9) q(1,3) v False bt(2) vn'(1) n(1)
      by (simp add: stab_round_def stabilize_succ_def stabilize_getpred_cb_def Let_def)
    moreover have "\<exists>s. succ vn' = Some s \<and> l_id s = b"
      using sn [of k vn'] vn'(2,4) assms(7) n(3,4) pf(4) by (auto simp: member_def)
    ultimately show ?thesis using vn'(3) sa assms(9) by auto
  qed
qed

lemma join_neighbours:
  assumes "place N a n b"
    and "member G 1 N a va" "b \<in> live_ids (locations va)" "oldsucc (successors va) = b" "sl_continuous (successors va) = 0"
    and "member G 1 N b vb" "a \<in> live_ids (locations vb)"
    and "member G (1 + length nlist) {n} n vn"
    and "\<forall>l \<in> set nlist. good_node G l \<and> l_id l \<in> insert n N" "b \<in> l_id ` set nlist"
  shows "\<exists>va' vn' vb'. join_ring now coins wire from nlist va vn vb = Some (va', vn', vb')
    \<and> map_option l_id (succ va') = Some n \<and> map_option l_id (pred vn') = Some a
    \<and> map_option l_id (succ vn') = Some b \<and> map_option l_id (pred vb') = Some n"
proof -
  note pf = place_facts [OF assms(1)]
  obtain vn1 where j: "join_getsucc_cb now coins wire from (Reply nlist) vn = Some (vn1, [Notify b (wire (my_location vn))], Some True)"
    "member G (Suc 0) (insert n N) n vn1" "b \<in> live_ids (locations vn1)"
    using join_step [of 0 nlist n vn N b a now coins] assms(1,8-10) by auto
  let ?l = "wire (my_location vn)"
  have l: "l_id ?l = n" "good_node G ?l" using assms(8) pf(3) by (auto simp: good_node_def member_def)
  have vb: "live_ids (locations vb) \<subseteq> N" "myID vb = b" using assms(6) by (auto simp: member_def)
  have "precedes (live_ids (locations vb)) b a" using assms(7) vb(1) place_before_b(1) [OF assms(1)] by (auto simp: precedes_def)
  moreover have "precedes (insert n (live_ids (locations vb))) b n"
    using vb(1) place_before_b(2) [OF assms(1)] by (auto simp: precedes_def)
  ultimately obtain vb1 p where b: "donotify now coins ?l vb = Some vb1" "member G 0 (insert n N) b vb1" "pred vb1 = Some p" "l_id p = n" "G p"
    using notify_step [of 0 N b vb ?l now coins] assms(6) l place_between(1) [OF assms(1)] by auto
  obtain va1 s where a: "stab_round now coins wire va vb1 = Some (va1, vb1)" "member G 0 (insert n N) a va1" "n \<in> live_ids (locations va1)"
    "oldsucc (successors va1) = n" "sl_continuous (successors va1) = 0" "succ va1 = Some s" "l_id s = n"
    using first_round [OF assms(2,1,3-5) b(3-5), of now coins] by blast
  obtain va2 vn2 where "stab_round now coins wire va1 vn1 = Some (va2, vn2)" "\<exists>s. succ va2 = Some s \<and> l_id s = n"
    "\<exists>q. pred vn2 = Some q \<and> l_id q = a" "\<exists>s. succ vn2 = Some s \<and> l_id s = b"
    using second_round [OF a(2) assms(1) a(3-5) j(2,3)  a(6,7), of now coins] by blast
  then show ?thesis using j(1) b(1,3,4) a(1) vb(2) by (auto simp: join_ring_def)
qed

end

text \<open>
  C21: joining works. Let a new node \<open>n\<close> have its place between two different neighbours \<open>a\<close> and \<open>b\<close> of a network without failures: the
  three nodes know only nodes of the network, themselves among them and the new one only itself, all alive and all sound (an
  identifier is the hash of the node's address in dotted decimal, its port and its number, both of which fit 16 bits), with room for
  one more node in the tables of \<open>a\<close> and \<open>b\<close> and for one more than the lookup returned in that of \<open>n\<close>. Let \<open>a\<close> know \<open>b\<close>, which it last
  saw as its successor, and have no call of its continuous round open, let \<open>b\<close> know \<open>a\<close>, and let the lookup have returned \<open>b\<close>,
  and otherwise only nodes of the network or \<open>n\<close>, all alive and sound. Then the join, the notification it sends and two rounds of \<open>a\<close>
  succeed, nodes being sent as \<^verbatim>\<open>fill_node\<close> writes and \<^verbatim>\<open>make_chord_node\<close> reads them, and afterwards all four pointers are right:
  the successor of \<open>a\<close> is \<open>n\<close>, the predecessor of \<open>n\<close> is \<open>a\<close>, the successor of \<open>n\<close> is \<open>b\<close>, and the predecessor of \<open>b\<close> is \<open>n\<close>.
\<close>

theorem join_integrates:
  assumes "place N a n b"
    and "member (sound E) 1 N a va" "b \<in> live_ids (locations va)" "oldsucc (successors va) = b" "sl_continuous (successors va) = 0"
    and "member (sound E) 1 N b vb" "a \<in> live_ids (locations vb)"
    and "member (sound E) (1 + length nlist) {n} n vn"
    and "\<forall>l \<in> set nlist. good_node (sound E) l \<and> l_id l \<in> insert n N" "b \<in> l_id ` set nlist"
  shows "\<exists>va' vn' vb'. join_ring now coins (wire_loc E now) from nlist va vn vb = Some (va', vn', vb')
    \<and> map_option l_id (succ va') = Some n \<and> map_option l_id (pred vn') = Some a
    \<and> map_option l_id (succ vn') = Some b \<and> map_option l_id (pred vb') = Some n"
  using assms by (rule msg.join_neighbours)

definition one_table :: "skiplist \<Rightarrow> locationtable" where
  "one_table s = (new_locationtable 10)\<lparr>wraps := \<lambda>_. \<lparr>loc = two_loc 9, lw_n = 9, is_pinned = False\<rparr>, fresh := 1,
     locs := [0], cachedlocs := [0], loclist := s\<rparr>"

lemma one_table_ok: "\<exists>s. lt_core (one_table s) [0] \<and> lt_pins (one_table s) [0] []"
proof -
  let ?k = "\<lambda>_ :: addr. 9 :: chordID"
  have "sorted_elems ?k (new_skiplist (\<lambda>_. blank)) []" by (simp add: new_sorted_elems blank_def)
  from insert_sorted_elems [OF this, of 0 "[]"] obtain s where so: "sorted_elems ?k s [0]"
    by (auto simp: elems_below_def elems_from_def)
  have k: "loc_key (one_table s) = ?k" by (simp add: loc_key_def [abs_def] one_table_def)
  have "lt_core (one_table s) [0]"
    unfolding lt_core_def k using so by (simp add: one_table_def)
  moreover have "lt_pins (one_table s) [0] []"
    unfolding lt_pins_def by (simp add: one_table_def new_locationtable_def new_sorted_elems blank_def)
  ultimately show ?thesis by blast
qed

theorem join_integrates_witness:
  "\<exists>va vn vb va' vn' vb'. join_ring 20 (\<lambda>_. []) (wire_loc two_env 20) 20 [two_loc 20] va vn vb = Some (va', vn', vb')
     \<and> myID vn = 9 \<and> map_option l_id (succ va') = Some 9 \<and> map_option l_id (pred vb') = Some 9"
proof -
  obtain s where s: "lt_core (two_table s) [0, 1]" "lt_pins (two_table s) [0, 1] []" using two_table_ok by blast
  obtain r where r: "lt_core (one_table r) [0]" "lt_pins (one_table r) [0] []" using one_table_ok by blast
  have n: "20 < ring" by (simp add: ring_def NBIT_def del: two_NBIT)
  have ids: "is_id 7" "is_id 9" "is_id 20" using n by (simp_all add: is_id_def)
  have l: "live_ids (two_table s) = {7, 20}" by (auto simp: live_ids_core [OF s(1)] two_keys)
  have k1: "loc_key (one_table r) = (\<lambda>_. 9)" "live (one_table r) = (\<lambda>_. True)"
    by (auto simp: loc_key_def live_def one_table_def)
  have l1: "live_ids (one_table r) = {9}" by (auto simp: live_ids_core [OF r(1)] k1)
  have t: "live_tbl (sound two_env) 1 (two_table s)" unfolding live_tbl_def
    by (intro exI [of _ "[0, 1]"] exI [of _ "[]"]) (use s ids two_sound in \<open>simp add: two_keys\<close>, simp add: two_table_def new_locationtable_def)
  have t1: "live_tbl (sound two_env) 2 (one_table r)" unfolding live_tbl_def
    by (intro exI [of _ "[0]"] exI [of _ "[]"]) (use r ids two_sound in \<open>simp add: k1\<close>, simp add: one_table_def new_locationtable_def)
  have p: "place {7, 20} 7 9 20" using ids n by (simp add: place_def precedes_def follows_def ring_dist_eq)
  let ?w = "wire_loc two_env 20"
  define va vb vn where d: "va = (two_net s 7)\<lparr>successors := new_succ_list 4 20\<rparr>" "vb = two_net s 20"
    "vn = (two_net s 9)\<lparr>locations := one_table r\<rparr>"
  have "member (sound two_env) 1 {7, 20} 7 va" "member (sound two_env) 1 {7, 20} 20 vb" "member (sound two_env) (1 + length [two_loc 20]) {9} 9 vn"
    using t t1 ids l l1 two_sound by (simp_all add: member_def d two_net_def numeral_2_eq_2)
  moreover have "20 \<in> live_ids (locations va)" "7 \<in> live_ids (locations vb)" "oldsucc (successors va) = 20" "sl_continuous (successors va) = 0"
    using l by (simp_all add: d two_net_def new_succ_list_def)
  moreover have "\<forall>l \<in> set [two_loc 20]. good_node (sound two_env) l \<and> l_id l \<in> insert 9 {7, 20}" "20 \<in> l_id ` set [two_loc 20]"
    using ids two_sound by (simp_all add: good_node_def)
  ultimately obtain va' vn' vb' where "join_ring 20 (\<lambda>_. []) ?w 20 [two_loc 20] va vn vb = Some (va', vn', vb')"
    "map_option l_id (succ va') = Some 9" "map_option l_id (pred vb') = Some 9"
    using join_integrates [OF p, of two_env va vb "[two_loc 20]" vn 20 "\<lambda>_. []" 20] by blast
  moreover have "myID vn = 9" by (simp add: d two_net_def)
  ultimately show ?thesis by blast
qed

subsection \<open>Merging successor lists\<close>

definition table_inv :: "vnode \<Rightarrow> bool" where
  "table_inv v \<longleftrightarrow> (\<exists>xs ps. lt_core (locations v) xs \<and> lt_pins (locations v) xs ps)"

lemma insert_node_total:
  assumes "table_inv v"
  shows "\<exists>t r. insert_node now coins l v = Some (v\<lparr>locations := t\<rparr>, r) \<and> table_inv (v\<lparr>locations := t\<rparr>)"
proof (cases "location.vnode l < 0")
  case True
  then show ?thesis using assms by (auto simp: insert_node_def insert_loc_def intro!: exI [of _ "locations v"])
next
  case False
  obtain xs ps where c: "lt_core (locations v) xs" "lt_pins (locations v) xs ps" using assms by (auto simp: table_inv_def)
  obtain t r xs' where "realinsert now (coins (l_id l)) l (locations v) = Some (t, r)" "lt_core t xs'" "lt_pins t xs' ps"
    using realinsert_ok [OF c, of l now "coins (l_id l)"] False by auto
  then show ?thesis using False by (auto simp: insert_node_def insert_loc_def table_inv_def)
qed

lemma set_loc_inv:
  assumes "table_inv v" "l_id l = l_id (loc (wraps (locations v) a))" "location.vnode l = location.vnode (loc (wraps (locations v) a))"
  shows "table_inv (v\<lparr>locations := set_loc a l (locations v)\<rparr>)"
proof -
  let ?t = "locations v"
  have k: "loc_key (set_loc a l ?t) = loc_key ?t" "pin_key (set_loc a l ?t) = pin_key ?t"
    by (auto simp: loc_key_def pin_key_def set_loc_def fun_eq_iff)
  obtain xs ps where "lt_core ?t xs" "lt_pins ?t xs ps" using assms(1) by (auto simp: table_inv_def)
  then have "lt_core (set_loc a l ?t) xs" "lt_pins (set_loc a l ?t) xs ps"
    using assms(2,3) by (auto simp: lt_core_def lt_pins_def k) (auto simp: set_loc_def lt_core_def)
  then show ?thesis by (auto simp: table_inv_def)
qed

lemma update_chord_node_kept:
  "l_id (update_chord_node now l a k b) = l_id l" "location.vnode (update_chord_node now l a k b) = location.vnode l"
  by (auto simp: update_chord_node_def get_loss_def Let_def split: prod.splits)

lemma update_known_inv: "table_inv v \<Longrightarrow> table_inv (update_known now n v)"
  using set_loc_inv update_chord_node_kept by (simp add: update_known_def split: option.split)

lemma update_known_kept [simp]:
  "my_location (update_known now n v) = my_location v" "successors (update_known now n v) = successors v"
  by (simp_all add: update_known_def split: option.split)

lemma small_updates [simp]:
  "my_location (add_backoff d v) = my_location v" "my_location (set_stable b v) = my_location v"
  "locations (add_backoff d v) = locations v" "locations (set_stable b v) = locations v"
  "sl_backoff (successors (add_backoff d v)) = sl_backoff (successors v) + d"
  "sl_backoff (successors (set_stable b v)) = sl_backoff (successors v)"
  "table_inv (add_backoff d v) = table_inv v" "table_inv (set_stable b v) = table_inv v"
  by (simp_all add: add_backoff_def set_stable_def table_inv_def)

lemma between_total:
  "is_id m \<Longrightarrow> is_id a \<Longrightarrow> is_id b \<Longrightarrow> a \<noteq> b \<Longrightarrow> between m a b \<or> between m b a"
  by (auto simp: between_def is_id_def)

lemma merge_succs_total:
  assumes "table_inv v" "is_id (myID v)" "\<forall>l \<in> set ss \<union> set ns. is_id (l_id l)"
  shows "\<exists>left rest v' cs. merge_succs now coins ss ns (v, calls) = Some (left, rest, v', calls @ map (\<lambda>l. Ping (l_id l)) cs)
    \<and> (left = [] \<or> rest = []) \<and> table_inv v' \<and> my_location v' = my_location v
    \<and> sl_backoff (successors v') = sl_backoff (successors v) + int (length cs) \<and> set cs \<subseteq> set ss \<and> set left \<subseteq> set ss
    \<and> (\<forall>l \<in> set ss. l_id l \<in> l_id ` set ns \<or> l \<in> set cs \<or> l \<in> set left)"
  using assms
proof (induction ss arbitrary: ns v calls)
  case Nil
  then show ?case by (cases ns) auto
next
  case (Cons s ss)
  note outer = Cons.IH
  show ?case using Cons.prems
  proof (induction ns arbitrary: v)
    case Nil
    then show ?case by auto
  next
    case (Cons n ns)
    show ?case
    proof (cases "l_id s = l_id n")
      case True
      then show ?thesis
        using outer [of "update_known now n v" ns calls] Cons.prems update_known_inv by fastforce
    next
      case False
      then consider "between (myID v) (l_id n) (l_id s)" | "\<not> between (myID v) (l_id n) (l_id s)" "between (myID v) (l_id s) (l_id n)"
        using between_total [of "myID v" "l_id n" "l_id s"] Cons.prems by auto
      then show ?thesis
      proof cases
        case 1
        obtain left rest v' cs where "merge_succs now coins ss (n # ns) (add_backoff 1 v, calls @ [Ping (l_id s)])
            = Some (left, rest, v', (calls @ [Ping (l_id s)]) @ map (\<lambda>l. Ping (l_id l)) cs)"
          "left = [] \<or> rest = []" "table_inv v'" "my_location v' = my_location v"
          "sl_backoff (successors v') = sl_backoff (successors v) + 1 + int (length cs)" "set cs \<subseteq> set ss" "set left \<subseteq> set ss"
          "\<forall>l \<in> set ss. l_id l \<in> l_id ` set (n # ns) \<or> l \<in> set cs \<or> l \<in> set left"
          using outer [of "add_backoff 1 v" "n # ns" "calls @ [Ping (l_id s)]"] Cons.prems by auto
        then show ?thesis using False 1
          by (intro exI [of _ left] exI [of _ rest] exI [of _ v'] exI [of _ "s # cs"]) auto
      next
        case 2
        obtain t r where t: "insert_node now coins n v = Some (v\<lparr>locations := t\<rparr>, r)" "table_inv (v\<lparr>locations := t\<rparr>)"
          using insert_node_total [OF Cons.prems(1)] by blast
        define w where "w = (if case r of None \<Rightarrow> True | Some l \<Rightarrow> \<not> is_alive l then v\<lparr>locations := t\<rparr> else set_stable False (v\<lparr>locations := t\<rparr>))"
        have w: "table_inv w" "my_location w = my_location v" "sl_backoff (successors w) = sl_backoff (successors v)"
          using t(2) by (simp_all add: w_def split: option.split)
        have "merge_succs now coins (s # ss) (n # ns) (v, calls) = merge_succs now coins (s # ss) ns (w, calls)"
          using False 2 t(1) by (simp add: w_def)
        then show ?thesis using Cons.IH [of w] Cons.prems w by fastforce
      qed
    qed
  qed
qed

lemma append_succs_total:
  assumes "table_inv v" "check \<longrightarrow> ns = []"
  shows "\<exists>v'. append_succs now coins check ns c v = Some v' \<and> table_inv v' \<and> sl_backoff (successors v') = sl_backoff (successors v)"
  using assms
proof (induction ns arbitrary: c v)
  case (Cons n ns)
  then have nc: "\<not> check" by simp
  obtain t r where t: "insert_node now coins n v = Some (v\<lparr>locations := t\<rparr>, r)" "table_inv (v\<lparr>locations := t\<rparr>)"
    using insert_node_total [OF Cons.prems(1)] by blast
  show ?case
    using Cons.prems(1) nc t Cons.IH [of "v\<lparr>locations := t\<rparr>" c] Cons.IH [of "set_stable False (v\<lparr>locations := t\<rparr>)" "c + 1"]
    by (cases r) auto
qed simp

text \<open>
  C25: merging the successor's list into the own one always ends: one of the three cases of the loop applies to
  every pair of different nodes, and the assertion behind it holds. The counter of outstanding calls
  goes up by exactly the number of pings sent. Only nodes of the own list are pinged, and every one of them that the successor did
  not report is.
\<close>

theorem succlist_merge_accounts:
  assumes "table_inv v" "is_id (myID v)" "succs v = Some succlist" "nlist \<noteq> []" "l_id (hd nlist) = s"
    and "\<forall>l \<in> set succlist \<union> set nlist. is_id (l_id l)"
  shows "\<exists>v' calls. stabilize_getsucclist_cb now coins s (Some nlist) v = Some (v', calls) \<and> table_inv v'
    \<and> sl_backoff (successors v') = sl_backoff (successors v) - 1 + int (length calls)
    \<and> (\<forall>c \<in> set calls. \<exists>l \<in> set succlist. c = Ping (l_id l))
    \<and> (\<forall>l \<in> set succlist. l_id l \<in> l_id ` set (butlast nlist) \<or> Ping (l_id l) \<in> set calls)"
proof -
  let ?v = "add_backoff (-1) v"
  have n: "nsucc_max (successors ?v) = nsucc_max (successors v)" by (simp add: add_backoff_def)
  have "num_succ ?v = num_succ v" unfolding num_succ_def small_updates n by (rule refl)
  then have ss: "succs ?v = Some succlist" using assms(3) by (simp add: succs_def succ_def)
  have "\<forall>l \<in> set succlist \<union> set (butlast nlist). is_id (l_id l)" using assms(6) in_set_butlastD by fastforce
  then obtain left rest v1 cs where m: "merge_succs now coins succlist (butlast nlist) (?v, []) = Some (left, rest, v1, map (\<lambda>l. Ping (l_id l)) cs)"
    "left = [] \<or> rest = []" "table_inv v1" "sl_backoff (successors v1) = sl_backoff (successors v) - 1 + int (length cs)"
    "set cs \<subseteq> set succlist" "set left \<subseteq> set succlist"
    "\<forall>l \<in> set succlist. l_id l \<in> l_id ` set (butlast nlist) \<or> l \<in> set cs \<or> l \<in> set left"
    using merge_succs_total [of ?v succlist "butlast nlist" now coins "[]"] assms(1,2) by auto
  obtain v2 where "append_succs now coins (left \<noteq> []) rest (length succlist) (add_backoff (int (length left)) v1) = Some v2" "table_inv v2"
    "sl_backoff (successors v2) = sl_backoff (successors v) - 1 + int (length cs) + int (length left)"
    using append_succs_total [of "add_backoff (int (length left)) v1" "left \<noteq> []" rest now coins "length succlist"] m(2-4) by auto
  then have "stabilize_getsucclist_cb now coins s (Some nlist) v = Some (v2, map (\<lambda>l. Ping (l_id l)) (cs @ left))"
    using ss m(1) assms(4,5) by (simp add: stabilize_getsucclist_cb_def Let_def)
  then show ?thesis using \<open>table_inv v2\<close> \<open>sl_backoff (successors v2) = _\<close> m(5-7) by auto
qed

theorem succlist_merge_accounts_witness:
  "\<exists>v v' calls. stabilize_getsucclist_cb 20 (\<lambda>_. []) 20 (Some [two_loc 20, two_loc 7]) v = Some (v', calls)
     \<and> sl_backoff (successors v') = sl_backoff (successors v) - 1 + int (length calls)"
proof -
  obtain s where s: "lt_core (two_table s) [0, 1]" "lt_pins (two_table s) [0, 1] []" using two_table_ok by blast
  have ids: "is_id 7" "is_id 20" by (simp_all add: is_id_def ring_def NBIT_def del: two_NBIT)
  let ?v = "two_net s 7"
  have l: "live_ids (two_table s) = {7, 20}" by (auto simp: live_ids_core [OF s(1)] two_keys)
  have t: "tbl_ok (\<lambda>_. True) (two_table s)" unfolding tbl_ok_def using s(1) ids by (intro exI [of _ "[0, 1]"]) (simp add: two_keys)
  have v: "table_inv ?v" "myID ?v = 7" using s by (auto simp: table_inv_def two_net_def two_loc_def new_location_def)
  have nt: "nsucc_max (successors ?v) = 4" "locations ?v = two_table s" by (simp_all add: two_net_def new_succ_list_def)
  obtain a where a: "succ ?v = Some a" "l_id a \<in> live_ids (two_table s)"
    using closestsuccloc_follows [OF t, of "incID 7"] v(2) l nt ids by (auto simp: succ_def incID_mod follows_def)
  have lc: "locs (two_table s) = [0, 1]" by (simp add: two_table_def)
  have "usablenodes (two_table s) = Some 2"
    using count_good_core [OF s(1), of "[0, 1]"] lc by (simp add: usablenodes_def two_keys)
  then have "num_succ ?v = Some 1" using nt by (simp add: num_succ_def)
  then have "succs ?v = Some [a]" using a(1) nt by (simp add: succs_def)
  moreover have "\<forall>x \<in> set [a] \<union> set [two_loc 20, two_loc 7]. is_id (l_id x)" "l_id (hd [two_loc 20, two_loc 7]) = 20"
    using ids a(2) l by (auto simp: two_loc_def new_location_def)
  moreover have "is_id (myID ?v)" using v(2) ids by simp
  ultimately show ?thesis
    using succlist_merge_accounts [OF v(1), of "[a]" "[two_loc 20, two_loc 7]" 20 20 "\<lambda>_. []"] by blast
qed

end
