(* ===== verification/Chord_Estimate.thy ===== *)
theory Chord_Estimate
  imports Chord_Join
begin

text \<open>
  What a round of the stabiliser reads of the table and divides by: the neighbours, the estimate of the number of nodes
  (\<^verbatim>\<open>estimate_nnodes\<close> of \<^verbatim>\<open>chord/succ_list.C\<close>) and the number of virtual nodes (\<^verbatim>\<open>replace_estimate\<close> of \<^verbatim>\<open>utils/locationtable.C\<close>). On a
  well-formed table with a live node all of them are there and no divisor is 0.
\<close>

subsection \<open>The estimate of the number of nodes\<close>

text \<open>The number of nodes is estimated from the distance to the last successor, which is divided by their number and then divides the size
  of the ring. Both divisions are defined: \<open>k\<close> steps along the live nodes lead at least \<open>k\<close> identifiers away.\<close>

lemma walk_far:
  assumes "tbl_ok G t" "is_id m"
  shows "is_id (l_id cur) \<Longrightarrow> k \<le> card {x \<in> live_ids t. ring_dist m (l_id cur) < ring_dist m x}
    \<Longrightarrow> \<exists>ls. succ_walk t k cur = Some ls \<and> ls \<noteq> [] \<and> is_id (l_id (last ls)) \<and> ring_dist m (l_id cur) + int k \<le> ring_dist m (l_id (last ls))"
proof (induction k arbitrary: cur)
  case (Suc k)
  let ?D = "ring_dist m (l_id cur)" and ?S = "\<lambda>y. {x \<in> live_ids t. ring_dist m y < ring_dist m x}"
  have ids: "\<And>x. x \<in> live_ids t \<Longrightarrow> is_id x" using rt.known_ids [OF assms(1)] .
  have fin: "finite (live_ids t)" by (simp add: live_ids_def)
  obtain x where x: "x \<in> ?S (l_id cur)" using Suc.prems(2) by (metis card_eq_0_iff ex_in_conv not_less_eq_eq le0)
  have D: "0 \<le> ?D" "?D + 1 < ring" using x dist_bounds [of m x] dist_bounds [of m "l_id cur"] by auto
  have at: "incID (l_id cur) = (m + (?D + 1)) mod ring"
    using incID_mod [OF Suc.prems(1)] by (simp add: ring_dist_def) (metis add.assoc add.commute diff_add_cancel mod_add_left_eq)
  obtain l where l: "closestsuccloc (incID (l_id cur)) t = Some l" "follows (live_ids t) (incID (l_id cur)) (l_id l)"
    using closestsuccloc_follows [OF assms(1), of "incID (l_id cur)"] x at by auto
  have lid: "is_id (l_id l)" "l_id l \<in> live_ids t" using l(2) ids by (auto simp: follows_def)
  have shift: "ring_dist (incID (l_id cur)) y = (if ?D < ring_dist m y then ring_dist m y - ?D - 1 else ring_dist m y - ?D - 1 + ring)"
    if "y \<in> live_ids t" for y
    using that D assms(2) ids dist_bounds [of m y] by (auto simp: at dist_shift)
  have min: "ring_dist (incID (l_id cur)) (l_id l) \<le> ring_dist (incID (l_id cur)) y" if "y \<in> live_ids t" for y
    using l(2) that by (simp add: follows_def)
  have S: "l_id l \<in> ?S (l_id cur)" using min [of x] x lid shift [of x] shift [of "l_id l"] dist_bounds [of m x] dist_bounds [of m "l_id l"] by (auto split: if_splits)
  have "?S (l_id cur) \<subseteq> insert (l_id l) (?S (l_id l))"
  proof
    fix y assume y: "y \<in> ?S (l_id cur)"
    then have "ring_dist m (l_id l) \<le> ring_dist m y" using min [of y] S shift [of y] shift [of "l_id l"] by auto
    then show "y \<in> insert (l_id l) (?S (l_id l))" using y lid ids dist_inj [OF assms(2) lid(1), of y] by force
  qed
  then have "card (?S (l_id cur)) \<le> card (insert (l_id l) (?S (l_id l)))" using fin by (intro card_mono) auto
  then have "k \<le> card (?S (l_id l))" using Suc.prems(2) card_insert_le_m1 [of _ "?S (l_id l)"] fin by (simp add: card_insert_if split: if_splits)
  from Suc.IH [OF lid(1) this] obtain ls where ls: "succ_walk t k l = Some ls" "ls \<noteq> []" "is_id (l_id (last ls))"
    "ring_dist m (l_id l) + int k \<le> ring_dist m (l_id (last ls))" by auto
  then show ?case using l(1) S by auto
qed simp

text \<open>What a round of the stabiliser reads: some known node is alive, and the identifiers are those of the ring.\<close>

definition ring_nodes :: "vnode \<Rightarrow> bool" where
  "ring_nodes v \<longleftrightarrow> is_id (myID v) \<and> (\<forall>a \<in> set (locs (locations v)). is_id (loc_key (locations v) a)) \<and> live_ids (locations v) \<noteq> {}"

lemma ring_nodes_tbl: "table_inv v \<Longrightarrow> ring_nodes v \<Longrightarrow> tbl_ok (\<lambda>_. True) (locations v)"
  by (auto simp: ring_nodes_def table_inv_def tbl_ok_def lt_core_def)

lemma live_count:
  assumes "lt_core t xs"
  shows "usablenodes t = Some (card (live_ids t))"
proof -
  have "inj_on (loc_key t) {a \<in> set xs. live t a}"
    using keys_inc_inj [OF core_keys [OF assms]] by (rule inj_on_subset) auto
  then have "card (live_ids t) = card {a \<in> set xs. live t a}" by (simp add: live_ids_core [OF assms] card_image)
  also have "{a \<in> set xs. live t a} = set (filter (live t) (locs t))" using assms by (auto simp: lt_core_def)
  also have "card \<dots> = length (filter (live t) (locs t))" using assms by (intro distinct_card) (simp add: lt_core_def)
  finally show ?thesis using count_good_core [OF assms, of "locs t"] assms by (simp add: usablenodes_def lt_core_def)
qed

lemma estimate_total:
  assumes "table_inv v" "ring_nodes v"
  shows "\<exists>n. estimate_nnodes v = Some n"
proof -
  let ?t = "locations v" and ?m = "myID v"
  have t: "tbl_ok (\<lambda>_. True) ?t" and id: "is_id ?m" using ring_nodes_tbl [OF assms] assms(2) by (auto simp: ring_nodes_def)
  obtain xs where "lt_core ?t xs" using assms(1) by (auto simp: table_inv_def)
  then have u: "usablenodes ?t = Some (card (live_ids ?t))" by (rule live_count)
  obtain k where k: "num_succ v = Some k" by (simp add: num_succ_def u Let_def)
  have kc: "k \<le> card (live_ids ?t) - 1" using k by (simp add: num_succ_def u Let_def split: if_splits)
  have "{x \<in> live_ids ?t. ring_dist ?m ?m < ring_dist ?m x} = live_ids ?t - {?m}"
    using rt.known_ids [OF t] dist_0 [OF id] dist_bounds [of ?m] id by (auto simp: order_less_le)
  moreover have "card (live_ids ?t) - 1 \<le> card (live_ids ?t - {?m})"
    by (simp add: card_Diff_singleton_if)
  ultimately obtain ls where ls: "succ_walk ?t k (my_location v) = Some ls" "is_id (l_id (last ls))" "int k \<le> ring_dist ?m (l_id (last ls))"
    using walk_far [OF t id, of "my_location v" k] kc id by (auto simp: ring_dist_def)
  have "ring_dist ?m (l_id (last ls)) \<le> diff ?m (l_id (last ls))"
    using id ls(2) by (auto simp: diff_def ring_dist_eq push_NBIT is_id_def Let_def)
  then have "diff ?m (l_id (last ls)) div int k \<noteq> 0" if "0 < k" using ls(3) that pos_imp_zdiv_pos_iff [of "int k" "diff ?m (l_id (last ls))"] by simp
  then show ?thesis using k ls(1) by (simp add: estimate_nnodes_def Let_def)
qed

subsection \<open>The number of virtual nodes\<close>

text \<open>No operation but \<^verbatim>\<open>incvnodes\<close> changes it, so that \<^verbatim>\<open>replace_estimate\<close> never divides by 0.\<close>

lemma nvnodes_set [simp]: "nvnodes (set_pinned a b t) = nvnodes t" "nvnodes (set_loc a l t) = nvnodes t"
  by (simp_all add: set_pinned_def set_loc_def)

lemma nvnodes_unpin [simp]: "nvnodes (fold (\<lambda>a. set_pinned a False) as t) = nvnodes t"
  by (induction as arbitrary: t) simp_all

lemma nvnodes_process_loop: "process_loop forth todo k cur t = Some t' \<Longrightarrow> nvnodes t' = nvnodes t"
  by (induction forth todo k cur t rule: process_loop.induct) (auto simp: Let_def split: bind_splits if_splits)

lemma nvnodes_process_pin: "process_pin c num t = Some t' \<Longrightarrow> nvnodes t' = nvnodes t"
  by (auto simp: process_pin_def dest: nvnodes_process_loop split: bind_splits)

lemma nvnodes_pin_selves: "pin_selves cs t = Some t' \<Longrightarrow> nvnodes t' = nvnodes t"
  by (induction cs arbitrary: t) (auto simp: Let_def split: bind_splits if_splits)

lemma nvnodes_process_pins: "process_pins cs t = Some t' \<Longrightarrow> nvnodes t' = nvnodes t"
  by (induction cs arbitrary: t) (auto simp: Let_def dest!: nvnodes_process_pin split: bind_splits if_splits)

lemma nvnodes_figure_pins: "figure_pins t = Some t' \<Longrightarrow> nvnodes t' = nvnodes t"
  by (auto simp: figure_pins_def Let_def dest!: nvnodes_pin_selves nvnodes_process_pins split: bind_splits if_splits)

lemma nvnodes_evict_pass: "evict_pass all bad cs n t = Some (t', n') \<Longrightarrow> nvnodes t' = nvnodes t"
  by (induction cs arbitrary: n t) (auto simp: remove_lw_def split: bind_splits if_splits)

lemma nvnodes_evict: "evict n t = Some t' \<Longrightarrow> nvnodes t' = nvnodes t"
  by (auto simp: evict_def Let_def dest!: nvnodes_figure_pins nvnodes_evict_pass split: bind_splits if_splits)

lemma nvnodes_lookup: "lookup x t = (t', r) \<Longrightarrow> nvnodes t' = nvnodes t"
  by (auto simp: lookup_def split: option.splits)

lemma nvnodes_realinsert: "realinsert now coins l t = Some (t', r) \<Longrightarrow> nvnodes t' = nvnodes t"
  by (auto simp: realinsert_def Let_def dest!: nvnodes_evict nvnodes_lookup split: prod.splits option.splits bind_splits if_splits)

lemma nvnodes_insert: "insert_loc now coins l t = Some (t', r) \<Longrightarrow> nvnodes t' = nvnodes t"
  by (auto simp: insert_loc_def dest: nvnodes_realinsert split: bind_splits if_splits)

lemma pin_kept: "pin coins x num t = Some t' \<Longrightarrow> nvnodes t' = nvnodes t \<and> wraps t' = wraps t \<and> locs t' = locs t"
  by (auto simp: pin_def Let_def split: bind_splits option.splits)

lemma pin_all_kept: "pin_all coins qs t = Some t' \<Longrightarrow> nvnodes t' = nvnodes t \<and> wraps t' = wraps t \<and> locs t' = locs t"
  by (induction qs arbitrary: t) (auto dest!: pin_kept split: bind_splits)

subsection \<open>What a round reads\<close>

lemma neighbours_total:
  assumes "table_inv v" "ring_nodes v"
  shows "\<exists>s. succ v = Some s" "\<exists>p. pred v = Some p" "\<exists>f. finger v i = Some f"
proof -
  have t: "tbl_ok (\<lambda>_. True) (locations v)" "is_id (myID v)" "live_ids (locations v) \<noteq> {}"
    using ring_nodes_tbl [OF assms] assms(2) by (auto simp: ring_nodes_def)
  show "\<exists>s. succ v = Some s" using closestsuccloc_follows [OF t(1) _ t(3), of "incID (myID v)"] t(2) by (auto simp: succ_def incID_mod)
  show "\<exists>p. pred v = Some p" using closestpredloc_precedes [OF t] by (auto simp: pred_def)
  show "\<exists>f. finger v i = Some f" using closestsuccloc_follows [OF t(1) _ t(3), of "start v i"] by (auto simp: finger_def start_mod)
qed

lemma ring_nodes_small:
  "ring_nodes (v\<lparr>successors := sl\<rparr>) = ring_nodes v" "ring_nodes (v\<lparr>predecessors := pl\<rparr>) = ring_nodes v" "ring_nodes (upd_ft f v) = ring_nodes v"
  by (simp_all add: ring_nodes_def upd_ft_def)

lemma counts_small:
  "table_inv (v\<lparr>locations := (locations v)\<lparr>nnodessum := x, nnodes := y\<rparr>\<rparr>) = table_inv v"
  "ring_nodes (v\<lparr>locations := (locations v)\<lparr>nnodessum := x, nnodes := y\<rparr>\<rparr>) = ring_nodes v"
  unfolding table_inv_def ring_nodes_def live_ids_def
  by (simp_all add: lt_core_def lt_pins_def live_def [abs_def] loc_key_def [abs_def] pin_key_def [abs_def])

lemma table_inv_small: "table_inv (v\<lparr>successors := sl\<rparr>) = table_inv v" "table_inv (v\<lparr>predecessors := pl\<rparr>) = table_inv v" "table_inv (upd_ft f v) = table_inv v"
  by (simp_all add: table_inv_def upd_ft_def)

end
