(* ===== verification/Chord_Stabilize.thy ===== *)
theory Chord_Stabilize
  imports Chord_Estimate
begin

text \<open>
  The stabiliser of a node (\<^verbatim>\<open>chord/stabilize.C\<close>) and the node as a state machine: timers that fire, answers and
  failures of the calls under way in any order, and requests of other nodes. Each of the three structures counts its
  outstanding calls in unsigned integers and asserts that some of these counters are 0 before it starts a round; the machine shows
  that the counters are right at every moment. The random spread of the delays is left out; times are in milliseconds.
\<close>

subsection \<open>Timers\<close>

definition stabilize_decrease_timer :: nat where "stabilize_decrease_timer = 1000"
definition cts_timer_init :: nat where "cts_timer_init = 1000"
definition cts_timer_base :: nat where "cts_timer_base = 20000"
definition cts_timer_max :: nat where "cts_timer_max = 2 * cts_timer_base"
definition bo_timer_init :: nat where "bo_timer_init = 1000"
definition bo_timer_base :: nat where "bo_timer_base = 8000"
definition bo_timer_max :: nat where "bo_timer_max = 2 * bo_timer_base"

lemmas timer_defs = stabilize_decrease_timer_def cts_timer_init_def cts_timer_base_def cts_timer_max_def
  bo_timer_init_def bo_timer_base_def bo_timer_max_def

text \<open>The nearest multiple of \<open>2 ^ e\<close>, ties to the even one: a single-precision result has 24 significant bits.\<close>

definition round_bits :: "nat \<Rightarrow> nat \<Rightarrow> nat" where
  "round_bits e n =
     (let q = n div 2 ^ e; r = n mod 2 ^ e
      in (if 2 * r > 2 ^ e \<or> (2 * r = 2 ^ e \<and> odd q) then q + 1 else q) * 2 ^ e)"

function bit_length :: "nat \<Rightarrow> nat" where
  "bit_length n = (if n = 0 then 0 else 1 + bit_length (n div 2))"
  by pat_completeness auto
termination by (relation "measure id") auto

declare bit_length.simps [simp del]

text \<open>\<^verbatim>\<open>(int)(stabilize_slowdown_factor * t)\<close>: the factor, 1.2 in single precision, is 10066330 / 2^23.\<close>

definition slowdown :: "nat \<Rightarrow> nat" where
  "slowdown t = (let n = 10066330 * t in round_bits (bit_length n - 24) n div 2 ^ 23)"

record stabilize_manager =
  sm_stable :: bool
  continuous_tmo :: "nat option"
  backoff_tmo :: "nat option"
  continuous_timer :: nat
  backoff_timer :: nat

definition new_manager :: stabilize_manager where
  "new_manager = \<lparr>sm_stable = False, continuous_tmo = None, backoff_tmo = None, continuous_timer = 0, backoff_timer = 0\<rparr>"

subsection \<open>Calls under way\<close>

text \<open>The callback of a call, with the arguments bound in it.\<close>

datatype callback =
    GetpredCb chordID
  | GetsuccCb
  | GetsucclistCb chordID
  | GetsucclistCheck chordID
  | PredlistCb
  | FingerGetpredCb chordID nat
  | FindsuccCb nat
  | NotifyCb chordID
  | AlertCb
  | DoalertCb
  | FirstFingersCb
  | CheckDeadCb location int
  | JoinCb chordID

type_synonym calls = "(rpc \<times> callback) list"

definition notifies :: "rpc list \<Rightarrow> calls" where
  "notifies cs = map (\<lambda>c. (c, NotifyCb (case c of Notify n _ \<Rightarrow> n | _ \<Rightarrow> 0))) cs"

subsection \<open>The clients\<close>

definition succ_do_continuous :: "(location \<Rightarrow> location) \<Rightarrow> vnode \<Rightarrow> (vnode \<times> calls) option" where
  "succ_do_continuous wire v =
     do { (v, c) \<leftarrow> stabilize_succ wire v;
          Some (v, case c of GetPredecessor x \<Rightarrow> [(c, GetpredCb x)] | _ \<Rightarrow> notifies [c]) }"

definition pred_do_continuous :: "vnode \<Rightarrow> (vnode \<times> calls) option" where
  "pred_do_continuous v = do { (v, c) \<leftarrow> stabilize_pred v; Some (v, [(c, GetsuccCb)]) }"

definition succ_do_backoff :: "vnode \<Rightarrow> (vnode \<times> calls) option" where
  "succ_do_backoff v =
     do { (v, c) \<leftarrow> stabilize_succlist v;
          Some (v, [(c, GetsucclistCb (case c of GetSucclist s \<Rightarrow> s | _ \<Rightarrow> 0))]) }"

definition pred_do_backoff :: "vnode \<Rightarrow> (vnode \<times> calls) option" where
  "pred_do_backoff v = do { (v, c) \<leftarrow> stabilize_predlist v; Some (v, [(c, PredlistCb)]) }"

definition finger_cb :: "nat \<Rightarrow> rpc \<Rightarrow> callback" where
  "finger_cb i c = (case c of GetPredecessor n \<Rightarrow> FingerGetpredCb n i | _ \<Rightarrow> FindsuccCb i)"

definition finger_do_backoff :: "vnode \<Rightarrow> (vnode \<times> calls) option" where
  "finger_do_backoff v = do { (v, c) \<leftarrow> stabilize_finger v; Some (v, [(c, finger_cb (ft_f (fingertab v)) c)]) }"

definition sm_isstable :: "vnode \<Rightarrow> bool option" where
  "sm_isstable v =
     (if \<not> (stable_succlist (successors v) \<and> stable_succlist2 (successors v)) then Some False
      else do { p \<leftarrow> pred_isstable v;
                Some (p \<and> stable_fingers (fingertab v) \<and> stable_fingers2 (fingertab v)) })"

definition continuous_stabilizing :: "vnode \<Rightarrow> bool" where
  "continuous_stabilizing v \<longleftrightarrow> sl_continuous (successors v) > 0 \<or> pl_continuous (predecessors v) > 0"

definition backoff_stabilizing :: "vnode \<Rightarrow> bool" where
  "backoff_stabilizing v \<longleftrightarrow> sl_backoff (successors v) > 0 \<or> pl_backoff (predecessors v) > 0 \<or> ft_backoff (fingertab v) > 0"

subsection \<open>The rounds\<close>

definition stabilize_continuous :: "(location \<Rightarrow> location) \<Rightarrow> nat \<Rightarrow> stabilize_manager \<Rightarrow> vnode
    \<Rightarrow> (stabilize_manager \<times> vnode \<times> calls) option" where
  "stabilize_continuous wire t m v =
     do { (t, v, cs) \<leftarrow>
            (if continuous_stabilizing v then Some (2 * t mod 2 ^ 32, v, [])
             else do { let t = (if t \<ge> cts_timer_base then t - stabilize_decrease_timer else t);
                       let t = (if t < cts_timer_base div 2 then slowdown t else t);
                       (v, cs) \<leftarrow> succ_do_continuous wire v;
                       (v, cs') \<leftarrow> pred_do_continuous v;
                       Some (t, v, cs @ cs') });
          let t = (if t > cts_timer_max then cts_timer_max else t);
          Some (m\<lparr>continuous_timer := t, continuous_tmo := Some t\<rparr>, v, cs) }"

definition stabilize_backoff :: "nat \<Rightarrow> stabilize_manager \<Rightarrow> vnode \<Rightarrow> (stabilize_manager \<times> vnode \<times> calls) option" where
  "stabilize_backoff t m v =
     do { stablenow \<leftarrow> sm_isstable v;
          let m = (if \<not> sm_stable m \<and> stablenow then m\<lparr>sm_stable := True\<rparr>
                   else if \<not> stablenow then m\<lparr>sm_stable := False\<rparr> else m);
          (t, v, cs) \<leftarrow>
            (if backoff_stabilizing v then Some (t * 2 mod 2 ^ 32, v, [])
             else do { (v, cs) \<leftarrow> succ_do_backoff v;
                       (v, cs') \<leftarrow> pred_do_backoff v;
                       (v, cs'') \<leftarrow> finger_do_backoff v;
                       Some (if stablenow \<and> t \<le> bo_timer_max then slowdown t
                             else if t > bo_timer_base then t - stabilize_decrease_timer else t,
                             v, cs @ cs' @ cs'') });
          let t = (if t > bo_timer_max then bo_timer_max else t);
          Some (m\<lparr>backoff_timer := t, backoff_tmo := Some t\<rparr>, v, cs) }"

definition sm_start :: "(location \<Rightarrow> location) \<Rightarrow> stabilize_manager \<Rightarrow> vnode \<Rightarrow> (stabilize_manager \<times> vnode \<times> calls) option" where
  "sm_start wire m v =
     do { (m, v, cs) \<leftarrow> (if continuous_tmo m = None then stabilize_continuous wire cts_timer_init m v else Some (m, v, []));
          (m, v, cs') \<leftarrow> (if backoff_tmo m = None then stabilize_backoff bo_timer_init m v else Some (m, v, []));
          Some (m, v, cs @ cs') }"

definition sm_stop :: "stabilize_manager \<Rightarrow> stabilize_manager" where
  "sm_stop m = m\<lparr>continuous_tmo := None, backoff_tmo := None\<rparr>"

subsection \<open>The node as a state machine\<close>

type_synonym node_state = "vnode \<times> stabilize_manager \<times> calls"

text \<open>A callback, run on some answer.\<close>

inductive cb_step :: "callback \<Rightarrow> vnode \<Rightarrow> vnode \<Rightarrow> calls \<Rightarrow> bool" where
  getpred: "stabilize_getpred_cb now coins wire sd r v = Some (v', cs) \<Longrightarrow> cb_step (GetpredCb sd) v v' (notifies cs)"
| getsucc: "stabilize_getsucc_cb now coins r v = Some v' \<Longrightarrow> cb_step GetsuccCb v v' []"
| getsucclist: "stabilize_getsucclist_cb now coins s r v = Some (v', cs)
    \<Longrightarrow> cb_step (GetsucclistCb s) v v' (map (\<lambda>c. (c, GetsucclistCheck (case c of Ping x \<Rightarrow> x | _ \<Rightarrow> 0))) cs)"
| check: "cb_step (GetsucclistCheck x) v (stabilize_getsucclist_check ok (ping_cb now x ok v)) []"
| predlist: "stabilize_predlist_cb now coins r v = Some v' \<Longrightarrow> cb_step PredlistCb v v' []"
| finger_getpred: "stabilize_finger_getpred_cb dn i r v = Some (v', cs)
    \<Longrightarrow> cb_step (FingerGetpredCb dn i) v v' (map (\<lambda>c. (c, FindsuccCb i)) cs)"
| findsucc: "stabilize_findsucc_cb i r v = Some v' \<Longrightarrow> cb_step (FindsuccCb i) v v' []"
| notify: "notify_cb now n r v = Some v' \<Longrightarrow> cb_step (NotifyCb n) v v' []"
| alert: "cb_step AlertCb v v []"
| doalert: "cb_step DoalertCb v v []"
| first_fingers: "first_fingers_cb now coins r v = Some v' \<Longrightarrow> cb_step FirstFingersCb v v' []"
| check_dead: "check_dead_node_cb now coins wire l backoff ok (ping_cb now (l_id l) ok v) = Some (v', cs)
    \<Longrightarrow> cb_step (CheckDeadCb l backoff) v v' (notifies cs)"
| join_again: "join_getsucc_cb now coins wire n r v = Some (v', cs, None) \<Longrightarrow> cb_step (JoinCb n) v v' (map (\<lambda>c. (c, JoinCb n)) cs)"
| join_done: "join_getsucc_cb now coins wire n r v = Some (v', cs, Some ok) \<Longrightarrow> cb_step (JoinCb n) v v' (notifies cs)"

inductive node_step :: "node_state \<Rightarrow> node_state \<Rightarrow> bool" where
  start: "sm_start wire m v = Some (m', v', cs) \<Longrightarrow> node_step (v, m, P) (v', m', P @ cs)"
| stop: "node_step (v, m, P) (v, sm_stop m, P)"
| continuous: "continuous_tmo m = Some t \<Longrightarrow> stabilize_continuous wire t (m\<lparr>continuous_tmo := None\<rparr>) v = Some (m', v', cs)
    \<Longrightarrow> node_step (v, m, P) (v', m', P @ cs)"
| backoff: "backoff_tmo m = Some t \<Longrightarrow> stabilize_backoff t (m\<lparr>backoff_tmo := None\<rparr>) v = Some (m', v', cs)
    \<Longrightarrow> node_step (v, m, P) (v', m', P @ cs)"
| first: "timers v = ts @ FirstFingers # us \<Longrightarrow> first_fingers v = Some cs
    \<Longrightarrow> node_step (v, m, P) (v\<lparr>timers := ts @ us\<rparr>, m, P @ map (\<lambda>c. (c, FirstFingersCb)) cs)"
| dead: "timers v = ts @ CheckDead l backoff # us \<Longrightarrow> check_dead_node cap now l backoff v = r
    \<Longrightarrow> node_step (v, m, P) (v\<lparr>timers := ts @ us\<rparr>, m, P @ (case r of None \<Rightarrow> [] | Some (c, b) \<Rightarrow> [(c, CheckDeadCb l b)]))"
| answer: "cb_step k v v' cs \<Longrightarrow> node_step (v, m, P @ (c, k) # Q) (v', m, P @ Q @ cs)"
| call: "doRPC l v = (v', b) \<Longrightarrow> node_step (v, m, P) (v', m, P)"
| called: "0 \<le> location.vnode l \<Longrightarrow> doRPC_cb now coins l src v = Some v' \<Longrightarrow> node_step (v, m, P) (v', m, P)"
| hop: "make_hop_cb now coins reply v it = Some (v', it', out)
    \<Longrightarrow> node_step (v, m, P) (v', m, P @ (case out of Again c \<Rightarrow> [(c, AlertCb)] | _ \<Rightarrow> []))"
| notified: "donotify now coins l v = Some v' \<Longrightarrow> node_step (v, m, P) (v', m, P)"
| alerted: "doalert l v = (v', cs) \<Longrightarrow> node_step (v, m, P) (v', m, P @ map (\<lambda>c. (c, DoalertCb)) cs)"
| joining: "node_step (v, m, P) (v, m, P @ [(join n v, JoinCb n)])"

text \<open>The states of node \<open>n\<close>, from its creation on a well-formed table.\<close>

inductive node_reach :: "chordID \<Rightarrow> node_state \<Rightarrow> bool" for n where
  init: "l_id me = n \<Longrightarrow> lt_core t xs \<Longrightarrow> lt_pins t xs ps \<Longrightarrow> nsucc \<noteq> 0 \<Longrightarrow> new_vnode coins nsucc checkdead me t = Some v
    \<Longrightarrow> node_reach n (v, new_manager, [])"
| step: "node_reach n s \<Longrightarrow> node_step s s' \<Longrightarrow> node_reach n s'"

subsection \<open>Counters\<close>

datatype counter = SuccContinuous | PredContinuous | SuccBackoff | PredBackoff | FingerBackoff

fun nout :: "counter \<Rightarrow> vnode \<Rightarrow> int" where
  "nout SuccContinuous v = sl_continuous (successors v)"
| "nout PredContinuous v = pl_continuous (predecessors v)"
| "nout SuccBackoff v = sl_backoff (successors v)"
| "nout PredBackoff v = pl_backoff (predecessors v)"
| "nout FingerBackoff v = ft_backoff (fingertab v)"

declare nout.simps [simp del]

text \<open>The counter that a callback decrements.\<close>

fun owner :: "callback \<Rightarrow> counter option" where
  "owner (GetpredCb _) = Some SuccContinuous"
| "owner GetsuccCb = Some PredContinuous"
| "owner (GetsucclistCb _) = Some SuccBackoff"
| "owner (GetsucclistCheck _) = Some SuccBackoff"
| "owner PredlistCb = Some PredBackoff"
| "owner (FingerGetpredCb _ _) = Some FingerBackoff"
| "owner (FindsuccCb _) = Some FingerBackoff"
| "owner _ = None"

definition owned :: "counter \<Rightarrow> calls \<Rightarrow> int" where
  "owned c cs = int (length (filter (\<lambda>(_, k). owner k = Some c) cs))"

lemma owned_simps [simp]:
  "owned c [] = 0" "owned c ((r, k) # cs) = (if owner k = Some c then 1 else 0) + owned c cs" "owned c (cs @ cs') = owned c cs + owned c cs'"
  by (simp_all add: owned_def)

lemma owned_map [simp]: "owned c (map (\<lambda>r. (r, k r)) rs) = int (length (filter (\<lambda>r. owner (k r) = Some c) rs))"
  by (induction rs) auto

lemma owned_notifies [simp]: "owned c (notifies cs) = 0"
  by (simp add: notifies_def)

lemma owned_nonneg: "0 \<le> owned c cs"
  by (simp add: owned_def)

lemma nout_table [simp]:
  "nout c (v\<lparr>locations := t\<rparr>) = nout c v" "nout c (v\<lparr>timers := ts\<rparr>) = nout c v" "nout c (v\<lparr>dead_nodes := ds\<rparr>) = nout c v"
  "nout c (v\<lparr>gotfingers := b\<rparr>) = nout c v" "nout c (set_stable b v) = nout c v" "nout c (add_timer tm v) = nout c v"
  by (cases c; simp add: nout.simps set_stable_def add_timer_def)+

lemma nout_add_backoff [simp]: "nout c (add_backoff d v) = nout c v + (if c = SuccBackoff then d else 0)"
  by (cases c) (simp_all add: nout.simps add_backoff_def)

lemma nout_insert: "insert_node now coins l v = Some (v', r) \<Longrightarrow> nout c v' = nout c v"
  by (auto simp: insert_node_def split: bind_splits)

lemma nout_inserts: "insert_nodes now coins ls v = Some v' \<Longrightarrow> nout c v' = nout c v"
  by (induction ls arbitrary: v) (auto simp: nout_insert split: bind_splits)

lemma nout_update_known [simp]: "nout c (update_known now n v) = nout c v"
  by (simp add: update_known_def split: option.split)

lemma nout_ping [simp]: "nout c (ping_cb now x ok v) = nout c v"
  by (simp add: ping_cb_def split: option.split)

lemma nout_update_pred: "update_pred now coins p v = Some v' \<Longrightarrow> nout c v' = nout c v"
  by (cases c) (auto simp: nout.simps update_pred_def dest!: nout_insert [where c = c] split: bind_splits if_splits)

lemma nout_predlist_loop: "predlist_loop now coins pl v = Some v' \<Longrightarrow> nout c v' = nout c v"
proof (induction pl arbitrary: v)
  case (Cons n pl)
  have [simp]: "nout c (v\<lparr>predecessors := (predecessors v)\<lparr>stable_predlist := False\<rparr>\<rparr>) = nout c v" by (cases c) (simp_all add: nout.simps)
  show ?case using Cons.prems Cons.IH by (auto dest!: nout_insert [where c = c] split: bind_splits if_splits)
qed simp

lemma merge_succs_counts:
  "merge_succs now coins ss ns (v, calls) = Some (left, rest, v', calls')
     \<Longrightarrow> \<exists>cs. calls' = calls @ cs \<and> nout c v' = nout c v + (if c = SuccBackoff then int (length cs) else 0)"
proof (induction ss arbitrary: ns v calls)
  case (Cons s ss)
  note outer = Cons.IH
  show ?case using Cons.prems
  proof (induction ns arbitrary: v)
    case (Cons n ns)
    show ?case
    proof (cases "l_id s = l_id n")
      case True
      then show ?thesis using outer [of ns "update_known now n v" calls] Cons.prems by simp
    next
      case False
      show ?thesis
      proof (cases "between (myID v) (l_id n) (l_id s)")
        case True
        then obtain cs where "calls' = (calls @ [Ping (l_id s)]) @ cs"
            "nout c v' = nout c (add_backoff 1 v) + (if c = SuccBackoff then int (length cs) else 0)"
          using outer [of "n # ns" "add_backoff 1 v" "calls @ [Ping (l_id s)]"] Cons.prems False by auto
        then show ?thesis by (intro exI [of _ "Ping (l_id s) # cs"]) simp
      next
        case b: False
        then obtain w r where w: "insert_node now coins n v = Some (w, r)"
            "merge_succs now coins (s # ss) ns (if (case r of None \<Rightarrow> True | Some l \<Rightarrow> \<not> is_alive l) then w else set_stable False w, calls)
               = Some (left, rest, v', calls')"
          using Cons.prems False by (auto split: if_splits bind_splits)
        show ?thesis using Cons.IH [OF w(2)] nout_insert [OF w(1), of c] by (simp only: if_distrib [of "nout c"] nout_table if_cancel)
      qed
    qed
  qed simp
qed simp

lemma append_succs_counts: "append_succs now coins check ns k v = Some v' \<Longrightarrow> nout c v' = nout c v"
proof (induction ns arbitrary: k v)
  case (Cons n ns)
  then show ?case by (auto dest!: nout_insert [where c = c] split: bind_splits if_splits option.splits)
qed simp

lemma nout_upd_ft: "(\<And>ft. ft_backoff (f ft) = ft_backoff ft + d) \<Longrightarrow> nout c (upd_ft f v) = nout c v + (if c = FingerBackoff then d else 0)"
  by (cases c) (simp_all add: nout.simps upd_ft_def)

lemma getpred_counts:
  "stabilize_getpred_cb now coins wire sd r v = Some (v', cs) \<Longrightarrow> nout c v' = nout c v - (if c = SuccContinuous then 1 else 0)"
proof -
  let ?w = "v\<lparr>successors := (successors v)\<lparr>sl_continuous := sl_continuous (successors v) - 1\<rparr>\<rparr>"
  have w: "nout c ?w = nout c v - (if c = SuccContinuous then 1 else 0)" by (cases c) (simp_all add: nout.simps)
  have o: "nout c (u\<lparr>successors := (successors u)\<lparr>oldsucc := x\<rparr>\<rparr>) = nout c u" for u x by (cases c) (simp_all add: nout.simps)
  assume "stabilize_getpred_cb now coins wire sd r v = Some (v', cs)"
  then show ?thesis using w o
    by (cases r) (auto simp: stabilize_getpred_cb_def Let_def dest!: nout_insert [where c = c] split: if_splits bind_splits option.splits)
qed

lemma getsucc_counts:
  assumes "stabilize_getsucc_cb now coins r v = Some v'"
  shows "nout c v' = nout c v - (if c = PredContinuous then 1 else 0)"
proof -
  let ?w = "v\<lparr>predecessors := (predecessors v)\<lparr>pl_continuous := pl_continuous (predecessors v) - 1\<rparr>\<rparr>"
  have w: "nout c ?w = nout c v - (if c = PredContinuous then 1 else 0)" by (cases c) (simp_all add: nout.simps)
  show ?thesis using assms w
    by (auto simp: stabilize_getsucc_cb_def Let_def dest!: nout_update_pred [where c = c] split: if_splits option.splits)
qed

lemma getsucclist_counts:
  assumes "stabilize_getsucclist_cb now coins s r v = Some (v', cs)"
  shows "nout c v' = nout c v + (if c = SuccBackoff then int (length cs) - 1 else 0)"
proof (cases r)
  case None
  then show ?thesis using assms by (auto simp: stabilize_getsucclist_cb_def Let_def)
next
  case (Some nlist)
  then obtain ss left rest w calls where m: "merge_succs now coins ss (butlast nlist) (add_backoff (-1) v, []) = Some (left, rest, w, calls)"
    "append_succs now coins (left \<noteq> []) rest (length ss) (add_backoff (int (length left)) w) = Some v'"
    "cs = calls @ map (\<lambda>l. Ping (l_id l)) left"
    using assms by (auto simp: stabilize_getsucclist_cb_def Let_def split: if_splits bind_splits)
  show ?thesis using merge_succs_counts [OF m(1), of c] append_succs_counts [OF m(2), of c] m(3) by auto
qed

lemma predlist_counts:
  assumes "stabilize_predlist_cb now coins r v = Some v'"
  shows "nout c v' = nout c v - (if c = PredBackoff then 1 else 0)"
proof -
  let ?w = "v\<lparr>predecessors := (predecessors v)\<lparr>pl_backoff := pl_backoff (predecessors v) - 1\<rparr>\<rparr>"
  have w: "nout c ?w = nout c v - (if c = PredBackoff then 1 else 0)" by (cases c) (simp_all add: nout.simps)
  have o: "nout c (u\<lparr>predecessors := (predecessors u)\<lparr>stable_predlist := b\<rparr>\<rparr>) = nout c u" for u b by (cases c) (simp_all add: nout.simps)
  show ?thesis using assms w o [where u = ?w]
    by (auto simp: stabilize_predlist_cb_def Let_def dest!: nout_predlist_loop [where c = c] split: option.splits)
qed

lemma finger_getpred_counts:
  assumes "stabilize_finger_getpred_cb dn i r v = Some (v', cs)"
  shows "nout c v' = nout c v + (if c = FingerBackoff then int (length cs) - 1 else 0)"
  using assms by (auto simp: stabilize_finger_getpred_cb_def Let_def nout_upd_ft [where d = "-1"] nout_upd_ft [where d = 1] nout_upd_ft [where d = 0]
      split: if_splits option.splits bind_splits)

lemma findsucc_counts:
  assumes "stabilize_findsucc_cb i r v = Some v'"
  shows "nout c v' = nout c v - (if c = FingerBackoff then 1 else 0)"
  using assms by (auto simp: stabilize_findsucc_cb_def Let_def nout_upd_ft [where d = "-1"] nout_upd_ft [where d = 0]
      split: if_splits option.splits bind_splits)

lemma other_counts:
  "notify_cb now n rs v = Some v' \<Longrightarrow> nout c v' = nout c v"
  "first_fingers_cb now coins rf v = Some v' \<Longrightarrow> nout c v' = nout c v"
  "check_dead_node_cb now coins wire l backoff ok v = Some (v', cs) \<Longrightarrow> nout c v' = nout c v"
  "join_getsucc_cb now coins wire n rj v = Some (v', cs, done) \<Longrightarrow> nout c v' = nout c v"
proof -
  show "notify_cb now n rs v = Some v' \<Longrightarrow> nout c v' = nout c v"
    by (auto simp: notify_cb_def split: reply.splits bool.splits prod.splits option.splits)
  show "first_fingers_cb now coins rf v = Some v' \<Longrightarrow> nout c v' = nout c v"
    by (auto simp: first_fingers_cb_def dest!: nout_inserts [where c = c] split: option.splits)
  show "check_dead_node_cb now coins wire l backoff ok v = Some (v', cs) \<Longrightarrow> nout c v' = nout c v"
    by (auto simp: check_dead_node_cb_def Let_def split: if_splits bind_splits)
  show "join_getsucc_cb now coins wire n rj v = Some (v', cs, done) \<Longrightarrow> nout c v' = nout c v"
    by (auto simp: join_getsucc_cb_def dest!: nout_inserts [where c = c] split: reply.splits if_splits bind_splits)
qed

lemma cb_step_counts:
  "cb_step k v v' cs \<Longrightarrow> nout c v' = nout c v - (if owner k = Some c then 1 else 0) + owned c cs"
proof (induction rule: cb_step.induct)
  case (check x v ok now)
  then show ?case by (simp add: stabilize_getsucclist_check_def Let_def)
next
  case (check_dead now coins wire l backoff ok v v' cs)
  then show ?case using other_counts(3) [of now coins wire l backoff ok "ping_cb now (l_id l) ok v" v' cs c] by simp
qed (auto simp: getpred_counts getsucc_counts getsucclist_counts predlist_counts finger_getpred_counts findsucc_counts other_counts)

lemma round_counts:
  "succ_do_continuous wire v = Some (v', cs) \<Longrightarrow> nout c v' = nout c v + owned c cs"
  "pred_do_continuous v = Some (v', cs) \<Longrightarrow> nout c v' = nout c v + owned c cs"
  "succ_do_backoff v = Some (v', cs) \<Longrightarrow> nout c v' = nout c v + owned c cs"
  "pred_do_backoff v = Some (v', cs) \<Longrightarrow> nout c v' = nout c v + owned c cs"
  by (cases c; auto simp: nout.simps succ_do_continuous_def pred_do_continuous_def succ_do_backoff_def pred_do_backoff_def stabilize_succ_def
    stabilize_pred_def stabilize_succlist_def stabilize_predlist_def Let_def split: if_splits bind_splits)+

lemma finger_round_counts: "finger_do_backoff v = Some (v', cs) \<Longrightarrow> nout c v' = nout c v + owned c cs"
  by (auto simp: finger_do_backoff_def stabilize_finger_def finger_cb_def Let_def nout_upd_ft [where d = 1] nout_upd_ft [where d = 0]
    split: if_splits bind_splits)

lemma stabilize_counts:
  "stabilize_continuous wire t m v = Some (m', v', cs) \<Longrightarrow> nout c v' = nout c v + owned c cs"
  "stabilize_backoff t m v = Some (m', v', cs) \<Longrightarrow> nout c v' = nout c v + owned c cs"
  by (auto simp: stabilize_continuous_def stabilize_backoff_def Let_def round_counts finger_round_counts split: if_splits bind_splits)

lemma start_counts: "sm_start wire m v = Some (m', v', cs) \<Longrightarrow> nout c v' = nout c v + owned c cs"
  by (auto simp: sm_start_def stabilize_counts split: if_splits bind_splits)

lemma table_counts:
  "doRPC l v = (v', b) \<Longrightarrow> nout c v' = nout c v"
  "doRPC_cb now coins l src v = Some v' \<Longrightarrow> nout c v' = nout c v"
  "make_hop_cb now coins reply v it = Some (v', it', out) \<Longrightarrow> nout c v' = nout c v"
  "doalert l v = (v', rs) \<Longrightarrow> nout c v' = nout c v"
  by (auto simp: doRPC_def doRPC_cb_def track_dead_def make_hop_cb_def doalert_def Let_def dest!: nout_insert [where c = c]
    split: prod.splits option.splits if_splits bind_splits testandfindres.splits)

lemma node_step_counts:
  assumes "node_step (v, m, P) (v', m', P')"
  shows "nout c v' - owned c P' = nout c v - owned c P"
  using assms
proof cases
  case (hop now coins reply it it' out)
  then show ?thesis using table_counts(3) [of now coins reply v it v' it' out c] by (simp split: outcome.split)
next
  case (answer k cs P1 r Q)
  then show ?thesis using cb_step_counts [of k v v' cs c] by simp
qed (auto simp: start_counts stabilize_counts table_counts donotify_def nout_update_pred split: option.split)

subsection \<open>Bounds of the timers\<close>

lemma bit_length_le: "0 < n \<Longrightarrow> 2 ^ (bit_length n - 1) \<le> n \<and> 0 < bit_length n"
proof (induction n rule: bit_length.induct)
  case (1 n)
  show ?case
  proof (cases "n div 2 = 0")
    case True
    then show ?thesis using 1(2) by (simp add: bit_length.simps [of n] bit_length.simps [of 0])
  next
    case False
    then have "2 ^ (bit_length (n div 2) - 1) \<le> n div 2" "0 < bit_length (n div 2)" using 1 by auto
    then have "2 * 2 ^ (bit_length (n div 2) - 1) \<le> n" "bit_length n = 1 + bit_length (n div 2)"
      using 1(2) by (auto simp: bit_length.simps [of n])
    then show ?thesis using \<open>0 < bit_length (n div 2)\<close> by (metis One_nat_def Suc_pred diff_add_inverse plus_1_eq_Suc power_Suc zero_less_Suc)
  qed
qed

lemma round_bits_near: "n < round_bits e n + 2 ^ e" "round_bits e n \<le> n + 2 ^ e"
proof -
  define q r where "q = n div 2 ^ e" and "r = n mod 2 ^ e"
  have n: "n = q * 2 ^ e + r" unfolding q_def r_def by (rule div_mult_mod_eq [symmetric])
  have "r < 2 ^ e" unfolding r_def by simp
  moreover have "round_bits e n = q * 2 ^ e \<or> round_bits e n = q * 2 ^ e + 2 ^ e"
    unfolding round_bits_def q_def [symmetric] r_def [symmetric] Let_def by simp
  ultimately show "n < round_bits e n + 2 ^ e" "round_bits e n \<le> n + 2 ^ e" using n by linarith+
qed

lemma round_bits_0: "round_bits 0 n = n"
  by (simp add: round_bits_def)

text \<open>Rounding moves the product by at most one part in \<open>2 ^ 23\<close>.\<close>

lemma slowdown_bounds: "t \<le> slowdown t" "slowdown t \<le> 2 * t"
proof -
  define n where "n = 10066330 * t"
  define e where "e = bit_length n - 24"
  have "2 ^ 23 * t \<le> round_bits e n \<and> round_bits e n < 2 ^ 23 * (2 * t + 1)"
  proof (cases "e = 0")
    case True
    then show ?thesis by (simp add: round_bits_0 n_def)
  next
    case False
    then have "0 < n" by (cases "n = 0") (simp_all add: e_def bit_length.simps [of 0])
    then have "2 ^ (bit_length n - 1) \<le> n" using bit_length_le by simp
    moreover have "bit_length n - 1 = 23 + e" using False by (simp add: e_def)
    ultimately have "2 ^ 23 * 2 ^ e \<le> n" by (simp add: power_add)
    then have "2 ^ e \<le> 2 * t" by (simp add: n_def)
    then show ?thesis using round_bits_near(1) [of n e] round_bits_near(2) [of e n] by (simp add: n_def)
  qed
  then have "2 ^ 23 * t \<le> round_bits e n" "round_bits e n < 2 ^ 23 * (2 * t + 1)" by simp_all
  then have "t \<le> round_bits e n div 2 ^ 23" "round_bits e n div 2 ^ 23 < 2 * t + 1"
    by (simp_all add: less_eq_div_iff_mult_less_eq div_less_iff_less_mult mult.commute)
  then show "t \<le> slowdown t" "slowdown t \<le> 2 * t" by (simp_all add: slowdown_def n_def e_def Let_def)
qed

definition timers_ok :: "stabilize_manager \<Rightarrow> bool" where
  "timers_ok m \<longleftrightarrow> (\<forall>t. continuous_tmo m = Some t \<longrightarrow> cts_timer_init \<le> t \<and> t \<le> cts_timer_max)
     \<and> (\<forall>t. backoff_tmo m = Some t \<longrightarrow> bo_timer_init \<le> t \<and> t \<le> bo_timer_max)"

lemma continuous_timer_ok:
  assumes "stabilize_continuous wire t m v = Some (m', v', cs)" "cts_timer_init \<le> t" "t \<le> cts_timer_max"
  shows "\<exists>t'. continuous_tmo m' = Some t' \<and> cts_timer_init \<le> t' \<and> t' \<le> cts_timer_max \<and> backoff_tmo m' = backoff_tmo m"
  using assms slowdown_bounds [of t] slowdown_bounds [of "t - 1000"]
  by (auto simp: stabilize_continuous_def Let_def timer_defs split: if_splits bind_splits)

lemma backoff_timer_ok:
  assumes "stabilize_backoff t m v = Some (m', v', cs)" "bo_timer_init \<le> t" "t \<le> bo_timer_max"
  shows "\<exists>t'. backoff_tmo m' = Some t' \<and> bo_timer_init \<le> t' \<and> t' \<le> bo_timer_max \<and> continuous_tmo m' = continuous_tmo m"
  using assms slowdown_bounds [of t] le_diff_conv2 [of 1000 t 1000]
  by (auto simp: stabilize_backoff_def Let_def timer_defs split: if_splits bind_splits)

lemma start_timers_ok:
  assumes "sm_start wire m v = Some (m', v', cs)" "timers_ok m"
  shows "timers_ok m'"
proof -
  obtain m1 v1 cs1 cs2 where s: "(if continuous_tmo m = None then stabilize_continuous wire cts_timer_init m v else Some (m, v, [])) = Some (m1, v1, cs1)"
    "(if backoff_tmo m1 = None then stabilize_backoff bo_timer_init m1 v1 else Some (m1, v1, [])) = Some (m', v', cs2)"
    using assms(1) by (auto simp: sm_start_def split: bind_splits)
  have "timers_ok m1" using s(1) assms(2) continuous_timer_ok [of wire cts_timer_init m v m1 v1 cs1]
    by (auto simp: timers_ok_def timer_defs split: if_splits)
  then show ?thesis using s(2) backoff_timer_ok [of bo_timer_init m1 v1 m' v' cs2]
    by (auto simp: timers_ok_def timer_defs split: if_splits)
qed

lemma node_step_timers:
  assumes "node_step (v, m, P) (v', m', P')" "timers_ok m"
  shows "timers_ok m'"
  using assms(1)
proof cases
  case (continuous t wire cs)
  then show ?thesis using assms(2) continuous_timer_ok [of wire t "m\<lparr>continuous_tmo := None\<rparr>" v m' v' cs] by (auto simp: timers_ok_def)
next
  case (backoff t cs)
  then show ?thesis using assms(2) backoff_timer_ok [of t "m\<lparr>backoff_tmo := None\<rparr>" v m' v' cs] by (auto simp: timers_ok_def)
next
  case (start wire cs)
  show ?thesis by (rule start_timers_ok [OF start(2) assms(2)])
qed (use assms(2) in \<open>auto simp: sm_stop_def timers_ok_def\<close>)

subsection \<open>A round runs through\<close>

text \<open>The back-off round, which asserts that no call of the previous one is outstanding and divides by the gap between
  the successors and by the number of virtual nodes, needs a table with a live node.\<close>

lemma succ_backoff_total:
  assumes "table_inv v" "ring_nodes v" "0 < nvnodes (locations v)" "sl_backoff (successors v) = 0"
  shows "\<exists>v' cs. succ_do_backoff v = Some (v', cs) \<and> table_inv v' \<and> ring_nodes v'"
proof -
  obtain n where n: "estimate_nnodes v = Some n" using estimate_total [OF assms(1,2)] ..
  let ?t = "\<lambda>x y. v\<lparr>locations := (locations v)\<lparr>nnodessum := x, nnodes := y\<rparr>\<rparr>"
  have w: "table_inv (?t x y\<lparr>successors := sl\<rparr>)" "ring_nodes (?t x y\<lparr>successors := sl\<rparr>)" for x y sl
    using counts_small assms(1,2) by (simp_all add: ring_nodes_small table_inv_small del: vnode.update_convs)
  define w where "w = (let t = nat ((int (nnodessum (locations v)) - int (sl_nnodes (successors v)) + int n) mod 2 ^ 64)
    in ?t t (t div nvnodes (locations v))\<lparr>successors := (successors v)\<lparr>stable_succlist2 := stable_succlist (successors v), stable_succlist := True,
         sl_nnodes := n, sl_backoff := 1\<rparr>\<rparr>)"
  have ww: "table_inv w" "ring_nodes w" using w by (simp_all add: w_def Let_def)
  then obtain s where "succ w = Some s" using neighbours_total(1) by blast
  then have "stabilize_succlist v = Some (w, GetSucclist (l_id s))"
    using n assms(3,4) by (simp add: stabilize_succlist_def replace_estimate_def w_def Let_def)
  then show ?thesis using ww by (simp add: succ_do_backoff_def)
qed

lemma pred_backoff_total:
  assumes "table_inv v" "ring_nodes v"
  shows "\<exists>v' cs. pred_do_backoff v = Some (v', cs) \<and> table_inv v' \<and> ring_nodes v'"
  using neighbours_total(2) [OF assms] assms by (auto simp: pred_do_backoff_def stabilize_predlist_def ring_nodes_small table_inv_small)

lemma finger_backoff_total:
  assumes "table_inv v" "ring_nodes v"
  shows "finger_do_backoff v \<noteq> None"
proof -
  have "finger (upd_ft f (upd_ft g v)) i \<noteq> None" "finger (upd_ft f v) i \<noteq> None" for f g i
    using neighbours_total(3) [of "upd_ft f (upd_ft g v)" i] neighbours_total(3) [of "upd_ft f v" i] assms
    by (auto simp: ring_nodes_small table_inv_small)
  then show ?thesis by (auto simp: finger_do_backoff_def stabilize_finger_def Let_def bind_eq_None_conv)
qed

lemma backoff_total:
  assumes "table_inv v" "ring_nodes v" "0 < nvnodes (locations v)" "0 \<le> sl_backoff (successors v)"
  shows "stabilize_backoff t m v \<noteq> None"
proof -
  obtain b where b: "sm_isstable v = Some b" using neighbours_total(2) [OF assms(1,2)] by (cases "sm_isstable v") (auto simp: sm_isstable_def pred_isstable_def split: if_splits)
  show ?thesis
  proof (cases "backoff_stabilizing v")
    case True
    then show ?thesis by (simp add: stabilize_backoff_def b Let_def)
  next
    case False
    then have "sl_backoff (successors v) = 0" using assms(4) by (simp add: backoff_stabilizing_def)
    then obtain v1 cs1 where 1: "succ_do_backoff v = Some (v1, cs1)" "table_inv v1" "ring_nodes v1" using succ_backoff_total [OF assms(1-3)] by blast
    obtain v2 cs2 where 2: "pred_do_backoff v1 = Some (v2, cs2)" "table_inv v2" "ring_nodes v2" using pred_backoff_total [OF 1(2,3)] by blast
    obtain v3 cs3 where "finger_do_backoff v2 = Some (v3, cs3)" using finger_backoff_total [OF 2(2,3)] by auto
    then show ?thesis using False 1(1) 2(1) by (simp add: stabilize_backoff_def b Let_def)
  qed
qed

lemma continuous_total:
  assumes "succ v \<noteq> None" "pred v \<noteq> None" "0 \<le> sl_continuous (successors v)" "0 \<le> pl_continuous (predecessors v)"
  shows "stabilize_continuous wire t m v \<noteq> None"
proof -
  have "pred (v\<lparr>successors := sl\<rparr>) = pred v" for sl by (simp add: pred_def)
  then show ?thesis using assms
    by (auto simp: stabilize_continuous_def continuous_stabilizing_def succ_do_continuous_def pred_do_continuous_def stabilize_succ_def
        stabilize_pred_def Let_def)
qed

subsection \<open>The table stays well-formed\<close>

definition kept_node :: "vnode \<Rightarrow> vnode \<Rightarrow> bool" where
  "kept_node v v' \<longleftrightarrow> my_location v' = my_location v \<and> timers v' = timers v
    \<and> nvnodes (locations v') = nvnodes (locations v) \<and> (table_inv v \<longrightarrow> table_inv v')"

lemma kept_refl [simp]: "kept_node v v"
  by (simp add: kept_node_def)

lemma kept_trans: "kept_node u v \<Longrightarrow> kept_node v w \<Longrightarrow> kept_node u w"
  by (simp add: kept_node_def)

lemma table_inv_same: "locations v' = locations v \<Longrightarrow> table_inv v' = table_inv v"
  by (simp add: table_inv_def)

lemma kept_same: "my_location v' = my_location v \<Longrightarrow> timers v' = timers v \<Longrightarrow> locations v' = locations v \<Longrightarrow> kept_node v v'"
  by (simp add: kept_node_def table_inv_def)

lemma kept_small [simp]:
  "kept_node v (add_backoff d v)" "kept_node v (set_stable b v)" "kept_node v (upd_ft f v)" "kept_node v (v\<lparr>successors := sl\<rparr>)"
  "kept_node v (v\<lparr>predecessors := pl\<rparr>)" "kept_node v (v\<lparr>gotfingers := g\<rparr>)" "kept_node v (v\<lparr>dead_nodes := ds\<rparr>)"
  by (simp_all add: kept_same add_backoff_def set_stable_def upd_ft_def)

lemma kept_insert: "insert_node now coins l v = Some (v', r) \<Longrightarrow> kept_node v v'"
  using insert_node_total [of v now coins l] by (auto simp: kept_node_def insert_node_def dest: nvnodes_insert split: bind_splits)

lemma kept_inserts: "insert_nodes now coins ls v = Some v' \<Longrightarrow> kept_node v v'"
  by (induction ls arbitrary: v) (auto intro: kept_insert kept_trans split: bind_splits)

lemma set_alive_kept [simp]: "l_id (set_alive now b l) = l_id l" "location.vnode (set_alive now b l) = location.vnode l"
  by (simp_all add: set_alive_def Let_def)

lemma kept_set_alive: "kept_node v (v\<lparr>locations := set_loc a (set_alive now b (loc (wraps (locations v) a))) (locations v)\<rparr>)"
  using set_loc_inv [of v "set_alive now b (loc (wraps (locations v) a))" a] by (simp add: kept_node_def)

lemma kept_ping [simp]: "kept_node v (ping_cb now x ok v)"
  using kept_set_alive by (simp add: ping_cb_def split: option.split)

lemma kept_update_known [simp]: "kept_node v (update_known now n v)"
  using update_known_inv by (simp add: kept_node_def) (simp add: update_known_def set_loc_def split: option.split)

lemma kept_lookup: "lookup x (locations v) = (t, r) \<Longrightarrow> kept_node v (v\<lparr>locations := t\<rparr>)"
  using lookup_ok(2,3) [of "locations v" _ _ x] by (fastforce simp: kept_node_def table_inv_def dest: nvnodes_lookup)

lemma kept_realinsert: "realinsert now cs l (locations v) = Some (t, r) \<Longrightarrow> 0 \<le> location.vnode l \<Longrightarrow> kept_node v (v\<lparr>locations := t\<rparr>)"
  using realinsert_ok [of "locations v" _ _ l now cs] by (fastforce simp: kept_node_def table_inv_def dest: nvnodes_realinsert)

lemma kept_update_pred: "update_pred now coins p v = Some v' \<Longrightarrow> kept_node v v'"
  by (auto simp: update_pred_def intro: kept_trans [OF kept_insert kept_small(5)] split: bind_splits if_splits)

lemma kept_predlist_loop: "predlist_loop now coins pl v = Some v' \<Longrightarrow> kept_node v v'"
proof (induction pl arbitrary: v)
  case (Cons n pl)
  then show ?case by (auto split: bind_splits if_splits intro: kept_trans [OF kept_trans [OF kept_small(5) kept_insert]])
qed simp

lemma kept_merge_succs: "merge_succs now coins ss ns (v, calls) = Some (left, rest, v', calls') \<Longrightarrow> kept_node v v'"
proof (induction ss arbitrary: ns v calls)
  case (Cons s ss)
  note outer = Cons.IH
  show ?case using Cons.prems
  proof (induction ns arbitrary: v)
    case (Cons n ns)
    show ?case
    proof (cases "l_id s = l_id n \<or> between (myID v) (l_id n) (l_id s)")
      case True
      then show ?thesis using Cons.prems by (auto intro: kept_trans [OF kept_update_known] kept_trans [OF kept_small(1)] outer split: if_splits)
    next
      case False
      then obtain w r where w: "insert_node now coins n v = Some (w, r)"
          "merge_succs now coins (s # ss) ns (if (case r of None \<Rightarrow> True | Some l \<Rightarrow> \<not> is_alive l) then w else set_stable False w, calls)
             = Some (left, rest, v', calls')"
        using Cons.prems by (auto split: if_splits bind_splits)
      have "kept_node w v'" using Cons.IH [OF w(2)] kept_trans [OF kept_small(2)] by (cases "case r of None \<Rightarrow> True | Some l \<Rightarrow> \<not> is_alive l") simp_all
      then show ?thesis using kept_trans [OF kept_insert [OF w(1)]] by simp
    qed
  qed simp
qed simp

lemma kept_append_succs: "append_succs now coins check ns k v = Some v' \<Longrightarrow> kept_node v v'"
proof (induction ns arbitrary: k v)
  case (Cons n ns)
  show ?case
  proof (cases "int k < nsucc_max (successors v)")
    case True
    then obtain w r where w: "insert_node now coins n v = Some (w, r)"
      "append_succs now coins check ns k w = Some v' \<or> append_succs now coins check ns (k + 1) (set_stable False w) = Some v'"
      using Cons.prems by (auto split: bind_splits if_splits option.splits)
    then have "kept_node w v'" using Cons.IH kept_trans [OF kept_small(2)] by blast
    then show ?thesis using kept_trans [OF kept_insert [OF w(1)]] by simp
  qed (use Cons.prems in simp)
qed simp

lemma kept_getpred: "stabilize_getpred_cb now coins wire sd r v = Some (v', cs) \<Longrightarrow> kept_node v v'"
  by (cases r) (auto simp: stabilize_getpred_cb_def Let_def intro: kept_trans [OF kept_small(4) kept_insert]
      kept_trans [OF kept_trans [OF kept_small(4) kept_insert] kept_small(4)] split: if_splits bind_splits option.splits)

lemma kept_getsucc: "stabilize_getsucc_cb now coins r v = Some v' \<Longrightarrow> kept_node v v'"
  by (auto simp: stabilize_getsucc_cb_def Let_def intro: kept_trans [OF kept_small(5) kept_update_pred] split: if_splits option.splits)

lemma kept_getsucclist: "stabilize_getsucclist_cb now coins s r v = Some (v', cs) \<Longrightarrow> kept_node v v'"
  by (auto simp: stabilize_getsucclist_cb_def Let_def intro: kept_trans [OF kept_small(1) kept_small(2)]
      dest!: kept_merge_succs kept_append_succs elim!: kept_trans [OF kept_small(1) kept_trans] kept_trans [OF kept_small(1)]
      split: option.splits if_splits bind_splits)

lemma kept_predlist: "stabilize_predlist_cb now coins r v = Some v' \<Longrightarrow> kept_node v v'"
  by (auto simp: stabilize_predlist_cb_def Let_def intro: kept_trans [OF kept_trans [OF kept_small(5) kept_small(5)] kept_predlist_loop] split: option.splits)

lemma kept_fingers:
  "stabilize_finger_getpred_cb dn i r v = Some (v', cs) \<Longrightarrow> kept_node v v'" "stabilize_findsucc_cb i rl v = Some v' \<Longrightarrow> kept_node v v'"
  by (auto simp: stabilize_finger_getpred_cb_def stabilize_findsucc_cb_def Let_def intro: kept_trans [OF kept_small(3) kept_small(3)]
      split: if_splits option.splits bind_splits)

lemma kept_notify: "notify_cb now n r v = Some v' \<Longrightarrow> kept_node v v'"
  by (auto simp: notify_cb_def split: reply.splits bool.splits prod.splits option.splits
      intro: kept_trans [OF kept_lookup kept_set_alive [of "v\<lparr>locations := t\<rparr>" for t, simplified]])

lemma kept_join: "join_getsucc_cb now coins wire n r v = Some (v', cs, done) \<Longrightarrow> kept_node v v'"
  by (auto simp: join_getsucc_cb_def intro: kept_inserts split: reply.splits if_splits bind_splits)

lemma kept_rounds:
  "succ_do_continuous wire v = Some (v', cs) \<Longrightarrow> kept_node v v'" "pred_do_continuous v = Some (v', cs) \<Longrightarrow> kept_node v v'"
  "pred_do_backoff v = Some (v', cs) \<Longrightarrow> kept_node v v'"
  by (auto simp: succ_do_continuous_def pred_do_continuous_def pred_do_backoff_def stabilize_succ_def stabilize_pred_def stabilize_predlist_def
      split: if_splits bind_splits)

lemma kept_succ_backoff: "succ_do_backoff v = Some (v', cs) \<Longrightarrow> kept_node v v'"
proof -
  have "table_inv (v\<lparr>locations := (locations v)\<lparr>nnodessum := x, nnodes := y\<rparr>, successors := sl\<rparr>) = table_inv v" for x y sl
    unfolding table_inv_def by (simp add: lt_core_def lt_pins_def loc_key_def [abs_def] pin_key_def [abs_def])
  then show "succ_do_backoff v = Some (v', cs) \<Longrightarrow> kept_node v v'"
    by (auto simp: succ_do_backoff_def stabilize_succlist_def replace_estimate_def Let_def kept_node_def split: if_splits bind_splits)
qed

lemma kept_finger_backoff: "finger_do_backoff v = Some (v', cs) \<Longrightarrow> kept_node v v'"
  by (auto simp: finger_do_backoff_def stabilize_finger_def Let_def intro: kept_trans [OF kept_small(3) kept_small(3)]
      kept_trans [OF kept_small(3) kept_trans [OF kept_small(3) kept_small(3)]] split: if_splits bind_splits)

lemma kept_stabilize:
  "stabilize_continuous wire t m v = Some (m', v', cs) \<Longrightarrow> kept_node v v'"
  "stabilize_backoff t m v = Some (m', v', cs) \<Longrightarrow> kept_node v v'"
  by (auto simp: stabilize_continuous_def stabilize_backoff_def Let_def dest!: kept_rounds kept_succ_backoff kept_finger_backoff elim: kept_trans
      split: if_splits bind_splits) (auto simp: kept_node_def)

lemma kept_start: "sm_start wire m v = Some (m', v', cs) \<Longrightarrow> kept_node v v'"
  by (auto simp: sm_start_def dest!: kept_stabilize elim: kept_trans split: if_splits bind_splits)

lemma kept_table_ops:
  "doRPC l v = (v', b) \<Longrightarrow> kept_node v v'" "make_hop_cb now coins reply v it = Some (v', it', out) \<Longrightarrow> kept_node v v'"
  "doalert l v = (v', cs) \<Longrightarrow> kept_node v v'" "donotify now coins l v = Some v' \<Longrightarrow> kept_node v v'"
  by (auto simp: doRPC_def make_hop_cb_def doalert_def donotify_def Let_def intro: kept_lookup kept_insert kept_update_pred
      split: prod.splits option.splits if_splits bind_splits testandfindres.splits)

text \<open>Dead nodes that are checked again are nodes of the table, or were when the call failed.\<close>

definition valid_timers :: "vnode \<Rightarrow> bool" where
  "valid_timers v \<longleftrightarrow> (\<forall>l b. CheckDead l b \<in> set (timers v) \<longrightarrow> 0 \<le> location.vnode l)"

fun valid_cb :: "callback \<Rightarrow> bool" where
  "valid_cb (CheckDeadCb l b) \<longleftrightarrow> 0 \<le> location.vnode l"
| "valid_cb _ \<longleftrightarrow> True"

definition valid_calls :: "calls \<Rightarrow> bool" where
  "valid_calls P \<longleftrightarrow> list_all (\<lambda>(_, k). valid_cb k) P"

lemma valid_calls_simps [simp]:
  "valid_calls []" "valid_calls ((r, k) # P) \<longleftrightarrow> valid_cb k \<and> valid_calls P" "valid_calls (P @ Q) \<longleftrightarrow> valid_calls P \<and> valid_calls Q"
  "valid_calls (map (\<lambda>c. (c, f c)) cs) \<longleftrightarrow> list_all (\<lambda>c. valid_cb (f c)) cs" "valid_calls (notifies cs)"
  by (auto simp: valid_calls_def notifies_def list_all_iff)

definition node_wf :: "chordID \<Rightarrow> vnode \<Rightarrow> bool" where
  "node_wf n v \<longleftrightarrow> myID v = n \<and> table_inv v \<and> valid_timers v \<and> 0 < nvnodes (locations v)"

lemma kept_wf: "kept_node v v' \<Longrightarrow> node_wf n v \<Longrightarrow> node_wf n v'"
  by (simp add: node_wf_def kept_node_def valid_timers_def)

lemma deref_vnode: "table_inv v \<Longrightarrow> 0 \<le> location.vnode l \<Longrightarrow> 0 \<le> location.vnode (deref v l)"
  by (fastforce simp: deref_def table_inv_def lt_core_def locs_find_def dest: find_split split: option.split)

lemma wf_timer: "node_wf n v \<Longrightarrow> (\<And>l b. tm = CheckDead l b \<Longrightarrow> 0 \<le> location.vnode l) \<Longrightarrow> node_wf n (add_timer tm v)"
  by (auto simp: node_wf_def add_timer_def valid_timers_def table_inv_def)

lemma wf_check_dead:
  assumes "check_dead_node_cb now coins wire l backoff ok v = Some (v', cs)" "node_wf n v" "0 \<le> location.vnode l"
  shows "node_wf n v'"
proof (cases ok)
  case False
  have "node_wf n (v\<lparr>dead_nodes := ds\<rparr>)" for ds using kept_wf [OF kept_small(7) assms(2)] .
  then show ?thesis using assms False by (auto simp: check_dead_node_cb_def Let_def intro!: wf_timer split: if_splits)
next
  case True
  define w where "w = (if dead_index (l_id l) (dead_nodes v) \<noteq> length (dead_nodes v)
    then v\<lparr>dead_nodes := tl ((dead_nodes v)[dead_index (l_id l) (dead_nodes v) := dead_nodes v ! 0])\<rparr> else v)"
  have w: "node_wf n w" using kept_wf [OF kept_small(7) assms(2)] assms(2) by (simp add: w_def)
  obtain t r where t: "realinsert now (coins (l_id l)) (set_alive now True (deref w l)) (locations w) = Some (t, r)" "v' = w\<lparr>locations := t\<rparr>"
    using assms(1) True by (auto simp: check_dead_node_cb_def Let_def w_def split: bind_splits)
  show ?thesis using kept_realinsert [OF t(1)] deref_vnode [of w l] w assms(3) kept_wf t(2) by (metis node_wf_def set_alive_kept(2))
qed

lemma wf_called:
  assumes "doRPC_cb now coins l src v = Some v'" "node_wf n v" "0 \<le> location.vnode l"
  shows "node_wf n v'"
proof -
  have track: "node_wf n u \<Longrightarrow> 0 \<le> location.vnode x \<Longrightarrow> node_wf n (track_dead x u)" for u x
    using kept_wf [OF kept_small(7)] by (auto simp: track_dead_def intro!: wf_timer)
  show ?thesis
  proof (cases src)
    case (Some s)
    then show ?thesis using assms by (auto simp: doRPC_cb_def intro: kept_wf [OF kept_insert] split: if_splits bind_splits)
  next
    case None
    obtain t a where lk: "lookup (l_id l) (locations v) = (t, a)" by fastforce
    have t: "node_wf n (v\<lparr>locations := t\<rparr>)" by (rule kept_wf [OF kept_lookup [OF lk] assms(2)])
    show ?thesis
    proof (cases a)
      case (Some b)
      then have "v' = track_dead l (v\<lparr>locations := if is_alive (loc (wraps t b)) then set_loc b (set_alive now False (loc (wraps t b))) t else t\<rparr>)"
        using assms(1) None lk by (simp add: doRPC_cb_def)
      then show ?thesis using track t kept_wf [OF kept_set_alive t, of b now False] assms(3) by simp
    next
      case a: None
      then obtain t' r where r: "realinsert now (coins (l_id l)) l t = Some (t', r)"
          "v' = track_dead (set_alive now False l) (ping_cb now (l_id l) False (v\<lparr>locations := t'\<rparr>))"
        using assms(1) None lk by (auto simp: doRPC_cb_def split: bind_splits)
      have "node_wf n (v\<lparr>locations := t'\<rparr>)" using kept_realinsert [of now "coins (l_id l)" l "v\<lparr>locations := t\<rparr>" t' r] r(1) assms(3) kept_wf t by simp
      then show ?thesis using r(2) track kept_wf [OF kept_ping] assms(3) by simp
    qed
  qed
qed

lemma wf_first_fingers: "first_fingers_cb now coins r v = Some v' \<Longrightarrow> node_wf n v \<Longrightarrow> node_wf n v'"
  by (auto simp: first_fingers_cb_def intro: wf_timer kept_wf [OF kept_trans [OF kept_small(6) kept_inserts]] split: option.splits)

lemma wf_cb_step:
  assumes "cb_step k v v' cs" "node_wf n v" "valid_calls [(c, k)]"
  shows "node_wf n v' \<and> valid_calls cs"
  using assms
proof (induction rule: cb_step.induct)
  case (check x v ok now)
  have "kept_node v (stabilize_getsucclist_check ok (ping_cb now x ok v))"
    using kept_trans [OF kept_ping kept_small(1)] kept_trans [OF kept_trans [OF kept_ping kept_small(1)] kept_small(2)]
    by (simp add: stabilize_getsucclist_check_def Let_def)
  then show ?case using check kept_wf by auto
next
  case (check_dead now coins wire l backoff ok v v' cs)
  then show ?case using wf_check_dead [OF check_dead(1) kept_wf [OF kept_ping]] by simp
qed (auto simp: list_all_iff intro: kept_wf [OF kept_getpred] kept_wf [OF kept_getsucc] kept_wf [OF kept_getsucclist]
    kept_wf [OF kept_predlist] kept_wf [OF kept_fingers(1)] kept_wf [OF kept_fingers(2)] kept_wf [OF kept_notify] kept_wf [OF kept_join] wf_first_fingers)

lemma valid_rounds:
  "succ_do_continuous wire v = Some (v', cs) \<Longrightarrow> valid_calls cs" "pred_do_continuous v = Some (v', cs) \<Longrightarrow> valid_calls cs"
  "succ_do_backoff v = Some (v', cs) \<Longrightarrow> valid_calls cs" "pred_do_backoff v = Some (v', cs) \<Longrightarrow> valid_calls cs"
  "finger_do_backoff v = Some (v', cs) \<Longrightarrow> valid_calls cs"
  by (auto simp: succ_do_continuous_def pred_do_continuous_def succ_do_backoff_def pred_do_backoff_def finger_do_backoff_def finger_cb_def
      split: bind_splits rpc.splits)

lemma valid_stabilize:
  "stabilize_continuous wire t m v = Some (m', v', cs) \<Longrightarrow> valid_calls cs" "stabilize_backoff t m v = Some (m', v', cs) \<Longrightarrow> valid_calls cs"
  by (auto simp: stabilize_continuous_def stabilize_backoff_def Let_def dest!: valid_rounds split: if_splits bind_splits)

lemma valid_start: "sm_start wire m v = Some (m', v', cs) \<Longrightarrow> valid_calls cs"
  by (auto simp: sm_start_def dest!: valid_stabilize split: if_splits bind_splits)

lemma wf_node_step:
  assumes "node_step (v, m, P) (v', m', P')" "node_wf n v" "valid_calls P"
  shows "node_wf n v' \<and> valid_calls P'"
  using assms(1)
proof cases
  case (first ts us cs)
  then show ?thesis using assms(2,3) by (auto simp: node_wf_def valid_timers_def table_inv_def list_all_iff)
next
  case (dead ts l b us cap now r)
  then have "0 \<le> location.vnode l" "node_wf n v'" using assms(2) by (auto simp: node_wf_def valid_timers_def table_inv_def)
  then show ?thesis using assms(3) dead(3) by (auto split: option.splits)
next
  case (answer k cs P1 c Q)
  then show ?thesis using wf_cb_step [of k v v' cs n c] assms(2,3) by auto
next
  case (hop now coins reply it it' out)
  then show ?thesis using kept_wf [OF kept_table_ops(2)] assms(2,3) by (cases out) auto
next
  case (called l now coins src)
  then show ?thesis using wf_called assms(2,3) by blast
next
  case (alerted l cs)
  then show ?thesis using kept_wf [OF kept_table_ops(3)] assms(2,3) by (auto simp: list_all_iff)
next
  case (joining k)
  then show ?thesis using assms(2,3) by simp
next
  case (start wire cs)
  then show ?thesis using kept_wf [OF kept_start [OF start(2)] assms(2)] valid_start [OF start(2)] assms(3) by simp
next
  case (continuous t wire cs)
  then show ?thesis using kept_wf [OF kept_stabilize(1) assms(2)] valid_stabilize(1) assms(3) by simp
next
  case (backoff t cs)
  then show ?thesis using kept_wf [OF kept_stabilize(2) assms(2)] valid_stabilize(2) assms(3) by simp
next
  case (call l b)
  then show ?thesis using kept_wf [OF kept_table_ops(1) assms(2)] assms(3) by blast
next
  case (notified now coins l)
  then show ?thesis using kept_wf [OF kept_table_ops(4) assms(2)] assms(3) by blast
qed (use assms(2,3) in simp)

text \<open>The constructor pins the node's neighbourhood and the starts of the fingers, and never fails on a well-formed table.\<close>

lemma pin_all_ok:
  assumes "lt_core t xs" "lt_pins t xs ps" "\<forall>(x, num) \<in> set qs. num \<noteq> 0"
  shows "\<exists>t' ps'. pin_all coins qs t = Some t' \<and> lt_core t' xs \<and> lt_pins t' xs ps' \<and> pin_key t' ` set ps' = fst ` set qs \<union> pin_key t ` set ps"
  using assms
proof (induction qs arbitrary: t ps)
  case (Cons q qs)
  obtain x num where q: "q = (x, num)" "num \<noteq> 0" using Cons.prems(3) by (cases q) auto
  obtain t1 ps1 where t1: "pin (coins x) x num t = Some t1" "lt_core t1 xs" "lt_pins t1 xs ps1" "pin_key t1 ` set ps1 = insert x (pin_key t ` set ps)"
    using pin_ok [OF Cons.prems(1,2), of num x "coins x"] q(2) by auto
  show ?case using Cons.IH [OF t1(2,3)] Cons.prems(3) t1(1,4) q(1) by auto
qed auto

lemma new_vnode_ok:
  assumes "lt_core t xs" "lt_pins t xs ps" "nsucc \<noteq> 0"
  shows "\<exists>v ps'. new_vnode coins nsucc checkdead me t = Some v \<and> my_location v = me \<and> lt_core (locations v) xs \<and> lt_pins (locations v) xs ps'
    \<and> pin_key (locations v) ` set ps' = insert (l_id me) (successorID (l_id me) ` {0..<NBIT} \<union> pin_key t ` set ps)
    \<and> nout c v = 0 \<and> node_wf (l_id me) v"
proof -
  let ?x = "l_id me"
  obtain t1 p1 where t1: "pin_all coins [(?x, 1), (?x, nsucc)] t = Some t1" "lt_core t1 xs" "lt_pins t1 xs p1"
    "pin_key t1 ` set p1 = fst ` set [(?x, 1 :: int), (?x, nsucc)] \<union> pin_key t ` set ps"
    using pin_all_ok [OF assms(1,2), of "[(?x, 1), (?x, nsucc)]" coins] assms(3) by auto
  obtain t2 p2 where t2: "pin_all coins [(?x, -1), (?x, - nsucc)] t1 = Some t2" "lt_core t2 xs" "lt_pins t2 xs p2"
    "pin_key t2 ` set p2 = fst ` set [(?x, -1 :: int), (?x, - nsucc)] \<union> pin_key t1 ` set p1"
    using pin_all_ok [OF t1(2,3), of "[(?x, -1), (?x, - nsucc)]" coins] assms(3) by auto
  have inc: "lt_core (incvnodes t2) xs" "lt_pins (incvnodes t2) xs p2" "pin_key (incvnodes t2) = pin_key t2"
    using t2(2,3) by (simp_all add: incvnodes_def lt_core_def lt_pins_def loc_key_def [abs_def] pin_key_def [abs_def])
  let ?fs = "map (\<lambda>i. (successorID ?x i, 1 :: int)) [0..<NBIT]"
  have nz: "\<forall>(x, num) \<in> set ?fs. num \<noteq> (0 :: int)" by (simp add: ball_simps)
  obtain t3 p3 where t3: "pin_all coins ?fs (incvnodes t2) = Some t3" "lt_core t3 xs" "lt_pins t3 xs p3"
    "pin_key t3 ` set p3 = fst ` set ?fs \<union> pin_key (incvnodes t2) ` set p2"
    using pin_all_ok [OF inc(1,2) nz, of coins] by blast
  have "nout c \<lparr>my_location = me, locations = t3, successors = new_succ_list nsucc ?x, predecessors = new_pred_list nsucc ?x,
      fingertab = new_finger_table, gotfingers = False, checkdead_int = checkdead, dead_nodes = [], timers = [FirstFingers]\<rparr> = 0"
    by (cases c) (simp_all add: nout.simps new_succ_list_def new_pred_list_def new_finger_table_def)
  moreover have "pin_key t3 ` set p3 = insert ?x (successorID ?x ` {0..<NBIT} \<union> pin_key t ` set ps)"
    using t3(4) t2(4) t1(4) inc(3) by (auto simp: image_image)
  moreover have "0 < nvnodes t3" using pin_all_kept [OF t3(1)] by (simp add: incvnodes_def)
  ultimately show ?thesis using t1(1) t2(1) t3(1-3)
    by (auto simp: new_vnode_def Let_def node_wf_def table_inv_def valid_timers_def simp del: pin_all.simps)
qed

subsection \<open>Every reachable state\<close>

lemma reach_inv:
  assumes "node_reach n s"
  shows "case s of (v, m, P) \<Rightarrow> (\<forall>c. nout c v = owned c P) \<and> timers_ok m \<and> node_wf n v \<and> valid_calls P"
  using assms
proof induction
  case (init me t xs ps nsucc coins checkdead v)
  then show ?case using new_vnode_ok [OF init(2-4), of coins checkdead me] by (auto simp: new_manager_def timers_ok_def)
next
  case (step s s')
  obtain v m P v' m' P' where s: "s = (v, m, P)" "s' = (v', m', P')" by (cases s; cases s') auto
  have n: "node_step (v, m, P) (v', m', P')" using step.hyps(2) s by simp
  have i: "\<forall>c. nout c v = owned c P" "timers_ok m" "node_wf n v" "valid_calls P" using step.IH s(1) by auto
  have "nout c v' = owned c P'" for c using node_step_counts [OF n, of c] i(1) by simp
  then show ?case using node_step_timers [OF n i(2)] wf_node_step [OF n i(3,4)] s(2) by simp
qed

text \<open>
  C22: whatever the order in which timers fire, calls are answered or fail, and other nodes send requests, the table of a node stays
  well-formed: the skip list of locations is sorted and holds the same nodes as the hash table and the queue of evictions, the pins
  are consistent, and the node keeps its identifier.
\<close>

theorem node_stays_wellformed:
  assumes "node_reach n (v, m, P)"
  shows "myID v = n \<and> (\<exists>xs ps. lt_core (locations v) xs \<and> lt_pins (locations v) xs ps)"
  using reach_inv [OF assms] by (simp add: node_wf_def table_inv_def)

text \<open>A node on the table of two nodes, which has asked to join.\<close>

lemma sample_reach:
  "\<exists>v. node_reach 7 (v, new_manager, [(join 20 v, JoinCb 20)]) \<and> node_reach 7 (v, new_manager, []) \<and> ring_nodes v"
proof -
  obtain s where s: "lt_core (two_table s) [0, 1]" "lt_pins (two_table s) [0, 1] []" using two_table_ok by blast
  obtain v where v: "new_vnode (\<lambda>_. []) 4 60 (two_loc 7) (two_table s) = Some v"
    using new_vnode_ok [OF s, of 4] by fastforce
  have r: "node_reach 7 (v, new_manager, [])"
    by (rule node_reach.init [OF _ s _ v]) (simp_all add: two_loc_def new_location_def)
  then have j: "node_reach 7 (v, new_manager, [] @ [(join 20 v, JoinCb 20)])" by (rule node_reach.step [OF _ node_step.joining])
  moreover have "wraps (locations v) = wraps (two_table s)" "locs (locations v) = [0, 1]" "my_location v = two_loc 7"
    using v by (auto simp: new_vnode_def Let_def incvnodes_def two_table_def simp del: pin_all.simps dest!: pin_all_kept split: bind_splits)
  moreover have "is_id 7" "is_id 20" by (simp_all add: is_id_def ring_def NBIT_def del: two_NBIT)
  ultimately have "ring_nodes v" using two_keys [of s] by (auto simp: ring_nodes_def live_ids_def live_def fun_eq_iff loc_key_def)
  then show ?thesis using r j by auto
qed

theorem node_stays_wellformed_witness:
  "\<exists>v m P. P \<noteq> [] \<and> myID v = 7 \<and> (\<exists>xs ps. lt_core (locations v) xs \<and> lt_pins (locations v) xs ps) \<and> node_reach 7 (v, m, P)"
proof -
  obtain v where r: "node_reach 7 (v, new_manager, [(join 20 v, JoinCb 20)])" using sample_reach by blast
  then show ?thesis using node_stays_wellformed [OF r] by blast
qed

text \<open>
  C20: in every reachable state each of the five counters of outstanding calls is the number of calls under way whose callback decrements
  it, so that no unsigned counter ever wraps around, and the timers stay between one second and twice their base. A continuous round that
  is due runs through without a failed assertion when \<^verbatim>\<open>closestsuccloc\<close> and \<^verbatim>\<open>closestpredloc\<close> find a successor and a
  predecessor in the table. When some node of the table is alive, and the identifiers of the node and of the nodes in its table are below 2^160,
  both rounds run through: no assertion fails, neither in the location table nor on the counters, and neither the estimate of the number of nodes nor
  its average over the virtual nodes divides by 0.
\<close>

theorem outstanding_calls_counted:
  assumes "node_reach n (v, m, P)"
  shows "nout c v = int (length (filter (\<lambda>(_, k). owner k = Some c) P)) \<and> timers_ok m
    \<and> (succ v = None \<or> pred v = None \<or> stabilize_continuous wire t m v \<noteq> None)
    \<and> (ring_nodes v \<longrightarrow> stabilize_continuous wire t m v \<noteq> None \<and> stabilize_backoff t m v \<noteq> None)"
proof -
  have i: "\<And>c. nout c v = owned c P" "timers_ok m" "table_inv v" "0 < nvnodes (locations v)"
    using reach_inv [OF assms] by (auto simp: node_wf_def)
  have pos: "0 \<le> sl_continuous (successors v)" "0 \<le> pl_continuous (predecessors v)" "0 \<le> sl_backoff (successors v)"
    using i(1) [of SuccContinuous] i(1) [of PredContinuous] i(1) [of SuccBackoff] owned_nonneg by (metis nout.simps)+
  have c: "succ v \<noteq> None \<Longrightarrow> pred v \<noteq> None \<Longrightarrow> stabilize_continuous wire t m v \<noteq> None"
    using continuous_total pos by blast
  moreover have "stabilize_continuous wire t m v \<noteq> None" "stabilize_backoff t m v \<noteq> None" if "ring_nodes v"
    using neighbours_total(1,2) [OF i(3) that] c backoff_total [OF i(3) that i(4) pos(3)] by auto
  ultimately show ?thesis using i(1,2) unfolding owned_def by blast
qed

theorem outstanding_calls_counted_witness:
  "\<exists>v m P. node_reach 7 (v, m, P) \<and> length P = 1 \<and> nout SuccBackoff v = 0 \<and> timers_ok m \<and> ring_nodes v
    \<and> stabilize_backoff bo_timer_init m v \<noteq> None"
proof -
  obtain v where r: "node_reach 7 (v, new_manager, [(join 20 v, JoinCb 20)])" "ring_nodes v" using sample_reach by blast
  have "nout SuccBackoff v = 0" "timers_ok new_manager" "stabilize_backoff bo_timer_init new_manager v \<noteq> None"
    using outstanding_calls_counted [OF r(1), of SuccBackoff id bo_timer_init] r(2) by simp_all
  then show ?thesis using r by (intro exI [of _ v] exI [of _ new_manager] exI [of _ "[(join 20 v, JoinCb 20)]"]) simp
qed

end
