(* ===== verification/Spec2Isabelle.thy ===== *)
theory Spec2Isabelle
  imports Init_Merge Estimates Ida_Correct Poly_Words Lsh Index_Store Merkle_Sync_Correct State_Log Chord_Stabilize
begin

text \<open>
  Verification of XGossip, the gossip layer on the Chord DHT under
  \<^verbatim>\<open>src/chord-0.1-vasil\<close>. Peers hold lists of document signatures (multisets of irreducible
  polynomials, as 32-bit words) with a frequency and a weight, halve and send them through
  the DHT (\<^verbatim>\<open>tools/gpsi.C\<close>), and answer queries from the averages. Two protocols are
  implemented: VanillaXGossip, one list per peer sent to random peers, and XGossip, one list
  per team of peers, teams being found by hashing signatures.

  The parts of the program and the theories that model them:

  \<^item> \<open>Prelude\<close>, \<open>Std_Map\<close>: shared types, and \<^verbatim>\<open>std::map\<close> as the locale \<open>ordered_map\<close> with
    sorted association lists as its interpretation.

  \<^item> \<open>Signatures\<close> (\<^verbatim>\<open>CompareSig\<close> of \<^verbatim>\<open>utils/utils.h\<close>; \<^verbatim>\<open>set_inter\<close>, \<^verbatim>\<open>set_uni\<close>, \<^verbatim>\<open>signcmp\<close> of
    \<^verbatim>\<open>tools/gpsi.C\<close>): the comparator is a strict linear order, the query test is the
    sub-multiset test, the similarity is the Jaccard coefficient.

  \<^item> \<open>Gossip_Lists\<close>, \<open>Merge_Correct\<close> (\<^verbatim>\<open>calcfreq\<close>, \<^verbatim>\<open>dividefreq\<close>, \<^verbatim>\<open>multiplyfreq\<close>,
    \<^verbatim>\<open>mergelists\<close>): a merge terminates, leaves one list over the union of the signatures and
    halves the sums of the effective frequencies and weights.

  \<^item> \<open>Wire\<close>, \<open>Messages\<close>, \<open>Payloads\<close>, \<open>Compression\<close> (\<^verbatim>\<open>makeKeyValue\<close>, \<^verbatim>\<open>getKeyValue\<close> and
    relatives, \<^verbatim>\<open>compressSignatures\<close>, \<^verbatim>\<open>uncompressSignatures\<close> of \<^verbatim>\<open>utils/utils.C\<close>): messages byte
    for byte, with round trips from the locale \<open>field_codec\<close>; an access outside a buffer is
    \<open>None\<close>.

  \<^item> \<open>Chord_ID\<close> (\<^verbatim>\<open>utils/id_utils.C\<close>, \<^verbatim>\<open>make_team\<close>): identifiers on the ring of \<open>2 ^ 160\<close>, as
    unbounded integers like the source's \<^verbatim>\<open>bigint\<close>.

  \<^item> \<open>Dht_Client\<close> (\<^verbatim>\<open>insertDHT\<close>, \<^verbatim>\<open>retrieveDHT\<close> and callbacks): the answers of the DHT are an
    argument; \<^verbatim>\<open>insertDHT\<close> returns after at most \<^verbatim>\<open>STOPCOUNT\<close> of them.

  \<^item> \<open>Gossip_Node\<close>, \<open>Node_Correct\<close>, \<open>Init_Merge\<close> (the globals of \<^verbatim>\<open>tools/gpsi.C\<close> as the record
    \<open>node\<close>, \<^verbatim>\<open>readgossip\<close> and everything it calls): the init phase counts what is announced,
    queries find exactly the matching signatures, lists are summed over teams.

  \<^item> \<open>Gossip_Rounds\<close> (the loops of \<^verbatim>\<open>main\<close>): one round of each protocol, cut where the event
    loop may run \<^verbatim>\<open>readgossip\<close>; a list sent by one peer is read by another as it was.

  \<^item> \<open>Gossip_Network\<close>, \<open>Xgossip_Network\<close>, \<open>Estimates\<close>: networks of peers as step relations that
    interleave rounds, failures and deliveries. A list of a team may reach any peer, and a peer that does not know the team drops
    it, as \<^verbatim>\<open>add2vecomapx\<close> does; the step relation counts what is dropped. The locale \<open>push_sum\<close> states what a
    participant owes the protocol; the peers of VanillaXGossip and the team lists of XGossip
    interpret it; a network of XGossip peers refines, for each team, the network of that
    team's lists. The mass of VanillaXGossip is conserved, that of XGossip up to the lists that were dropped, none if every peer
    knows the team, and estimates stay in range. A receipt of a list leaves out the tests of \<^verbatim>\<open>readgossip\<close> on phase and round: with
    \<^verbatim>\<open>accept_anyround\<close>, a constant that is true, they refuse no list.

  \<^item> \<open>Lsh\<close> (the class \<^verbatim>\<open>lsh\<close> of \<^verbatim>\<open>utils/utils.C\<close>, \<^verbatim>\<open>lshsig\<close>, \<^verbatim>\<open>lshquery\<close>): teams depend on the set
    of a signature's elements only, signatures with the same minima share a team, and every
    signature is announced to its teams.

  \<^item> \<open>Gf2\<close>, \<open>Polynomials\<close>, \<open>Poly_Correct\<close>, \<open>Poly_Division\<close>, \<open>Poly_Words\<close> (shifts, product,
    \<^verbatim>\<open>remainder\<close>, \<^verbatim>\<open>quotient\<close>, \<^verbatim>\<open>gcd\<close>, \<^verbatim>\<open>lcm\<close>, \<^verbatim>\<open>findMod\<close> of \<^verbatim>\<open>utils/utils.C\<close>): vectors of words
    as polynomials over the field with two elements; each operation against its definition on
    numbers.

  \<^item> \<open>Index_Node\<close>, \<open>Index_Correct\<close>, \<open>Index_Store\<close> (\<^verbatim>\<open>dhash/dhblock_noauth_srv.C\<close>, \<^verbatim>\<open>executeFilter\<close>
    of \<^verbatim>\<open>dhash/client.C\<close>, \<^verbatim>\<open>pSim\<close>, \<^verbatim>\<open>pickChild\<close>): the nodes of the distributed index; an acknowledged
    update is found by every later query it divides, replicas merge without losing entries.

  \<^item> \<open>Ida\<close>, \<open>Ida_Correct\<close> (\<^verbatim>\<open>utils/ida.C\<close>): information dispersal over the field with 65537
    elements; enough fragments give the block back. \<^verbatim>\<open>unpackone\<close> increments its position several times in one expression, which C++
    leaves undefined; the order a compiler chooses is the parameter \<open>ord\<close>, and the theorem is for the order from left to right.

  \<^item> \<open>Merkle_Hash\<close>, \<open>Merkle_Tree\<close>, \<open>Merkle_Correct\<close> (\<^verbatim>\<open>merkle/merkle_hash.C\<close>, \<^verbatim>\<open>merkle_node.C\<close>,
    \<^verbatim>\<open>merkle_tree.C\<close>): insertion and removal refine the set of keys, each set has one canonical
    tree, and equal root hashes mean equal sets. \<open>Merkle_Sync\<close>, \<open>Merkle_Sync_Correct\<close>
    (\<^verbatim>\<open>merkle_syncer.C\<close>, \<^verbatim>\<open>merkle_server.C\<close>): the exchange of two trees ends and reports exactly the
    keys that one of them lacks.

  \<^item> \<open>Skiplist\<close>, \<open>Skiplist_Correct\<close> (\<^verbatim>\<open>utils/skiplist.h\<close>): a heap of elements with forward
    pointers, refining a sorted list. The locale \<open>sorted_ring\<close> states what a client that walks
    around the ring relies on; the skip list interprets it, and \<open>Location\<close>, \<open>Location_Table\<close>,
    \<open>Location_Correct\<close> (\<^verbatim>\<open>utils/location.C\<close>, \<^verbatim>\<open>utils/locationtable.C\<close>) rest on it: neighbours are the
    closest live nodes, the table is bounded, and an eviction keeps exactly the nodes that the pins ask for
    (\<open>all_pinned\<close>). \<open>Location\<close> also has the conversion of a node to a message and back (\<^verbatim>\<open>fill_node\<close>, \<^verbatim>\<open>make_chord_node\<close>, the
    constructor of \<^verbatim>\<open>location\<close>): \<open>wire_loc\<close>, which keeps a \<open>sound\<close> node, one whose identifier is that of its address.

  \<^item> \<open>Sig_Text\<close>, \<open>State_Log\<close> (\<^verbatim>\<open>tokenize\<close>, \<^verbatim>\<open>sig2str\<close>, \<^verbatim>\<open>string2sig\<close>, \<^verbatim>\<open>netstring_encode\<close>, \<^verbatim>\<open>netstring_decode\<close>,
    \<^verbatim>\<open>loginitstate\<close>, \<^verbatim>\<open>loadinitstate\<close> of \<^verbatim>\<open>tools/gpsi.C\<close> and the action of \<^verbatim>\<open>main\<close> that merges init files): the log of a
    peer is read back up to the six decimals it prints, and the merge of several logs sums over all peers.

  \<^item> \<open>Chord_Node\<close> (\<^verbatim>\<open>chord/succ_list.C\<close>, \<^verbatim>\<open>pred_list.C\<close>, \<^verbatim>\<open>finger_table.C\<close>, \<^verbatim>\<open>fingerroute.C\<close>, the handlers of \<^verbatim>\<open>chord.C\<close> and
    the callbacks of \<^verbatim>\<open>server.C\<close>): a Chord node as a record over its location table; remote calls are values.
    \<open>Chord_Route\<close> (\<^verbatim>\<open>route_chord.C\<close>, \<^verbatim>\<open>find_route\<close> and \<^verbatim>\<open>doRPC\<close> of \<^verbatim>\<open>server.C\<close>) composes nodes to lookups over a
    network. \<open>Chord_Lookup\<close>: every lookup ends at the node responsible for the key, after at most 162 nodes (the locale
    \<open>ring_table\<close> states what a hop relies on, \<open>node_messages\<close> what the messages keep of a node, and \<open>wire_loc\<close> on sound nodes interprets it). \<open>Chord_Join\<close>: a node that joins is taken into the ring by its neighbours;
    the merge of successor lists always ends. \<open>Chord_Estimate\<close>: the estimate of the number of nodes divides by no 0. \<open>Chord_Stabilize\<close> (\<^verbatim>\<open>stabilize.C\<close>): the stabiliser, and the node as
    a state machine of timers, answers and requests in any order; in every reachable state the table is well-formed and
    the counters of outstanding calls are exact, so that the rounds of the stabiliser run through.

  Conventions. \<open>None\<close> is undefined behaviour of the source (an access out of range, a failed
  assertion, division by 0) unless a theory says otherwise. Frequencies and weights are of an
  arbitrary type with the operations of \<^verbatim>\<open>double\<close>; theorems that need exact arithmetic assume
  a field, so rounding is not covered; \<^verbatim>\<open>score\<close> of \<open>Index_Node\<close> is computed with integer division. Most parameters stand for what is outside the sources:
  \<open>show_id\<close> and \<open>show_uint\<close> (the texts that a string buffer prints for a \<^verbatim>\<open>bigint\<close> and an unsigned integer),
  the record \<open>net_env\<close> (SHA-1, \<^verbatim>\<open>inet_aton\<close>, the configured number of virtual nodes and the MODELNET switch), \<open>now\<close> (the clock), \<open>coins\<close> (the
  random levels of the skip list), \<open>up\<close> (which nodes
  answer), \<open>to_bits\<close> and \<open>of_bits\<close> (the memory image of a
  \<^verbatim>\<open>double\<close>), random choices, and the answers of the DHT. Two stand for code that is in the sources. \<open>tab\<close> is the table of inverses of the
  field, the literals of \<^verbatim>\<open>utils/ida-field.C\<close>, of which it is assumed that they are inverses. \<open>wire\<close>, an argument of the handlers in \<open>Chord_Node\<close>,
  \<open>Chord_Route\<close> and \<open>Chord_Stabilize\<close>, is the conversion of a node to a message and back; the theorems on lookups and joins are
  stated for \<open>wire_loc\<close>, and those that keep it free hold of any conversion. Loops are
  recursive functions with termination proofs, or partial functions whose value \<open>None\<close> includes
  not returning, with theorems that they return; no fuel is used. Lengths are bounded by \<open>2 ^ 31\<close> where the source
  stores them in an \<^verbatim>\<open>int\<close>.

  Not modelled: option parsing, sockets, timers and logging of \<^verbatim>\<open>tools/gpsi.C\<close>; the
  evaluation of experiments on files; the separate programs \<^verbatim>\<open>psi\<close>, \<^verbatim>\<open>push_sum\<close>, \<^verbatim>\<open>gis\<close>; the
  transport of calls, the network coordinates and the other routing modes of Chord (recursive, Accordion, fingers
  chosen by proximity); the rest of DHash; the Merkle tree on disk; the daemons. They are input and output around event loops, or separate
  programs.
\<close>

end
